(* ===== verification/Prelude.thy ===== *)
theory Prelude
  imports Main "HOL-Library.Word" "HOL-Library.Monad_Syntax"
begin

section \<open>Shared vocabulary of the development\<close>

text \<open>
  What every component uses: the machine integer types, the outcome of code that may panic,
  indexing and assignment with Rust's bounds checks, Rust's checked and saturating arithmetic,
  the first-match searches on vectors, and the collections of lemmas the component proofs pass
  to the simplifier.

  The kernel is built with \<^verbatim>\<open>MODE := release\<close> (os/Makefile), so plain
  arithmetic wraps and \<^verbatim>\<open>debug_assert!\<close> does nothing, while an index out of
  range, \<^verbatim>\<open>unwrap\<close> on \<^verbatim>\<open>None\<close>, \<^verbatim>\<open>assert!\<close> and
  \<^verbatim>\<open>panic!\<close> stop the kernel. An operation that can panic returns an option: None
  is the panic. A Rust \<^verbatim>\<open>Option\<close> that such an operation returns is a second option
  inside it.
\<close>

type_synonym u8 = "8 word"
type_synonym u16 = "16 word"
type_synonym u32 = "32 word"
type_synonym usize = "64 word"

type_synonym 'a outcome = "'a option"

named_theorems outcome_simps \<open>unfolding of the operations that may panic\<close>
named_theorems inv_simps \<open>definitions of component invariants\<close>
named_theorems keeps \<open>preservation of component invariants\<close>

subsection \<open>Panics, indexing, assignment\<close>

definition ensure :: "bool \<Rightarrow> unit outcome" where
  "ensure b = (if b then Some () else None)"

definition idx :: "'a list \<Rightarrow> nat \<Rightarrow> 'a outcome" where
  "idx xs i = (if i < length xs then Some (xs ! i) else None)"

definition upd :: "'a list \<Rightarrow> nat \<Rightarrow> 'a \<Rightarrow> 'a list outcome" where
  "upd xs i v = (if i < length xs then Some (xs[i := v]) else None)"

lemma ensure_simps [simp]:
  "ensure True = Some ()"
  "ensure False = None"
  "(ensure b = Some u) = b"
  "(ensure b = None) = (\<not> b)"
  by (simp_all add: ensure_def)

lemma ensure_bind [simp]: "(ensure b \<bind> f) = (if b then f () else None)"
  by (simp add: ensure_def)

lemma idx_Some [simp]: "(idx xs i = Some v) = (i < length xs \<and> xs ! i = v)"
  by (auto simp: idx_def)

lemma idx_None [simp]: "(idx xs i = None) = (length xs \<le> i)"
  by (auto simp: idx_def)

lemma upd_Some [simp]: "(upd xs i v = Some ys) = (i < length xs \<and> ys = xs[i := v])"
  by (auto simp: upd_def)

lemma upd_None [simp]: "(upd xs i v = None) = (length xs \<le> i)"
  by (auto simp: upd_def)

lemma idx_in_range: "i < length xs \<Longrightarrow> idx xs i = Some (xs ! i)"
  by simp

lemma upd_in_range: "i < length xs \<Longrightarrow> upd xs i v = Some (xs[i := v])"
  by simp

lemmas bind_Some_conv = Option.bind_eq_Some_conv
lemmas bind_None_conv = Option.bind_eq_None_conv

subsection \<open>First match in a vector\<close>

text \<open>
  Rust's \<^verbatim>\<open>iter().position(p)\<close> and \<^verbatim>\<open>iter().enumerate().find(p)\<close>:
  the index of the first element that satisfies the predicate.
\<close>

fun position :: "('a \<Rightarrow> bool) \<Rightarrow> 'a list \<Rightarrow> nat option" where
  "position p [] = None"
| "position p (x # xs) = (if p x then Some 0 else map_option Suc (position p xs))"

lemma position_None [simp]: "(position p xs = None) = (\<forall>x \<in> set xs. \<not> p x)"
  by (induction xs) auto

lemma position_SomeD:
  "position p xs = Some i \<Longrightarrow> i < length xs \<and> p (xs ! i) \<and> (\<forall>j < i. \<not> p (xs ! j))"
proof (induction xs arbitrary: i)
  case Nil
  then show ?case by simp
next
  case (Cons x xs)
  show ?case
  proof (cases "p x")
    case True
    with Cons.prems show ?thesis by simp
  next
    case False
    with Cons.prems obtain k where "position p xs = Some k" and i: "i = Suc k" by auto
    with Cons.IH have "k < length xs \<and> p (xs ! k) \<and> (\<forall>j < k. \<not> p (xs ! j))" by blast
    with False i show ?thesis by (auto simp: less_Suc_eq_0_disj)
  qed
qed

lemma position_Some_bound: "position p xs = Some i \<Longrightarrow> i < length xs"
  by (drule position_SomeD) simp

text \<open>
  The slot tables of the kernel (file descriptors, mutexes, sockets, listening ports) all store
  a new entry in the first free slot and grow by one when none is free.
\<close>

definition put_slot :: "'a option list \<Rightarrow> 'a \<Rightarrow> nat \<times> 'a option list" where
  "put_slot xs v = (case position (\<lambda>s. s = None) xs of
     Some i \<Rightarrow> (i, xs[i := Some v])
   | None \<Rightarrow> (length xs, xs @ [Some v]))"

lemma put_slot_spec:
  assumes "put_slot xs v = (i, ys)"
  shows "i < length ys" and "ys ! i = Some v"
    and "i < length xs \<Longrightarrow> xs ! i = None"
    and "\<And>j. j \<noteq> i \<Longrightarrow> j < length xs \<Longrightarrow> ys ! j = xs ! j"
    and "\<And>j. j < i \<Longrightarrow> j < length xs \<and> xs ! j \<noteq> None"
    and "length xs \<le> length ys" and "length ys \<le> Suc (length xs)"
  using assms
  by (auto simp: put_slot_def nth_append dest: position_SomeD split: option.splits)

lemma put_slot_occupied:
  assumes "put_slot xs v = (i, ys)"
  shows "Some w \<in> set ys \<longleftrightarrow> w = v \<or> Some w \<in> set xs"
proof (cases "position (\<lambda>s. s = None) xs")
  case None
  with assms show ?thesis by (auto simp: put_slot_def)
next
  case (Some k)
  then have k: "k < length xs" "xs ! k = None" by (auto dest: position_SomeD)
  have "Some w \<in> set (xs[k := Some v]) \<longleftrightarrow> w = v \<or> Some w \<in> set xs"
    using k by (auto simp: in_set_conv_nth nth_list_update intro: exI [of _ k])
      (metis nth_list_update option.distinct(1))
  with assms Some show ?thesis by (auto simp: put_slot_def)
qed

subsection \<open>Rust arithmetic on words\<close>

definition checked_add :: "'a::len word \<Rightarrow> 'a word \<Rightarrow> 'a word option" where
  "checked_add a b = (if unat a + unat b < 2 ^ LENGTH('a) then Some (a + b) else None)"

definition saturating_add :: "'a::len word \<Rightarrow> 'a word \<Rightarrow> 'a word" where
  "saturating_add a b = (if unat a + unat b < 2 ^ LENGTH('a) then a + b else - 1)"

definition saturating_sub :: "'a::len word \<Rightarrow> 'a word \<Rightarrow> 'a word" where
  "saturating_sub a b = (if b \<le> a then a - b else 0)"

lemma unat_add_no_wrap:
  fixes a b :: "'a::len word"
  assumes "unat a + unat b < 2 ^ LENGTH('a)"
  shows "unat (a + b) = unat a + unat b"
  using assms by (simp add: unat_word_ariths)

lemma checked_add_SomeD:
  fixes a b c :: "'a::len word"
  assumes "checked_add a b = Some c"
  shows "unat c = unat a + unat b" and "a \<le> c"
proof -
  from assms have *: "unat a + unat b < 2 ^ LENGTH('a)" "c = a + b"
    by (auto simp: checked_add_def split: if_splits)
  then show "unat c = unat a + unat b" by (simp add: unat_add_no_wrap)
  then show "a \<le> c" by (simp add: word_le_nat_alt)
qed

lemma unat_saturating_sub: "unat (saturating_sub a b) = unat a - unat b"
  by (auto simp: saturating_sub_def unat_sub word_le_nat_alt)

lemma unat_minus_one_word: "unat (- 1 :: 'a::len word) = 2 ^ LENGTH('a) - 1"
  by transfer (simp add: take_bit_minus_one_eq_mask mask_eq_exp_minus_1 nat_diff_distrib nat_power_eq)

lemma unat_saturating_add:
  fixes a b :: "'a::len word"
  shows "unat (saturating_add a b) = min (unat a + unat b) (2 ^ LENGTH('a) - 1)"
  by (auto simp: saturating_add_def unat_add_no_wrap min_def unat_minus_one_word)

lemma sint_small:
  fixes n :: usize
  assumes "unat n < 2 ^ 63"
  shows "sint n = int (unat n)"
proof -
  have "uint n < 2 ^ 63" using assms [folded of_nat_less_iff [where 'a = int]] by simp
  moreover have "- (2 ^ 63) \<le> uint n" by (rule order_trans [OF _ uint_ge_0]) simp
  ultimately show ?thesis by (simp add: sint_uint signed_take_bit_int_eq_self)
qed

lemma mod_shift_inj:
  fixes h i j n :: nat
  assumes "(h + i) mod n = (h + j) mod n" and "i < n" "j < n"
  shows "i = j"
proof -
  have *: "a = b" if "(h + a) mod n = (h + b) mod n" "a < n" "b < n" "a \<le> b" for a b
  proof -
    from that have "n dvd (h + b) - (h + a)" using mod_eq_dvd_iff_nat [of "h + a" "h + b" n] by auto
    then have "n dvd b - a" by simp
    moreover have "b - a < n" using that by simp
    ultimately have "b - a = 0" using nat_dvd_not_less by blast
    with that show ?thesis by simp
  qed
  show ?thesis using * [of i j] * [of j i] assms by (cases "i \<le> j") auto
qed

subsection \<open>Lists\<close>

lemma nth_snoc_eq: "i \<le> length xs \<Longrightarrow> (xs @ [x]) ! i = (if i = length xs then x else xs ! i)"
  by (auto simp: nth_append)

lemma bex_set_nth: "(\<exists>x \<in> set xs. P x) \<longleftrightarrow> (\<exists>i < length xs. P (xs ! i))"
  by (metis in_set_conv_nth)

lemma distinct_remove_nth:
  "distinct (map f xs) \<Longrightarrow> distinct (map f (take i xs @ drop (Suc i) xs))"
  using set_take_disj_set_drop_if_distinct [of "map f xs" i "Suc i"]
  by (simp add: take_map [symmetric] drop_map [symmetric] del: take_map drop_map)

lemma take_Suc_nth: "i < length xs \<Longrightarrow> take (Suc i) xs = take i xs @ [xs ! i]"
  by (rule take_Suc_conv_app_nth)

end
