(* ===== verification/Address.thy ===== *)
theory Address
  imports Prelude
begin

unbundle bit_operations_syntax

section \<open>Sv39 addresses and page numbers\<close>

text \<open>
  os/src/mm/address.rs and the page constants of os/src/config.rs: the four newtypes over
  \<^verbatim>\<open>usize\<close> with the order the source derives for them, their conversions with the
  Sv39 width masks, rounding to pages, the three table indexes of a virtual page number, and the
  half-open ranges of virtual page numbers with their iterator.
\<close>

definition PAGE_SIZE :: usize where "PAGE_SIZE = 0x1000"
definition PAGE_SIZE_BITS :: nat where "PAGE_SIZE_BITS = 0xc"
definition TRAMPOLINE :: usize where "TRAMPOLINE = - 1 - PAGE_SIZE + 1"
definition TRAP_CONTEXT_BASE :: usize where "TRAP_CONTEXT_BASE = TRAMPOLINE - PAGE_SIZE"
definition USER_STACK_SIZE :: usize where "USER_STACK_SIZE = 4096 * 2"
definition KERNEL_STACK_SIZE :: usize where "KERNEL_STACK_SIZE = 4096 * 2"

definition PA_WIDTH_SV39 :: nat where "PA_WIDTH_SV39 = 56"
definition VA_WIDTH_SV39 :: nat where "VA_WIDTH_SV39 = 39"
definition PPN_WIDTH_SV39 :: nat where "PPN_WIDTH_SV39 = PA_WIDTH_SV39 - PAGE_SIZE_BITS"
definition VPN_WIDTH_SV39 :: nat where "VPN_WIDTH_SV39 = VA_WIDTH_SV39 - PAGE_SIZE_BITS"

datatype phys_addr = PhysAddr (pa_val: usize)
datatype virt_addr = VirtAddr (va_val: usize)
datatype phys_page_num = PhysPageNum (ppn_val: usize)
datatype virt_page_num = VirtPageNum (vpn_val: usize)

lemmas width_defs = PAGE_SIZE_BITS_def PA_WIDTH_SV39_def VA_WIDTH_SV39_def PPN_WIDTH_SV39_def
  VPN_WIDTH_SV39_def

text \<open>The order the source derives: by the number inside.\<close>

instantiation virt_page_num :: linorder
begin

definition less_eq_virt_page_num :: "virt_page_num \<Rightarrow> virt_page_num \<Rightarrow> bool" where
  "less_eq_virt_page_num a b \<longleftrightarrow> vpn_val a \<le> vpn_val b"

definition less_virt_page_num :: "virt_page_num \<Rightarrow> virt_page_num \<Rightarrow> bool" where
  "less_virt_page_num a b \<longleftrightarrow> vpn_val a < vpn_val b"

instance
  by standard (auto simp: less_eq_virt_page_num_def less_virt_page_num_def virt_page_num.expand)

end

instantiation virt_addr :: linorder
begin

definition less_eq_virt_addr :: "virt_addr \<Rightarrow> virt_addr \<Rightarrow> bool" where
  "less_eq_virt_addr a b \<longleftrightarrow> va_val a \<le> va_val b"

definition less_virt_addr :: "virt_addr \<Rightarrow> virt_addr \<Rightarrow> bool" where
  "less_virt_addr a b \<longleftrightarrow> va_val a < va_val b"

instance
  by standard (auto simp: less_eq_virt_addr_def less_virt_addr_def virt_addr.expand)

end

instantiation phys_page_num :: linorder
begin

definition less_eq_phys_page_num :: "phys_page_num \<Rightarrow> phys_page_num \<Rightarrow> bool" where
  "less_eq_phys_page_num a b \<longleftrightarrow> ppn_val a \<le> ppn_val b"

definition less_phys_page_num :: "phys_page_num \<Rightarrow> phys_page_num \<Rightarrow> bool" where
  "less_phys_page_num a b \<longleftrightarrow> ppn_val a < ppn_val b"

instance
  by standard (auto simp: less_eq_phys_page_num_def less_phys_page_num_def phys_page_num.expand)

end

subsection \<open>Conversions\<close>

definition phys_addr_from :: "usize \<Rightarrow> phys_addr" where
  "phys_addr_from v = PhysAddr (v AND (push_bit PA_WIDTH_SV39 1 - 1))"

definition phys_page_num_from :: "usize \<Rightarrow> phys_page_num" where
  "phys_page_num_from v = PhysPageNum (v AND (push_bit PPN_WIDTH_SV39 1 - 1))"

definition virt_addr_from :: "usize \<Rightarrow> virt_addr" where
  "virt_addr_from v = VirtAddr (v AND (push_bit VA_WIDTH_SV39 1 - 1))"

definition virt_page_num_from :: "usize \<Rightarrow> virt_page_num" where
  "virt_page_num_from v = VirtPageNum (v AND (push_bit VPN_WIDTH_SV39 1 - 1))"

definition usize_from_virt_addr :: "virt_addr \<Rightarrow> usize" where
  "usize_from_virt_addr v =
     (if va_val v \<ge> push_bit (VA_WIDTH_SV39 - 1) 1
      then va_val v OR NOT (push_bit VA_WIDTH_SV39 1 - 1)
      else va_val v)"

definition va_floor :: "virt_addr \<Rightarrow> virt_page_num" where
  "va_floor v = VirtPageNum (va_val v div PAGE_SIZE)"

definition va_ceil :: "virt_addr \<Rightarrow> virt_page_num" where
  "va_ceil v = (if va_val v = 0 then VirtPageNum 0
                else VirtPageNum ((va_val v - 1 + PAGE_SIZE) div PAGE_SIZE))"

definition va_page_offset :: "virt_addr \<Rightarrow> usize" where
  "va_page_offset v = va_val v AND (PAGE_SIZE - 1)"

definition va_aligned :: "virt_addr \<Rightarrow> bool" where
  "va_aligned v = (va_page_offset v = 0)"

definition vpn_of_va :: "virt_addr \<Rightarrow> virt_page_num outcome" where
  "vpn_of_va v = do { _ \<leftarrow> ensure (va_page_offset v = 0); Some (va_floor v) }"

definition va_of_vpn :: "virt_page_num \<Rightarrow> virt_addr" where
  "va_of_vpn v = VirtAddr (push_bit PAGE_SIZE_BITS (vpn_val v))"

definition pa_floor :: "phys_addr \<Rightarrow> phys_page_num" where
  "pa_floor v = PhysPageNum (pa_val v div PAGE_SIZE)"

definition pa_ceil :: "phys_addr \<Rightarrow> phys_page_num" where
  "pa_ceil v = (if pa_val v = 0 then PhysPageNum 0
                else PhysPageNum ((pa_val v - 1 + PAGE_SIZE) div PAGE_SIZE))"

definition pa_page_offset :: "phys_addr \<Rightarrow> usize" where
  "pa_page_offset v = pa_val v AND (PAGE_SIZE - 1)"

definition pa_aligned :: "phys_addr \<Rightarrow> bool" where
  "pa_aligned v = (pa_page_offset v = 0)"

definition ppn_of_pa :: "phys_addr \<Rightarrow> phys_page_num outcome" where
  "ppn_of_pa v = do { _ \<leftarrow> ensure (pa_page_offset v = 0); Some (pa_floor v) }"

definition pa_of_ppn :: "phys_page_num \<Rightarrow> phys_addr" where
  "pa_of_ppn v = PhysAddr (push_bit PAGE_SIZE_BITS (ppn_val v))"

text \<open>The loop of \<^verbatim>\<open>VirtPageNum::indexes\<close> runs over 2, 1, 0 and shifts the number.\<close>

definition indexes :: "virt_page_num \<Rightarrow> usize list" where
  "indexes v =
     (let vpn2 = vpn_val v; i2 = vpn2 AND 511;
          vpn1 = drop_bit 9 vpn2; i1 = vpn1 AND 511;
          vpn0 = drop_bit 9 vpn1; i0 = vpn0 AND 511
      in [i0, i1, i2])"

subsection \<open>Ranges of virtual page numbers\<close>

record vpn_range =
  range_l :: virt_page_num
  range_r :: virt_page_num

definition range_new :: "virt_page_num \<Rightarrow> virt_page_num \<Rightarrow> vpn_range outcome" where
  "range_new s e = do { _ \<leftarrow> ensure (s \<le> e); Some \<lparr>range_l = s, range_r = e\<rparr> }"

definition vpn_step :: "virt_page_num \<Rightarrow> virt_page_num" where
  "vpn_step v = VirtPageNum (vpn_val v + 1)"

lemma unat_step_closer:
  fixes a b :: "'a::len word"
  assumes "a \<noteq> b"
  shows "unat (b - (a + 1)) < unat (b - a)"
proof -
  have "b - a \<noteq> 0" using assms by simp
  then have "unat (b - a - 1) < unat (b - a)"
    by (rule measure_unat)
  then show ?thesis by (simp add: algebra_simps)
qed

text \<open>
  \<^verbatim>\<open>SimpleRangeIterator::next\<close> run to its end: it stops when the current number equals
  the end, and steps with wrap-around otherwise.
\<close>

function vpn_iter :: "virt_page_num \<Rightarrow> virt_page_num \<Rightarrow> virt_page_num list" where
  "vpn_iter c e = (if c = e then [] else c # vpn_iter (vpn_step c) e)"
  by pat_completeness auto

termination
proof (relation "measure (\<lambda>(c, e). unat (vpn_val e - vpn_val c))")
  fix c e :: virt_page_num
  assume "c \<noteq> e"
  then have "vpn_val c \<noteq> vpn_val e" using virt_page_num.expand by blast
  then show "((vpn_step c, e), c, e) \<in> measure (\<lambda>(c, e). unat (vpn_val e - vpn_val c))"
    using unat_step_closer [of "vpn_val c" "vpn_val e"] by (simp add: vpn_step_def)
qed simp

declare vpn_iter.simps [simp del]

definition range_list :: "vpn_range \<Rightarrow> virt_page_num list" where
  "range_list r = vpn_iter (range_l r) (range_r r)"

subsection \<open>Masks and bits\<close>

lemma push_bit_one_minus_one: "push_bit n 1 - 1 = (mask n :: usize)"
  by (simp add: mask_eq_exp_minus_1 push_bit_eq_mult)

lemma and_511: "(x :: usize) AND 511 = take_bit 9 x"
proof -
  have "(511 :: usize) = mask 9" by (simp add: mask_eq_exp_minus_1)
  then show ?thesis by (simp add: take_bit_eq_mask)
qed

lemma and_page_mask: "(x :: usize) AND (PAGE_SIZE - 1) = take_bit 12 x"
proof -
  have "PAGE_SIZE - 1 = mask 12" by (simp add: mask_eq_exp_minus_1 PAGE_SIZE_def)
  then show ?thesis by (simp add: take_bit_eq_mask)
qed

lemma div_page_size: "(x :: usize) div PAGE_SIZE = drop_bit 12 x"
  by (simp add: drop_bit_eq_div PAGE_SIZE_def)

lemma virt_addr_from_val: "va_val (virt_addr_from v) = take_bit 39 v"
  unfolding virt_addr_from_def push_bit_one_minus_one by (simp add: width_defs take_bit_eq_mask)

lemma phys_page_num_from_val: "ppn_val (phys_page_num_from v) = take_bit 44 v"
  unfolding phys_page_num_from_def push_bit_one_minus_one by (simp add: width_defs take_bit_eq_mask)

lemma phys_addr_from_val: "pa_val (phys_addr_from v) = take_bit 56 v"
  unfolding phys_addr_from_def push_bit_one_minus_one by (simp add: width_defs take_bit_eq_mask)

lemma va_page_offset_bits: "va_page_offset v = take_bit 12 (va_val v)"
  by (simp add: va_page_offset_def and_page_mask)

lemma va_floor_bits: "vpn_val (va_floor v) = drop_bit 12 (va_val v)"
  by (simp add: va_floor_def div_page_size)

lemma unat_take_bit: "unat (take_bit n (x :: 'a::len word)) = take_bit n (unat x)"
  by (rule unsigned_take_bit_eq)

lemma unat_take_bit_lt: "n \<le> 64 \<Longrightarrow> unat (take_bit n (x :: usize)) < 2 ^ n"
  by (simp only: unat_take_bit) (simp add: take_bit_eq_mod)

lemma unat_power: "n < 64 \<Longrightarrow> unat (2 ^ n :: usize) = 2 ^ n"
proof -
  assume "n < 64"
  then have "(2::nat) ^ n < 2 ^ 64" by (intro power_strict_increasing) auto
  moreover have "(2 ^ n :: usize) = of_nat (2 ^ n)" by simp
  ultimately show ?thesis by (simp only: unat_of_nat) simp
qed

lemma word_less_exp_iff: "n < 64 \<Longrightarrow> (x :: usize) < 2 ^ n \<longleftrightarrow> unat x < 2 ^ n"
  by (simp only: word_less_nat_alt) (simp add: unat_power)

lemma indexes_bits:
  "indexes v = [take_bit 9 (drop_bit 18 (vpn_val v)), take_bit 9 (drop_bit 9 (vpn_val v)),
     take_bit 9 (vpn_val v)]"
  by (simp add: indexes_def Let_def and_511 drop_bit_drop_bit)

lemma unat_drop_bit: "unat (drop_bit n (x :: usize)) = unat x div 2 ^ n"
  by (simp only: unat_drop_bit_eq) (simp only: drop_bit_eq_div)

lemma indexes_lt_512:
  "i \<in> set (indexes v) \<Longrightarrow> unat i < 512"
  using unat_take_bit_lt [of 9 "drop_bit 18 (vpn_val v)"] unat_take_bit_lt [of 9 "drop_bit 9 (vpn_val v)"]
    unat_take_bit_lt [of 9 "vpn_val v"]
  by (auto simp: indexes_bits)

lemma length_indexes [simp]: "length (indexes v) = 3"
  by (simp add: indexes_def Let_def)

text \<open>Two page numbers of the Sv39 range with the same indexes are equal.\<close>

definition vpn_sv39 :: "virt_page_num \<Rightarrow> bool" where
  "vpn_sv39 v \<longleftrightarrow> unat (vpn_val v) < 2 ^ 27"

lemma indexes_inject:
  assumes "vpn_sv39 a" "vpn_sv39 b" and "indexes a = indexes b"
  shows "a = b"
proof -
  let ?n = "\<lambda>v. unat (vpn_val v)"
  have eq: "?n a div 2 ^ 18 mod 2 ^ 9 = ?n b div 2 ^ 18 mod 2 ^ 9"
    "?n a div 2 ^ 9 mod 2 ^ 9 = ?n b div 2 ^ 9 mod 2 ^ 9" "?n a mod 2 ^ 9 = ?n b mod 2 ^ 9"
    using arg_cong [OF assms(3), of "map unat"]
    by (simp_all only: indexes_bits list.map list.inject unat_take_bit unat_drop_bit)
      (simp_all only: take_bit_eq_mod)
  have "?n v = (?n v div 2 ^ 18 mod 2 ^ 9) * 2 ^ 18 + (?n v div 2 ^ 9 mod 2 ^ 9) * 2 ^ 9 + ?n v mod 2 ^ 9"
    if "vpn_sv39 v" for v
  proof -
    let ?m = "?n v div 2 ^ 9"
    have "?m div 2 ^ 9 = ?n v div 2 ^ 18" by (simp add: div_mult2_eq [symmetric])
    moreover have "?n v div 2 ^ 18 mod 2 ^ 9 = ?n v div 2 ^ 18"
      using that by (simp add: vpn_sv39_def less_mult_imp_div_less)
    moreover have "?m = ?m div 2 ^ 9 * 2 ^ 9 + ?m mod 2 ^ 9" by (rule div_mult_mod_eq [symmetric])
    moreover have "?n v = ?m * 2 ^ 9 + ?n v mod 2 ^ 9" by (rule div_mult_mod_eq [symmetric])
    ultimately have "?n v = (?n v div 2 ^ 18 * 2 ^ 9 + ?m mod 2 ^ 9) * 2 ^ 9 + ?n v mod 2 ^ 9" by metis
    with \<open>?n v div 2 ^ 18 mod 2 ^ 9 = ?n v div 2 ^ 18\<close> show ?thesis by (simp add: algebra_simps)
  qed
  then have "?n a = ?n b" using assms(1,2) eq by metis
  then show ?thesis by (metis word_unat_eq_iff virt_page_num.expand)
qed

subsection \<open>Ranges\<close>

lemma vpn_iter_empty [simp]: "vpn_iter e e = []"
  by (simp add: vpn_iter.simps)

lemma vpn_step_val:
  assumes "c < e"
  shows "unat (vpn_val (vpn_step c)) = Suc (unat (vpn_val c))"
proof -
  have "unat (vpn_val c) + unat (1 :: usize) < 2 ^ LENGTH(64)"
    using assms unsigned_less [of "vpn_val e", where ?'a = nat]
    by (simp add: less_virt_page_num_def word_less_nat_alt)
  from unat_add_no_wrap [OF this] show ?thesis by (simp add: vpn_step_def)
qed

lemma vpn_step_le: "c < e \<Longrightarrow> vpn_step c \<le> v \<longleftrightarrow> c < v"
  by (simp add: less_virt_page_num_def less_eq_virt_page_num_def word_less_nat_alt word_le_nat_alt
      vpn_step_val Suc_le_eq)

lemma vpn_iter_spec:
  "c \<le> e \<Longrightarrow> set (vpn_iter c e) = {c..<e} \<and> distinct (vpn_iter c e)
     \<and> sorted (vpn_iter c e)"
proof (induction c e rule: vpn_iter.induct)
  case (1 c e)
  show ?case
  proof (cases "c = e")
    case True
    then show ?thesis by simp
  next
    case False
    with "1.prems" have lt: "c < e" by simp
    note st = vpn_step_le [OF lt]
    from "1.IH" [OF False] lt have ih: "set (vpn_iter (vpn_step c) e) = {vpn_step c..<e}"
      "distinct (vpn_iter (vpn_step c) e)" "sorted (vpn_iter (vpn_step c) e)" by (auto simp: st)
    have eq: "vpn_iter c e = c # vpn_iter (vpn_step c) e"
      using False by (simp add: vpn_iter.simps [of c e])
    have "{c..<e} = insert c {vpn_step c..<e}" using lt by (auto simp: st)
    with ih eq show ?thesis by (auto simp: st)
  qed
qed

lemma set_range_list:
  "range_l r \<le> range_r r \<Longrightarrow> set (range_list r) = {range_l r..<range_r r}"
  by (simp add: range_list_def vpn_iter_spec)

lemma distinct_range_list: "range_l r \<le> range_r r \<Longrightarrow> distinct (range_list r)"
  by (simp add: range_list_def vpn_iter_spec)

lemma range_new_Some [simp]:
  "(range_new s e = Some r) = (s \<le> e \<and> r = \<lparr>range_l = s, range_r = e\<rparr>)"
  by (auto simp: range_new_def)

end
