(* ===== verification/Refcount.thy ===== *)
theory Refcount
  imports Prelude "HOL-Library.Multiset"
begin

section \<open>The contract of a reference-counted allocator\<close>

text \<open>
  The interface between an allocator of counted resources and the code that holds counted
  handles: a fresh resource had no reference, sharing adds one, releasing removes one. The client
  lemma: as long as only held handles are cloned and dropped, which Rust's ownership enforces for
  frame trackers, nothing panics and the count of every resource is the number of its handles.
\<close>

datatype 'i hop = Alloc | Clone 'i | Drop 'i

fun hrun :: "('s \<Rightarrow> ('i option \<times> 's) outcome) \<Rightarrow> ('s \<Rightarrow> 'i \<Rightarrow> 's outcome) \<Rightarrow> ('s \<Rightarrow> 'i \<Rightarrow> 's outcome)
    \<Rightarrow> 'i hop list \<Rightarrow> 's \<times> 'i multiset \<Rightarrow> ('s \<times> 'i multiset) outcome" where
  "hrun alloc share release [] st = Some st"
| "hrun alloc share release (Alloc # ops) (s, held) = do {
     (r, s') \<leftarrow> alloc s;
     hrun alloc share release ops (s', case r of None \<Rightarrow> held | Some i \<Rightarrow> add_mset i held)
   }"
| "hrun alloc share release (Clone i # ops) (s, held) =
     (if i \<in># held then do {
        s' \<leftarrow> share s i; hrun alloc share release ops (s', add_mset i held)
      } else hrun alloc share release ops (s, held))"
| "hrun alloc share release (Drop i # ops) (s, held) =
     (if i \<in># held then do {
        s' \<leftarrow> release s i; hrun alloc share release ops (s', held - {#i#})
      } else hrun alloc share release ops (s, held))"

locale refcounted =
  fixes alloc :: "'s \<Rightarrow> ('i option \<times> 's) outcome"
    and share :: "'s \<Rightarrow> 'i \<Rightarrow> 's outcome"
    and release :: "'s \<Rightarrow> 'i \<Rightarrow> 's outcome"
    and refs :: "'s \<Rightarrow> 'i \<Rightarrow> nat"
    and invar :: "'s \<Rightarrow> bool"
    and max_refs :: nat
  assumes alloc_ok: "invar s \<Longrightarrow> \<exists>r s'. alloc s = Some (r, s') \<and> invar s'
      \<and> (case r of None \<Rightarrow> s' = s | Some i \<Rightarrow> refs s i = 0 \<and> refs s' = (refs s)(i := 1))"
    and share_ok: "invar s \<Longrightarrow> 0 < refs s i \<Longrightarrow> refs s i < max_refs \<Longrightarrow>
      \<exists>s'. share s i = Some s' \<and> invar s' \<and> refs s' = (refs s)(i := Suc (refs s i))"
    and release_ok: "invar s \<Longrightarrow> 0 < refs s i \<Longrightarrow>
      \<exists>s'. release s i = Some s' \<and> invar s' \<and> refs s' = (refs s)(i := refs s i - 1)"
begin

lemma run_counts_handles:
  assumes "invar s" and "\<And>i. refs s i = count held i" and "size held + length ops \<le> max_refs"
  shows "\<exists>s' held'. hrun alloc share release ops (s, held) = Some (s', held')
    \<and> invar s' \<and> (\<forall>i. refs s' i = count held' i)"
  using assms
proof (induction ops arbitrary: s held)
  case Nil
  then show ?case by simp
next
  case (Cons op ops)
  show ?case
  proof (cases op)
    case Alloc
    from alloc_ok [OF Cons.prems(1)] obtain r s' where r: "alloc s = Some (r, s')" "invar s'"
      "case r of None \<Rightarrow> s' = s | Some i \<Rightarrow> refs s i = 0 \<and> refs s' = (refs s)(i := 1)" by blast
    let ?held = "case r of None \<Rightarrow> held | Some i \<Rightarrow> add_mset i held"
    have "refs s' j = count ?held j" for j using r(3) Cons.prems(2) by (cases r) auto
    moreover have "size ?held + length ops \<le> max_refs" using Cons.prems(3) by (cases r) auto
    ultimately show ?thesis using Cons.IH [OF r(2)] Alloc r(1) by auto
  next
    case (Clone i)
    show ?thesis
    proof (cases "i \<in># held")
      case False
      with Clone Cons show ?thesis by simp
    next
      case True
      then have "0 < refs s i" using Cons.prems(2) by simp
      moreover have "refs s i < max_refs"
        using Cons.prems(2,3) count_le_size [of held i] by simp
      ultimately obtain s' where s': "share s i = Some s'" "invar s'"
        "refs s' = (refs s)(i := Suc (refs s i))" using share_ok Cons.prems(1) by blast
      have "refs s' j = count (add_mset i held) j" for j using s'(3) Cons.prems(2) by auto
      moreover have "size (add_mset i held) + length ops \<le> max_refs" using Cons.prems(3) by simp
      ultimately show ?thesis using Cons.IH [OF s'(2)] Clone True s'(1) by auto
    qed
  next
    case (Drop i)
    show ?thesis
    proof (cases "i \<in># held")
      case False
      with Drop Cons show ?thesis by simp
    next
      case True
      then have "0 < refs s i" using Cons.prems(2) by simp
      with release_ok Cons.prems(1) obtain s' where s': "release s i = Some s'" "invar s'"
        "refs s' = (refs s)(i := refs s i - 1)" by blast
      have "refs s' j = count (held - {#i#}) j" for j using s'(3) Cons.prems(2) by auto
      moreover have "size (held - {#i#}) + length ops \<le> max_refs"
        using Cons.prems(3) size_Diff1_le [of held i] by simp
      ultimately show ?thesis using Cons.IH [OF s'(2)] Drop True s'(1) by auto
    qed
  qed
qed

end

end
