(* ===== verification/FrameAllocator.thy ===== *)
theory FrameAllocator
  imports Address Refcount
begin

section \<open>The physical frame allocator\<close>

text \<open>
  os/src/mm/frame_allocator.rs: the stack allocator with its recycled list and the reference
  counts that copy-on-write sharing needs. A \<^verbatim>\<open>FrameTracker\<close> is a counted handle:
  creating one is an allocation, cloning it adds a reference, dropping it releases one. Physical
  memory is a function from page numbers to pages of 512 doublewords; a new tracker clears its
  page.
\<close>

record stack_frame_allocator =
  current :: usize
  end_frame :: usize
  recycled :: "usize list"
  ref_counts :: "usize \<rightharpoonup> usize"

definition frame_allocator_new :: stack_frame_allocator where
  "frame_allocator_new = \<lparr>current = 0, end_frame = 0, recycled = [], ref_counts = Map.empty\<rparr>"

definition frame_allocator_init :: "stack_frame_allocator \<Rightarrow> phys_page_num \<Rightarrow> phys_page_num
    \<Rightarrow> stack_frame_allocator" where
  "frame_allocator_init fa l r = fa\<lparr>current := ppn_val l, end_frame := ppn_val r\<rparr>"

definition add_ref :: "stack_frame_allocator \<Rightarrow> phys_page_num \<Rightarrow> stack_frame_allocator outcome" where
  "add_ref fa ppn = (case ref_counts fa (ppn_val ppn) of
     None \<Rightarrow> None
   | Some n \<Rightarrow> Some (fa\<lparr>ref_counts := (ref_counts fa)(ppn_val ppn \<mapsto> n + 1)\<rparr>))"

definition ref_count :: "stack_frame_allocator \<Rightarrow> phys_page_num \<Rightarrow> usize" where
  "ref_count fa ppn = (case ref_counts fa (ppn_val ppn) of None \<Rightarrow> 0 | Some n \<Rightarrow> n)"

definition allocated_count :: "stack_frame_allocator \<Rightarrow> nat" where
  "allocated_count fa = card (dom (ref_counts fa))"

text \<open>Storing the initial reference count asserts that the frame had none.\<close>

definition insert_fresh :: "(usize \<rightharpoonup> usize) \<Rightarrow> usize \<Rightarrow> (usize \<rightharpoonup> usize) outcome" where
  "insert_fresh m ppn = do { _ \<leftarrow> ensure (m ppn = None); Some (m(ppn \<mapsto> 1)) }"

definition fa_alloc :: "stack_frame_allocator \<Rightarrow> (phys_page_num option \<times> stack_frame_allocator) outcome" where
  "fa_alloc fa =
     (if recycled fa \<noteq> [] then do {
        let ppn = last (recycled fa);
        m \<leftarrow> insert_fresh (ref_counts fa) ppn;
        Some (Some (phys_page_num_from ppn), fa\<lparr>recycled := butlast (recycled fa), ref_counts := m\<rparr>)
      }
      else if current fa = end_frame fa then Some (None, fa)
      else do {
        let ppn = current fa;
        m \<leftarrow> insert_fresh (ref_counts fa) ppn;
        Some (Some (phys_page_num_from ppn), fa\<lparr>current := current fa + 1, ref_counts := m\<rparr>)
      })"

fun insert_all_fresh :: "(usize \<rightharpoonup> usize) \<Rightarrow> usize list \<Rightarrow> (usize \<rightharpoonup> usize) outcome" where
  "insert_all_fresh m [] = Some m"
| "insert_all_fresh m (p # ps) = do { m' \<leftarrow> insert_fresh m p; insert_all_fresh m' ps }"

text \<open>The frames come in descending order, as the DMA allocation expects.\<close>

definition fa_alloc_more :: "stack_frame_allocator \<Rightarrow> usize
    \<Rightarrow> (phys_page_num list option \<times> stack_frame_allocator) outcome" where
  "fa_alloc_more fa pages =
     (if current fa + pages \<ge> end_frame fa then Some (None, fa)
      else do {
        let cur = current fa + pages;
        let offsets = map of_nat [1..<unat (pages + 1)];
        let frames = map (\<lambda>offset. PhysPageNum (cur - offset)) offsets;
        m \<leftarrow> insert_all_fresh (ref_counts fa) (map ppn_val frames);
        Some (Some frames, fa\<lparr>current := cur, ref_counts := m\<rparr>)
      })"

definition fa_dealloc :: "stack_frame_allocator \<Rightarrow> phys_page_num \<Rightarrow> stack_frame_allocator outcome" where
  "fa_dealloc fa p = (let ppn = ppn_val p in
     case ref_counts fa ppn of
       None \<Rightarrow> None
     | Some n \<Rightarrow> do {
         _ \<leftarrow> ensure (n > 0);
         let n' = n - 1;
         if n' = 0
         then Some (fa\<lparr>ref_counts := (ref_counts fa)(ppn := None), recycled := recycled fa @ [ppn]\<rparr>)
         else Some (fa\<lparr>ref_counts := (ref_counts fa)(ppn \<mapsto> n')\<rparr>)
       })"

text \<open>
  \<^verbatim>\<open>init_frame_allocator\<close>: the frames between the end of the kernel image and the end of
  memory. The linker symbol \<^verbatim>\<open>ekernel\<close> is a parameter.
\<close>

definition MEMORY_END :: usize where "MEMORY_END = 0x88000000"

definition init_frame_allocator :: "usize \<Rightarrow> stack_frame_allocator" where
  "init_frame_allocator ekernel =
     frame_allocator_init frame_allocator_new (pa_ceil (phys_addr_from ekernel))
       (pa_floor (phys_addr_from MEMORY_END))"

subsection \<open>Physical memory and frame trackers\<close>

type_synonym page = "nat \<Rightarrow> usize"

record kmem =
  frames :: stack_frame_allocator
  phys :: "phys_page_num \<Rightarrow> page"

definition clear_page :: "kmem \<Rightarrow> phys_page_num \<Rightarrow> kmem" where
  "clear_page k ppn = k\<lparr>phys := (phys k)(ppn := (\<lambda>_. 0))\<rparr>"

definition frame_alloc :: "kmem \<Rightarrow> (phys_page_num option \<times> kmem) outcome" where
  "frame_alloc k = do {
     (r, fa) \<leftarrow> fa_alloc (frames k);
     Some (case r of
       None \<Rightarrow> (None, k\<lparr>frames := fa\<rparr>)
     | Some ppn \<Rightarrow> (Some ppn, clear_page (k\<lparr>frames := fa\<rparr>) ppn))
   }"

definition frame_alloc_more :: "kmem \<Rightarrow> usize \<Rightarrow> (phys_page_num list option \<times> kmem) outcome" where
  "frame_alloc_more k num = do {
     (r, fa) \<leftarrow> fa_alloc_more (frames k) num;
     Some (case r of
       None \<Rightarrow> (None, k\<lparr>frames := fa\<rparr>)
     | Some ps \<Rightarrow> (Some ps, foldl clear_page (k\<lparr>frames := fa\<rparr>) ps))
   }"

definition frame_dealloc :: "kmem \<Rightarrow> phys_page_num \<Rightarrow> kmem outcome" where
  "frame_dealloc k ppn = do { fa \<leftarrow> fa_dealloc (frames k) ppn; Some (k\<lparr>frames := fa\<rparr>) }"

definition frame_add_ref :: "kmem \<Rightarrow> phys_page_num \<Rightarrow> kmem outcome" where
  "frame_add_ref k ppn = do { fa \<leftarrow> add_ref (frames k) ppn; Some (k\<lparr>frames := fa\<rparr>) }"

definition frame_ref_count :: "kmem \<Rightarrow> phys_page_num \<Rightarrow> usize" where
  "frame_ref_count k ppn = ref_count (frames k) ppn"

text \<open>Dropping a vector of trackers releases them in order.\<close>

fun drop_trackers :: "kmem \<Rightarrow> phys_page_num list \<Rightarrow> kmem outcome" where
  "drop_trackers k [] = Some k"
| "drop_trackers k (p # ps) = do { k' \<leftarrow> frame_dealloc k p; drop_trackers k' ps }"

subsection \<open>The allocator's invariant\<close>

text \<open>
  Between the first frame and the allocation frontier every frame is either free on the recycled
  stack, once, or in use with a positive reference count; the frames are Sv39 page numbers.
\<close>

definition fa_inv :: "usize \<Rightarrow> stack_frame_allocator \<Rightarrow> bool" where
  "fa_inv l fa \<longleftrightarrow> l \<le> current fa \<and> current fa \<le> end_frame fa \<and> unat (end_frame fa) < 2 ^ 44
     \<and> distinct (recycled fa)
     \<and> set (recycled fa) \<inter> dom (ref_counts fa) = {}
     \<and> set (recycled fa) \<union> dom (ref_counts fa) = {l..<current fa}
     \<and> (\<forall>p n. ref_counts fa p = Some n \<longrightarrow> n \<noteq> 0)"

lemma ppn_from_small: "unat p < 2 ^ 44 \<Longrightarrow> ppn_val (phys_page_num_from p) = p"
proof -
  assume "unat p < 2 ^ 44"
  then have "unat (take_bit 44 p) = unat p" by (simp only: unat_take_bit) (simp add: take_bit_eq_mod)
  then have "take_bit 44 p = p" by (simp add: word_unat_eq_iff)
  then show ?thesis by (simp add: phys_page_num_from_val)
qed

lemma word_frontier:
  fixes a b :: usize
  assumes "a < b"
  shows "unat (a + 1) = Suc (unat a)" and "a + 1 \<le> b"
proof -
  have "unat a + unat (1 :: usize) < 2 ^ LENGTH(64)"
    using assms unsigned_less [of b, where ?'a = nat] by (simp add: word_less_nat_alt)
  from unat_add_no_wrap [OF this] show *: "unat (a + 1) = Suc (unat a)" by simp
  with assms show "a + 1 \<le> b" by (simp add: word_less_nat_alt word_le_nat_alt)
qed

lemma interval_insert:
  fixes l a b :: usize
  assumes "a < b" "l \<le> a"
  shows "{l..<a + 1} = insert a {l..<a}"
  using word_frontier(1) [OF assms(1)] assms(2)
  by (auto simp: word_less_nat_alt word_le_nat_alt word_unat_eq_iff)

lemma fa_in_use_range: "fa_inv l fa \<Longrightarrow> ref_counts fa p = Some n \<Longrightarrow> l \<le> p \<and> p < current fa"
  unfolding fa_inv_def by (metis UnCI atLeastLessThan_iff domI)

lemma fa_frontier_free: "fa_inv l fa \<Longrightarrow> ref_counts fa (current fa) = None"
  using fa_in_use_range by fastforce

text \<open>Allocation never panics, hands out a frame nobody holds, and fails only on exhaustion.\<close>

lemma fa_alloc_ok:
  assumes inv: "fa_inv l fa"
  shows "\<exists>r fa'. fa_alloc fa = Some (r, fa') \<and> fa_inv l fa'
    \<and> (case r of
         None \<Rightarrow> fa' = fa \<and> recycled fa = [] \<and> current fa = end_frame fa
       | Some p \<Rightarrow> ref_counts fa (ppn_val p) = None
           \<and> ref_counts fa' = (ref_counts fa)(ppn_val p \<mapsto> 1)
           \<and> l \<le> ppn_val p \<and> ppn_val p < end_frame fa)"
proof (cases "recycled fa = []")
  case False
  let ?p = "last (recycled fa)"
  have mem: "?p \<in> set (recycled fa)" using False by simp
  with inv have free: "ref_counts fa ?p = None" and lt: "l \<le> ?p" "?p < current fa"
    unfolding fa_inv_def by auto
  then have small: "unat ?p < 2 ^ 44"
    using inv by (auto simp: fa_inv_def word_less_nat_alt word_le_nat_alt)
  have split: "recycled fa = butlast (recycled fa) @ [?p]" using False by simp
  have "distinct (butlast (recycled fa) @ [?p])" using inv split by (simp add: fa_inv_def)
  then have notin: "?p \<notin> set (butlast (recycled fa))" and dist: "distinct (butlast (recycled fa))"
    by simp_all
  have setrec: "set (recycled fa) = insert ?p (set (butlast (recycled fa)))"
    using split by (metis Un_insert_right empty_set list.simps(15) set_append sup_bot.right_neutral)
  define fa' where "fa' = fa\<lparr>recycled := butlast (recycled fa), ref_counts := (ref_counts fa)(?p \<mapsto> 1)\<rparr>"
  have "fa_alloc fa = Some (Some (phys_page_num_from ?p), fa')"
    using False free by (simp add: fa_alloc_def insert_fresh_def fa'_def Let_def)
  moreover have "fa_inv l fa'"
    using inv notin dist setrec unfolding fa_inv_def fa'_def by auto
  moreover have "ppn_val (phys_page_num_from ?p) = ?p" using small by (rule ppn_from_small)
  ultimately show ?thesis using free lt inv by (auto simp: fa'_def fa_inv_def)
next
  case rec: True
  show ?thesis
  proof (cases "current fa = end_frame fa")
    case True
    with rec inv show ?thesis by (auto simp: fa_alloc_def)
  next
    case False
    let ?p = "current fa"
    from False inv have lt: "?p < end_frame fa" by (auto simp: fa_inv_def)
    then have small: "unat ?p < 2 ^ 44" using inv by (auto simp: fa_inv_def word_less_nat_alt)
    have free: "ref_counts fa ?p = None" using inv by (rule fa_frontier_free)
    define fa' where "fa' = fa\<lparr>current := ?p + 1, ref_counts := (ref_counts fa)(?p \<mapsto> 1)\<rparr>"
    have "fa_alloc fa = Some (Some (phys_page_num_from ?p), fa')"
      using rec False free by (simp add: fa_alloc_def insert_fresh_def fa'_def Let_def)
    moreover have "fa_inv l fa'"
      using inv rec word_frontier [OF lt] interval_insert [OF lt, of l]
      unfolding fa_inv_def fa'_def by (auto simp: word_le_nat_alt)
    moreover have "ppn_val (phys_page_num_from ?p) = ?p" using small by (rule ppn_from_small)
    ultimately show ?thesis using free lt inv by (auto simp: fa'_def fa_inv_def)
  qed
qed

lemma add_ref_ok:
  assumes "fa_inv l fa" and "ref_counts fa (ppn_val p) = Some n" and "n + 1 \<noteq> 0"
  shows "\<exists>fa'. add_ref fa p = Some fa' \<and> fa_inv l fa'
    \<and> ref_counts fa' = (ref_counts fa)(ppn_val p \<mapsto> n + 1)"
proof -
  have "dom ((ref_counts fa)(ppn_val p \<mapsto> n + 1)) = dom (ref_counts fa)" using assms(2) by auto
  with assms show ?thesis by (auto simp: add_ref_def fa_inv_def)
qed

lemma fa_dealloc_ok:
  assumes "fa_inv l fa" and "ref_counts fa (ppn_val p) = Some n"
  shows "\<exists>fa'. fa_dealloc fa p = Some fa' \<and> fa_inv l fa'
    \<and> ref_counts fa' = (ref_counts fa)(ppn_val p := (if n = 1 then None else Some (n - 1)))
    \<and> recycled fa' = (if n = 1 then recycled fa @ [ppn_val p] else recycled fa)
    \<and> current fa' = current fa \<and> end_frame fa' = end_frame fa"
proof -
  let ?q = "ppn_val p"
  from assms have pos: "n \<noteq> 0" by (auto simp: fa_inv_def)
  then have ens: "0 < n" by (simp add: word_neq_0_conv)
  have notrec: "?q \<notin> set (recycled fa)" using assms by (auto simp: fa_inv_def)
  show ?thesis
  proof (cases "n = 1")
    case True
    let ?fa = "fa\<lparr>ref_counts := (ref_counts fa)(?q := None), recycled := recycled fa @ [?q]\<rparr>"
    have "fa_dealloc fa p = Some ?fa" using assms(2) True by (simp add: fa_dealloc_def Let_def)
    moreover have "fa_inv l ?fa"
    proof -
      have "dom ((ref_counts fa)(?q := None)) = dom (ref_counts fa) - {?q}" by auto
      moreover have "?q \<in> dom (ref_counts fa)" using assms(2) by auto
      ultimately show ?thesis using assms(1) notrec unfolding fa_inv_def by auto
    qed
    ultimately show ?thesis using True by simp
  next
    case False
    let ?fa = "fa\<lparr>ref_counts := (ref_counts fa)(?q \<mapsto> n - 1)\<rparr>"
    have "n - 1 \<noteq> 0" using False by simp
    then have "fa_dealloc fa p = Some ?fa" using assms(2) ens by (simp add: fa_dealloc_def Let_def)
    moreover have "fa_inv l ?fa"
    proof -
      have "dom ((ref_counts fa)(?q \<mapsto> n - 1)) = dom (ref_counts fa)" using assms(2) by auto
      then show ?thesis using assms(1) False unfolding fa_inv_def by auto
    qed
    ultimately show ?thesis using False by simp
  qed
qed

text \<open>The number of frames the allocator can still hand out one by one.\<close>

definition fa_free :: "stack_frame_allocator \<Rightarrow> nat" where
  "fa_free fa = length (recycled fa) + (unat (end_frame fa) - unat (current fa))"

lemma fa_alloc_free:
  assumes "fa_inv l fa" and "0 < fa_free fa"
  shows "\<exists>p fa'. fa_alloc fa = Some (Some p, fa') \<and> fa_free fa' = fa_free fa - 1"
proof (cases "recycled fa = []")
  case True
  with assms have lt: "current fa < end_frame fa" by (simp add: fa_free_def word_less_nat_alt)
  from assms(1) have "ref_counts fa (current fa) = None" by (rule fa_frontier_free)
  with True lt word_frontier [OF lt] show ?thesis
    by (simp add: fa_alloc_def insert_fresh_def fa_free_def Let_def)
next
  case False
  then have "last (recycled fa) \<in> set (recycled fa)" by simp
  with assms(1) have "ref_counts fa (last (recycled fa)) = None" unfolding fa_inv_def by auto
  with False show ?thesis
    by (cases "length (recycled fa)") (simp_all add: fa_alloc_def insert_fresh_def fa_free_def Let_def)
qed

text \<open>A successful frame allocation: a fresh, cleared page, and nothing else changes.\<close>

lemma frame_alloc_ok:
  assumes "fa_inv l (frames k)" and "0 < fa_free (frames k)"
  shows "\<exists>f k'. frame_alloc k = Some (Some f, k') \<and> fa_inv l (frames k')
    \<and> ref_counts (frames k) (ppn_val f) = None
    \<and> ref_counts (frames k') = (ref_counts (frames k))(ppn_val f \<mapsto> 1)
    \<and> unat (ppn_val f) < 2 ^ 44
    \<and> phys k' = (phys k)(f := (\<lambda>_. 0)) \<and> fa_free (frames k') = fa_free (frames k) - 1"
proof -
  from fa_alloc_free [OF assms] obtain p fa' where
    p: "fa_alloc (frames k) = Some (Some p, fa')" "fa_free fa' = fa_free (frames k) - 1" by blast
  with fa_alloc_ok [OF assms(1)] have
    *: "fa_inv l fa'" "ref_counts (frames k) (ppn_val p) = None"
    "ref_counts fa' = (ref_counts (frames k))(ppn_val p \<mapsto> 1)" "ppn_val p < end_frame (frames k)" by auto
  moreover from *(4) assms(1) have "unat (ppn_val p) < 2 ^ 44"
    by (auto simp: fa_inv_def word_less_nat_alt)
  ultimately show ?thesis using p by (auto simp: frame_alloc_def clear_page_def)
qed

subsection \<open>Frame trackers keep the allocator's contract\<close>

definition tracker_refs :: "stack_frame_allocator \<Rightarrow> phys_page_num \<Rightarrow> nat" where
  "tracker_refs fa p = unat (ref_count fa p)"

lemma tracker_refs_upd:
  "ref_counts fa' = (ref_counts fa)(ppn_val p \<mapsto> n) \<Longrightarrow>
     tracker_refs fa' = (tracker_refs fa)(p := unat n)"
  by (rule ext) (auto simp: tracker_refs_def ref_count_def phys_page_num.expand)

lemma tracker_refs_del:
  "ref_counts fa' = (ref_counts fa)(ppn_val p := None) \<Longrightarrow>
     tracker_refs fa' = (tracker_refs fa)(p := 0)"
  by (rule ext) (auto simp: tracker_refs_def ref_count_def phys_page_num.expand)

lemma tracker_refs_pos:
  "0 < tracker_refs fa p \<Longrightarrow>
     \<exists>n. ref_counts fa (ppn_val p) = Some n \<and> unat n = tracker_refs fa p"
  by (auto simp: tracker_refs_def ref_count_def split: option.splits)

lemma unat_not_max: "unat (n :: usize) < 2 ^ 64 - 1 \<Longrightarrow> n + 1 \<noteq> 0 \<and> unat (n + 1) = Suc (unat n)"
proof -
  assume "unat n < 2 ^ 64 - 1"
  then have "unat n + unat (1 :: usize) < 2 ^ LENGTH(64)" by simp
  from unat_add_no_wrap [OF this] show ?thesis by (auto simp: unat_eq_0 [symmetric] simp del: unat_eq_0)
qed

interpretation frames: refcounted fa_alloc add_ref fa_dealloc tracker_refs "fa_inv l" "2 ^ 64 - 1"
  for l
proof unfold_locales
  fix s assume "fa_inv l s"
  from fa_alloc_ok [OF this] obtain r s' where r: "fa_alloc s = Some (r, s')" "fa_inv l s'"
    "case r of None \<Rightarrow> s' = s \<and> recycled s = [] \<and> current s = end_frame s
     | Some p \<Rightarrow> ref_counts s (ppn_val p) = None \<and> ref_counts s' = (ref_counts s)(ppn_val p \<mapsto> 1)
         \<and> l \<le> ppn_val p \<and> ppn_val p < end_frame s" by blast
  have "case r of None \<Rightarrow> s' = s
     | Some i \<Rightarrow> tracker_refs s i = 0 \<and> tracker_refs s' = (tracker_refs s)(i := 1)"
  proof (cases r)
    case None
    with r(3) show ?thesis by simp
  next
    case (Some p)
    with r(3) tracker_refs_upd [of s' s p 1] show ?thesis
      by (auto simp: tracker_refs_def ref_count_def)
  qed
  with r(1,2) show "\<exists>r s'. fa_alloc s = Some (r, s') \<and> fa_inv l s' \<and>
      (case r of None \<Rightarrow> s' = s
       | Some i \<Rightarrow> tracker_refs s i = 0 \<and> tracker_refs s' = (tracker_refs s)(i := 1))" by blast
next
  fix s i assume a: "fa_inv l s" "0 < tracker_refs s i" "tracker_refs s i < 2 ^ 64 - 1"
  from tracker_refs_pos [OF a(2)] obtain n where
    n: "ref_counts s (ppn_val i) = Some n" "unat n = tracker_refs s i" by blast
  with a(3) unat_not_max [of n] have "n + 1 \<noteq> 0" "unat (n + 1) = Suc (tracker_refs s i)" by auto
  with add_ref_ok [OF a(1) n(1)] tracker_refs_upd
  show "\<exists>s'. add_ref s i = Some s' \<and> fa_inv l s' \<and>
      tracker_refs s' = (tracker_refs s)(i := Suc (tracker_refs s i))" by metis
next
  fix s i assume a: "fa_inv l s" "0 < tracker_refs s i"
  from tracker_refs_pos [OF a(2)] obtain n where
    n: "ref_counts s (ppn_val i) = Some n" "unat n = tracker_refs s i" by blast
  from fa_dealloc_ok [OF a(1) n(1)] obtain s' where s': "fa_dealloc s i = Some s'" "fa_inv l s'"
    "ref_counts s' = (ref_counts s)(ppn_val i := (if n = 1 then None else Some (n - 1)))" by blast
  have "tracker_refs s' = (tracker_refs s)(i := tracker_refs s i - 1)"
  proof (cases "n = 1")
    case True
    with s'(3) n(2) [symmetric] tracker_refs_del [of s' s i] show ?thesis by simp
  next
    case False
    moreover have "unat (n - 1) = unat n - 1"
      using a(2) n(2) by (metis less_irrefl unat_eq_0 unat_minus_one)
    ultimately show ?thesis using s'(3) n(2) tracker_refs_upd [of s' s i "n - 1"] by simp
  qed
  with s' show "\<exists>s'. fa_dealloc s i = Some s' \<and> fa_inv l s' \<and>
      tracker_refs s' = (tracker_refs s)(i := tracker_refs s i - 1)" by blast
qed

text \<open>The state after \<^verbatim>\<open>init_frame_allocator\<close> satisfies the invariant.\<close>

lemma memory_end_frame: "pa_floor (phys_addr_from MEMORY_END) = PhysPageNum 0x88000"
  by (simp add: pa_floor_def phys_addr_from_def MEMORY_END_def PAGE_SIZE_def width_defs)

definition kernel_fits :: "usize \<Rightarrow> bool" where
  "kernel_fits ekernel \<longleftrightarrow> pa_ceil (phys_addr_from ekernel) \<le> PhysPageNum 0x88000"

lemma init_inv:
  "kernel_fits ekernel \<Longrightarrow>
     fa_inv (ppn_val (pa_ceil (phys_addr_from ekernel))) (init_frame_allocator ekernel)"
  by (auto simp: fa_inv_def init_frame_allocator_def frame_allocator_init_def frame_allocator_new_def
      memory_end_frame kernel_fits_def less_eq_phys_page_num_def)

lemma init_refs: "ref_count (init_frame_allocator ekernel) p = 0"
  by (simp add: ref_count_def init_frame_allocator_def frame_allocator_init_def
      frame_allocator_new_def)

subsection \<open>Properties\<close>

text \<open>C10: frame ownership is safe. Starting from the allocator \<^verbatim>\<open>init_frame_allocator\<close>
  builds, whatever sequence of allocations, clones and drops the holders of frame trackers
  perform, the allocator never panics, and the reference count of every frame is exactly the
  number of live trackers for it; so a frame returns to the free stack only with its last
  tracker, and no frame is freed twice.\<close>

theorem frame_ownership_safe:
  assumes "kernel_fits ekernel" and "length ops < 2 ^ 64"
  shows "\<exists>fa held. hrun fa_alloc add_ref fa_dealloc ops (init_frame_allocator ekernel, {#}) = Some (fa, held)
    \<and> fa_inv (ppn_val (pa_ceil (phys_addr_from ekernel))) fa
    \<and> (\<forall>p. unat (ref_count fa p) = count held p)"
  using frames.run_counts_handles [OF init_inv [OF assms(1)], of "{#}" ops] assms(2)
  by (simp add: init_refs tracker_refs_def)

theorem frame_ownership_safe_witness:
  "\<exists>fa held. hrun fa_alloc add_ref fa_dealloc [Alloc, Clone (PhysPageNum 0x80500), Alloc]
      (init_frame_allocator 0x80500000, {#}) = Some (fa, held)
    \<and> fa_inv (ppn_val (pa_ceil (phys_addr_from 0x80500000))) fa
    \<and> (\<forall>p. unat (ref_count fa p) = count held p)"
  by (rule frame_ownership_safe)
    (simp_all add: kernel_fits_def pa_ceil_def phys_addr_from_def PAGE_SIZE_def width_defs
      less_eq_phys_page_num_def)

text \<open>An allocation succeeds unless memory is exhausted, and a frame it hands out was free:
  it has no owner and no other allocation can return it before it is released; failure means
  that every frame below the end of memory is in use.\<close>

lemma frame_alloc_fresh:
  assumes "fa_inv l fa"
  shows "\<exists>r fa'. fa_alloc fa = Some (r, fa') \<and> fa_inv l fa' \<and>
    (case r of
       None \<Rightarrow> fa' = fa \<and> {l..<end_frame fa} = dom (ref_counts fa)
     | Some p \<Rightarrow> ref_count fa p = 0 \<and> ref_count fa' p = 1 \<and> ppn_val p \<in> {l..<end_frame fa}
         \<and> (\<forall>q. q \<noteq> p \<longrightarrow> ref_count fa' q = ref_count fa q))"
proof -
  from fa_alloc_ok [OF assms] obtain r fa' where *: "fa_alloc fa = Some (r, fa')" "fa_inv l fa'"
    "case r of None \<Rightarrow> fa' = fa \<and> recycled fa = [] \<and> current fa = end_frame fa
     | Some p \<Rightarrow> ref_counts fa (ppn_val p) = None \<and> ref_counts fa' = (ref_counts fa)(ppn_val p \<mapsto> 1)
         \<and> l \<le> ppn_val p \<and> ppn_val p < end_frame fa" by blast
  show ?thesis
    using * assms by (cases r) (auto simp: fa_inv_def ref_count_def phys_page_num.expand)
qed

end
