(* ===== verification/Simulation.thy ===== *)
theory Simulation
  imports Prelude
begin

section \<open>Refinement of an abstract machine, panics included\<close>

text \<open>
  The contract by which several components are related to what they promise: every operation of
  the component, run in a state that satisfies the invariant, panics exactly when the abstract
  operation is not allowed, and otherwise ends in a state that the abstraction function maps to
  the abstract result. The invariant carries a budget (free frames, for the page table); each
  operation may use up a fixed amount of it. The client lemma is the same for whole runs.
\<close>

fun run :: "('s \<Rightarrow> 'o \<Rightarrow> 's outcome) \<Rightarrow> 's \<Rightarrow> 'o list \<Rightarrow> 's outcome" where
  "run step s [] = Some s"
| "run step s (op # ops) = do { s' \<leftarrow> step s op; run step s' ops }"

locale simulation =
  fixes step :: "'s \<Rightarrow> 'o \<Rightarrow> 's outcome"
    and astep :: "'a \<Rightarrow> 'o \<Rightarrow> 'a outcome"
    and abs :: "'s \<Rightarrow> 'a"
    and inv :: "nat \<Rightarrow> 's \<Rightarrow> bool"
    and cost :: nat
    and allowed :: "'o \<Rightarrow> bool"
  assumes step_ok: "inv (n + cost) s \<Longrightarrow> allowed op \<Longrightarrow> astep (abs s) op = Some a \<Longrightarrow>
      \<exists>s'. step s op = Some s' \<and> inv n s' \<and> abs s' = a"
    and step_panic: "inv (n + cost) s \<Longrightarrow> allowed op \<Longrightarrow> astep (abs s) op = None \<Longrightarrow> step s op = None"
begin

lemma run_refines:
  assumes "inv (length ops * cost) s" and "\<forall>op \<in> set ops. allowed op"
  shows "case run astep (abs s) ops of
      Some a \<Rightarrow> \<exists>s'. run step s ops = Some s' \<and> inv 0 s' \<and> abs s' = a
    | None \<Rightarrow> run step s ops = None"
  using assms
proof (induction ops arbitrary: s)
  case Nil
  then show ?case by simp
next
  case (Cons op ops)
  from Cons.prems have inv: "inv (length ops * cost + cost) s" and al: "allowed op"
    by (simp_all add: add.commute)
  show ?case
  proof (cases "astep (abs s) op")
    case None
    with step_panic [OF inv al] show ?thesis by simp
  next
    case (Some a)
    from step_ok [OF inv al Some] obtain s' where
      s': "step s op = Some s'" "inv (length ops * cost) s'" "abs s' = a" by blast
    from Cons.IH [OF s'(2)] Cons.prems(2) s' Some show ?thesis by (simp split: option.splits)
  qed
qed

end

end
