(* ===== verification/PageTable.thy ===== *)
theory PageTable
  imports FrameAllocator Simulation
begin

unbundle bit_operations_syntax

section \<open>Sv39 page tables\<close>

text \<open>
  os/src/mm/page_table.rs: page-table entries with the copy-on-write marker in a software bit,
  the three-level walk over physical memory, the operations on one mapping, and the translation
  of user pointers into slices of physical pages. A table page is read as 512 doublewords; the
  frames that hold the tables belong to the table, and dropping the table releases them.
\<close>

definition PTE_COW :: usize where "PTE_COW = push_bit 8 1"

definition PTE_V :: u8 where "PTE_V = 1"
definition PTE_R :: u8 where "PTE_R = 2"
definition PTE_W :: u8 where "PTE_W = 4"
definition PTE_X :: u8 where "PTE_X = 8"
definition PTE_U :: u8 where "PTE_U = 16"
definition PTE_G :: u8 where "PTE_G = 32"
definition PTE_A :: u8 where "PTE_A = 64"
definition PTE_D :: u8 where "PTE_D = 128"

lemmas pte_flag_defs = PTE_V_def PTE_R_def PTE_W_def PTE_X_def PTE_U_def PTE_G_def PTE_A_def PTE_D_def

text \<open>The operations the \<^verbatim>\<open>bitflags!\<close> types of the source use.\<close>

definition flags_contains :: "'a::len word \<Rightarrow> 'a word \<Rightarrow> bool" where
  "flags_contains fs f = (fs AND f = f)"

definition flags_insert :: "'a::len word \<Rightarrow> 'a word \<Rightarrow> 'a word" where
  "flags_insert fs f = fs OR f"

definition flags_remove :: "'a::len word \<Rightarrow> 'a word \<Rightarrow> 'a word" where
  "flags_remove fs f = fs AND NOT f"

datatype page_table_entry = PageTableEntry (pte_bits: usize)

definition pte_new :: "phys_page_num \<Rightarrow> u8 \<Rightarrow> page_table_entry" where
  "pte_new ppn flags = PageTableEntry (push_bit 10 (ppn_val ppn) OR ucast flags)"

definition pte_new_cow :: "phys_page_num \<Rightarrow> u8 \<Rightarrow> page_table_entry" where
  "pte_new_cow ppn flags = PageTableEntry (push_bit 10 (ppn_val ppn) OR ucast flags OR PTE_COW)"

definition pte_empty :: page_table_entry where
  "pte_empty = PageTableEntry 0"

definition pte_ppn :: "page_table_entry \<Rightarrow> phys_page_num" where
  "pte_ppn p = phys_page_num_from (drop_bit 10 (pte_bits p) AND (push_bit 44 1 - 1))"

text \<open>All eight bits are defined flags, so \<^verbatim>\<open>from_bits(..).unwrap()\<close> never fails.\<close>

definition pte_flags :: "page_table_entry \<Rightarrow> u8" where
  "pte_flags p = ucast (pte_bits p)"

definition pte_is_valid :: "page_table_entry \<Rightarrow> bool" where
  "pte_is_valid p = flags_contains (pte_flags p) PTE_V"

definition pte_readable :: "page_table_entry \<Rightarrow> bool" where
  "pte_readable p = flags_contains (pte_flags p) PTE_R"

definition pte_writable :: "page_table_entry \<Rightarrow> bool" where
  "pte_writable p = flags_contains (pte_flags p) PTE_W"

definition pte_executable :: "page_table_entry \<Rightarrow> bool" where
  "pte_executable p = flags_contains (pte_flags p) PTE_X"

definition pte_user_accessible :: "page_table_entry \<Rightarrow> bool" where
  "pte_user_accessible p = flags_contains (pte_flags p) PTE_U"

definition pte_is_cow :: "page_table_entry \<Rightarrow> bool" where
  "pte_is_cow p = (pte_bits p AND PTE_COW \<noteq> 0)"

subsection \<open>Tables in physical memory\<close>

record page_table =
  root_ppn :: phys_page_num
  pt_frames :: "phys_page_num list"

definition read_pte :: "kmem \<Rightarrow> phys_page_num \<Rightarrow> nat \<Rightarrow> page_table_entry" where
  "read_pte k ppn i = PageTableEntry (phys k ppn i)"

definition write_pte :: "kmem \<Rightarrow> phys_page_num \<Rightarrow> nat \<Rightarrow> page_table_entry \<Rightarrow> kmem" where
  "write_pte k ppn i e = k\<lparr>phys := (phys k)(ppn := (phys k ppn)(i := pte_bits e))\<rparr>"

definition page_table_new :: "kmem \<Rightarrow> (page_table \<times> kmem) outcome" where
  "page_table_new k = do {
     (r, k') \<leftarrow> frame_alloc k;
     frame \<leftarrow> r;
     Some (\<lparr>root_ppn = frame, pt_frames = [frame]\<rparr>, k')
   }"

definition from_token :: "usize \<Rightarrow> page_table" where
  "from_token satp = \<lparr>root_ppn = phys_page_num_from (satp AND (push_bit 44 1 - 1)), pt_frames = []\<rparr>"

text \<open>
  The walk over the three indexes: the last one gives the place of the leaf entry (table page and
  slot); an invalid entry before it ends the walk, or in the creating walk gets a new table.
\<close>

fun walk :: "kmem \<Rightarrow> phys_page_num \<Rightarrow> usize list \<Rightarrow> (phys_page_num \<times> nat) option" where
  "walk k ppn [] = None"
| "walk k ppn [i] = Some (ppn, unat i)"
| "walk k ppn (i # j # is) =
     (let pte = read_pte k ppn (unat i) in
      if \<not> pte_is_valid pte then None else walk k (pte_ppn pte) (j # is))"

definition find_pte :: "kmem \<Rightarrow> page_table \<Rightarrow> virt_page_num \<Rightarrow> (phys_page_num \<times> nat) option" where
  "find_pte k pt vpn = walk k (root_ppn pt) (indexes vpn)"

fun walk_create :: "kmem \<Rightarrow> phys_page_num list \<Rightarrow> phys_page_num \<Rightarrow> usize list
    \<Rightarrow> ((phys_page_num \<times> nat) option \<times> phys_page_num list \<times> kmem) outcome" where
  "walk_create k fs ppn [] = Some (None, fs, k)"
| "walk_create k fs ppn [i] = Some (Some (ppn, unat i), fs, k)"
| "walk_create k fs ppn (i # j # is) =
     (if \<not> pte_is_valid (read_pte k ppn (unat i)) then do {
        (r, k1) \<leftarrow> frame_alloc k;
        frame \<leftarrow> r;
        let k2 = write_pte k1 ppn (unat i) (pte_new frame PTE_V);
        walk_create k2 (fs @ [frame]) (pte_ppn (read_pte k2 ppn (unat i))) (j # is)
      } else walk_create k fs (pte_ppn (read_pte k ppn (unat i))) (j # is))"

definition find_pte_create :: "kmem \<Rightarrow> page_table \<Rightarrow> virt_page_num
    \<Rightarrow> ((phys_page_num \<times> nat) option \<times> page_table \<times> kmem) outcome" where
  "find_pte_create k pt vpn = do {
     (loc, fs, k') \<leftarrow> walk_create k (pt_frames pt) (root_ppn pt) (indexes vpn);
     Some (loc, pt\<lparr>pt_frames := fs\<rparr>, k')
   }"

definition pt_map :: "kmem \<Rightarrow> page_table \<Rightarrow> virt_page_num \<Rightarrow> phys_page_num \<Rightarrow> u8
    \<Rightarrow> (page_table \<times> kmem) outcome" where
  "pt_map k pt vpn ppn flags = do {
     (loc, pt', k') \<leftarrow> find_pte_create k pt vpn;
     (p, i) \<leftarrow> loc;
     _ \<leftarrow> ensure (\<not> pte_is_valid (read_pte k' p i));
     Some (pt', write_pte k' p i (pte_new ppn (flags OR PTE_V)))
   }"

definition map_cow :: "kmem \<Rightarrow> page_table \<Rightarrow> virt_page_num \<Rightarrow> phys_page_num \<Rightarrow> u8
    \<Rightarrow> (page_table \<times> kmem) outcome" where
  "map_cow k pt vpn ppn flags = do {
     (loc, pt', k') \<leftarrow> find_pte_create k pt vpn;
     (p, i) \<leftarrow> loc;
     _ \<leftarrow> ensure (\<not> pte_is_valid (read_pte k' p i));
     let fl = flags_insert (flags_remove flags PTE_W) PTE_V;
     Some (pt', write_pte k' p i (pte_new_cow ppn fl))
   }"

definition mark_cow :: "kmem \<Rightarrow> page_table \<Rightarrow> virt_page_num \<Rightarrow> kmem outcome" where
  "mark_cow k pt vpn = do {
     (p, i) \<leftarrow> find_pte k pt vpn;
     let pte = read_pte k p i;
     _ \<leftarrow> ensure (pte_is_valid pte);
     let ppn = pte_ppn pte;
     let flags = pte_flags pte;
     if pte_is_cow pte then do {
       _ \<leftarrow> ensure (\<not> flags_contains flags PTE_W);
       Some k
     } else do {
       _ \<leftarrow> ensure (flags_contains flags PTE_W);
       Some (write_pte k p i (pte_new_cow ppn (flags_remove flags PTE_W)))
     }
   }"

definition resolve_cow :: "kmem \<Rightarrow> page_table \<Rightarrow> virt_page_num \<Rightarrow> phys_page_num \<Rightarrow> kmem outcome" where
  "resolve_cow k pt vpn new_ppn = do {
     (p, i) \<leftarrow> find_pte k pt vpn;
     let pte = read_pte k p i;
     _ \<leftarrow> ensure (pte_is_valid pte);
     _ \<leftarrow> ensure (pte_is_cow pte);
     let flags = flags_insert (flags_insert (pte_flags pte) PTE_W) PTE_V;
     Some (write_pte k p i (pte_new new_ppn flags))
   }"

definition pt_unmap :: "kmem \<Rightarrow> page_table \<Rightarrow> virt_page_num \<Rightarrow> kmem outcome" where
  "pt_unmap k pt vpn = do {
     (p, i) \<leftarrow> find_pte k pt vpn;
     _ \<leftarrow> ensure (pte_is_valid (read_pte k p i));
     Some (write_pte k p i pte_empty)
   }"

definition pt_translate :: "kmem \<Rightarrow> page_table \<Rightarrow> virt_page_num \<Rightarrow> page_table_entry option" where
  "pt_translate k pt vpn = map_option (\<lambda>(p, i). read_pte k p i) (find_pte k pt vpn)"

definition translate_va :: "kmem \<Rightarrow> page_table \<Rightarrow> virt_addr \<Rightarrow> phys_addr option" where
  "translate_va k pt va = map_option (\<lambda>(p, i).
       phys_addr_from (pa_val (pa_of_ppn (pte_ppn (read_pte k p i))) + va_page_offset va))
     (find_pte k pt (va_floor va))"

definition pt_token :: "page_table \<Rightarrow> usize" where
  "pt_token pt = push_bit 60 8 OR ppn_val (root_ppn pt)"

subsection \<open>User buffers\<close>

text \<open>
  A slice of a physical page: the page, its first byte and the byte after its last. The loop of
  \<^verbatim>\<open>translated_byte_buffer\<close> may run past the requested range or panic on a hole in the
  address space; None stands for both.
\<close>

type_synonym slice = "phys_page_num \<times> nat \<times> nat"

partial_function (option) byte_buffers :: "kmem \<Rightarrow> page_table \<Rightarrow> usize \<Rightarrow> usize \<Rightarrow> slice list option" where
  "byte_buffers k pt start fin =
     (if start < fin then do {
        let start_va = virt_addr_from start;
        let vpn = va_floor start_va;
        pte \<leftarrow> pt_translate k pt vpn;
        let ppn = pte_ppn pte;
        let vpn' = vpn_step vpn;
        let end_va = min (va_of_vpn vpn') (virt_addr_from fin);
        let hi = (if va_page_offset end_va = 0 then 4096 else unat (va_page_offset end_va));
        _ \<leftarrow> ensure (unat (va_page_offset start_va) \<le> hi);
        rest \<leftarrow> byte_buffers k pt (usize_from_virt_addr end_va) fin;
        Some ((ppn, unat (va_page_offset start_va), hi) # rest)
      } else Some [])"

definition translated_byte_buffer :: "kmem \<Rightarrow> usize \<Rightarrow> usize \<Rightarrow> usize \<Rightarrow> slice list option" where
  "translated_byte_buffer k token ptr len = byte_buffers k (from_token token) ptr (ptr + len)"

text \<open>A byte of physical memory, little endian inside its doubleword.\<close>

definition phys_byte :: "kmem \<Rightarrow> phys_addr \<Rightarrow> u8" where
  "phys_byte k pa =
     (let off = unat (pa_page_offset pa) in
      ucast (drop_bit (8 * (off mod 8)) (phys k (pa_floor pa) (off div 8))))"

partial_function (option) read_cstr :: "kmem \<Rightarrow> page_table \<Rightarrow> usize \<Rightarrow> u8 list option" where
  "read_cstr k pt va = do {
     pa \<leftarrow> translate_va k pt (virt_addr_from va);
     let ch = phys_byte k pa;
     if ch = 0 then Some [] else do {
       rest \<leftarrow> read_cstr k pt (va + 1);
       Some (ch # rest)
     }
   }"

definition translated_str :: "kmem \<Rightarrow> usize \<Rightarrow> usize \<Rightarrow> u8 list option" where
  "translated_str k token ptr = read_cstr k (from_token token) ptr"

definition translated_ref :: "kmem \<Rightarrow> usize \<Rightarrow> usize \<Rightarrow> phys_addr outcome" where
  "translated_ref k token ptr = translate_va k (from_token token) (virt_addr_from ptr)"

definition translated_refmut :: "kmem \<Rightarrow> usize \<Rightarrow> usize \<Rightarrow> phys_addr outcome" where
  "translated_refmut k token ptr = translate_va k (from_token token) (virt_addr_from ptr)"

definition user_buffer_len :: "slice list \<Rightarrow> nat" where
  "user_buffer_len bs = sum_list (map (\<lambda>(p, lo, hi). hi - lo) bs)"

record user_buffer_iterator =
  buffers :: "slice list"
  current_buffer :: nat
  current_idx :: nat

definition user_buffer_into_iter :: "slice list \<Rightarrow> user_buffer_iterator" where
  "user_buffer_into_iter bs = \<lparr>buffers = bs, current_buffer = 0, current_idx = 0\<rparr>"

text \<open>The iterator yields the page and the offset of each byte.\<close>

definition user_buffer_next :: "user_buffer_iterator
    \<Rightarrow> ((phys_page_num \<times> nat) option \<times> user_buffer_iterator) outcome" where
  "user_buffer_next it =
     (if current_buffer it \<ge> length (buffers it) then Some (None, it)
      else do {
        (p, lo, hi) \<leftarrow> idx (buffers it) (current_buffer it);
        _ \<leftarrow> ensure (current_idx it < hi - lo);
        let result = (p, lo + current_idx it);
        if current_idx it + 1 = hi - lo
        then Some (Some result, it\<lparr>current_idx := 0, current_buffer := current_buffer it + 1\<rparr>)
        else Some (Some result, it\<lparr>current_idx := current_idx it + 1\<rparr>)
      })"

subsection \<open>Entries\<close>

lemma flags_contains_exp:
  assumes "n < 8"
  shows "flags_contains (fs :: u8) (2 ^ n) \<longleftrightarrow> bit fs n"
proof
  assume "flags_contains fs (2 ^ n)"
  then have "bit (fs AND 2 ^ n) n = bit (2 ^ n :: u8) n" by (simp add: flags_contains_def)
  then show "bit fs n" using assms by (simp add: bit_simps)
next
  assume "bit fs n"
  then show "flags_contains fs (2 ^ n)"
    unfolding flags_contains_def by (intro bit_word_eqI) (auto simp: bit_simps)
qed

lemma flags_contains_bit:
  "flags_contains fs PTE_V \<longleftrightarrow> bit fs 0" "flags_contains fs PTE_R \<longleftrightarrow> bit fs 1"
  "flags_contains fs PTE_W \<longleftrightarrow> bit fs 2" "flags_contains fs PTE_X \<longleftrightarrow> bit fs 3"
  "flags_contains fs PTE_U \<longleftrightarrow> bit fs 4"
  using flags_contains_exp [of 0 fs] flags_contains_exp [of 1 fs] flags_contains_exp [of 2 fs]
    flags_contains_exp [of 3 fs] flags_contains_exp [of 4 fs]
  by (simp_all add: pte_flag_defs)

lemma bit_PTE_COW: "bit PTE_COW n \<longleftrightarrow> n = 8"
proof -
  have eq: "PTE_COW = 2 ^ 8" by (simp add: PTE_COW_def)
  show ?thesis unfolding eq by (simp only: bit_exp_iff) (auto simp: possible_bit_def)
qed

lemma pte_ppn_bits: "ppn_val (pte_ppn p) = take_bit 44 (drop_bit 10 (pte_bits p))"
  unfolding pte_ppn_def push_bit_one_minus_one
  by (simp add: phys_page_num_from_val take_bit_eq_mask and.assoc)

lemma bit_small_ppn: "unat (v :: usize) < 2 ^ 44 \<Longrightarrow> bit v n \<Longrightarrow> n < 44"
proof -
  assume a: "unat v < 2 ^ 44" "bit v n"
  then have "unat (take_bit 44 v) = unat v" by (simp only: unat_take_bit) (simp add: take_bit_eq_mod)
  then have "v = take_bit 44 v" by (simp add: word_unat_eq_iff)
  with a(2) show "n < 44" by (metis bit_take_bit_iff)
qed

lemma bit_flags_lt: "bit (fs :: u8) n \<Longrightarrow> n < 8"
  using bit_imp_le_length by fastforce

text \<open>An entry returns the frame and the flags it was made of, in both forms.\<close>

lemma pte_new_ppn:
  assumes "unat (ppn_val p) < 2 ^ 44"
  shows "pte_ppn (pte_new p fs) = p"
proof (rule phys_page_num.expand, rule bit_word_eqI)
  fix n assume "n < LENGTH(64)"
  with bit_small_ppn [OF assms, of n] bit_flags_lt [of fs "10 + n"]
  show "bit (ppn_val (pte_ppn (pte_new p fs))) n = bit (ppn_val p) n"
    by (auto simp: pte_ppn_bits pte_new_def bit_simps)
qed

lemma pte_new_cow_ppn:
  assumes "unat (ppn_val p) < 2 ^ 44"
  shows "pte_ppn (pte_new_cow p fs) = p"
proof (rule phys_page_num.expand, rule bit_word_eqI)
  fix n assume "n < LENGTH(64)"
  with bit_small_ppn [OF assms, of n] bit_flags_lt [of fs "10 + n"]
  show "bit (ppn_val (pte_ppn (pte_new_cow p fs))) n = bit (ppn_val p) n"
    by (auto simp: pte_ppn_bits pte_new_cow_def bit_PTE_COW bit_simps)
qed

lemma pte_new_flags [simp]: "pte_flags (pte_new p fs) = fs"
  by (rule bit_word_eqI) (auto simp: pte_flags_def pte_new_def bit_simps)

lemma pte_new_cow_flags [simp]: "pte_flags (pte_new_cow p fs) = fs"
  by (rule bit_word_eqI) (auto simp: pte_flags_def pte_new_cow_def bit_PTE_COW bit_simps)

lemma pte_is_cow_bit: "pte_is_cow p \<longleftrightarrow> bit (pte_bits p) 8"
proof -
  have "pte_bits p AND PTE_COW = 0 \<longleftrightarrow> (\<forall>n. \<not> bit (pte_bits p AND PTE_COW) n)"
    by (metis bit_eq_iff bit_0_eq bot_apply bot_bool_def)
  then show ?thesis by (auto simp: pte_is_cow_def bit_PTE_COW bit_and_iff)
qed

lemma pte_new_not_cow [simp]: "\<not> pte_is_cow (pte_new p fs)"
  by (auto simp: pte_is_cow_bit pte_new_def bit_simps dest: bit_flags_lt)

lemma pte_new_cow_is_cow [simp]: "pte_is_cow (pte_new_cow p fs)"
  by (simp add: pte_is_cow_bit pte_new_cow_def bit_PTE_COW bit_or_iff)

lemma pte_empty_invalid [simp]: "\<not> pte_is_valid pte_empty" "\<not> pte_is_valid (PageTableEntry 0)"
  by (simp_all add: pte_is_valid_def flags_contains_bit pte_flags_def pte_empty_def)

lemma bit_PTE_V: "bit PTE_V n \<longleftrightarrow> n = 0"
  by (simp add: PTE_V_def bit_1_iff)

lemma bit_PTE_W: "bit PTE_W n \<longleftrightarrow> n = 2"
proof -
  have eq: "PTE_W = 2 ^ 2" by (simp add: PTE_W_def)
  show ?thesis unfolding eq by (simp only: bit_exp_iff) (auto simp: possible_bit_def)
qed

lemma pte_is_valid_new [simp]:
  "pte_is_valid (pte_new p (fs OR PTE_V))" "pte_is_valid (pte_new p PTE_V)"
  "pte_is_valid (pte_new p (flags_insert fs PTE_V))" "pte_is_valid (pte_new_cow p (flags_insert fs PTE_V))"
  by (simp_all add: pte_is_valid_def flags_contains_bit flags_insert_def bit_or_iff bit_PTE_V)

subsection \<open>The tree of tables\<close>

text \<open>
  The table page an index path leads to. A page table is well formed when the paths to its
  tables (at most two indexes) lead to distinct pages, which are the frames it owns exclusively.
\<close>

fun node :: "kmem \<Rightarrow> phys_page_num \<Rightarrow> nat list \<Rightarrow> phys_page_num option" where
  "node k p [] = Some p"
| "node k p (i # is) =
     (if pte_is_valid (read_pte k p i) then node k (pte_ppn (read_pte k p i)) is else None)"

definition table_path :: "nat list \<Rightarrow> bool" where
  "table_path is \<longleftrightarrow> length is \<le> 2 \<and> (\<forall>i \<in> set is. i < 512)"

definition pt_inv :: "usize \<Rightarrow> kmem \<Rightarrow> page_table \<Rightarrow> bool" where
  "pt_inv l k pt \<longleftrightarrow> fa_inv l (frames k)
     \<and> (\<forall>f \<in> set (pt_frames pt). ref_counts (frames k) (ppn_val f) = Some 1)
     \<and> (\<forall>is q. table_path is \<longrightarrow> node k (root_ppn pt) is = Some q \<longrightarrow> q \<in> set (pt_frames pt))
     \<and> (\<forall>is js q. table_path is \<longrightarrow> table_path js \<longrightarrow> node k (root_ppn pt) is = Some q
          \<longrightarrow> node k (root_ppn pt) js = Some q \<longrightarrow> is = js)"

lemma node_append: "node k p (is @ js) = Option.bind (node k p is) (\<lambda>q. node k q js)"
  by (induction "is" arbitrary: p) auto

lemma walk_node: "walk k p (is @ [i]) = map_option (\<lambda>q. (q, unat i)) (node k p (map unat is))"
proof (induction "is" arbitrary: p)
  case (Cons j js)
  then show ?case by (cases "js @ [i]") (auto simp: Let_def)
qed simp

definition upper :: "virt_page_num \<Rightarrow> nat list" where
  "upper vpn = map unat (butlast (indexes vpn))"

definition slot :: "virt_page_num \<Rightarrow> nat" where
  "slot vpn = unat (last (indexes vpn))"

lemma indexes_split: "indexes vpn = butlast (indexes vpn) @ [last (indexes vpn)]"
  by (rule append_butlast_last_id [symmetric]) (simp add: indexes_def Let_def)

lemma find_pte_node: "find_pte k pt vpn = map_option (\<lambda>q. (q, slot vpn)) (node k (root_ppn pt) (upper vpn))"
proof -
  have "find_pte k pt vpn = walk k (root_ppn pt) (butlast (indexes vpn) @ [last (indexes vpn)])"
    unfolding find_pte_def using indexes_split [of vpn] by simp
  then show ?thesis by (simp only: walk_node slot_def upper_def)
qed

lemma length_upper [simp]: "length (upper vpn) = 2"
  by (simp add: upper_def)

lemma upper_path [simp]: "table_path (upper vpn)"
  using indexes_lt_512 [of _ vpn] by (auto simp: table_path_def upper_def dest: in_set_butlastD)

lemma upper_slot_inject:
  assumes "vpn_sv39 a" "vpn_sv39 b" "upper a = upper b" "slot a = slot b"
  shows "a = b"
proof -
  have "map unat (indexes v) = upper v @ [slot v]" for v
    unfolding upper_def slot_def by (subst indexes_split) simp
  with assms(3,4) have "map unat (indexes a) = map unat (indexes b)" by simp
  then have "indexes a = indexes b" by (rule map_injective) (simp add: inj_on_def word_unat_eq_iff)
  with assms(1,2) show ?thesis by (rule indexes_inject)
qed

text \<open>The abstract contents of a table: the valid leaf entries of the Sv39 pages.\<close>

definition pt_abs :: "kmem \<Rightarrow> page_table \<Rightarrow> virt_page_num \<Rightarrow> page_table_entry option" where
  "pt_abs k pt vpn = (if vpn_sv39 vpn then
     case node k (root_ppn pt) (upper vpn) of
       None \<Rightarrow> None
     | Some q \<Rightarrow> if pte_is_valid (read_pte k q (slot vpn)) then Some (read_pte k q (slot vpn)) else None
     else None)"

lemma read_write_pte:
  "read_pte (write_pte k p i e) q j = (if q = p \<and> j = i then e else read_pte k q j)"
  by (simp add: read_pte_def write_pte_def)

lemma frames_write_pte [simp]: "frames (write_pte k p i e) = frames k"
  by (simp add: write_pte_def)

text \<open>A write off the path of a walk leaves the walk as it was.\<close>

lemma node_write_other:
  assumes "\<And>js j rest. is = js @ j # rest \<Longrightarrow> node k p js = Some q \<Longrightarrow> j \<noteq> i"
  shows "node (write_pte k q i e) p is = node k p is"
  using assms
proof (induction "is" arbitrary: p)
  case (Cons a as)
  have ne: "\<not> (p = q \<and> a = i)" using Cons.prems [of "[]" a as] by auto
  have "node (write_pte k q i e) (pte_ppn (read_pte k p a)) as = node k (pte_ppn (read_pte k p a)) as"
    if "pte_is_valid (read_pte k p a)"
  proof (rule Cons.IH)
    fix js j rest
    assume "as = js @ j # rest" "node k (pte_ppn (read_pte k p a)) js = Some q"
    with Cons.prems [of "a # js" j rest] that show "j \<noteq> i" by simp
  qed
  with ne show ?case by (auto simp: read_write_pte)
qed simp

lemma node_phys_cong:
  assumes "\<And>js j rest q. is = js @ j # rest \<Longrightarrow> node k p js = Some q \<Longrightarrow> phys k' q = phys k q"
  shows "node k' p is = node k p is"
  using assms
proof (induction "is" arbitrary: p)
  case (Cons a as)
  have eq: "read_pte k' p a = read_pte k p a" using Cons.prems [of "[]" a as p] by (simp add: read_pte_def)
  have "node k' (pte_ppn (read_pte k p a)) as = node k (pte_ppn (read_pte k p a)) as"
    if "pte_is_valid (read_pte k p a)"
  proof (rule Cons.IH)
    fix js j rest q
    assume "as = js @ j # rest" "node k (pte_ppn (read_pte k p a)) js = Some q"
    with Cons.prems [of "a # js" j rest q] that show "phys k' q = phys k q" by simp
  qed
  with eq show ?case by simp
qed simp

lemma table_path_prefix: "table_path (js @ rest) \<Longrightarrow> table_path js"
  by (auto simp: table_path_def)

text \<open>The table does not see changes to pages that are not its own.\<close>

lemma pt_inv_frame:
  assumes "pt_inv l k pt" and "\<And>f. f \<in> set (pt_frames pt) \<Longrightarrow> phys k' f = phys k f"
  shows pt_node_frame: "table_path is \<Longrightarrow> node k' (root_ppn pt) is = node k (root_ppn pt) is"
    and pt_abs_frame: "pt_abs k' pt = pt_abs k pt"
proof -
  show *: "node k' (root_ppn pt) is = node k (root_ppn pt) is" if "table_path is" for "is"
  proof (rule node_phys_cong)
    fix js j rest q
    assume "is = js @ j # rest" "node k (root_ppn pt) js = Some q"
    moreover with that have "table_path js" using table_path_prefix by blast
    ultimately have "q \<in> set (pt_frames pt)" using assms(1) unfolding pt_inv_def by blast
    then show "phys k' q = phys k q" by (rule assms(2))
  qed
  show "pt_abs k' pt = pt_abs k pt"
  proof (rule ext)
    fix vpn
    have "read_pte k' q i = read_pte k q i" if "node k (root_ppn pt) (upper vpn) = Some q" for q i
    proof -
      from that assms(1) have "q \<in> set (pt_frames pt)" unfolding pt_inv_def by (meson upper_path)
      then show ?thesis using assms(2) by (simp add: read_pte_def)
    qed
    then show "pt_abs k' pt vpn = pt_abs k pt vpn"
      by (auto simp: pt_abs_def * split: option.splits)
  qed
qed

lemma pt_inv_inject:
  assumes "pt_inv l k pt" "table_path is" "table_path js"
    "node k (root_ppn pt) is = Some q" "node k (root_ppn pt) js = Some q"
  shows "is = js"
  using assms unfolding pt_inv_def by blast

lemma pt_inv_owns:
  assumes "pt_inv l k pt" "table_path is" "node k (root_ppn pt) is = Some q"
  shows "q \<in> set (pt_frames pt)"
  using assms unfolding pt_inv_def by blast

lemma pt_inv_ref: "pt_inv l k pt \<Longrightarrow> f \<in> set (pt_frames pt) \<Longrightarrow> ref_counts (frames k) (ppn_val f) = Some 1"
  unfolding pt_inv_def by blast

text \<open>Writing a leaf entry changes the contents at one page only.\<close>

lemma leaf_write:
  fixes e :: page_table_entry
  assumes inv: "pt_inv l k pt" and sv: "vpn_sv39 vpn" and q: "node k (root_ppn pt) (upper vpn) = Some q"
  defines "k' \<equiv> write_pte k q (slot vpn) e"
  shows "pt_inv l k' pt"
    and "pt_abs k' pt = (pt_abs k pt)(vpn := (if pte_is_valid e then Some e else None))"
proof -
  have nodes: "node k' (root_ppn pt) is = node k (root_ppn pt) is" if "table_path is" for "is"
    unfolding k'_def
  proof (rule node_write_other)
    fix js j rest
    assume *: "is = js @ j # rest" "node k (root_ppn pt) js = Some q"
    then have "js = upper vpn" using that inv q by (meson pt_inv_inject table_path_prefix upper_path)
    with * that show "j \<noteq> slot vpn" by (auto simp: table_path_def)
  qed
  then show "pt_inv l k' pt" using inv unfolding pt_inv_def k'_def by simp
  show "pt_abs k' pt = (pt_abs k pt)(vpn := (if pte_is_valid e then Some e else None))"
  proof (rule ext)
    fix v
    show "pt_abs k' pt v = ((pt_abs k pt)(vpn := (if pte_is_valid e then Some e else None))) v"
    proof (cases "v = vpn")
      case True
      then show ?thesis using sv q by (simp add: pt_abs_def nodes) (simp add: k'_def read_write_pte)
    next
      case False
      have "read_pte k' q' (slot v) = read_pte k q' (slot v)"
        if "node k (root_ppn pt) (upper v) = Some q'" "vpn_sv39 v" for q'
      proof -
        have "\<not> (q' = q \<and> slot v = slot vpn)"
          using that False sv inv q by (metis pt_inv_inject upper_path upper_slot_inject)
        then show ?thesis by (auto simp: k'_def read_write_pte)
      qed
      with False show ?thesis by (auto simp: pt_abs_def nodes split: option.splits)
    qed
  qed
qed

text \<open>A new, empty table below an invalid entry changes no contents.\<close>

lemma node_new_table:
  assumes inv: "pt_inv l k pt" and path: "table_path (is @ [i])"
    and q: "node k (root_ppn pt) is = Some q" and free: "\<not> pte_is_valid (read_pte k q i)"
    and f: "f \<notin> set (pt_frames pt)" "unat (ppn_val f) < 2 ^ 44"
    and k1: "phys k1 = (phys k)(f := (\<lambda>_. 0))"
  defines "k2 \<equiv> write_pte k1 q i (pte_new f PTE_V)"
  assumes js: "table_path js"
  shows "node k2 (root_ppn pt) js = (if js = is @ [i] then Some f else node k (root_ppn pt) js)"
proof -
  have isp: "table_path is" using path by (rule table_path_prefix)
  have qf: "q \<noteq> f" using pt_inv_owns [OF inv isp q] f(1) by blast
  have k1n: "node k1 (root_ppn pt) ks = node k (root_ppn pt) ks" if "table_path ks" for ks
    by (rule pt_node_frame [OF inv _ that]) (use f(1) in \<open>auto simp: k1\<close>)
  have off: "node k2 (root_ppn pt) ks = node k (root_ppn pt) ks"
    if ks: "table_path ks" and np: "\<nexists>rest. ks = (is @ [i]) @ rest" for ks
    unfolding k2_def k1n [OF ks, symmetric]
  proof (rule node_write_other)
    fix as a rest
    assume *: "ks = as @ a # rest" "node k1 (root_ppn pt) as = Some q"
    then have "table_path as" using ks table_path_prefix by blast
    with * k1n have "as = is" using inv q isp by (metis pt_inv_inject)
    with *(1) np show "a \<noteq> i" by auto
  qed
  have at: "node k2 (root_ppn pt) (is @ [i]) = Some f"
  proof -
    have "node k2 (root_ppn pt) is = Some q" using off [OF isp] q by auto
    then show ?thesis using f(2) by (simp add: node_append k2_def read_write_pte pte_new_ppn)
  qed
  have below: "node k2 f (b # bs) = None" for b bs
    using qf by (simp add: k2_def read_write_pte) (simp add: read_pte_def k1)
  show ?thesis
  proof (cases "\<exists>rest. js = (is @ [i]) @ rest")
    case False
    then show ?thesis using off [OF js] by auto
  next
    case True
    then obtain rest where rest: "js = (is @ [i]) @ rest" by blast
    have "node k (root_ppn pt) (is @ [i]) = None" using q free by (simp add: node_append)
    then have "node k (root_ppn pt) js = None" unfolding rest node_append [of _ _ "is @ [i]"] by simp
    moreover have "node k2 (root_ppn pt) js = (if rest = [] then Some f else None)"
      unfolding rest node_append [of _ _ "is @ [i]"] at using below by (cases rest) auto
    ultimately show ?thesis using rest by simp
  qed
qed

lemma pt_inv_new_table:
  assumes inv: "pt_inv l k pt" and path: "table_path (is @ [i])"
    and q: "node k (root_ppn pt) is = Some q" and free: "\<not> pte_is_valid (read_pte k q i)"
    and f: "ref_counts (frames k) (ppn_val f) = None" "unat (ppn_val f) < 2 ^ 44"
    and k1: "phys k1 = (phys k)(f := (\<lambda>_. 0))" "fa_inv l (frames k1)"
      "ref_counts (frames k1) = (ref_counts (frames k))(ppn_val f \<mapsto> 1)"
  defines "k2 \<equiv> write_pte k1 q i (pte_new f PTE_V)"
  defines "pt2 \<equiv> pt\<lparr>pt_frames := pt_frames pt @ [f]\<rparr>"
  shows "pt_inv l k2 pt2" and "pt_abs k2 pt2 = pt_abs k pt"
    and "node k2 (root_ppn pt) (is @ [i]) = Some f"
proof -
  have fnew: "f \<notin> set (pt_frames pt)" using pt_inv_ref [OF inv, of f] f(1) by auto
  note nodes = node_new_table [OF inv path q free fnew f(2) k1(1), folded k2_def]
  show at: "node k2 (root_ppn pt) (is @ [i]) = Some f" using nodes [OF path] by simp
  have own: "g \<in> set (pt_frames pt)" if "table_path js" "node k (root_ppn pt) js = Some g" for js g
    using pt_inv_owns [OF inv that] .
  have "ref_counts (frames k2) (ppn_val g) = Some 1" if "g \<in> set (pt_frames pt2)" for g
    using that pt_inv_ref [OF inv, of g] by (auto simp: k2_def pt2_def k1(3))
  moreover have "g \<in> set (pt_frames pt2)" if "table_path js" "node k2 (root_ppn pt2) js = Some g" for js g
    using that own by (auto simp: nodes pt2_def split: if_splits)
  moreover have "js = ks" if "table_path js" "table_path ks" "node k2 (root_ppn pt2) js = Some g"
    "node k2 (root_ppn pt2) ks = Some g" for js ks g
    using that own fnew pt_inv_inject [OF inv that(1,2)] by (auto simp: nodes pt2_def split: if_splits)
  moreover have "fa_inv l (frames k2)" using k1(2) by (simp add: k2_def)
  ultimately show "pt_inv l k2 pt2" unfolding pt_inv_def by blast
  show "pt_abs k2 pt2 = pt_abs k pt"
  proof (rule ext)
    fix v
    have len: "length is \<le> 1" using path by (simp add: table_path_def)
    have entry: "read_pte k2 g (slot v) = read_pte k g (slot v)"
      if "node k (root_ppn pt) (upper v) = Some g" for g
    proof -
      have "g \<noteq> q" using pt_inv_inject [OF inv upper_path _ that] q path len
        by (metis One_nat_def Suc_1 length_upper not_less_eq_eq order_refl table_path_prefix)
      moreover have "g \<noteq> f" using own [OF upper_path that] fnew by blast
      ultimately show ?thesis by (simp add: k2_def read_write_pte) (simp add: read_pte_def k1(1))
    qed
    have qf: "q \<noteq> f" using own [OF table_path_prefix [OF path] q] fnew by blast
    have new: "\<not> pte_is_valid (read_pte k2 f (slot v))"
      using qf by (simp add: k2_def read_write_pte) (simp add: read_pte_def k1(1))
    have none: "node k (root_ppn pt) (is @ [i]) = None" using q free by (simp add: node_append)
    show "pt_abs k2 pt2 v = pt_abs k pt v"
      using entry new none at
      by (cases "upper v = is @ [i]") (auto simp: pt_abs_def pt2_def nodes split: option.splits)
  qed
qed

subsection \<open>The operations on one mapping\<close>

text \<open>
  What an operation on a table may do to the rest of the machine: it may take free frames for new
  tables, and it writes pages of the table only.
\<close>

definition pt_grow :: "kmem \<Rightarrow> page_table \<Rightarrow> kmem \<Rightarrow> page_table \<Rightarrow> bool" where
  "pt_grow k pt k' pt' \<longleftrightarrow> root_ppn pt' = root_ppn pt \<and>
     (\<exists>new. pt_frames pt' = pt_frames pt @ new
        \<and> (\<forall>f \<in> set new. ref_counts (frames k) (ppn_val f) = None)
        \<and> ref_counts (frames k') = (\<lambda>x. if x \<in> ppn_val ` set new then Some 1 else ref_counts (frames k) x)
        \<and> (\<forall>f. f \<notin> set (pt_frames pt') \<longrightarrow> phys k' f = phys k f)
        \<and> fa_free (frames k) = fa_free (frames k') + length new \<and> length new \<le> 2)"

text \<open>The creating walk reaches the leaf table, with at most one new table per level.\<close>

lemma walk_create_ok:
  assumes "pt_inv l k pt" and "node k (root_ppn pt) is = Some p"
    and "table_path (is @ map unat (butlast js))" and "js \<noteq> []" and "length js \<le> Suc (fa_free (frames k))"
  shows "\<exists>q new k'. walk_create k (pt_frames pt) p js = Some (Some (q, unat (last js)), pt_frames pt @ new, k')
    \<and> pt_inv l k' (pt\<lparr>pt_frames := pt_frames pt @ new\<rparr>)
    \<and> pt_abs k' (pt\<lparr>pt_frames := pt_frames pt @ new\<rparr>) = pt_abs k pt
    \<and> node k' (root_ppn pt) (is @ map unat (butlast js)) = Some q
    \<and> (\<forall>f \<in> set new. ref_counts (frames k) (ppn_val f) = None)
    \<and> ref_counts (frames k') = (\<lambda>x. if x \<in> ppn_val ` set new then Some 1 else ref_counts (frames k) x)
    \<and> (\<forall>f. f \<notin> set (pt_frames pt @ new) \<longrightarrow> phys k' f = phys k f)
    \<and> fa_free (frames k) = fa_free (frames k') + length new \<and> length new < length js"
  using assms
proof (induction js arbitrary: k pt "is" p)
  case Nil
  then show ?case by simp
next
  case (Cons i js)
  note inv = Cons.prems(1) and p = Cons.prems(2)
  show ?case
  proof (cases js)
    case Nil
    with Cons.prems show ?thesis by (auto intro!: exI [of _ "[]"])
  next
    case (Cons j js')
    have path: "table_path ((is @ [unat i]) @ map unat (butlast js))"
      using Cons.prems(3) Cons by simp
    note step = table_path_prefix [OF path]
    show ?thesis
    proof (cases "pte_is_valid (read_pte k p (unat i))")
      case True
      have "node k (root_ppn pt) (is @ [unat i]) = Some (pte_ppn (read_pte k p (unat i)))"
        using p True by (simp add: node_append)
      note ih = Cons.IH [OF inv this path]
      have w: "walk_create k (pt_frames pt) p (i # js)
          = walk_create k (pt_frames pt) (pte_ppn (read_pte k p (unat i))) js"
        "last (i # js) = last js" "is @ map unat (butlast (i # js)) = (is @ [unat i]) @ map unat (butlast js)"
        using True Cons by simp_all
      have ne: "js \<noteq> []" "length js \<le> Suc (fa_free (frames k))" using Cons Cons.prems(5) by simp_all
      have len: "\<And>n. n < length js \<Longrightarrow> n < length (i # js)" by simp
      show ?thesis unfolding w using ih [OF ne] len by blast
    next
      case False
      have "fa_inv l (frames k)" "0 < fa_free (frames k)" using inv Cons Cons.prems(5) by (auto simp: pt_inv_def)
      from frame_alloc_ok [OF this] obtain f k1 where f: "frame_alloc k = Some (Some f, k1)"
        and f0: "ref_counts (frames k) (ppn_val f) = None" "unat (ppn_val f) < 2 ^ 44"
        and k1: "phys k1 = (phys k)(f := (\<lambda>_. 0))" "fa_inv l (frames k1)"
          "ref_counts (frames k1) = (ref_counts (frames k))(ppn_val f \<mapsto> 1)"
        and less: "fa_free (frames k1) = fa_free (frames k) - 1" by blast
      define k2 where "k2 = write_pte k1 p (unat i) (pte_new f PTE_V)"
      define pt2 where "pt2 = pt\<lparr>pt_frames := pt_frames pt @ [f]\<rparr>"
      note nt = pt_inv_new_table [OF inv step p False f0 k1, folded k2_def pt2_def]
      have rd: "pte_ppn (read_pte k2 p (unat i)) = f"
        using f0(2) by (simp add: k2_def read_write_pte pte_new_ppn)
      have free2: "length js \<le> Suc (fa_free (frames k2))"
        using Cons.prems(5) less by (simp add: k2_def)
      have "node k2 (root_ppn pt2) (is @ [unat i]) = Some f" using nt(3) by (simp add: pt2_def)
      from Cons.IH [OF nt(1) this path _ free2] Cons obtain q new k' where
        ih: "walk_create k2 (pt_frames pt @ [f]) f js = Some (Some (q, unat (last js)), pt_frames pt @ [f] @ new, k')"
        "pt_inv l k' (pt\<lparr>pt_frames := pt_frames pt @ [f] @ new\<rparr>)"
        "pt_abs k' (pt\<lparr>pt_frames := pt_frames pt @ [f] @ new\<rparr>) = pt_abs k pt"
        "node k' (root_ppn pt) (is @ map unat (butlast (i # js))) = Some q"
        "\<forall>g \<in> set new. ref_counts (frames k2) (ppn_val g) = None"
        "ref_counts (frames k') = (\<lambda>x. if x \<in> ppn_val ` set new then Some 1 else ref_counts (frames k2) x)"
        "\<forall>g. g \<notin> set (pt_frames pt @ [f] @ new) \<longrightarrow> phys k' g = phys k2 g"
        "fa_free (frames k2) = fa_free (frames k') + length new" "length new < length js"
        using nt(2) by (auto simp: pt2_def)
      have "walk_create k (pt_frames pt) p (i # js)
          = Some (Some (q, unat (last (i # js))), pt_frames pt @ [f] @ new, k')"
        using False f ih(1) Cons by (simp add: Let_def k2_def [symmetric] rd)
      moreover have "\<forall>g \<in> set ([f] @ new). ref_counts (frames k) (ppn_val g) = None"
        using ih(5) f0 k1(3) by (auto simp: k2_def split: if_splits)
      moreover have "ref_counts (frames k')
          = (\<lambda>x. if x \<in> ppn_val ` set ([f] @ new) then Some 1 else ref_counts (frames k) x)"
        using ih(6) by (auto simp: k2_def k1(3))
      moreover have "phys k' g = phys k g" if "g \<notin> set (pt_frames pt @ [f] @ new)" for g
      proof -
        have "g \<noteq> p" using that pt_inv_owns [OF inv table_path_prefix [OF step] p] by auto
        with ih(7) that show ?thesis by (simp add: k2_def write_pte_def k1(1))
      qed
      moreover have "fa_free (frames k) = fa_free (frames k') + length ([f] @ new)"
        using ih(8) less \<open>0 < fa_free (frames k)\<close> by (simp add: k2_def)
      ultimately show ?thesis using ih(2-4,9) by (intro exI [of _ q] exI [of _ "[f] @ new"] exI [of _ k']) simp
    qed
  qed
qed

lemma find_pte_create_ok:
  assumes "pt_inv l k pt" and "2 \<le> fa_free (frames k)"
  shows "\<exists>q pt' k'. find_pte_create k pt vpn = Some (Some (q, slot vpn), pt', k')
    \<and> pt_inv l k' pt' \<and> pt_abs k' pt' = pt_abs k pt \<and> pt_grow k pt k' pt'
    \<and> node k' (root_ppn pt') (upper vpn) = Some q"
proof -
  have ne: "indexes vpn \<noteq> []" by (simp add: indexes_def Let_def)
  have "table_path ([] @ map unat (butlast (indexes vpn)))" using upper_path [of vpn] by (simp add: upper_def)
  from walk_create_ok [OF assms(1) _ this ne] assms(2) obtain q new k' where
    "walk_create k (pt_frames pt) (root_ppn pt) (indexes vpn) = Some (Some (q, slot vpn), pt_frames pt @ new, k')"
    "pt_inv l k' (pt\<lparr>pt_frames := pt_frames pt @ new\<rparr>)"
    "pt_abs k' (pt\<lparr>pt_frames := pt_frames pt @ new\<rparr>) = pt_abs k pt"
    "node k' (root_ppn pt) (upper vpn) = Some q"
    "\<forall>f \<in> set new. ref_counts (frames k) (ppn_val f) = None"
    "ref_counts (frames k') = (\<lambda>x. if x \<in> ppn_val ` set new then Some 1 else ref_counts (frames k) x)"
    "\<forall>f. f \<notin> set (pt_frames pt @ new) \<longrightarrow> phys k' f = phys k f"
    "fa_free (frames k) = fa_free (frames k') + length new" "length new < 3"
    by (auto simp: slot_def upper_def)
  then show ?thesis by (auto simp: find_pte_create_def pt_grow_def)
qed

lemma pt_translate_node:
  "pt_translate k pt vpn = map_option (\<lambda>q. read_pte k q (slot vpn)) (node k (root_ppn pt) (upper vpn))"
  by (simp add: pt_translate_def find_pte_node option.map_comp comp_def)

lemma pt_abs_translate:
  "vpn_sv39 vpn \<Longrightarrow> pt_abs k pt vpn =
     (case pt_translate k pt vpn of None \<Rightarrow> None | Some e \<Rightarrow> if pte_is_valid e then Some e else None)"
  by (auto simp: pt_abs_def pt_translate_node split: option.splits)

lemma pt_abs_SomeD:
  assumes "pt_abs k pt vpn = Some e"
  shows "vpn_sv39 vpn" and "pte_is_valid e" and "pt_translate k pt vpn = Some e"
    and "\<exists>q. node k (root_ppn pt) (upper vpn) = Some q \<and> read_pte k q (slot vpn) = e
           \<and> find_pte k pt vpn = Some (q, slot vpn)"
  using assms by (auto simp: pt_abs_def pt_translate_node find_pte_node split: if_splits option.splits)

text \<open>An operation that only rewrites an entry keeps the allocator and all foreign pages.\<close>

lemma pt_grow_write:
  assumes "pt_inv l k pt" "node k (root_ppn pt) (upper vpn) = Some q"
  shows "pt_grow k pt (write_pte k q i e) pt"
  using pt_inv_owns [OF assms(1) upper_path assms(2)]
  by (auto simp: pt_grow_def write_pte_def)

lemma pt_grow_trans_write:
  assumes "pt_grow k pt k' pt'" "pt_inv l k' pt'" "node k' (root_ppn pt') (upper vpn) = Some q"
  shows "pt_grow k pt (write_pte k' q i e) pt'"
proof -
  have "q \<in> set (pt_frames pt')" using pt_inv_owns [OF assms(2) upper_path assms(3)] .
  then have "\<forall>f. f \<notin> set (pt_frames pt') \<longrightarrow> phys (write_pte k' q i e) f = phys k' f"
    by (auto simp: write_pte_def)
  with assms(1) show ?thesis unfolding pt_grow_def by auto
qed

text \<open>The shared shape of \<^verbatim>\<open>map\<close> and \<^verbatim>\<open>map_cow\<close>: create the path, check, write the entry.\<close>

lemma map_entry_ok:
  assumes "pt_inv l k pt" "2 \<le> fa_free (frames k)" "vpn_sv39 vpn" "pt_abs k pt vpn = None"
    and "pte_is_valid e"
  shows "\<exists>q pt' k'. find_pte_create k pt vpn = Some (Some (q, slot vpn), pt', k')
    \<and> \<not> pte_is_valid (read_pte k' q (slot vpn))
    \<and> pt_inv l (write_pte k' q (slot vpn) e) pt'
    \<and> pt_abs (write_pte k' q (slot vpn) e) pt' = (pt_abs k pt)(vpn \<mapsto> e)
    \<and> pt_grow k pt (write_pte k' q (slot vpn) e) pt'"
proof -
  from find_pte_create_ok [OF assms(1,2), of vpn] obtain q pt' k' where
    *: "find_pte_create k pt vpn = Some (Some (q, slot vpn), pt', k')" "pt_inv l k' pt'"
    "pt_abs k' pt' = pt_abs k pt" "pt_grow k pt k' pt'" "node k' (root_ppn pt') (upper vpn) = Some q" by blast
  have "pt_abs k' pt' vpn = None" using *(3) assms(4) by simp
  then have "\<not> pte_is_valid (read_pte k' q (slot vpn))"
    using *(5) assms(3) by (auto simp: pt_abs_def split: if_splits)
  moreover note leaf_write [OF *(2) assms(3) *(5), of e]
  moreover have "pt_grow k pt (write_pte k' q (slot vpn) e) pt'"
    using *(4,2,5) by (rule pt_grow_trans_write)
  ultimately show ?thesis using * assms(5) by auto
qed

lemma pt_map_ok:
  assumes "pt_inv l k pt" "2 \<le> fa_free (frames k)" "vpn_sv39 vpn" "pt_abs k pt vpn = None"
  shows "\<exists>pt' k'. pt_map k pt vpn ppn fl = Some (pt', k') \<and> pt_inv l k' pt' \<and> pt_grow k pt k' pt'
    \<and> pt_abs k' pt' = (pt_abs k pt)(vpn \<mapsto> pte_new ppn (fl OR PTE_V))"
proof -
  have "pte_is_valid (pte_new ppn (fl OR PTE_V))" by simp
  from map_entry_ok [OF assms this] show ?thesis by (auto simp: pt_map_def)
qed

lemma map_cow_ok:
  assumes "pt_inv l k pt" "2 \<le> fa_free (frames k)" "vpn_sv39 vpn" "pt_abs k pt vpn = None"
  shows "\<exists>pt' k'. map_cow k pt vpn ppn fl = Some (pt', k') \<and> pt_inv l k' pt' \<and> pt_grow k pt k' pt'
    \<and> pt_abs k' pt' = (pt_abs k pt)(vpn \<mapsto> pte_new_cow ppn (flags_insert (flags_remove fl PTE_W) PTE_V))"
proof -
  have "pte_is_valid (pte_new_cow ppn (flags_insert (flags_remove fl PTE_W) PTE_V))" by simp
  from map_entry_ok [OF assms this] show ?thesis by (auto simp: map_cow_def Let_def)
qed

text \<open>Rewriting the entry of a mapped page.\<close>

lemma rewrite_entry_ok:
  assumes "pt_inv l k pt" "pt_abs k pt vpn = Some e"
  shows "\<exists>q. find_pte k pt vpn = Some (q, slot vpn) \<and> read_pte k q (slot vpn) = e
    \<and> pte_is_valid e \<and> pt_inv l (write_pte k q (slot vpn) e') pt
    \<and> pt_abs (write_pte k q (slot vpn) e') pt = (pt_abs k pt)(vpn := (if pte_is_valid e' then Some e' else None))
    \<and> pt_grow k pt (write_pte k q (slot vpn) e') pt"
  using pt_abs_SomeD [OF assms(2)] leaf_write [OF assms(1)] pt_grow_write [OF assms(1)] by blast

lemma pt_unmap_ok:
  assumes "pt_inv l k pt" "pt_abs k pt vpn = Some e"
  shows "\<exists>k'. pt_unmap k pt vpn = Some k' \<and> pt_inv l k' pt \<and> pt_grow k pt k' pt
    \<and> pt_abs k' pt = (pt_abs k pt)(vpn := None)"
  using rewrite_entry_ok [OF assms, of pte_empty] by (auto simp: pt_unmap_def)

lemma remove_W_valid:
  "pte_is_valid e \<Longrightarrow> pte_is_valid (pte_new_cow p (flags_remove (pte_flags e) PTE_W))"
  by (simp add: pte_is_valid_def flags_contains_bit flags_remove_def bit_simps PTE_W_def)

lemma mark_cow_ok:
  assumes "pt_inv l k pt" "pt_abs k pt vpn = Some e" and "pte_is_cow e \<noteq> pte_writable e"
  shows "\<exists>k'. mark_cow k pt vpn = Some k' \<and> pt_inv l k' pt \<and> pt_grow k pt k' pt
    \<and> pt_abs k' pt = (pt_abs k pt)(vpn \<mapsto>
        if pte_is_cow e then e else pte_new_cow (pte_ppn e) (flags_remove (pte_flags e) PTE_W))"
proof (cases "pte_is_cow e")
  case True
  with rewrite_entry_ok [OF assms(1,2), of e] assms show ?thesis
    by (auto simp: mark_cow_def Let_def pte_writable_def pt_grow_def fun_upd_idem)
next
  case False
  with rewrite_entry_ok [OF assms(1,2), of "pte_new_cow (pte_ppn e) (flags_remove (pte_flags e) PTE_W)"]
    assms(3) remove_W_valid [of e] show ?thesis
    by (auto simp: mark_cow_def Let_def pte_writable_def)
qed

lemma resolve_cow_ok:
  assumes "pt_inv l k pt" "pt_abs k pt vpn = Some e" and "pte_is_cow e"
  shows "\<exists>k'. resolve_cow k pt vpn new_ppn = Some k' \<and> pt_inv l k' pt \<and> pt_grow k pt k' pt
    \<and> pt_abs k' pt = (pt_abs k pt)(vpn \<mapsto>
        pte_new new_ppn (flags_insert (flags_insert (pte_flags e) PTE_W) PTE_V))"
  using rewrite_entry_ok [OF assms(1,2),
      of "pte_new new_ppn (flags_insert (flags_insert (pte_flags e) PTE_W) PTE_V)"] assms(3)
  by (auto simp: resolve_cow_def Let_def)

lemma page_table_new_ok:
  assumes "fa_inv l (frames k)" "0 < fa_free (frames k)"
  shows "\<exists>pt k'. page_table_new k = Some (pt, k') \<and> pt_inv l k' pt \<and> pt_abs k' pt = Map.empty
    \<and> pt_frames pt = [root_ppn pt] \<and> ref_counts (frames k) (ppn_val (root_ppn pt)) = None
    \<and> ref_counts (frames k') = (ref_counts (frames k))(ppn_val (root_ppn pt) \<mapsto> 1)
    \<and> (\<forall>f. f \<noteq> root_ppn pt \<longrightarrow> phys k' f = phys k f) \<and> fa_free (frames k') = fa_free (frames k) - 1"
proof -
  from frame_alloc_ok [OF assms] obtain f k' where *: "frame_alloc k = Some (Some f, k')"
    "fa_inv l (frames k')" "ref_counts (frames k) (ppn_val f) = None"
    "ref_counts (frames k') = (ref_counts (frames k))(ppn_val f \<mapsto> 1)"
    "phys k' = (phys k)(f := (\<lambda>_. 0))" "fa_free (frames k') = fa_free (frames k) - 1" by blast
  have empty: "\<not> pte_is_valid (read_pte k' f i)" for i by (simp add: read_pte_def *(5))
  have node: "node k' f is = (if is = [] then Some f else None)" for "is" using empty by (cases "is") auto
  have "pt_inv l k' \<lparr>root_ppn = f, pt_frames = [f]\<rparr>" using *(2,4) by (auto simp: pt_inv_def node split: if_splits)
  moreover have "pt_abs k' \<lparr>root_ppn = f, pt_frames = [f]\<rparr> = Map.empty"
    using empty by (auto simp: pt_abs_def fun_eq_iff node split: if_splits)
  ultimately show ?thesis using * by (auto simp: page_table_new_def)
qed

subsection \<open>A page table is a finite map of page numbers\<close>

datatype pt_op =
    MapPage virt_page_num phys_page_num u8
  | MapCow virt_page_num phys_page_num u8
  | UnmapPage virt_page_num
  | MarkCow virt_page_num
  | ResolveCow virt_page_num phys_page_num

fun pt_op_vpn :: "pt_op \<Rightarrow> virt_page_num" where
  "pt_op_vpn (MapPage v p f) = v"
| "pt_op_vpn (MapCow v p f) = v"
| "pt_op_vpn (UnmapPage v) = v"
| "pt_op_vpn (MarkCow v) = v"
| "pt_op_vpn (ResolveCow v p) = v"

fun pt_step :: "kmem \<times> page_table \<Rightarrow> pt_op \<Rightarrow> (kmem \<times> page_table) outcome" where
  "pt_step (k, pt) (MapPage v p f) = map_option prod.swap (pt_map k pt v p f)"
| "pt_step (k, pt) (MapCow v p f) = map_option prod.swap (map_cow k pt v p f)"
| "pt_step (k, pt) (UnmapPage v) = map_option (\<lambda>k'. (k', pt)) (pt_unmap k pt v)"
| "pt_step (k, pt) (MarkCow v) = map_option (\<lambda>k'. (k', pt)) (mark_cow k pt v)"
| "pt_step (k, pt) (ResolveCow v p) = map_option (\<lambda>k'. (k', pt)) (resolve_cow k pt v p)"

text \<open>The specification: a partial function, with the checks the source asserts.\<close>

fun pt_spec :: "(virt_page_num \<Rightarrow> page_table_entry option) \<Rightarrow> pt_op
    \<Rightarrow> (virt_page_num \<Rightarrow> page_table_entry option) outcome" where
  "pt_spec m (MapPage v p f) = (if m v = None then Some (m(v \<mapsto> pte_new p (f OR PTE_V))) else None)"
| "pt_spec m (MapCow v p f) = (if m v = None
     then Some (m(v \<mapsto> pte_new_cow p (flags_insert (flags_remove f PTE_W) PTE_V))) else None)"
| "pt_spec m (UnmapPage v) = (if m v = None then None else Some (m(v := None)))"
| "pt_spec m (MarkCow v) = (case m v of
     None \<Rightarrow> None
   | Some e \<Rightarrow> if pte_is_cow e = pte_writable e then None
      else Some (m(v \<mapsto> if pte_is_cow e then e else pte_new_cow (pte_ppn e) (flags_remove (pte_flags e) PTE_W))))"
| "pt_spec m (ResolveCow v p) = (case m v of
     None \<Rightarrow> None
   | Some e \<Rightarrow> if pte_is_cow e
      then Some (m(v \<mapsto> pte_new p (flags_insert (flags_insert (pte_flags e) PTE_W) PTE_V))) else None)"

lemma pt_grow_free: "pt_grow k pt k' pt' \<Longrightarrow> fa_free (frames k) \<le> fa_free (frames k') + 2"
  by (auto simp: pt_grow_def)

lemma map_occupied_panics:
  assumes "pt_inv l k pt" "2 \<le> fa_free (frames k)" "pt_abs k pt v = Some e"
  shows "pt_map k pt v p f = None" and "map_cow k pt v p f = None"
proof -
  from find_pte_create_ok [OF assms(1,2), of v] obtain q pt' k' where
    *: "find_pte_create k pt v = Some (Some (q, slot v), pt', k')" "pt_abs k' pt' = pt_abs k pt"
    "node k' (root_ppn pt') (upper v) = Some q" by blast
  have "pt_abs k' pt' v = Some e" using * assms(3) by simp
  then have "pte_is_valid (read_pte k' q (slot v))"
    using *(3) by (auto simp: pt_abs_def split: if_splits)
  with *(1) show "pt_map k pt v p f = None" "map_cow k pt v p f = None"
    by (simp_all add: pt_map_def map_cow_def)
qed

lemma absent_panics:
  assumes "vpn_sv39 v" "pt_abs k pt v = None"
  shows "pt_unmap k pt v = None" "mark_cow k pt v = None" "resolve_cow k pt v p = None"
  using assms
  by (auto simp: pt_unmap_def mark_cow_def resolve_cow_def pt_abs_def find_pte_node Let_def
      split: option.splits if_splits)

lemma wrong_cow_panics:
  assumes "pt_abs k pt v = Some e"
  shows "pte_is_cow e = pte_writable e \<Longrightarrow> mark_cow k pt v = None"
    and "\<not> pte_is_cow e \<Longrightarrow> resolve_cow k pt v p = None"
  using pt_abs_SomeD(4) [OF assms]
  by (auto simp: mark_cow_def resolve_cow_def Let_def pte_writable_def)

interpretation table: simulation pt_step pt_spec "\<lambda>(k, pt). pt_abs k pt"
  "\<lambda>n (k, pt). pt_inv l k pt \<and> n \<le> fa_free (frames k)" 2 "\<lambda>op. vpn_sv39 (pt_op_vpn op)" for l
proof (unfold_locales, goal_cases)
  case (1 n s op a)
  obtain k pt where s: "s = (k, pt)" by (cases s)
  from 1 s have inv: "pt_inv l k pt" "2 \<le> fa_free (frames k)" "n + 2 \<le> fa_free (frames k)"
    and sv: "vpn_sv39 (pt_op_vpn op)" and sp: "pt_spec (pt_abs k pt) op = Some a" by auto
  have fin: "\<exists>s'. Some (k', pt') = Some s' \<and> (case s' of (k, pt) \<Rightarrow> pt_inv l k pt \<and> n \<le> fa_free (frames k))
      \<and> (case s' of (k, pt) \<Rightarrow> pt_abs k pt) = a"
    if "pt_inv l k' pt'" "pt_grow k pt k' pt'" "pt_abs k' pt' = a" for k' pt'
    using that inv(3) pt_grow_free [OF that(2)] by auto
  show ?case
  proof (cases op)
    case (MapPage v p f)
    with sp sv pt_map_ok [OF inv(1,2), of v p f] fin s show ?thesis by (auto split: if_splits)
  next
    case (MapCow v p f)
    with sp sv map_cow_ok [OF inv(1,2), of v p f] fin s show ?thesis by (auto split: if_splits)
  next
    case (UnmapPage v)
    with sp obtain e where "pt_abs k pt v = Some e" by (auto split: if_splits)
    with UnmapPage sp pt_unmap_ok [OF inv(1), of v e] fin s show ?thesis by auto
  next
    case (MarkCow v)
    with sp obtain e where "pt_abs k pt v = Some e" by (auto split: option.splits)
    with MarkCow sp mark_cow_ok [OF inv(1), of v e] fin s show ?thesis by (auto split: if_splits)
  next
    case (ResolveCow v p)
    with sp obtain e where "pt_abs k pt v = Some e" by (auto split: option.splits)
    with ResolveCow sp resolve_cow_ok [OF inv(1), of v e p] fin s show ?thesis by (auto split: if_splits)
  qed
next
  case (2 n s op)
  obtain k pt where s: "s = (k, pt)" by (cases s)
  with 2 have inv: "pt_inv l k pt" "2 \<le> fa_free (frames k)"
    and sv: "vpn_sv39 (pt_op_vpn op)" and sp: "pt_spec (pt_abs k pt) op = None" by auto
  show ?case
    using sp sv s absent_panics [of "pt_op_vpn op" k pt] map_occupied_panics [OF inv] wrong_cow_panics [of k pt]
    by (cases op) (auto split: option.splits if_splits)
qed

subsection \<open>User buffers cover the requested bytes\<close>

definition slice_bytes :: "slice \<Rightarrow> (phys_page_num \<times> nat) list" where
  "slice_bytes = (\<lambda>(p, lo, hi). map (Pair p) [lo..<hi])"

text \<open>The page and offset a virtual address below the canonical hole refers to.\<close>

definition byte_loc :: "kmem \<Rightarrow> page_table \<Rightarrow> nat \<Rightarrow> phys_page_num \<times> nat" where
  "byte_loc k pt a = (pte_ppn (the (pt_translate k pt (VirtPageNum (of_nat (a div 4096))))), a mod 4096)"

lemma take_bit_small: "unat (x :: usize) < 2 ^ n \<Longrightarrow> n \<le> 64 \<Longrightarrow> take_bit n x = x"
proof -
  assume "unat x < 2 ^ n" "n \<le> 64"
  then have "unat (take_bit n x) = unat x" by (simp only: unat_take_bit) (simp add: take_bit_eq_mod)
  then show ?thesis by (simp add: word_unat_eq_iff)
qed

lemma word_of_nat_unat_eq: "of_nat (unat (x :: usize)) = x"
  by simp

lemma low_address:
  assumes "unat (x :: usize) < 2 ^ 38"
  shows "virt_addr_from x = VirtAddr x" and "usize_from_virt_addr (VirtAddr x) = x"
    and "va_floor (VirtAddr x) = VirtPageNum (of_nat (unat x div 4096))"
    and "unat (va_page_offset (VirtAddr x)) = unat x mod 4096"
    and "unat (va_val (va_of_vpn (vpn_step (va_floor (VirtAddr x))))) = (unat x div 4096 + 1) * 4096"
proof -
  have "unat x < 2 ^ 39" using assms by simp
  then show "virt_addr_from x = VirtAddr x"
    using take_bit_small [of x 39] by (intro virt_addr.expand) (simp add: virt_addr_from_val)
  have "\<not> push_bit 38 1 \<le> x" using assms unat_power [of 38] by (simp add: word_le_nat_alt push_bit_eq_mult)
  then show "usize_from_virt_addr (VirtAddr x) = x" by (simp add: usize_from_virt_addr_def width_defs)
  have fl: "unat (vpn_val (va_floor (VirtAddr x))) = unat x div 4096"
    by (simp only: va_floor_bits virt_addr.sel unat_drop_bit) simp
  then have "vpn_val (va_floor (VirtAddr x)) = of_nat (unat x div 4096)" by (metis word_of_nat_unat_eq)
  then show "va_floor (VirtAddr x) = VirtPageNum (of_nat (unat x div 4096))" by (metis virt_page_num.collapse)
  show "unat (va_page_offset (VirtAddr x)) = unat x mod 4096"
    by (simp only: va_page_offset_bits virt_addr.sel unat_take_bit) (simp add: take_bit_eq_mod)
  have lt: "unat x div 4096 < 2 ^ 26" using assms by (simp add: less_mult_imp_div_less)
  then have st: "unat (vpn_val (vpn_step (va_floor (VirtAddr x)))) = unat x div 4096 + 1"
    using unat_add_no_wrap [of "vpn_val (va_floor (VirtAddr x))" 1] fl by (simp add: vpn_step_def)
  have "unat (push_bit 12 v :: usize) = unat v * 4096" if "unat v \<le> 2 ^ 26" for v :: usize
  proof -
    have "push_bit 12 v = of_nat (unat v * 4096)" by (simp add: push_bit_eq_mult)
    moreover have "unat v * 4096 < 2 ^ LENGTH(64)" using that by simp
    ultimately show ?thesis by (simp only: unat_of_nat) simp
  qed
  with st lt show "unat (va_val (va_of_vpn (vpn_step (va_floor (VirtAddr x))))) = (unat x div 4096 + 1) * 4096"
    by (simp add: va_of_vpn_def width_defs)
qed

lemma byte_loc_page:
  assumes "a div 4096 * 4096 \<le> b" "b \<le> (a div 4096 + 1) * 4096"
  shows "map (byte_loc k pt) [a..<b]
    = map (Pair (pte_ppn (the (pt_translate k pt (VirtPageNum (of_nat (a div 4096))))))) 
        (map (\<lambda>x. x mod 4096) [a..<b])"
proof -
  have "x div 4096 = a div 4096" if "a \<le> x" "x < b" for x
  proof (rule antisym)
    have "x < (a div 4096 + 1) * 4096" using that assms by linarith
    then have "x div 4096 < a div 4096 + 1" by (rule less_mult_imp_div_less)
    then show "x div 4096 \<le> a div 4096" by simp
    show "a div 4096 \<le> x div 4096" using that(1) by (rule div_le_mono)
  qed
  then show ?thesis unfolding map_map by (intro map_cong) (simp_all only: byte_loc_def comp_def set_upt atLeastLessThan_iff)
qed

lemma upt_mod_page:
  assumes "a \<le> b" "b \<le> (a div 4096 + 1) * (4096 :: nat)"
  shows "map (\<lambda>x. x mod 4096) [a..<b]
    = [a mod 4096..<a mod 4096 + (b - a)]"
proof (rule nth_equalityI)
  fix i assume "i < length (map (\<lambda>x. x mod 4096) [a..<b])"
  then have i: "i < b - a" by simp
  have "a mod 4096 + i < 4096"
  proof -
    have "a = a div 4096 * 4096 + a mod 4096" by (rule div_mult_mod_eq [symmetric])
    moreover have "a + i < a div 4096 * 4096 + 4096" using i assms by simp
    ultimately show ?thesis by linarith
  qed
  then have "(a + i) mod 4096 = a mod 4096 + i"
    by (metis mod_add_left_eq mod_less)
  with i show "map (\<lambda>x. x mod 4096) [a..<b] ! i = [a mod 4096..<a mod 4096 + (b - a)] ! i" by simp
qed simp

lemma page_top: "a < (a div 4096 + 1) * (4096 :: nat)"
  using dividend_less_div_times [of 4096 a] by simp

lemma page_end:
  assumes "(a :: nat) < b" "e = min ((a div 4096 + 1) * 4096) b"
  shows "(if e mod 4096 = 0 then 4096 else e mod 4096) = a mod 4096 + (e - a)"
    and "a mod 4096 + (e - a) \<le> 4096"
proof -
  have a: "a = a div 4096 * 4096 + a mod 4096" by (rule div_mult_mod_eq [symmetric])
  have am: "a mod 4096 < 4096" by simp
  have ab: "a < e" using assms page_top [of a] by (simp only: min_less_iff_conj)
  define x where "x = a mod 4096 + (e - a)"
  have ex: "e = a div 4096 * 4096 + x" using a ab by (simp add: x_def)
  have "e \<le> a div 4096 * 4096 + 4096" using assms(2) by simp
  then have x2: "x \<le> 4096" using ex by linarith
  have x1: "0 < x" unfolding x_def using ab by linarith
  note x = x1 x2
  then show "a mod 4096 + (e - a) \<le> 4096" by (simp add: x_def)
  have "e mod 4096 = x mod 4096" unfolding ex by simp
  then show "(if e mod 4096 = 0 then 4096 else e mod 4096) = a mod 4096 + (e - a)"
    using x unfolding x_def [symmetric] by (cases "x = 4096") auto
qed

text \<open>Every page of the range is mapped, so the loop returns and its slices are the range.\<close>

lemma byte_buffers_cover:
  assumes "unat fin < 2 ^ 38" and "unat start \<le> unat fin"
    and "\<And>a. unat start \<le> a \<Longrightarrow> a < unat fin \<Longrightarrow> pt_translate k pt (VirtPageNum (of_nat (a div 4096))) \<noteq> None"
  shows "\<exists>bs. byte_buffers k pt start fin = Some bs
    \<and> concat (map slice_bytes bs) = map (byte_loc k pt) [unat start..<unat fin]
    \<and> (\<forall>(p, lo, hi) \<in> set bs. lo < hi \<and> hi \<le> 4096)"
  using assms
proof (induction "unat fin - unat start" arbitrary: start rule: less_induct)
  case less
  show ?case
  proof (cases "start < fin")
    case False
    then have "unat start = unat fin" using less.prems(2) by (simp add: word_less_nat_alt)
    with False show ?thesis by (subst byte_buffers.simps) simp
  next
    case True
    then have lt: "unat start < unat fin" by (simp add: word_less_nat_alt)
    have s38: "unat start < 2 ^ 38" using less.prems(1,2) by linarith
    note ls = low_address [OF s38] and lf = low_address [OF less.prems(1)]
    define nxt where "nxt = va_of_vpn (vpn_step (va_floor (VirtAddr start)))"
    define e where "e = va_val (min nxt (VirtAddr fin))"
    let ?s = "unat start" let ?top = "(unat start div 4096 + 1) * 4096"
    have top: "?s < ?top" by (rule page_top)
    have e: "unat e = min ?top (unat fin)"
      using ls(5) by (auto simp: e_def nxt_def min_def less_eq_virt_addr_def word_le_nat_alt)
    have e38: "unat e < 2 ^ 38" using e less.prems(1) by simp
    have eva: "min (va_of_vpn (vpn_step (VirtPageNum (of_nat (?s div 4096))))) (VirtAddr fin) = VirtAddr e"
      by (simp add: e_def nxt_def ls(3))
    note le = low_address [OF e38]
    define hi where "hi = (if va_page_offset (VirtAddr e) = 0 then 4096 else unat (va_page_offset (VirtAddr e)))"
    have hi: "hi = ?s mod 4096 + (unat e - ?s)"
      using page_end(1) [OF lt e] le(4)
      by (auto simp: hi_def unat_eq_0 [symmetric] simp del: unat_eq_0 split: if_splits)
    obtain pte where pte: "pt_translate k pt (VirtPageNum (of_nat (?s div 4096))) = Some pte"
      using less.prems(3) [of ?s] lt by auto
    have dec: "unat fin - unat e < unat fin - ?s" and ef: "unat e \<le> unat fin" and se: "?s < unat e"
      using e top lt by auto
    have "\<And>a. unat e \<le> a \<Longrightarrow> a < unat fin \<Longrightarrow> pt_translate k pt (VirtPageNum (of_nat (a div 4096))) \<noteq> None"
      using less.prems(3) se by simp
    from less.hyps [OF dec less.prems(1) ef this] obtain bs where
      ih: "byte_buffers k pt e fin = Some bs"
      "concat (map slice_bytes bs) = map (byte_loc k pt) [unat e..<unat fin]"
      "\<forall>(p, lo, hi) \<in> set bs. lo < hi \<and> hi \<le> 4096" by blast
    have "byte_buffers k pt start fin = Some ((pte_ppn pte, ?s mod 4096, hi) # bs)"
    proof -
      have "?s mod 4096 \<le> hi" using hi by simp
      then show ?thesis using True pte ih(1) ls(1,3,4) lf(1) le(2)
        by (subst byte_buffers.simps) (simp add: Let_def eva hi_def [symmetric] split del: if_split cong: if_cong)
    qed
    moreover have "slice_bytes (pte_ppn pte, ?s mod 4096, hi) = map (byte_loc k pt) [?s..<unat e]"
    proof -
      have b: "?s div 4096 * 4096 \<le> unat e" "unat e \<le> ?top" "?s \<le> unat e"
        using se e div_times_less_eq_dividend [of ?s 4096] by linarith+
      show ?thesis
        by (simp only: byte_loc_page [OF b(1,2)] upt_mod_page [OF b(3,2)] slice_bytes_def prod.case hi pte option.sel)
    qed
    moreover have "[?s..<unat fin] = [?s..<unat e] @ [unat e..<unat fin]"
      using se ef upt_add_eq_append [of ?s "unat e" "unat fin - unat e"] by simp
    moreover have "?s mod 4096 < hi" "hi \<le> 4096" using page_end(2) [OF lt e] hi se by linarith+
    ultimately show ?thesis using ih(2,3) by auto
  qed
qed


text \<open>The iterator visits the bytes of its slices in order and then ends.\<close>

fun ub_collect :: "nat \<Rightarrow> user_buffer_iterator \<Rightarrow> ((phys_page_num \<times> nat) list \<times> bool) outcome" where
  "ub_collect 0 it = Some ([], False)"
| "ub_collect (Suc n) it = do {
     (r, it') \<leftarrow> user_buffer_next it;
     case r of
       None \<Rightarrow> Some ([], True)
     | Some x \<Rightarrow> do { (xs, fin) \<leftarrow> ub_collect n it'; Some (x # xs, fin) }
   }"

definition ub_rest :: "user_buffer_iterator \<Rightarrow> (phys_page_num \<times> nat) list" where
  "ub_rest it = drop (current_idx it) (concat (map slice_bytes (drop (current_buffer it) (buffers it))))"

definition ub_inv :: "user_buffer_iterator \<Rightarrow> bool" where
  "ub_inv it \<longleftrightarrow> (\<forall>(p, lo, hi) \<in> set (buffers it). lo < hi)
     \<and> (if current_buffer it < length (buffers it)
        then current_idx it < length (slice_bytes (buffers it ! current_buffer it)) else current_idx it = 0)"

lemma ub_next_ok:
  assumes "ub_inv it"
  shows "case ub_rest it of
      [] \<Rightarrow> user_buffer_next it = Some (None, it)
    | x # xs \<Rightarrow> \<exists>it'. user_buffer_next it = Some (Some x, it') \<and> ub_inv it' \<and> ub_rest it' = xs"
proof (cases "current_buffer it < length (buffers it)")
  case False
  then show ?thesis by (simp add: ub_rest_def user_buffer_next_def)
next
  case True
  obtain p lo hi where b: "buffers it ! current_buffer it = (p, lo, hi)" by (cases "buffers it ! current_buffer it")
  have lt: "current_idx it < hi - lo" using assms True b by (simp add: ub_inv_def slice_bytes_def)
  have dr: "drop (current_buffer it) (buffers it) = (p, lo, hi) # drop (Suc (current_buffer it)) (buffers it)"
    using True b by (metis Cons_nth_drop_Suc)
  have sl: "drop (current_idx it) (slice_bytes (p, lo, hi))
      = (p, lo + current_idx it) # drop (Suc (current_idx it)) (slice_bytes (p, lo, hi))"
    using lt upt_conv_Cons [of "lo + current_idx it" hi] by (simp add: slice_bytes_def drop_map)
  have len: "length (slice_bytes (p, lo, hi)) = hi - lo" by (simp add: slice_bytes_def)
  have rest: "ub_rest it = (p, lo + current_idx it) #
      drop (Suc (current_idx it)) (slice_bytes (p, lo, hi)) @
      concat (map slice_bytes (drop (Suc (current_buffer it)) (buffers it)))"
    using sl lt len by (simp add: ub_rest_def dr)
  have nxt0: "current_idx it + 1 = hi - lo \<or> Suc (current_idx it) < hi - lo" using lt by linarith
  have pos: "lo' < hi'" if "(p', lo', hi') \<in> set (buffers it)" for p' lo' hi'
    using assms that by (auto simp: ub_inv_def)
  show ?thesis
  proof (cases "current_idx it + 1 = hi - lo")
    case last: True
    let ?it = "it\<lparr>current_idx := 0, current_buffer := current_buffer it + 1\<rparr>"
    have "user_buffer_next it = Some (Some (p, lo + current_idx it), ?it)"
      using True b lt last by (simp add: user_buffer_next_def idx_in_range Let_def)
    moreover have "ub_inv ?it"
    proof (cases "Suc (current_buffer it) < length (buffers it)")
      case True
      obtain p' lo' hi' where b': "buffers it ! Suc (current_buffer it) = (p', lo', hi')"
        by (cases "buffers it ! Suc (current_buffer it)")
      with True have "lo' < hi'" using pos nth_mem by metis
      with assms True b' show ?thesis by (simp add: ub_inv_def slice_bytes_def)
    next
      case False
      with assms show ?thesis by (simp add: ub_inv_def)
    qed
    moreover have "ub_rest ?it = concat (map slice_bytes (drop (Suc (current_buffer it)) (buffers it)))"
      by (simp add: ub_rest_def)
    ultimately show ?thesis using rest last len by simp
  next
    case False
    let ?it = "it\<lparr>current_idx := current_idx it + 1\<rparr>"
    have "user_buffer_next it = Some (Some (p, lo + current_idx it), ?it)"
      using True b lt False by (simp add: user_buffer_next_def idx_in_range Let_def)
    moreover have "ub_inv ?it" using assms True b len nxt0 False by (simp add: ub_inv_def)
    moreover have "ub_rest ?it = drop (Suc (current_idx it)) (slice_bytes (p, lo, hi)) @
        concat (map slice_bytes (drop (Suc (current_buffer it)) (buffers it)))"
      using len nxt0 False by (simp add: ub_rest_def dr)
    ultimately show ?thesis using rest by simp
  qed
qed

lemma ub_collect_ok:
  "ub_inv it \<Longrightarrow> length (ub_rest it) < n \<Longrightarrow> ub_collect n it = Some (ub_rest it, True)"
proof (induction n arbitrary: it)
  case (Suc n)
  then show ?case using ub_next_ok [OF Suc.prems(1)] by (cases "ub_rest it") auto
qed simp

lemma ub_into_iter:
  assumes "\<forall>(p, lo, hi) \<in> set bs. lo < hi"
  shows "ub_inv (user_buffer_into_iter bs)" "ub_rest (user_buffer_into_iter bs) = concat (map slice_bytes bs)"
  using assms by (cases bs; force simp: ub_inv_def ub_rest_def user_buffer_into_iter_def slice_bytes_def)+

lemma length_slices: "length (concat (map slice_bytes bs)) = user_buffer_len bs"
  by (induction bs) (auto simp: user_buffer_len_def slice_bytes_def)

text \<open>Memory as after boot, for the examples.\<close>

definition example_mem :: kmem where
  "example_mem = \<lparr>frames = init_frame_allocator 0x80500000, phys = (\<lambda>_ _. 0)\<rparr>"

lemma example_mem_inv: "fa_inv 0x80500 (frames example_mem)" "fa_free (frames example_mem) = 0x7b00"
proof -
  have c: "pa_ceil (phys_addr_from 0x80500000) = PhysPageNum 0x80500"
    by (simp add: pa_ceil_def phys_addr_from_def PAGE_SIZE_def width_defs)
  then show "fa_inv 0x80500 (frames example_mem)"
    using init_inv [of "0x80500000"] by (simp add: example_mem_def kernel_fits_def less_eq_phys_page_num_def)
  show "fa_free (frames example_mem) = 0x7b00"
    by (simp add: example_mem_def fa_free_def init_frame_allocator_def frame_allocator_init_def
        frame_allocator_new_def c memory_end_frame)
qed

subsection \<open>Properties\<close>

text \<open>C1: the three-level page table refines a finite map from page numbers to entries. Started
  from the empty table of \<^verbatim>\<open>PageTable::new\<close>, any sequence of map, map-copy-on-write, unmap,
  mark and resolve operations on Sv39 page numbers panics exactly when the specification's
  assertions fail, and otherwise the valid leaf entries are exactly the ones the specification
  holds: mapping one page never disturbs another, whatever tables the two share. Two free frames
  for each operation are enough.\<close>

theorem page_table_refines_map:
  assumes "fa_inv l (frames k0)" and "page_table_new k0 = Some (pt, k)"
    and "length ops * 2 \<le> fa_free (frames k)" and "\<forall>op \<in> set ops. vpn_sv39 (pt_op_vpn op)"
  shows "case run pt_spec Map.empty ops of
      Some m \<Rightarrow> \<exists>k' pt'. run pt_step (k, pt) ops = Some (k', pt') \<and> pt_inv l k' pt' \<and> pt_abs k' pt' = m
    | None \<Rightarrow> run pt_step (k, pt) ops = None"
proof -
  have pos: "0 < fa_free (frames k0)"
  proof (rule ccontr)
    assume "\<not> 0 < fa_free (frames k0)"
    then have "recycled (frames k0) = []" "unat (end_frame (frames k0)) \<le> unat (current (frames k0))"
      by (auto simp: fa_free_def)
    with assms(1) have "recycled (frames k0) = []" "current (frames k0) = end_frame (frames k0)"
      by (auto simp: fa_inv_def word_le_nat_alt word_unat_eq_iff)
    with assms(2) show False by (simp add: page_table_new_def frame_alloc_def fa_alloc_def)
  qed
  from page_table_new_ok [OF assms(1) pos] assms(2) have inv: "pt_inv l k pt" "pt_abs k pt = Map.empty" by auto
  have "case (k, pt) of (k, pt) \<Rightarrow> pt_inv l k pt \<and> length ops * 2 \<le> fa_free (frames k)"
    using inv assms(3) by simp
  from table.run_refines [OF this] assms(4) inv(2) show ?thesis by (auto split: option.splits)
qed

theorem page_table_refines_map_witness:
  "\<exists>pt k k' pt'. page_table_new example_mem = Some (pt, k)
    \<and> run pt_step (k, pt) [MapPage (VirtPageNum 5) (PhysPageNum 0x80600) PTE_R,
         MapPage (VirtPageNum 6) (PhysPageNum 0x80601) PTE_W, UnmapPage (VirtPageNum 5)] = Some (k', pt')
    \<and> pt_abs k' pt' = [VirtPageNum 6 \<mapsto> pte_new (PhysPageNum 0x80601) (PTE_W OR PTE_V)]"
proof -
  have pos: "0 < fa_free (frames example_mem)" using example_mem_inv(2) by simp
  from page_table_new_ok [OF example_mem_inv(1) pos] obtain pt k where
    n: "page_table_new example_mem = Some (pt, k)" "fa_free (frames k) = 0x7aff"
    using example_mem_inv(2) by auto
  from page_table_refines_map [OF example_mem_inv(1) n(1),
      of "[MapPage (VirtPageNum 5) (PhysPageNum 0x80600) PTE_R,
         MapPage (VirtPageNum 6) (PhysPageNum 0x80601) PTE_W, UnmapPage (VirtPageNum 5)]"] n
  show ?thesis by (simp add: vpn_sv39_def fun_upd_twist) blast
qed

text \<open>C21: the slices \<^verbatim>\<open>translated_byte_buffer\<close> returns for a mapped user range are
  the bytes of the range: iterating the user buffer yields, for every virtual address of the range
  in order, the page and the offset the page table translates it to, and ends after the last one.\<close>

theorem user_buffer_covers_range:
  assumes "unat ptr + unat len < 2 ^ 38"
    and "\<And>a. unat ptr \<le> a \<Longrightarrow> a < unat ptr + unat len \<Longrightarrow>
      pt_translate k (from_token token) (VirtPageNum (of_nat (a div 4096))) \<noteq> None"
  shows "\<exists>bs. translated_byte_buffer k token ptr len = Some bs \<and> user_buffer_len bs = unat len
    \<and> ub_collect (Suc (unat len)) (user_buffer_into_iter bs)
        = Some (map (byte_loc k (from_token token)) [unat ptr..<unat ptr + unat len], True)"
proof -
  have e: "unat (ptr + len) = unat ptr + unat len" using assms(1) by (intro unat_add_no_wrap) simp
  from byte_buffers_cover [of "ptr + len" ptr k "from_token token"] assms e obtain bs where
    bs: "byte_buffers k (from_token token) ptr (ptr + len) = Some bs"
    "concat (map slice_bytes bs) = map (byte_loc k (from_token token)) [unat ptr..<unat ptr + unat len]"
    "\<forall>(p, lo, hi) \<in> set bs. lo < hi \<and> hi \<le> 4096" by auto
  then have "\<forall>(p, lo, hi) \<in> set bs. lo < hi" by blast
  note it = ub_into_iter [OF this]
  have len: "user_buffer_len bs = unat len" using arg_cong [OF bs(2), of length] by (simp only: length_slices) simp
  have "ub_collect (Suc (unat len)) (user_buffer_into_iter bs) = Some (ub_rest (user_buffer_into_iter bs), True)"
    by (rule ub_collect_ok [OF it(1)]) (simp add: it(2) bs(2))
  with bs(1,2) it(2) len show ?thesis by (simp add: translated_byte_buffer_def)
qed

definition example_tables :: kmem where
  "example_tables = example_mem\<lparr>phys := (\<lambda>_ _. 0)(
     PhysPageNum 1 := (\<lambda>_. 0)(0 := pte_bits (pte_new (PhysPageNum 2) PTE_V)),
     PhysPageNum 2 := (\<lambda>_. 0)(0 := pte_bits (pte_new (PhysPageNum 3) PTE_V)),
     PhysPageNum 3 := (\<lambda>_. 0)(0 := pte_bits (pte_new (PhysPageNum 9) (PTE_V OR PTE_R OR PTE_U)),
                              1 := pte_bits (pte_new (PhysPageNum 7) (PTE_V OR PTE_R OR PTE_U))))\<rparr>"

lemma example_tables_translate:
  "pt_translate example_tables (from_token 1) (VirtPageNum 0) = Some (pte_new (PhysPageNum 9) (PTE_V OR PTE_R OR PTE_U))"
  "pt_translate example_tables (from_token 1) (VirtPageNum 1) = Some (pte_new (PhysPageNum 7) (PTE_V OR PTE_R OR PTE_U))"
  by (simp_all add: pt_translate_def find_pte_def indexes_def from_token_def phys_page_num_from_def width_defs
      read_pte_def example_tables_def pte_new_ppn)

theorem user_buffer_covers_range_witness:
  "\<exists>bs. translated_byte_buffer example_tables 1 4094 4 = Some bs \<and> user_buffer_len bs = 4
    \<and> ub_collect 5 (user_buffer_into_iter bs)
        = Some ([(PhysPageNum 9, 4094), (PhysPageNum 9, 4095), (PhysPageNum 7, 0), (PhysPageNum 7, 1)], True)"
proof -
  have m: "pt_translate example_tables (from_token 1) (VirtPageNum (of_nat (a div 4096))) \<noteq> None"
    if "4094 \<le> a" "a < 4098" for a :: nat
  proof -
    have "a = 4094 \<or> a = 4095 \<or> a = 4096 \<or> a = 4097" using that by linarith
    then show ?thesis using example_tables_translate by auto
  qed
  have r: "[4094..<4098] = [4094, 4095, 4096, 4097 :: nat]" by (simp add: upt_conv_Cons)
  have loc: "map (byte_loc example_tables (from_token 1)) [4094..<4098]
      = [(PhysPageNum 9, 4094), (PhysPageNum 9, 4095), (PhysPageNum 7, 0), (PhysPageNum 7, 1)]"
    unfolding r by (simp add: byte_loc_def example_tables_translate pte_new_ppn)
  show ?thesis using user_buffer_covers_range [of 4094 4 example_tables 1] m loc by simp
qed

end
