(* ===== verification/MemorySet.thy ===== *)
theory MemorySet
  imports PageTable
begin

unbundle bit_operations_syntax

section \<open>Address spaces\<close>

text \<open>
  os/src/mm/memory_set.rs: the areas of an address space and its page table, with anonymous
  mappings, the loading of programs, eager and copy-on-write duplication, and the copy-on-write
  fault. The frame trackers of an area are a map from page numbers to frames; its keys are pages
  of the area's range, so dropping the area releases them in the order of the range. The TLB flush
  \<^verbatim>\<open>sfence.vma\<close> has no counterpart: the model reads the tables themselves.
\<close>

definition MMIO :: "(usize \<times> usize) list" where
  "MMIO = [(0x100000, 0x2000), (0x2000000, 0x10000), (0xc000000, 0x210000), (0x10000000, 0x9000)]"

datatype map_type = Identical | Framed | Linear usize

definition PERM_R :: u8 where "PERM_R = 2"
definition PERM_W :: u8 where "PERM_W = 4"
definition PERM_X :: u8 where "PERM_X = 8"
definition PERM_U :: u8 where "PERM_U = 16"

record map_area =
  area_range :: vpn_range
  data_frames :: "virt_page_num \<rightharpoonup> phys_page_num"
  area_type :: map_type
  map_perm :: u8

record memory_set =
  ms_table :: page_table
  areas :: "map_area list"

subsection \<open>Areas\<close>

definition map_area_new :: "virt_addr \<Rightarrow> virt_addr \<Rightarrow> map_type \<Rightarrow> u8 \<Rightarrow> map_area outcome" where
  "map_area_new start_va end_va ty perm = do {
     r \<leftarrow> range_new (va_floor start_va) (va_ceil end_va);
     Some \<lparr>area_range = r, data_frames = Map.empty, area_type = ty, map_perm = perm\<rparr>
   }"

definition from_another :: "map_area \<Rightarrow> map_area outcome" where
  "from_another a = do {
     r \<leftarrow> range_new (range_l (area_range a)) (range_r (area_range a));
     Some \<lparr>area_range = r, data_frames = Map.empty, area_type = area_type a, map_perm = map_perm a\<rparr>
   }"

text \<open>Inserting a frame tracker drops the one it replaces.\<close>

definition insert_frame :: "kmem \<Rightarrow> map_area \<Rightarrow> virt_page_num \<Rightarrow> phys_page_num \<Rightarrow> (map_area \<times> kmem) outcome" where
  "insert_frame k a vpn f = do {
     k' \<leftarrow> (case data_frames a vpn of None \<Rightarrow> Some k | Some old \<Rightarrow> frame_dealloc k old);
     Some (a\<lparr>data_frames := (data_frames a)(vpn \<mapsto> f)\<rparr>, k')
   }"

definition map_one :: "kmem \<Rightarrow> page_table \<Rightarrow> map_area \<Rightarrow> virt_page_num
    \<Rightarrow> (map_area \<times> page_table \<times> kmem) outcome" where
  "map_one k pt a vpn = do {
     (ppn, a', k') \<leftarrow> (case area_type a of
         Identical \<Rightarrow> Some (PhysPageNum (vpn_val vpn), a, k)
       | Framed \<Rightarrow> do {
           (r, k1) \<leftarrow> frame_alloc k;
           frame \<leftarrow> r;
           (a1, k2) \<leftarrow> insert_frame k1 a vpn frame;
           Some (frame, a1, k2)
         }
       | Linear pn_offset \<Rightarrow> do {
           _ \<leftarrow> ensure (vpn_val vpn < push_bit 27 1);
           Some (PhysPageNum (vpn_val vpn + pn_offset), a, k)
         });
     (pt', k'') \<leftarrow> pt_map k' pt vpn ppn (map_perm a);
     Some (a', pt', k'')
   }"

definition unmap_one :: "kmem \<Rightarrow> page_table \<Rightarrow> map_area \<Rightarrow> virt_page_num \<Rightarrow> (map_area \<times> kmem) outcome" where
  "unmap_one k pt a vpn = do {
     (a', k') \<leftarrow> (if area_type a = Framed
       then (case data_frames a vpn of
           None \<Rightarrow> Some (a, k)
         | Some f \<Rightarrow> do { k1 \<leftarrow> frame_dealloc k f; Some (a\<lparr>data_frames := (data_frames a)(vpn := None)\<rparr>, k1) })
       else Some (a, k));
     k'' \<leftarrow> pt_unmap k' pt vpn;
     Some (a', k'')
   }"

fun map_pages :: "kmem \<Rightarrow> page_table \<Rightarrow> map_area \<Rightarrow> virt_page_num list
    \<Rightarrow> (map_area \<times> page_table \<times> kmem) outcome" where
  "map_pages k pt a [] = Some (a, pt, k)"
| "map_pages k pt a (v # vs) = do { (a', pt', k') \<leftarrow> map_one k pt a v; map_pages k' pt' a' vs }"

definition area_map :: "kmem \<Rightarrow> page_table \<Rightarrow> map_area \<Rightarrow> (map_area \<times> page_table \<times> kmem) outcome" where
  "area_map k pt a = map_pages k pt a (range_list (area_range a))"

fun unmap_pages :: "kmem \<Rightarrow> page_table \<Rightarrow> map_area \<Rightarrow> virt_page_num list \<Rightarrow> (map_area \<times> kmem) outcome" where
  "unmap_pages k pt a [] = Some (a, k)"
| "unmap_pages k pt a (v # vs) = do { (a', k') \<leftarrow> unmap_one k pt a v; unmap_pages k' pt a' vs }"

definition area_unmap :: "kmem \<Rightarrow> page_table \<Rightarrow> map_area \<Rightarrow> (map_area \<times> kmem) outcome" where
  "area_unmap k pt a = unmap_pages k pt a (range_list (area_range a))"

text \<open>Writing bytes to the start of a page, little endian in its doublewords.\<close>

definition set_byte :: "page \<Rightarrow> nat \<Rightarrow> u8 \<Rightarrow> page" where
  "set_byte pg off b = pg(off div 8 :=
     (pg (off div 8) AND NOT (push_bit (8 * (off mod 8)) 255)) OR push_bit (8 * (off mod 8)) (ucast b))"

fun put_bytes :: "page \<Rightarrow> nat \<Rightarrow> u8 list \<Rightarrow> page" where
  "put_bytes pg off [] = pg"
| "put_bytes pg off (b # bs) = put_bytes (set_byte pg off b) (Suc off) bs"

function copy_data_from :: "kmem \<Rightarrow> page_table \<Rightarrow> virt_page_num \<Rightarrow> u8 list \<Rightarrow> kmem outcome" where
  "copy_data_from k pt vpn data = do {
     pte \<leftarrow> pt_translate k pt vpn;
     let k' = k\<lparr>phys := (phys k)(pte_ppn pte := put_bytes (phys k (pte_ppn pte)) 0 (take 4096 data))\<rparr>;
     if length data \<le> 4096 then Some k' else copy_data_from k' pt (vpn_step vpn) (drop 4096 data)
   }"
  by pat_completeness auto
termination by (relation "measure (\<lambda>(k, pt, vpn, data). length data)") auto

declare copy_data_from.simps [simp del]

definition copy_data :: "kmem \<Rightarrow> page_table \<Rightarrow> map_area \<Rightarrow> u8 list \<Rightarrow> kmem outcome" where
  "copy_data k pt a data = do {
     _ \<leftarrow> ensure (area_type a = Framed);
     copy_data_from k pt (range_l (area_range a)) data
   }"

definition area_trackers :: "map_area \<Rightarrow> phys_page_num list" where
  "area_trackers a = List.map_filter (data_frames a) (range_list (area_range a))"

definition drop_area :: "kmem \<Rightarrow> map_area \<Rightarrow> kmem outcome" where
  "drop_area k a = drop_trackers k (area_trackers a)"

subsection \<open>Building address spaces\<close>

definition new_bare :: "kmem \<Rightarrow> (memory_set \<times> kmem) outcome" where
  "new_bare k = do {
     (pt, k') \<leftarrow> page_table_new k;
     Some (\<lparr>ms_table = pt, areas = []\<rparr>, k')
   }"

definition ms_token :: "memory_set \<Rightarrow> usize" where
  "ms_token ms = pt_token (ms_table ms)"

definition push :: "kmem \<Rightarrow> memory_set \<Rightarrow> map_area \<Rightarrow> u8 list option \<Rightarrow> (memory_set \<times> kmem) outcome" where
  "push k ms a data = do {
     (a', pt', k1) \<leftarrow> area_map k (ms_table ms) a;
     k2 \<leftarrow> (case data of None \<Rightarrow> Some k1 | Some d \<Rightarrow> copy_data k1 pt' a' d);
     Some (\<lparr>ms_table = pt', areas = areas ms @ [a']\<rparr>, k2)
   }"

definition insert_framed_area :: "kmem \<Rightarrow> memory_set \<Rightarrow> virt_addr \<Rightarrow> virt_addr \<Rightarrow> u8
    \<Rightarrow> (memory_set \<times> kmem) outcome" where
  "insert_framed_area k ms start_va end_va perm = do {
     a \<leftarrow> map_area_new start_va end_va Framed perm;
     push k ms a None
   }"

definition remove_area_with_start_vpn :: "kmem \<Rightarrow> memory_set \<Rightarrow> virt_page_num \<Rightarrow> (memory_set \<times> kmem) outcome" where
  "remove_area_with_start_vpn k ms start_vpn =
     (case position (\<lambda>a. range_l (area_range a) = start_vpn) (areas ms) of
        None \<Rightarrow> Some (ms, k)
      | Some i \<Rightarrow> do {
          (a, k') \<leftarrow> area_unmap k (ms_table ms) (areas ms ! i);
          k'' \<leftarrow> drop_area k' a;
          Some (ms\<lparr>areas := take i (areas ms) @ drop (Suc i) (areas ms)\<rparr>, k'')
        })"

definition map_trampoline :: "kmem \<Rightarrow> memory_set \<Rightarrow> usize \<Rightarrow> (memory_set \<times> kmem) outcome" where
  "map_trampoline k ms strampoline = do {
     vpn \<leftarrow> vpn_of_va (virt_addr_from TRAMPOLINE);
     ppn \<leftarrow> ppn_of_pa (phys_addr_from strampoline);
     (pt', k') \<leftarrow> pt_map k (ms_table ms) vpn ppn (PTE_R OR PTE_X);
     Some (ms\<lparr>ms_table := pt'\<rparr>, k')
   }"

text \<open>The symbols of the linker script.\<close>

record linker_symbols =
  stext :: usize
  etext :: usize
  srodata :: usize
  erodata :: usize
  sdata :: usize
  edata :: usize
  sbss_with_stack :: usize
  ebss :: usize
  ekernel_sym :: usize
  strampoline_sym :: usize

fun push_identical :: "kmem \<Rightarrow> memory_set \<Rightarrow> (usize \<times> usize \<times> u8) list \<Rightarrow> (memory_set \<times> kmem) outcome" where
  "push_identical k ms [] = Some (ms, k)"
| "push_identical k ms ((s, e, perm) # rs) = do {
     a \<leftarrow> map_area_new (virt_addr_from s) (virt_addr_from e) Identical perm;
     (ms', k') \<leftarrow> push k ms a None;
     push_identical k' ms' rs
   }"

definition new_kernel :: "kmem \<Rightarrow> linker_symbols \<Rightarrow> (memory_set \<times> kmem) outcome" where
  "new_kernel k ls = do {
     (ms, k1) \<leftarrow> new_bare k;
     (ms, k2) \<leftarrow> map_trampoline k1 ms (strampoline_sym ls);
     push_identical k2 ms (
       [(stext ls, etext ls, PERM_R OR PERM_X),
        (srodata ls, erodata ls, PERM_R),
        (sdata ls, edata ls, PERM_R OR PERM_W),
        (sbss_with_stack ls, ebss ls, PERM_R OR PERM_W),
        (ekernel_sym ls, MEMORY_END, PERM_R OR PERM_W)]
       @ map (\<lambda>(base, size). (base, base + size, PERM_R OR PERM_W)) MMIO)
   }"

subsection \<open>Loading programs\<close>

text \<open>
  What the code reads of a parsed ELF file. The parser is the crate \<^verbatim>\<open>xmas_elf\<close>, a
  parameter of the loader; its errors (a file it rejects, an unreadable header, an unknown header
  type), which the source unwraps, are None.
\<close>

record program_header =
  ph_is_load :: "bool option"
  ph_virtual_addr :: usize
  ph_mem_size :: usize
  ph_read :: bool
  ph_write :: bool
  ph_execute :: bool
  ph_offset :: usize
  ph_file_size :: usize

record elf_file =
  elf_magic :: "u8 list"
  program_headers :: "program_header option list"
  entry_point :: usize

definition ph_perm :: "program_header \<Rightarrow> u8" where
  "ph_perm ph =
     (let p0 = PERM_U;
          p1 = (if ph_read ph then p0 OR PERM_R else p0);
          p2 = (if ph_write ph then p1 OR PERM_W else p1)
      in if ph_execute ph then p2 OR PERM_X else p2)"

definition slice_of :: "'a list \<Rightarrow> usize \<Rightarrow> usize \<Rightarrow> 'a list outcome" where
  "slice_of xs lo hi =
     (if lo \<le> hi \<and> unat hi \<le> length xs then Some (take (unat hi - unat lo) (drop (unat lo) xs)) else None)"

fun load_segments :: "kmem \<Rightarrow> memory_set \<Rightarrow> u8 list \<Rightarrow> virt_page_num \<Rightarrow> program_header option list
    \<Rightarrow> (memory_set \<times> virt_page_num \<times> kmem) outcome" where
  "load_segments k ms input max_end [] = Some (ms, max_end, k)"
| "load_segments k ms input max_end (ph # phs) = do {
     ph \<leftarrow> ph;
     is_load \<leftarrow> ph_is_load ph;
     if is_load then do {
       let start_va = virt_addr_from (ph_virtual_addr ph);
       let end_va = virt_addr_from (ph_virtual_addr ph + ph_mem_size ph);
       a \<leftarrow> map_area_new start_va end_va Framed (ph_perm ph);
       data \<leftarrow> slice_of input (ph_offset ph) (ph_offset ph + ph_file_size ph);
       (ms', k') \<leftarrow> push k ms a (Some data);
       load_segments k' ms' input (range_r (area_range a)) phs
     } else load_segments k ms input max_end phs
   }"

definition from_elf :: "(u8 list \<Rightarrow> elf_file option) \<Rightarrow> kmem \<Rightarrow> usize \<Rightarrow> u8 list
    \<Rightarrow> (memory_set \<times> usize \<times> usize \<times> kmem) outcome" where
  "from_elf parse k strampoline elf_data = do {
     (ms, k1) \<leftarrow> new_bare k;
     (ms, k2) \<leftarrow> map_trampoline k1 ms strampoline;
     elf \<leftarrow> parse elf_data;
     _ \<leftarrow> ensure (elf_magic elf = [0x7f, 0x45, 0x4c, 0x46]);
     (ms, max_end_vpn, k3) \<leftarrow> load_segments k2 ms elf_data (VirtPageNum 0) (program_headers elf);
     let user_stack_base = usize_from_virt_addr (va_of_vpn max_end_vpn) + PAGE_SIZE;
     Some (ms, user_stack_base, entry_point elf, k3)
   }"

subsection \<open>Duplicating an address space\<close>

definition copy_page :: "kmem \<Rightarrow> phys_page_num \<Rightarrow> phys_page_num \<Rightarrow> kmem" where
  "copy_page k dst src = k\<lparr>phys := (phys k)(dst := phys k src)\<rparr>"

fun copy_pages :: "kmem \<Rightarrow> page_table \<Rightarrow> page_table \<Rightarrow> virt_page_num list \<Rightarrow> kmem outcome" where
  "copy_pages k src dst [] = Some k"
| "copy_pages k src dst (v # vs) = do {
     s \<leftarrow> pt_translate k src v;
     d \<leftarrow> pt_translate k dst v;
     copy_pages (copy_page k (pte_ppn d) (pte_ppn s)) src dst vs
   }"

fun copy_areas :: "kmem \<Rightarrow> page_table \<Rightarrow> memory_set \<Rightarrow> map_area list \<Rightarrow> (memory_set \<times> kmem) outcome" where
  "copy_areas k src ms [] = Some (ms, k)"
| "copy_areas k src ms (a # as) = do {
     a' \<leftarrow> from_another a;
     (ms', k1) \<leftarrow> push k ms a' None;
     k2 \<leftarrow> copy_pages k1 src (ms_table ms') (range_list (area_range a));
     copy_areas k2 src ms' as
   }"

definition from_existed_user :: "kmem \<Rightarrow> usize \<Rightarrow> memory_set \<Rightarrow> (memory_set \<times> kmem) outcome" where
  "from_existed_user k strampoline user_space = do {
     (ms, k1) \<leftarrow> new_bare k;
     (ms, k2) \<leftarrow> map_trampoline k1 ms strampoline;
     copy_areas k2 (ms_table user_space) ms (areas user_space)
   }"

text \<open>
  One page of a copy-on-write fork: a user page is shared, and if it is writable or already
  copy-on-write both sides map it copy-on-write; a kernel-only page (the trap context) is copied.
\<close>

definition cow_page :: "kmem \<Rightarrow> page_table \<Rightarrow> map_area \<Rightarrow> page_table \<Rightarrow> map_area \<Rightarrow> virt_page_num
    \<Rightarrow> (map_area \<times> page_table \<times> kmem) outcome" where
  "cow_page k parent_pt area child_pt new_area vpn = do {
     parent_pte \<leftarrow> pt_translate k parent_pt vpn;
     let ppn = pte_ppn parent_pte;
     let flags = pte_flags parent_pte;
     if pte_user_accessible parent_pte then do {
       _ \<leftarrow> ensure (area_type area = Framed);
       f \<leftarrow> data_frames area vpn;
       k1 \<leftarrow> frame_add_ref k f;
       (new_area', k2) \<leftarrow> insert_frame k1 new_area vpn f;
       if pte_writable parent_pte \<or> pte_is_cow parent_pte then do {
         k3 \<leftarrow> mark_cow k2 parent_pt vpn;
         (child_pt', k4) \<leftarrow> map_cow k3 child_pt vpn ppn flags;
         Some (new_area', child_pt', k4)
       } else do {
         (child_pt', k4) \<leftarrow> pt_map k2 child_pt vpn ppn flags;
         Some (new_area', child_pt', k4)
       }
     } else do {
       (new_area', child_pt', k1) \<leftarrow> map_one k child_pt new_area vpn;
       d \<leftarrow> pt_translate k1 child_pt' vpn;
       Some (new_area', child_pt', copy_page k1 (pte_ppn d) ppn)
     }
   }"

fun cow_pages :: "kmem \<Rightarrow> page_table \<Rightarrow> map_area \<Rightarrow> page_table \<Rightarrow> map_area \<Rightarrow> virt_page_num list
    \<Rightarrow> (map_area \<times> page_table \<times> kmem) outcome" where
  "cow_pages k parent_pt area child_pt new_area [] = Some (new_area, child_pt, k)"
| "cow_pages k parent_pt area child_pt new_area (v # vs) = do {
     (new_area', child_pt', k') \<leftarrow> cow_page k parent_pt area child_pt new_area v;
     cow_pages k' parent_pt area child_pt' new_area' vs
   }"

fun cow_areas :: "kmem \<Rightarrow> page_table \<Rightarrow> memory_set \<Rightarrow> map_area list \<Rightarrow> (memory_set \<times> kmem) outcome" where
  "cow_areas k parent_pt ms [] = Some (ms, k)"
| "cow_areas k parent_pt ms (a # as) = do {
     a0 \<leftarrow> from_another a;
     (a', pt', k') \<leftarrow> cow_pages k parent_pt a (ms_table ms) a0 (range_list (area_range a));
     cow_areas k' parent_pt \<lparr>ms_table = pt', areas = areas ms @ [a']\<rparr> as
   }"

definition from_existed_user_cow :: "kmem \<Rightarrow> usize \<Rightarrow> memory_set \<Rightarrow> (memory_set \<times> kmem) outcome" where
  "from_existed_user_cow k strampoline user_space = do {
     (ms, k1) \<leftarrow> new_bare k;
     (ms, k2) \<leftarrow> map_trampoline k1 ms strampoline;
     cow_areas k2 (ms_table user_space) ms (areas user_space)
   }"

definition area_covers :: "map_area \<Rightarrow> virt_page_num \<Rightarrow> bool" where
  "area_covers a vpn = (range_l (area_range a) \<le> vpn \<and> vpn < range_r (area_range a))"

definition handle_cow_fault :: "kmem \<Rightarrow> memory_set \<Rightarrow> virt_addr \<Rightarrow> (bool \<times> memory_set \<times> kmem) outcome" where
  "handle_cow_fault k ms fault_va =
     (let vpn = va_floor fault_va in
      case pt_translate k (ms_table ms) vpn of
        None \<Rightarrow> Some (False, ms, k)
      | Some pte \<Rightarrow>
          if \<not> (pte_is_valid pte \<and> pte_user_accessible pte \<and> pte_is_cow pte) then Some (False, ms, k)
          else if frame_ref_count k (pte_ppn pte) = 1 then do {
            k' \<leftarrow> resolve_cow k (ms_table ms) vpn (pte_ppn pte);
            Some (True, ms, k')
          } else do {
            (r, k1) \<leftarrow> frame_alloc k;
            new_ppn \<leftarrow> r;
            let k2 = copy_page k1 new_ppn (pte_ppn pte);
            case position (\<lambda>a. area_covers a vpn) (areas ms) of
              None \<Rightarrow> do { k3 \<leftarrow> frame_dealloc k2 new_ppn; Some (False, ms, k3) }
            | Some i \<Rightarrow>
                let a = areas ms ! i in
                if area_type a \<noteq> Framed then do { k3 \<leftarrow> frame_dealloc k2 new_ppn; Some (False, ms, k3) }
                else do {
                  old_frame \<leftarrow> data_frames a vpn;
                  let ms' = ms\<lparr>areas := (areas ms)[i := a\<lparr>data_frames := (data_frames a)(vpn \<mapsto> new_ppn)\<rparr>]\<rparr>;
                  k3 \<leftarrow> resolve_cow k2 (ms_table ms) vpn new_ppn;
                  k4 \<leftarrow> frame_dealloc k3 old_frame;
                  Some (True, ms', k4)
                }
          })"

function ensure_private_from :: "kmem \<Rightarrow> memory_set \<Rightarrow> virt_page_num \<Rightarrow> virt_page_num
    \<Rightarrow> (bool \<times> memory_set \<times> kmem) outcome" where
  "ensure_private_from k ms vpn end_vpn =
     (if vpn < end_vpn then
        case pt_translate k (ms_table ms) vpn of
          None \<Rightarrow> Some (False, ms, k)
        | Some pte \<Rightarrow>
            if \<not> (pte_is_valid pte \<and> pte_user_accessible pte) then Some (False, ms, k)
            else if pte_is_cow pte then do {
              (ok, ms', k') \<leftarrow> handle_cow_fault k ms (va_of_vpn vpn);
              if \<not> ok then Some (False, ms', k') else ensure_private_from k' ms' (vpn_step vpn) end_vpn
            }
            else if \<not> pte_writable pte then Some (False, ms, k)
            else ensure_private_from k ms (vpn_step vpn) end_vpn
      else Some (True, ms, k))"
  by pat_completeness auto
termination
proof (relation "measure (\<lambda>(k, ms, vpn, end_vpn). unat (vpn_val end_vpn) - unat (vpn_val vpn))", goal_cases)
  case 1
  show ?case by simp
qed (use vpn_step_val in \<open>force simp: less_virt_page_num_def word_less_nat_alt\<close>)+

declare ensure_private_from.simps [simp del]

definition ensure_private_range :: "kmem \<Rightarrow> memory_set \<Rightarrow> virt_addr \<Rightarrow> usize
    \<Rightarrow> (bool \<times> memory_set \<times> kmem) outcome" where
  "ensure_private_range k ms start_va len =
     (if len = 0 then Some (True, ms, k)
      else case checked_add (usize_from_virt_addr start_va) len of
        None \<Rightarrow> Some (False, ms, k)
      | Some fin \<Rightarrow> ensure_private_from k ms (va_floor start_va) (va_ceil (virt_addr_from fin)))"

fun drop_areas :: "kmem \<Rightarrow> map_area list \<Rightarrow> kmem outcome" where
  "drop_areas k [] = Some k"
| "drop_areas k (a # as) = do { k' \<leftarrow> drop_area k a; drop_areas k' as }"

definition recycle_data_pages :: "kmem \<Rightarrow> memory_set \<Rightarrow> (memory_set \<times> kmem) outcome" where
  "recycle_data_pages k ms = do { k' \<leftarrow> drop_areas k (areas ms); Some (ms\<lparr>areas := []\<rparr>, k') }"

subsection \<open>Anonymous mappings\<close>

definition MMAP_BASE :: usize where "MMAP_BASE = 0x20000000"
definition MMAP_END :: usize where "MMAP_END = 0x30000000"

definition area_conflicts :: "memory_set \<Rightarrow> usize \<Rightarrow> usize \<Rightarrow> bool" where
  "area_conflicts ms start fin = list_ex (\<lambda>a.
     let area_start = usize_from_virt_addr (va_of_vpn (range_l (area_range a)));
         area_end = usize_from_virt_addr (va_of_vpn (range_r (area_range a)))
     in start < area_end \<and> area_start < fin) (areas ms)"

definition mmap_len :: "usize \<Rightarrow> usize option" where
  "mmap_len len = map_option (\<lambda>x. x AND NOT (PAGE_SIZE - 1)) (checked_add len (PAGE_SIZE - 1))"

definition mmap_perm :: "usize \<Rightarrow> u8" where
  "mmap_perm prot =
     (let p0 = PERM_U;
          p1 = (if prot AND 1 \<noteq> 0 then p0 OR PERM_R else p0);
          p2 = (if prot AND 2 \<noteq> 0 then p1 OR (PERM_R OR PERM_W) else p1)
      in if prot AND 4 \<noteq> 0 then p2 OR PERM_X else p2)"

function mmap_search :: "memory_set \<Rightarrow> usize \<Rightarrow> usize \<Rightarrow> usize option" where
  "mmap_search ms len candidate =
     (case checked_add candidate len of
        None \<Rightarrow> None
      | Some fin \<Rightarrow>
          if fin > MMAP_END then None
          else if \<not> area_conflicts ms candidate fin then Some candidate
          else case checked_add candidate PAGE_SIZE of
            None \<Rightarrow> None
          | Some candidate' \<Rightarrow> mmap_search ms len candidate')"
  by pat_completeness auto
termination
proof (relation "measure (\<lambda>(ms, len, c). 2 ^ 64 - unat c)", goal_cases)
  case (2 ms len c fin c')
  have "unat c' = unat c + unat PAGE_SIZE" using 2(4) by (rule checked_add_SomeD)
  moreover have "unat c' < 2 ^ 64" using unsigned_less [of c', where ?'a = nat] by simp
  ultimately show ?case by (simp add: PAGE_SIZE_def)
qed simp

declare mmap_search.simps [simp del]

definition mmap_choose :: "memory_set \<Rightarrow> usize \<Rightarrow> usize \<Rightarrow> usize option" where
  "mmap_choose ms start len =
     (if start \<noteq> 0 then
        if start mod PAGE_SIZE \<noteq> 0 then None
        else case checked_add start len of
          None \<Rightarrow> None
        | Some fin \<Rightarrow>
            if start < MMAP_BASE \<or> fin > MMAP_END \<or> area_conflicts ms start fin then None else Some start
      else mmap_search ms len MMAP_BASE)"

definition mmap :: "kmem \<Rightarrow> memory_set \<Rightarrow> usize \<Rightarrow> usize \<Rightarrow> usize
    \<Rightarrow> (usize option \<times> memory_set \<times> kmem) outcome" where
  "mmap k ms start len prot =
     (if len = 0 \<or> prot AND NOT 7 \<noteq> 0 then Some (None, ms, k)
      else case mmap_len len of
        None \<Rightarrow> Some (None, ms, k)
      | Some len' \<Rightarrow>
          if mmap_perm prot AND (PERM_R OR PERM_X) = 0 then Some (None, ms, k)
          else case mmap_choose ms start len' of
            None \<Rightarrow> Some (None, ms, k)
          | Some chosen \<Rightarrow> do {
              (ms', k') \<leftarrow> insert_framed_area k ms (virt_addr_from chosen) (virt_addr_from (chosen + len'))
                (mmap_perm prot);
              Some (Some chosen, ms', k')
            })"

definition munmap :: "kmem \<Rightarrow> memory_set \<Rightarrow> usize \<Rightarrow> usize \<Rightarrow> (bool \<times> memory_set \<times> kmem) outcome" where
  "munmap k ms start len =
     (if start mod PAGE_SIZE \<noteq> 0 \<or> len = 0 \<or> len mod PAGE_SIZE \<noteq> 0 then Some (False, ms, k)
      else case checked_add start len of
        None \<Rightarrow> Some (False, ms, k)
      | Some fin \<Rightarrow>
          let start_vpn = va_floor (virt_addr_from start); end_vpn = va_floor (virt_addr_from fin) in
          case position (\<lambda>a. range_l (area_range a) = start_vpn \<and> range_r (area_range a) = end_vpn
               \<and> area_type a = Framed \<and> flags_contains (map_perm a) PERM_U) (areas ms) of
            None \<Rightarrow> Some (False, ms, k)
          | Some i \<Rightarrow> do {
              let ms' = ms\<lparr>areas := take i (areas ms) @ drop (Suc i) (areas ms)\<rparr>;
              (a, k') \<leftarrow> area_unmap k (ms_table ms) (areas ms ! i);
              k'' \<leftarrow> drop_area k' a;
              Some (True, ms', k'')
            })"

subsection \<open>What an operation leaves alone\<close>

text \<open>
  An operation on one address space takes free frames only, keeps every reference count that
  exists, and writes no frame in use except the tables of that space.
\<close>

definition grows :: "kmem \<Rightarrow> page_table \<Rightarrow> kmem \<Rightarrow> page_table \<Rightarrow> bool" where
  "grows k pt k' pt' \<longleftrightarrow> set (pt_frames pt) \<subseteq> set (pt_frames pt')
     \<and> (\<forall>f \<in> set (pt_frames pt') - set (pt_frames pt). ref_counts (frames k) (ppn_val f) = None)
     \<and> (\<forall>x. ref_counts (frames k) x \<noteq> None \<longrightarrow> ref_counts (frames k') x = ref_counts (frames k) x)
     \<and> (\<forall>f. ref_counts (frames k) (ppn_val f) \<noteq> None \<longrightarrow> f \<notin> set (pt_frames pt) \<longrightarrow> phys k' f = phys k f)"

lemma grows_refl [simp]: "grows k pt k pt"
  by (simp add: grows_def)

lemma growsD:
  assumes "grows k pt k' pt'" "ref_counts (frames k) (ppn_val f) \<noteq> None"
  shows "ref_counts (frames k') (ppn_val f) = ref_counts (frames k) (ppn_val f)"
    and "f \<notin> set (pt_frames pt) \<Longrightarrow> f \<notin> set (pt_frames pt')"
    and "f \<notin> set (pt_frames pt) \<Longrightarrow> phys k' f = phys k f"
proof -
  from assms(1) have "\<forall>f \<in> set (pt_frames pt') - set (pt_frames pt). ref_counts (frames k) (ppn_val f) = None"
    "\<forall>x. ref_counts (frames k) x \<noteq> None \<longrightarrow> ref_counts (frames k') x = ref_counts (frames k) x"
    "\<forall>f. ref_counts (frames k) (ppn_val f) \<noteq> None \<longrightarrow> f \<notin> set (pt_frames pt) \<longrightarrow> phys k' f = phys k f"
    unfolding grows_def by blast+
  with assms(2) show "ref_counts (frames k') (ppn_val f) = ref_counts (frames k) (ppn_val f)"
    and "f \<notin> set (pt_frames pt) \<Longrightarrow> f \<notin> set (pt_frames pt')"
    and "f \<notin> set (pt_frames pt) \<Longrightarrow> phys k' f = phys k f" by auto
qed

lemma grows_trans:
  assumes "grows k pt k1 pt1" "grows k1 pt1 k2 pt2"
  shows "grows k pt k2 pt2"
  unfolding grows_def
proof (intro conjI ballI allI impI)
  show "set (pt_frames pt) \<subseteq> set (pt_frames pt2)" using assms unfolding grows_def by blast
next
  fix f assume "f \<in> set (pt_frames pt2) - set (pt_frames pt)"
  with assms show "ref_counts (frames k) (ppn_val f) = None" unfolding grows_def by (metis DiffD1 DiffD2 DiffI)
next
  fix x assume "ref_counts (frames k) x \<noteq> None"
  with assms show "ref_counts (frames k2) x = ref_counts (frames k) x" unfolding grows_def by metis
next
  fix f assume f: "ref_counts (frames k) (ppn_val f) \<noteq> None" "f \<notin> set (pt_frames pt)"
  note d = growsD [OF assms(1) f(1)]
  have "ref_counts (frames k1) (ppn_val f) \<noteq> None" using d(1) f(1) by simp
  from growsD(3) [OF assms(2) this d(2) [OF f(2)]] d(3) [OF f(2)] show "phys k2 f = phys k f" by simp
qed

lemma pt_grow_grows:
  assumes "pt_grow k pt k' pt'"
  shows "grows k pt k' pt'"
proof -
  from assms obtain new where n: "pt_frames pt' = pt_frames pt @ new"
    "\<forall>f \<in> set new. ref_counts (frames k) (ppn_val f) = None"
    "ref_counts (frames k') = (\<lambda>x. if x \<in> ppn_val ` set new then Some 1 else ref_counts (frames k) x)"
    "\<forall>f. f \<notin> set (pt_frames pt') \<longrightarrow> phys k' f = phys k f" unfolding pt_grow_def by blast
  then show ?thesis unfolding grows_def by auto
qed

lemma pt_grow_new_frames:
  "pt_grow k pt k' pt' \<Longrightarrow> f \<notin> set (pt_frames pt) \<Longrightarrow> ref_counts (frames k) (ppn_val f) \<noteq> None
     \<Longrightarrow> f \<notin> set (pt_frames pt') \<and> ref_counts (frames k') (ppn_val f) = ref_counts (frames k) (ppn_val f)
       \<and> phys k' f = phys k f"
  using growsD [OF pt_grow_grows] by blast

text \<open>Another address space with tables of its own does not notice.\<close>

lemma grows_other_table:
  assumes "pt_inv l k pt2" "fa_inv l (frames k')" "grows k pt k' pt'"
    and "set (pt_frames pt2) \<inter> set (pt_frames pt) = {}"
  shows "pt_inv l k' pt2" "pt_abs k' pt2 = pt_abs k pt2" "set (pt_frames pt2) \<inter> set (pt_frames pt') = {}"
proof -
  have own: "phys k' f = phys k f" "ref_counts (frames k') (ppn_val f) = Some 1" "f \<notin> set (pt_frames pt')"
    if "f \<in> set (pt_frames pt2)" for f
  proof -
    have f: "ref_counts (frames k) (ppn_val f) = Some 1" "f \<notin> set (pt_frames pt)"
      using that pt_inv_ref [OF assms(1)] assms(4) by auto
    then have nn: "ref_counts (frames k) (ppn_val f) \<noteq> None" by simp
    from growsD [OF assms(3) nn] f show "phys k' f = phys k f" "ref_counts (frames k') (ppn_val f) = Some 1"
      "f \<notin> set (pt_frames pt')" by simp_all
  qed
  then show "set (pt_frames pt2) \<inter> set (pt_frames pt') = {}" by blast
  show "pt_abs k' pt2 = pt_abs k pt2" using assms(1) own(1) by (rule pt_abs_frame)
  have "node k' (root_ppn pt2) is = node k (root_ppn pt2) is" if "table_path is" for "is"
    using pt_node_frame [OF assms(1) own(1) that] .
  then show "pt_inv l k' pt2" using assms(1,2) own(2) unfolding pt_inv_def by simp
qed

text \<open>Taking a frame.\<close>

lemma frame_alloc_grows:
  assumes "frame_alloc k = Some (Some f, k')" "ref_counts (frames k) (ppn_val f) = None"
    "ref_counts (frames k') = (ref_counts (frames k))(ppn_val f \<mapsto> 1)" "phys k' = (phys k)(f := (\<lambda>_. 0))"
  shows "grows k pt k' pt"
  using assms by (auto simp: grows_def)

lemma pt_inv_alloc:
  assumes "pt_inv l k pt" "fa_inv l (frames k')" "ref_counts (frames k) (ppn_val f) = None"
    "ref_counts (frames k') = (ref_counts (frames k))(ppn_val f \<mapsto> 1)" "phys k' = (phys k)(f := pg)"
  shows "pt_inv l k' pt" "pt_abs k' pt = pt_abs k pt" "f \<notin> set (pt_frames pt)"
proof -
  show nf: "f \<notin> set (pt_frames pt)" using assms(3) pt_inv_ref [OF assms(1), of f] by auto
  then have own: "phys k' g = phys k g" if "g \<in> set (pt_frames pt)" for g using that by (auto simp: assms(5))
  show "pt_abs k' pt = pt_abs k pt" using assms(1) own by (rule pt_abs_frame)
  have "node k' (root_ppn pt) is = node k (root_ppn pt) is" if "table_path is" for "is"
    using pt_node_frame [OF assms(1) own that] .
  moreover have "\<forall>g \<in> set (pt_frames pt). ref_counts (frames k') (ppn_val g) = Some 1"
    using pt_inv_ref [OF assms(1)] assms(4) by auto
  ultimately show "pt_inv l k' pt" using assms(1,2) unfolding pt_inv_def by simp
qed

text \<open>Dropping a tracker.\<close>

definition dec_ref :: "usize option \<Rightarrow> usize option" where
  "dec_ref r = (case r of None \<Rightarrow> None | Some n \<Rightarrow> if n = 1 then None else Some (n - 1))"

lemma frame_dealloc_pt:
  assumes inv: "pt_inv l k pt" and n: "ref_counts (frames k) (ppn_val f) = Some n" and nf: "f \<notin> set (pt_frames pt)"
  shows "\<exists>k'. frame_dealloc k f = Some k' \<and> pt_inv l k' pt \<and> pt_abs k' pt = pt_abs k pt
    \<and> ref_counts (frames k') = (ref_counts (frames k))(ppn_val f := dec_ref (Some n)) \<and> phys k' = phys k"
proof -
  have "fa_inv l (frames k)" using inv by (simp add: pt_inv_def)
  from fa_dealloc_ok [OF this n] obtain fa where fa: "fa_dealloc (frames k) f = Some fa" "fa_inv l fa"
    "ref_counts fa = (ref_counts (frames k))(ppn_val f := (if n = 1 then None else Some (n - 1)))" by blast
  let ?k = "k\<lparr>frames := fa\<rparr>"
  have ne: "ppn_val g \<noteq> ppn_val f" if "g \<in> set (pt_frames pt)" for g
    using that nf by (metis phys_page_num.expand)
  have "node ?k p is = node k p is" for p "is" by (rule node_phys_cong) simp
  with inv fa ne have "pt_inv l ?k pt" unfolding pt_inv_def by auto
  moreover have "pt_abs ?k pt = pt_abs k pt" using inv by (rule pt_abs_frame) simp
  ultimately show ?thesis using fa by (auto simp: frame_dealloc_def dec_ref_def)
qed

subsection \<open>Mapping the pages of a framed area\<close>

lemma map_one_framed_ok:
  assumes inv: "pt_inv l k pt" and ty: "area_type a = Framed" and free: "3 \<le> fa_free (frames k)"
    and v: "vpn_sv39 v" "pt_abs k pt v = None" "data_frames a v = None"
  shows "\<exists>f pt' k'. map_one k pt a v = Some (a\<lparr>data_frames := (data_frames a)(v \<mapsto> f)\<rparr>, pt', k')
    \<and> pt_inv l k' pt' \<and> pt_abs k' pt' = (pt_abs k pt)(v \<mapsto> pte_new f (map_perm a OR PTE_V))
    \<and> grows k pt k' pt' \<and> ref_counts (frames k) (ppn_val f) = None
    \<and> ref_counts (frames k') (ppn_val f) = Some 1 \<and> f \<notin> set (pt_frames pt') \<and> unat (ppn_val f) < 2 ^ 44
    \<and> phys k' f = (\<lambda>_. 0) \<and> fa_free (frames k) \<le> fa_free (frames k') + 3"
proof -
  have "fa_inv l (frames k)" "0 < fa_free (frames k)" using inv free by (auto simp: pt_inv_def)
  from frame_alloc_ok [OF this] obtain f k1 where f: "frame_alloc k = Some (Some f, k1)"
    "fa_inv l (frames k1)" "ref_counts (frames k) (ppn_val f) = None"
    "ref_counts (frames k1) = (ref_counts (frames k))(ppn_val f \<mapsto> 1)" "unat (ppn_val f) < 2 ^ 44"
    "phys k1 = (phys k)(f := (\<lambda>_. 0))" "fa_free (frames k1) = fa_free (frames k) - 1" by blast
  note i1 = pt_inv_alloc [OF inv f(2,3,4,6)]
  have free1: "2 \<le> fa_free (frames k1)" using f(7) free by simp
  have "pt_abs k1 pt v = None" using i1(2) v(2) by simp
  from pt_map_ok [OF i1(1) free1 v(1) this, of f "map_perm a"] obtain pt' k' where
    m: "pt_map k1 pt v f (map_perm a) = Some (pt', k')" "pt_inv l k' pt'" "pt_grow k1 pt k' pt'"
    "pt_abs k' pt' = (pt_abs k1 pt)(v \<mapsto> pte_new f (map_perm a OR PTE_V))" by blast
  have "ref_counts (frames k1) (ppn_val f) \<noteq> None" using f(4) by simp
  note nf = pt_grow_new_frames [OF m(3) i1(3) this]
  have "map_one k pt a v = Some (a\<lparr>data_frames := (data_frames a)(v \<mapsto> f)\<rparr>, pt', k')"
    using ty f(1) v(3) m(1) by (simp add: map_one_def insert_frame_def)
  moreover have "grows k pt k' pt'"
    using frame_alloc_grows [OF f(1,3,4,6)] pt_grow_grows [OF m(3)] by (rule grows_trans)
  ultimately show ?thesis using m f nf i1(2) pt_grow_free [OF m(3)] by auto
qed

lemma map_pages_framed_ok:
  assumes "pt_inv l k pt" and "area_type a = Framed" and "3 * length vs \<le> fa_free (frames k)" and "distinct vs"
    and "\<And>v. v \<in> set vs \<Longrightarrow> vpn_sv39 v \<and> pt_abs k pt v = None \<and> data_frames a v = None"
  shows "\<exists>g pt' k'. map_pages k pt a vs
      = Some (a\<lparr>data_frames := (\<lambda>v. if v \<in> set vs then Some (g v) else data_frames a v)\<rparr>, pt', k')
    \<and> pt_inv l k' pt' \<and> grows k pt k' pt'
    \<and> pt_abs k' pt' = (\<lambda>v. if v \<in> set vs then Some (pte_new (g v) (map_perm a OR PTE_V)) else pt_abs k pt v)
    \<and> inj_on g (set vs) \<and> fa_free (frames k) \<le> fa_free (frames k') + 3 * length vs
    \<and> (\<forall>v \<in> set vs. ref_counts (frames k) (ppn_val (g v)) = None \<and> ref_counts (frames k') (ppn_val (g v)) = Some 1
         \<and> g v \<notin> set (pt_frames pt') \<and> unat (ppn_val (g v)) < 2 ^ 44 \<and> phys k' (g v) = (\<lambda>_. 0))"
  using assms
proof (induction vs arbitrary: k pt a)
  case Nil
  then show ?case by simp
next
  case (Cons v vs)
  from Cons.prems(3) have "3 \<le> fa_free (frames k)" by simp
  note one = map_one_framed_ok [OF Cons.prems(1,2) this]
  from Cons.prems(5) [of v] have "vpn_sv39 v" "pt_abs k pt v = None" "data_frames a v = None" by simp_all
  from one [OF this] obtain f pt1 k1 where
    o: "map_one k pt a v = Some (a\<lparr>data_frames := (data_frames a)(v \<mapsto> f)\<rparr>, pt1, k1)"
    "pt_inv l k1 pt1" "pt_abs k1 pt1 = (pt_abs k pt)(v \<mapsto> pte_new f (map_perm a OR PTE_V))"
    "grows k pt k1 pt1" "ref_counts (frames k) (ppn_val f) = None" "ref_counts (frames k1) (ppn_val f) = Some 1"
    "f \<notin> set (pt_frames pt1)" "unat (ppn_val f) < 2 ^ 44" "phys k1 f = (\<lambda>_. 0)"
    "fa_free (frames k) \<le> fa_free (frames k1) + 3" by blast
  let ?a = "a\<lparr>data_frames := (data_frames a)(v \<mapsto> f)\<rparr>"
  have p1: "area_type ?a = Framed" "3 * length vs \<le> fa_free (frames k1)" "distinct vs"
    using Cons.prems o(10) by simp_all
  have p2: "vpn_sv39 w \<and> pt_abs k1 pt1 w = None \<and> data_frames ?a w = None" if "w \<in> set vs" for w
    using that Cons.prems(4) Cons.prems(5) [of w] o(3) by auto
  from Cons.IH [OF o(2) p1 p2] obtain g pt' k' where
    ih: "map_pages k1 pt1 ?a vs
      = Some (?a\<lparr>data_frames := (\<lambda>w. if w \<in> set vs then Some (g w) else data_frames ?a w)\<rparr>, pt', k')"
    "pt_inv l k' pt'" "grows k1 pt1 k' pt'"
    "pt_abs k' pt' = (\<lambda>w. if w \<in> set vs then Some (pte_new (g w) (map_perm ?a OR PTE_V)) else pt_abs k1 pt1 w)"
    "inj_on g (set vs)" and fr: "fa_free (frames k1) \<le> fa_free (frames k') + 3 * length vs" and
    ih6: "\<forall>w \<in> set vs. ref_counts (frames k1) (ppn_val (g w)) = None \<and> ref_counts (frames k') (ppn_val (g w)) = Some 1
         \<and> g w \<notin> set (pt_frames pt') \<and> unat (ppn_val (g w)) < 2 ^ 44 \<and> phys k' (g w) = (\<lambda>_. 0)" by blast
  have keepf: "ref_counts (frames k') (ppn_val f) = Some 1" "phys k' f = (\<lambda>_. 0)" "f \<notin> set (pt_frames pt')"
    using growsD [OF ih(3), of f] o(6,7,9) by simp_all
  have gf: "g w \<noteq> f" if "w \<in> set vs" for w using ih6 that o(6) by auto
  have gk: "ref_counts (frames k) (ppn_val (g w)) = None" if "w \<in> set vs" for w
    using ih6 that o(4) unfolding grows_def by metis
  define h where "h = g(v := f)"
  have vn: "v \<notin> set vs" using Cons.prems(4) by simp
  have "map_pages k pt a (v # vs)
      = Some (a\<lparr>data_frames := (\<lambda>w. if w \<in> set (v # vs) then Some (h w) else data_frames a w)\<rparr>, pt', k')"
    using o(1) ih(1) vn by (auto simp: h_def fun_eq_iff intro!: arg_cong [of _ _ "\<lambda>x. a\<lparr>data_frames := x\<rparr>"])
  moreover have "pt_abs k' pt' = (\<lambda>w. if w \<in> set (v # vs) then Some (pte_new (h w) (map_perm a OR PTE_V)) else pt_abs k pt w)"
    using ih(4) o(3) vn by (auto simp: h_def fun_eq_iff)
  moreover have "inj_on h (set (v # vs))" using ih(5) gf vn by (auto simp: h_def inj_on_def)
  moreover have "\<forall>w \<in> set (v # vs). ref_counts (frames k) (ppn_val (h w)) = None \<and> ref_counts (frames k') (ppn_val (h w)) = Some 1
         \<and> h w \<notin> set (pt_frames pt') \<and> unat (ppn_val (h w)) < 2 ^ 44 \<and> phys k' (h w) = (\<lambda>_. 0)"
    using ih6 gk keepf o(5,8) vn by (auto simp: h_def)
  moreover have "grows k pt k' pt'" using o(4) ih(3) by (rule grows_trans)
  moreover have "fa_free (frames k) \<le> fa_free (frames k') + 3 * length (v # vs)" using o(10) fr by simp
  ultimately show ?case using ih(2) by blast
qed

subsection \<open>The invariant of an address space\<close>

text \<open>
  The areas are disjoint ranges of Sv39 pages, their pages are mapped and nothing else is but the
  trampoline; a framed area holds a tracker for each of its pages, for the frame the page is mapped
  to, and no frame twice.
\<close>

definition TRAMPOLINE_VPN :: virt_page_num where
  "TRAMPOLINE_VPN = va_floor (virt_addr_from TRAMPOLINE)"

definition area_pages :: "map_area \<Rightarrow> virt_page_num set" where
  "area_pages a = {range_l (area_range a)..<range_r (area_range a)}"

definition area_wf :: "map_area \<Rightarrow> bool" where
  "area_wf a \<longleftrightarrow> range_l (area_range a) \<le> range_r (area_range a)
     \<and> unat (vpn_val (range_r (area_range a))) \<le> 2 ^ 27
     \<and> dom (data_frames a) = (if area_type a = Framed then area_pages a else {})"

definition trackers :: "map_area list \<Rightarrow> (virt_page_num \<times> phys_page_num) set" where
  "trackers as = {(v, f). \<exists>a \<in> set as. data_frames a v = Some f}"

fun areas_disjoint :: "map_area list \<Rightarrow> bool" where
  "areas_disjoint [] \<longleftrightarrow> True"
| "areas_disjoint (a # as) \<longleftrightarrow> (\<forall>b \<in> set as. area_pages a \<inter> area_pages b = {}) \<and> areas_disjoint as"

definition tracker_ok :: "kmem \<Rightarrow> page_table \<Rightarrow> virt_page_num \<Rightarrow> phys_page_num \<Rightarrow> bool" where
  "tracker_ok k pt v f \<longleftrightarrow> ref_counts (frames k) (ppn_val f) \<noteq> None \<and> f \<notin> set (pt_frames pt)
     \<and> (\<exists>e. pt_abs k pt v = Some e \<and> pte_ppn e = f)"

definition ms_inv :: "usize \<Rightarrow> kmem \<Rightarrow> memory_set \<Rightarrow> bool" where
  "ms_inv l k ms \<longleftrightarrow> pt_inv l k (ms_table ms)
     \<and> (\<forall>a \<in> set (areas ms). area_wf a) \<and> areas_disjoint (areas ms)
     \<and> (\<forall>a \<in> set (areas ms). \<forall>v \<in> area_pages a. pt_abs k (ms_table ms) v \<noteq> None)
     \<and> (\<forall>v. pt_abs k (ms_table ms) v \<noteq> None \<longrightarrow> v = TRAMPOLINE_VPN \<or> (\<exists>a \<in> set (areas ms). v \<in> area_pages a))
     \<and> (\<forall>(v, f) \<in> trackers (areas ms). tracker_ok k (ms_table ms) v f)
     \<and> (\<forall>v w f. (v, f) \<in> trackers (areas ms) \<longrightarrow> (w, f) \<in> trackers (areas ms) \<longrightarrow> v = w)"

lemma ms_inv_pt: "ms_inv l k ms \<Longrightarrow> pt_inv l k (ms_table ms)"
  by (simp add: ms_inv_def)

lemma ms_inv_tracker: "ms_inv l k ms \<Longrightarrow> (v, f) \<in> trackers (areas ms) \<Longrightarrow> tracker_ok k (ms_table ms) v f"
  unfolding ms_inv_def by blast

lemma areas_disjoint_append:
  "areas_disjoint (as @ [a]) \<longleftrightarrow> areas_disjoint as \<and> (\<forall>b \<in> set as. area_pages b \<inter> area_pages a = {})"
  by (induction as) auto

lemma trackers_append: "trackers (as @ bs) = trackers as \<union> trackers bs"
  by (auto simp: trackers_def)

lemma area_page_sv39: "area_wf a \<Longrightarrow> v \<in> area_pages a \<Longrightarrow> vpn_sv39 v"
  by (auto simp: area_wf_def area_pages_def vpn_sv39_def less_virt_page_num_def word_less_nat_alt)

lemma grows_tracker_ok:
  assumes "tracker_ok k pt v f" "grows k pt k' pt'" "pt_abs k' pt' v = pt_abs k pt v"
  shows "tracker_ok k' pt' v f"
  using assms(1,3) growsD [OF assms(2), of f] by (auto simp: tracker_ok_def)

lemma length_vpn_iter: "c \<le> e \<Longrightarrow> length (vpn_iter c e) = unat (vpn_val e) - unat (vpn_val c)"
proof (induction c e rule: vpn_iter.induct)
  case (1 c e)
  show ?case
  proof (cases "c = e")
    case False
    with "1.prems" have lt: "c < e" by simp
    then have "vpn_step c \<le> e" by (simp add: vpn_step_le)
    with "1.IH" [OF False] False vpn_step_val [OF lt] lt show ?thesis
      by (simp add: vpn_iter.simps [of c e] less_virt_page_num_def word_less_nat_alt)
  qed simp
qed

lemma push_framed_ok:
  assumes inv: "ms_inv l k ms" and ty: "area_type a = Framed" and df: "data_frames a = Map.empty"
    and rng: "range_l (area_range a) \<le> range_r (area_range a)" "unat (vpn_val (range_r (area_range a))) \<le> 2 ^ 27"
    and new: "\<And>v. v \<in> area_pages a \<Longrightarrow> pt_abs k (ms_table ms) v = None"
    and free: "3 * length (range_list (area_range a)) \<le> fa_free (frames k)"
  shows "\<exists>g ms' k'. push k ms a None = Some (ms', k') \<and> ms_inv l k' ms'
    \<and> areas ms' = areas ms @ [a\<lparr>data_frames := (\<lambda>v. if v \<in> area_pages a then Some (g v) else None)\<rparr>]
    \<and> grows k (ms_table ms) k' (ms_table ms')
    \<and> fa_free (frames k) \<le> fa_free (frames k') + 3 * length (range_list (area_range a))
    \<and> pt_abs k' (ms_table ms') = (\<lambda>v. if v \<in> area_pages a then Some (pte_new (g v) (map_perm a OR PTE_V))
        else pt_abs k (ms_table ms) v)
    \<and> (\<forall>v \<in> area_pages a. unat (ppn_val (g v)) < 2 ^ 44 \<and> ref_counts (frames k) (ppn_val (g v)) = None
        \<and> ref_counts (frames k') (ppn_val (g v)) = Some 1 \<and> phys k' (g v) = (\<lambda>_. 0))"
proof -
  have set: "set (range_list (area_range a)) = area_pages a" "distinct (range_list (area_range a))"
    using rng(1) by (simp_all add: set_range_list area_pages_def distinct_range_list)
  have sv: "vpn_sv39 v" if "v \<in> area_pages a" for v
    using that rng by (auto simp: area_pages_def vpn_sv39_def less_virt_page_num_def word_less_nat_alt)
  have pre: "vpn_sv39 v \<and> pt_abs k (ms_table ms) v = None \<and> data_frames a v = None"
    if "v \<in> set (range_list (area_range a))" for v using that new sv set(1) df by simp
  from map_pages_framed_ok [OF ms_inv_pt [OF inv] ty free set(2) pre, unfolded set(1) df] obtain g pt' k' where
    m: "area_map k (ms_table ms) a = Some (a\<lparr>data_frames := (\<lambda>v. if v \<in> area_pages a then Some (g v) else None)\<rparr>, pt', k')"
    "pt_inv l k' pt'" "grows k (ms_table ms) k' pt'"
    "pt_abs k' pt' = (\<lambda>v. if v \<in> area_pages a then Some (pte_new (g v) (map_perm a OR PTE_V)) else pt_abs k (ms_table ms) v)"
    "inj_on g (area_pages a)" and
    fr: "fa_free (frames k) \<le> fa_free (frames k') + 3 * length (range_list (area_range a))" and
    m6: "\<forall>v \<in> area_pages a. ref_counts (frames k) (ppn_val (g v)) = None \<and> ref_counts (frames k') (ppn_val (g v)) = Some 1
         \<and> g v \<notin> set (pt_frames pt') \<and> unat (ppn_val (g v)) < 2 ^ 44 \<and> phys k' (g v) = (\<lambda>_. 0)"
    unfolding area_map_def by blast
  let ?a = "a\<lparr>data_frames := (\<lambda>v. if v \<in> area_pages a then Some (g v) else None)\<rparr>"
  let ?ms = "\<lparr>ms_table = pt', areas = areas ms @ [?a]\<rparr>"
  have pg: "area_pages ?a = area_pages a" by (simp add: area_pages_def)
  have dis: "area_pages b \<inter> area_pages a = {}" if "b \<in> set (areas ms)" for b
    using that new inv unfolding ms_inv_def by blast
  have tr: "trackers (areas ?ms) = trackers (areas ms) \<union> {(v, g v) | v. v \<in> area_pages a}"
    by (auto simp: trackers_append) (auto simp: trackers_def split: if_splits)
  have old: "v \<notin> area_pages a \<and> tracker_ok k (ms_table ms) v f" if "(v, f) \<in> trackers (areas ms)" for v f
    using that inv new unfolding ms_inv_def tracker_ok_def by fastforce
  have "ms_inv l k' ?ms"
    unfolding ms_inv_def
  proof (intro conjI)
    show "pt_inv l k' (ms_table ?ms)" using m(2) by simp
    show "\<forall>b \<in> set (areas ?ms). area_wf b"
      using inv rng ty by (auto simp: ms_inv_def area_wf_def area_pages_def split: if_splits)
    show "areas_disjoint (areas ?ms)" using inv dis by (auto simp: areas_disjoint_append pg ms_inv_def)
    show "\<forall>b \<in> set (areas ?ms). \<forall>v \<in> area_pages b. pt_abs k' (ms_table ?ms) v \<noteq> None"
      using inv by (auto simp: m(4) pg ms_inv_def)
    show "\<forall>v. pt_abs k' (ms_table ?ms) v \<noteq> None \<longrightarrow> v = TRAMPOLINE_VPN \<or> (\<exists>b \<in> set (areas ?ms). v \<in> area_pages b)"
      using inv by (auto simp: m(4) pg ms_inv_def split: if_splits)
    show "\<forall>(v, f) \<in> trackers (areas ?ms). tracker_ok k' (ms_table ?ms) v f"
    proof (clarify)
      fix v f assume "(v, f) \<in> trackers (areas ?ms)"
      then consider "(v, f) \<in> trackers (areas ms)" | "v \<in> area_pages a" "f = g v" using tr by blast
      then show "tracker_ok k' (ms_table ?ms) v f"
      proof cases
        case 1
        with old [OF 1] m(4) have "pt_abs k' pt' v = pt_abs k (ms_table ms) v" by simp
        with old [OF 1] m(3) show ?thesis by (auto intro: grows_tracker_ok)
      next
        case 2
        with m6 m(4) pte_new_ppn [of "g v"] show ?thesis by (auto simp: tracker_ok_def)
      qed
    qed
    show "\<forall>v w f. (v, f) \<in> trackers (areas ?ms) \<longrightarrow> (w, f) \<in> trackers (areas ?ms) \<longrightarrow> v = w"
    proof (clarify)
      fix v w f assume *: "(v, f) \<in> trackers (areas ?ms)" "(w, f) \<in> trackers (areas ?ms)"
      have sep: False if "(x, g y) \<in> trackers (areas ms)" "y \<in> area_pages a" for x y
        using old [OF that(1)] m6 that(2) by (auto simp: tracker_ok_def)
      have inj: "x = y" if "(x, f) \<in> trackers (areas ms)" "(y, f) \<in> trackers (areas ms)" for x y
        using that inv unfolding ms_inv_def by blast
      from * sep inj m(5) show "v = w" unfolding tr by (auto dest: inj_onD)
    qed
  qed
  with m m6 fr show ?thesis by (auto simp: push_def)
qed

lemma new_bare_ok:
  assumes "fa_inv l (frames k)" "0 < fa_free (frames k)"
  shows "\<exists>ms k'. new_bare k = Some (ms, k') \<and> ms_inv l k' ms \<and> areas ms = []
    \<and> pt_abs k' (ms_table ms) = Map.empty \<and> fa_free (frames k') = fa_free (frames k) - 1"
proof -
  from page_table_new_ok [OF assms] obtain pt k' where "page_table_new k = Some (pt, k')" "pt_inv l k' pt"
    "pt_abs k' pt = Map.empty" "fa_free (frames k') = fa_free (frames k) - 1" by blast
  then show ?thesis by (auto simp: new_bare_def ms_inv_def trackers_def)
qed

end
