(* ===== verification/Mmap.thy ===== *)
theory Mmap
  imports MemorySet
begin

unbundle bit_operations_syntax

section \<open>Anonymous mappings\<close>

text \<open>
  The proofs about \<^verbatim>\<open>mmap\<close> and \<^verbatim>\<open>munmap\<close>: the rounding of the length, the
  conflict check against the areas, the search for the lowest free place, the effect of a granted
  mapping and of its removal on the page table, the trackers and the reference counts.
\<close>

subsection \<open>Choosing the place of an anonymous mapping\<close>

lemma page_round_down: "unat ((x :: usize) AND NOT (PAGE_SIZE - 1)) = unat x div 4096 * 4096"
proof -
  have "x AND NOT (PAGE_SIZE - 1) = push_bit 12 (drop_bit 12 x)"
  proof -
    have "PAGE_SIZE - 1 = mask 12" by (simp add: mask_eq_exp_minus_1 PAGE_SIZE_def)
    then show ?thesis by (intro bit_word_eqI) (auto simp: bit_simps)
  qed
  also have "\<dots> = of_nat (unat x div 4096 * 4096)"
    by (simp add: push_bit_eq_mult unat_drop_bit [of 12 x, symmetric, simplified])
  finally have "x AND NOT (PAGE_SIZE - 1) = of_nat (unat x div 4096 * 4096)" .
  moreover have "unat x div 4096 * 4096 < 2 ^ LENGTH(64)"
    using unsigned_less [of x, where ?'a = nat] div_times_less_eq_dividend [of "unat x" 4096] by linarith
  ultimately show ?thesis by (simp only: unat_of_nat) simp
qed

lemma unat_PAGE_SIZE: "unat PAGE_SIZE = 4096" "unat (PAGE_SIZE - 1) = 4095"
  by (simp_all add: PAGE_SIZE_def)

text \<open>The length is rounded up to whole pages, or rejected.\<close>

lemma mmap_len_spec:
  assumes "mmap_len len = Some len'"
  shows "unat len' = (unat len + 4095) div 4096 * 4096" "4096 dvd unat len'" "unat len \<le> unat len'"
proof -
  from assms obtain x where x: "checked_add len (PAGE_SIZE - 1) = Some x" "len' = x AND NOT (PAGE_SIZE - 1)"
    by (auto simp: mmap_len_def)
  have "unat x = unat len + 4095" using checked_add_SomeD(1) [OF x(1)] unat_PAGE_SIZE by simp
  with x(2) page_round_down show *: "unat len' = (unat len + 4095) div 4096 * 4096" by metis
  then show "4096 dvd unat len'" by simp
  have "unat len + 4095 < (unat len + 4095) div 4096 * 4096 + 4096"
    using page_top [of "unat len + 4095"] by simp
  with * show "unat len \<le> unat len'" by linarith
qed

lemma page_mod_word: "(x :: usize) mod PAGE_SIZE = 0 \<longleftrightarrow> 4096 dvd unat x"
proof -
  have "x mod PAGE_SIZE = 0 \<longleftrightarrow> unat (x mod PAGE_SIZE) = 0" by (simp add: unat_eq_0)
  also have "\<dots> \<longleftrightarrow> unat x mod 4096 = 0" by (simp only: unat_mod unat_PAGE_SIZE)
  finally show ?thesis by (simp add: dvd_eq_mod_eq_0)
qed

lemma vpn_address:
  assumes "unat (vpn_val v) \<le> 2 ^ 27"
  shows "unat (vpn_val v) < 2 ^ 26 \<Longrightarrow> unat (usize_from_virt_addr (va_of_vpn v)) = unat (vpn_val v) * 4096"
    and "2 ^ 26 \<le> unat (vpn_val v) \<Longrightarrow> 2 ^ 38 \<le> unat (usize_from_virt_addr (va_of_vpn v))"
proof -
  let ?x = "push_bit 12 (vpn_val v) :: usize"
  have x: "unat ?x = unat (vpn_val v) * 4096"
  proof -
    have "?x = of_nat (unat (vpn_val v) * 4096)" by (simp add: push_bit_eq_mult)
    moreover have "unat (vpn_val v) * 4096 < 2 ^ LENGTH(64)" using assms by simp
    ultimately show ?thesis by (simp only: unat_of_nat) simp
  qed
  have va: "va_of_vpn v = VirtAddr ?x" by (simp add: va_of_vpn_def width_defs)
  show "unat (usize_from_virt_addr (va_of_vpn v)) = unat (vpn_val v) * 4096" if "unat (vpn_val v) < 2 ^ 26"
    using low_address(2) [of ?x] x va that by simp
  show "2 ^ 38 \<le> unat (usize_from_virt_addr (va_of_vpn v))" if "2 ^ 26 \<le> unat (vpn_val v)"
  proof -
    have "2 ^ 38 \<le> unat ?x" using x that by simp
    moreover have "?x \<le> usize_from_virt_addr (VirtAddr ?x)"
      unfolding usize_from_virt_addr_def using le_word_or2 [of ?x] by auto
    then have "unat ?x \<le> unat (usize_from_virt_addr (VirtAddr ?x))" by (simp add: word_le_nat_alt)
    ultimately show ?thesis using va by simp
  qed
qed

text \<open>A range the conflict check accepts shares no page with an area.\<close>

lemma no_conflict_disjoint:
  assumes "\<not> area_conflicts ms s fin" and "a \<in> set (areas ms)" and "area_wf a"
    and "unat fin \<le> 2 ^ 38" and "unat s \<le> unat (vpn_val v) * 4096" and "unat (vpn_val v) * 4096 < unat fin"
  shows "v \<notin> area_pages a"
proof
  assume "v \<in> area_pages a"
  then have v: "unat (vpn_val (range_l (area_range a))) \<le> unat (vpn_val v)"
    "unat (vpn_val v) < unat (vpn_val (range_r (area_range a)))"
    by (auto simp: area_pages_def less_eq_virt_page_num_def less_virt_page_num_def word_le_nat_alt word_less_nat_alt)
  have r: "unat (vpn_val (range_r (area_range a))) \<le> 2 ^ 27" using assms(3) by (simp add: area_wf_def)
  have v26: "unat (vpn_val v) < 2 ^ 26" using assms(4,6) by simp
  have "unat (usize_from_virt_addr (va_of_vpn (range_l (area_range a)))) < unat fin"
    using vpn_address(1) [of "range_l (area_range a)"] v r v26 assms(6) by simp
  moreover have "unat s < unat (usize_from_virt_addr (va_of_vpn (range_r (area_range a))))"
  proof (cases "unat (vpn_val (range_r (area_range a))) < 2 ^ 26")
    case True
    with vpn_address(1) [OF r] v assms(5) show ?thesis by simp
  next
    case False
    with vpn_address(2) [OF r] v26 assms(5) show ?thesis by simp
  qed
  ultimately have "area_conflicts ms s fin"
    using assms(2) by (auto simp: area_conflicts_def list_ex_iff word_less_nat_alt Let_def)
  with assms(1) show False by simp
qed

lemma checked_add_ok: "unat (a :: usize) + unat b < 2 ^ 64 \<Longrightarrow> checked_add a b = Some (a + b)"
  by (simp add: checked_add_def)

definition mmap_fits :: "memory_set \<Rightarrow> usize \<Rightarrow> usize \<Rightarrow> bool" where
  "mmap_fits ms len c \<longleftrightarrow> 4096 dvd unat c \<and> unat c + unat len \<le> unat MMAP_END \<and> \<not> area_conflicts ms c (c + len)"

lemma unat_MMAP: "unat MMAP_BASE = 0x20000000" "unat MMAP_END = 0x30000000"
  by (simp_all add: MMAP_BASE_def MMAP_END_def)

lemma mmap_search_spec:
  assumes "4096 dvd unat c"
  shows "case mmap_search ms len c of
      Some d \<Rightarrow> mmap_fits ms len d \<and> c \<le> d \<and> (\<forall>e. c \<le> e \<longrightarrow> e < d \<longrightarrow> \<not> mmap_fits ms len e)
    | None \<Rightarrow> \<forall>e. c \<le> e \<longrightarrow> \<not> mmap_fits ms len e"
  using assms
proof (induction ms len c rule: mmap_search.induct)
  case (1 ms len c)
  have over: "\<not> mmap_fits ms len e" if "unat MMAP_END < unat c + unat len" "c \<le> e" for e
    using that by (auto simp: mmap_fits_def word_le_nat_alt)
  show ?case
  proof (cases "unat c + unat len \<le> unat MMAP_END")
    case False
    then have "mmap_search ms len c = None"
      by (subst mmap_search.simps)
        (auto simp: word_less_nat_alt dest: checked_add_SomeD(1) split: option.split)
    with False over show ?thesis by simp
  next
    case True
    have ca: "checked_add c len = Some (c + len)" using True unat_MMAP by (intro checked_add_ok) simp
    have ns: "\<not> c + len > MMAP_END" using checked_add_SomeD(1) [OF ca] True by (simp add: word_less_nat_alt)
    show ?thesis
    proof (cases "area_conflicts ms c (c + len)")
      case False
      then have "mmap_search ms len c = Some c" using ca ns by (subst mmap_search.simps) simp
      with False True "1.prems" show ?thesis by (auto simp: mmap_fits_def)
    next
      case conf: True
      define c' where "c' = c + PAGE_SIZE"
      have cp: "checked_add c PAGE_SIZE = Some c'"
        unfolding c'_def using True unat_MMAP unat_PAGE_SIZE by (intro checked_add_ok) simp
      have c': "unat c' = unat c + 4096" using checked_add_SomeD(1) [OF cp] unat_PAGE_SIZE by simp
      have eq: "mmap_search ms len c = mmap_search ms len c'"
        using ca ns conf cp by (subst mmap_search.simps) simp
      have "\<not> c + len > MMAP_END" "\<not> \<not> area_conflicts ms c (c + len)" "4096 dvd unat c'"
        using ns conf c' "1.prems" by auto
      note ih = "1.IH" [OF ca this(1,2) cp this(3)]
      have c0: "\<not> mmap_fits ms len c" using conf by (simp add: mmap_fits_def)
      have gap: "e = c" if "c \<le> e" "e < c'" "mmap_fits ms len e" for e
      proof -
        have "4096 dvd unat e - unat c" using that(3) "1.prems" by (auto simp: mmap_fits_def intro: dvd_diff_nat)
        moreover have "unat e - unat c < 4096" using that c' by (simp add: word_less_nat_alt)
        ultimately have "unat e - unat c = 0" using nat_dvd_not_less by blast
        with that(1) show ?thesis by (simp add: word_le_nat_alt word_unat_eq_iff)
      qed
      have lt: "c \<le> c'" using c' by (simp add: word_le_nat_alt)
      show ?thesis unfolding eq
      proof (cases "mmap_search ms len c'")
        case None
        with ih c0 gap show "case mmap_search ms len c' of
            Some d \<Rightarrow> mmap_fits ms len d \<and> c \<le> d \<and> (\<forall>e. c \<le> e \<longrightarrow> e < d \<longrightarrow> \<not> mmap_fits ms len e)
          | None \<Rightarrow> \<forall>e. c \<le> e \<longrightarrow> \<not> mmap_fits ms len e" by (auto simp: not_le) (metis not_le)
      next
        case (Some d)
        with ih c0 gap lt show "case mmap_search ms len c' of
            Some d \<Rightarrow> mmap_fits ms len d \<and> c \<le> d \<and> (\<forall>e. c \<le> e \<longrightarrow> e < d \<longrightarrow> \<not> mmap_fits ms len e)
          | None \<Rightarrow> \<forall>e. c \<le> e \<longrightarrow> \<not> mmap_fits ms len e" by auto (metis not_le)
      qed
    qed
  qed
qed

lemma mmap_choose_fits:
  assumes "mmap_choose ms start len = Some c"
  shows "mmap_fits ms len c" "MMAP_BASE \<le> c" "start \<noteq> 0 \<Longrightarrow> c = start"
proof -
  have "mmap_fits ms len c \<and> MMAP_BASE \<le> c \<and> (start \<noteq> 0 \<longrightarrow> c = start)"
  proof (cases "start = 0")
    case True
    have "4096 dvd unat MMAP_BASE" by (simp add: unat_MMAP)
    from mmap_search_spec [OF this, of ms len] assms True show ?thesis by (simp add: mmap_choose_def)
  next
    case False
    then obtain fin where "checked_add start len = Some fin" "c = start" "start mod PAGE_SIZE = 0"
      "\<not> start < MMAP_BASE" "\<not> fin > MMAP_END" "\<not> area_conflicts ms start fin"
      using assms by (auto simp: mmap_choose_def split: if_splits option.splits)
    moreover from this(1) have "fin = start + len" "unat fin = unat start + unat len"
      by (auto simp: checked_add_def unat_add_no_wrap split: if_splits)
    ultimately show ?thesis by (auto simp: mmap_fits_def page_mod_word word_less_nat_alt word_le_nat_alt)
  qed
  then show "mmap_fits ms len c" "MMAP_BASE \<le> c" "start \<noteq> 0 \<Longrightarrow> c = start" by auto
qed

lemma va_ceil_aligned:
  assumes "4096 dvd unat x" "unat x < 2 ^ 38"
  shows "va_ceil (VirtAddr x) = VirtPageNum (of_nat (unat x div 4096))"
proof (cases "x = 0")
  case True
  then show ?thesis by (simp add: va_ceil_def)
next
  case False
  have "x - 1 + PAGE_SIZE = x + 4095" by (simp add: PAGE_SIZE_def)
  moreover have "unat (x + 4095) = unat x + 4095"
    using assms(2) unat_add_no_wrap [of x "4095"] by simp
  ultimately have "unat ((x - 1 + PAGE_SIZE) div PAGE_SIZE) = (unat x + 4095) div 4096"
    by (simp only: unat_div_distrib unat_PAGE_SIZE)
  also have "\<dots> = unat x div 4096" using assms(1) by (auto elim!: dvdE)
  finally have "(x - 1 + PAGE_SIZE) div PAGE_SIZE = of_nat (unat x div 4096)"
    by (metis word_of_nat_unat_eq)
  with False show ?thesis by (simp add: va_ceil_def)
qed

definition mmap_pages :: "usize \<Rightarrow> usize \<Rightarrow> virt_page_num set" where
  "mmap_pages c len = {v. unat c \<le> unat (vpn_val v) * 4096 \<and> unat (vpn_val v) * 4096 < unat c + unat len}"

lemma mmap_area:
  assumes fits: "mmap_fits ms len' c" and len: "mmap_len len = Some len'" "len \<noteq> 0"
  shows "\<exists>a. map_area_new (virt_addr_from c) (virt_addr_from (c + len')) Framed perm = Some a
    \<and> area_type a = Framed \<and> data_frames a = Map.empty \<and> map_perm a = perm
    \<and> range_l (area_range a) \<le> range_r (area_range a) \<and> unat (vpn_val (range_r (area_range a))) \<le> 2 ^ 27
    \<and> area_pages a = mmap_pages c len \<and> length (range_list (area_range a)) = (unat len + 4095) div 4096"
proof -
  note ls = mmap_len_spec [OF len(1)]
  have e: "unat (c + len') = unat c + unat len'" "unat c + unat len' \<le> 0x30000000"
    using fits unat_MMAP by (auto simp: mmap_fits_def intro!: unat_add_no_wrap)
  have al: "4096 dvd unat c" "4096 dvd unat (c + len')" using fits e ls(2) by (auto simp: mmap_fits_def)
  have lt: "unat c < 2 ^ 38" "unat (c + len') < 2 ^ 38" using e by simp_all
  let ?l = "VirtPageNum (of_nat (unat c div 4096))" and ?r = "VirtPageNum (of_nat (unat (c + len') div 4096))"
  have small: "unat (of_nat n :: usize) = n" if "n < 2 ^ 38" for n
  proof -
    have "n < 2 ^ LENGTH(64)" using that by simp
    then show ?thesis by (simp only: unat_of_nat) simp
  qed
  have lr: "unat (vpn_val ?l) = unat c div 4096" "unat (vpn_val ?r) = (unat c + unat len') div 4096"
    using small [of "unat c div 4096"] small [of "unat (c + len') div 4096"] lt e by auto
  have le: "?l \<le> ?r" unfolding less_eq_virt_page_num_def word_le_nat_alt lr by (simp add: div_le_mono)
  let ?a = "\<lparr>area_range = \<lparr>range_l = ?l, range_r = ?r\<rparr>, data_frames = Map.empty, area_type = Framed, map_perm = perm\<rparr>"
  have new: "map_area_new (virt_addr_from c) (virt_addr_from (c + len')) Framed perm = Some ?a"
    using low_address(1,3) [OF lt(1)] low_address(1) [OF lt(2)] va_ceil_aligned [OF al(2) lt(2)] le
    by (simp add: map_area_new_def range_new_def)
  obtain p where p: "unat c = 4096 * p" using al(1) by (auto elim: dvdE)
  let ?n = "(unat len + 4095) div 4096"
  have le': "unat len' = 4096 * ?n" using ls(1) by simp
  have bnd: "4096 * ?n < unat len + 4096" "unat len \<le> 4096 * ?n"
    using le' ls(3) div_times_less_eq_dividend [of "unat len + 4095" 4096] by linarith+
  have lr2: "unat (vpn_val ?l) = p" "unat (vpn_val ?r) = p + ?n" using lr p le' by simp_all
  have pages: "area_pages ?a = mmap_pages c len"
  proof (rule set_eqI)
    fix v
    have "v \<in> area_pages ?a \<longleftrightarrow> p \<le> unat (vpn_val v) \<and> unat (vpn_val v) < p + ?n"
      using lr2 by (simp add: area_pages_def less_eq_virt_page_num_def less_virt_page_num_def
          word_le_nat_alt word_less_nat_alt del: unat_of_nat)
    also have "\<dots> \<longleftrightarrow> v \<in> mmap_pages c len"
      using bnd p by (simp add: mmap_pages_def) arith
    finally show "v \<in> area_pages ?a \<longleftrightarrow> v \<in> mmap_pages c len" .
  qed
  have "length (range_list (area_range ?a)) = ?n"
    using length_vpn_iter [OF le] unfolding lr2 by (simp add: range_list_def)
  moreover have "unat (vpn_val ?r) \<le> 2 ^ 27"
  proof -
    have "unat (vpn_val ?r) \<le> 0x30000000 div 4096" unfolding lr(2) using e(2) by (rule div_le_mono)
    then show ?thesis by simp
  qed
  ultimately show ?thesis using new pages le by (intro exI [of _ ?a]) simp
qed

lemma trampoline_vpn_val: "unat (vpn_val TRAMPOLINE_VPN) = 2 ^ 27 - 1"
  by (simp add: TRAMPOLINE_VPN_def TRAMPOLINE_def PAGE_SIZE_def va_floor_def virt_addr_from_def width_defs)

lemma mmap_pages_free:
  assumes inv: "ms_inv l k ms" and fits: "mmap_fits ms len' c" and len: "mmap_len len = Some len'"
    and v: "v \<in> mmap_pages c len"
  shows "pt_abs k (ms_table ms) v = None"
proof (rule ccontr)
  assume "pt_abs k (ms_table ms) v \<noteq> None"
  moreover have e: "unat (c + len') = unat c + unat len'" "unat c + unat len' \<le> 0x30000000"
    using fits unat_MMAP by (auto simp: mmap_fits_def intro!: unat_add_no_wrap)
  moreover have bounds: "unat c \<le> unat (vpn_val v) * 4096" "unat (vpn_val v) * 4096 < unat (c + len')"
    using v e mmap_len_spec(3) [OF len] by (auto simp: mmap_pages_def)
  moreover have "v \<noteq> TRAMPOLINE_VPN" using bounds(2) e trampoline_vpn_val by auto
  ultimately obtain a where a: "a \<in> set (areas ms)" "v \<in> area_pages a" using inv unfolding ms_inv_def by blast
  have wf: "area_wf a" using inv a(1) unfolding ms_inv_def by blast
  have nc: "\<not> area_conflicts ms c (c + len')" using fits by (simp add: mmap_fits_def)
  have "unat (c + len') \<le> 2 ^ 38" using e by simp
  from no_conflict_disjoint [OF nc a(1) wf this bounds] a(2) show False by simp
qed

subsection \<open>Anonymous mappings keep the invariant\<close>

lemma mmap_ok:
  assumes inv: "ms_inv l k ms" and free: "3 * ((unat len + 4095) div 4096) \<le> fa_free (frames k)"
  shows "\<exists>r ms' k'. mmap k ms start len prot = Some (r, ms', k') \<and>
    (case r of
       None \<Rightarrow> ms' = ms \<and> k' = k
     | Some c \<Rightarrow> \<exists>len' a g. len \<noteq> 0 \<and> mmap_len len = Some len' \<and> mmap_choose ms start len' = Some c
         \<and> ms_inv l k' ms' \<and> areas ms' = areas ms @ [a] \<and> area_type a = Framed \<and> map_perm a = mmap_perm prot
         \<and> area_pages a = mmap_pages c len \<and> data_frames a = (\<lambda>v. if v \<in> mmap_pages c len then Some (g v) else None)
         \<and> map_area_new (virt_addr_from c) (virt_addr_from (c + len')) Framed (mmap_perm prot)
             = Some (a\<lparr>data_frames := Map.empty\<rparr>)
         \<and> grows k (ms_table ms) k' (ms_table ms')
         \<and> pt_abs k' (ms_table ms') = (\<lambda>v. if v \<in> mmap_pages c len
              then Some (pte_new (g v) (mmap_perm prot OR PTE_V)) else pt_abs k (ms_table ms) v)
         \<and> (\<forall>v \<in> mmap_pages c len. pt_abs k (ms_table ms) v = None \<and> unat (ppn_val (g v)) < 2 ^ 44
              \<and> ref_counts (frames k) (ppn_val (g v)) = None
              \<and> ref_counts (frames k') (ppn_val (g v)) = Some 1 \<and> phys k' (g v) = (\<lambda>_. 0)))"
proof (cases "\<exists>len' c. len \<noteq> 0 \<and> prot AND NOT 7 = 0 \<and> mmap_len len = Some len'
    \<and> mmap_perm prot AND (PERM_R OR PERM_X) \<noteq> 0 \<and> mmap_choose ms start len' = Some c")
  case False
  then have "mmap k ms start len prot = Some (None, ms, k)"
    by (auto simp: mmap_def split: option.split)
  then show ?thesis by auto
next
  case True
  then obtain len' c where c: "len \<noteq> 0" "prot AND NOT 7 = 0" "mmap_len len = Some len'"
    "mmap_perm prot AND (PERM_R OR PERM_X) \<noteq> 0" "mmap_choose ms start len' = Some c" by blast
  note fits = mmap_choose_fits [OF c(5)]
  from mmap_area [OF fits(1) c(3,1)] obtain a where
    a: "map_area_new (virt_addr_from c) (virt_addr_from (c + len')) Framed (mmap_perm prot) = Some a"
    "area_type a = Framed" "data_frames a = Map.empty" "map_perm a = mmap_perm prot"
    "range_l (area_range a) \<le> range_r (area_range a)" "unat (vpn_val (range_r (area_range a))) \<le> 2 ^ 27"
    "area_pages a = mmap_pages c len" "length (range_list (area_range a)) = (unat len + 4095) div 4096" by blast
  have none: "pt_abs k (ms_table ms) v = None" if "v \<in> area_pages a" for v
    using mmap_pages_free [OF inv fits(1) c(3)] that a(7) by simp
  have fr: "3 * length (range_list (area_range a)) \<le> fa_free (frames k)" using free a(8) by simp
  from push_framed_ok [OF inv a(2,3,5,6) none fr, unfolded a(4,7)] obtain g ms' k' where
    p: "push k ms a None = Some (ms', k')" "ms_inv l k' ms'"
    "areas ms' = areas ms @ [a\<lparr>data_frames := (\<lambda>v. if v \<in> mmap_pages c len then Some (g v) else None)\<rparr>]"
    "grows k (ms_table ms) k' (ms_table ms')"
    "pt_abs k' (ms_table ms') = (\<lambda>v. if v \<in> mmap_pages c len then Some (pte_new (g v) (mmap_perm prot OR PTE_V))
        else pt_abs k (ms_table ms) v)"
    "\<forall>v \<in> mmap_pages c len. unat (ppn_val (g v)) < 2 ^ 44 \<and> ref_counts (frames k) (ppn_val (g v)) = None
        \<and> ref_counts (frames k') (ppn_val (g v)) = Some 1 \<and> phys k' (g v) = (\<lambda>_. 0)" by blast
  have "mmap k ms start len prot = Some (Some c, ms', k')"
    using c a(1) p(1) by (simp add: mmap_def insert_framed_area_def)
  moreover have "a\<lparr>data_frames := Map.empty\<rparr> = a" using a(3) by simp
  ultimately show ?thesis using c p a none
    by (intro exI [of _ "Some c"] exI [of _ ms'] exI [of _ k']) (auto simp: area_pages_def)
qed

subsection \<open>Releasing the pages of an area\<close>

lemma unmap_one_ok:
  assumes inv: "pt_inv l k pt" and ty: "area_type a = Framed" and f: "data_frames a v = Some f"
    and ok: "tracker_ok k pt v f"
  shows "\<exists>k'. unmap_one k pt a v = Some (a\<lparr>data_frames := (data_frames a)(v := None)\<rparr>, k') \<and> pt_inv l k' pt
    \<and> pt_abs k' pt = (pt_abs k pt)(v := None)
    \<and> ref_counts (frames k') = (ref_counts (frames k))(ppn_val f := dec_ref (ref_counts (frames k) (ppn_val f)))
    \<and> (\<forall>g. g \<notin> set (pt_frames pt) \<longrightarrow> phys k' g = phys k g)"
proof -
  from ok obtain n e where n: "ref_counts (frames k) (ppn_val f) = Some n" and nf: "f \<notin> set (pt_frames pt)"
    and e: "pt_abs k pt v = Some e" by (auto simp: tracker_ok_def)
  from frame_dealloc_pt [OF inv n nf] obtain k1 where k1: "frame_dealloc k f = Some k1" "pt_inv l k1 pt"
    "pt_abs k1 pt = pt_abs k pt" "ref_counts (frames k1) = (ref_counts (frames k))(ppn_val f := dec_ref (Some n))"
    "phys k1 = phys k" by blast
  from pt_unmap_ok [OF k1(2), of v e] e k1(3) obtain k' where k': "pt_unmap k1 pt v = Some k'" "pt_inv l k' pt"
    "pt_grow k1 pt k' pt" "pt_abs k' pt = (pt_abs k pt)(v := None)" by auto
  have "ref_counts (frames k') = ref_counts (frames k1)" "\<forall>g. g \<notin> set (pt_frames pt) \<longrightarrow> phys k' g = phys k g"
    using k'(3) k1(5) by (auto simp: pt_grow_def)
  with ty f k1 k' n show ?thesis by (auto simp: unmap_one_def)
qed

lemma unmap_pages_ok:
  assumes "pt_inv l k pt" and "area_type a = Framed" and "distinct vs" and "inj_on g (set vs)"
    and "\<And>v. v \<in> set vs \<Longrightarrow> data_frames a v = Some (g v) \<and> tracker_ok k pt v (g v)"
  shows "\<exists>k'. unmap_pages k pt a vs
      = Some (a\<lparr>data_frames := (\<lambda>v. if v \<in> set vs then None else data_frames a v)\<rparr>, k') \<and> pt_inv l k' pt
    \<and> pt_abs k' pt = (\<lambda>v. if v \<in> set vs then None else pt_abs k pt v)
    \<and> (\<forall>f. ref_counts (frames k') (ppn_val f) =
        (if f \<in> g ` set vs then dec_ref (ref_counts (frames k) (ppn_val f)) else ref_counts (frames k) (ppn_val f)))
    \<and> (\<forall>f. f \<notin> set (pt_frames pt) \<longrightarrow> phys k' f = phys k f)"
  using assms
proof (induction vs arbitrary: k a)
  case Nil
  then show ?case by simp
next
  case (Cons v vs)
  from Cons.prems(5) [of v] have f: "data_frames a v = Some (g v)" "tracker_ok k pt v (g v)" by simp_all
  let ?a = "a\<lparr>data_frames := (data_frames a)(v := None)\<rparr>"
  from unmap_one_ok [OF Cons.prems(1,2) f] obtain k1 where
    o: "unmap_one k pt a v = Some (?a, k1)" "pt_inv l k1 pt"
    "pt_abs k1 pt = (pt_abs k pt)(v := None)"
    "ref_counts (frames k1) = (ref_counts (frames k))(ppn_val (g v) := dec_ref (ref_counts (frames k) (ppn_val (g v))))"
    "\<forall>g. g \<notin> set (pt_frames pt) \<longrightarrow> phys k1 g = phys k g" by blast
  have vn: "v \<notin> set vs" "distinct vs" "inj_on g (set vs)" using Cons.prems(3,4) by auto
  have gv: "g w \<noteq> g v" if "w \<in> set vs" for w using Cons.prems(4) that vn(1) by (auto simp: inj_on_def)
  have pre: "data_frames ?a w = Some (g w) \<and> tracker_ok k1 pt w (g w)" if "w \<in> set vs" for w
    using Cons.prems(5) [of w] that vn(1) gv [OF that] o(3,4) phys_page_num.expand [of "g w" "g v"]
    by (auto simp: tracker_ok_def)
  have ty: "area_type ?a = Framed" using Cons.prems(2) by simp
  from Cons.IH [OF o(2) ty vn(2,3) pre] obtain k' where
    ih: "unmap_pages k1 pt ?a vs = Some (?a\<lparr>data_frames := (\<lambda>w. if w \<in> set vs then None else data_frames ?a w)\<rparr>, k')"
    "pt_inv l k' pt" "pt_abs k' pt = (\<lambda>w. if w \<in> set vs then None else pt_abs k1 pt w)"
    "\<forall>f. ref_counts (frames k') (ppn_val f) =
        (if f \<in> g ` set vs then dec_ref (ref_counts (frames k1) (ppn_val f)) else ref_counts (frames k1) (ppn_val f))"
    "\<forall>f. f \<notin> set (pt_frames pt) \<longrightarrow> phys k' f = phys k1 f" by blast
  have "unmap_pages k pt a (v # vs)
      = Some (a\<lparr>data_frames := (\<lambda>w. if w \<in> set (v # vs) then None else data_frames a w)\<rparr>, k')"
    using o(1) ih(1) by (auto simp: fun_eq_iff intro!: arg_cong [of _ _ "\<lambda>x. a\<lparr>data_frames := x\<rparr>"])
  moreover have "pt_abs k' pt = (\<lambda>w. if w \<in> set (v # vs) then None else pt_abs k pt w)"
    using ih(3) o(3) by auto
  moreover have "ref_counts (frames k') (ppn_val f) =
      (if f \<in> g ` set (v # vs) then dec_ref (ref_counts (frames k) (ppn_val f)) else ref_counts (frames k) (ppn_val f))" for f
  proof (cases "f = g v")
    case True
    then have "f \<notin> g ` set vs" using gv by (metis image_iff)
    with True ih(4) o(4) show ?thesis by simp
  next
    case False
    then have "ppn_val f \<noteq> ppn_val (g v)" using phys_page_num.expand by blast
    with False ih(4) o(4) show ?thesis by simp
  qed
  ultimately show ?case using ih(2,5) o(5) by auto
qed


lemma areas_disjoint_remove:
  "areas_disjoint as \<Longrightarrow> areas_disjoint (take i as @ drop (Suc i) as)"
proof (induction as arbitrary: i)
  case (Cons a as)
  then show ?case by (cases i) (auto dest: in_set_takeD in_set_dropD)
qed simp

lemma areas_disjoint_nth:
  assumes "areas_disjoint as" "i < length as" "b \<in> set (take i as @ drop (Suc i) as)"
  shows "area_pages b \<inter> area_pages (as ! i) = {}"
  using assms
proof (induction as arbitrary: i)
  case (Cons a as)
  show ?case
  proof (cases i)
    case 0
    with Cons.prems show ?thesis by auto
  next
    case (Suc j)
    with Cons show ?thesis by (auto simp: nth_mem)
  qed
qed simp

lemma drop_trackers_nil: "data_frames a = Map.empty \<Longrightarrow> drop_area k a = Some k"
  by (simp add: drop_area_def area_trackers_def List.map_filter_def)

text \<open>Removing a framed area: its pages are unmapped, its trackers dropped, nothing else changes.\<close>

lemma remove_area_ok:
  assumes inv: "ms_inv l k ms" and i: "i < length (areas ms)" and ty: "area_type (areas ms ! i) = Framed"
  defines "a \<equiv> areas ms ! i" and "ms' \<equiv> ms\<lparr>areas := take i (areas ms) @ drop (Suc i) (areas ms)\<rparr>"
  shows "\<exists>k'. area_unmap k (ms_table ms) a = Some (a\<lparr>data_frames := Map.empty\<rparr>, k')
    \<and> ms_inv l k' ms' \<and> pt_abs k' (ms_table ms) = (\<lambda>v. if v \<in> area_pages a then None else pt_abs k (ms_table ms) v)
    \<and> (\<forall>f. ref_counts (frames k') (ppn_val f) = (if \<exists>v. data_frames a v = Some f
          then dec_ref (ref_counts (frames k) (ppn_val f)) else ref_counts (frames k) (ppn_val f)))
    \<and> (\<forall>f. f \<notin> set (pt_frames (ms_table ms)) \<longrightarrow> phys k' f = phys k f)"
proof -
  have mem: "a \<in> set (areas ms)" using i by (simp add: a_def)
  have wf: "area_wf a" using inv mem by (simp add: ms_inv_def)
  have dom: "dom (data_frames a) = area_pages a" using wf ty by (simp add: area_wf_def a_def)
  have set: "set (range_list (area_range a)) = area_pages a" "distinct (range_list (area_range a))"
    using wf by (simp_all add: area_wf_def set_range_list area_pages_def distinct_range_list)
  define g where "g v = the (data_frames a v)" for v
  have gs: "data_frames a v = Some (g v)" if "v \<in> area_pages a" for v
    using that unfolding dom [symmetric] g_def by auto
  have tr: "(v, f) \<in> trackers (areas ms)" if "data_frames a v = Some f" for v f
    using that mem by (auto simp: trackers_def)
  have inj: "inj_on g (area_pages a)"
    using inv gs tr unfolding ms_inv_def inj_on_def by metis
  have pre: "data_frames a v = Some (g v) \<and> tracker_ok k (ms_table ms) v (g v)" if "v \<in> area_pages a" for v
    using gs [OF that] tr [OF gs [OF that]] inv unfolding ms_inv_def by blast
  from unmap_pages_ok [OF ms_inv_pt [OF inv] _ set(2), of a g, unfolded set(1), OF _ inj pre] ty obtain k' where
    k': "area_unmap k (ms_table ms) a = Some (a\<lparr>data_frames := (\<lambda>v. if v \<in> area_pages a then None else data_frames a v)\<rparr>, k')"
    "pt_inv l k' (ms_table ms)" "pt_abs k' (ms_table ms) = (\<lambda>v. if v \<in> area_pages a then None else pt_abs k (ms_table ms) v)"
    "\<forall>f. ref_counts (frames k') (ppn_val f) = (if f \<in> g ` area_pages a
       then dec_ref (ref_counts (frames k) (ppn_val f)) else ref_counts (frames k) (ppn_val f))"
    "\<forall>f. f \<notin> set (pt_frames (ms_table ms)) \<longrightarrow> phys k' f = phys k f"
    by (auto simp: a_def area_unmap_def)
  have em: "(\<lambda>v. if v \<in> area_pages a then None else data_frames a v) = Map.empty"
    using dom by (auto simp: fun_eq_iff domIff)
  have im: "f \<in> g ` area_pages a \<longleftrightarrow> (\<exists>v. data_frames a v = Some f)" for f
    using gs dom by (auto simp: image_iff domIff) (metis domI gs option.inject)
  let ?as = "take i (areas ms) @ drop (Suc i) (areas ms)"
  have sub: "set ?as \<subseteq> set (areas ms)" by (auto dest: in_set_takeD in_set_dropD)
  have split: "set (areas ms) = insert a (set ?as)"
    unfolding a_def using id_take_nth_drop [OF i] by (metis Un_insert_right list.simps(15) set_append)
  have dis: "area_pages b \<inter> area_pages a = {}" if "b \<in> set ?as" for b
    using areas_disjoint_nth [OF _ i that] inv by (simp add: ms_inv_def a_def)
  have trs: "(v, f) \<in> trackers (areas ms) \<and> v \<notin> area_pages a \<and> f \<notin> g ` area_pages a"
    if t: "(v, f) \<in> trackers ?as" for v f
  proof -
    from t obtain b where b: "b \<in> set ?as" "data_frames b v = Some f" by (auto simp: trackers_def)
    have t': "(v, f) \<in> trackers (areas ms)" using b sub by (auto simp: trackers_def)
    have "area_wf b" using inv b(1) sub by (auto simp: ms_inv_def)
    then have "v \<in> area_pages b" using b(2) by (auto simp: area_wf_def split: if_splits)
    with dis [OF b(1)] have v: "v \<notin> area_pages a" by blast
    have "f \<noteq> g w" if w: "w \<in> area_pages a" for w
    proof
      assume "f = g w"
      with tr [OF gs [OF w]] t' inv have "v = w" unfolding ms_inv_def by blast
      with v w show False by simp
    qed
    with t' v show ?thesis by blast
  qed
  have "ms_inv l k' ms'"
    unfolding ms_inv_def ms'_def
  proof (intro conjI)
    let ?ms = "ms\<lparr>areas := ?as\<rparr>"
    have tab: "ms_table ?ms = ms_table ms" "areas ?ms = ?as" by simp_all
    show "pt_inv l k' (ms_table ?ms)" using k'(2) by simp
    show "\<forall>b \<in> set (areas ?ms). area_wf b" using inv sub unfolding tab ms_inv_def by blast
    show "areas_disjoint (areas ?ms)" using inv by (simp add: ms_inv_def areas_disjoint_remove)
    show "\<forall>b \<in> set (areas ?ms). \<forall>v \<in> area_pages b. pt_abs k' (ms_table ?ms) v \<noteq> None"
      using inv sub dis unfolding tab k'(3) ms_inv_def by (metis (no_types, lifting) disjoint_iff subsetD)
    show "\<forall>v. pt_abs k' (ms_table ?ms) v \<noteq> None \<longrightarrow>
        v = TRAMPOLINE_VPN \<or> (\<exists>b \<in> set (areas ?ms). v \<in> area_pages b)"
      using inv split unfolding tab k'(3) ms_inv_def by (metis insert_iff)
    show "\<forall>(v, f) \<in> trackers (areas ?ms). tracker_ok k' (ms_table ?ms) v f"
    proof (unfold tab, clarify)
      fix v f assume "(v, f) \<in> trackers ?as"
      from trs [OF this] inv k'(3,4) show "tracker_ok k' (ms_table ms) v f"
        unfolding ms_inv_def by (auto simp: tracker_ok_def)
    qed
    show "\<forall>v w f. (v, f) \<in> trackers (areas ?ms) \<longrightarrow> (w, f) \<in> trackers (areas ?ms) \<longrightarrow> v = w"
      using trs inv unfolding tab ms_inv_def by blast
  qed
  with k' em im show ?thesis by auto
qed

lemma munmap_hit:
  assumes inv: "ms_inv l k ms" and al: "4096 dvd unat start" "4096 dvd unat len" "len \<noteq> 0"
    and fin: "checked_add start len = Some fin"
    and pos: "position (\<lambda>a. range_l (area_range a) = va_floor (virt_addr_from start)
        \<and> range_r (area_range a) = va_floor (virt_addr_from fin)
        \<and> area_type a = Framed \<and> flags_contains (map_perm a) PERM_U) (areas ms) = Some i"
  shows "\<exists>k'. munmap k ms start len
      = Some (True, ms\<lparr>areas := take i (areas ms) @ drop (Suc i) (areas ms)\<rparr>, k')
    \<and> ms_inv l k' (ms\<lparr>areas := take i (areas ms) @ drop (Suc i) (areas ms)\<rparr>)
    \<and> pt_abs k' (ms_table ms) = (\<lambda>v. if v \<in> area_pages (areas ms ! i) then None else pt_abs k (ms_table ms) v)
    \<and> (\<forall>f. ref_counts (frames k') (ppn_val f) = (if \<exists>v. data_frames (areas ms ! i) v = Some f
          then dec_ref (ref_counts (frames k) (ppn_val f)) else ref_counts (frames k) (ppn_val f)))
    \<and> (\<forall>f. f \<notin> set (pt_frames (ms_table ms)) \<longrightarrow> phys k' f = phys k f)"
proof -
  note p = position_SomeD [OF pos]
  from p have i: "i < length (areas ms)" and ty: "area_type (areas ms ! i) = Framed" by simp_all
  from remove_area_ok [OF inv i ty] obtain k' where
    k': "area_unmap k (ms_table ms) (areas ms ! i) = Some ((areas ms ! i)\<lparr>data_frames := Map.empty\<rparr>, k')"
    "ms_inv l k' (ms\<lparr>areas := take i (areas ms) @ drop (Suc i) (areas ms)\<rparr>)"
    "pt_abs k' (ms_table ms) = (\<lambda>v. if v \<in> area_pages (areas ms ! i) then None else pt_abs k (ms_table ms) v)"
    "\<forall>f. ref_counts (frames k') (ppn_val f) = (if \<exists>v. data_frames (areas ms ! i) v = Some f
          then dec_ref (ref_counts (frames k) (ppn_val f)) else ref_counts (frames k) (ppn_val f))"
    "\<forall>f. f \<notin> set (pt_frames (ms_table ms)) \<longrightarrow> phys k' f = phys k f" by blast
  have "drop_area k' ((areas ms ! i)\<lparr>data_frames := Map.empty\<rparr>) = Some k'" by (rule drop_trackers_nil) simp
  with al fin pos k' show ?thesis by (simp add: munmap_def page_mod_word)
qed

lemma mmap_perm_U: "flags_contains (mmap_perm prot) PERM_U"
  by (auto simp: mmap_perm_def flags_contains_def PERM_U_def PERM_R_def PERM_W_def PERM_X_def Let_def)

text \<open>The user-visible permissions an anonymous mapping gets.\<close>

lemma mmap_perm_flags:
  "flags_contains (mmap_perm prot OR PTE_V) PTE_U"
  "flags_contains (mmap_perm prot OR PTE_V) PTE_R \<longleftrightarrow> prot AND 1 \<noteq> 0 \<or> prot AND 2 \<noteq> 0"
  "flags_contains (mmap_perm prot OR PTE_V) PTE_W \<longleftrightarrow> prot AND 2 \<noteq> 0"
  "flags_contains (mmap_perm prot OR PTE_V) PTE_X \<longleftrightarrow> prot AND 4 \<noteq> 0"
  by (auto simp: mmap_perm_def flags_contains_def PERM_U_def PERM_R_def PERM_W_def PERM_X_def
      pte_flag_defs Let_def)

lemma areas_disjoint_last:
  assumes "areas_disjoint (as @ [a])" "b \<in> set as" "area_pages a \<noteq> {}" 
  shows "range_l (area_range b) \<noteq> range_l (area_range a) \<or> range_r (area_range b) \<noteq> range_r (area_range a)"
  using assms by (auto simp: areas_disjoint_append area_pages_def)

lemma position_last:
  "\<forall>x \<in> set xs. \<not> p x \<Longrightarrow> p y \<Longrightarrow> position p (xs @ [y]) = Some (length xs)"
  by (induction xs) auto

lemma mmap_pages_nonempty:
  assumes "4096 dvd unat c" "len \<noteq> 0"
  shows "mmap_pages c len \<noteq> {}"
proof -
  have "unat (vpn_val (VirtPageNum (of_nat (unat c div 4096)))) = unat c div 4096"
  proof -
    have "unat c div 4096 < 2 ^ LENGTH(64)"
      using unsigned_less [of c, where ?'a = nat] div_le_dividend [of "unat c" 4096] by linarith
    then show ?thesis unfolding virt_page_num.sel by (simp only: unat_of_nat) simp
  qed
  moreover have "0 < unat len" using assms(2) by (simp add: unat_gt_0)
  ultimately have "VirtPageNum (of_nat (unat c div 4096)) \<in> mmap_pages c len"
    using assms(1) by (simp add: mmap_pages_def)
  then show ?thesis by blast
qed

lemma map_area_new_range:
  "map_area_new s e ty p = Some a \<Longrightarrow> area_range a = \<lparr>range_l = va_floor s, range_r = va_ceil e\<rparr>"
  by (auto simp: map_area_new_def range_new_def split: if_splits)

lemma mmap_granted:
  assumes "mmap k ms s len prot = Some (r, ms', k')" "len \<noteq> 0" "prot AND NOT 7 = 0" "mmap_len len = Some len'"
    "mmap_perm prot AND (PERM_R OR PERM_X) \<noteq> 0" "mmap_choose ms s len' = Some c"
  shows "r = Some c"
  using assms by (auto simp: mmap_def bind_eq_Some_conv)

subsection \<open>Properties of anonymous mappings\<close>

text \<open>C16: \<^verbatim>\<open>mmap\<close> is correct. With three free frames for each page it never panics and
  keeps the invariant of the address space. A refused request changes nothing. A granted one
  returns a page-aligned address inside the mapping window, the requested one if one was given,
  where no page was mapped before; afterwards exactly the pages that cover the requested bytes
  are new, each backed by a zeroed frame of its own with the permissions asked for (user, and
  readable whenever it is writable), and every other mapping, frame and reference count in use
  is as it was.\<close>

theorem mmap_correct:
  assumes "ms_inv l k ms" and "3 * ((unat len + 4095) div 4096) \<le> fa_free (frames k)"
  shows "\<exists>r ms' k'. mmap k ms start len prot = Some (r, ms', k') \<and> ms_inv l k' ms' \<and>
    (case r of
       None \<Rightarrow> ms' = ms \<and> k' = k
     | Some c \<Rightarrow> 4096 dvd unat c \<and> MMAP_BASE \<le> c \<and> unat c + unat len \<le> unat MMAP_END \<and> (start \<noteq> 0 \<longrightarrow> c = start)
         \<and> (\<forall>v. v \<notin> mmap_pages c len \<longrightarrow> pt_abs k' (ms_table ms') v = pt_abs k (ms_table ms) v)
         \<and> (\<forall>v \<in> mmap_pages c len. pt_abs k (ms_table ms) v = None
             \<and> (\<exists>e. pt_abs k' (ms_table ms') v = Some e \<and> pte_user_accessible e
                 \<and> pte_readable e = (prot AND 1 \<noteq> 0 \<or> prot AND 2 \<noteq> 0) \<and> pte_writable e = (prot AND 2 \<noteq> 0)
                 \<and> pte_executable e = (prot AND 4 \<noteq> 0) \<and> \<not> pte_is_cow e
                 \<and> ref_count (frames k) (pte_ppn e) = 0 \<and> ref_count (frames k') (pte_ppn e) = 1
                 \<and> phys k' (pte_ppn e) = (\<lambda>_. 0)))
         \<and> grows k (ms_table ms) k' (ms_table ms'))"
proof -
  from mmap_ok [OF assms, of start prot] obtain r ms' k' where r: "mmap k ms start len prot = Some (r, ms', k')" and
    *: "case r of None \<Rightarrow> ms' = ms \<and> k' = k
     | Some c \<Rightarrow> \<exists>len' a g. len \<noteq> 0 \<and> mmap_len len = Some len' \<and> mmap_choose ms start len' = Some c
         \<and> ms_inv l k' ms' \<and> areas ms' = areas ms @ [a] \<and> area_type a = Framed \<and> map_perm a = mmap_perm prot
         \<and> area_pages a = mmap_pages c len \<and> data_frames a = (\<lambda>v. if v \<in> mmap_pages c len then Some (g v) else None)
         \<and> map_area_new (virt_addr_from c) (virt_addr_from (c + len')) Framed (mmap_perm prot)
             = Some (a\<lparr>data_frames := Map.empty\<rparr>)
         \<and> grows k (ms_table ms) k' (ms_table ms')
         \<and> pt_abs k' (ms_table ms') = (\<lambda>v. if v \<in> mmap_pages c len
              then Some (pte_new (g v) (mmap_perm prot OR PTE_V)) else pt_abs k (ms_table ms) v)
         \<and> (\<forall>v \<in> mmap_pages c len. pt_abs k (ms_table ms) v = None \<and> unat (ppn_val (g v)) < 2 ^ 44
              \<and> ref_counts (frames k) (ppn_val (g v)) = None
              \<and> ref_counts (frames k') (ppn_val (g v)) = Some 1 \<and> phys k' (g v) = (\<lambda>_. 0))" by blast
  show ?thesis
  proof (cases r)
    case None
    with r * assms(1) show ?thesis by auto
  next
    case (Some c)
    with * obtain len' g where g: "len \<noteq> 0" "mmap_len len = Some len'" "mmap_choose ms start len' = Some c"
      "ms_inv l k' ms'" "grows k (ms_table ms) k' (ms_table ms')"
      "pt_abs k' (ms_table ms') = (\<lambda>v. if v \<in> mmap_pages c len
              then Some (pte_new (g v) (mmap_perm prot OR PTE_V)) else pt_abs k (ms_table ms) v)"
      "\<forall>v \<in> mmap_pages c len. pt_abs k (ms_table ms) v = None \<and> unat (ppn_val (g v)) < 2 ^ 44
              \<and> ref_counts (frames k) (ppn_val (g v)) = None
              \<and> ref_counts (frames k') (ppn_val (g v)) = Some 1 \<and> phys k' (g v) = (\<lambda>_. 0)" by auto
    note fits = mmap_choose_fits [OF g(3)]
    have bound: "unat c + unat len \<le> unat MMAP_END" "4096 dvd unat c"
      using fits(1) mmap_len_spec(3) [OF g(2)] by (auto simp: mmap_fits_def)
    have page: "\<exists>e. pt_abs k' (ms_table ms') v = Some e \<and> pte_user_accessible e
                 \<and> pte_readable e = (prot AND 1 \<noteq> 0 \<or> prot AND 2 \<noteq> 0) \<and> pte_writable e = (prot AND 2 \<noteq> 0)
                 \<and> pte_executable e = (prot AND 4 \<noteq> 0) \<and> \<not> pte_is_cow e
                 \<and> ref_count (frames k) (pte_ppn e) = 0 \<and> ref_count (frames k') (pte_ppn e) = 1
                 \<and> phys k' (pte_ppn e) = (\<lambda>_. 0)" if v: "v \<in> mmap_pages c len" for v
      using g(7) v pte_new_ppn [of "g v"]
      by (intro exI [of _ "pte_new (g v) (mmap_perm prot OR PTE_V)"])
        (simp add: g(6) pte_user_accessible_def pte_readable_def pte_writable_def pte_executable_def
          mmap_perm_flags ref_count_def)
    show ?thesis
      using r Some g(4,5) bound fits(2,3) page g(6,7)
      by (intro exI [of _ "Some c"] exI [of _ ms'] exI [of _ k']) simp
  qed
qed

theorem mmap_correct_witness:
  "\<exists>ms k ms' k'. new_bare example_mem = Some (ms, k) \<and> mmap k ms 0 5000 3 = Some (Some 0x20000000, ms', k')
    \<and> ms_inv 0x80500 k' ms' \<and> (\<exists>e. pt_abs k' (ms_table ms') (VirtPageNum 0x20001) = Some e \<and> pte_writable e)"
proof -
  have pos: "0 < fa_free (frames example_mem)" using example_mem_inv(2) by simp
  from new_bare_ok [OF example_mem_inv(1) pos] obtain ms k where
    n: "new_bare example_mem = Some (ms, k)" "ms_inv 0x80500 k ms" "areas ms = []" "fa_free (frames k) = 0x7aff"
    using example_mem_inv(2) by auto
  have f: "3 * ((unat (5000 :: usize) + 4095) div 4096) \<le> fa_free (frames k)" using n(4) by simp
  have len: "mmap_len 5000 = Some 8192"
    by (simp add: mmap_len_def checked_add_def PAGE_SIZE_def)
  have ch: "mmap_choose ms 0 8192 = Some 0x20000000"
    using n(3) by (simp add: mmap_choose_def mmap_search.simps checked_add_def area_conflicts_def MMAP_BASE_def MMAP_END_def)
  from mmap_ok [OF n(2) f, of 0 3] obtain r ms' k' where r: "mmap k ms 0 5000 3 = Some (r, ms', k')" by blast
  have m: "mmap k ms 0 5000 3 = Some (Some 0x20000000, ms', k')"
    using mmap_granted [OF r _ _ len _ ch] r
    by (simp add: mmap_perm_def PERM_U_def PERM_R_def PERM_W_def PERM_X_def)
  have "VirtPageNum 0x20001 \<in> mmap_pages 0x20000000 5000" by (simp add: mmap_pages_def)
  with mmap_correct [OF n(2) f, of 0 3] m n(1) show ?thesis by fastforce
qed

text \<open>Address selection. Without a hint, a valid request gets the lowest page-aligned address
  of the mapping window at which the rounded length fits without touching an area, and is refused
  only if there is none.\<close>

lemma mmap_lowest_fit:
  "case mmap_choose ms 0 len of
      Some c \<Rightarrow> mmap_fits ms len c \<and> MMAP_BASE \<le> c \<and> (\<forall>d. MMAP_BASE \<le> d \<longrightarrow> mmap_fits ms len d \<longrightarrow> c \<le> d)
    | None \<Rightarrow> \<forall>d. MMAP_BASE \<le> d \<longrightarrow> \<not> mmap_fits ms len d"
proof -
  have "4096 dvd unat MMAP_BASE" by (simp add: unat_MMAP)
  from mmap_search_spec [OF this, of ms len] show ?thesis
    by (auto simp: mmap_choose_def not_less [symmetric] split: option.splits)
qed

definition example_areas :: memory_set where
  "example_areas = \<lparr>ms_table = from_token 1, areas = [\<lparr>area_range =
     \<lparr>range_l = VirtPageNum 0x20000, range_r = VirtPageNum 0x20001\<rparr>,
     data_frames = Map.empty, area_type = Framed, map_perm = PERM_U\<rparr>]\<rparr>"

text \<open>C17: \<^verbatim>\<open>munmap\<close> of the range a mapping was granted for whole pages undoes it: it
  reports success, the areas and the mapped pages are those before the mapping, every frame that
  was in use before keeps its reference count and contents, and the frames of the mapping are free. Page
  tables that the mapping added stay allocated to the address space, empty.\<close>

theorem munmap_undoes_mmap:
  assumes inv: "ms_inv l k ms" and free: "3 * ((unat len + 4095) div 4096) \<le> fa_free (frames k)"
    and m: "mmap k ms start len prot = Some (Some c, ms1, k1)" and al: "4096 dvd unat len"
  shows "\<exists>ms2 k2. munmap k1 ms1 c len = Some (True, ms2, k2) \<and> ms_inv l k2 ms2 \<and> areas ms2 = areas ms
    \<and> pt_abs k2 (ms_table ms2) = pt_abs k (ms_table ms)
    \<and> (\<forall>f. ref_count (frames k) f \<noteq> 0 \<longrightarrow> f \<notin> set (pt_frames (ms_table ms)) \<longrightarrow>
         ref_count (frames k2) f = ref_count (frames k) f \<and> phys k2 f = phys k f)
    \<and> (\<forall>v \<in> mmap_pages c len. \<forall>e. pt_abs k1 (ms_table ms1) v = Some e \<longrightarrow> ref_count (frames k2) (pte_ppn e) = 0)"
proof -
  from mmap_ok [OF inv free, of start prot] m obtain len' a g where
    g: "len \<noteq> 0" "mmap_len len = Some len'" "mmap_choose ms start len' = Some c"
    "ms_inv l k1 ms1" "areas ms1 = areas ms @ [a]" "area_type a = Framed" "map_perm a = mmap_perm prot"
    "area_pages a = mmap_pages c len" "data_frames a = (\<lambda>v. if v \<in> mmap_pages c len then Some (g v) else None)"
    "map_area_new (virt_addr_from c) (virt_addr_from (c + len')) Framed (mmap_perm prot) = Some (a\<lparr>data_frames := Map.empty\<rparr>)"
    "grows k (ms_table ms) k1 (ms_table ms1)"
    "pt_abs k1 (ms_table ms1) = (\<lambda>v. if v \<in> mmap_pages c len
              then Some (pte_new (g v) (mmap_perm prot OR PTE_V)) else pt_abs k (ms_table ms) v)"
    "\<forall>v \<in> mmap_pages c len. pt_abs k (ms_table ms) v = None \<and> unat (ppn_val (g v)) < 2 ^ 44
              \<and> ref_counts (frames k) (ppn_val (g v)) = None
              \<and> ref_counts (frames k1) (ppn_val (g v)) = Some 1 \<and> phys k1 (g v) = (\<lambda>_. 0)" by auto
  note fits = mmap_choose_fits(1) [OF g(3)]
  have len': "len' = len"
    using mmap_len_spec(1) [OF g(2)] al by (auto simp: word_unat_eq_iff elim!: dvdE)
  have e: "unat (c + len) = unat c + unat len" "unat c + unat len \<le> 0x30000000" "4096 dvd unat c"
    using fits unat_MMAP len' by (auto simp: mmap_fits_def intro!: unat_add_no_wrap)
  have al2: "4096 dvd unat (c + len)" "unat (c + len) < 2 ^ 38" using e al by auto
  have fin: "checked_add c len = Some (c + len)" using e by (intro checked_add_ok) simp
  have rng: "range_l (area_range a) = va_floor (virt_addr_from c)" "range_r (area_range a) = va_floor (virt_addr_from (c + len))"
    using map_area_new_range [OF g(10)] low_address(1,3) [OF al2(2)] va_ceil_aligned [OF al2] len' by simp_all
  let ?p = "\<lambda>a. range_l (area_range a) = va_floor (virt_addr_from c)
        \<and> range_r (area_range a) = va_floor (virt_addr_from (c + len))
        \<and> area_type a = Framed \<and> flags_contains (map_perm a) PERM_U"
  have ne: "area_pages a \<noteq> {}" using mmap_pages_nonempty [OF e(3) g(1)] g(8) by simp
  have "areas_disjoint (areas ms @ [a])" using g(4,5) by (simp add: ms_inv_def)
  then have "\<forall>b \<in> set (areas ms). \<not> ?p b" using areas_disjoint_last [OF _ _ ne] rng by metis
  then have pos: "position ?p (areas ms1) = Some (length (areas ms))"
    unfolding g(5) by (rule position_last) (simp add: rng g(6,7) mmap_perm_U)
  from munmap_hit [OF g(4) e(3) al g(1) fin pos] g(5) obtain k2 where
    k2: "munmap k1 ms1 c len = Some (True, ms1\<lparr>areas := areas ms\<rparr>, k2)" "ms_inv l k2 (ms1\<lparr>areas := areas ms\<rparr>)"
    "pt_abs k2 (ms_table ms1) = (\<lambda>v. if v \<in> area_pages a then None else pt_abs k1 (ms_table ms1) v)"
    "\<forall>f. ref_counts (frames k2) (ppn_val f) = (if \<exists>v. data_frames a v = Some f
          then dec_ref (ref_counts (frames k1) (ppn_val f)) else ref_counts (frames k1) (ppn_val f))"
    "\<forall>f. f \<notin> set (pt_frames (ms_table ms1)) \<longrightarrow> phys k2 f = phys k1 f" by auto
  have abs: "pt_abs k2 (ms_table ms1) = pt_abs k (ms_table ms)"
    unfolding k2(3) g(12) using g(8,13) by (auto simp: fun_eq_iff)
  have frame: "ref_count (frames k2) f = ref_count (frames k) f \<and> phys k2 f = phys k f"
    if f: "ref_count (frames k) f \<noteq> 0" "f \<notin> set (pt_frames (ms_table ms))" for f
  proof -
    have nn: "ref_counts (frames k) (ppn_val f) \<noteq> None" using f(1) by (auto simp: ref_count_def split: option.splits)
    then have "\<not> (\<exists>v. data_frames a v = Some f)" using g(13) by (auto simp: g(9) split: if_splits)
    with k2(4,5) growsD [OF g(11) nn] f(2) show ?thesis by (simp add: ref_count_def)
  qed
  have freed: "ref_count (frames k2) (pte_ppn e) = 0"
    if "v \<in> mmap_pages c len" "pt_abs k1 (ms_table ms1) v = Some e" for v e
  proof -
    have "pte_ppn e = g v" using that g(12,13) pte_new_ppn [of "g v"] by auto
    moreover have "data_frames a v = Some (g v)" using g(9) that(1) by simp
    ultimately have "ref_counts (frames k2) (ppn_val (pte_ppn e)) = dec_ref (ref_counts (frames k1) (ppn_val (g v)))"
      using k2(4) by auto
    then show ?thesis using g(13) that(1) by (simp add: dec_ref_def ref_count_def)
  qed
  show ?thesis
    by (intro exI [of _ "ms1\<lparr>areas := areas ms\<rparr>"] exI [of _ k2] conjI) (use k2 abs frame freed in auto)
qed

theorem munmap_undoes_mmap_witness:
  "\<exists>ms k ms1 k1 ms2 k2. new_bare example_mem = Some (ms, k) \<and> mmap k ms 0 8192 1 = Some (Some 0x20000000, ms1, k1)
    \<and> munmap k1 ms1 0x20000000 8192 = Some (True, ms2, k2) \<and> areas ms2 = []"
proof -
  have pos: "0 < fa_free (frames example_mem)" using example_mem_inv(2) by simp
  from new_bare_ok [OF example_mem_inv(1) pos] obtain ms k where
    n: "new_bare example_mem = Some (ms, k)" "ms_inv 0x80500 k ms" "areas ms = []" "fa_free (frames k) = 0x7aff"
    using example_mem_inv(2) by auto
  have f: "3 * ((unat (8192 :: usize) + 4095) div 4096) \<le> fa_free (frames k)" using n(4) by simp
  have len: "mmap_len 8192 = Some 8192" by (simp add: mmap_len_def checked_add_def PAGE_SIZE_def)
  have ch: "mmap_choose ms 0 8192 = Some 0x20000000"
    using n(3) by (simp add: mmap_choose_def mmap_search.simps checked_add_def area_conflicts_def MMAP_BASE_def MMAP_END_def)
  from mmap_ok [OF n(2) f, of 0 1] obtain r ms1 k1 where r: "mmap k ms 0 8192 1 = Some (r, ms1, k1)" by blast
  have m: "mmap k ms 0 8192 1 = Some (Some 0x20000000, ms1, k1)"
    using mmap_granted [OF r _ _ len _ ch] r
    by (simp add: mmap_perm_def PERM_U_def PERM_R_def PERM_W_def PERM_X_def)
  have al: "4096 dvd unat (8192 :: usize)" by simp
  from munmap_undoes_mmap [OF n(2) f m al] n m show ?thesis by auto
qed

end
