(* ===== verification/CowFork.thy ===== *)
theory CowFork
  imports MemorySet
begin

unbundle bit_operations_syntax

section \<open>Copy on write\<close>

text \<open>
  The proofs about \<^verbatim>\<open>from_existed_user_cow\<close> and \<^verbatim>\<open>handle_cow_fault\<close>: a
  fork shares the user pages of the parent read-only and copies the others, and a write fault gives
  the faulting space a writable page of its own with the same contents while every other frame in
  use keeps its contents.
\<close>

lemma areas_disjoint_unique:
  assumes "areas_disjoint as" "i < length as" "j < length as" "v \<in> area_pages (as ! i)" "v \<in> area_pages (as ! j)"
  shows "i = j"
  using assms
proof (induction as arbitrary: i j)
  case (Cons a as)
  then show ?case by (cases i; cases j) (auto dest: nth_mem)
qed simp

lemma trackers_update:
  assumes "areas_disjoint as" "i < length as" "\<forall>a \<in> set as. area_wf a"
    and "area_type (as ! i) = Framed" and "v \<in> area_pages (as ! i)"
  shows "trackers (as[i := (as ! i)\<lparr>data_frames := (data_frames (as ! i))(v \<mapsto> f)\<rparr>])
    = {(w, g) \<in> trackers as. w \<noteq> v} \<union> {(v, f)}"
proof (rule set_eqI, clarify)
  fix w g
  let ?as = "as[i := (as ! i)\<lparr>data_frames := (data_frames (as ! i))(v \<mapsto> f)\<rparr>]"
  have other: "data_frames (as ! j) v = None" if "j < length as" "j \<noteq> i" for j
  proof -
    have "v \<notin> area_pages (as ! j)" using areas_disjoint_unique [OF assms(1,2) that(1) assms(5)] that(2) by blast
    moreover have "area_wf (as ! j)" using that(1) assms(3) by simp
    ultimately show ?thesis by (auto simp: area_wf_def domIff split: if_splits)
  qed
  have "(w, g) \<in> trackers ?as \<longleftrightarrow> (\<exists>j < length as. data_frames (?as ! j) w = Some g)"
    by (simp add: trackers_def bex_set_nth)
  also have "\<dots> \<longleftrightarrow> (\<exists>j < length as. if j = i \<and> w = v then g = f else data_frames (as ! j) w = Some g)"
    by (intro ex_cong1) (auto simp: nth_list_update assms(2))
  also have "\<dots> \<longleftrightarrow> (if w = v then g = f else \<exists>j < length as. data_frames (as ! j) w = Some g)"
    using other assms(2) by auto
  finally show "(w, g) \<in> trackers ?as \<longleftrightarrow> (w, g) \<in> {(w, g) \<in> trackers as. w \<noteq> v} \<union> {(v, f)}"
    by (auto simp: trackers_def bex_set_nth)
qed

lemma areas_disjoint_update:
  assumes "area_pages b = area_pages (as ! i)" "i < length as" "areas_disjoint as"
  shows "areas_disjoint (as[i := b])"
  using assms
proof (induction as arbitrary: i)
  case (Cons a as)
  show ?case
  proof (cases i)
    case 0
    with Cons.prems show ?thesis by simp
  next
    case (Suc j)
    with Cons.prems have "area_pages a \<inter> area_pages (as ! j) = {}" by (simp add: nth_mem)
    then have "\<forall>c \<in> set (as[j := b]). area_pages a \<inter> area_pages c = {}"
      using Cons.prems set_update_subset_insert [of as j b] Suc by (metis areas_disjoint.simps(2) insertE nth_Cons_Suc subsetD)
    moreover have "areas_disjoint (as[j := b])" using Cons.IH [of j] Cons.prems Suc by simp
    ultimately show ?thesis using Suc by simp
  qed
qed simp

text \<open>Replacing the frame of one page, in the area and in the table, keeps the invariant.\<close>

lemma ms_inv_retarget:
  assumes inv: "ms_inv l k ms" and i: "i < length (areas ms)" and ty: "area_type (areas ms ! i) = Framed"
    and v: "v \<in> area_pages (areas ms ! i)"
    and k': "pt_inv l k' (ms_table ms)" "pt_abs k' (ms_table ms) = (pt_abs k (ms_table ms))(v \<mapsto> e')" "pte_ppn e' = new"
    and new: "ref_counts (frames k) (ppn_val new) = None" "ref_counts (frames k') (ppn_val new) \<noteq> None"
      "new \<notin> set (pt_frames (ms_table ms))"
    and old: "\<And>w f. (w, f) \<in> trackers (areas ms) \<Longrightarrow> w \<noteq> v \<Longrightarrow> ref_counts (frames k') (ppn_val f) \<noteq> None"
  shows "ms_inv l k' (ms\<lparr>areas := (areas ms)[i := (areas ms ! i)\<lparr>data_frames := (data_frames (areas ms ! i))(v \<mapsto> new)\<rparr>]\<rparr>)"
proof -
  let ?a = "(areas ms ! i)\<lparr>data_frames := (data_frames (areas ms ! i))(v \<mapsto> new)\<rparr>"
  let ?as = "(areas ms)[i := ?a]"
  have wf: "\<forall>a \<in> set (areas ms). area_wf a" and dis: "areas_disjoint (areas ms)" using inv by (simp_all add: ms_inv_def)
  have mem: "areas ms ! i \<in> set (areas ms)" using i by simp
  have pg: "area_pages ?a = area_pages (areas ms ! i)" by (simp add: area_pages_def)
  have wfa: "area_wf ?a" using wf mem ty v by (auto simp: area_wf_def pg)
  have pages: "(\<exists>b \<in> set ?as. w \<in> area_pages b) \<longleftrightarrow> (\<exists>b \<in> set (areas ms). w \<in> area_pages b)" for w
  proof -
    have "(\<exists>b \<in> set ?as. w \<in> area_pages b) \<longleftrightarrow> (\<exists>j < length (areas ms). w \<in> area_pages (?as ! j))"
      by (simp add: bex_set_nth)
    also have "\<dots> \<longleftrightarrow> (\<exists>j < length (areas ms). w \<in> area_pages (areas ms ! j))"
      by (intro ex_cong1) (auto simp: nth_list_update i pg)
    finally show ?thesis by (simp add: bex_set_nth)
  qed
  note tr = trackers_update [OF dis i wf ty v, of new]
  show ?thesis
    unfolding ms_inv_def
  proof (intro conjI)
    let ?ms = "ms\<lparr>areas := ?as\<rparr>"
    have tab: "ms_table ?ms = ms_table ms" "areas ?ms = ?as" by simp_all
    show "pt_inv l k' (ms_table ?ms)" using k'(1) by simp
    show "\<forall>b \<in> set (areas ?ms). area_wf b"
      unfolding tab using wf wfa set_update_subset_insert [of "areas ms" i ?a] by blast
    show "areas_disjoint (areas ?ms)" unfolding tab by (rule areas_disjoint_update [OF pg i dis])
    have "(\<exists>b \<in> set (areas ms). w \<in> area_pages b) \<Longrightarrow> pt_abs k (ms_table ms) w \<noteq> None" for w
      using inv unfolding ms_inv_def by blast
    then show "\<forall>b \<in> set (areas ?ms). \<forall>w \<in> area_pages b. pt_abs k' (ms_table ?ms) w \<noteq> None"
      unfolding tab k'(2) using pages by (metis fun_upd_apply option.distinct(1))
    show "\<forall>w. pt_abs k' (ms_table ?ms) w \<noteq> None \<longrightarrow>
        w = TRAMPOLINE_VPN \<or> (\<exists>b \<in> set (areas ?ms). w \<in> area_pages b)"
      unfolding tab k'(2) pages using inv mem v unfolding ms_inv_def by (metis fun_upd_apply)
    show "\<forall>(w, f) \<in> trackers (areas ?ms). tracker_ok k' (ms_table ?ms) w f"
    proof (unfold tab, clarify)
      fix w f assume "(w, f) \<in> trackers ?as"
      then consider "w = v" "f = new" | "w \<noteq> v" "(w, f) \<in> trackers (areas ms)" unfolding tr by auto
      then show "tracker_ok k' (ms_table ms) w f"
      proof cases
        case 1
        then show ?thesis using new k' by (auto simp: tracker_ok_def)
      next
        case 2
        then have "tracker_ok k (ms_table ms) w f" using inv unfolding ms_inv_def by blast
        with 2 old [OF 2(2,1)] show ?thesis by (auto simp: tracker_ok_def k'(2))
      qed
    qed
    have fresh: "f \<noteq> new" if "(w, f) \<in> trackers (areas ms)" for w f
      using ms_inv_tracker [OF inv that] new(1) by (auto simp: tracker_ok_def)
    show "\<forall>x w f. (x, f) \<in> trackers (areas ?ms) \<longrightarrow> (w, f) \<in> trackers (areas ?ms) \<longrightarrow> x = w"
      unfolding tab tr using inv fresh unfolding ms_inv_def by blast
  qed
qed

text \<open>The entry a resolved fault writes: writable, private, otherwise with the old permissions.\<close>

lemma resolved_entry:
  fixes e :: page_table_entry
  assumes "unat (ppn_val p) < 2 ^ 44"
  defines "e' \<equiv> pte_new p (flags_insert (flags_insert (pte_flags e) PTE_W) PTE_V)"
  shows "pte_ppn e' = p" "pte_writable e'" "\<not> pte_is_cow e'" "pte_user_accessible e' = pte_user_accessible e"
    "pte_readable e' = pte_readable e" "pte_executable e' = pte_executable e"
  using assms(1)
  by (simp_all add: e'_def pte_new_ppn pte_writable_def pte_user_accessible_def pte_readable_def
      pte_executable_def flags_contains_bit flags_insert_def bit_or_iff bit_PTE_V bit_PTE_W)

subsection \<open>The write fault\<close>

lemma ref_count_one: "frame_ref_count k f = 1 \<longleftrightarrow> ref_counts (frames k) (ppn_val f) = Some 1"
  by (auto simp: frame_ref_count_def ref_count_def split: option.splits)

lemma frame_in_use_small: "fa_inv l (frames k) \<Longrightarrow> ref_counts (frames k) (ppn_val f) \<noteq> None \<Longrightarrow> unat (ppn_val f) < 2 ^ 44"
  using fa_in_use_range [of l "frames k" "ppn_val f"]
  by (auto simp: fa_inv_def word_less_nat_alt word_le_nat_alt)

lemma ms_inv_same_frame:
  assumes inv: "ms_inv l k ms" and e: "pt_abs k (ms_table ms) v = Some e" "pte_ppn e' = pte_ppn e"
    and k': "pt_inv l k' (ms_table ms)" "pt_abs k' (ms_table ms) = (pt_abs k (ms_table ms))(v \<mapsto> e')"
    and ref: "\<And>w f. (w, f) \<in> trackers (areas ms) \<Longrightarrow> ref_counts (frames k') (ppn_val f) \<noteq> None"
  shows "ms_inv l k' ms"
proof -
  have "tracker_ok k' (ms_table ms) w f" if "(w, f) \<in> trackers (areas ms)" for w f
    using ms_inv_tracker [OF inv that] ref [OF that] e k' by (auto simp: tracker_ok_def)
  moreover have "pt_abs k' (ms_table ms) w \<noteq> None \<longleftrightarrow> pt_abs k (ms_table ms) w \<noteq> None" for w
    using e k'(2) by simp
  ultimately show ?thesis using inv k'(1) unfolding ms_inv_def by (auto split: prod.splits)
qed

lemma cow_fault_exclusive:
  assumes inv: "ms_inv l k ms" and e: "pt_abs k (ms_table ms) (va_floor va) = Some e"
    and cow: "pte_user_accessible e" "pte_is_cow e" and one: "ref_counts (frames k) (ppn_val (pte_ppn e)) = Some 1"
  shows "\<exists>k'. handle_cow_fault k ms va = Some (True, ms, k') \<and> ms_inv l k' ms
    \<and> pt_abs k' (ms_table ms) = (pt_abs k (ms_table ms))(va_floor va \<mapsto>
         pte_new (pte_ppn e) (flags_insert (flags_insert (pte_flags e) PTE_W) PTE_V))
    \<and> ref_counts (frames k') = ref_counts (frames k)
    \<and> (\<forall>f. f \<notin> set (pt_frames (ms_table ms)) \<longrightarrow> phys k' f = phys k f)"
proof -
  note tr = pt_abs_SomeD [OF e]
  have fa: "fa_inv l (frames k)" using inv by (simp add: ms_inv_def pt_inv_def)
  have small: "unat (ppn_val (pte_ppn e)) < 2 ^ 44" using frame_in_use_small [OF fa] one by simp
  from resolve_cow_ok [OF ms_inv_pt [OF inv] e cow(2), of "pte_ppn e"] obtain k' where
    k': "resolve_cow k (ms_table ms) (va_floor va) (pte_ppn e) = Some k'" "pt_inv l k' (ms_table ms)"
    "pt_grow k (ms_table ms) k' (ms_table ms)"
    "pt_abs k' (ms_table ms) = (pt_abs k (ms_table ms))(va_floor va \<mapsto>
        pte_new (pte_ppn e) (flags_insert (flags_insert (pte_flags e) PTE_W) PTE_V))" by blast
  have "handle_cow_fault k ms va = Some (True, ms, k')"
    using tr(2,3) cow one k'(1) by (simp add: handle_cow_fault_def Let_def ref_count_one)
  moreover have same: "ref_counts (frames k') = ref_counts (frames k)"
    "\<forall>f. f \<notin> set (pt_frames (ms_table ms)) \<longrightarrow> phys k' f = phys k f" using k'(3) by (auto simp: pt_grow_def)
  moreover have "ms_inv l k' ms"
    using ms_inv_tracker [OF inv] same(1)
    by (intro ms_inv_same_frame [OF inv e resolved_entry(1) [OF small] k'(2,4)]) (simp add: tracker_ok_def)
  ultimately show ?thesis using k'(4) by blast
qed

lemma cow_fault_shared:
  assumes inv: "ms_inv l k ms" and e: "pt_abs k (ms_table ms) (va_floor va) = Some e"
    and cow: "pte_user_accessible e" "pte_is_cow e"
    and tr: "(va_floor va, pte_ppn e) \<in> trackers (areas ms)"
    and n: "ref_counts (frames k) (ppn_val (pte_ppn e)) = Some n" "n \<noteq> 1" and free: "0 < fa_free (frames k)"
  shows "\<exists>new ms' k'. handle_cow_fault k ms va = Some (True, ms', k') \<and> ms_inv l k' ms' \<and> ms_table ms' = ms_table ms
    \<and> pt_abs k' (ms_table ms) = (pt_abs k (ms_table ms))(va_floor va \<mapsto>
         pte_new new (flags_insert (flags_insert (pte_flags e) PTE_W) PTE_V))
    \<and> unat (ppn_val new) < 2 ^ 44 \<and> ref_counts (frames k) (ppn_val new) = None
    \<and> ref_counts (frames k') = (ref_counts (frames k))(ppn_val new \<mapsto> 1, ppn_val (pte_ppn e) \<mapsto> n - 1)
    \<and> phys k' new = phys k (pte_ppn e)
    \<and> (\<forall>f. f \<notin> set (pt_frames (ms_table ms)) \<longrightarrow> f \<noteq> new \<longrightarrow> phys k' f = phys k f)"
proof -
  let ?v = "va_floor va" and ?old = "pte_ppn e" and ?pt = "ms_table ms"
  note te = pt_abs_SomeD [OF e]
  have fa: "fa_inv l (frames k)" using inv by (simp add: ms_inv_def pt_inv_def)
  from frame_alloc_ok [OF fa free] obtain new k1 where f: "frame_alloc k = Some (Some new, k1)"
    "fa_inv l (frames k1)" "ref_counts (frames k) (ppn_val new) = None"
    "ref_counts (frames k1) = (ref_counts (frames k))(ppn_val new \<mapsto> 1)" "unat (ppn_val new) < 2 ^ 44"
    "phys k1 = (phys k)(new := (\<lambda>_. 0))" by blast
  have ne: "?old \<noteq> new" "ppn_val ?old \<noteq> ppn_val new" using n(1) f(3) by auto
  define k2 where "k2 = copy_page k1 new ?old"
  have k2: "frames k2 = frames k1" "phys k2 = (phys k)(new := phys k ?old)"
    using ne(1) f(6) by (auto simp: k2_def copy_page_def)
  have inv2: "pt_inv l k2 ?pt" "pt_abs k2 ?pt = pt_abs k ?pt" "new \<notin> set (pt_frames ?pt)"
    by (rule pt_inv_alloc [OF ms_inv_pt [OF inv] _ f(3) _ k2(2)], simp_all add: k2(1) f(2,4))+
  from tr obtain i where i: "i < length (areas ms)" "data_frames (areas ms ! i) ?v = Some ?old"
    by (auto simp: trackers_def in_set_conv_nth)
  have wf: "area_wf (areas ms ! i)" and dis: "areas_disjoint (areas ms)" using inv i(1) by (auto simp: ms_inv_def)
  have ty: "area_type (areas ms ! i) = Framed" and vi: "?v \<in> area_pages (areas ms ! i)"
    using wf i(2) by (auto simp: area_wf_def split: if_splits)
  have cov: "area_covers a w \<longleftrightarrow> w \<in> area_pages a" for a w by (simp add: area_covers_def area_pages_def)
  have pos: "position (\<lambda>a. area_covers a ?v) (areas ms) = Some i"
  proof -
    have "position (\<lambda>a. area_covers a ?v) (areas ms) \<noteq> None" using i(1) vi cov by auto
    then obtain j where j: "position (\<lambda>a. area_covers a ?v) (areas ms) = Some j" by blast
    from position_SomeD [OF j] have "j = i" using areas_disjoint_unique [OF dis _ i(1) _ vi] cov by blast
    with j show ?thesis by simp
  qed
  have e2: "pt_abs k2 ?pt ?v = Some e" using inv2(2) e by simp
  from resolve_cow_ok [OF inv2(1) e2 cow(2), of new] obtain k3 where
    k3: "resolve_cow k2 ?pt ?v new = Some k3" "pt_inv l k3 ?pt" "pt_grow k2 ?pt k3 ?pt"
    "pt_abs k3 ?pt = (pt_abs k2 ?pt)(?v \<mapsto> pte_new new (flags_insert (flags_insert (pte_flags e) PTE_W) PTE_V))" by blast
  have same: "ref_counts (frames k3) = ref_counts (frames k2)"
    "\<forall>g. g \<notin> set (pt_frames ?pt) \<longrightarrow> phys k3 g = phys k2 g" using k3(3) by (auto simp: pt_grow_def)
  have oldn: "ref_counts (frames k3) (ppn_val ?old) = Some n" using same(1) k2(1) f(4) n(1) ne by simp
  have oldt: "?old \<notin> set (pt_frames ?pt)" using ms_inv_tracker [OF inv tr] by (simp add: tracker_ok_def)
  from frame_dealloc_pt [OF k3(2) oldn oldt] obtain k4 where k4: "frame_dealloc k3 ?old = Some k4" "pt_inv l k4 ?pt"
    "pt_abs k4 ?pt = pt_abs k3 ?pt" "ref_counts (frames k4) = (ref_counts (frames k3))(ppn_val ?old := dec_ref (Some n))"
    "phys k4 = phys k3" by blast
  let ?e = "pte_new new (flags_insert (flags_insert (pte_flags e) PTE_W) PTE_V)"
  let ?ms = "ms\<lparr>areas := (areas ms)[i := (areas ms ! i)\<lparr>data_frames := (data_frames (areas ms ! i))(?v \<mapsto> new)\<rparr>]\<rparr>"
  have "handle_cow_fault k ms va = Some (True, ?ms, k4)"
    using te(2,3) cow n f(1) pos ty i(2) k3(1) k4(1)
    by (simp add: handle_cow_fault_def Let_def ref_count_one k2_def [symmetric])
  moreover have rc: "ref_counts (frames k4) = (ref_counts (frames k))(ppn_val new \<mapsto> 1, ppn_val ?old \<mapsto> n - 1)"
    using k4(4) same(1) k2(1) f(4) n(2) by (simp add: dec_ref_def)
  moreover have abs4: "pt_abs k4 ?pt = (pt_abs k ?pt)(?v \<mapsto> ?e)" using k4(3) k3(4) inv2(2) by simp
  moreover have "ms_inv l k4 ?ms"
  proof (rule ms_inv_retarget [OF inv i(1) ty vi k4(2) abs4 resolved_entry(1) [OF f(5)] f(3) _ inv2(3)])
    show "ref_counts (frames k4) (ppn_val new) \<noteq> None" using rc ne by simp
    fix w g assume "(w, g) \<in> trackers (areas ms)" "w \<noteq> ?v"
    then have "ref_counts (frames k) (ppn_val g) \<noteq> None" using inv by (auto simp: ms_inv_def tracker_ok_def)
    then show "ref_counts (frames k4) (ppn_val g) \<noteq> None" using rc by auto
  qed
  moreover have "phys k4 new = phys k ?old" using k4(5) same(2) inv2(3) k2(2) by simp
  moreover have "phys k4 g = phys k g" if "g \<notin> set (pt_frames ?pt)" "g \<noteq> new" for g
    using k4(5) same(2) k2(2) that by simp
  ultimately show ?thesis using f(3,5) by (intro exI [of _ new] exI [of _ ?ms] exI [of _ k4]) simp
qed

subsection \<open>One page of a fork\<close>

lemma frame_add_ref_pt:
  assumes inv: "pt_inv l k pt" and n: "ref_counts (frames k) (ppn_val f) = Some n" "n + 1 \<noteq> 0"
    and nf: "f \<notin> set (pt_frames pt)"
  shows "\<exists>k'. frame_add_ref k f = Some k' \<and> pt_inv l k' pt \<and> pt_abs k' pt = pt_abs k pt"
    and "\<exists>k'. frame_add_ref k f = Some k' \<and> ref_counts (frames k') = (ref_counts (frames k))(ppn_val f \<mapsto> n + 1)
      \<and> phys k' = phys k \<and> fa_free (frames k') = fa_free (frames k)"
proof -
  have fa: "fa_inv l (frames k)" using inv by (simp add: pt_inv_def)
  from add_ref_ok [OF fa n] obtain fa' where fa': "add_ref (frames k) f = Some fa'" "fa_inv l fa'"
    "ref_counts fa' = (ref_counts (frames k))(ppn_val f \<mapsto> n + 1)" by blast
  let ?k = "k\<lparr>frames := fa'\<rparr>"
  have add: "frame_add_ref k f = Some ?k" using fa'(1) by (simp add: frame_add_ref_def)
  have free: "fa_free fa' = fa_free (frames k)" using fa'(1) n(1) by (auto simp: add_ref_def fa_free_def)
  have ne: "ppn_val g \<noteq> ppn_val f" if "g \<in> set (pt_frames pt)" for g
    using that nf by (metis phys_page_num.expand)
  have "node ?k p is = node k p is" for p "is" by (rule node_phys_cong) simp
  with inv fa' ne have "pt_inv l ?k pt" unfolding pt_inv_def by auto
  moreover have "pt_abs ?k pt = pt_abs k pt" using inv by (rule pt_abs_frame) simp
  ultimately show "\<exists>k'. frame_add_ref k f = Some k' \<and> pt_inv l k' pt \<and> pt_abs k' pt = pt_abs k pt"
    using add by blast
  show "\<exists>k'. frame_add_ref k f = Some k' \<and> ref_counts (frames k') = (ref_counts (frames k))(ppn_val f \<mapsto> n + 1)
      \<and> phys k' = phys k \<and> fa_free (frames k') = fa_free (frames k)"
    using add fa' free by simp
qed

text \<open>
  The effect of one page of the loop: the parent's entry may turn copy-on-write, the child gets an
  entry, the frame behind it is either the shared one or new, and frames in use keep their contents.
\<close>

definition fork_step :: "usize \<Rightarrow> kmem \<Rightarrow> page_table \<Rightarrow> page_table \<Rightarrow> virt_page_num \<Rightarrow> phys_page_num
    \<Rightarrow> page_table_entry \<Rightarrow> page_table_entry \<Rightarrow> page_table_entry \<Rightarrow> page_table \<Rightarrow> kmem \<Rightarrow> bool" where
  "fork_step l k P C v f e e' c C' k' \<longleftrightarrow>
     pt_inv l k' P \<and> pt_inv l k' C' \<and> set (pt_frames P) \<inter> set (pt_frames C') = {}
     \<and> pt_abs k' P = (pt_abs k P)(v \<mapsto> e') \<and> pt_abs k' C' = (pt_abs k C)(v \<mapsto> c)
     \<and> pte_ppn e' = pte_ppn e \<and> pte_ppn c = f
     \<and> ref_counts (frames k') (ppn_val f) \<noteq> None \<and> f \<notin> set (pt_frames P) \<and> f \<notin> set (pt_frames C')
     \<and> phys k' f = phys k (pte_ppn e) \<and> fa_free (frames k) \<le> fa_free (frames k') + 3
     \<and> (\<forall>g. ref_counts (frames k) (ppn_val g) \<noteq> None \<longrightarrow> g \<noteq> f \<longrightarrow>
          ref_counts (frames k') (ppn_val g) = ref_counts (frames k) (ppn_val g))
     \<and> (\<forall>g. ref_counts (frames k) (ppn_val g) \<noteq> None \<longrightarrow> g \<notin> set (pt_frames P) \<longrightarrow> g \<notin> set (pt_frames C) \<longrightarrow>
          phys k' g = phys k g \<and> g \<notin> set (pt_frames C'))"

lemma cow_flags:
  assumes "unat (ppn_val p) < 2 ^ 44" and "pte_ppn e = p"
  shows "pte_ppn (pte_new_cow p (flags_insert (flags_remove (pte_flags e) PTE_W) PTE_V)) = p"
    and "\<not> pte_writable (pte_new_cow p (flags_insert (flags_remove (pte_flags e) PTE_W) PTE_V))"
    and "pte_user_accessible (pte_new_cow p (flags_insert (flags_remove (pte_flags e) PTE_W) PTE_V)) = pte_user_accessible e"
    and "pte_readable (pte_new_cow p (flags_insert (flags_remove (pte_flags e) PTE_W) PTE_V)) = pte_readable e"
    and "pte_executable (pte_new_cow p (flags_insert (flags_remove (pte_flags e) PTE_W) PTE_V)) = pte_executable e"
    and "\<not> pte_writable (pte_new_cow p (flags_remove (pte_flags e) PTE_W))"
    and "pte_ppn (pte_new_cow p (flags_remove (pte_flags e) PTE_W)) = p"
  using assms
  by (simp_all add: pte_new_cow_ppn pte_writable_def pte_user_accessible_def pte_readable_def
      pte_executable_def flags_contains_bit flags_insert_def flags_remove_def bit_or_iff bit_and_iff
      bit_not_iff bit_PTE_V bit_PTE_W)

lemma cow_page_writable_ok:
  assumes P: "pt_inv l k P" and C: "pt_inv l k C" and dis: "set (pt_frames P) \<inter> set (pt_frames C) = {}"
    and e: "pt_abs k P v = Some e" "pte_user_accessible e" "pte_writable e \<or> pte_is_cow e" "\<not> (pte_is_cow e \<and> pte_writable e)"
    and a: "area_type a = Framed" "data_frames a v = Some (pte_ppn e)" "data_frames na v = None"
    and f: "ref_counts (frames k) (ppn_val (pte_ppn e)) = Some n" "n + 1 \<noteq> 0"
      "pte_ppn e \<notin> set (pt_frames P)" "pte_ppn e \<notin> set (pt_frames C)"
    and C0: "pt_abs k C v = None" and free: "2 \<le> fa_free (frames k)"
  shows "\<exists>e' c C' k'. cow_page k P a C na v = Some (na\<lparr>data_frames := (data_frames na)(v \<mapsto> pte_ppn e)\<rparr>, C', k')
    \<and> fork_step l k P C v (pte_ppn e) e e' c C' k' \<and> \<not> pte_writable e' \<and> pte_is_cow e' \<and> \<not> pte_writable c \<and> pte_is_cow c
    \<and> pte_user_accessible c \<and> pte_readable c = pte_readable e \<and> pte_executable c = pte_executable e
    \<and> ref_counts (frames k') (ppn_val (pte_ppn e)) = Some (n + 1)"
proof -
  let ?f = "pte_ppn e"
  note te = pt_abs_SomeD [OF e(1)]
  have fa: "fa_inv l (frames k)" using P by (simp add: pt_inv_def)
  have small: "unat (ppn_val ?f) < 2 ^ 44" using frame_in_use_small [OF fa] f(1) by simp
  obtain k1 where k1: "frame_add_ref k ?f = Some k1" "pt_inv l k1 P" "pt_abs k1 P = pt_abs k P"
    "pt_inv l k1 C" "pt_abs k1 C = pt_abs k C" "ref_counts (frames k1) = (ref_counts (frames k))(ppn_val ?f \<mapsto> n + 1)"
    "phys k1 = phys k" "fa_free (frames k1) = fa_free (frames k)"
    using frame_add_ref_pt [OF P f(1,2,3)] frame_add_ref_pt [OF C f(1,2,4)] by auto
  have e1: "pt_abs k1 P v = Some e" using k1(3) e(1) by simp
  have neq: "pte_is_cow e \<noteq> pte_writable e" using e(3,4) by blast
  define e' where "e' = (if pte_is_cow e then e else pte_new_cow ?f (flags_remove (pte_flags e) PTE_W))"
  from mark_cow_ok [OF k1(2) e1 neq] obtain k2 where k2: "mark_cow k1 P v = Some k2" "pt_inv l k2 P"
    "pt_grow k1 P k2 P" "pt_abs k2 P = (pt_abs k P)(v \<mapsto> e')" by (auto simp: e'_def k1(3))
  have same2: "ref_counts (frames k2) = ref_counts (frames k1)" "fa_free (frames k2) = fa_free (frames k1)"
    "\<forall>g. g \<notin> set (pt_frames P) \<longrightarrow> phys k2 g = phys k1 g" using k2(3) by (auto simp: pt_grow_def)
  have fa2: "fa_inv l (frames k2)" using k2(2) by (simp add: pt_inv_def)
  have disC: "set (pt_frames C) \<inter> set (pt_frames P) = {}" using dis by blast
  note C2 = grows_other_table [OF k1(4) fa2 pt_grow_grows [OF k2(3)] disC]
  have c0: "pt_abs k2 C v = None" "2 \<le> fa_free (frames k2)" using C2(2) k1(5,8) C0 same2(2) free by simp_all
  define c where "c = pte_new_cow ?f (flags_insert (flags_remove (pte_flags e) PTE_W) PTE_V)"
  from map_cow_ok [OF C2(1) c0(2) te(1) c0(1), of ?f "pte_flags e"] obtain C' k3 where
    k3: "map_cow k2 C v ?f (pte_flags e) = Some (C', k3)" "pt_inv l k3 C'" "pt_grow k2 C k3 C'"
    "pt_abs k3 C' = (pt_abs k C)(v \<mapsto> c)" by (auto simp: c_def C2(2) k1(5))
  have fa3: "fa_inv l (frames k3)" using k3(2) by (simp add: pt_inv_def)
  note P3 = grows_other_table [OF k2(2) fa3 pt_grow_grows [OF k3(3)] dis]
  have keep: "ref_counts (frames k3) (ppn_val g) = ref_counts (frames k2) (ppn_val g)"
    "g \<notin> set (pt_frames C) \<Longrightarrow> g \<notin> set (pt_frames C') \<and> phys k3 g = phys k2 g"
    if "ref_counts (frames k2) (ppn_val g) \<noteq> None" for g
    using growsD [OF pt_grow_grows [OF k3(3)] that] by auto
  have rc: "ref_counts (frames k2) (ppn_val g) = (if g = ?f then Some (n + 1) else ref_counts (frames k) (ppn_val g))" for g
    using same2(1) k1(6) phys_page_num.expand [of g ?f] by auto
  have "cow_page k P a C na v = Some (na\<lparr>data_frames := (data_frames na)(v \<mapsto> ?f)\<rparr>, C', k3)"
    using te(3) e a k1(1) k2(1) k3(1) by (simp add: cow_page_def Let_def insert_frame_def)
  moreover have "fork_step l k P C v ?f e e' c C' k3"
    unfolding fork_step_def
  proof (intro conjI allI impI)
    show "pte_ppn e' = ?f" "pte_ppn c = ?f" using cow_flags(1,7) [OF small refl] by (simp_all add: e'_def c_def)
    show "phys k3 ?f = phys k ?f" "?f \<notin> set (pt_frames C')" "ref_counts (frames k3) (ppn_val ?f) \<noteq> None"
      using keep [of ?f] rc [of ?f] f(3,4) same2(3) k1(7) by simp_all
    show "fa_free (frames k) \<le> fa_free (frames k3) + 3" using pt_grow_free [OF k3(3)] same2(2) k1(8) by simp
    fix g assume g: "ref_counts (frames k) (ppn_val g) \<noteq> None"
    show "ref_counts (frames k3) (ppn_val g) = ref_counts (frames k) (ppn_val g)" if "g \<noteq> ?f"
      using keep(1) [of g] rc [of g] g that by simp
    show "phys k3 g = phys k g" "g \<notin> set (pt_frames C')" if "g \<notin> set (pt_frames P)" "g \<notin> set (pt_frames C)"
      using keep(2) [of g] rc [of g] g that same2(3) k1(7) by (auto split: if_splits)
  qed (use k3 P3 k2 f(3) in auto)
  moreover have "ref_counts (frames k3) (ppn_val ?f) = Some (n + 1)" using keep(1) [of ?f] rc [of ?f] by simp
  ultimately show ?thesis
    using e(2,4) cow_flags [OF small refl] neq
    by (intro exI [of _ e'] exI [of _ c] exI [of _ C'] exI [of _ k3]) (auto simp: c_def e'_def)
qed

lemma pte_new_from_flags:
  assumes "unat (ppn_val p) < 2 ^ 44"
  shows "pte_ppn (pte_new p (pte_flags e OR PTE_V)) = p"
    and "pte_writable (pte_new p (pte_flags e OR PTE_V)) = pte_writable e"
    and "pte_user_accessible (pte_new p (pte_flags e OR PTE_V)) = pte_user_accessible e"
    and "pte_readable (pte_new p (pte_flags e OR PTE_V)) = pte_readable e"
    and "pte_executable (pte_new p (pte_flags e OR PTE_V)) = pte_executable e"
  using assms
  by (simp_all add: pte_new_ppn pte_writable_def pte_user_accessible_def pte_readable_def
      pte_executable_def flags_contains_bit bit_or_iff bit_PTE_V)

lemma cow_page_readonly_ok:
  assumes P: "pt_inv l k P" and C: "pt_inv l k C" and dis: "set (pt_frames P) \<inter> set (pt_frames C) = {}"
    and e: "pt_abs k P v = Some e" "pte_user_accessible e" "\<not> pte_writable e" "\<not> pte_is_cow e"
    and a: "area_type a = Framed" "data_frames a v = Some (pte_ppn e)" "data_frames na v = None"
    and f: "ref_counts (frames k) (ppn_val (pte_ppn e)) = Some n" "n + 1 \<noteq> 0"
      "pte_ppn e \<notin> set (pt_frames P)" "pte_ppn e \<notin> set (pt_frames C)"
    and C0: "pt_abs k C v = None" and free: "2 \<le> fa_free (frames k)"
  shows "\<exists>c C' k'. cow_page k P a C na v = Some (na\<lparr>data_frames := (data_frames na)(v \<mapsto> pte_ppn e)\<rparr>, C', k')
    \<and> fork_step l k P C v (pte_ppn e) e e c C' k' \<and> \<not> pte_writable c \<and> \<not> pte_is_cow c
    \<and> pte_user_accessible c \<and> pte_readable c = pte_readable e \<and> pte_executable c = pte_executable e
    \<and> ref_counts (frames k') (ppn_val (pte_ppn e)) = Some (n + 1)"
proof -
  let ?f = "pte_ppn e"
  note te = pt_abs_SomeD [OF e(1)]
  have fa: "fa_inv l (frames k)" using P by (simp add: pt_inv_def)
  have small: "unat (ppn_val ?f) < 2 ^ 44" using frame_in_use_small [OF fa] f(1) by simp
  obtain k1 where k1: "frame_add_ref k ?f = Some k1" "pt_inv l k1 P" "pt_abs k1 P = pt_abs k P"
    "pt_inv l k1 C" "pt_abs k1 C = pt_abs k C" "ref_counts (frames k1) = (ref_counts (frames k))(ppn_val ?f \<mapsto> n + 1)"
    "phys k1 = phys k" "fa_free (frames k1) = fa_free (frames k)"
    using frame_add_ref_pt [OF P f(1,2,3)] frame_add_ref_pt [OF C f(1,2,4)] by auto
  have c0: "pt_abs k1 C v = None" "2 \<le> fa_free (frames k1)" using k1(5,8) C0 free by simp_all
  define c where "c = pte_new ?f (pte_flags e OR PTE_V)"
  from pt_map_ok [OF k1(4) c0(2) te(1) c0(1), of ?f "pte_flags e"] obtain C' k3 where
    k3: "pt_map k1 C v ?f (pte_flags e) = Some (C', k3)" "pt_inv l k3 C'" "pt_grow k1 C k3 C'"
    "pt_abs k3 C' = (pt_abs k C)(v \<mapsto> c)" by (auto simp: c_def k1(5))
  have fa3: "fa_inv l (frames k3)" using k3(2) by (simp add: pt_inv_def)
  note P3 = grows_other_table [OF k1(2) fa3 pt_grow_grows [OF k3(3)] dis]
  have keep: "ref_counts (frames k3) (ppn_val g) = ref_counts (frames k1) (ppn_val g)"
    "g \<notin> set (pt_frames C) \<Longrightarrow> g \<notin> set (pt_frames C') \<and> phys k3 g = phys k1 g"
    if "ref_counts (frames k1) (ppn_val g) \<noteq> None" for g
    using growsD [OF pt_grow_grows [OF k3(3)] that] by auto
  have rc: "ref_counts (frames k1) (ppn_val g) = (if g = ?f then Some (n + 1) else ref_counts (frames k) (ppn_val g))" for g
    using k1(6) phys_page_num.expand [of g ?f] by auto
  have "cow_page k P a C na v = Some (na\<lparr>data_frames := (data_frames na)(v \<mapsto> ?f)\<rparr>, C', k3)"
    using te(3) e a k1(1) k3(1) by (simp add: cow_page_def Let_def insert_frame_def)
  moreover have "fork_step l k P C v ?f e e c C' k3"
    unfolding fork_step_def
  proof (intro conjI allI impI)
    show "pte_ppn c = ?f" using pte_new_from_flags(1) [OF small] by (simp add: c_def)
    show "phys k3 ?f = phys k ?f" "?f \<notin> set (pt_frames C')" "ref_counts (frames k3) (ppn_val ?f) \<noteq> None"
      using keep [of ?f] rc [of ?f] f(3,4) k1(7) by simp_all
    show "fa_free (frames k) \<le> fa_free (frames k3) + 3" using pt_grow_free [OF k3(3)] k1(8) by simp
    show "pt_abs k3 P = (pt_abs k P)(v \<mapsto> e)" using P3(2) k1(3) e(1) by auto
    fix g assume g: "ref_counts (frames k) (ppn_val g) \<noteq> None"
    show "ref_counts (frames k3) (ppn_val g) = ref_counts (frames k) (ppn_val g)" if "g \<noteq> ?f"
      using keep(1) [of g] rc [of g] g that by simp
    show "phys k3 g = phys k g" "g \<notin> set (pt_frames C')" if "g \<notin> set (pt_frames P)" "g \<notin> set (pt_frames C)"
      using keep(2) [of g] rc [of g] g that k1(7) by (auto split: if_splits)
  qed (use k3 P3 f(3) in auto)
  moreover have "ref_counts (frames k3) (ppn_val ?f) = Some (n + 1)" using keep(1) [of ?f] rc [of ?f] by simp
  ultimately show ?thesis
    using e pte_new_from_flags [OF small, of e]
    by (intro exI [of _ c] exI [of _ C'] exI [of _ k3]) (auto simp: c_def)
qed

lemma cow_page_kernel_ok:
  assumes P: "pt_inv l k P" and C: "pt_inv l k C" and dis: "set (pt_frames P) \<inter> set (pt_frames C) = {}"
    and e: "pt_abs k P v = Some e" "\<not> pte_user_accessible e"
    and a: "area_type na = Framed" "data_frames na v = None"
    and f: "ref_counts (frames k) (ppn_val (pte_ppn e)) \<noteq> None" "pte_ppn e \<notin> set (pt_frames P)" "pte_ppn e \<notin> set (pt_frames C)"
    and C0: "pt_abs k C v = None" and free: "3 \<le> fa_free (frames k)"
  shows "\<exists>g C' k'. cow_page k P a C na v = Some (na\<lparr>data_frames := (data_frames na)(v \<mapsto> g)\<rparr>, C', k')
    \<and> fork_step l k P C v g e e (pte_new g (map_perm na OR PTE_V)) C' k' \<and> ref_counts (frames k) (ppn_val g) = None
    \<and> ref_counts (frames k') (ppn_val g) = Some 1 \<and> unat (ppn_val g) < 2 ^ 44"
proof -
  note te = pt_abs_SomeD [OF e(1)]
  from map_one_framed_ok [OF C a(1) free te(1) C0 a(2)] obtain g C' k1 where
    m: "map_one k C na v = Some (na\<lparr>data_frames := (data_frames na)(v \<mapsto> g)\<rparr>, C', k1)"
    "pt_inv l k1 C'" "pt_abs k1 C' = (pt_abs k C)(v \<mapsto> pte_new g (map_perm na OR PTE_V))" "grows k C k1 C'"
    "ref_counts (frames k) (ppn_val g) = None" "ref_counts (frames k1) (ppn_val g) = Some 1"
    "g \<notin> set (pt_frames C')" "unat (ppn_val g) < 2 ^ 44" "fa_free (frames k) \<le> fa_free (frames k1) + 3" by blast
  let ?c = "pte_new g (map_perm na OR PTE_V)"
  have fa1: "fa_inv l (frames k1)" using m(2) by (simp add: pt_inv_def)
  note P1 = grows_other_table [OF P fa1 m(4) dis]
  have gP: "g \<notin> set (pt_frames P)" using pt_inv_ref [OF P, of g] m(5) by auto
  have ge: "g \<noteq> pte_ppn e" using f(1) m(5) by auto
  have cg: "pte_ppn ?c = g" using m(8) by (rule pte_new_ppn)
  define k2 where "k2 = copy_page k1 g (pte_ppn e)"
  have k2: "frames k2 = frames k1" "phys k2 = (phys k1)(g := phys k1 (pte_ppn e))" by (simp_all add: k2_def copy_page_def)
  have frame: "pt_inv l k2 pt \<and> pt_abs k2 pt = pt_abs k1 pt" if "pt_inv l k1 pt" "g \<notin> set (pt_frames pt)" for pt
  proof -
    have ph: "phys k2 h = phys k1 h" if "h \<in> set (pt_frames pt)" for h using that \<open>g \<notin> set (pt_frames pt)\<close> by (auto simp: k2)
    have "node k2 (root_ppn pt) is = node k1 (root_ppn pt) is" if "table_path is" for "is"
      using pt_node_frame [OF \<open>pt_inv l k1 pt\<close> ph that] .
    then have "pt_inv l k2 pt" using \<open>pt_inv l k1 pt\<close> unfolding pt_inv_def k2(1) by simp
    moreover have "pt_abs k2 pt = pt_abs k1 pt" using \<open>pt_inv l k1 pt\<close> ph by (rule pt_abs_frame)
    ultimately show ?thesis by simp
  qed
  have tr: "pt_translate k1 C' v = Some ?c" by (rule pt_abs_SomeD(3)) (simp add: m(3))
  have "cow_page k P a C na v = Some (na\<lparr>data_frames := (data_frames na)(v \<mapsto> g)\<rparr>, C', k2)"
    using te(3) e(2) m(1) tr cg by (simp add: cow_page_def Let_def k2_def)
  moreover have "fork_step l k P C v g e e ?c C' k2"
    unfolding fork_step_def
  proof (intro conjI allI impI)
    show "pt_abs k2 P = (pt_abs k P)(v \<mapsto> e)" using frame [OF P1(1) gP] P1(2) e(1) by auto
    show "phys k2 g = phys k (pte_ppn e)" using k2(2) growsD(3) [OF m(4) f(1,3)] by simp
    fix h assume h: "ref_counts (frames k) (ppn_val h) \<noteq> None"
    then have hg: "h \<noteq> g" using m(5) by auto
    show "ref_counts (frames k2) (ppn_val h) = ref_counts (frames k) (ppn_val h)"
      using growsD(1) [OF m(4) h] by (simp add: k2(1))
    show "phys k2 h = phys k h" "h \<notin> set (pt_frames C')" if "h \<notin> set (pt_frames C)"
      using growsD(2,3) [OF m(4) h that] hg by (simp_all add: k2(2))
  qed (use frame m P1 gP cg in \<open>auto simp: k2(1)\<close>)
  ultimately show ?thesis using m(5,6,8) k2(1) by auto
qed

subsection \<open>The loop of a fork\<close>

text \<open>
  What the fork guarantees of a page: parent and child see the contents the parent had. A user
  page is shared and neither side may write it; it is copy-on-write on both sides if the parent
  could write it or it already was. A kernel-only page is a private copy.
\<close>

definition snapshot :: "kmem \<Rightarrow> kmem \<Rightarrow> page_table \<Rightarrow> page_table \<Rightarrow> virt_page_num \<Rightarrow> bool" where
  "snapshot k0 k P C v \<longleftrightarrow> (\<exists>e0 e c. pt_abs k0 P v = Some e0 \<and> pt_abs k P v = Some e \<and> pt_abs k C v = Some c
     \<and> pte_ppn e = pte_ppn e0 \<and> phys k (pte_ppn e) = phys k0 (pte_ppn e0) \<and> phys k (pte_ppn c) = phys k0 (pte_ppn e0)
     \<and> (if pte_user_accessible e0
        then pte_ppn c = pte_ppn e0 \<and> \<not> pte_writable c \<and> \<not> pte_writable e
          \<and> pte_is_cow c = (pte_writable e0 \<or> pte_is_cow e0) \<and> pte_is_cow e = (pte_writable e0 \<or> pte_is_cow e0)
          \<and> pte_user_accessible c \<and> pte_readable c = pte_readable e0 \<and> pte_executable c = pte_executable e0
        else e = e0 \<and> pte_ppn c \<noteq> pte_ppn e0))"

text \<open>The state of the loop after the pages \<open>D\<close>, with the child's trackers \<open>T\<close>.\<close>

definition fork_tables :: "usize \<Rightarrow> kmem \<Rightarrow> memory_set \<Rightarrow> page_table \<Rightarrow> bool" where
  "fork_tables l k ms C \<longleftrightarrow> ms_inv l k ms \<and> pt_inv l k C \<and> set (pt_frames (ms_table ms)) \<inter> set (pt_frames C) = {}
     \<and> (\<forall>w f. (w, f) \<in> trackers (areas ms) \<longrightarrow> f \<notin> set (pt_frames C))"

definition fork_child :: "kmem \<Rightarrow> kmem \<Rightarrow> memory_set \<Rightarrow> page_table
    \<Rightarrow> (virt_page_num \<times> phys_page_num) set \<Rightarrow> virt_page_num set \<Rightarrow> bool" where
  "fork_child k0 k ms C T D \<longleftrightarrow>
     (\<forall>w f. (w, f) \<in> T \<longrightarrow> tracker_ok k C w f \<and> f \<notin> set (pt_frames (ms_table ms))
          \<and> ((w, f) \<in> trackers (areas ms) \<or> ref_counts (frames k0) (ppn_val f) = None))
     \<and> (\<forall>w w' f. (w, f) \<in> T \<longrightarrow> (w', f) \<in> T \<longrightarrow> w = w')
     \<and> (\<forall>w \<in> D. \<exists>f. (w, f) \<in> T)
     \<and> (\<forall>w. pt_abs k C w \<noteq> None \<longleftrightarrow> w = TRAMPOLINE_VPN \<or> w \<in> D)"

definition fork_parent :: "kmem \<Rightarrow> kmem \<Rightarrow> memory_set \<Rightarrow> virt_page_num set \<Rightarrow> bool" where
  "fork_parent k0 k ms D \<longleftrightarrow>
     (\<forall>w \<in> D. \<exists>f. (w, f) \<in> trackers (areas ms))
     \<and> (\<forall>w. w \<notin> D \<longrightarrow> pt_abs k (ms_table ms) w = pt_abs k0 (ms_table ms) w)
     \<and> (\<forall>f. ref_counts (frames k0) (ppn_val f) \<noteq> None \<longrightarrow> ref_counts (frames k) (ppn_val f) \<noteq> None)
     \<and> (\<forall>w f. (w, f) \<in> trackers (areas ms) \<longrightarrow> phys k f = phys k0 f
          \<and> (w \<notin> D \<longrightarrow> ref_counts (frames k) (ppn_val f) = ref_counts (frames k0) (ppn_val f)))"

definition fork_inv :: "usize \<Rightarrow> kmem \<Rightarrow> kmem \<Rightarrow> memory_set \<Rightarrow> page_table
    \<Rightarrow> (virt_page_num \<times> phys_page_num) set \<Rightarrow> virt_page_num set \<Rightarrow> bool" where
  "fork_inv l k0 k ms C T D \<longleftrightarrow> fork_tables l k ms C \<and> fork_child k0 k ms C T D \<and> fork_parent k0 k ms D
     \<and> (\<forall>w \<in> D. snapshot k0 k (ms_table ms) C w)"

lemma snapshot_step:
  assumes "snapshot k0 k P C w" "w \<noteq> v" "fork_step l k P C v f e e' c C' k'"
    and "\<And>x. pt_abs k P w = Some x \<or> pt_abs k C w = Some x \<Longrightarrow> ref_counts (frames k) (ppn_val (pte_ppn x)) \<noteq> None
      \<and> pte_ppn x \<notin> set (pt_frames P) \<and> pte_ppn x \<notin> set (pt_frames C)"
  shows "snapshot k0 k' P C' w"
proof -
  from assms(3) have abs: "pt_abs k' P = (pt_abs k P)(v \<mapsto> e')" "pt_abs k' C' = (pt_abs k C)(v \<mapsto> c)"
    and ph: "\<And>g. ref_counts (frames k) (ppn_val g) \<noteq> None \<Longrightarrow> g \<notin> set (pt_frames P) \<Longrightarrow> g \<notin> set (pt_frames C) \<Longrightarrow>
          phys k' g = phys k g" unfolding fork_step_def by blast+
  from assms(1) obtain e0 x y where *: "pt_abs k0 P w = Some e0" "pt_abs k P w = Some x" "pt_abs k C w = Some y"
    unfolding snapshot_def by blast
  have "phys k' (pte_ppn x) = phys k (pte_ppn x)" "phys k' (pte_ppn y) = phys k (pte_ppn y)"
    using ph assms(4) * by blast+
  with assms(1,2) * abs show ?thesis unfolding snapshot_def by auto
qed

lemma fork_step_inv:
  assumes inv: "fork_inv l k0 k ms C T D" and v: "v \<notin> D" "v \<noteq> TRAMPOLINE_VPN"
    and e: "pt_abs k (ms_table ms) v = Some e" "(v, pte_ppn e) \<in> trackers (areas ms)"
    and st: "fork_step l k (ms_table ms) C v f e e' c C' k'"
    and f: "f = pte_ppn e \<or> ref_counts (frames k) (ppn_val f) = None"
    and snap: "if pte_user_accessible e
        then pte_ppn c = pte_ppn e \<and> \<not> pte_writable c \<and> \<not> pte_writable e'
          \<and> pte_is_cow c = (pte_writable e \<or> pte_is_cow e) \<and> pte_is_cow e' = (pte_writable e \<or> pte_is_cow e)
          \<and> pte_user_accessible c \<and> pte_readable c = pte_readable e \<and> pte_executable c = pte_executable e
        else e' = e \<and> pte_ppn c \<noteq> pte_ppn e"
  shows "fork_inv l k0 k' ms C' (insert (v, f) T) (insert v D)"
proof -
  let ?P = "ms_table ms"
  from inv have tabs: "fork_tables l k ms C" and chi: "fork_child k0 k ms C T D" and par: "fork_parent k0 k ms D"
    and sn: "\<And>w. w \<in> D \<Longrightarrow> snapshot k0 k ?P C w" by (simp_all add: fork_inv_def)
  from tabs have I: "ms_inv l k ms" "pt_inv l k C" "set (pt_frames ?P) \<inter> set (pt_frames C) = {}"
    and trC: "\<And>w g. (w, g) \<in> trackers (areas ms) \<Longrightarrow> g \<notin> set (pt_frames C)" by (simp_all add: fork_tables_def)
  have S: "pt_inv l k' ?P" "pt_inv l k' C'" "set (pt_frames ?P) \<inter> set (pt_frames C') = {}"
    "pt_abs k' ?P = (pt_abs k ?P)(v \<mapsto> e')" "pt_abs k' C' = (pt_abs k C)(v \<mapsto> c)"
    "pte_ppn e' = pte_ppn e" "pte_ppn c = f" "ref_counts (frames k') (ppn_val f) \<noteq> None"
    "f \<notin> set (pt_frames ?P)" "f \<notin> set (pt_frames C')" "phys k' f = phys k (pte_ppn e)"
    using st unfolding fork_step_def by simp_all
  have keep: "ref_counts (frames k') (ppn_val g) = ref_counts (frames k) (ppn_val g)"
    if "ref_counts (frames k) (ppn_val g) \<noteq> None" "g \<noteq> f" for g using st that unfolding fork_step_def by simp
  have phk: "phys k' g = phys k g \<and> g \<notin> set (pt_frames C')"
    if "ref_counts (frames k) (ppn_val g) \<noteq> None" "g \<notin> set (pt_frames ?P)" "g \<notin> set (pt_frames C)" for g
    using st that unfolding fork_step_def by simp
  have ptr: "ref_counts (frames k) (ppn_val g) \<noteq> None" "g \<notin> set (pt_frames ?P)" "\<exists>x. pt_abs k ?P w = Some x \<and> pte_ppn x = g"
    if "(w, g) \<in> trackers (areas ms)" for w g using ms_inv_tracker [OF I(1) that] by (auto simp: tracker_ok_def)
  have useful: "ref_counts (frames k') (ppn_val g) \<noteq> None" if "ref_counts (frames k) (ppn_val g) \<noteq> None" for g
    using keep [OF that] S(8) that by (cases "g = f") auto
  have ms': "ms_inv l k' ms"
    by (rule ms_inv_same_frame [OF I(1) e(1) S(6) S(1) S(4)]) (use useful ptr in blast)
  have tabs': "fork_tables l k' ms C'"
    using ms' S(2,3) phk ptr trC by (auto simp: fork_tables_def)
  have pinj: "w = v" if "(w, pte_ppn e) \<in> trackers (areas ms)" for w
    using that e(2) I(1) unfolding ms_inv_def by blast
  have par': "fork_parent k0 k' ms (insert v D)"
  proof -
    have "ref_counts (frames k') (ppn_val g) = ref_counts (frames k0) (ppn_val g)"
      if "(w, g) \<in> trackers (areas ms)" "w \<notin> insert v D" for w g
    proof -
      have "g \<noteq> f" using f ptr(1) [OF that(1)] pinj that by auto
      with keep [OF ptr(1) [OF that(1)]] par that show ?thesis by (simp add: fork_parent_def)
    qed
    moreover have "phys k' g = phys k0 g" if "(w, g) \<in> trackers (areas ms)" for w g
      using phk [OF ptr(1) [OF that] ptr(2) [OF that] trC [OF that]] par that by (auto simp: fork_parent_def)
    ultimately show ?thesis using par useful e(2) S(4) by (auto simp: fork_parent_def)
  qed
  have Tnew: "(w, f) \<notin> T" for w
  proof
    assume "(w, f) \<in> T"
    with chi have *: "tracker_ok k C w f" "(w, f) \<in> trackers (areas ms) \<or> ref_counts (frames k0) (ppn_val f) = None"
      by (simp_all add: fork_child_def)
    from * f have fe: "f = pte_ppn e" by (auto simp: tracker_ok_def)
    moreover have "ref_counts (frames k0) (ppn_val (pte_ppn e)) \<noteq> None"
      using par e(2) v(1) ptr(1) [OF e(2)] by (auto simp: fork_parent_def)
    ultimately have "w = v" using *(2) pinj by auto
    moreover have "pt_abs k C w \<noteq> None" using *(1) by (auto simp: tracker_ok_def)
    ultimately show False using chi v by (auto simp: fork_child_def)
  qed
  have chi': "fork_child k0 k' ms C' (insert (v, f) T) (insert v D)"
    unfolding fork_child_def
  proof (intro conjI allI impI ballI)
    fix w g assume wg: "(w, g) \<in> insert (v, f) T"
    consider "w = v" "g = f" | "(w, g) \<in> T" "w \<noteq> v"
    proof -
      have "w \<noteq> v" if "(w, g) \<in> T" using chi that v unfolding fork_child_def tracker_ok_def by (metis option.distinct(1))
      with wg that show thesis by auto
    qed
    note cs = this
    show "tracker_ok k' C' w g"
    proof (cases rule: cs)
      case 1
      then show ?thesis using S by (simp add: tracker_ok_def)
    next
      case 2
      then have "tracker_ok k C w g" "g \<notin> set (pt_frames ?P)" using chi by (simp_all add: fork_child_def)
      with 2 useful phk S(5) show ?thesis by (auto simp: tracker_ok_def)
    qed
    show "g \<notin> set (pt_frames ?P)" using wg S(9) chi by (auto simp: fork_child_def)
    show "(w, g) \<in> trackers (areas ms) \<or> ref_counts (frames k0) (ppn_val g) = None"
    proof (cases rule: cs)
      case 1
      then show ?thesis using f e(2) par by (auto simp: fork_parent_def)
    next
      case 2
      then show ?thesis using chi by (simp add: fork_child_def)
    qed
  next
    fix w w' g assume "(w, g) \<in> insert (v, f) T" "(w', g) \<in> insert (v, f) T"
    with Tnew chi show "w = w'" unfolding fork_child_def by (metis insert_iff prod.inject)
  next
    fix w assume "w \<in> insert v D"
    then show "\<exists>g. (w, g) \<in> insert (v, f) T" using chi by (auto simp: fork_child_def)
  next
    fix w
    show "pt_abs k' C' w \<noteq> None \<longleftrightarrow> w = TRAMPOLINE_VPN \<or> w \<in> insert v D"
      using chi S(5) by (simp add: fork_child_def)
  qed
  have snap': "snapshot k0 k' ?P C' w" if w: "w \<in> insert v D" for w
  proof (cases "w = v")
    case True
    have e0: "pt_abs k0 ?P v = Some e" using par v(1) e(1) by (simp add: fork_parent_def)
    have pe: "phys k' (pte_ppn e) = phys k (pte_ppn e)" "phys k (pte_ppn e) = phys k0 (pte_ppn e)"
      using phk [OF ptr(1,2) [OF e(2)] trC [OF e(2)]] par e(2) by (auto simp: fork_parent_def)
    have "snapshot k0 k' ?P C' v"
      unfolding snapshot_def
      by (rule exI [of _ e], rule exI [of _ e'], rule exI [of _ c]) (use e0 S pe snap in simp)
    with True show ?thesis by simp
  next
    case False
    with w have wD: "w \<in> D" by simp
    show ?thesis
    proof (rule snapshot_step [OF sn [OF wD] False st])
      fix x assume x: "pt_abs k ?P w = Some x \<or> pt_abs k C w = Some x"
      obtain g h where g: "(w, g) \<in> T" and h: "(w, h) \<in> trackers (areas ms)"
        using chi par wD unfolding fork_child_def fork_parent_def by blast
      have "tracker_ok k C w g" "g \<notin> set (pt_frames ?P)" using chi g by (simp_all add: fork_child_def)
      with x ptr [OF h] trC [OF h]
      show "ref_counts (frames k) (ppn_val (pte_ppn x)) \<noteq> None \<and> pte_ppn x \<notin> set (pt_frames ?P)
          \<and> pte_ppn x \<notin> set (pt_frames C)" by (auto simp: tracker_ok_def)
    qed
  qed
  show ?thesis using tabs' chi' par' snap' by (simp add: fork_inv_def)
qed

text \<open>What a fork relies on: a user space, none of whose copy-on-write pages is writable.\<close>

definition fork_ok :: "usize \<Rightarrow> kmem \<Rightarrow> memory_set \<Rightarrow> bool" where
  "fork_ok l k ms \<longleftrightarrow> ms_inv l k ms
     \<and> (\<forall>a \<in> set (areas ms). area_type a = Framed \<and> TRAMPOLINE_VPN \<notin> area_pages a)
     \<and> (\<forall>v e. pt_abs k (ms_table ms) v = Some e \<longrightarrow> \<not> (pte_is_cow e \<and> pte_writable e))
     \<and> (\<forall>v f. (v, f) \<in> trackers (areas ms) \<longrightarrow> ref_counts (frames k) (ppn_val f) \<noteq> Some (- 1))"

lemma area_page_tracked:
  assumes "ms_inv l k ms" "a \<in> set (areas ms)" "area_type a = Framed" "v \<in> area_pages a"
  shows "\<exists>e. pt_abs k (ms_table ms) v = Some e \<and> data_frames a v = Some (pte_ppn e)
    \<and> (v, pte_ppn e) \<in> trackers (areas ms)"
proof -
  have "area_wf a" using assms(1,2) by (simp add: ms_inv_def)
  then obtain f where f: "data_frames a v = Some f" using assms(3,4) by (auto simp: area_wf_def)
  then have t: "(v, f) \<in> trackers (areas ms)" using assms(2) by (auto simp: trackers_def)
  from ms_inv_tracker [OF assms(1) t] f t show ?thesis by (auto simp: tracker_ok_def)
qed

lemma cow_page_ok:
  assumes inv: "fork_inv l k0 k ms C T D" and ok: "fork_ok l k0 ms"
    and a: "a \<in> set (areas ms)" "v \<in> area_pages a" and v: "v \<notin> D"
    and na: "area_type na = Framed" "data_frames na v = None" and free: "3 \<le> fa_free (frames k)"
  shows "\<exists>f C' k'. cow_page k (ms_table ms) a C na v = Some (na\<lparr>data_frames := (data_frames na)(v \<mapsto> f)\<rparr>, C', k')
    \<and> fork_inv l k0 k' ms C' (insert (v, f) T) (insert v D) \<and> fa_free (frames k) \<le> fa_free (frames k') + 3"
proof -
  let ?P = "ms_table ms"
  have I: "ms_inv l k ms" "pt_inv l k C" "set (pt_frames ?P) \<inter> set (pt_frames C) = {}"
    using inv by (simp_all add: fork_inv_def fork_tables_def)
  have ty: "area_type a = Framed" and vt: "v \<noteq> TRAMPOLINE_VPN" using ok a by (auto simp: fork_ok_def)
  from area_page_tracked [OF I(1) a(1) ty a(2)] obtain e where
    e: "pt_abs k ?P v = Some e" "data_frames a v = Some (pte_ppn e)" "(v, pte_ppn e) \<in> trackers (areas ms)" by blast
  have e0: "pt_abs k0 ?P v = Some e" using inv v e(1) by (simp add: fork_inv_def fork_parent_def)
  have cw: "\<not> (pte_is_cow e \<and> pte_writable e)" using ok e0 by (simp add: fork_ok_def)
  from ms_inv_tracker [OF I(1) e(3)] obtain n where n: "ref_counts (frames k) (ppn_val (pte_ppn e)) = Some n"
    "pte_ppn e \<notin> set (pt_frames ?P)" by (auto simp: tracker_ok_def)
  have nC: "pte_ppn e \<notin> set (pt_frames C)" using inv e(3) by (simp add: fork_inv_def fork_tables_def)
  have "ref_counts (frames k0) (ppn_val (pte_ppn e)) = Some n"
    using inv v e(3) n(1) by (auto simp: fork_inv_def fork_parent_def)
  then have "n \<noteq> - 1" using ok e(3) by (auto simp: fork_ok_def)
  then have n1: "n + 1 \<noteq> 0" by (simp add: eq_neg_iff_add_eq_0)
  have C0: "pt_abs k C v = None" using inv v vt by (auto simp: fork_inv_def fork_child_def)
  have free2: "2 \<le> fa_free (frames k)" using free by simp
  note step = fork_step_inv [OF inv v vt e(1,3)]
  have fr: "fa_free (frames k) \<le> fa_free (frames k') + 3" if "fork_step l k ?P C v f e e' c C' k'" for f e' c C' k'
    using that by (simp add: fork_step_def)
  consider "pte_user_accessible e" "pte_writable e \<or> pte_is_cow e"
    | "pte_user_accessible e" "\<not> pte_writable e" "\<not> pte_is_cow e" | "\<not> pte_user_accessible e" by blast
  then show ?thesis
  proof cases
    case 1
    from cow_page_writable_ok [OF ms_inv_pt [OF I(1)] I(2,3) e(1) 1 cw ty e(2) na(2) n(1) n1 n(2) nC C0 free2]
    obtain e' c C' k' where w: "cow_page k ?P a C na v = Some (na\<lparr>data_frames := (data_frames na)(v \<mapsto> pte_ppn e)\<rparr>, C', k')"
      "fork_step l k ?P C v (pte_ppn e) e e' c C' k'" "\<not> pte_writable e'" "pte_is_cow e'" "\<not> pte_writable c" "pte_is_cow c"
      "pte_user_accessible c" "pte_readable c = pte_readable e" "pte_executable c = pte_executable e" by blast
    have "pte_ppn c = pte_ppn e" using w(2) by (simp add: fork_step_def)
    with step [OF w(2)] w fr [OF w(2)] 1 show ?thesis by auto
  next
    case 2
    from cow_page_readonly_ok [OF ms_inv_pt [OF I(1)] I(2,3) e(1) 2 ty e(2) na(2) n(1) n1 n(2) nC C0 free2]
    obtain c C' k' where w: "cow_page k ?P a C na v = Some (na\<lparr>data_frames := (data_frames na)(v \<mapsto> pte_ppn e)\<rparr>, C', k')"
      "fork_step l k ?P C v (pte_ppn e) e e c C' k'" "\<not> pte_writable c" "\<not> pte_is_cow c"
      "pte_user_accessible c" "pte_readable c = pte_readable e" "pte_executable c = pte_executable e" by blast
    have "pte_ppn c = pte_ppn e" using w(2) by (simp add: fork_step_def)
    with step [OF w(2)] w fr [OF w(2)] 2 show ?thesis by auto
  next
    case 3
    have "ref_counts (frames k) (ppn_val (pte_ppn e)) \<noteq> None" using n(1) by simp
    from cow_page_kernel_ok [OF ms_inv_pt [OF I(1)] I(2,3) e(1) 3 na this n(2) nC C0 free]
    obtain g C' k' where w: "cow_page k ?P a C na v = Some (na\<lparr>data_frames := (data_frames na)(v \<mapsto> g)\<rparr>, C', k')"
      "fork_step l k ?P C v g e e (pte_new g (map_perm na OR PTE_V)) C' k'" "ref_counts (frames k) (ppn_val g) = None" by blast
    have "pte_ppn (pte_new g (map_perm na OR PTE_V)) = g" using w(2) by (simp add: fork_step_def)
    moreover have "g \<noteq> pte_ppn e" using w(3) n(1) by auto
    ultimately show ?thesis using step [OF w(2)] w fr [OF w(2)] 3 by auto
  qed
qed

lemma cow_pages_ok:
  assumes "fork_inv l k0 k ms C T D" and "fork_ok l k0 ms" and "a \<in> set (areas ms)"
    and "set vs \<subseteq> area_pages a" "distinct vs" "set vs \<inter> D = {}"
    and "area_type na = Framed" "\<And>v. v \<in> set vs \<Longrightarrow> data_frames na v = None" and "3 * length vs \<le> fa_free (frames k)"
  shows "\<exists>g C' k'. cow_pages k (ms_table ms) a C na vs
      = Some (na\<lparr>data_frames := (\<lambda>v. if v \<in> set vs then Some (g v) else data_frames na v)\<rparr>, C', k')
    \<and> fork_inv l k0 k' ms C' (T \<union> {(v, g v) | v. v \<in> set vs}) (D \<union> set vs)
    \<and> fa_free (frames k) \<le> fa_free (frames k') + 3 * length vs"
  using assms
proof (induction vs arbitrary: k C na T D)
  case Nil
  then show ?case by simp
next
  case (Cons v vs)
  have p: "v \<in> area_pages a" "v \<notin> D" "data_frames na v = None" "3 \<le> fa_free (frames k)" "v \<notin> set vs"
    using Cons.prems by auto
  from cow_page_ok [OF Cons.prems(1,2,3) p(1,2) Cons.prems(7) p(3,4)] obtain f C1 k1 where
    o: "cow_page k (ms_table ms) a C na v = Some (na\<lparr>data_frames := (data_frames na)(v \<mapsto> f)\<rparr>, C1, k1)"
    "fork_inv l k0 k1 ms C1 (insert (v, f) T) (insert v D)" "fa_free (frames k) \<le> fa_free (frames k1) + 3" by blast
  let ?na = "na\<lparr>data_frames := (data_frames na)(v \<mapsto> f)\<rparr>"
  have q: "set vs \<subseteq> area_pages a" "distinct vs" "set vs \<inter> insert v D = {}" "area_type ?na = Framed"
    "3 * length vs \<le> fa_free (frames k1)" using Cons.prems o(3) by auto
  have q2: "data_frames ?na w = None" if "w \<in> set vs" for w using that Cons.prems(8) [of w] p(5) by auto
  from Cons.IH [OF o(2) Cons.prems(2,3) q(1-4) q2 q(5)] obtain g C' k' where
    ih: "cow_pages k1 (ms_table ms) a C1 ?na vs
      = Some (?na\<lparr>data_frames := (\<lambda>v. if v \<in> set vs then Some (g v) else data_frames ?na v)\<rparr>, C', k')"
    "fork_inv l k0 k' ms C' (insert (v, f) T \<union> {(v, g v) | v. v \<in> set vs}) (insert v D \<union> set vs)"
    "fa_free (frames k1) \<le> fa_free (frames k') + 3 * length vs" by blast
  define h where "h = g(v := f)"
  have "cow_pages k (ms_table ms) a C na (v # vs)
      = Some (na\<lparr>data_frames := (\<lambda>w. if w \<in> set (v # vs) then Some (h w) else data_frames na w)\<rparr>, C', k')"
    using o(1) ih(1) p(5) by (auto simp: h_def fun_eq_iff intro!: arg_cong [of _ _ "\<lambda>x. na\<lparr>data_frames := x\<rparr>"])
  moreover have "insert (v, f) T \<union> {(v, g v) | v. v \<in> set vs} = T \<union> {(w, h w) | w. w \<in> set (v # vs)}"
    using p(5) by (auto simp: h_def)
  moreover have "insert v D \<union> set vs = D \<union> set (v # vs)" by auto
  moreover have "fa_free (frames k) \<le> fa_free (frames k') + 3 * length (v # vs)" using ih(3) o(3) by simp
  ultimately show ?case using ih(2) by (intro exI [of _ h] exI [of _ C'] exI [of _ k']) simp
qed


definition same_area :: "map_area \<Rightarrow> map_area \<Rightarrow> bool" where
  "same_area a b \<longleftrightarrow> area_range b = area_range a \<and> area_type b = area_type a \<and> map_perm b = map_perm a
     \<and> dom (data_frames b) = area_pages a"

definition pages_of :: "map_area list \<Rightarrow> virt_page_num set" where
  "pages_of as = (\<Union>a \<in> set as. area_pages a)"

definition page_count :: "map_area list \<Rightarrow> nat" where
  "page_count as = sum_list (map (\<lambda>a. length (range_list (area_range a))) as)"

lemma cow_areas_ok:
  assumes "fork_inv l k0 k ms (ms_table cs) (trackers (areas cs)) D" and "fork_ok l k0 ms"
    and "set as \<subseteq> set (areas ms)" "areas_disjoint as" "pages_of as \<inter> D = {}" and "3 * page_count as \<le> fa_free (frames k)"
  shows "\<exists>bs cs' k'. cow_areas k (ms_table ms) cs as = Some (cs', k') \<and> areas cs' = areas cs @ bs
    \<and> list_all2 same_area as bs \<and> fork_inv l k0 k' ms (ms_table cs') (trackers (areas cs')) (D \<union> pages_of as)"
  using assms
proof (induction as arbitrary: k cs D)
  case Nil
  then show ?case by (simp add: pages_of_def)
next
  case (Cons a as)
  have a: "a \<in> set (areas ms)" using Cons.prems by simp
  have wf: "area_wf a" "area_type a = Framed" using a Cons.prems(2) by (auto simp: fork_ok_def ms_inv_def)
  have rng: "range_l (area_range a) \<le> range_r (area_range a)" using wf by (simp add: area_wf_def)
  let ?a0 = "\<lparr>area_range = area_range a, data_frames = Map.empty, area_type = area_type a, map_perm = map_perm a\<rparr>"
  have fr: "from_another a = Some ?a0" using rng by (simp add: from_another_def range_new_def)
  have set: "set (range_list (area_range a)) = area_pages a" "distinct (range_list (area_range a))"
    using rng by (simp_all add: set_range_list area_pages_def distinct_range_list)
  have dis: "area_pages a \<inter> D = {}" "pages_of as \<inter> D = {}" using Cons.prems(5) by (auto simp: pages_of_def)
  have free: "3 * length (range_list (area_range a)) + 3 * page_count as \<le> fa_free (frames k)"
    using Cons.prems(6) by (simp add: page_count_def)
  have "area_type ?a0 = Framed" "set (range_list (area_range a)) \<subseteq> area_pages a"
    "set (range_list (area_range a)) \<inter> D = {}" "3 * length (range_list (area_range a)) \<le> fa_free (frames k)"
    using wf set dis free by simp_all
  from cow_pages_ok [OF Cons.prems(1,2) a this(2) set(2) this(3,1) _ this(4), unfolded set(1)] obtain g C' k1 where
    o: "cow_pages k (ms_table ms) a (ms_table cs) ?a0 (range_list (area_range a))
      = Some (?a0\<lparr>data_frames := (\<lambda>v. if v \<in> area_pages a then Some (g v) else data_frames ?a0 v)\<rparr>, C', k1)"
    "fork_inv l k0 k1 ms C' (trackers (areas cs) \<union> {(v, g v) | v. v \<in> area_pages a}) (D \<union> area_pages a)"
    "fa_free (frames k) \<le> fa_free (frames k1) + 3 * length (range_list (area_range a))" by auto
  let ?b = "?a0\<lparr>data_frames := (\<lambda>v. if v \<in> area_pages a then Some (g v) else data_frames ?a0 v)\<rparr>"
  let ?cs = "\<lparr>ms_table = C', areas = areas cs @ [?b]\<rparr>"
  have tr: "trackers (areas cs) \<union> {(v, g v) | v. v \<in> area_pages a} = trackers (areas ?cs)"
    by (auto simp: trackers_append) (auto simp: trackers_def split: if_splits)
  have same: "same_area a ?b" by (auto simp: same_area_def split: if_splits)
  have "pages_of as \<inter> (D \<union> area_pages a) = {}" using dis Cons.prems(4) by (auto simp: pages_of_def)
  moreover have "3 * page_count as \<le> fa_free (frames k1)" using free o(3) by simp
  moreover have "set as \<subseteq> set (areas ms)" "areas_disjoint as" using Cons.prems by auto
  ultimately obtain bs cs' k' where ih: "cow_areas k1 (ms_table ms) ?cs as = Some (cs', k')" "areas cs' = areas ?cs @ bs"
    "list_all2 same_area as bs" "fork_inv l k0 k' ms (ms_table cs') (trackers (areas cs')) (D \<union> area_pages a \<union> pages_of as)"
    using Cons.IH [of k1 ?cs "D \<union> area_pages a"] o(2) tr Cons.prems(2) by auto
  have "D \<union> area_pages a \<union> pages_of as = D \<union> pages_of (a # as)" by (auto simp: pages_of_def)
  with ih o(1) fr same show ?case
    by (intro exI [of _ "?b # bs"] exI [of _ cs'] exI [of _ k']) simp
qed

lemma same_area_pages: "same_area a b \<Longrightarrow> area_pages b = area_pages a"
  by (simp add: same_area_def area_pages_def)

lemma pages_of_Cons: "pages_of (a # as) = area_pages a \<union> pages_of as"
  by (simp add: pages_of_def)

lemma areas_disjoint_Cons: "areas_disjoint (a # as) \<longleftrightarrow> area_pages a \<inter> pages_of as = {} \<and> areas_disjoint as"
  by (auto simp: pages_of_def)

lemma same_areas_pages: "list_all2 same_area as bs \<Longrightarrow> pages_of bs = pages_of as"
  by (induction rule: list_all2_induct) (simp_all only: pages_of_Cons same_area_pages)

lemma same_areas_disjoint: "list_all2 same_area as bs \<Longrightarrow> areas_disjoint bs = areas_disjoint as"
  by (induction rule: list_all2_induct) (simp_all only: areas_disjoint_Cons same_areas_pages same_area_pages)

lemma same_area_wf: "same_area a b \<Longrightarrow> area_wf a \<Longrightarrow> area_type a = Framed \<Longrightarrow> area_wf b"
  by (simp add: same_area_def area_wf_def area_pages_def)

lemma same_areas_wf:
  "list_all2 same_area as bs \<Longrightarrow> \<forall>a \<in> set as. area_wf a \<and> area_type a = Framed \<Longrightarrow> \<forall>b \<in> set bs. area_wf b"
  by (induction rule: list_all2_induct) (auto dest: same_area_wf)

text \<open>Creating another address space does not disturb this one.\<close>

lemma ms_inv_other:
  assumes inv: "ms_inv l k ms" and fa: "fa_inv l (frames k')" and g: "grows k pt k' pt'"
    and dis: "set (pt_frames (ms_table ms)) \<inter> set (pt_frames pt) = {}"
    and tr: "\<And>w f. (w, f) \<in> trackers (areas ms) \<Longrightarrow> f \<notin> set (pt_frames pt)"
  shows "ms_inv l k' ms" "set (pt_frames (ms_table ms)) \<inter> set (pt_frames pt') = {}"
    and "\<And>w f. (w, f) \<in> trackers (areas ms) \<Longrightarrow> f \<notin> set (pt_frames pt') \<and> phys k' f = phys k f
      \<and> ref_counts (frames k') (ppn_val f) = ref_counts (frames k) (ppn_val f)"
    and "pt_abs k' (ms_table ms) = pt_abs k (ms_table ms)"
proof -
  note o = grows_other_table [OF ms_inv_pt [OF inv] fa g dis]
  show "set (pt_frames (ms_table ms)) \<inter> set (pt_frames pt') = {}" by (rule o)
  show abs: "pt_abs k' (ms_table ms) = pt_abs k (ms_table ms)" by (rule o)
  show *: "f \<notin> set (pt_frames pt') \<and> phys k' f = phys k f
      \<and> ref_counts (frames k') (ppn_val f) = ref_counts (frames k) (ppn_val f)"
    if "(w, f) \<in> trackers (areas ms)" for w f
  proof -
    have "ref_counts (frames k) (ppn_val f) \<noteq> None" using ms_inv_tracker [OF inv that] by (simp add: tracker_ok_def)
    from growsD [OF g this] tr [OF that] show ?thesis by simp
  qed
  have "tracker_ok k' (ms_table ms) w f" if "(w, f) \<in> trackers (areas ms)" for w f
    using ms_inv_tracker [OF inv that] * [OF that] abs by (simp add: tracker_ok_def)
  then show "ms_inv l k' ms" using inv o(1) abs unfolding ms_inv_def by auto
qed

lemma trampoline_vpn: "vpn_of_va (virt_addr_from TRAMPOLINE) = Some TRAMPOLINE_VPN" "vpn_sv39 TRAMPOLINE_VPN"
  by (simp_all add: vpn_of_va_def TRAMPOLINE_VPN_def TRAMPOLINE_def PAGE_SIZE_def va_page_offset_def
      va_floor_def virt_addr_from_def width_defs vpn_sv39_def)

text \<open>The empty child: a fresh table with the trampoline.\<close>

lemma fork_start:
  assumes ok: "fork_ok l k ms" and free: "3 \<le> fa_free (frames k)" and al: "pa_page_offset (phys_addr_from str) = 0"
  shows "\<exists>cs0 k1 cs k2. new_bare k = Some (cs0, k1) \<and> map_trampoline k1 cs0 str = Some (cs, k2) \<and> areas cs = []
    \<and> fork_inv l k k2 ms (ms_table cs) {} {} \<and> fa_free (frames k) \<le> fa_free (frames k2) + 3"
proof -
  have inv: "ms_inv l k ms" using ok by (simp add: fork_ok_def)
  have fa: "fa_inv l (frames k)" "0 < fa_free (frames k)" using inv free by (auto simp: ms_inv_def pt_inv_def)
  from page_table_new_ok [OF fa] obtain pt k1 where n: "page_table_new k = Some (pt, k1)" "pt_inv l k1 pt"
    "pt_abs k1 pt = Map.empty" "pt_frames pt = [root_ppn pt]" "ref_counts (frames k) (ppn_val (root_ppn pt)) = None"
    "ref_counts (frames k1) = (ref_counts (frames k))(ppn_val (root_ppn pt) \<mapsto> 1)"
    "\<forall>f. f \<noteq> root_ppn pt \<longrightarrow> phys k1 f = phys k f" "fa_free (frames k1) = fa_free (frames k) - 1" by blast
  let ?pt0 = "pt\<lparr>pt_frames := []\<rparr>"
  have "phys k1 f = phys k f" if "ref_counts (frames k) (ppn_val f) \<noteq> None" for f using that n(5,7) by metis
  then have g0: "grows k ?pt0 k1 pt" using n(4-6) by (auto simp: grows_def)
  obtain ppn where ppn: "ppn_of_pa (phys_addr_from str) = Some ppn" using al by (simp add: ppn_of_pa_def)
  have free1: "2 \<le> fa_free (frames k1)" using n(8) free by simp
  have none: "pt_abs k1 pt TRAMPOLINE_VPN = None" using n(3) by simp
  from pt_map_ok [OF n(2) free1 trampoline_vpn(2) none, of ppn "PTE_R OR PTE_X"] obtain pt' k2 where
    m: "pt_map k1 pt TRAMPOLINE_VPN ppn (PTE_R OR PTE_X) = Some (pt', k2)" "pt_inv l k2 pt'" "pt_grow k1 pt k2 pt'"
    "pt_abs k2 pt' = [TRAMPOLINE_VPN \<mapsto> pte_new ppn (PTE_R OR PTE_X OR PTE_V)]" using n(3) by (auto simp: or.assoc)
  have g: "grows k ?pt0 k2 pt'" using g0 pt_grow_grows [OF m(3)] by (rule grows_trans)
  have fa2: "fa_inv l (frames k2)" using m(2) by (simp add: pt_inv_def)
  have nil: "set (pt_frames (ms_table ms)) \<inter> set (pt_frames ?pt0) = {}" by simp
  note o = ms_inv_other [OF inv fa2 g nil]
  have "fork_inv l k k2 ms pt' {} {}"
    unfolding fork_inv_def
  proof (intro conjI)
    show "fork_tables l k2 ms pt'" using o m(2) by (simp add: fork_tables_def)
    show "fork_child k k2 ms pt' {} {}" by (simp add: fork_child_def m(4))
    have "ref_counts (frames k2) (ppn_val f) \<noteq> None" if "ref_counts (frames k) (ppn_val f) \<noteq> None" for f
      using growsD(1) [OF g that] that by simp
    then show "fork_parent k k2 ms {}" using o by (simp add: fork_parent_def)
  qed simp
  moreover have "fa_free (frames k) \<le> fa_free (frames k2) + 3" using pt_grow_free [OF m(3)] n(8) by simp
  ultimately show ?thesis
    using n(1) m(1) trampoline_vpn(1) ppn by (simp add: new_bare_def map_trampoline_def)
qed

text \<open>A small user space, for the examples: one writable page at 0x10000.\<close>

lemma example_space:
  "\<exists>ms0 k0 ms k e. new_bare example_mem = Some (ms0, k0)
    \<and> insert_framed_area k0 ms0 (VirtAddr 0x10000) (VirtAddr 0x11000) (PERM_U OR PERM_R OR PERM_W) = Some (ms, k)
    \<and> fork_ok 0x80500 k ms \<and> page_count (areas ms) = 1 \<and> 100 \<le> fa_free (frames k)
    \<and> pt_abs k (ms_table ms) (VirtPageNum 0x10) = Some e \<and> pte_writable e \<and> pte_user_accessible e
    \<and> (VirtPageNum 0x10, pte_ppn e) \<in> trackers (areas ms) \<and> pages_of (areas ms) = {VirtPageNum 0x10}"
proof -
  have pos: "0 < fa_free (frames example_mem)" using example_mem_inv(2) by simp
  from new_bare_ok [OF example_mem_inv(1) pos] obtain ms0 k0 where
    n: "new_bare example_mem = Some (ms0, k0)" "ms_inv 0x80500 k0 ms0" "areas ms0 = []" "fa_free (frames k0) = 0x7aff"
    "pt_abs k0 (ms_table ms0) = Map.empty"
    using example_mem_inv(2) by auto
  let ?perm = "PERM_U OR PERM_R OR PERM_W"
  define a where "a = \<lparr>area_range = \<lparr>range_l = VirtPageNum 0x10, range_r = VirtPageNum 0x11\<rparr>,
      data_frames = Map.empty, area_type = Framed, map_perm = ?perm\<rparr>"
  have ty: "area_type a = Framed" "data_frames a = Map.empty" "map_perm a = ?perm" by (simp_all add: a_def)
  have le: "VirtPageNum 0x10 \<le> VirtPageNum 0x11" by (simp add: less_eq_virt_page_num_def)
  have a: "map_area_new (VirtAddr 0x10000) (VirtAddr 0x11000) Framed ?perm = Some a"
    using le by (simp add: map_area_new_def range_new_def va_floor_def va_ceil_def PAGE_SIZE_def a_def)
  have len: "length (range_list (area_range a)) = 1" using length_vpn_iter [OF le] by (simp add: range_list_def a_def)
  have pg: "area_pages a = {VirtPageNum 0x10}"
  proof -
    have "x = VirtPageNum 0x10" if "VirtPageNum 0x10 \<le> x" "x < VirtPageNum 0x11" for x
    proof -
      have "unat (vpn_val x) = 16"
        using that by (simp add: less_eq_virt_page_num_def less_virt_page_num_def word_le_nat_alt word_less_nat_alt)
      then have "vpn_val x = 16" by (simp add: word_unat_eq_iff)
      then show ?thesis by (metis virt_page_num.collapse)
    qed
    then show ?thesis by (auto simp: area_pages_def less_virt_page_num_def a_def)
  qed
  have free: "3 * length (range_list (area_range a)) \<le> fa_free (frames k0)" using len n(4) by simp
  have rng: "range_l (area_range a) \<le> range_r (area_range a)" "unat (vpn_val (range_r (area_range a))) \<le> 2 ^ 27"
    using le by (simp_all add: a_def)
  have "pt_abs k0 (ms_table ms0) v = None" for v using n(5) by simp
  from push_framed_ok [OF n(2) ty(1,2) rng this free, unfolded n(3,5) ty(3) append_Nil] obtain g ms k where
    p: "push k0 ms0 a None = Some (ms, k)" "ms_inv 0x80500 k ms"
    "areas ms = [a\<lparr>data_frames := (\<lambda>v. if v \<in> area_pages a then Some (g v) else None)\<rparr>]"
    "pt_abs k (ms_table ms) = (\<lambda>v. if v \<in> area_pages a then Some (pte_new (g v) (?perm OR PTE_V)) else None)"
    "fa_free (frames k0) \<le> fa_free (frames k) + 3 * length (range_list (area_range a))"
    "\<forall>v \<in> area_pages a. unat (ppn_val (g v)) < 2 ^ 44 \<and> ref_counts (frames k) (ppn_val (g v)) = Some 1" by blast
  let ?e = "pte_new (g (VirtPageNum 0x10)) (?perm OR PTE_V)"
  have ppn: "pte_ppn ?e = g (VirtPageNum 0x10)" using p(6) pg pte_new_ppn by simp
  have tr: "trackers (areas ms) = {(VirtPageNum 0x10, g (VirtPageNum 0x10))}"
    using p(3) by (auto simp: trackers_def pg split: if_splits)
  have "TRAMPOLINE_VPN \<noteq> VirtPageNum 0x10"
    by (simp add: TRAMPOLINE_VPN_def TRAMPOLINE_def PAGE_SIZE_def va_floor_def virt_addr_from_def width_defs)
  then have "fork_ok 0x80500 k ms"
    unfolding fork_ok_def tr using p(2,3,4,6) pg ty by (auto simp: area_pages_def split: if_splits)
  moreover have "page_count (areas ms) = 1" using p(3) len by (simp add: page_count_def)
  moreover have "100 \<le> fa_free (frames k)" using p(5) len n(4) by simp
  moreover have "pages_of (areas ms) = {VirtPageNum 0x10}" using p(3) pg by (simp add: pages_of_def area_pages_def)
  moreover have "pte_writable ?e" "pte_user_accessible ?e"
    by (simp_all add: pte_writable_def pte_user_accessible_def flags_contains_def PERM_U_def PERM_R_def PERM_W_def pte_flag_defs)
  moreover have "insert_framed_area k0 ms0 (VirtAddr 0x10000) (VirtAddr 0x11000) ?perm = Some (ms, k)"
    using a p(1) by (simp add: insert_framed_area_def)
  moreover have "pt_abs k (ms_table ms) (VirtPageNum 0x10) = Some ?e" using p(4) pg by simp
  ultimately show ?thesis using n(1) tr ppn by auto
qed

subsection \<open>Properties\<close>

text \<open>C2: a copy-on-write fork is a snapshot. With three free frames for each page and three
  more, \<^verbatim>\<open>from_existed_user_cow\<close> does not panic; the child has areas with the same
  ranges, types and permissions, both address spaces satisfy the invariant, and for every page of
  the parent both sides read the bytes the parent had before the fork. A user page is shared and
  neither side can write it any more, copy-on-write exactly if the parent could write it or it
  already was; a kernel-only page is a private copy.\<close>

theorem cow_fork_snapshot:
  assumes ok: "fork_ok l k ms" and free: "3 * page_count (areas ms) + 3 \<le> fa_free (frames k)"
    and al: "pa_page_offset (phys_addr_from strampoline) = 0"
  shows "\<exists>child k'. from_existed_user_cow k strampoline ms = Some (child, k')
    \<and> ms_inv l k' ms \<and> ms_inv l k' child \<and> list_all2 same_area (areas ms) (areas child)
    \<and> (\<forall>v \<in> pages_of (areas ms). snapshot k k' (ms_table ms) (ms_table child) v)"
proof -
  have inv: "ms_inv l k ms" using ok by (simp add: fork_ok_def)
  have free3: "3 \<le> fa_free (frames k)" using free by simp
  from fork_start [OF ok free3 al] obtain cs0 k1 cs k2 where s: "new_bare k = Some (cs0, k1)"
    "map_trampoline k1 cs0 strampoline = Some (cs, k2)" "areas cs = []" "fork_inv l k k2 ms (ms_table cs) {} {}"
    "fa_free (frames k) \<le> fa_free (frames k2) + 3" by blast
  have "fork_inv l k k2 ms (ms_table cs) (trackers (areas cs)) {}" using s(3,4) by (simp add: trackers_def)
  moreover have "areas_disjoint (areas ms)" "3 * page_count (areas ms) \<le> fa_free (frames k2)"
    using inv free s(5) by (simp_all add: ms_inv_def)
  ultimately obtain bs child k' where c: "cow_areas k2 (ms_table ms) cs (areas ms) = Some (child, k')"
    "areas child = areas cs @ bs" "list_all2 same_area (areas ms) bs"
    "fork_inv l k k' ms (ms_table child) (trackers (areas child)) ({} \<union> pages_of (areas ms))"
    using cow_areas_ok [of l k k2 ms cs "{}" "areas ms"] ok by auto
  have same: "list_all2 same_area (areas ms) (areas child)" using c(2,3) s(3) by simp
  have fr: "from_existed_user_cow k strampoline ms = Some (child, k')"
    using s(1,2) c(1) by (simp add: from_existed_user_cow_def)
  have ch: "fork_child k k' ms (ms_table child) (trackers (areas child)) (pages_of (areas ms))"
    and tabs: "fork_tables l k' ms (ms_table child)"
    and sn: "\<forall>v \<in> pages_of (areas ms). snapshot k k' (ms_table ms) (ms_table child) v"
    using c(4) by (simp_all add: fork_inv_def)
  have wf: "\<forall>b \<in> set (areas child). area_wf b"
    by (rule same_areas_wf [OF same]) (use ok in \<open>simp add: fork_ok_def ms_inv_def\<close>)
  have "ms_inv l k' child"
    unfolding ms_inv_def
  proof (intro conjI)
    show "pt_inv l k' (ms_table child)" using tabs by (simp add: fork_tables_def)
    show "areas_disjoint (areas child)" using same_areas_disjoint [OF same] inv by (simp add: ms_inv_def)
    have mapped: "pt_abs k' (ms_table child) w \<noteq> None \<longleftrightarrow> w = TRAMPOLINE_VPN \<or> (\<exists>b \<in> set (areas child). w \<in> area_pages b)" for w
    proof -
      have "pt_abs k' (ms_table child) w \<noteq> None \<longleftrightarrow> w = TRAMPOLINE_VPN \<or> w \<in> pages_of (areas ms)"
        using ch by (simp add: fork_child_def)
      then show ?thesis unfolding same_areas_pages [OF same, symmetric] by (simp add: pages_of_def)
    qed
    then show "\<forall>b \<in> set (areas child). \<forall>v \<in> area_pages b. pt_abs k' (ms_table child) v \<noteq> None"
      "\<forall>v. pt_abs k' (ms_table child) v \<noteq> None \<longrightarrow> v = TRAMPOLINE_VPN \<or> (\<exists>a \<in> set (areas child). v \<in> area_pages a)" by blast+
  qed (use ch wf in \<open>auto simp: fork_child_def\<close>)
  with fr tabs same sn show ?thesis by (auto simp: fork_tables_def)
qed

theorem cow_fork_snapshot_witness:
  "\<exists>ms0 k0 ms k child k'. new_bare example_mem = Some (ms0, k0)
    \<and> insert_framed_area k0 ms0 (VirtAddr 0x10000) (VirtAddr 0x11000) (PERM_U OR PERM_R OR PERM_W) = Some (ms, k)
    \<and> from_existed_user_cow k 0x80200000 ms = Some (child, k') \<and> ms_inv 0x80500 k' child
    \<and> snapshot k k' (ms_table ms) (ms_table child) (VirtPageNum 0x10)"
proof -
  from example_space obtain ms0 k0 ms k e where x: "new_bare example_mem = Some (ms0, k0)"
    "insert_framed_area k0 ms0 (VirtAddr 0x10000) (VirtAddr 0x11000) (PERM_U OR PERM_R OR PERM_W) = Some (ms, k)"
    "fork_ok 0x80500 k ms" "page_count (areas ms) = 1" "100 \<le> fa_free (frames k)"
    "pages_of (areas ms) = {VirtPageNum 0x10}" by blast
  have "3 * page_count (areas ms) + 3 \<le> fa_free (frames k)" using x(4,5) by simp
  moreover have "pa_page_offset (phys_addr_from 0x80200000) = 0"
    by (simp add: pa_page_offset_def phys_addr_from_def PAGE_SIZE_def width_defs)
  ultimately show ?thesis using cow_fork_snapshot [OF x(3), of "0x80200000"] x by auto
qed

text \<open>C3: a write fault on a copy-on-write page gives the faulting address space a page of its
  own. \<^verbatim>\<open>handle_cow_fault\<close> succeeds with one free frame, keeps the invariant, and
  changes one mapping: the page becomes writable, keeps its other permissions and its contents,
  and its frame has no other owner. No frame that was in use changes its contents, so no other
  address space sees the fault; the shared frame loses exactly one reference.\<close>

theorem cow_fault_isolates:
  assumes inv: "ms_inv l k ms" and e: "pt_abs k (ms_table ms) (va_floor va) = Some e"
    and cow: "pte_user_accessible e" "pte_is_cow e"
    and tr: "(va_floor va, pte_ppn e) \<in> trackers (areas ms)" and free: "0 < fa_free (frames k)"
  shows "\<exists>ms' k' e'. handle_cow_fault k ms va = Some (True, ms', k') \<and> ms_inv l k' ms'
    \<and> pt_abs k' (ms_table ms') = (pt_abs k (ms_table ms))(va_floor va \<mapsto> e')
    \<and> pte_writable e' \<and> \<not> pte_is_cow e' \<and> pte_user_accessible e'
    \<and> pte_readable e' = pte_readable e \<and> pte_executable e' = pte_executable e
    \<and> ref_count (frames k') (pte_ppn e') = 1 \<and> phys k' (pte_ppn e') = phys k (pte_ppn e)
    \<and> (\<forall>f. ref_count (frames k) f \<noteq> 0 \<longrightarrow> f \<notin> set (pt_frames (ms_table ms)) \<longrightarrow> phys k' f = phys k f)
    \<and> (\<forall>f. ref_count (frames k) f \<noteq> 0 \<longrightarrow> ref_count (frames k') f =
         (if f = pte_ppn e \<and> ref_count (frames k) f \<noteq> 1 then ref_count (frames k) f - 1 else ref_count (frames k) f))"
proof -
  have fa: "fa_inv l (frames k)" using inv by (simp add: ms_inv_def pt_inv_def)
  from ms_inv_tracker [OF inv tr] obtain n where n: "ref_counts (frames k) (ppn_val (pte_ppn e)) = Some n"
    "pte_ppn e \<notin> set (pt_frames (ms_table ms))" by (auto simp: tracker_ok_def)
  have small: "unat (ppn_val (pte_ppn e)) < 2 ^ 44" using frame_in_use_small [OF fa] n(1) by simp
  show ?thesis
  proof (cases "n = 1")
    case True
    note r = resolved_entry [OF small, of e]
    from cow_fault_exclusive [OF inv e cow] n True obtain k' where
      k': "handle_cow_fault k ms va = Some (True, ms, k')" "ms_inv l k' ms"
      "pt_abs k' (ms_table ms) = (pt_abs k (ms_table ms))(va_floor va \<mapsto>
         pte_new (pte_ppn e) (flags_insert (flags_insert (pte_flags e) PTE_W) PTE_V))"
      "ref_counts (frames k') = ref_counts (frames k)"
      "\<forall>f. f \<notin> set (pt_frames (ms_table ms)) \<longrightarrow> phys k' f = phys k f" by auto
    show ?thesis
      by (rule exI [of _ ms], rule exI [of _ k'],
          rule exI [of _ "pte_new (pte_ppn e) (flags_insert (flags_insert (pte_flags e) PTE_W) PTE_V)"])
        (use k' r cow n True in \<open>simp add: ref_count_def\<close>)
  next
    case False
    from cow_fault_shared [OF inv e cow tr n(1) False free] obtain new ms' k' where
      k': "handle_cow_fault k ms va = Some (True, ms', k')" "ms_inv l k' ms'" "ms_table ms' = ms_table ms"
      "pt_abs k' (ms_table ms) = (pt_abs k (ms_table ms))(va_floor va \<mapsto>
         pte_new new (flags_insert (flags_insert (pte_flags e) PTE_W) PTE_V))"
      "unat (ppn_val new) < 2 ^ 44" "ref_counts (frames k) (ppn_val new) = None"
      "ref_counts (frames k') = (ref_counts (frames k))(ppn_val new \<mapsto> 1, ppn_val (pte_ppn e) \<mapsto> n - 1)"
      "phys k' new = phys k (pte_ppn e)"
      "\<forall>f. f \<notin> set (pt_frames (ms_table ms)) \<longrightarrow> f \<noteq> new \<longrightarrow> phys k' f = phys k f" by blast
    note r = resolved_entry [OF k'(5), of e]
    have ne: "ppn_val new \<noteq> ppn_val (pte_ppn e)" using k'(6) n(1) by auto
    have fresh: "f \<noteq> new" if "ref_count (frames k) f \<noteq> 0" for f using that k'(6) by (auto simp: ref_count_def)
    have rc: "ref_count (frames k') f = (if f = pte_ppn e then n - 1 else ref_count (frames k) f)" if "f \<noteq> new" for f
      using that phys_page_num.expand [of f new] phys_page_num.expand [of f "pte_ppn e"] by (auto simp: ref_count_def k'(7))
    have rn: "ref_count (frames k) (pte_ppn e) = n" "ref_count (frames k') new = 1"
      using n(1) k'(7) ne by (simp_all add: ref_count_def)
    show ?thesis
      by (rule exI [of _ ms'], rule exI [of _ k'],
          rule exI [of _ "pte_new new (flags_insert (flags_insert (pte_flags e) PTE_W) PTE_V)"])
        (use k' r cow rc rn fresh False in \<open>simp\<close>)
  qed
qed

theorem cow_fault_isolates_witness:
  "\<exists>ms0 k0 ms k k1 ms' k' e'. new_bare example_mem = Some (ms0, k0)
    \<and> insert_framed_area k0 ms0 (VirtAddr 0x10000) (VirtAddr 0x11000) (PERM_U OR PERM_R OR PERM_W) = Some (ms, k)
    \<and> mark_cow k (ms_table ms) (VirtPageNum 0x10) = Some k1
    \<and> handle_cow_fault k1 ms (VirtAddr 0x10008) = Some (True, ms', k')
    \<and> pt_abs k' (ms_table ms') (VirtPageNum 0x10) = Some e' \<and> pte_writable e'"
proof -
  from example_space obtain ms0 k0 ms k e where x: "new_bare example_mem = Some (ms0, k0)"
    "insert_framed_area k0 ms0 (VirtAddr 0x10000) (VirtAddr 0x11000) (PERM_U OR PERM_R OR PERM_W) = Some (ms, k)"
    "fork_ok 0x80500 k ms" "100 \<le> fa_free (frames k)" "pt_abs k (ms_table ms) (VirtPageNum 0x10) = Some e"
    "pte_writable e" "pte_user_accessible e" "(VirtPageNum 0x10, pte_ppn e) \<in> trackers (areas ms)" by blast
  have inv: "ms_inv 0x80500 k ms" and nc: "\<not> pte_is_cow e" using x(3,5,6) by (auto simp: fork_ok_def)
  let ?e = "pte_new_cow (pte_ppn e) (flags_remove (pte_flags e) PTE_W)"
  from mark_cow_ok [OF ms_inv_pt [OF inv] x(5)] nc x(6) obtain k1 where
    k1: "mark_cow k (ms_table ms) (VirtPageNum 0x10) = Some k1" "pt_inv 0x80500 k1 (ms_table ms)"
    "pt_grow k (ms_table ms) k1 (ms_table ms)" "pt_abs k1 (ms_table ms) = (pt_abs k (ms_table ms))(VirtPageNum 0x10 \<mapsto> ?e)"
    by auto
  have rc: "ref_counts (frames k1) = ref_counts (frames k)" "fa_free (frames k1) = fa_free (frames k)"
    using k1(3) by (auto simp: pt_grow_def)
  have "fa_inv 0x80500 (frames k)" "ref_counts (frames k) (ppn_val (pte_ppn e)) \<noteq> None"
    using inv ms_inv_tracker [OF inv x(8)] by (auto simp: ms_inv_def pt_inv_def tracker_ok_def)
  then have small: "unat (ppn_val (pte_ppn e)) < 2 ^ 44" by (rule frame_in_use_small)
  have pe: "pte_ppn ?e = pte_ppn e" by (rule cow_flags(7) [OF small refl])
  have inv1: "ms_inv 0x80500 k1 ms"
    by (rule ms_inv_same_frame [OF inv x(5) pe k1(2,4)]) (use ms_inv_tracker [OF inv] rc in \<open>simp add: tracker_ok_def\<close>)
  have fl: "va_floor (VirtAddr 0x10008) = VirtPageNum 0x10" by (simp add: va_floor_def PAGE_SIZE_def)
  have us: "pte_user_accessible ?e" "pte_is_cow ?e"
    using x(7) by (simp_all add: pte_user_accessible_def flags_contains_bit flags_remove_def bit_and_iff bit_not_iff bit_PTE_W)
  have "pt_abs k1 (ms_table ms) (va_floor (VirtAddr 0x10008)) = Some ?e" using k1(4) fl by simp
  from cow_fault_isolates [OF inv1 this us] fl pe x(8) rc(2) x(4) obtain ms' k' e' where
    "handle_cow_fault k1 ms (VirtAddr 0x10008) = Some (True, ms', k')"
    "pt_abs k' (ms_table ms') = (pt_abs k1 (ms_table ms))(VirtPageNum 0x10 \<mapsto> e')" "pte_writable e'" by auto
  with x(1,2) k1(1) show ?thesis by (metis fun_upd_same)
qed

end
