(* ===== verification/BlockCache.thy ===== *)
theory BlockCache
  imports Simulation
begin

section \<open>The block cache\<close>

text \<open>
  easy-fs/src/block\_cache.rs: at most sixteen cached blocks in front of a block device, replaced in
  first-in first-out order among those nobody holds, written back when they are replaced or
  synchronized. The buffer of a cache entry is an aligned allocation of 512 bytes; here it is a
  function from offsets to bytes. The strong count of the shared pointer of an entry is kept in
  the entry: one for the queue and one for each handle a caller holds.
\<close>

definition BLOCK_SZ :: nat where "BLOCK_SZ = 512"
definition BLOCK_CACHE_SIZE :: nat where "BLOCK_CACHE_SIZE = 16"

type_synonym block = "nat \<Rightarrow> u8"
type_synonym disk = "nat \<Rightarrow> block"

record block_cache =
  cache :: block
  block_id :: nat
  modified :: bool
  strong_count :: nat

record block_cache_manager =
  queue :: "(nat \<times> block_cache) list"
  block_device :: disk

definition block_cache_new :: "nat \<Rightarrow> disk \<Rightarrow> block_cache" where
  "block_cache_new b dev = \<lparr>cache = dev b, block_id = b, modified = False, strong_count = 2\<rparr>"

text \<open>A typed access checks that the value lies inside the block.\<close>

definition cache_read :: "block_cache \<Rightarrow> nat \<Rightarrow> nat \<Rightarrow> (u8 list) outcome" where
  "cache_read c offset sz = do {
     _ \<leftarrow> ensure (offset + sz \<le> BLOCK_SZ);
     Some (map (cache c) [offset..<offset + sz])
   }"

definition cache_modify :: "block_cache \<Rightarrow> nat \<Rightarrow> u8 list \<Rightarrow> block_cache outcome" where
  "cache_modify c offset bytes = do {
     _ \<leftarrow> ensure (offset + length bytes \<le> BLOCK_SZ);
     Some (c\<lparr>modified := True,
             cache := (\<lambda>i. if offset \<le> i \<and> i < offset + length bytes then bytes ! (i - offset) else cache c i)\<rparr>)
   }"

definition cache_sync :: "block_cache \<Rightarrow> disk \<Rightarrow> block_cache \<times> disk" where
  "cache_sync c dev =
     (if modified c then (c\<lparr>modified := False\<rparr>, dev(block_id c := cache c)) else (c, dev))"

definition manager_new :: "disk \<Rightarrow> block_cache_manager" where
  "manager_new dev = \<lparr>queue = [], block_device = dev\<rparr>"

text \<open>Removing the victim drops the last handle of its entry, and with it writes it back.\<close>

definition evict :: "block_cache_manager \<Rightarrow> block_cache_manager outcome" where
  "evict m = (case position (\<lambda>p. strong_count (snd p) = 1) (queue m) of
     None \<Rightarrow> None
   | Some i \<Rightarrow> Some \<lparr>queue = take i (queue m) @ drop (Suc i) (queue m),
        block_device = snd (cache_sync (snd (queue m ! i)) (block_device m))\<rparr>)"

definition get_block_cache :: "block_cache_manager \<Rightarrow> nat \<Rightarrow> block_cache_manager outcome" where
  "get_block_cache m b =
     (case position (\<lambda>p. fst p = b) (queue m) of
        Some i \<Rightarrow> Some (m\<lparr>queue := (queue m)[i := (b, (snd (queue m ! i))\<lparr>strong_count := strong_count (snd (queue m ! i)) + 1\<rparr>)]\<rparr>)
      | None \<Rightarrow> do {
          m' \<leftarrow> (if length (queue m) = BLOCK_CACHE_SIZE then evict m else Some m);
          Some (m'\<lparr>queue := queue m' @ [(b, block_cache_new b (block_device m'))]\<rparr>)
        })"

text \<open>What a caller can do with a handle: read, modify, and drop it.\<close>

definition held_entry :: "block_cache_manager \<Rightarrow> nat \<Rightarrow> nat outcome" where
  "held_entry m b = do {
     i \<leftarrow> position (\<lambda>p. fst p = b) (queue m);
     _ \<leftarrow> ensure (strong_count (snd (queue m ! i)) > 1);
     Some i
   }"

definition read_held :: "block_cache_manager \<Rightarrow> nat \<Rightarrow> nat \<Rightarrow> nat \<Rightarrow> (u8 list) outcome" where
  "read_held m b offset sz = do { i \<leftarrow> held_entry m b; cache_read (snd (queue m ! i)) offset sz }"

definition modify_held :: "block_cache_manager \<Rightarrow> nat \<Rightarrow> nat \<Rightarrow> u8 list \<Rightarrow> block_cache_manager outcome" where
  "modify_held m b offset bytes = do {
     i \<leftarrow> held_entry m b;
     c \<leftarrow> cache_modify (snd (queue m ! i)) offset bytes;
     Some (m\<lparr>queue := (queue m)[i := (b, c)]\<rparr>)
   }"

definition release :: "block_cache_manager \<Rightarrow> nat \<Rightarrow> block_cache_manager outcome" where
  "release m b = do {
     i \<leftarrow> held_entry m b;
     let c = snd (queue m ! i);
     Some (m\<lparr>queue := (queue m)[i := (b, c\<lparr>strong_count := strong_count c - 1\<rparr>)]\<rparr>)
   }"

fun sync_entries :: "(nat \<times> block_cache) list \<Rightarrow> disk \<Rightarrow> (nat \<times> block_cache) list \<times> disk" where
  "sync_entries [] dev = ([], dev)"
| "sync_entries ((b, c) # q) dev =
     (let (c', dev') = cache_sync c dev; (q', dev'') = sync_entries q dev' in ((b, c') # q', dev''))"

definition block_cache_sync_all :: "block_cache_manager \<Rightarrow> block_cache_manager" where
  "block_cache_sync_all m =
     (let (q, dev) = sync_entries (queue m) (block_device m) in \<lparr>queue = q, block_device = dev\<rparr>)"

subsection \<open>What a caller sees\<close>

definition view :: "block_cache_manager \<Rightarrow> disk" where
  "view m b = (case map_of (queue m) b of Some c \<Rightarrow> cache c | None \<Rightarrow> block_device m b)"

definition handles :: "block_cache_manager \<Rightarrow> nat \<Rightarrow> nat" where
  "handles m b = (case map_of (queue m) b of Some c \<Rightarrow> strong_count c - 1 | None \<Rightarrow> 0)"

definition entry_ok :: "disk \<Rightarrow> nat \<times> block_cache \<Rightarrow> bool" where
  "entry_ok dev = (\<lambda>(b, c). block_id c = b \<and> 1 \<le> strong_count c \<and> (\<not> modified c \<longrightarrow> cache c = dev b))"

definition cache_inv :: "block_cache_manager \<Rightarrow> bool" where
  "cache_inv m \<longleftrightarrow> distinct (map fst (queue m)) \<and> length (queue m) \<le> BLOCK_CACHE_SIZE
     \<and> (\<forall>p \<in> set (queue m). entry_ok (block_device m) p)"

lemma position_fst:
  assumes "distinct (map fst q)"
  shows "position (\<lambda>p. fst p = b) q = Some i \<longleftrightarrow> i < length q \<and> fst (q ! i) = b"
proof
  assume "position (\<lambda>p. fst p = b) q = Some i"
  then show "i < length q \<and> fst (q ! i) = b" by (auto dest: position_SomeD)
next
  assume i: "i < length q \<and> fst (q ! i) = b"
  then have "position (\<lambda>p. fst p = b) q \<noteq> None" by (auto intro: nth_mem)
  then obtain j where j: "position (\<lambda>p. fst p = b) q = Some j" by blast
  from position_SomeD [OF j] have "j < length q" "fst (q ! j) = b" by auto
  with i assms have "j = i" by (simp add: distinct_conv_nth) (metis length_map nth_map)
  with j show "position (\<lambda>p. fst p = b) q = Some i" by simp
qed

lemma position_fst_None: "position (\<lambda>p. fst p = b) q = None \<longleftrightarrow> map_of q b = None"
  by (auto simp: map_of_eq_None_iff)

lemma map_of_update:
  assumes "distinct (map fst q)" "i < length q" "fst (q ! i) = b"
  shows "map_of (q[i := (b, c)]) = (map_of q)(b \<mapsto> c)"
  using assms
proof (induction q arbitrary: i)
  case (Cons p q)
  show ?case
  proof (cases i)
    case 0
    with Cons.prems show ?thesis by (cases p) (auto simp: fun_eq_iff)
  next
    case (Suc j)
    with Cons.prems have ne: "fst p \<noteq> b" by (auto simp: image_iff dest: nth_mem)
    from Suc Cons show ?thesis by (cases p) (use ne in \<open>auto simp: fun_eq_iff\<close>)
  qed
qed simp

lemma map_of_remove:
  assumes "distinct (map fst q)" "i < length q"
  shows "map_of (take i q @ drop (Suc i) q) = (map_of q)(fst (q ! i) := None)"
  using assms
proof (induction q arbitrary: i)
  case (Cons p q)
  show ?case
  proof (cases i)
    case 0
    with Cons.prems show ?thesis by (cases p) (auto simp: fun_eq_iff map_of_eq_None_iff)
  next
    case (Suc j)
    with Cons.prems have ne: "fst p \<noteq> fst (q ! j)" by (auto simp: image_iff dest: nth_mem)
    from Suc Cons show ?thesis by (cases p) (use ne in \<open>auto simp: fun_eq_iff\<close>)
  qed
qed simp

subsection \<open>Each operation on the cache\<close>

text \<open>Replacing an entry by one of the same block.\<close>

lemma set_entry_ok:
  assumes inv: "cache_inv m" and i: "i < length (queue m)" "fst (queue m ! i) = b" and ok: "entry_ok (block_device m) (b, c)"
  defines "m' \<equiv> m\<lparr>queue := (queue m)[i := (b, c)]\<rparr>"
  shows "cache_inv m'" "view m' = (view m)(b := cache c)" "handles m' = (handles m)(b := strong_count c - 1)"
proof -
  have d: "distinct (map fst (queue m))" using inv by (simp add: cache_inv_def)
  note mo = map_of_update [OF d i, of c]
  have "map fst ((queue m)[i := (b, c)]) = map fst (queue m)"
    using i by (metis fst_conv list_update_id map_update nth_map)
  then show "cache_inv m'" using inv ok set_update_subset_insert [of "queue m" i "(b, c)"]
    by (auto simp: cache_inv_def m'_def)
  show "view m' = (view m)(b := cache c)" by (auto simp: view_def m'_def mo fun_eq_iff split: option.splits)
  show "handles m' = (handles m)(b := strong_count c - 1)" by (auto simp: handles_def m'_def mo fun_eq_iff split: option.splits)
qed

lemma cached_entry:
  assumes inv: "cache_inv m" and p: "position (\<lambda>p. fst p = b) (queue m) = Some i"
  obtains c where "queue m ! i = (b, c)" "i < length (queue m)" "map_of (queue m) b = Some c"
    "entry_ok (block_device m) (b, c)" "view m b = cache c" "handles m b = strong_count c - 1"
proof -
  have d: "distinct (map fst (queue m))" using inv by (simp add: cache_inv_def)
  from p position_fst [OF d] have i: "i < length (queue m)" "fst (queue m ! i) = b" by auto
  obtain c where c: "queue m ! i = (b, c)" using i(2) by (metis prod.collapse)
  have mem: "(b, c) \<in> set (queue m)" using c i(1) nth_mem by metis
  then have "map_of (queue m) b = Some c" using d by simp
  with that c i mem inv show ?thesis by (auto simp: cache_inv_def view_def handles_def)
qed

lemma evict_ok:
  assumes inv: "cache_inv m" and p: "position (\<lambda>p. strong_count (snd p) = 1) (queue m) = Some i"
  shows "\<exists>m'. evict m = Some m' \<and> cache_inv m' \<and> view m' = view m \<and> handles m' = handles m
    \<and> Suc (length (queue m')) = length (queue m) \<and> set (map fst (queue m')) \<subseteq> set (map fst (queue m))"
proof -
  let ?q = "take i (queue m) @ drop (Suc i) (queue m)"
  have d: "distinct (map fst (queue m))" using inv by (simp add: cache_inv_def)
  from position_SomeD [OF p] have i: "i < length (queue m)" and one: "strong_count (snd (queue m ! i)) = 1" by auto
  obtain b c where bc: "queue m ! i = (b, c)" by (cases "queue m ! i")
  have ok: "entry_ok (block_device m) (b, c)" using inv i bc nth_mem by (metis cache_inv_def)
  have mo: "map_of ?q = (map_of (queue m))(b := None)" using map_of_remove [OF d i] bc by simp
  have sub: "set ?q \<subseteq> set (queue m)" by (auto dest: in_set_takeD in_set_dropD)
  have nb: "x \<noteq> b" if "(x, y) \<in> set ?q" for x y
    using that mo by (metis fun_upd_same map_of_eq_None_iff fst_conv image_eqI)
  have dq: "distinct (map fst ?q)" using d by (rule distinct_remove_nth)
  define dev where "dev = snd (cache_sync c (block_device m))"
  have dev: "dev b = cache c" "\<And>x. x \<noteq> b \<Longrightarrow> dev x = block_device m x"
    using ok by (auto simp: dev_def cache_sync_def entry_ok_def)
  let ?m = "\<lparr>queue = ?q, block_device = dev\<rparr>"
  have ev: "evict m = Some ?m" using p bc by (simp add: evict_def dev_def)
  have eok: "entry_ok dev p" if "p \<in> set ?q" for p
  proof -
    obtain x y where xy: "p = (x, y)" by (cases p)
    have "entry_ok (block_device m) (x, y)" using inv sub that xy by (auto simp: cache_inv_def)
    with dev(2) [of x] nb [of x y] that xy show ?thesis by (simp add: entry_ok_def)
  qed
  have "length ?q \<le> length (queue m)" by simp
  then have "length ?q \<le> BLOCK_CACHE_SIZE" using inv unfolding cache_inv_def by linarith
  then have "cache_inv ?m" using dq eok unfolding cache_inv_def by simp
  moreover have mb: "map_of (queue m) b = Some c" using d i bc nth_mem by fastforce
  moreover have mq: "map_of (queue ?m) = (map_of (queue m))(b := None)"
    by (simp only: block_cache_manager.select_convs mo)
  moreover have "view ?m = view m"
    unfolding view_def mq by (rule ext) (use dev mb in \<open>auto split: option.splits\<close>)
  moreover have "handles ?m = handles m"
    unfolding handles_def mq by (rule ext) (use mb one bc in \<open>auto split: option.splits\<close>)
  ultimately show ?thesis using ev i sub by (auto simp: image_iff)
qed


lemma handles_cached: "{b. 0 < handles m b} \<subseteq> set (map fst (queue m))"
  by (auto simp: handles_def split: option.splits dest!: map_of_SomeD intro: rev_image_eqI)

lemma card_handles: "card {b. 0 < handles m b} \<le> length (queue m)"
  by (metis card_length card_mono finite_set handles_cached length_map order_trans)

text \<open>All entries are held exactly when as many blocks are held as there are entries.\<close>

lemma held_all:
  assumes "cache_inv m"
  shows "position (\<lambda>p. strong_count (snd p) = 1) (queue m) = None \<longleftrightarrow> card {b. 0 < handles m b} = length (queue m)"
proof -
  have d: "distinct (map fst (queue m))" using assms by (simp add: cache_inv_def)
  note sub = handles_cached [of m]
  have cd: "card (set (map fst (queue m))) = length (queue m)" using distinct_card [OF d] by simp
  have h: "handles m b = strong_count c - 1" "1 \<le> strong_count c" if "(b, c) \<in> set (queue m)" for b c
    using that d assms by (auto simp: handles_def cache_inv_def entry_ok_def)
  have "position (\<lambda>p. strong_count (snd p) = 1) (queue m) = None \<longleftrightarrow> set (map fst (queue m)) \<subseteq> {b. 0 < handles m b}"
    using h by (fastforce simp: image_iff)
  also have "\<dots> \<longleftrightarrow> {b. 0 < handles m b} = set (map fst (queue m))" using sub by blast
  also have "\<dots> \<longleftrightarrow> card {b. 0 < handles m b} = length (queue m)"
    using sub cd card_subset_eq [OF finite_set sub] by metis
  finally show ?thesis .
qed

lemma push_entry_ok:
  assumes inv: "cache_inv m" and new: "map_of (queue m) b = None" and len: "length (queue m) < BLOCK_CACHE_SIZE"
  defines "m' \<equiv> m\<lparr>queue := queue m @ [(b, block_cache_new b (block_device m))]\<rparr>"
  shows "cache_inv m'" "view m' = view m" "handles m' = (handles m)(b := handles m b + 1)"
proof -
  let ?c = "block_cache_new b (block_device m)"
  have mq: "map_of (queue m') = (map_of (queue m))(b \<mapsto> ?c)"
    using new by (auto simp: m'_def fun_eq_iff map_add_def split: option.splits)
  have dev: "block_device m' = block_device m" by (simp add: m'_def)
  have c: "cache ?c = block_device m b" "strong_count ?c = 2" by (simp_all add: block_cache_new_def)
  have "entry_ok (block_device m) (b, ?c)" by (simp add: entry_ok_def block_cache_new_def)
  moreover have "b \<notin> set (map fst (queue m))" using new by (simp add: map_of_eq_None_iff)
  ultimately show "cache_inv m'" using inv len by (auto simp: cache_inv_def m'_def)
  show "view m' = view m" unfolding view_def mq dev by (rule ext) (use new c in \<open>simp split: option.splits\<close>)
  show "handles m' = (handles m)(b := handles m b + 1)"
    unfolding handles_def mq by (rule ext) (use new c in \<open>simp split: option.splits\<close>)
qed

lemma get_block_cache_ok:
  assumes inv: "cache_inv m"
  shows "if 0 < handles m b \<or> card {x. 0 < handles m x} < BLOCK_CACHE_SIZE
    then \<exists>m'. get_block_cache m b = Some m' \<and> cache_inv m' \<and> view m' = view m
      \<and> handles m' = (handles m)(b := handles m b + 1)
    else get_block_cache m b = None"
proof (cases "position (\<lambda>p. fst p = b) (queue m)")
  case (Some i)
  obtain c where c: "queue m ! i = (b, c)" "i < length (queue m)" "entry_ok (block_device m) (b, c)"
    "view m b = cache c" "handles m b = strong_count c - 1" by (rule cached_entry [OF inv Some])
  let ?c = "c\<lparr>strong_count := strong_count c + 1\<rparr>"
  have ok: "entry_ok (block_device m) (b, ?c)" "1 \<le> strong_count c" using c(3) by (auto simp: entry_ok_def)
  have f: "fst (queue m ! i) = b" using c(1) by simp
  note u = set_entry_ok [OF inv c(2) f ok(1)]
  have "get_block_cache m b = Some (m\<lparr>queue := (queue m)[i := (b, ?c)]\<rparr>)" using Some c(1) by (simp add: get_block_cache_def)
  moreover have "0 < handles m b \<or> card {x. 0 < handles m x} < BLOCK_CACHE_SIZE"
  proof (rule ccontr)
    assume "\<not> ?thesis"
    then have z: "handles m b = 0" and g: "BLOCK_CACHE_SIZE \<le> card {x. 0 < handles m x}" by auto
    have "{x. 0 < handles m x} \<subseteq> set (map fst (queue m)) - {b}"
      using z handles_cached [of m] by auto
    then have "card {x. 0 < handles m x} \<le> card (set (map fst (queue m)) - {b})" by (intro card_mono) auto
    also have "\<dots> < card (set (map fst (queue m)))"
    proof (rule card_Diff1_less)
      show "b \<in> set (map fst (queue m))" using c(1,2) by (metis fst_conv in_set_conv_nth length_map nth_map)
    qed simp
    also have "\<dots> \<le> length (queue m)" by (metis card_length length_map)
    finally show False using g inv by (simp add: cache_inv_def)
  qed
  ultimately show ?thesis using u c(4,5) ok(2) by (auto simp: fun_eq_iff)
next
  case None
  then have new: "map_of (queue m) b = None" by (simp only: position_fst_None)
  have get: "get_block_cache m b = do {
      m' \<leftarrow> (if length (queue m) = BLOCK_CACHE_SIZE then evict m else Some m);
      Some (m'\<lparr>queue := queue m' @ [(b, block_cache_new b (block_device m'))]\<rparr>) }"
    unfolding get_block_cache_def None by simp
  have h0: "handles m b = 0" using new by (simp add: handles_def)
  show ?thesis
  proof (cases "length (queue m) = BLOCK_CACHE_SIZE")
    case False
    then have lt: "length (queue m) < BLOCK_CACHE_SIZE" using inv by (simp add: cache_inv_def)
    with card_handles [of m] lt push_entry_ok [OF inv new lt] False show ?thesis by (simp add: get)
  next
    case full: True
    show ?thesis
    proof (cases "position (\<lambda>p. strong_count (snd p) = 1) (queue m)")
      case (Some i)
      have "card {x. 0 < handles m x} \<noteq> BLOCK_CACHE_SIZE" using held_all [OF inv] Some full by (metis option.distinct(1))
      moreover have "card {x. 0 < handles m x} \<le> BLOCK_CACHE_SIZE" using card_handles [of m] full by simp
      ultimately have room: "card {x. 0 < handles m x} < BLOCK_CACHE_SIZE" by simp
      from evict_ok [OF inv Some] obtain m1 where m1: "evict m = Some m1" "cache_inv m1" "view m1 = view m"
        "handles m1 = handles m" "Suc (length (queue m1)) = length (queue m)"
        "set (map fst (queue m1)) \<subseteq> set (map fst (queue m))" by blast
      have "map_of (queue m1) b = None" using new m1(6) by (auto simp: map_of_eq_None_iff)
      from push_entry_ok [OF m1(2) this] m1 full room show ?thesis by (simp add: get)
    next
      case no: None
      then have "card {x. 0 < handles m x} = BLOCK_CACHE_SIZE" using held_all [OF inv] full by simp
      moreover have "evict m = None" unfolding evict_def no by simp
      ultimately show ?thesis using full h0 by (simp add: get)
    qed
  qed
qed


lemma held_entry_ok:
  assumes inv: "cache_inv m"
  shows "held_entry m b = Some i \<Longrightarrow> \<exists>c. queue m ! i = (b, c) \<and> i < length (queue m) \<and> entry_ok (block_device m) (b, c)
      \<and> view m b = cache c \<and> handles m b = strong_count c - 1 \<and> 0 < handles m b"
    and "held_entry m b = None \<longleftrightarrow> handles m b = 0"
proof -
  show "\<exists>c. queue m ! i = (b, c) \<and> i < length (queue m) \<and> entry_ok (block_device m) (b, c)
      \<and> view m b = cache c \<and> handles m b = strong_count c - 1 \<and> 0 < handles m b" if h: "held_entry m b = Some i"
  proof -
    from h have p: "position (\<lambda>p. fst p = b) (queue m) = Some i" and s: "1 < strong_count (snd (queue m ! i))"
      by (auto simp: held_entry_def bind_eq_Some_conv split: if_splits)
    obtain c where "queue m ! i = (b, c)" "i < length (queue m)" "entry_ok (block_device m) (b, c)"
      "view m b = cache c" "handles m b = strong_count c - 1" by (rule cached_entry [OF inv p])
    with s show ?thesis by auto
  qed
  show "held_entry m b = None \<longleftrightarrow> handles m b = 0"
  proof (cases "position (\<lambda>p. fst p = b) (queue m)")
    case None
    then have "map_of (queue m) b = None" by (simp only: position_fst_None)
    then show ?thesis unfolding held_entry_def None by (simp add: handles_def)
  next
    case (Some i)
    obtain c where "queue m ! i = (b, c)" "handles m b = strong_count c - 1" "entry_ok (block_device m) (b, c)"
      by (rule cached_entry [OF inv Some])
    with Some show ?thesis by (auto simp: held_entry_def entry_ok_def)
  qed
qed

lemma sync_entries_ok:
  assumes "distinct (map fst q)" "\<forall>p \<in> set q. entry_ok dev p" "sync_entries q dev = (q', dev')"
  shows "map fst q' = map fst q \<and> (\<forall>p \<in> set q'. entry_ok dev' p \<and> \<not> modified (snd p))
    \<and> (\<forall>b. map_option cache (map_of q' b) = map_option cache (map_of q b)
       \<and> map_option strong_count (map_of q' b) = map_option strong_count (map_of q b)
       \<and> (map_of q b = None \<longrightarrow> dev' b = dev b))"
  using assms
proof (induction q arbitrary: dev q' dev')
  case Nil
  then show ?case by simp
next
  case (Cons p q)
  obtain x c where p: "p = (x, c)" by (cases p)
  obtain c1 d1 where c1: "cache_sync c dev = (c1, d1)" by (cases "cache_sync c dev")
  obtain q1 d2 where q1: "sync_entries q d1 = (q1, d2)" by (cases "sync_entries q d1")
  have h: "distinct (map fst q)" "x \<notin> fst ` set q" "entry_ok dev (x, c)" "\<forall>p \<in> set q. entry_ok dev p"
    "q' = (x, c1) # q1" "dev' = d2" using Cons.prems p c1 q1 by auto
  have d1: "d1 x = cache c" "\<And>y. y \<noteq> x \<Longrightarrow> d1 y = dev y" "cache c1 = cache c" "\<not> modified c1" "block_id c1 = x"
    "strong_count c1 = strong_count c" "1 \<le> strong_count c"
    using h(3) c1 by (auto simp: cache_sync_def entry_ok_def split: if_splits)
  have "\<forall>p \<in> set q. entry_ok d1 p"
  proof
    fix r assume r: "r \<in> set q"
    obtain y e where ye: "r = (y, e)" by (cases r)
    have "y \<noteq> x" using h(2) r ye by (auto simp: image_iff)
    with h(4) r ye d1(2) show "entry_ok d1 r" by (auto simp: entry_ok_def)
  qed
  note ih = Cons.IH [OF h(1) this q1]
  have "map_of q x = None" using h(2) by (simp add: map_of_eq_None_iff)
  then have "d2 x = d1 x" using ih by simp
  then have "entry_ok d2 (x, c1) \<and> \<not> modified c1" using d1 by (simp add: entry_ok_def)
  with ih h(5,6) p d1 show ?case by simp
qed

lemma sync_all_ok:
  assumes "cache_inv m"
  shows "cache_inv (block_cache_sync_all m)" "view (block_cache_sync_all m) = view m"
    "handles (block_cache_sync_all m) = handles m" "block_device (block_cache_sync_all m) = view m"
proof -
  obtain q d where q: "sync_entries (queue m) (block_device m) = (q, d)" by (cases "sync_entries (queue m) (block_device m)")
  have inv: "distinct (map fst (queue m))" "\<forall>p \<in> set (queue m). entry_ok (block_device m) p"
    "length (queue m) \<le> BLOCK_CACHE_SIZE" using assms by (auto simp: cache_inv_def)
  have s: "map fst q = map fst (queue m)" "\<forall>p \<in> set q. entry_ok d p \<and> \<not> modified (snd p)"
    "\<And>b. map_option cache (map_of q b) = map_option cache (map_of (queue m) b)"
    "\<And>b. map_option strong_count (map_of q b) = map_option strong_count (map_of (queue m) b)"
    "\<And>b. map_of (queue m) b = None \<Longrightarrow> d b = block_device m b"
    using sync_entries_ok [OF inv(1,2) q] by blast+
  have m: "block_cache_sync_all m = \<lparr>queue = q, block_device = d\<rparr>" by (simp add: block_cache_sync_all_def q)
  have len: "length q = length (queue m)" using s(1) by (metis length_map)
  show "cache_inv (block_cache_sync_all m)" using inv s(1,2) len by (simp add: m cache_inv_def)
  show v: "view (block_cache_sync_all m) = view m"
  proof (rule ext)
    fix b show "view (block_cache_sync_all m) b = view m b"
      using s(3) [of b] s(5) [of b] by (auto simp: m view_def split: option.splits)
  qed
  show "handles (block_cache_sync_all m) = handles m"
  proof (rule ext)
    fix b show "handles (block_cache_sync_all m) b = handles m b"
      using s(4) [of b] by (auto simp: m handles_def split: option.splits)
  qed
  show "block_device (block_cache_sync_all m) = view m"
  proof (rule ext)
    fix b
    have "d b = cache c" if "map_of q b = Some c" for c
      using s(2) map_of_SomeD [OF that] by (auto simp: entry_ok_def)
    then show "block_device (block_cache_sync_all m) b = view m b"
      unfolding v [symmetric] by (auto simp: m view_def split: option.splits)
  qed
qed

subsection \<open>The cache is transparent\<close>

text \<open>
  What the file system does with the cache: it takes handles of blocks, reads and writes through
  them, drops them and synchronizes. Both machines keep the log of the bytes read.
\<close>

datatype cache_op = Acquire nat | ReadAt nat nat nat | WriteAt nat nat "u8 list" | Release nat | SyncAll

fun cache_step :: "block_cache_manager \<times> u8 list list \<Rightarrow> cache_op \<Rightarrow> (block_cache_manager \<times> u8 list list) outcome" where
  "cache_step (m, log) (Acquire b) = do { m' \<leftarrow> get_block_cache m b; Some (m', log) }"
| "cache_step (m, log) (ReadAt b off sz) = do { bs \<leftarrow> read_held m b off sz; Some (m, log @ [bs]) }"
| "cache_step (m, log) (WriteAt b off bs) = do { m' \<leftarrow> modify_held m b off bs; Some (m', log) }"
| "cache_step (m, log) (Release b) = do { m' \<leftarrow> release m b; Some (m', log) }"
| "cache_step (m, log) SyncAll = Some (block_cache_sync_all m, log)"

text \<open>The specification is a disk without a cache; at most sixteen different blocks may be held.\<close>

fun disk_step :: "disk \<times> (nat \<Rightarrow> nat) \<times> u8 list list \<Rightarrow> cache_op \<Rightarrow> (disk \<times> (nat \<Rightarrow> nat) \<times> u8 list list) outcome" where
  "disk_step (d, h, log) (Acquire b) =
     (if 0 < h b \<or> card {x. 0 < h x} < BLOCK_CACHE_SIZE then Some (d, h(b := h b + 1), log) else None)"
| "disk_step (d, h, log) (ReadAt b off sz) =
     (if 0 < h b \<and> off + sz \<le> BLOCK_SZ then Some (d, h, log @ [map (d b) [off..<off + sz]]) else None)"
| "disk_step (d, h, log) (WriteAt b off bs) =
     (if 0 < h b \<and> off + length bs \<le> BLOCK_SZ
      then Some (d(b := (\<lambda>i. if off \<le> i \<and> i < off + length bs then bs ! (i - off) else d b i)), h, log) else None)"
| "disk_step (d, h, log) (Release b) = (if 0 < h b then Some (d, h(b := h b - 1), log) else None)"
| "disk_step (d, h, log) SyncAll = Some (d, h, log)"

lemma modify_held_ok:
  assumes inv: "cache_inv m"
  shows "if 0 < handles m b \<and> off + length bs \<le> BLOCK_SZ
    then \<exists>m'. modify_held m b off bs = Some m' \<and> cache_inv m' \<and> handles m' = handles m
      \<and> view m' = (view m)(b := (\<lambda>i. if off \<le> i \<and> i < off + length bs then bs ! (i - off) else view m b i))
    else modify_held m b off bs = None"
proof (cases "held_entry m b")
  case None
  then have "handles m b = 0" using held_entry_ok(2) [OF inv] by blast
  then show ?thesis unfolding modify_held_def None by simp
next
  case (Some i)
  from held_entry_ok(1) [OF inv Some] obtain c where c: "queue m ! i = (b, c)" "i < length (queue m)"
    "entry_ok (block_device m) (b, c)" "view m b = cache c" "handles m b = strong_count c - 1" "0 < handles m b" by blast
  let ?c = "c\<lparr>modified := True,
             cache := (\<lambda>i. if off \<le> i \<and> i < off + length bs then bs ! (i - off) else cache c i)\<rparr>"
  have ok: "entry_ok (block_device m) (b, ?c)" using c(3) by (simp add: entry_ok_def)
  have f: "fst (queue m ! i) = b" using c(1) by simp
  note u = set_entry_ok [OF inv c(2) f ok]
  have "(handles m)(b := handles m b) = handles m" by simp
  moreover have "modify_held m b off bs =
      (if off + length bs \<le> BLOCK_SZ then Some (m\<lparr>queue := (queue m)[i := (b, ?c)]\<rparr>) else None)"
    unfolding modify_held_def Some cache_modify_def by (simp add: c(1) cong: if_cong)
  ultimately show ?thesis using u c by (simp cong: if_cong)
qed

lemma release_ok:
  assumes inv: "cache_inv m"
  shows "if 0 < handles m b then \<exists>m'. release m b = Some m' \<and> cache_inv m' \<and> view m' = view m
      \<and> handles m' = (handles m)(b := handles m b - 1) else release m b = None"
proof (cases "held_entry m b")
  case None
  then have "handles m b = 0" using held_entry_ok(2) [OF inv] by blast
  then show ?thesis unfolding release_def None by simp
next
  case (Some i)
  from held_entry_ok(1) [OF inv Some] obtain c where c: "queue m ! i = (b, c)" "i < length (queue m)"
    "entry_ok (block_device m) (b, c)" "view m b = cache c" "handles m b = strong_count c - 1" "0 < handles m b" by blast
  let ?c = "c\<lparr>strong_count := strong_count c - 1\<rparr>"
  have ok: "entry_ok (block_device m) (b, ?c)" using c(3,5,6) by (auto simp: entry_ok_def)
  have f: "fst (queue m ! i) = b" using c(1) by simp
  note u = set_entry_ok [OF inv c(2) f ok]
  have "(view m)(b := view m b) = view m" by simp
  with u c Some show ?thesis by (simp add: release_def Let_def)
qed

lemma read_held_ok:
  assumes "cache_inv m"
  shows "read_held m b off sz = (if 0 < handles m b \<and> off + sz \<le> BLOCK_SZ
    then Some (map (view m b) [off..<off + sz]) else None)"
proof (cases "held_entry m b")
  case None
  then have "handles m b = 0" using held_entry_ok(2) [OF assms] by blast
  then show ?thesis unfolding read_held_def None by simp
next
  case (Some i)
  from held_entry_ok(1) [OF assms Some] obtain c where "queue m ! i = (b, c)" "view m b = cache c" "0 < handles m b" by blast
  with Some show ?thesis by (simp add: read_held_def cache_read_def)
qed

interpretation cached: simulation cache_step disk_step "\<lambda>(m, log). (view m, handles m, log)"
  "\<lambda>n (m, log). cache_inv m" 0 "\<lambda>op. True"
proof (unfold_locales, goal_cases)
  case (1 n s op a)
  obtain m log where s: "s = (m, log)" by (cases s)
  with 1 have inv: "cache_inv m" and st: "disk_step (view m, handles m, log) op = Some a" by auto
  show ?case
  proof (cases op)
    case (Acquire b)
    with st s get_block_cache_ok [OF inv, of b] show ?thesis by (auto split: if_splits)
  next
    case (ReadAt b off sz)
    with st s inv read_held_ok [OF inv, of b off sz] show ?thesis by (auto split: if_splits)
  next
    case (WriteAt b off bs)
    with st s modify_held_ok [OF inv, of b off bs] show ?thesis by (auto split: if_splits)
  next
    case (Release b)
    with st s release_ok [OF inv, of b] show ?thesis by (auto split: if_splits)
  next
    case SyncAll
    with st s sync_all_ok [OF inv] show ?thesis by auto
  qed
next
  case (2 n s op)
  obtain m log where s: "s = (m, log)" by (cases s)
  with 2 have inv: "cache_inv m" and st: "disk_step (view m, handles m, log) op = None" by auto
  show ?case
  proof (cases op)
    case (Acquire b)
    with st s get_block_cache_ok [OF inv, of b] show ?thesis by (auto split: if_splits)
  next
    case (ReadAt b off sz)
    with st s read_held_ok [OF inv, of b off sz] show ?thesis by (auto split: if_splits)
  next
    case (WriteAt b off bs)
    with st s modify_held_ok [OF inv, of b off bs] show ?thesis by (auto split: if_splits)
  next
    case (Release b)
    with st s release_ok [OF inv, of b] show ?thesis by (auto split: if_splits)
  next
    case SyncAll
    with st show ?thesis by simp
  qed
qed

subsection \<open>Properties\<close>

text \<open>C9: the block cache is transparent. Started empty in front of any device, whatever sequence
  of acquiring, reading, writing, releasing and synchronizing blocks follows, the cache behaves as
  the disk itself: every read returns the bytes last written, replacement and write-back lose
  nothing, and the cache panics exactly when an access leaves its block, uses a block nobody holds,
  or sixteen other blocks are held at once.\<close>

theorem cache_is_transparent:
  "case run disk_step (dev, (\<lambda>_. 0), []) ops of
     Some (d, h, log) \<Rightarrow> \<exists>m. run cache_step (manager_new dev, []) ops = Some (m, log) \<and> view m = d \<and> handles m = h
   | None \<Rightarrow> run cache_step (manager_new dev, []) ops = None"
proof -
  have v: "view (manager_new dev) = dev" "handles (manager_new dev) = (\<lambda>_. 0)"
    by (auto simp: view_def handles_def manager_new_def fun_eq_iff)
  have "case (manager_new dev, []) of (m, log) \<Rightarrow> cache_inv m" by (simp add: manager_new_def cache_inv_def)
  from cached.run_refines [of "(manager_new dev, [])" ops] this show ?thesis
    unfolding prod.case v by (auto split: option.splits)
qed

text \<open>Synchronization makes everything durable: after \<^verbatim>\<open>block_cache_sync_all\<close> the
  device itself holds the blocks as the callers see them, and what they see is unchanged.\<close>

lemma sync_all_durable:
  assumes "run cache_step (manager_new dev, []) ops = Some (m, log)"
  shows "block_device (block_cache_sync_all m) = view m \<and> view (block_cache_sync_all m) = view m"
proof -
  have "case (manager_new dev, []) of (m, log) \<Rightarrow> cache_inv m" by (simp add: manager_new_def cache_inv_def)
  from cached.run_refines [of "(manager_new dev, [])" ops] this assms have "cache_inv m"
    by (auto split: option.splits)
  then show ?thesis using sync_all_ok by simp
qed

end
