(* ===== verification/Bytes.thy ===== *)
theory Bytes
  imports BlockCache
begin

section \<open>Typed access to blocks\<close>

text \<open>
  The file system reads and writes its structures through references to typed values inside a
  cached block; the target is little endian. A number of n bytes is read by \<^verbatim>\<open>get_le\<close> and
  written by \<^verbatim>\<open>put_le\<close>. A cached block is read and modified as a whole value, so from here
  on the state of the file system is the disk as seen through the cache (theorem
  \<^verbatim>\<open>cache_is_transparent\<close>).
\<close>

fun get_le :: "nat \<Rightarrow> block \<Rightarrow> nat \<Rightarrow> nat" where
  "get_le 0 blk off = 0"
| "get_le (Suc n) blk off = unat (blk off) + 256 * get_le n blk (Suc off)"

definition put_le :: "nat \<Rightarrow> block \<Rightarrow> nat \<Rightarrow> nat \<Rightarrow> block" where
  "put_le n blk off v = (\<lambda>i. if off \<le> i \<and> i < off + n then of_nat (v div 256 ^ (i - off)) else blk i)"

definition get_bytes :: "block \<Rightarrow> nat \<Rightarrow> nat \<Rightarrow> u8 list" where
  "get_bytes blk off n = map blk [off..<off + n]"

definition put_bytes :: "block \<Rightarrow> nat \<Rightarrow> u8 list \<Rightarrow> block" where
  "put_bytes blk off bs = (\<lambda>i. if off \<le> i \<and> i < off + length bs then bs ! (i - off) else blk i)"

lemma unat_of_nat_u8: "unat (of_nat n :: u8) = n mod 256"
  by (simp only: unat_of_nat) simp

lemma get_le_put_le_part:
  "j + k \<le> n \<Longrightarrow> get_le k (put_le n blk off v) (off + j) = v div 256 ^ j mod 256 ^ k"
proof (induction k arbitrary: j)
  case (Suc k)
  have "get_le k (put_le n blk off v) (off + Suc j) = v div 256 ^ Suc j mod 256 ^ k"
    using Suc.prems by (intro Suc.IH) simp
  moreover have "unat (put_le n blk off v (off + j)) = v div 256 ^ j mod 256"
    using Suc.prems by (simp add: put_le_def unat_of_nat_u8)
  moreover have "v div 256 ^ Suc j = v div 256 ^ j div 256" by (metis div_mult2_eq power_Suc2)
  ultimately show ?case by (simp add: mod_mult2_eq)
qed simp

lemma get_put_le [simp]: "get_le n (put_le n blk off v) off = v mod 256 ^ n"
  using get_le_put_le_part [of 0 n n blk off v] by simp

lemma get_le_cong: "(\<And>i. off \<le> i \<Longrightarrow> i < off + n \<Longrightarrow> f i = g i) \<Longrightarrow> get_le n f off = get_le n g off"
  by (induction n arbitrary: off) auto

lemma get_put_le_other: "off + n \<le> off' \<or> off' + m \<le> off \<Longrightarrow> get_le n (put_le m blk off' v) off = get_le n blk off"
  by (rule get_le_cong) (auto simp: put_le_def)

lemma get_le_bound: "get_le n blk off < 256 ^ n"
proof (induction n arbitrary: off)
  case (Suc n)
  have "unat (blk off) < 256" using unsigned_less [of "blk off", where ?'a = nat] by simp
  with Suc.IH [of "Suc off"] show ?case by simp
qed simp

lemma get_le_zero [simp]: "get_le n (\<lambda>_. 0) off = 0"
  by (induction n arbitrary: off) auto

lemma get_le_4_mod [simp]: "get_le 4 blk off mod 2 ^ 32 = get_le 4 blk off"
  using get_le_bound [of 4 blk off] by simp

lemma length_get_bytes [simp]: "length (get_bytes blk off n) = n"
  by (simp add: get_bytes_def)

lemma get_put_bytes [simp]: "get_bytes (put_bytes blk off bs) off (length bs) = bs"
  by (rule nth_equalityI) (auto simp: get_bytes_def put_bytes_def)

lemma get_put_bytes_other:
  "off + n \<le> off' \<or> off' + length bs \<le> off \<Longrightarrow> get_bytes (put_bytes blk off' bs) off n = get_bytes blk off n"
  by (auto simp: get_bytes_def put_bytes_def)

text \<open>Both typed accesses through the cache are the untyped ones of \<^verbatim>\<open>cache_modify\<close>.\<close>

lemma put_le_eq_put_bytes:
  "put_le n blk off v = put_bytes blk off (map (\<lambda>k. of_nat (v div 256 ^ k)) [0..<n])"
  by (rule ext) (auto simp: put_le_def put_bytes_def)

lemma cache_modify_put_bytes:
  "off + length bs \<le> BLOCK_SZ \<Longrightarrow>
   cache_modify c off bs = Some (c\<lparr>modified := True, cache := put_bytes (cache c) off bs\<rparr>)"
  by (simp add: cache_modify_def put_bytes_def)

end
