(* ===== verification/Bitmap.thy ===== *)
theory Bitmap
  imports Bytes
begin

section \<open>Allocation bitmaps\<close>

text \<open>
  easy-fs/src/bitmap.rs: a run of blocks, each an array of 64 words of 64 bits; a set bit is an
  allocated inode or data block. \<^verbatim>\<open>alloc\<close> sets the first clear bit, \<^verbatim>\<open>dealloc\<close>
  clears a bit and asserts that it was set. The abstract state is the set of allocated bits.
\<close>

definition BLOCK_BITS :: nat where "BLOCK_BITS = BLOCK_SZ * 8"

record bitmap =
  start_block_id :: nat
  blocks :: nat

definition bitmap_new :: "nat \<Rightarrow> nat \<Rightarrow> bitmap" where
  "bitmap_new s n = \<lparr>start_block_id = s, blocks = n\<rparr>"

definition decomposition :: "nat \<Rightarrow> nat \<times> nat \<times> nat" where
  "decomposition b = (b div BLOCK_BITS, b mod BLOCK_BITS div 64, b mod BLOCK_BITS mod 64)"

definition bits64 :: "block \<Rightarrow> nat \<Rightarrow> 64 word" where
  "bits64 blk k = of_nat (get_le 8 blk (8 * k))"

definition set_bits64 :: "block \<Rightarrow> nat \<Rightarrow> 64 word \<Rightarrow> block" where
  "set_bits64 blk k w = put_le 8 blk (8 * k) (unat w)"

definition trailing_ones :: "64 word \<Rightarrow> nat" where
  "trailing_ones w = (case position (\<lambda>i. \<not> bit w i) [0..<64] of Some i \<Rightarrow> i | None \<Rightarrow> 64)"

definition alloc_in_block :: "block \<Rightarrow> (nat \<times> nat \<times> block) option" where
  "alloc_in_block blk = (case position (\<lambda>w. w \<noteq> - 1) (map (bits64 blk) [0..<64]) of
     None \<Rightarrow> None
   | Some k \<Rightarrow> (let inner = trailing_ones (bits64 blk k) in
       Some (k, inner, set_bits64 blk k (or (bits64 blk k) (push_bit inner 1)))))"

fun bitmap_alloc_from :: "bitmap \<Rightarrow> disk \<Rightarrow> nat list \<Rightarrow> nat option \<times> disk" where
  "bitmap_alloc_from bm d [] = (None, d)"
| "bitmap_alloc_from bm d (b # bs) =
     (case alloc_in_block (d (b + start_block_id bm)) of
        Some (k, inner, blk) \<Rightarrow> (Some (b * BLOCK_BITS + k * 64 + inner), d(b + start_block_id bm := blk))
      | None \<Rightarrow> bitmap_alloc_from bm d bs)"

definition bitmap_alloc :: "bitmap \<Rightarrow> disk \<Rightarrow> nat option \<times> disk" where
  "bitmap_alloc bm d = bitmap_alloc_from bm d [0..<blocks bm]"

definition bitmap_dealloc :: "bitmap \<Rightarrow> disk \<Rightarrow> nat \<Rightarrow> disk outcome" where
  "bitmap_dealloc bm d b = (let (block_pos, bits64_pos, inner_pos) = decomposition b;
       blk = d (block_pos + start_block_id bm); w = bits64 blk bits64_pos in
     do {
       _ \<leftarrow> ensure (and w (push_bit inner_pos 1) > 0);
       Some (d(block_pos + start_block_id bm := set_bits64 blk bits64_pos (w - push_bit inner_pos 1)))
     })"

definition maximum :: "bitmap \<Rightarrow> nat" where
  "maximum bm = blocks bm * BLOCK_BITS"

subsection \<open>The set of allocated bits\<close>

definition block_bit :: "block \<Rightarrow> nat \<Rightarrow> bool" where
  "block_bit blk x = bit (bits64 blk (x div 64)) (x mod 64)"

definition bit_at :: "bitmap \<Rightarrow> disk \<Rightarrow> nat \<Rightarrow> bool" where
  "bit_at bm d b = block_bit (d (b div BLOCK_BITS + start_block_id bm)) (b mod BLOCK_BITS)"

definition allocated :: "bitmap \<Rightarrow> disk \<Rightarrow> nat set" where
  "allocated bm d = {b. b < maximum bm \<and> bit_at bm d b}"

lemma bits64_set [simp]: "bits64 (set_bits64 blk k w) j = (if j = k then w else bits64 blk j)"
proof (cases "j = k")
  case True
  have "unat w < 2 ^ 64" using unsigned_less [of w, where ?'a = nat] by simp
  with True show ?thesis by (simp add: bits64_def set_bits64_def)
next
  case False
  then have "8 * j + 8 \<le> 8 * k \<or> 8 * k + 8 \<le> 8 * j" by linarith
  with False show ?thesis by (simp add: bits64_def set_bits64_def get_put_le_other)
qed

lemma trailing_ones_ok:
  assumes "w \<noteq> - 1"
  shows "trailing_ones w < 64" "\<not> bit w (trailing_ones w)" "\<And>i. i < trailing_ones w \<Longrightarrow> bit w i"
proof -
  have "position (\<lambda>i. \<not> bit w i) [0..<64] \<noteq> None"
  proof
    assume "position (\<lambda>i. \<not> bit w i) [0..<64] = None"
    then have "w = - 1" by (intro bit_word_eqI) auto
    with assms show False by simp
  qed
  then obtain i where i: "position (\<lambda>i. \<not> bit w i) [0..<64] = Some i" by blast
  then have "trailing_ones w = i" by (simp add: trailing_ones_def)
  with position_SomeD [OF i] show "trailing_ones w < 64" "\<not> bit w (trailing_ones w)" "\<And>i. i < trailing_ones w \<Longrightarrow> bit w i"
    by auto
qed

lemma bit_or_single:
  fixes w :: "64 word"
  shows "i < 64 \<Longrightarrow> bit (or w (push_bit i 1)) j \<longleftrightarrow> bit w j \<or> j = i"
  by (auto simp: bit_simps)

lemma bit_minus_single:
  fixes w :: "64 word"
  assumes "bit w i"
  shows "bit (w - push_bit i 1) j \<longleftrightarrow> bit w j \<and> j \<noteq> i"
proof -
  have i: "i < 64" using assms bit_imp_le_length by fastforce
  let ?v = "and w (not (push_bit i 1))"
  have "and ?v (push_bit i 1) = 0"
    by (rule bit_word_eqI) (auto simp: bit_simps)
  then have "?v + push_bit i 1 = or ?v (push_bit i 1)" using word_plus_and_or [of ?v "push_bit i 1"] by simp
  also have "\<dots> = w" by (rule bit_word_eqI) (use assms i in \<open>auto simp: bit_simps\<close>)
  finally have "w - push_bit i 1 = ?v" by (simp add: diff_eq_eq)
  then show ?thesis using i bit_imp_le_length [of w j] by (auto simp: bit_simps)
qed

lemma and_single_pos:
  fixes w :: "64 word"
  assumes "i < 64" shows "and w (push_bit i 1) > 0 \<longleftrightarrow> bit w i"
proof -
  have "and w (push_bit i 1) = 0 \<longleftrightarrow> \<not> bit w i"
  proof
    assume "and w (push_bit i 1) = 0"
    then have "\<not> bit (and w (push_bit i 1)) i" by simp
    with assms show "\<not> bit w i" by (simp add: bit_simps)
  next
    assume "\<not> bit w i"
    then show "and w (push_bit i 1) = 0" by (intro bit_word_eqI) (auto simp: bit_simps)
  qed
  then show ?thesis by (simp add: word_gt_0)
qed

lemma block_bits_eq: "BLOCK_BITS = 4096" by (simp add: BLOCK_BITS_def BLOCK_SZ_def)

lemma alloc_in_block_None: "alloc_in_block blk = None \<Longrightarrow> x < BLOCK_BITS \<Longrightarrow> block_bit blk x"
proof -
  assume n: "alloc_in_block blk = None" and x: "x < BLOCK_BITS"
  from n have "\<forall>w \<in> set (map (bits64 blk) [0..<64]). \<not> w \<noteq> - 1"
    by (simp add: alloc_in_block_def Let_def split: option.splits)
  moreover have "x div 64 < 64" using x by (simp add: block_bits_eq less_mult_imp_div_less)
  ultimately have "bits64 blk (x div 64) = - 1" by simp
  then show "block_bit blk x" by (simp add: block_bit_def)
qed

lemma alloc_in_block_Some:
  assumes "alloc_in_block blk = Some (k, t, blk')"
  shows "k * 64 + t < BLOCK_BITS" "\<not> block_bit blk (k * 64 + t)" "\<And>y. y < k * 64 + t \<Longrightarrow> block_bit blk y"
    "\<And>y. block_bit blk' y \<longleftrightarrow> block_bit blk y \<or> y = k * 64 + t"
proof -
  from assms have p: "position (\<lambda>w. w \<noteq> - 1) (map (bits64 blk) [0..<64]) = Some k"
    and t: "t = trailing_ones (bits64 blk k)" and b: "blk' = set_bits64 blk k (or (bits64 blk k) (push_bit t 1))"
    by (auto simp: alloc_in_block_def Let_def split: option.splits)
  from position_SomeD [OF p] have k: "k < 64" "bits64 blk k \<noteq> - 1" "\<And>j. j < k \<Longrightarrow> bits64 blk j = - 1" by auto
  note tr = trailing_ones_ok [OF k(2), folded t]
  show "k * 64 + t < BLOCK_BITS" using k(1) tr(1) by (simp add: block_bits_eq)
  have dm: "(k * 64 + t) div 64 = k" "(k * 64 + t) mod 64 = t" using tr(1) by auto
  show "\<not> block_bit blk (k * 64 + t)" using tr(2) by (simp only: block_bit_def dm simp_thms)
  show "block_bit blk y" if "y < k * 64 + t" for y
  proof (cases "y div 64 < k")
    case True
    then show ?thesis by (simp add: block_bit_def k(3))
  next
    case False
    have "k * 64 + t < Suc k * 64" using tr(1) by simp
    with that have "y < Suc k * 64" by linarith
    then have "y div 64 < Suc k" by (rule less_mult_imp_div_less)
    with False have "y div 64 = k" by simp
    moreover have "y = y div 64 * 64 + y mod 64" by simp
    ultimately have "y div 64 = k \<and> y mod 64 < t" using that by simp
    with tr(3) show ?thesis by (simp add: block_bit_def)
  qed
  show "block_bit blk' y \<longleftrightarrow> block_bit blk y \<or> y = k * 64 + t" for y
  proof (cases "y div 64 = k")
    case True
    moreover have "y = k * 64 + t \<longleftrightarrow> y mod 64 = t" using True dm(2) by (metis div_mod_decomp)
    ultimately show ?thesis using bit_or_single [OF tr(1)] by (simp add: block_bit_def b)
  next
    case False
    with dm show ?thesis by (auto simp: block_bit_def b)
  qed
qed

lemma bitmap_alloc_from_ok:
  assumes "bitmap_alloc_from bm d [j..<blocks bm] = (r, d')" and "\<And>b. b div BLOCK_BITS < j \<Longrightarrow> bit_at bm d b"
  shows "case r of
      None \<Rightarrow> d' = d \<and> (\<forall>b < maximum bm. bit_at bm d b)
    | Some b \<Rightarrow> b < maximum bm \<and> \<not> bit_at bm d b \<and> (\<forall>c < b. bit_at bm d c) \<and> (\<forall>c. bit_at bm d' c \<longleftrightarrow> bit_at bm d c \<or> c = b)
        \<and> (\<forall>x. x < start_block_id bm \<or> start_block_id bm + blocks bm \<le> x \<longrightarrow> d' x = d x)"
  using assms
proof (induction "blocks bm - j" arbitrary: j)
  case 0
  then have "j \<ge> blocks bm" by simp
  with 0 have "r = None" "d' = d" by simp_all
  moreover have "bit_at bm d b" if "b < maximum bm" for b
    using that 0 \<open>j \<ge> blocks bm\<close> by (simp add: maximum_def less_mult_imp_div_less order_less_le_trans)
  ultimately show ?case by simp
next
  case (Suc n)
  then have j: "j < blocks bm" by simp
  let ?blk = "d (j + start_block_id bm)"
  show ?case
  proof (cases "alloc_in_block ?blk")
    case None
    have "bit_at bm d b" if "b div BLOCK_BITS < Suc j" for b
    proof (cases "b div BLOCK_BITS = j")
      case True
      moreover have "b mod BLOCK_BITS < BLOCK_BITS" by (simp add: block_bits_eq)
      ultimately show ?thesis using alloc_in_block_None [OF None] by (simp add: bit_at_def)
    qed (use that Suc.prems(2) in simp)
    moreover have "bitmap_alloc_from bm d [Suc j..<blocks bm] = (r, d')"
      using Suc.prems(1) j None by (simp add: upt_rec [of j])
    moreover have "n = blocks bm - Suc j" using Suc.hyps(2) by simp
    ultimately show ?thesis using Suc.hyps(1) by blast
  next
    case (Some p)
    obtain k t blk' where p: "p = (k, t, blk')" by (cases p)
    note a = alloc_in_block_Some [OF Some [unfolded p]]
    let ?x = "k * 64 + t" let ?b = "j * BLOCK_BITS + ?x"
    have r: "r = Some ?b" "d' = d(j + start_block_id bm := blk')"
      using Suc.prems(1) j Some p by (auto simp: upt_rec [of j])
    have dm: "?b div BLOCK_BITS = j" "?b mod BLOCK_BITS = ?x" using a(1) by (simp_all add: block_bits_eq)
    have split: "c = ?b \<longleftrightarrow> c div BLOCK_BITS = j \<and> c mod BLOCK_BITS = ?x" for c
      using dm by (metis div_mod_decomp)
    have lt: "bit_at bm d c" if "c < ?b" for c
    proof (cases "c div BLOCK_BITS < j")
      case False
      with that dm(1) have e: "c div BLOCK_BITS = j" by (metis div_le_mono le_antisym less_imp_le_nat not_less)
      with that dm have "c mod BLOCK_BITS < ?x" by (metis div_mod_decomp nat_add_left_cancel_less)
      with a(3) e show ?thesis by (simp add: bit_at_def)
    qed (use Suc.prems(2) in simp)
    have "Suc j * BLOCK_BITS \<le> maximum bm" using j unfolding maximum_def by (intro mult_le_mono1) simp
    then have "?b < maximum bm" using a(1) by simp
    moreover have "\<not> bit_at bm d ?b" using a(2) unfolding bit_at_def dm .
    moreover have "bit_at bm d' c \<longleftrightarrow> bit_at bm d c \<or> c = ?b" for c
      unfolding split by (auto simp: bit_at_def r a(4))
    moreover have "d' x = d x" if "x < start_block_id bm \<or> start_block_id bm + blocks bm \<le> x" for x
      using that j by (auto simp: r)
    ultimately show ?thesis using lt unfolding r(1) by simp
  qed
qed

lemma bitmap_alloc_ok:
  assumes "bitmap_alloc bm d = (r, d')"
  shows "case r of
      None \<Rightarrow> d' = d \<and> (\<forall>b < maximum bm. bit_at bm d b)
    | Some b \<Rightarrow> b < maximum bm \<and> \<not> bit_at bm d b \<and> (\<forall>c < b. bit_at bm d c) \<and> (\<forall>c. bit_at bm d' c \<longleftrightarrow> bit_at bm d c \<or> c = b)
        \<and> (\<forall>x. x < start_block_id bm \<or> start_block_id bm + blocks bm \<le> x \<longrightarrow> d' x = d x)"
  using bitmap_alloc_from_ok [of bm d 0 r d'] assms by (simp add: bitmap_alloc_def)

lemma bitmap_dealloc_ok:
  "if bit_at bm d b then \<exists>d'. bitmap_dealloc bm d b = Some d' \<and> (\<forall>c. bit_at bm d' c \<longleftrightarrow> bit_at bm d c \<and> c \<noteq> b)
     \<and> (\<forall>x. x \<noteq> b div BLOCK_BITS + start_block_id bm \<longrightarrow> d' x = d x)
   else bitmap_dealloc bm d b = None"
proof -
  let ?k = "b div BLOCK_BITS + start_block_id bm" let ?x = "b mod BLOCK_BITS"
  let ?w = "bits64 (d ?k) (?x div 64)"
  have i: "?x mod 64 < 64" by simp
  have at: "bit_at bm d b \<longleftrightarrow> bit ?w (?x mod 64)" by (simp add: bit_at_def block_bit_def)
  let ?d = "d(?k := set_bits64 (d ?k) (?x div 64) (?w - push_bit (?x mod 64) 1))"
  have eq: "bitmap_dealloc bm d b = (if bit_at bm d b then Some ?d else None)"
    unfolding bitmap_dealloc_def decomposition_def Let_def prod.case and_single_pos [OF i] at by simp
  have "bit_at bm ?d c \<longleftrightarrow> bit_at bm d c \<and> c \<noteq> b" if a: "bit_at bm d b" for c
  proof (cases "c div BLOCK_BITS = b div BLOCK_BITS \<and> c mod BLOCK_BITS div 64 = ?x div 64")
    case True
    moreover from True have "c = b \<longleftrightarrow> c mod BLOCK_BITS mod 64 = ?x mod 64" by (metis div_mod_decomp)
    ultimately show ?thesis using bit_minus_single [OF a [unfolded at]] by (simp add: bit_at_def block_bit_def)
  qed (auto simp: bit_at_def block_bit_def)
  with eq show ?thesis by auto
qed

subsection \<open>Refinement of a set of free numbers\<close>

datatype bitmap_op = AllocBit | DeallocBit nat

fun bitmap_step :: "bitmap \<Rightarrow> disk \<times> nat option list \<Rightarrow> bitmap_op \<Rightarrow> (disk \<times> nat option list) outcome" where
  "bitmap_step bm (d, log) AllocBit = (let (r, d') = bitmap_alloc bm d in Some (d', log @ [r]))"
| "bitmap_step bm (d, log) (DeallocBit b) = do { d' \<leftarrow> bitmap_dealloc bm d b; Some (d', log) }"

text \<open>The specification: a set of numbers below the maximum, the smallest free one is handed out.\<close>

fun set_step :: "nat \<Rightarrow> nat set \<times> 'x \<times> nat option list \<Rightarrow> bitmap_op \<Rightarrow> (nat set \<times> 'x \<times> nat option list) outcome" where
  "set_step n (A, rest, log) AllocBit =
     (if {..<n} \<subseteq> A then Some (A, rest, log @ [None])
      else let b = (LEAST b. b \<notin> A) in Some (insert b A, rest, log @ [Some b]))"
| "set_step n (A, rest, log) (DeallocBit b) = (if b \<in> A then Some (A - {b}, rest, log) else None)"

definition outside :: "bitmap \<Rightarrow> disk \<Rightarrow> nat \<Rightarrow> block option" where
  "outside bm d x = (if start_block_id bm \<le> x \<and> x < start_block_id bm + blocks bm then None else Some (d x))"

interpretation bits: simulation "bitmap_step bm" "set_step (maximum bm)" "\<lambda>(d, log). (allocated bm d, outside bm d, log)"
  "\<lambda>n s. True" 0 "\<lambda>op. case op of DeallocBit b \<Rightarrow> b < maximum bm | AllocBit \<Rightarrow> True" for bm
proof (unfold_locales, goal_cases)
  case (1 n s op a)
  obtain d log where s: "s = (d, log)" by (cases s)
  show ?case
  proof (cases op)
    case AllocBit
    obtain r d' where r: "bitmap_alloc bm d = (r, d')" by (cases "bitmap_alloc bm d")
    note ok = bitmap_alloc_ok [OF r]
    show ?thesis
    proof (cases r)
      case None
      with 1 s AllocBit r ok show ?thesis by (auto simp: allocated_def split: if_splits)
    next
      case (Some b)
      with ok have b: "b < maximum bm" "b \<notin> allocated bm d" "\<And>c. c < b \<Longrightarrow> c \<in> allocated bm d"
        and A: "allocated bm d' = insert b (allocated bm d)" and o: "outside bm d' = outside bm d"
        by (auto simp: allocated_def outside_def fun_eq_iff)
      have "(LEAST b. b \<notin> allocated bm d) = b" using b(2,3) by (intro Least_equality) (auto simp: not_less [symmetric])
      moreover have "\<not> {..<maximum bm} \<subseteq> allocated bm d" using b by auto
      ultimately show ?thesis using 1 s AllocBit r Some A o by simp
    qed
  next
    case (DeallocBit b)
    with 1 s have b: "b < maximum bm" "bit_at bm d b" by (auto simp: allocated_def split: if_splits)
    with bitmap_dealloc_ok [of bm d b] obtain d' where d': "bitmap_dealloc bm d b = Some d'"
      "\<And>c. bit_at bm d' c \<longleftrightarrow> bit_at bm d c \<and> c \<noteq> b" "\<And>x. x \<noteq> b div BLOCK_BITS + start_block_id bm \<Longrightarrow> d' x = d x" by auto
    have "b div BLOCK_BITS < blocks bm" using b(1) by (simp add: maximum_def less_mult_imp_div_less)
    then have "outside bm d' = outside bm d" using d'(3) by (fastforce simp: outside_def fun_eq_iff)
    moreover have "allocated bm d' = allocated bm d - {b}" using d'(2) by (auto simp: allocated_def)
    ultimately show ?thesis using 1 s DeallocBit d'(1) by (auto split: if_splits)
  qed
next
  case (2 n s op)
  obtain d log where s: "s = (d, log)" by (cases s)
  show ?case
  proof (cases op)
    case AllocBit
    with 2 s show ?thesis by (auto simp: Let_def split: if_splits)
  next
    case (DeallocBit b)
    with 2 s bitmap_dealloc_ok [of bm d b] show ?thesis by (auto simp: allocated_def split: if_splits)
  qed
qed

subsection \<open>Properties\<close>

text \<open>C20: a bitmap on disk is a set of allocated numbers. Whatever sequence of allocations and
  deallocations in range is performed, an allocation returns the smallest free number and fails
  only when all are taken, a deallocation panics exactly when the number is free, the bits on disk
  are the set, and no block outside the bitmap changes.\<close>

theorem bitmap_refines_set:
  assumes "\<forall>b. DeallocBit b \<in> set ops \<longrightarrow> b < maximum bm"
  shows "case run (set_step (maximum bm)) (allocated bm d, outside bm d, []) ops of
      Some (A, rest, log) \<Rightarrow> \<exists>d'. run (bitmap_step bm) (d, []) ops = Some (d', log)
        \<and> allocated bm d' = A \<and> outside bm d' = rest
    | None \<Rightarrow> run (bitmap_step bm) (d, []) ops = None"
proof -
  have "\<forall>op \<in> set ops. case op of DeallocBit b \<Rightarrow> b < maximum bm | AllocBit \<Rightarrow> True"
    using assms by (auto split: bitmap_op.splits)
  from bits.run_refines [where s = "(d, [])" and ops = ops and bm = bm] this show ?thesis by (auto split: option.splits)
qed

theorem bitmap_refines_set_witness:
  "\<exists>d'. run (bitmap_step (bitmap_new 1 1)) ((\<lambda>_ _. 0), []) [AllocBit, AllocBit, DeallocBit 0, AllocBit] = Some (d', [Some 0, Some 1, Some 0])
    \<and> allocated (bitmap_new 1 1) d' = {0, 1}"
proof -
  have e: "allocated (bitmap_new 1 1) (\<lambda>_ _. 0) = {}"
    by (simp add: allocated_def bit_at_def block_bit_def bits64_def)
  have m: "maximum (bitmap_new 1 1) = 4096" by (simp add: maximum_def bitmap_new_def block_bits_eq)
  have l: "(LEAST b. b \<notin> {}) = (0::nat)" "(LEAST b. b \<noteq> 0) = (1::nat)" "(LEAST b. b \<noteq> 1) = (0::nat)"
    by (auto intro!: Least_equality)
  have n: "\<not> {..<4096::nat} \<subseteq> {}" "\<not> {..<4096::nat} \<subseteq> {0}" "\<not> {..<4096::nat} \<subseteq> {1}"
    by (auto dest: subsetD [of _ _ 2] simp: lessThan_empty_iff)
  have "insert 0 {1} = {0, 1::nat}" "{1, 0} - {0} = {1::nat}" by auto
  with bitmap_refines_set [of "[AllocBit, AllocBit, DeallocBit 0, AllocBit]" "bitmap_new 1 1" "\<lambda>_ _. 0"] e m l n
  show ?thesis by (simp add: Let_def) blast
qed

end
