(* ===== verification/Layout.thy ===== *)
theory Layout
  imports Bitmap
begin

section \<open>The on-disk layout: super block, inodes, directory entries\<close>

text \<open>
  easy-fs/src/layout.rs. Fields of 32 bits are numbers below 2 ^ 32; the places where their
  arithmetic wraps are written out. An inode names its data blocks through 28 direct entries, one
  indirect block and one doubly indirect block. The operations get the inode by value together with
  the disk, as their closures get a reference into the cached inode block: they touch no other
  part of that block.
\<close>

definition EFS_MAGIC :: nat where "EFS_MAGIC = 0x3b800001"
definition INODE_DIRECT_COUNT :: nat where "INODE_DIRECT_COUNT = 28"
definition NAME_LENGTH_LIMIT :: nat where "NAME_LENGTH_LIMIT = 27"
definition INODE_INDIRECT1_COUNT :: nat where "INODE_INDIRECT1_COUNT = BLOCK_SZ div 4"
definition INODE_INDIRECT2_COUNT :: nat where "INODE_INDIRECT2_COUNT = INODE_INDIRECT1_COUNT * INODE_INDIRECT1_COUNT"
definition INDIRECT1_BOUND :: nat where "INDIRECT1_BOUND = INODE_DIRECT_COUNT + INODE_INDIRECT1_COUNT"
definition INDIRECT2_BOUND :: nat where "INDIRECT2_BOUND = INDIRECT1_BOUND + INODE_INDIRECT2_COUNT"

lemmas layout_consts = INODE_DIRECT_COUNT_def INODE_INDIRECT1_COUNT_def INODE_INDIRECT2_COUNT_def
  INDIRECT1_BOUND_def INDIRECT2_BOUND_def BLOCK_SZ_def

subsection \<open>Super block\<close>

record super_block =
  magic :: nat
  sb_total_blocks :: nat
  inode_bitmap_blocks :: nat
  inode_area_blocks :: nat
  data_bitmap_blocks :: nat
  data_area_blocks :: nat

definition super_block_initialize :: "nat \<Rightarrow> nat \<Rightarrow> nat \<Rightarrow> nat \<Rightarrow> nat \<Rightarrow> super_block" where
  "super_block_initialize t ib ia db da = \<lparr>magic = EFS_MAGIC, sb_total_blocks = t, inode_bitmap_blocks = ib,
     inode_area_blocks = ia, data_bitmap_blocks = db, data_area_blocks = da\<rparr>"

definition super_block_is_valid :: "super_block \<Rightarrow> bool" where
  "super_block_is_valid sb \<longleftrightarrow> magic sb = EFS_MAGIC"

definition get_super_block :: "block \<Rightarrow> super_block" where
  "get_super_block blk = \<lparr>magic = get_le 4 blk 0, sb_total_blocks = get_le 4 blk 4, inode_bitmap_blocks = get_le 4 blk 8,
     inode_area_blocks = get_le 4 blk 12, data_bitmap_blocks = get_le 4 blk 16, data_area_blocks = get_le 4 blk 20\<rparr>"

definition put_super_block :: "block \<Rightarrow> super_block \<Rightarrow> block" where
  "put_super_block blk sb = put_le 4 (put_le 4 (put_le 4 (put_le 4 (put_le 4 (put_le 4 blk 0 (magic sb)) 4 (sb_total_blocks sb))
     8 (inode_bitmap_blocks sb)) 12 (inode_area_blocks sb)) 16 (data_bitmap_blocks sb)) 20 (data_area_blocks sb)"

subsection \<open>Inodes\<close>

datatype disk_inode_type = File | Directory

record disk_inode =
  i_size :: nat
  direct :: "nat list"
  indirect1 :: nat
  indirect2 :: nat
  inode_type :: disk_inode_type
  parent_inode :: nat

text \<open>The structure takes 132 bytes: the type is one byte at offset 124, followed by padding.\<close>

definition DISK_INODE_SZ :: nat where "DISK_INODE_SZ = 132"

definition get_disk_inode :: "block \<Rightarrow> nat \<Rightarrow> disk_inode" where
  "get_disk_inode blk off = \<lparr>i_size = get_le 4 blk off,
     direct = map (\<lambda>i. get_le 4 blk (off + 4 + 4 * i)) [0..<INODE_DIRECT_COUNT],
     indirect1 = get_le 4 blk (off + 116), indirect2 = get_le 4 blk (off + 120),
     inode_type = (if blk (off + 124) = 1 then Directory else File), parent_inode = get_le 4 blk (off + 128)\<rparr>"

fun put_direct :: "block \<Rightarrow> nat \<Rightarrow> nat list \<Rightarrow> block" where
  "put_direct blk off [] = blk"
| "put_direct blk off (v # vs) = put_direct (put_le 4 blk off v) (off + 4) vs"

definition put_disk_inode :: "block \<Rightarrow> nat \<Rightarrow> disk_inode \<Rightarrow> block" where
  "put_disk_inode blk off di =
     put_le 4 (put_le 1 (put_le 4 (put_le 4 (put_direct (put_le 4 blk off (i_size di)) (off + 4) (direct di))
       (off + 116) (indirect1 di)) (off + 120) (indirect2 di))
       (off + 124) (case inode_type di of File \<Rightarrow> 0 | Directory \<Rightarrow> 1)) (off + 128) (parent_inode di)"

definition disk_inode_initialize :: "disk_inode_type \<Rightarrow> disk_inode" where
  "disk_inode_initialize t = \<lparr>i_size = 0, direct = replicate INODE_DIRECT_COUNT 0, indirect1 = 0, indirect2 = 0,
     inode_type = t, parent_inode = 0\<rparr>"

definition is_dir :: "disk_inode \<Rightarrow> bool" where "is_dir di \<longleftrightarrow> inode_type di = Directory"
definition is_file :: "disk_inode \<Rightarrow> bool" where "is_file di \<longleftrightarrow> inode_type di = File"

text \<open>The addition wraps at 32 bits.\<close>

definition blocks_for :: "nat \<Rightarrow> nat" where
  "blocks_for sz = (sz + BLOCK_SZ - 1) mod 2 ^ 32 div BLOCK_SZ"

definition data_blocks :: "disk_inode \<Rightarrow> nat" where
  "data_blocks di = blocks_for (i_size di)"

definition total_blocks :: "nat \<Rightarrow> nat" where
  "total_blocks sz = (let n = blocks_for sz in
     n + (if n > INODE_DIRECT_COUNT then 1 else 0)
       + (if n > INDIRECT1_BOUND
          then 1 + (n - INDIRECT1_BOUND + INODE_INDIRECT1_COUNT - 1) div INODE_INDIRECT1_COUNT else 0))"

definition blocks_num_needed :: "disk_inode \<Rightarrow> nat \<Rightarrow> nat outcome" where
  "blocks_num_needed di new_size = do {
     _ \<leftarrow> ensure (i_size di \<le> new_size);
     Some ((2 ^ 32 + total_blocks new_size - total_blocks (i_size di)) mod 2 ^ 32)
   }"

text \<open>Entries of an index block, with the bounds check of the array.\<close>

definition get_entry :: "block \<Rightarrow> nat \<Rightarrow> nat outcome" where
  "get_entry blk i = do { _ \<leftarrow> ensure (i < INODE_INDIRECT1_COUNT); Some (get_le 4 blk (4 * i)) }"

definition set_entry :: "block \<Rightarrow> nat \<Rightarrow> nat \<Rightarrow> block outcome" where
  "set_entry blk i v = do { _ \<leftarrow> ensure (i < INODE_INDIRECT1_COUNT); Some (put_le 4 blk (4 * i) v) }"

definition get_block_id :: "disk_inode \<Rightarrow> nat \<Rightarrow> disk \<Rightarrow> nat outcome" where
  "get_block_id di inner_id d =
     (if inner_id < INODE_DIRECT_COUNT then idx (direct di) inner_id
      else if inner_id < INDIRECT1_BOUND then get_entry (d (indirect1 di)) (inner_id - INODE_DIRECT_COUNT)
      else let last = inner_id - INDIRECT1_BOUND in do {
        sub \<leftarrow> get_entry (d (indirect2 di)) (last div INODE_INDIRECT1_COUNT);
        get_entry (d sub) (last mod INODE_INDIRECT1_COUNT)
      })"

subsection \<open>Growing an inode\<close>

text \<open>\<^verbatim>\<open>new_blocks.next().unwrap()\<close>.\<close>

fun next_block :: "nat list \<Rightarrow> (nat \<times> nat list) outcome" where
  "next_block [] = None"
| "next_block (b # bs) = Some (b, bs)"

fun fill_direct :: "nat \<Rightarrow> nat \<Rightarrow> nat list \<Rightarrow> nat list \<Rightarrow> (nat \<times> nat list \<times> nat list) outcome" where
  "fill_direct cur lim ds [] = (if cur < lim then None else Some (cur, ds, []))"
| "fill_direct cur lim ds (b # bs) =
     (if cur < lim then do { ds' \<leftarrow> upd ds cur b; fill_direct (Suc cur) lim ds' bs } else Some (cur, ds, b # bs))"

fun fill_indirect1 :: "nat \<Rightarrow> nat \<Rightarrow> block \<Rightarrow> nat list \<Rightarrow> (nat \<times> block \<times> nat list) outcome" where
  "fill_indirect1 cur lim blk [] = (if cur < lim then None else Some (cur, blk, []))"
| "fill_indirect1 cur lim blk (b # bs) =
     (if cur < lim then do { blk' \<leftarrow> set_entry blk cur b; fill_indirect1 (Suc cur) lim blk' bs } else Some (cur, blk, b # bs))"

definition fill_sub :: "nat \<Rightarrow> nat \<Rightarrow> nat \<Rightarrow> disk \<Rightarrow> nat list \<Rightarrow> (disk \<times> nat list) outcome" where
  "fill_sub a0 b0 ind2 d bs = do {
     (d, bs) \<leftarrow> (if b0 = 0 then do { (x, bs) \<leftarrow> next_block bs; blk \<leftarrow> set_entry (d ind2) a0 x; Some (d(ind2 := blk), bs) }
                 else Some (d, bs));
     sub \<leftarrow> get_entry (d ind2) a0;
     (y, bs) \<leftarrow> next_block bs;
     blk \<leftarrow> set_entry (d sub) b0 y;
     Some (d(sub := blk), bs)
   }"

lemma fill_sub_length: "fill_sub a0 b0 ind2 d bs = Some (d', bs') \<Longrightarrow> length bs' < length bs"
  by (cases bs; cases "tl bs") (auto simp: fill_sub_def bind_Some_conv split: if_splits)

function fill_indirect2 :: "nat \<Rightarrow> nat \<Rightarrow> nat \<Rightarrow> nat \<Rightarrow> nat \<Rightarrow> disk \<Rightarrow> nat list \<Rightarrow> (disk \<times> nat list) outcome" where
  "fill_indirect2 a0 b0 a1 b1 ind2 d bs =
     (if a0 < a1 \<or> (a0 = a1 \<and> b0 < b1) then
        (case fill_sub a0 b0 ind2 d bs of
           None \<Rightarrow> None
         | Some (d', bs') \<Rightarrow>
             (if b0 + 1 = INODE_INDIRECT1_COUNT then fill_indirect2 (a0 + 1) 0 a1 b1 ind2 d' bs'
              else fill_indirect2 a0 (b0 + 1) a1 b1 ind2 d' bs'))
      else Some (d, bs))"
  by pat_completeness auto

termination
  by (relation "measure (\<lambda>(a0, b0, a1, b1, ind2, d, bs). length bs)") (auto dest: fill_sub_length)

definition increase_size :: "disk_inode \<Rightarrow> nat \<Rightarrow> nat list \<Rightarrow> disk \<Rightarrow> (disk_inode \<times> disk) outcome" where
  "increase_size di0 new_size new_blocks d =
     (let cur = data_blocks di0; di = di0\<lparr>i_size := new_size\<rparr>; tot = data_blocks di in do {
        (cur, ds, bs) \<leftarrow> fill_direct cur (min tot INODE_DIRECT_COUNT) (direct di) new_blocks;
        let di = di\<lparr>direct := ds\<rparr>;
        if tot \<le> INODE_DIRECT_COUNT then Some (di, d) else do {
          (di, bs) \<leftarrow> (if cur = INODE_DIRECT_COUNT then do { (x, bs) \<leftarrow> next_block bs; Some (di\<lparr>indirect1 := x\<rparr>, bs) }
                      else Some (di, bs));
          let cur = cur - INODE_DIRECT_COUNT; let tot = tot - INODE_DIRECT_COUNT;
          (cur, blk, bs) \<leftarrow> fill_indirect1 cur (min tot INODE_INDIRECT1_COUNT) (d (indirect1 di)) bs;
          let d = d(indirect1 di := blk);
          if tot \<le> INODE_INDIRECT1_COUNT then Some (di, d) else do {
            (di, bs) \<leftarrow> (if cur = INODE_INDIRECT1_COUNT then do { (x, bs) \<leftarrow> next_block bs; Some (di\<lparr>indirect2 := x\<rparr>, bs) }
                        else Some (di, bs));
            let cur = cur - INODE_INDIRECT1_COUNT; let tot = tot - INODE_INDIRECT1_COUNT;
            (d, bs) \<leftarrow> fill_indirect2 (cur div INODE_INDIRECT1_COUNT) (cur mod INODE_INDIRECT1_COUNT)
                        (tot div INODE_INDIRECT1_COUNT) (tot mod INODE_INDIRECT1_COUNT) (indirect2 di) d bs;
            Some (di, d)
          }
        }
      })"

subsection \<open>Clearing an inode\<close>

function clear_direct :: "nat \<Rightarrow> nat \<Rightarrow> nat list \<Rightarrow> nat list \<Rightarrow> (nat list \<times> nat list) outcome" where
  "clear_direct cur lim ds v =
     (if cur < lim then do { x \<leftarrow> idx ds cur; ds' \<leftarrow> upd ds cur 0; clear_direct (Suc cur) lim ds' (v @ [x]) } else Some (ds, v))"
  by pat_completeness auto

termination
  by (relation "measure (\<lambda>(cur, lim, ds, v). lim - cur)") auto

fun collect_entries :: "block \<Rightarrow> nat list \<Rightarrow> nat list \<Rightarrow> nat list outcome" where
  "collect_entries blk [] v = Some v"
| "collect_entries blk (i # is) v = do { x \<leftarrow> get_entry blk i; collect_entries blk is (v @ [x]) }"

definition collect_sub :: "disk \<Rightarrow> nat \<Rightarrow> nat \<Rightarrow> nat \<Rightarrow> nat list \<Rightarrow> nat list outcome" where
  "collect_sub d ind2 a n v = do {
     x \<leftarrow> get_entry (d ind2) a;
     collect_entries (d x) [0..<min n INODE_INDIRECT1_COUNT] (v @ [x])
   }"

fun collect_subs :: "disk \<Rightarrow> nat \<Rightarrow> nat list \<Rightarrow> nat list \<Rightarrow> nat list outcome" where
  "collect_subs d ind2 [] v = Some v"
| "collect_subs d ind2 (a # as) v = do { v' \<leftarrow> collect_sub d ind2 a INODE_INDIRECT1_COUNT v; collect_subs d ind2 as v' }"

definition clear_size :: "disk_inode \<Rightarrow> disk \<Rightarrow> (nat list \<times> disk_inode) outcome" where
  "clear_size di0 d = (let n = data_blocks di0; di = di0\<lparr>i_size := 0\<rparr> in do {
     (ds, v) \<leftarrow> clear_direct 0 (min n INODE_DIRECT_COUNT) (direct di) [];
     let di = di\<lparr>direct := ds\<rparr>;
     if n \<le> INODE_DIRECT_COUNT then Some (v, di) else do {
       let v = v @ [indirect1 di]; let n = n - INODE_DIRECT_COUNT;
       v \<leftarrow> collect_entries (d (indirect1 di)) [0..<min n INODE_INDIRECT1_COUNT] v;
       let di = di\<lparr>indirect1 := 0\<rparr>;
       if n \<le> INODE_INDIRECT1_COUNT then Some (v, di) else do {
         let v = v @ [indirect2 di]; let n = n - INODE_INDIRECT1_COUNT;
         _ \<leftarrow> ensure (n \<le> INODE_INDIRECT2_COUNT);
         let a1 = n div INODE_INDIRECT1_COUNT; let b1 = n mod INODE_INDIRECT1_COUNT;
         v \<leftarrow> collect_subs d (indirect2 di) [0..<min a1 INODE_INDIRECT1_COUNT] v;
         v \<leftarrow> (if b1 > 0 then collect_sub d (indirect2 di) a1 b1 v else Some v);
         Some (v, di\<lparr>indirect2 := 0\<rparr>)
       }
     }
   })"

subsection \<open>Reading and writing file contents\<close>

text \<open>The part of a block from the current position to the end of the block or of the access.\<close>

definition end_current_block :: "nat \<Rightarrow> nat \<Rightarrow> nat" where
  "end_current_block start fin = min ((start div BLOCK_SZ + 1) * BLOCK_SZ) fin"

lemma end_current_block_progress: "end_current_block start fin \<noteq> fin \<Longrightarrow> fin - end_current_block start fin < fin - start"
proof -
  assume "end_current_block start fin \<noteq> fin"
  moreover have "start < (start div BLOCK_SZ + 1) * BLOCK_SZ" by (simp add: BLOCK_SZ_def)
  ultimately show ?thesis by (auto simp: end_current_block_def min_def split: if_splits)
qed

definition copy_into :: "u8 list \<Rightarrow> nat \<Rightarrow> u8 list \<Rightarrow> u8 list outcome" where
  "copy_into buf pos bs = do {
     _ \<leftarrow> ensure (pos + length bs \<le> length buf);
     Some (take pos buf @ bs @ drop (pos + length bs) buf)
   }"

function read_loop :: "disk_inode \<Rightarrow> disk \<Rightarrow> nat \<Rightarrow> nat \<Rightarrow> nat \<Rightarrow> nat \<Rightarrow> u8 list \<Rightarrow> (nat \<times> u8 list) outcome" where
  "read_loop di d fin start start_block read_size buf =
     (let ecb = end_current_block start fin; n = ecb - start in do {
        id \<leftarrow> get_block_id di (start_block mod 2 ^ 32) d;
        buf' \<leftarrow> copy_into buf read_size (get_bytes (d id) (start mod BLOCK_SZ) n);
        if ecb = fin then Some (read_size + n, buf')
        else read_loop di d fin ecb (start_block + 1) (read_size + n) buf'
      })"
  by pat_completeness auto

termination
  by (relation "measure (\<lambda>(di, d, fin, start, start_block, read_size, buf). fin - start)")
    (auto intro: end_current_block_progress)

definition inode_read_at :: "disk_inode \<Rightarrow> nat \<Rightarrow> u8 list \<Rightarrow> disk \<Rightarrow> (nat \<times> u8 list) outcome" where
  "inode_read_at di offset buf d = (let fin = min ((offset + length buf) mod 2 ^ 64) (i_size di) in
     if fin \<le> offset then Some (0, buf) else read_loop di d fin offset (offset div BLOCK_SZ) 0 buf)"

function write_loop :: "disk_inode \<Rightarrow> disk \<Rightarrow> nat \<Rightarrow> nat \<Rightarrow> nat \<Rightarrow> nat \<Rightarrow> u8 list \<Rightarrow> (nat \<times> disk) outcome" where
  "write_loop di d fin start start_block write_size buf =
     (let ecb = end_current_block start fin; n = ecb - start in do {
        id \<leftarrow> get_block_id di (start_block mod 2 ^ 32) d;
        _ \<leftarrow> ensure (write_size + n \<le> length buf);
        let d' = d(id := put_bytes (d id) (start mod BLOCK_SZ) (take n (drop write_size buf)));
        if ecb = fin then Some (write_size + n, d')
        else write_loop di d' fin ecb (start_block + 1) (write_size + n) buf
      })"
  by pat_completeness auto

termination
  by (relation "measure (\<lambda>(di, d, fin, start, start_block, write_size, buf). fin - start)")
    (auto intro: end_current_block_progress)

definition inode_write_at :: "disk_inode \<Rightarrow> nat \<Rightarrow> u8 list \<Rightarrow> disk \<Rightarrow> (nat \<times> disk) outcome" where
  "inode_write_at di offset buf d = (let fin = min ((offset + length buf) mod 2 ^ 64) (i_size di) in do {
     _ \<leftarrow> ensure (offset \<le> fin);
     write_loop di d fin offset (offset div BLOCK_SZ) 0 buf
   })"

declare fill_indirect2.simps [simp del] clear_direct.simps [simp del] read_loop.simps [simp del] write_loop.simps [simp del]

subsection \<open>Directory entries\<close>

definition DIRENT_SZ :: nat where "DIRENT_SZ = 32"

record dir_entry =
  de_name :: "u8 list"
  inode_number :: nat

definition dir_entry_empty :: dir_entry where
  "dir_entry_empty = \<lparr>de_name = replicate (NAME_LENGTH_LIMIT + 1) 0, inode_number = 0\<rparr>"

definition dir_entry_new :: "u8 list \<Rightarrow> nat \<Rightarrow> dir_entry outcome" where
  "dir_entry_new nm ino = do {
     bytes \<leftarrow> copy_into (replicate (NAME_LENGTH_LIMIT + 1) 0) 0 nm;
     Some \<lparr>de_name = bytes, inode_number = ino\<rparr>
   }"

definition dir_entry_as_bytes :: "dir_entry \<Rightarrow> u8 list" where
  "dir_entry_as_bytes e = de_name e @ map (\<lambda>k. of_nat (inode_number e div 256 ^ k)) [0..<4]"

definition dir_entry_of_bytes :: "u8 list \<Rightarrow> dir_entry" where
  "dir_entry_of_bytes bs = \<lparr>de_name = take (NAME_LENGTH_LIMIT + 1) bs, inode_number = get_le 4 ((!) bs) (NAME_LENGTH_LIMIT + 1)\<rparr>"

text \<open>The check of \<^verbatim>\<open>core::str::from_utf8\<close>.\<close>

definition cont :: "u8 \<Rightarrow> bool" where "cont b \<longleftrightarrow> 0x80 \<le> b \<and> b \<le> 0xBF"

fun valid_utf8 :: "u8 list \<Rightarrow> bool" where
  "valid_utf8 [] = True"
| "valid_utf8 (a # bs) =
     (if a < 0x80 then valid_utf8 bs
      else if 0xC2 \<le> a \<and> a \<le> 0xDF then (case bs of b # bs' \<Rightarrow> cont b \<and> valid_utf8 bs' | _ \<Rightarrow> False)
      else if 0xE0 \<le> a \<and> a \<le> 0xEF then
        (case bs of b # c # bs' \<Rightarrow> cont b \<and> (a = 0xE0 \<longrightarrow> 0xA0 \<le> b) \<and> (a = 0xED \<longrightarrow> b \<le> 0x9F) \<and> cont c \<and> valid_utf8 bs' | _ \<Rightarrow> False)
      else if 0xF0 \<le> a \<and> a \<le> 0xF4 then
        (case bs of b # c # e # bs' \<Rightarrow> cont b \<and> (a = 0xF0 \<longrightarrow> 0x90 \<le> b) \<and> (a = 0xF4 \<longrightarrow> b \<le> 0x8F) \<and> cont c \<and> cont e \<and> valid_utf8 bs' | _ \<Rightarrow> False)
      else False)"

definition dir_entry_name :: "dir_entry \<Rightarrow> u8 list outcome" where
  "dir_entry_name e = do {
     n \<leftarrow> position (\<lambda>b. b = 0) (de_name e);
     _ \<leftarrow> ensure (valid_utf8 (take n (de_name e)));
     Some (take n (de_name e))
   }"

end
