(* ===== verification/BlockMap.thy ===== *)
theory BlockMap
  imports Layout
begin

section \<open>The block map of an inode\<close>

text \<open>
  The blocks an inode owns, data and index blocks, in the order in which the code allocates and
  returns them. A slot is a place that holds a block number; \<^verbatim>\<open>slots n\<close> lists the slots in use
  for n data blocks. \<^verbatim>\<open>increase_size\<close> appends its new blocks to this list, \<^verbatim>\<open>clear_size\<close>
  returns the whole list, and \<^verbatim>\<open>total_blocks\<close> is its length.
\<close>

datatype slot = Direct nat | Ind1 | Single nat | Ind2 | Sub nat | Double nat nat

definition entry :: "block \<Rightarrow> nat \<Rightarrow> nat" where
  "entry blk i = get_le 4 blk (4 * i)"

fun slotval :: "disk_inode \<times> disk \<Rightarrow> slot \<Rightarrow> nat" where
  "slotval (di, d) (Direct i) = direct di ! i"
| "slotval (di, d) Ind1 = indirect1 di"
| "slotval (di, d) (Single i) = entry (d (indirect1 di)) i"
| "slotval (di, d) Ind2 = indirect2 di"
| "slotval (di, d) (Sub a) = entry (d (indirect2 di)) a"
| "slotval (di, d) (Double a b) = entry (d (entry (d (indirect2 di)) a)) b"

definition new_slots :: "nat \<Rightarrow> slot list" where
  "new_slots n =
     (if n < 28 then [Direct n]
      else if n < 156 then (if n = 28 then [Ind1] else []) @ [Single (n - 28)]
      else (if n = 156 then [Ind2] else []) @ (if (n - 156) mod 128 = 0 then [Sub ((n - 156) div 128)] else [])
        @ [Double ((n - 156) div 128) ((n - 156) mod 128)])"

fun slots :: "nat \<Rightarrow> slot list" where
  "slots 0 = []"
| "slots (Suc n) = slots n @ new_slots n"

definition blocks_of :: "disk_inode \<times> disk \<Rightarrow> nat \<Rightarrow> nat list" where
  "blocks_of s n = map (slotval s) (slots n)"

definition MAX_BLOCKS :: nat where "MAX_BLOCKS = 16540"

lemma layout_nums [simp]:
  "INODE_DIRECT_COUNT = 28" "INODE_INDIRECT1_COUNT = 128" "INODE_INDIRECT2_COUNT = 16384"
  "INDIRECT1_BOUND = 156" "INDIRECT2_BOUND = 16540"
  by (simp_all add: layout_consts)

subsection \<open>Which slots are in use\<close>

lemma set_slots:
  "set (slots n) = {Direct i |i. i < n \<and> i < 28} \<union> (if 28 < n then {Ind1} else {}) \<union> {Single i |i. i + 28 < n \<and> i < 128}
     \<union> (if 156 < n then {Ind2} else {}) \<union> {Sub a |a. 156 + 128 * a < n} \<union> {Double a b |a b. 156 + 128 * a + b < n \<and> b < 128}"
proof (induction n)
  case (Suc n)
  have d: "{Double a b |a b. 156 + 128 * a + b < Suc n \<and> b < 128} = {Double a b |a b. 156 + 128 * a + b < n \<and> b < 128}
      \<union> (if 156 \<le> n then {Double ((n - 156) div 128) ((n - 156) mod 128)} else {})"
  proof -
    have "156 + 128 * a + b = n \<and> b < 128 \<longleftrightarrow> 156 \<le> n \<and> a = (n - 156) div 128 \<and> b = (n - 156) mod 128" for a b
      by auto
    then show ?thesis by (auto simp: less_Suc_eq)
  qed
  have s: "{Sub a |a. 156 + 128 * a < Suc n} = {Sub a |a. 156 + 128 * a < n}
      \<union> (if 156 \<le> n \<and> (n - 156) mod 128 = 0 then {Sub ((n - 156) div 128)} else {})"
  proof -
    have "156 + 128 * a = n \<longleftrightarrow> 156 \<le> n \<and> (n - 156) mod 128 = 0 \<and> a = (n - 156) div 128" for a by auto
    then show ?thesis by (auto simp: less_Suc_eq)
  qed
  show ?case unfolding slots.simps set_append Suc.IH d s
    by (auto simp: new_slots_def less_Suc_eq)
qed simp

lemma distinct_slots: "distinct (slots n)"
proof (induction n)
  case (Suc n)
  have "distinct (new_slots n)" by (simp add: new_slots_def)
  moreover have "set (slots n) \<inter> set (new_slots n) = {}"
    unfolding set_slots by (auto simp: new_slots_def split: if_splits)
  ultimately show ?case using Suc by simp
qed simp

lemma length_new_slots:
  "length (new_slots n) = 1 + (if n = 28 then 1 else 0) + (if n = 156 then 1 else 0) + (if 156 \<le> n \<and> (n - 156) mod 128 = 0 then 1 else 0)"
  by (simp add: new_slots_def)

lemma length_slots:
  "length (slots n) = n + (if n > 28 then 1 else 0) + (if n > 156 then 1 + (n - 156 + 127) div 128 else 0)"
proof (induction n)
  case (Suc n)
  have "(Suc n - 156 + 127) div 128 = (n - 156 + 127) div 128 + (if (n - 156) mod 128 = 0 then 1 else 0)" if "156 \<le> n"
  proof -
    define m where "m = n - 156"
    then have n: "n = 156 + m" using that by simp
    define q r where "q = m div 128" and "r = m mod 128"
    then have m: "m = 128 * q + r" "r < 128" by simp_all
    have "(r + 127) div 128 = (if r = 0 then 0 else 1)" using m(2) by (auto simp: div_if)
    moreover have "(128 * q + (r + 127)) div 128 = q + (r + 127) div 128" "(128 * q + (r + 128)) div 128 = q + 1"
      using m(2) by simp_all
    moreover have e: "Suc n - 156 + 127 = 128 * q + (r + 128)" "n - 156 + 127 = 128 * q + (r + 127)" "(n - 156) mod 128 = r"
      using n m by simp_all
    ultimately show ?thesis unfolding e by (simp only: if_distrib) simp
  qed
  with Suc show ?case by (simp add: length_new_slots)
qed simp

lemma total_blocks_slots: "total_blocks sz = length (slots (blocks_for sz))"
  by (simp add: total_blocks_def length_slots Let_def)

text \<open>The slot of a data block.\<close>

definition dataslot :: "nat \<Rightarrow> slot" where
  "dataslot i = (if i < 28 then Direct i else if i < 156 then Single (i - 28) else Double ((i - 156) div 128) ((i - 156) mod 128))"

lemma dataslot_in: "i < n \<Longrightarrow> dataslot i \<in> set (slots n)"
  unfolding set_slots dataslot_def by auto

lemma dataslot_inj: "dataslot i = dataslot j \<Longrightarrow> i = j"
  by (auto simp: dataslot_def split: if_splits) (metis div_mod_decomp le_add_diff_inverse not_less)

lemma get_entry_Some: "i < 128 \<Longrightarrow> get_entry blk i = Some (entry blk i)"
  by (simp add: get_entry_def entry_def)

lemma get_block_id_slot:
  assumes "length (direct di) = 28" "i < MAX_BLOCKS"
  shows "get_block_id di i d = Some (slotval (di, d) (dataslot i))"
proof -
  have "(i - 156) div 128 < 128" using assms(2) by (simp add: MAX_BLOCKS_def)
  with assms show ?thesis by (auto simp: get_block_id_def dataslot_def get_entry_Some Let_def)
qed

subsection \<open>Assigning slots\<close>

fun assign :: "disk_inode \<times> disk \<Rightarrow> slot \<Rightarrow> nat \<Rightarrow> disk_inode \<times> disk" where
  "assign (di, d) (Direct i) v = (di\<lparr>direct := (direct di)[i := v]\<rparr>, d)"
| "assign (di, d) Ind1 v = (di\<lparr>indirect1 := v\<rparr>, d)"
| "assign (di, d) (Single i) v = (di, d(indirect1 di := put_le 4 (d (indirect1 di)) (4 * i) v))"
| "assign (di, d) Ind2 v = (di\<lparr>indirect2 := v\<rparr>, d)"
| "assign (di, d) (Sub a) v = (di, d(indirect2 di := put_le 4 (d (indirect2 di)) (4 * a) v))"
| "assign (di, d) (Double a b) v = (let x = entry (d (indirect2 di)) a in (di, d(x := put_le 4 (d x) (4 * b) v)))"

fun parents :: "slot \<Rightarrow> slot set" where
  "parents (Single i) = {Ind1}"
| "parents (Sub a) = {Ind2}"
| "parents (Double a b) = {Sub a, Ind2}"
| "parents s = {}"

fun is_index :: "slot \<Rightarrow> bool" where
  "is_index Ind1 = True"
| "is_index Ind2 = True"
| "is_index (Sub a) = True"
| "is_index s = False"

lemma entry_put [simp]: "entry (put_le 4 blk (4 * i) v) j = (if j = i then v mod 2 ^ 32 else entry blk j)"
proof (cases "j = i")
  case False
  then have "4 * j + 4 \<le> 4 * i \<or> 4 * i + 4 \<le> 4 * j" by linarith
  with False show ?thesis by (simp add: entry_def get_put_le_other)
qed (simp add: entry_def)

lemma assign_new:
  assumes "parents s \<subseteq> T" "inj_on (slotval st) T" "v < 2 ^ 32" "\<And>i. s = Direct i \<Longrightarrow> i < length (direct (fst st))"
  shows "slotval (assign st s v) s = v"
proof -
  obtain di d where st: "st = (di, d)" by (cases st)
  have "indirect2 di \<noteq> entry (d (indirect2 di)) a" if "Sub a \<in> T" "Ind2 \<in> T" for a
    using inj_onD [OF assms(2), of "Sub a" Ind2] that st by auto
  with assms st show ?thesis by (cases s) (auto simp: Let_def)
qed

lemma assign_keep:
  assumes "t \<in> T" "s \<notin> T" "parents t \<subseteq> T" "parents s \<subseteq> T" "inj_on (slotval st) T"
  shows "slotval (assign st s v) t = slotval st t"
proof -
  obtain di d where st: "st = (di, d)" by (cases st)
  have ne: "slotval (di, d) x \<noteq> slotval (di, d) y" if "x \<in> T" "y \<in> T" "x \<noteq> y" for x y
    using assms(5) that st by (auto dest: inj_onD)
  show ?thesis
  proof (cases s)
    case (Direct i)
    with assms(1-3) st show ?thesis by (cases t) (auto, metis nth_list_update_neq)
  next
    case Ind1
    with assms(1-3) st show ?thesis by (cases t) auto
  next
    case Ind2
    with assms(1-3) st show ?thesis by (cases t) auto
  next
    case (Single i)
    moreover have "entry (d (indirect2 di)) a \<noteq> indirect1 di" if "Sub a \<in> T" for a
      using ne [of Ind1 "Sub a"] that assms(4) Single by auto
    ultimately show ?thesis using assms st ne [of Ind1 Ind2] by (cases t) (auto simp: Let_def)
  next
    case (Sub a)
    moreover have "entry (d (indirect2 di)) c \<noteq> indirect2 di" if "Sub c \<in> T" for c
      using ne [of Ind2 "Sub c"] that assms(4) Sub by auto
    ultimately show ?thesis using assms st ne [of Ind1 Ind2] by (cases t) (auto simp: Let_def)
  next
    case (Double a b)
    with assms st ne [of Ind1 "Sub a"] ne [of Ind2 "Sub a"] ne [of "Sub _" "Sub a"] show ?thesis
      by (cases t) (auto simp: Let_def)
  qed
qed

lemma assign_frame:
  assumes "x \<notin> slotval st ` {t \<in> T. is_index t}" "parents s \<subseteq> T"
  shows "snd (assign st s v) x = snd st x"
proof -
  obtain di d where st: "st = (di, d)" by (cases st)
  have ne: "x \<noteq> slotval (di, d) t" if "t \<in> T" "is_index t" for t using assms(1) that st by blast
  from assms(2) st ne [of Ind1] ne [of Ind2] ne [of "Sub _"] show ?thesis by (cases s) (auto simp: Let_def)
qed

lemma assign_direct_length [simp]: "length (direct (fst (assign st s v))) = length (direct (fst st))"
  by (cases st; cases s) (auto simp: Let_def)

lemma assign_other_fields [simp]:
  "i_size (fst (assign st s v)) = i_size (fst st)" "inode_type (fst (assign st s v)) = inode_type (fst st)"
  "parent_inode (fst (assign st s v)) = parent_inode (fst st)"
  by (cases st; cases s; simp add: Let_def)+

definition fold_assign :: "disk_inode \<times> disk \<Rightarrow> slot list \<Rightarrow> nat list \<Rightarrow> disk_inode \<times> disk" where
  "fold_assign st ss vs = fold (\<lambda>(s, v) st. assign st s v) (zip ss vs) st"

lemma fold_assign_simps [simp]:
  "fold_assign st [] vs = st"
  "fold_assign st (s # ss) (v # vs) = fold_assign (assign st s v) ss vs"
  by (simp_all add: fold_assign_def)

lemma fold_assign_append:
  "length ss \<le> length vs \<Longrightarrow>
   fold_assign st (ss @ ts) vs = fold_assign (fold_assign st ss vs) ts (drop (length ss) vs)"
proof (induction ss arbitrary: st vs)
  case (Cons s ss)
  then show ?case by (cases vs) auto
qed simp

lemma fold_assign_other_fields [simp]:
  "length (direct (fst (fold_assign st ss vs))) = length (direct (fst st))"
  "i_size (fst (fold_assign st ss vs)) = i_size (fst st)" "inode_type (fst (fold_assign st ss vs)) = inode_type (fst st)"
  "parent_inode (fst (fold_assign st ss vs)) = parent_inode (fst st)"
proof -
  have "length (direct (fst (fold_assign st ss vs))) = length (direct (fst st)) \<and>
    i_size (fst (fold_assign st ss vs)) = i_size (fst st) \<and> inode_type (fst (fold_assign st ss vs)) = inode_type (fst st) \<and>
    parent_inode (fst (fold_assign st ss vs)) = parent_inode (fst st)"
  proof (induction ss arbitrary: st vs)
    case (Cons s ss)
    then show ?case by (cases vs) (simp_all add: fold_assign_def)
  qed simp
  then show "length (direct (fst (fold_assign st ss vs))) = length (direct (fst st))"
    "i_size (fst (fold_assign st ss vs)) = i_size (fst st)" "inode_type (fst (fold_assign st ss vs)) = inode_type (fst st)"
    "parent_inode (fst (fold_assign st ss vs)) = parent_inode (fst st)" by simp_all
qed

text \<open>A slot comes after the slots it hangs from.\<close>

lemma parents_before: "slots n = P @ s # Q \<Longrightarrow> parents s \<subseteq> set P"
proof (induction n arbitrary: Q)
  case (Suc n)
  from Suc.prems have eq: "slots n @ new_slots n = P @ s # Q" by simp
  then consider (old) us where "slots n = P @ s # us" | (new) us where "P = slots n @ us" "new_slots n = us @ s # Q"
    by (auto simp: append_eq_append_conv2 append_eq_Cons_conv)
  then show ?case
  proof cases
    case old
    then show ?thesis by (rule Suc.IH)
  next
    case new
    have sub: "Ind1 \<in> set (slots n) \<longleftrightarrow> 28 < n" "Ind2 \<in> set (slots n) \<longleftrightarrow> 156 < n" "Sub a \<in> set (slots n) \<longleftrightarrow> 156 + 128 * a < n" for a
      unfolding set_slots by auto
    show ?thesis
    proof (cases "156 \<le> n")
      case True
      define a b where "a = (n - 156) div 128" and "b = (n - 156) mod 128"
      then have n: "n = 156 + 128 * a + b" using True by simp
      have "new_slots n = (if n = 156 then [Ind2] else []) @ (if b = 0 then [Sub a] else []) @ [Double a b]"
        using True by (simp add: new_slots_def a_def b_def)
      moreover have "n = 156 \<or> Ind2 \<in> set (slots n)" "b = 0 \<or> Sub a \<in> set (slots n)" "n = 156 \<Longrightarrow> b = 0"
        using sub n by auto
      ultimately show ?thesis using new by (cases "n = 156"; cases "b = 0") (auto simp: append_eq_Cons_conv Cons_eq_append_conv)
    qed (use new sub in \<open>auto simp: new_slots_def Cons_eq_append_conv split: if_splits\<close>)
  qed
qed simp

lemma slots_direct: "Direct i \<in> set (slots n) \<Longrightarrow> i < 28"
  unfolding set_slots by (auto split: if_splits)

lemma fold_assign_appends:
  assumes "slots n = P @ ss @ Q" "length vs = length ss" "length (direct (fst st)) = 28"
    "distinct (map (slotval st) P @ vs)" "\<forall>v \<in> set vs. v < 2 ^ 32"
  shows "map (slotval (fold_assign st ss vs)) (P @ ss) = map (slotval st) P @ vs
    \<and> (\<forall>x. x \<notin> slotval (fold_assign st ss vs) ` {t \<in> set (P @ ss). is_index t} \<longrightarrow> snd (fold_assign st ss vs) x = snd st x)"
  using assms
proof (induction ss arbitrary: P st vs)
  case (Cons s ss)
  obtain v vs' where vs: "vs = v # vs'" using Cons.prems(2) by (cases vs) auto
  have d: "distinct (P @ s # ss @ Q)" using distinct_slots [of n] Cons.prems(1) by simp
  have ps: "parents s \<subseteq> set P" using Cons.prems(1) parents_before [of n P s] by simp
  have cl: "parents t \<subseteq> set P" if "t \<in> set P" for t
  proof -
    from that obtain A B where "P = A @ t # B" by (meson split_list)
    with Cons.prems(1) parents_before [of n A t] show ?thesis by auto
  qed
  have inj: "inj_on (slotval st) (set P)" using Cons.prems(4) by (simp add: distinct_map)
  have s: "slotval (assign st s v) s = v"
    using ps inj Cons.prems(3,5) vs slots_direct [of _ n] Cons.prems(1) by (intro assign_new) auto
  have keep: "slotval (assign st s v) t = slotval st t" if "t \<in> set P" for t
    using that d cl ps inj by (intro assign_keep) auto
  have m: "map (slotval (assign st s v)) (P @ [s]) = map (slotval st) P @ [v]" using keep s by simp
  have ih: "map (slotval (fold_assign (assign st s v) ss vs')) ((P @ [s]) @ ss) = map (slotval (assign st s v)) (P @ [s]) @ vs'
    \<and> (\<forall>x. x \<notin> slotval (fold_assign (assign st s v) ss vs') ` {t \<in> set ((P @ [s]) @ ss). is_index t}
        \<longrightarrow> snd (fold_assign (assign st s v) ss vs') x = snd (assign st s v) x)"
  proof (intro Cons.IH)
    show "distinct (map (slotval (assign st s v)) (P @ [s]) @ vs')" unfolding m using Cons.prems(4) vs by auto
  qed (use Cons.prems vs in auto)
  let ?st = "fold_assign (assign st s v) ss vs'"
  have vals: "map (slotval ?st) P = map (slotval st) P" using ih m by simp
  have "snd (assign st s v) x = snd st x" if x: "x \<notin> slotval ?st ` {t \<in> set (P @ s # ss). is_index t}" for x
  proof (rule assign_frame [OF _ ps])
    show "x \<notin> slotval st ` {t \<in> set P. is_index t}" using x vals by (auto simp: image_iff)
  qed
  with ih m vs show ?case by simp
qed simp

subsection \<open>The loops of the code assign the slots in order\<close>

definition sub_slots :: "nat \<Rightarrow> slot list" where
  "sub_slots m = (if m mod 128 = 0 then [Sub (m div 128)] else []) @ [Double (m div 128) (m mod 128)]"

definition seg2 :: "nat \<Rightarrow> nat \<Rightarrow> slot list" where
  "seg2 m m' = concat (map sub_slots [m..<m'])"

definition seg :: "nat \<Rightarrow> nat \<Rightarrow> slot list" where
  "seg n n' = map Direct [n..<min n' 28] @ (if n \<le> 28 \<and> 28 < n' then [Ind1] else []) @ map Single [n - 28..<min (n' - 28) 128]
     @ (if n \<le> 156 \<and> 156 < n' then [Ind2] else []) @ seg2 (n - 156) (n' - 156)"

lemma slots_seg: "n \<le> n' \<Longrightarrow> slots n' = slots n @ seg n n'"
proof (induction n' rule: dec_induct)
  case base
  then show ?case by (auto simp: seg_def seg2_def)
next
  case (step k)
  have "seg n (Suc k) = seg n k @ new_slots k"
  proof -
    consider "k < 28" | "28 \<le> k" "k < 156" | "156 \<le> k" by linarith
    then show ?thesis
    proof cases
      case 1
      with step show ?thesis by (auto simp: seg_def seg2_def new_slots_def)
    next
      case 2
      have e: "Suc k - 28 = Suc (k - 28)" "n - 28 \<le> k - 28" using 2 step by linarith+
      then have "[n - 28..<Suc k - 28] = [n - 28..<k - 28] @ [k - 28]" by (simp only: upt_Suc if_True)
      with 2 step show ?thesis by (auto simp: seg_def seg2_def new_slots_def)
    next
      case 3
      have e: "Suc k - 156 = Suc (k - 156)" "n - 156 \<le> k - 156" using 3 step by linarith+
      then have "[n - 156..<Suc k - 156] = [n - 156..<k - 156] @ [k - 156]" by (simp only: upt_Suc if_True)
      then have "seg2 (n - 156) (Suc k - 156) = seg2 (n - 156) (k - 156) @ sub_slots (k - 156)" by (simp add: seg2_def)
      with 3 step show ?thesis by (auto simp: seg_def seg2_def new_slots_def sub_slots_def)
    qed
  qed
  with step show ?case by simp
qed

lemma fill_direct_assign:
  assumes "lim \<le> length (direct di)" "lim - cur \<le> length bs"
  shows "\<exists>ds. fill_direct cur lim (direct di) bs = Some (max cur lim, ds, drop (lim - cur) bs)
    \<and> fold_assign (di, d) (map Direct [cur..<lim]) bs = (di\<lparr>direct := ds\<rparr>, d)"
  using assms
proof (induction bs arbitrary: cur di)
  case Nil
  then show ?case by (auto simp: max_def)
next
  case (Cons b bs)
  show ?case
  proof (cases "cur < lim")
    case True
    have "upd (direct di) cur b = Some ((direct di)[cur := b])" using True Cons.prems by simp
    moreover have "[cur..<lim] = cur # [Suc cur..<lim]" using True by (simp add: upt_rec)
    moreover have "max (Suc cur) lim = max cur lim" "lim - cur = Suc (lim - Suc cur)" using True by auto
    moreover have "lim - Suc cur \<le> length bs" using Cons.prems(2) True by simp
    with Cons.IH [of "di\<lparr>direct := (direct di)[cur := b]\<rparr>" "Suc cur"] Cons.prems(1) obtain ds where "fill_direct (Suc cur) lim ((direct di)[cur := b]) bs = Some (max (Suc cur) lim, ds, drop (lim - Suc cur) bs)"
      "fold_assign (di\<lparr>direct := (direct di)[cur := b]\<rparr>, d) (map Direct [Suc cur..<lim]) bs = (di\<lparr>direct := ds\<rparr>, d)" by auto
    ultimately show ?thesis using True Cons.prems(1) by (intro exI [of _ ds]) (simp add: upd_in_range)
  next
    case False
    then show ?thesis by (intro exI [of _ "direct di"]) (simp add: max_def)
  qed
qed

lemma fill_indirect1_assign:
  assumes "lim \<le> 128" "lim - cur \<le> length bs"
  shows "\<exists>blk. fill_indirect1 cur lim (d (indirect1 di)) bs = Some (max cur lim, blk, drop (lim - cur) bs)
    \<and> fold_assign (di, d) (map Single [cur..<lim]) bs = (di, d(indirect1 di := blk))"
  using assms
proof (induction bs arbitrary: cur d)
  case Nil
  then show ?case by (auto simp: max_def)
next
  case (Cons b bs)
  show ?case
  proof (cases "cur < lim")
    case True
    let ?blk = "put_le 4 (d (indirect1 di)) (4 * cur) b"
    have "set_entry (d (indirect1 di)) cur b = Some ?blk" using True Cons.prems by (simp add: set_entry_def)
    moreover have "[cur..<lim] = cur # [Suc cur..<lim]" using True by (simp add: upt_rec)
    moreover have "max (Suc cur) lim = max cur lim" "lim - cur = Suc (lim - Suc cur)" using True by auto
    moreover have "lim - Suc cur \<le> length bs" using Cons.prems(2) True by simp
    from Cons.IH [OF Cons.prems(1) this, of "d(indirect1 di := ?blk)", unfolded fun_upd_same fun_upd_upd] obtain blk where "fill_indirect1 (Suc cur) lim ?blk bs = Some (max (Suc cur) lim, blk, drop (lim - Suc cur) bs)"
      "fold_assign (di, d(indirect1 di := ?blk)) (map Single [Suc cur..<lim]) bs = (di, d(indirect1 di := blk))" by blast
    ultimately show ?thesis using True by (intro exI [of _ blk]) (simp add: fun_upd_def)
  next
    case False
    then show ?thesis by (intro exI [of _ "d (indirect1 di)"]) (simp add: max_def)
  qed
qed

lemma fill_sub_assign:
  assumes "a < 128" "b < 128" "length (sub_slots (128 * a + b)) \<le> length bs"
  shows "\<exists>d'. fill_sub a b (indirect2 di) d bs = Some (d', drop (length (sub_slots (128 * a + b))) bs)
    \<and> fold_assign (di, d) (sub_slots (128 * a + b)) bs = (di, d')"
proof (cases "b = 0")
  case True
  with assms obtain x y bs' where "bs = x # y # bs'" by (auto simp: sub_slots_def Suc_le_length_iff)
  with assms True show ?thesis by (simp add: fill_sub_def sub_slots_def set_entry_def get_entry_Some Let_def)
next
  case False
  with assms obtain y bs' where "bs = y # bs'" by (auto simp: sub_slots_def Suc_le_length_iff)
  with assms False show ?thesis by (simp add: fill_sub_def sub_slots_def set_entry_def get_entry_Some Let_def)
qed

lemma fill_indirect2_assign:
  assumes "b0 < 128" "b1 < 128" "128 * a1 + b1 \<le> 16384" "length (seg2 (128 * a0 + b0) (128 * a1 + b1)) \<le> length bs"
  shows "\<exists>d' bs'. fill_indirect2 a0 b0 a1 b1 (indirect2 di) d bs = Some (d', bs')
    \<and> fold_assign (di, d) (seg2 (128 * a0 + b0) (128 * a1 + b1)) bs = (di, d')"
  using assms
proof (induction "128 * a1 + b1 - (128 * a0 + b0)" arbitrary: a0 b0 d bs)
  case 0
  then have "\<not> (a0 < a1 \<or> (a0 = a1 \<and> b0 < b1))" by linarith
  then have "fill_indirect2 a0 b0 a1 b1 (indirect2 di) d bs = Some (d, bs)" by (subst fill_indirect2.simps) (simp only: if_False)
  moreover have "seg2 (128 * a0 + b0) (128 * a1 + b1) = []" using 0 by (simp add: seg2_def)
  ultimately show ?case by simp
next
  case (Suc k)
  let ?m = "128 * a0 + b0" let ?m' = "128 * a1 + b1"
  have lt: "?m < ?m'" using Suc.hyps(2) by simp
  then have go: "a0 < a1 \<or> (a0 = a1 \<and> b0 < b1)" and a0: "a0 < 128" using Suc.prems by linarith+
  have seg: "seg2 ?m ?m' = sub_slots ?m @ seg2 (Suc ?m) ?m'" using lt by (simp add: seg2_def upt_rec [of ?m])
  let ?bs = "drop (length (sub_slots ?m)) bs"
  from fill_sub_assign [OF a0 Suc.prems(1), of bs di d] Suc.prems(4) seg obtain d1 where
    d1: "fill_sub a0 b0 (indirect2 di) d bs = Some (d1, ?bs)" "fold_assign (di, d) (sub_slots ?m) bs = (di, d1)" by auto
  obtain a2 b2 where ab: "(a2, b2) = (if b0 + 1 = 128 then (a0 + 1, 0) else (a0, b0 + 1))" by (cases "b0 + 1 = 128") auto
  then have m2: "128 * a2 + b2 = Suc ?m" "b2 < 128" using Suc.prems(1) by (auto split: if_splits)
  have "k = ?m' - (128 * a2 + b2)" using Suc.hyps(2) m2 by simp
  moreover have "length (seg2 (128 * a2 + b2) ?m') \<le> length ?bs" using Suc.prems(4) seg m2 by simp
  ultimately obtain d' bs' where r: "fill_indirect2 a2 b2 a1 b1 (indirect2 di) d1 ?bs = Some (d', bs')"
    "fold_assign (di, d1) (seg2 (128 * a2 + b2) ?m') ?bs = (di, d')"
    using Suc.hyps(1) [of a2 b2 ?bs d1] m2(2) Suc.prems(2,3) by blast
  have "fill_indirect2 a0 b0 a1 b1 (indirect2 di) d bs = Some (d', bs')"
  proof (cases "b0 + 1 = 128")
    case True
    with ab r(1) have "fill_indirect2 (a0 + 1) 0 a1 b1 (indirect2 di) d1 ?bs = Some (d', bs')" by simp
    with go d1(1) True show ?thesis by (subst fill_indirect2.simps) simp
  next
    case False
    with ab r(1) have "fill_indirect2 a0 (b0 + 1) a1 b1 (indirect2 di) d1 ?bs = Some (d', bs')" by simp
    with go d1(1) False show ?thesis by (subst fill_indirect2.simps) simp
  qed
  moreover have "fold_assign (di, d) (seg2 ?m ?m') bs = (di, d')"
    using Suc.prems(4) seg d1(2) r(2) m2 by (simp add: fold_assign_append)
  ultimately show ?case by blast
qed

lemma increase_size_assign:
  assumes len: "length (direct di) = 28" and n: "n = data_blocks di" "n' = blocks_for sz" "n \<le> n'" "n' \<le> MAX_BLOCKS"
    and bs: "length (seg n n') \<le> length bs"
  shows "increase_size di sz bs d = Some (fold_assign (di\<lparr>i_size := sz\<rparr>, d) (seg n n') bs)"
proof -
  let ?di = "di\<lparr>i_size := sz\<rparr>"
  let ?A = "map Direct [n..<min n' 28]" let ?B = "if n \<le> 28 \<and> 28 < n' then [Ind1] else []"
  let ?C = "map Single [n - 28..<min (n' - 28) 128]" let ?D = "if n \<le> 156 \<and> 156 < n' then [Ind2] else []"
  let ?E = "seg2 (n - 156) (n' - 156)"
  define b1 b2 b3 b4 where b: "b1 = drop (length ?A) bs" "b2 = drop (length ?B) b1" "b3 = drop (length ?C) b2" "b4 = drop (length ?D) b3"
  have l: "length ?A \<le> length bs" "length ?B \<le> length b1" "length ?C \<le> length b2" "length ?D \<le> length b3" "length ?E \<le> length b4"
    using bs unfolding b seg_def length_append length_drop by linarith+
  have fa: "fold_assign st (seg n n') bs = fold_assign (fold_assign (fold_assign (fold_assign (fold_assign st ?A bs) ?B b1) ?C b2) ?D b3) ?E b4" for st
    using l by (simp only: seg_def fold_assign_append append_assoc b)
  have tot: "data_blocks ?di = n'" using n(2) by (simp add: data_blocks_def)
  from fill_direct_assign [of "min n' 28" ?di n bs d] len l(1) obtain ds where
    A: "fill_direct n (min n' 28) (direct di) bs = Some (max n (min n' 28), ds, b1)"
      "fold_assign (?di, d) ?A bs = (?di\<lparr>direct := ds\<rparr>, d)" by (auto simp: b)
  let ?di2 = "?di\<lparr>direct := ds\<rparr>"
  show ?thesis
  proof (cases "n' \<le> 28")
    case True
    then have "seg n n' = ?A" by (simp add: seg_def seg2_def)
    with A tot True n(1) len show ?thesis by (simp add: increase_size_def Let_def)
  next
    case big: False
    define di3 where "di3 = fst (fold_assign (?di2, d) ?B b1)"
    have B: "(if max n (min n' 28) = 28 then do { (x, bs) \<leftarrow> next_block b1; Some (?di2\<lparr>indirect1 := x\<rparr>, bs) } else Some (?di2, b1)) = Some (di3, b2)"
      "fold_assign (?di2, d) ?B b1 = (di3, d)"
      using l(2) big n(3) by (cases b1; auto simp: di3_def b split: if_splits)+
    have lC: "min (n' - 28) 128 \<le> 128" "min (n' - 28) 128 - (n - 28) \<le> length b2" "drop (min (n' - 28) 128 - (n - 28)) b2 = b3"
      using l(3) by (simp_all add: b(3))
    from fill_indirect1_assign [OF lC(1,2), of d di3, unfolded lC(3)] obtain blk where
      C: "fill_indirect1 (n - 28) (min (n' - 28) 128) (d (indirect1 di3)) b2 = Some (max (n - 28) (min (n' - 28) 128), blk, b3)"
        "fold_assign (di3, d) ?C b2 = (di3, d(indirect1 di3 := blk))" by blast
    have c28: "max n (min n' 28) - 28 = n - 28" using big by auto
    have start: "increase_size di sz bs d = (if n' - 28 \<le> 128 then Some (di3, d(indirect1 di3 := blk)) else do {
        (di, bs) \<leftarrow> (if max (n - 28) (min (n' - 28) 128) = 128 then do { (x, bs) \<leftarrow> next_block b3; Some (di3\<lparr>indirect2 := x\<rparr>, bs) }
                    else Some (di3, b3));
        let cur = max (n - 28) (min (n' - 28) 128) - 128; let tot = n' - 28 - 128;
        (d, bs) \<leftarrow> fill_indirect2 (cur div 128) (cur mod 128) (tot div 128) (tot mod 128) (indirect2 di) (d(indirect1 di3 := blk)) bs;
        Some (di, d) })"
      using A(1) B(1) C(1) big tot n(1) c28 by (simp add: increase_size_def Let_def)
    show ?thesis
    proof (cases "n' \<le> 156")
      case True
      then have "?D = []" "?E = []" "n' - 28 \<le> 128" by (simp_all add: seg2_def)
      then show ?thesis unfolding start fa A(2) B(2) C(2) by simp
    next
      case huge: False
      let ?d = "d(indirect1 di3 := blk)"
      define di4 where "di4 = fst (fold_assign (di3, ?d) ?D b3)"
      have D: "(if max (n - 28) (min (n' - 28) 128) = 128 then do { (x, bs) \<leftarrow> next_block b3; Some (di3\<lparr>indirect2 := x\<rparr>, bs) } else Some (di3, b3)) = Some (di4, b4)"
        "fold_assign (di3, ?d) ?D b3 = (di4, ?d)"
        using l(4) huge by (cases b3; auto simp: di4_def b split: if_splits)+
      have m: "max (n - 28) (min (n' - 28) 128) - 128 = n - 156" "n' - 28 - 128 = n' - 156" "\<not> n' - 28 \<le> 128" using huge by auto
      have "\<exists>d' bs'. fill_indirect2 ((n - 156) div 128) ((n - 156) mod 128) ((n' - 156) div 128) ((n' - 156) mod 128)
          (indirect2 di4) ?d b4 = Some (d', bs')
        \<and> fold_assign (di4, ?d) (seg2 (128 * ((n - 156) div 128) + (n - 156) mod 128) (128 * ((n' - 156) div 128) + (n' - 156) mod 128)) b4 = (di4, d')"
        using l(5) n(4) by (intro fill_indirect2_assign) (simp_all add: MAX_BLOCKS_def)
      then obtain d' bs' where E: "fill_indirect2 ((n - 156) div 128) ((n - 156) mod 128) ((n' - 156) div 128) ((n' - 156) mod 128)
          (indirect2 di4) ?d b4 = Some (d', bs')" "fold_assign (di4, ?d) ?E b4 = (di4, d')" by auto
      have "increase_size di sz bs d = Some (di4, d')" unfolding start D(1) m Let_def using E(1) m by simp
      then show ?thesis unfolding fa A(2) B(2) C(2) D(2) E(2) .
    qed
  qed
qed

subsection \<open>Clearing returns every slot\<close>

lemma clear_direct_ok:
  "lim \<le> length ds \<Longrightarrow> \<exists>ds'. clear_direct cur lim ds v = Some (ds', v @ map ((!) ds) [cur..<lim]) \<and> length ds' = length ds
     \<and> set ds' \<subseteq> insert 0 (set ds)"
proof (induction "lim - cur" arbitrary: cur ds v)
  case 0
  then show ?case by (subst clear_direct.simps) auto
next
  case (Suc k)
  then have lt: "cur < lim" "k = lim - Suc cur" by simp_all
  have "lim \<le> length (ds[cur := 0])" using Suc.prems by simp
  from Suc.hyps(1) [OF lt(2) this, of "v @ [ds ! cur]"] obtain ds' where
    r: "clear_direct (Suc cur) lim (ds[cur := 0]) (v @ [ds ! cur]) = Some (ds', (v @ [ds ! cur]) @ map ((!) (ds[cur := 0])) [Suc cur..<lim])"
      "length ds' = length (ds[cur := 0])" "set ds' \<subseteq> insert 0 (set (ds[cur := 0]))" by blast
  have "map ((!) (ds[cur := 0])) [Suc cur..<lim] = map ((!) ds) [Suc cur..<lim]" by simp
  moreover have "clear_direct cur lim ds v = clear_direct (Suc cur) lim (ds[cur := 0]) (v @ [ds ! cur])"
    using lt(1) Suc.prems by (subst clear_direct.simps) (simp add: idx_in_range upd_in_range)
  moreover have "[cur..<lim] = cur # [Suc cur..<lim]" using lt(1) by (simp add: upt_rec)
  moreover have "set ds' \<subseteq> insert 0 (set ds)" using r(3) set_update_subset_insert [of ds cur 0] by blast
  ultimately show ?case using r(1,2) by (intro exI [of _ ds']) simp
qed

lemma collect_entries_ok: "\<forall>i \<in> set is. i < 128 \<Longrightarrow> collect_entries blk is v = Some (v @ map (entry blk) is)"
  by (induction "is" arbitrary: v) (simp_all add: get_entry_Some)

lemma collect_sub_ok:
  "a < 128 \<Longrightarrow> n \<le> 128 \<Longrightarrow>
   collect_sub d (indirect2 di) a n v = Some (v @ map (slotval (di, d)) (Sub a # map (Double a) [0..<n]))"
  by (simp add: collect_sub_def get_entry_Some collect_entries_ok)

lemma collect_subs_ok:
  "\<forall>a \<in> set as. a < 128 \<Longrightarrow> collect_subs d (indirect2 di) as v =
     Some (v @ map (slotval (di, d)) (concat (map (\<lambda>a. Sub a # map (Double a) [0..<128]) as)))"
proof (induction "as" arbitrary: v)
  case (Cons a "as")
  then show ?case by (simp add: collect_sub_ok)
qed simp

lemma seg2_closed:
  "seg2 0 m = concat (map (\<lambda>a. Sub a # map (Double a) [0..<128]) [0..<m div 128])
     @ (if m mod 128 > 0 then Sub (m div 128) # map (Double (m div 128)) [0..<m mod 128] else [])"
proof (induction m)
  case (Suc m)
  have "seg2 0 (Suc m) = seg2 0 m @ sub_slots m" by (simp add: seg2_def)
  moreover define q r where "q = m div 128" and "r = m mod 128"
  moreover have "Suc m div 128 = (if r = 127 then Suc q else q)" "Suc m mod 128 = (if r = 127 then 0 else Suc r)"
    using div_Suc [of m 128] mod_Suc [of m 128] by (auto simp: q_def r_def split: if_splits)
  moreover have "[0..<128] = [0..<127] @ [127::nat]" using upt_Suc [of 0 127] by simp
  ultimately show ?case using Suc by (simp add: sub_slots_def)
qed (simp add: seg2_def)

lemma clear_size_ok:
  assumes len: "length (direct di) = 28" and n: "data_blocks di \<le> MAX_BLOCKS"
  shows "\<exists>di'. clear_size di d = Some (blocks_of (di, d) (data_blocks di), di') \<and> i_size di' = 0 \<and> length (direct di') = 28
    \<and> inode_type di' = inode_type di \<and> parent_inode di' = parent_inode di
    \<and> set (direct di') \<subseteq> insert 0 (set (direct di)) \<and> indirect1 di' \<in> {0, indirect1 di} \<and> indirect2 di' \<in> {0, indirect2 di}"
proof -
  let ?n = "data_blocks di"
  have bl: "blocks_of (di, d) ?n = map (slotval (di, d)) (seg 0 ?n)" using slots_seg [of 0 ?n] by (simp add: blocks_of_def)
  from clear_direct_ok [of "min ?n 28" "direct di" 0 "[]"] len obtain ds where
    A: "clear_direct 0 (min ?n 28) (direct di) [] = Some (ds, map ((!) (direct di)) [0..<min ?n 28])" "length ds = 28"
      "set ds \<subseteq> insert 0 (set (direct di))" by auto
  have Am: "map (slotval (di, d)) (map Direct [0..<min ?n 28]) = map ((!) (direct di)) [0..<min ?n 28]" by simp
  have C: "collect_entries (d (indirect1 di)) [0..<min (?n - 28) 128] v = Some (v @ map (slotval (di, d)) (map Single [0..<min (?n - 28) 128]))" for v
    by (simp add: collect_entries_ok)
  show ?thesis
  proof (cases "?n \<le> 28")
    case True
    then have "seg 0 ?n = map Direct [0..<min ?n 28]" by (simp add: seg_def seg2_def)
    with A True Am show ?thesis by (simp add: clear_size_def bl Let_def)
  next
    case big: False
    show ?thesis
    proof (cases "?n \<le> 156")
      case True
      then have "seg 0 ?n = map Direct [0..<min ?n 28] @ [Ind1] @ map Single [0..<min (?n - 28) 128]" using big by (simp add: seg_def seg2_def)
      moreover have "?n - 28 \<le> 128" using True by linarith
      ultimately show ?thesis using A big Am C by (simp add: clear_size_def bl Let_def)
    next
      case huge: False
      let ?m = "?n - 156"
      have m: "?m \<le> 16384" "?n - 28 - 128 = ?m" "\<not> ?n - 28 \<le> 128" using n huge by (simp_all add: MAX_BLOCKS_def)
      let ?S = "concat (map (\<lambda>a. Sub a # map (Double a) [0..<128]) [0..<?m div 128])"
      let ?T = "if ?m mod 128 > 0 then Sub (?m div 128) # map (Double (?m div 128)) [0..<?m mod 128] else []"
      have sg: "seg 0 ?n = map Direct [0..<min ?n 28] @ [Ind1] @ map Single [0..<min (?n - 28) 128] @ [Ind2] @ ?S @ ?T"
        using big huge seg2_closed [of ?m] by (simp add: seg_def)
      have le: "min (?m div 128) 128 = ?m div 128" using m(1) by auto
      have lt: "?m div 128 < 128" if "?m mod 128 > 0" using that m(1) by (cases "?m = 16384") auto
      have S: "collect_subs d (indirect2 di) [0..<?m div 128] v = Some (v @ map (slotval (di, d)) ?S)" for v
        using m(1) by (intro collect_subs_ok) auto
      show ?thesis
      proof (cases "?m mod 128 > 0")
        case True
        note T = collect_sub_ok [OF lt [OF True], of "?m mod 128" d di]
        from A big huge Am C S T m le True show ?thesis unfolding bl sg clear_size_def Let_def by simp
      next
        case False
        with A big huge Am C S m le show ?thesis unfolding bl sg clear_size_def Let_def by simp
      qed
    qed
  qed
qed

subsection \<open>Well-formed inodes and the contents of files\<close>

definition MAX_SIZE :: nat where "MAX_SIZE = MAX_BLOCKS * BLOCK_SZ"

definition inode_ok :: "disk_inode \<times> disk \<Rightarrow> bool" where
  "inode_ok st \<longleftrightarrow> length (direct (fst st)) = 28 \<and> i_size (fst st) \<le> MAX_SIZE
     \<and> distinct (blocks_of st (data_blocks (fst st)))"

text \<open>An inode whose fields fit their widths.\<close>

definition inode_fits :: "disk_inode \<Rightarrow> bool" where
  "inode_fits di \<longleftrightarrow> length (direct di) = 28 \<and> i_size di < 2 ^ 32 \<and> (\<forall>b \<in> set (direct di). b < 2 ^ 32)
     \<and> indirect1 di < 2 ^ 32 \<and> indirect2 di < 2 ^ 32 \<and> parent_inode di < 2 ^ 32"

lemma assign_fits: "inode_fits (fst st) \<Longrightarrow> v < 2 ^ 32 \<Longrightarrow> inode_fits (fst (assign st s v))"
  by (cases st; cases s) (auto simp: inode_fits_def Let_def dest!: subsetD [OF set_update_subset_insert])

lemma fold_assign_fits:
  "inode_fits (fst st) \<Longrightarrow> \<forall>v \<in> set vs. v < 2 ^ 32 \<Longrightarrow> inode_fits (fst (fold_assign st ss vs))"
proof (induction ss arbitrary: st vs)
  case (Cons s ss)
  show ?case
  proof (cases vs)
    case Nil
    with Cons.prems show ?thesis by (simp add: fold_assign_def)
  next
    case (Cons v vs')
    with Cons.IH [of "assign st s v" vs'] Cons.prems show ?thesis by (simp add: assign_fits)
  qed
qed simp

definition block_id_at :: "disk_inode \<times> disk \<Rightarrow> nat \<Rightarrow> nat" where
  "block_id_at st i = slotval st (dataslot i)"

definition index_blocks :: "disk_inode \<times> disk \<Rightarrow> nat set" where
  "index_blocks st = slotval st ` {t \<in> set (slots (data_blocks (fst st))). is_index t}"

definition file_byte :: "disk_inode \<times> disk \<Rightarrow> nat \<Rightarrow> u8" where
  "file_byte st p = snd st (block_id_at st (p div BLOCK_SZ)) (p mod BLOCK_SZ)"

definition file_bytes :: "disk_inode \<times> disk \<Rightarrow> u8 list" where
  "file_bytes st = map (file_byte st) [0..<i_size (fst st)]"

lemma blocks_for_eq: "sz \<le> MAX_SIZE \<Longrightarrow> blocks_for sz = (sz + 511) div 512"
  by (simp add: blocks_for_def MAX_SIZE_def MAX_BLOCKS_def BLOCK_SZ_def)

lemma blocks_for_bound: "sz \<le> MAX_SIZE \<Longrightarrow> blocks_for sz \<le> MAX_BLOCKS"
  by (simp add: blocks_for_eq) (simp add: MAX_SIZE_def MAX_BLOCKS_def BLOCK_SZ_def)

lemma blocks_for_mono: "sz \<le> sz' \<Longrightarrow> sz' \<le> MAX_SIZE \<Longrightarrow> blocks_for sz \<le> blocks_for sz'"
  by (simp add: blocks_for_eq div_le_mono)

lemma byte_in_block: "p < sz \<Longrightarrow> sz \<le> MAX_SIZE \<Longrightarrow> p div BLOCK_SZ < blocks_for sz"
  by (simp add: blocks_for_eq BLOCK_SZ_def)

lemma not_index_dataslot [simp]: "\<not> is_index (dataslot i)"
  by (simp add: dataslot_def)

lemma inode_ok_inj:
  "inode_ok st \<Longrightarrow> inj_on (slotval st) (set (slots (data_blocks (fst st))))"
  by (simp add: inode_ok_def blocks_of_def distinct_map)

lemma data_block_not_index:
  assumes "inode_ok st" "i < data_blocks (fst st)"
  shows "block_id_at st i \<notin> index_blocks st"
proof
  assume "block_id_at st i \<in> index_blocks st"
  then obtain t where t: "t \<in> set (slots (data_blocks (fst st)))" "is_index t" "slotval st (dataslot i) = slotval st t"
    by (auto simp: block_id_at_def index_blocks_def)
  with inj_onD [OF inode_ok_inj [OF assms(1)] t(3)] dataslot_in [OF assms(2)] have "dataslot i = t" by blast
  with t(2) show False using not_index_dataslot by blast
qed

lemma block_id_at_inj:
  assumes "inode_ok st" "i < data_blocks (fst st)" "j < data_blocks (fst st)" "block_id_at st i = block_id_at st j"
  shows "i = j"
  using assms inj_onD [OF inode_ok_inj [OF assms(1)], of "dataslot i" "dataslot j"]
  by (auto simp: block_id_at_def dataslot_in intro: dataslot_inj)

lemma increase_size_ok:
  assumes ok: "inode_ok (di, d)" and sz: "i_size di \<le> sz" "sz \<le> MAX_SIZE"
    and bs: "blocks_num_needed di sz = Some (length bs)" "distinct (blocks_of (di, d) (data_blocks di) @ bs)" "\<forall>b \<in> set bs. b < 2 ^ 32"
  shows "\<exists>di' d'. increase_size di sz bs d = Some (di', d') \<and> i_size di' = sz \<and> inode_ok (di', d')
    \<and> inode_type di' = inode_type di \<and> parent_inode di' = parent_inode di
    \<and> blocks_of (di', d') (data_blocks di') = blocks_of (di, d) (data_blocks di) @ bs
    \<and> (\<forall>i < data_blocks di. block_id_at (di', d') i = block_id_at (di, d) i)
    \<and> (\<forall>x. x \<notin> index_blocks (di', d') \<longrightarrow> d' x = d x) \<and> (inode_fits di \<longrightarrow> inode_fits di')"
proof -
  let ?n = "data_blocks di" let ?n' = "blocks_for sz" let ?st = "(di\<lparr>i_size := sz\<rparr>, d)"
  have len: "length (direct di) = 28" using ok by (simp add: inode_ok_def)
  have n: "?n \<le> ?n'" "?n' \<le> MAX_BLOCKS" using sz by (simp_all add: data_blocks_def blocks_for_mono blocks_for_bound)
  note seg = slots_seg [OF n(1)]
  have "length (slots ?n) \<le> length (slots ?n')" unfolding seg by simp
  moreover have "length (slots ?n') < 2 ^ 32" 
  proof -
    define q where "q = (?n' - 156 + 127) div 128"
    have "q \<le> ?n' - 156 + 127" unfolding q_def by (rule div_le_dividend)
    with n(2) show ?thesis unfolding length_slots q_def [symmetric] MAX_BLOCKS_def by auto
  qed
  ultimately have l: "length bs = length (seg ?n ?n')"
    using bs(1) seg by (simp add: blocks_num_needed_def total_blocks_slots data_blocks_def split: if_splits)
  obtain di' d' where r: "fold_assign ?st (seg ?n ?n') bs = (di', d')" by (cases "fold_assign ?st (seg ?n ?n') bs")
  have same: "slotval ?st = slotval (di, d)"
  proof
    fix t show "slotval ?st t = slotval (di, d) t" by (cases t) simp_all
  qed
  have inc: "increase_size di sz bs d = Some (di', d')"
    using increase_size_assign [OF len refl refl n, of bs d] l r by simp
  have "map (slotval (di', d')) (slots ?n @ seg ?n ?n') = map (slotval ?st) (slots ?n) @ bs
      \<and> (\<forall>x. x \<notin> slotval (di', d') ` {t \<in> set (slots ?n @ seg ?n ?n'). is_index t} \<longrightarrow> d' x = d x)"
    using fold_assign_appends [of ?n' "slots ?n" "seg ?n ?n'" "[]" bs ?st] seg l len bs(2,3) r same by (simp add: blocks_of_def)
  then have ap: "map (slotval (di', d')) (slots ?n') = map (slotval (di, d)) (slots ?n) @ bs"
    and fr: "\<And>x. x \<notin> slotval (di', d') ` {t \<in> set (slots ?n'). is_index t} \<Longrightarrow> d' x = d x"
    unfolding seg same by blast+
  have f: "i_size di' = sz" "length (direct di') = 28" "inode_type di' = inode_type di" "parent_inode di' = parent_inode di"
    using fold_assign_other_fields [of ?st "seg ?n ?n'" bs] r len by simp_all
  have n': "data_blocks di' = ?n'" using f(1) by (simp add: data_blocks_def)
  have b: "blocks_of (di', d') (data_blocks di') = blocks_of (di, d) ?n @ bs" using ap by (simp add: blocks_of_def n')
  have "map (slotval (di', d')) (slots ?n) = map (slotval (di, d)) (slots ?n)" using ap l unfolding seg by simp
  then have "slotval (di', d') t = slotval (di, d) t" if "t \<in> set (slots ?n)" for t using that by simp
  then have "block_id_at (di', d') i = block_id_at (di, d) i" if "i < ?n" for i
    using that dataslot_in by (simp add: block_id_at_def)
  moreover have "inode_ok (di', d')" using f sz(2) b bs(2) by (simp add: inode_ok_def)
  moreover have "\<forall>x. x \<notin> index_blocks (di', d') \<longrightarrow> d' x = d x" using fr by (simp add: index_blocks_def n')
  moreover have "inode_fits di'" if "inode_fits di"
  proof -
    have "sz < 2 ^ 32" using sz(2) by (simp add: MAX_SIZE_def MAX_BLOCKS_def BLOCK_SZ_def)
    with that have "inode_fits (fst ?st)" by (simp add: inode_fits_def)
    from fold_assign_fits [OF this bs(3), of "seg ?n ?n'"] show ?thesis unfolding r by simp
  qed
  ultimately show ?thesis using inc f b by (intro exI [of _ di'] exI [of _ d']) simp
qed

end
