(* ===== verification/FileData.thy ===== *)
theory FileData
  imports BlockMap
begin

section \<open>Reading and writing through the block map\<close>

text \<open>
  The byte-wise meaning of \<^verbatim>\<open>read_at\<close> and \<^verbatim>\<open>write_at\<close> (easy-fs/src/layout.rs): both walk the file
  block by block; against the flat contents \<^verbatim>\<open>file_byte\<close> of a well-formed inode they are a slice
  and an overwrite.
\<close>

lemma same_block: "p div b = s div b \<Longrightarrow> \<exists>q. p = q + p mod b \<and> s = q + s mod (b::nat)"
  by (intro exI [of _ "s div b * b"]) (metis div_mod_decomp)

lemma take_drop_len: "length xs = n \<Longrightarrow> take n (xs @ ys) = xs \<and> drop n (xs @ ys) = ys"
  by simp

lemma ecb_facts:
  assumes "start < fin"
  defines "ecb \<equiv> end_current_block start fin"
  shows "start < ecb" "ecb \<le> fin" "\<And>p. start \<le> p \<Longrightarrow> p < ecb \<Longrightarrow> p div BLOCK_SZ = start div BLOCK_SZ"
    "\<And>p. start \<le> p \<Longrightarrow> p < ecb \<Longrightarrow> p mod BLOCK_SZ = start mod BLOCK_SZ + (p - start)"
    "ecb \<noteq> fin \<Longrightarrow> ecb div BLOCK_SZ = start div BLOCK_SZ + 1"
proof -
  have lt: "start < (start div BLOCK_SZ + 1) * BLOCK_SZ" by (simp add: BLOCK_SZ_def)
  show "start < ecb" "ecb \<le> fin" using lt assms(1) by (simp_all add: ecb_def end_current_block_def)
  show dv: "p div BLOCK_SZ = start div BLOCK_SZ" if "start \<le> p" "p < ecb" for p
  proof (rule antisym)
    have "p < (start div BLOCK_SZ + 1) * BLOCK_SZ" using that by (simp add: ecb_def end_current_block_def)
    then have "p div BLOCK_SZ < start div BLOCK_SZ + 1" by (rule less_mult_imp_div_less)
    then show "p div BLOCK_SZ \<le> start div BLOCK_SZ" by simp
    show "start div BLOCK_SZ \<le> p div BLOCK_SZ" using that by (simp add: div_le_mono)
  qed
  show "p mod BLOCK_SZ = start mod BLOCK_SZ + (p - start)" if "start \<le> p" "p < ecb" for p
    using that same_block [OF dv [OF that]] by auto
  show "ecb div BLOCK_SZ = start div BLOCK_SZ + 1" if "ecb \<noteq> fin"
    using that by (auto simp: ecb_def end_current_block_def min_def BLOCK_SZ_def split: if_splits)
qed

lemma block_id_ok:
  assumes "inode_ok (di, d)" "p < i_size di"
  shows "p div BLOCK_SZ < data_blocks di" "get_block_id di (p div BLOCK_SZ mod 2 ^ 32) d = Some (block_id_at (di, d) (p div BLOCK_SZ))"
proof -
  show lt: "p div BLOCK_SZ < data_blocks di" using byte_in_block [OF assms(2)] assms(1) by (simp add: inode_ok_def data_blocks_def)
  have "data_blocks di \<le> MAX_BLOCKS" using assms(1) by (simp add: inode_ok_def data_blocks_def blocks_for_bound)
  with lt have "p div BLOCK_SZ < MAX_BLOCKS" by linarith
  moreover from this have "p div BLOCK_SZ mod 2 ^ 32 = p div BLOCK_SZ" by (simp add: MAX_BLOCKS_def)
  ultimately show "get_block_id di (p div BLOCK_SZ mod 2 ^ 32) d = Some (block_id_at (di, d) (p div BLOCK_SZ))"
    using get_block_id_slot [of di "p div BLOCK_SZ" d] assms(1) by (simp add: inode_ok_def block_id_at_def)
qed

lemma get_bytes_file:
  assumes "start < fin"
  shows "get_bytes (d (block_id_at (di, d) (start div BLOCK_SZ))) (start mod BLOCK_SZ) (end_current_block start fin - start)
    = map (file_byte (di, d)) [start..<end_current_block start fin]"
proof (rule nth_equalityI)
  fix i assume "i < length (get_bytes (d (block_id_at (di, d) (start div BLOCK_SZ))) (start mod BLOCK_SZ) (end_current_block start fin - start))"
  then have i: "start + i < end_current_block start fin" by simp
  with ecb_facts(3,4) [OF assms, of "start + i"]
  show "get_bytes (d (block_id_at (di, d) (start div BLOCK_SZ))) (start mod BLOCK_SZ) (end_current_block start fin - start) ! i
      = map (file_byte (di, d)) [start..<end_current_block start fin] ! i"
    by (simp add: get_bytes_def file_byte_def)
qed (simp add: get_bytes_def)

lemma read_loop_ok:
  assumes ok: "inode_ok (di, d)" "fin \<le> i_size di" and st: "start < fin" "start_block = start div BLOCK_SZ" "rs + (fin - start) \<le> length buf"
  shows "read_loop di d fin start start_block rs buf =
    Some (rs + (fin - start), take rs buf @ map (file_byte (di, d)) [start..<fin] @ drop (rs + (fin - start)) buf)"
  using st
proof (induction "fin - start" arbitrary: start start_block rs buf rule: less_induct)
  case less
  let ?e = "end_current_block start fin" let ?n = "?e - start"
  note e = ecb_facts [OF less.prems(1)]
  let ?bs = "map (file_byte (di, d)) [start..<?e]"
  let ?buf = "take rs buf @ ?bs @ drop (rs + ?n) buf"
  have cp: "copy_into buf rs ?bs = Some ?buf" using less.prems(3) e(1,2) by (simp add: copy_into_def)
  have id: "get_block_id di (start_block mod 2 ^ 32) d = Some (block_id_at (di, d) (start div BLOCK_SZ))"
    using block_id_ok(2) [OF ok(1), of start] less.prems(1,2) ok(2) by simp
  have step: "read_loop di d fin start start_block rs buf =
      (if ?e = fin then Some (rs + ?n, ?buf) else read_loop di d fin ?e (start_block + 1) (rs + ?n) ?buf)"
    by (subst read_loop.simps) (simp only: Let_def id get_bytes_file [OF less.prems(1)] cp Option.bind.simps)
  show ?case
  proof (cases "?e = fin")
    case True
    then show ?thesis by (simp add: step)
  next
    case False
    have lb: "length ?buf = length buf" using less.prems(3) e(1,2) by simp
    have lt: "?e < fin" using e(2) False by simp
    have h: "fin - ?e < fin - start" using lt e(1) by linarith
    have sb: "start_block + 1 = ?e div BLOCK_SZ" using e(5) [OF False] less.prems(2) by simp
    have "rs + ?n + (fin - ?e) \<le> length ?buf" unfolding lb using less.prems(3) e(1,2) by linarith
    note ih = less.hyps [OF h lt sb this]
    have l: "length (take rs buf @ ?bs) = rs + ?n" using less.prems(3) e(1,2) by simp
    have "take (rs + ?n) ?buf = take rs buf @ ?bs" "drop (rs + ?n) ?buf = drop (rs + ?n) buf"
      using take_drop_len [OF l, of "drop (rs + ?n) buf"] by (simp_all only: append_assoc)
    moreover have "drop (rs + (fin - start)) bs = drop (fin - ?e) (drop (rs + ?n) bs)" for bs :: "u8 list"
    proof -
      have "fin - ?e + (rs + ?n) = rs + (fin - start)" using e(1,2) by simp
      then show ?thesis by (simp only: drop_drop)
    qed
    moreover have "[start..<fin] = [start..<?e] @ [?e..<fin]" using e(1,2) by (metis le_add_diff_inverse less_imp_le upt_add_eq_append)
    moreover have "rs + ?n + (fin - ?e) = rs + (fin - start)" using e(1,2) by simp
    ultimately show ?thesis using ih False by (simp only: step if_False append_assoc map_append)
  qed
qed

subsection \<open>Writing data blocks leaves the block map alone\<close>

lemma slotval_data_write:
  assumes "x \<notin> index_blocks (di, d)" "t \<in> set (slots (data_blocks di))"
  shows "slotval (di, d(x := blk)) t = slotval (di, d) t"
proof -
  have ne: "x \<noteq> slotval (di, d) s" if "s \<in> set (slots (data_blocks di))" "is_index s" for s
    using assms(1) that by (auto simp: index_blocks_def)
  have par: "Single i \<in> set (slots n) \<Longrightarrow> Ind1 \<in> set (slots n)" "Sub a \<in> set (slots n) \<Longrightarrow> Ind2 \<in> set (slots n)"
    "Double a b \<in> set (slots n) \<Longrightarrow> Sub a \<in> set (slots n) \<and> Ind2 \<in> set (slots n)" for i a b n
    unfolding set_slots by (auto split: if_splits)
  show ?thesis using ne [of Ind1] ne [of Ind2] ne [of "Sub _"] assms(2) par by (cases t) (auto, metis+)
qed

lemma data_write_ok:
  fixes blk :: block
  assumes ok: "inode_ok (di, d)" and i: "i < data_blocks di"
  defines "d' \<equiv> d(block_id_at (di, d) i := blk)"
  shows "inode_ok (di, d')" "j < data_blocks di \<Longrightarrow> block_id_at (di, d') j = block_id_at (di, d) j"
    "blocks_of (di, d') (data_blocks di) = blocks_of (di, d) (data_blocks di)"
proof -
  have same: "slotval (di, d') t = slotval (di, d) t" if "t \<in> set (slots (data_blocks di))" for t
    unfolding d'_def using data_block_not_index [OF ok] i that by (intro slotval_data_write) simp_all
  then show b: "blocks_of (di, d') (data_blocks di) = blocks_of (di, d) (data_blocks di)" by (simp add: blocks_of_def)
  then show "inode_ok (di, d')" using ok by (simp add: inode_ok_def)
  show "block_id_at (di, d') j = block_id_at (di, d) j" if "j < data_blocks di"
    using same dataslot_in [OF that] by (simp add: block_id_at_def)
qed

lemma put_block_file_byte:
  assumes ok: "inode_ok (di, d)" and start: "start < fin" "fin \<le> i_size di" and p: "p < i_size di"
    and bs: "length bs = end_current_block start fin - start"
  defines "d' \<equiv> d(block_id_at (di, d) (start div BLOCK_SZ) :=
      put_bytes (d (block_id_at (di, d) (start div BLOCK_SZ))) (start mod BLOCK_SZ) bs)"
  shows "file_byte (di, d') p =
    (if start \<le> p \<and> p < end_current_block start fin then bs ! (p - start) else file_byte (di, d) p)"
proof -
  let ?sb = "start div BLOCK_SZ" let ?e = "end_current_block start fin"
  note e = ecb_facts [OF start(1)]
  have sb: "?sb < data_blocks di" using block_id_ok(1) [OF ok] start by simp
  have pb: "p div BLOCK_SZ < data_blocks di" using block_id_ok(1) [OF ok p] .
  note id = data_write_ok(2) [OF ok sb pb, where blk = "put_bytes (d (block_id_at (di, d) ?sb)) (start mod BLOCK_SZ) bs", folded d'_def]
  have fb: "file_byte (di, d') p = d' (block_id_at (di, d) (p div BLOCK_SZ)) (p mod BLOCK_SZ)" by (simp add: file_byte_def id)
  show ?thesis
  proof (cases "p div BLOCK_SZ = ?sb")
    case False
    then have "block_id_at (di, d) (p div BLOCK_SZ) \<noteq> block_id_at (di, d) ?sb"
      using block_id_at_inj [OF ok, of "p div BLOCK_SZ" ?sb] pb sb by auto
    moreover have "\<not> (start \<le> p \<and> p < ?e)" using False e(3) by blast
    ultimately show ?thesis unfolding fb by (auto simp: file_byte_def d'_def)
  next
    case True
    have in_block: "start mod BLOCK_SZ \<le> p mod BLOCK_SZ \<and> p mod BLOCK_SZ < start mod BLOCK_SZ + (?e - start)
        \<longleftrightarrow> start \<le> p \<and> p < ?e"
    proof -
      from same_block [OF True] obtain q where "p = q + p mod BLOCK_SZ" "start = q + start mod BLOCK_SZ" by blast
      with e(1) show ?thesis by linarith
    qed
    have "p mod BLOCK_SZ - start mod BLOCK_SZ = p - start" if "start \<le> p" "p < ?e" using e(4) [OF that] by simp
    with in_block show ?thesis unfolding fb by (simp add: file_byte_def True d'_def put_bytes_def bs)
  qed
qed

lemma write_loop_ok:
  assumes "inode_ok (di, d)" and "fin \<le> i_size di" and "start < fin" "start_block = start div BLOCK_SZ" "ws + (fin - start) \<le> length buf"
  shows "\<exists>d'. write_loop di d fin start start_block ws buf = Some (ws + (fin - start), d') \<and> inode_ok (di, d')
    \<and> blocks_of (di, d') (data_blocks di) = blocks_of (di, d) (data_blocks di)
    \<and> (\<forall>x. x \<notin> set (blocks_of (di, d) (data_blocks di)) \<longrightarrow> d' x = d x)
    \<and> (\<forall>p < i_size di. file_byte (di, d') p = (if start \<le> p \<and> p < fin then buf ! (ws + (p - start)) else file_byte (di, d) p))"
  using assms
proof (induction "fin - start" arbitrary: start start_block ws d rule: less_induct)
  case less
  note ok = less.prems(1) and fin = less.prems(2)
  let ?e = "end_current_block start fin" let ?n = "?e - start" let ?id = "block_id_at (di, d) (start div BLOCK_SZ)"
  let ?bs = "take ?n (drop ws buf)"
  let ?d = "d(?id := put_bytes (d ?id) (start mod BLOCK_SZ) ?bs)"
  note e = ecb_facts [OF less.prems(3)]
  have sb: "start div BLOCK_SZ < data_blocks di" using block_id_ok(1) [OF ok] less.prems(2,3) by simp
  have id: "get_block_id di (start_block mod 2 ^ 32) d = Some ?id"
    using block_id_ok(2) [OF ok, of start] less.prems(2-4) by simp
  have step: "write_loop di d fin start start_block ws buf =
      (if ?e = fin then Some (ws + ?n, ?d) else write_loop di ?d fin ?e (start_block + 1) (ws + ?n) buf)"
  proof -
    have "ws + ?n \<le> length buf" using less.prems(5) e(1,2) by linarith
    then show ?thesis by (subst write_loop.simps) (simp only: Let_def id Option.bind.simps ensure_bind if_True)
  qed
  have len: "length ?bs = ?n" using less.prems(5) e(1,2) by simp
  note w = data_write_ok [OF ok sb, where blk = "put_bytes (d ?id) (start mod BLOCK_SZ) ?bs"]
  have fb: "file_byte (di, ?d) p = (if start \<le> p \<and> p < ?e then buf ! (ws + (p - start)) else file_byte (di, d) p)" if "p < i_size di" for p
    using put_block_file_byte [OF ok less.prems(3) fin that len] less.prems(5) e(1,2) by auto
  have own: "?id \<in> set (blocks_of (di, d) (data_blocks di))" using dataslot_in [OF sb] by (simp add: block_id_at_def blocks_of_def)
  show ?case
  proof (cases "?e = fin")
    case True
    then show ?thesis using step w(1,3) fb own by auto
  next
    case False
    have lt: "?e < fin" using e(2) False by simp
    have h: "fin - ?e < fin - start" using lt e(1) by linarith
    have sb': "start_block + 1 = ?e div BLOCK_SZ" using e(5) [OF False] less.prems(4) by simp
    have "ws + ?n + (fin - ?e) \<le> length buf" using less.prems(5) e(1,2) by linarith
    from less.hyps [OF h w(1) fin lt sb' this]
    obtain d' where d': "write_loop di ?d fin ?e (start_block + 1) (ws + ?n) buf = Some (ws + ?n + (fin - ?e), d')" "inode_ok (di, d')"
      "blocks_of (di, d') (data_blocks di) = blocks_of (di, ?d) (data_blocks di)"
      "\<And>x. x \<notin> set (blocks_of (di, ?d) (data_blocks di)) \<Longrightarrow> d' x = ?d x"
      "\<And>p. p < i_size di \<Longrightarrow> file_byte (di, d') p = (if ?e \<le> p \<and> p < fin then buf ! (ws + ?n + (p - ?e)) else file_byte (di, ?d) p)" by blast
    have "file_byte (di, d') p = (if start \<le> p \<and> p < fin then buf ! (ws + (p - start)) else file_byte (di, d) p)" if "p < i_size di" for p
      using d'(5) [OF that] fb [OF that] e(1,2) by auto
    moreover have "d' x = d x" if "x \<notin> set (blocks_of (di, d) (data_blocks di))" for x
      using that d'(4) [of x] own w(3) by auto
    moreover have "ws + ?n + (fin - ?e) = ws + (fin - start)" using e(1,2) by simp
    ultimately show ?thesis using d'(1-3) False step w(3) by auto
  qed
qed

subsection \<open>Properties\<close>

definition example_inode :: disk_inode where
  "example_inode = \<lparr>i_size = 600, direct = 5 # 6 # replicate 26 0, indirect1 = 0, indirect2 = 0, inode_type = File, parent_inode = 0\<rparr>"

lemma slots_two: "slots 2 = [Direct 0, Direct 1]"
  by (simp add: numeral_2_eq_2 new_slots_def)

lemma example_inode_ok:
  "inode_ok (example_inode, d)" "data_blocks example_inode = 2" "blocks_of (example_inode, d) 2 = [5, 6]"
  by (simp_all add: inode_ok_def example_inode_def data_blocks_def blocks_for_def BLOCK_SZ_def MAX_SIZE_def MAX_BLOCKS_def
      blocks_of_def slots_two)

lemma increase_size_keeps:
  assumes "inode_ok (di, d)" "i_size di \<le> sz" "sz \<le> MAX_SIZE" "blocks_num_needed di sz = Some (length bs)"
    "distinct (blocks_of (di, d) (data_blocks di) @ bs)" "\<forall>b \<in> set bs. b < 2 ^ 32" "increase_size di sz bs d = Some (di', d')"
  shows "take (i_size di) (file_bytes (di', d')) = file_bytes (di, d)"
proof -
  from increase_size_ok [OF assms(1-6)] assms(7) have r: "i_size di' = sz" "inode_ok (di', d')"
    "\<And>i. i < data_blocks di \<Longrightarrow> block_id_at (di', d') i = block_id_at (di, d) i"
    "\<And>x. x \<notin> index_blocks (di', d') \<Longrightarrow> d' x = d x" by auto
  have le: "data_blocks di \<le> data_blocks di'" using assms(2,3) r(1) by (simp add: data_blocks_def blocks_for_mono)
  have "file_byte (di', d') p = file_byte (di, d) p" if "p < i_size di" for p
  proof -
    have i: "p div BLOCK_SZ < data_blocks di" using block_id_ok(1) [OF assms(1) that] .
    with data_block_not_index [OF r(2)] le have "block_id_at (di', d') (p div BLOCK_SZ) \<notin> index_blocks (di', d')" by simp
    with r(3) [OF i] r(4) show ?thesis by (simp add: file_byte_def)
  qed
  then show ?thesis using assms(2) r(1) by (simp add: file_bytes_def take_map)
qed

text \<open>Growing an inode. Given exactly as many fresh block numbers as
  \<^verbatim>\<open>blocks_num_needed\<close> asks for, \<^verbatim>\<open>increase_size\<close> never panics, appends them to the blocks the inode
  owns (through the direct, indirect and doubly indirect range), keeps the number and contents of
  every existing data block, keeps the inode well formed, and writes only index blocks of this inode.\<close>

lemma increase_size_appends:
  assumes "inode_ok (di, d)" "i_size di \<le> sz" "sz \<le> MAX_SIZE" "blocks_num_needed di sz = Some (length bs)"
    "distinct (blocks_of (di, d) (data_blocks di) @ bs)" "\<forall>b \<in> set bs. b < 2 ^ 32"
  shows "\<exists>di' d'. increase_size di sz bs d = Some (di', d') \<and> i_size di' = sz \<and> inode_ok (di', d')
    \<and> blocks_of (di', d') (data_blocks di') = blocks_of (di, d) (data_blocks di) @ bs
    \<and> take (i_size di) (file_bytes (di', d')) = file_bytes (di, d)
    \<and> (\<forall>x. x \<notin> index_blocks (di', d') \<longrightarrow> d' x = d x)"
proof -
  from increase_size_ok [OF assms] obtain di' d' where r: "increase_size di sz bs d = Some (di', d')" "i_size di' = sz" "inode_ok (di', d')"
    "blocks_of (di', d') (data_blocks di') = blocks_of (di, d) (data_blocks di) @ bs"
    "\<forall>x. x \<notin> index_blocks (di', d') \<longrightarrow> d' x = d x" by blast
  with increase_size_keeps [OF assms r(1)] show ?thesis by blast
qed

text \<open>Clearing an inode returns every block it owns, index blocks included, each exactly once
  and as many as \<^verbatim>\<open>total_blocks\<close> of its size, and leaves an empty inode.\<close>

lemma clear_size_returns_all:
  assumes "inode_ok (di, d)"
  shows "\<exists>v di'. clear_size di d = Some (v, di') \<and> v = blocks_of (di, d) (data_blocks di) \<and> distinct v
    \<and> length v = total_blocks (i_size di) \<and> i_size di' = 0 \<and> inode_ok (di', d)"
proof -
  have "length (direct di) = 28" "data_blocks di \<le> MAX_BLOCKS" and di: "distinct (blocks_of (di, d) (data_blocks di))"
    using assms by (auto simp: inode_ok_def data_blocks_def blocks_for_bound)
  from clear_size_ok [OF this(1,2), of d] obtain di' where
    c: "clear_size di d = Some (blocks_of (di, d) (data_blocks di), di')" "i_size di' = 0" "length (direct di') = 28" by blast
  have "blocks_for 0 = 0" by (simp add: blocks_for_def BLOCK_SZ_def)
  then have "inode_ok (di', d)" using c by (simp add: inode_ok_def data_blocks_def blocks_of_def)
  with c di show ?thesis by (simp add: total_blocks_slots blocks_of_def data_blocks_def)
qed

lemma read_at_ok:
  assumes "inode_ok (di, d)" "offset + length buf < 2 ^ 64" "n = min (length buf) (i_size di - offset)"
  shows "inode_read_at di offset buf d = Some (n, take n (drop offset (file_bytes (di, d))) @ drop n buf)"
proof (cases "min (offset + length buf) (i_size di) \<le> offset")
  case True
  then have "n = 0" using assms(3) by auto
  with True assms(2) show ?thesis by (simp add: inode_read_at_def Let_def)
next
  case False
  let ?fin = "min (offset + length buf) (i_size di)"
  have n: "?fin - offset = n" "n \<le> length buf" using assms(3) False by auto
  have "read_loop di d ?fin offset (offset div BLOCK_SZ) 0 buf =
      Some (0 + (?fin - offset), take 0 buf @ map (file_byte (di, d)) [offset..<?fin] @ drop (0 + (?fin - offset)) buf)"
    using False n by (intro read_loop_ok [OF assms(1)]) auto
  moreover have "take n (drop offset (file_bytes (di, d))) = map (file_byte (di, d)) [offset..<?fin]"
  proof -
    have "take n [offset..<i_size di] = [offset..<offset + n]" using n False by (intro take_upt) auto
    moreover have "offset + n = ?fin" using n False by auto
    ultimately show ?thesis by (simp add: file_bytes_def take_map drop_map)
  qed
  ultimately show ?thesis using False assms(2) n by (simp add: inode_read_at_def Let_def)
qed

text \<open>\<^verbatim>\<open>read_at\<close> is a slice of the file: it copies the bytes from the offset up to the end of the
  buffer or of the file to the front of the buffer, whatever blocks they lie in, and leaves the rest
  of the buffer alone; past the end it reads nothing.\<close>

lemma read_at_slice:
  assumes "inode_ok (di, d)" "offset + length buf < 2 ^ 64" "n = min (length buf) (i_size di - offset)"
  shows "inode_read_at di offset buf d = Some (n, take n (drop offset (file_bytes (di, d))) @ drop n buf)"
  using assms by (rule read_at_ok)

lemma write_at_ok:
  assumes "inode_ok (di, d)" "offset < i_size di" "buf \<noteq> []" "offset + length buf < 2 ^ 64" "n = min (length buf) (i_size di - offset)"
  shows "\<exists>d'. inode_write_at di offset buf d = Some (n, d') \<and> inode_ok (di, d')
    \<and> file_bytes (di, d') = take offset (file_bytes (di, d)) @ take n buf @ drop (offset + n) (file_bytes (di, d))
    \<and> blocks_of (di, d') (data_blocks di) = blocks_of (di, d) (data_blocks di)
    \<and> (\<forall>x. x \<notin> set (blocks_of (di, d) (data_blocks di)) \<longrightarrow> d' x = d x)"
proof -
  let ?fin = "min (offset + length buf) (i_size di)"
  have n: "?fin - offset = n" "offset < ?fin" "n \<le> length buf" "offset + n = ?fin" "?fin \<le> i_size di"
    using assms(2,3,5) by (auto simp: min_def split: if_splits)
  from write_loop_ok [OF assms(1) n(5,2) refl, of 0 buf] n(1,3) obtain d' where
    w: "write_loop di d ?fin offset (offset div BLOCK_SZ) 0 buf = Some (n, d')" "inode_ok (di, d')"
      "blocks_of (di, d') (data_blocks di) = blocks_of (di, d) (data_blocks di)"
      "\<forall>x. x \<notin> set (blocks_of (di, d) (data_blocks di)) \<longrightarrow> d' x = d x"
      "\<And>p. p < i_size di \<Longrightarrow> file_byte (di, d') p = (if offset \<le> p \<and> p < ?fin then buf ! (p - offset) else file_byte (di, d) p)"
    by auto
  have "inode_write_at di offset buf d = Some (n, d')" using assms(4) n(2) w(1) by (simp add: inode_write_at_def Let_def)
  moreover have "file_bytes (di, d') = take offset (file_bytes (di, d)) @ take n buf @ drop (offset + n) (file_bytes (di, d))"
    using n assms(2) w(5) by (intro nth_equalityI) (auto simp: file_bytes_def nth_append)
  ultimately show ?thesis using w(2-4) by blast
qed

text \<open>\<^verbatim>\<open>write_at\<close> inside a file overwrites exactly the addressed bytes: the file afterwards is the
  old one with the written part replaced, its size and block map are unchanged, and no block of
  another owner changes. Reading back therefore returns what was written.\<close>

lemma write_at_overwrites:
  assumes "inode_ok (di, d)" "offset < i_size di" "buf \<noteq> []" "offset + length buf < 2 ^ 64" "n = min (length buf) (i_size di - offset)"
  shows "\<exists>d'. inode_write_at di offset buf d = Some (n, d') \<and> inode_ok (di, d')
    \<and> file_bytes (di, d') = take offset (file_bytes (di, d)) @ take n buf @ drop (offset + n) (file_bytes (di, d))
    \<and> blocks_of (di, d') (data_blocks di) = blocks_of (di, d) (data_blocks di)
    \<and> (\<forall>x. x \<notin> set (blocks_of (di, d) (data_blocks di)) \<longrightarrow> d' x = d x)"
  using assms by (rule write_at_ok)

end
