(* ===== verification/EasyFs.thy ===== *)
theory EasyFs
  imports FileData
begin

section \<open>The file system: areas, bitmaps and positions\<close>

text \<open>
  easy-fs/src/efs.rs. The structure in memory never changes after \<^verbatim>\<open>create\<close> or \<^verbatim>\<open>open\<close>: all state
  is on the disk. Block numbers and sizes are 32-bit numbers; wrapping arithmetic is written out
  by \<^verbatim>\<open>add32\<close> and \<^verbatim>\<open>sub32\<close>.
\<close>

definition add32 :: "nat \<Rightarrow> nat \<Rightarrow> nat" where "add32 a b = (a + b) mod 2 ^ 32"
definition sub32 :: "nat \<Rightarrow> nat \<Rightarrow> nat" where "sub32 a b = (a + 2 ^ 32 - b mod 2 ^ 32) mod 2 ^ 32"

lemma add32_lt: "a + b < 2 ^ 32 \<Longrightarrow> add32 a b = a + b"
  by (simp add: add32_def)

lemma sub32_le: "b \<le> a \<Longrightarrow> a < 2 ^ 32 \<Longrightarrow> sub32 a b = a - b"
proof -
  assume ab: "b \<le> a" "a < 2 ^ 32"
  then have "sub32 a b = (a - b + 2 ^ 32) mod 2 ^ 32" by (simp add: sub32_def)
  also have "\<dots> = (a - b) mod 2 ^ 32" by (rule mod_add_self2)
  finally show ?thesis using ab by simp
qed

record easy_file_system =
  inode_bitmap :: bitmap
  data_bitmap :: bitmap
  inode_area_start_block :: nat
  data_area_start_block :: nat

definition inodes_per_block :: nat where "inodes_per_block = BLOCK_SZ div DISK_INODE_SZ"

definition get_disk_inode_pos :: "easy_file_system \<Rightarrow> nat \<Rightarrow> nat \<times> nat" where
  "get_disk_inode_pos fs inode_id =
     (add32 (inode_area_start_block fs) (inode_id div inodes_per_block), inode_id mod inodes_per_block * DISK_INODE_SZ)"

definition get_data_block_id :: "easy_file_system \<Rightarrow> nat \<Rightarrow> nat" where
  "get_data_block_id fs b = add32 (data_area_start_block fs) b"

definition alloc_inode :: "easy_file_system \<Rightarrow> disk \<Rightarrow> (nat \<times> disk) outcome" where
  "alloc_inode fs d = (case bitmap_alloc (inode_bitmap fs) d of (Some b, d') \<Rightarrow> Some (b mod 2 ^ 32, d') | (None, _) \<Rightarrow> None)"

definition alloc_data :: "easy_file_system \<Rightarrow> disk \<Rightarrow> (nat \<times> disk) outcome" where
  "alloc_data fs d = (case bitmap_alloc (data_bitmap fs) d of
     (Some b, d') \<Rightarrow> Some (add32 (b mod 2 ^ 32) (data_area_start_block fs), d') | (None, _) \<Rightarrow> None)"

definition dealloc_inode :: "easy_file_system \<Rightarrow> disk \<Rightarrow> nat \<Rightarrow> disk outcome" where
  "dealloc_inode fs d inode_id = bitmap_dealloc (inode_bitmap fs) d inode_id"

definition zero_block :: "block \<Rightarrow> block" where
  "zero_block blk = (\<lambda>i. if i < BLOCK_SZ then 0 else blk i)"

definition dealloc_data :: "easy_file_system \<Rightarrow> disk \<Rightarrow> nat \<Rightarrow> disk outcome" where
  "dealloc_data fs d b =
     bitmap_dealloc (data_bitmap fs) (d(b := zero_block (d b))) (sub32 b (data_area_start_block fs))"

definition clear_blocks :: "disk \<Rightarrow> nat \<Rightarrow> disk" where
  "clear_blocks d n = (\<lambda>b. if b < n then zero_block (d b) else d b)"

definition efs_create :: "disk \<Rightarrow> nat \<Rightarrow> nat \<Rightarrow> (easy_file_system \<times> disk) outcome" where
  "efs_create d tot ib = (let
       inode_num = maximum (bitmap_new 1 ib);
       ia = (inode_num * DISK_INODE_SZ + BLOCK_SZ - 1) div BLOCK_SZ mod 2 ^ 32;
       inode_total = add32 ib ia;
       data_total = sub32 (sub32 tot 1) inode_total;
       db = add32 data_total 4096 div 4097;
       da = sub32 data_total db;
       fs = \<lparr>inode_bitmap = bitmap_new 1 ib, data_bitmap = bitmap_new (add32 1 inode_total) db,
             inode_area_start_block = add32 1 ib, data_area_start_block = add32 (add32 1 inode_total) db\<rparr>;
       d1 = clear_blocks d tot;
       d2 = d1(0 := put_super_block (d1 0) (super_block_initialize tot ib ia db da))
     in do {
       (root, d3) \<leftarrow> alloc_inode fs d2;
       _ \<leftarrow> ensure (root = 0);
       let (blk, off) = get_disk_inode_pos fs 0;
       Some (fs, d3(blk := put_disk_inode (d3 blk) off ((disk_inode_initialize Directory)\<lparr>parent_inode := 0\<rparr>)))
     })"

definition efs_open :: "disk \<Rightarrow> easy_file_system outcome" where
  "efs_open d = (let sb = get_super_block (d 0); inode_total = add32 (inode_bitmap_blocks sb) (inode_area_blocks sb) in do {
     _ \<leftarrow> ensure (super_block_is_valid sb);
     Some \<lparr>inode_bitmap = bitmap_new 1 (inode_bitmap_blocks sb),
           data_bitmap = bitmap_new (add32 1 inode_total) (data_bitmap_blocks sb),
           inode_area_start_block = add32 1 (inode_bitmap_blocks sb),
           data_area_start_block = add32 (add32 1 inode_total) (data_bitmap_blocks sb)\<rparr>
   })"

subsection \<open>Super block and inodes on disk\<close>

lemma get_put_super_block:
  assumes "magic sb < 2 ^ 32" "sb_total_blocks sb < 2 ^ 32" "inode_bitmap_blocks sb < 2 ^ 32" "inode_area_blocks sb < 2 ^ 32"
    "data_bitmap_blocks sb < 2 ^ 32" "data_area_blocks sb < 2 ^ 32"
  shows "get_super_block (put_super_block blk sb) = sb"
  using assms by (simp add: get_super_block_def put_super_block_def get_put_le_other)

lemma get_put_direct_other:
  "off + n \<le> off' \<or> off' + 4 * length vs \<le> off \<Longrightarrow> get_le n (put_direct blk off' vs) off = get_le n blk off"
proof (induction vs arbitrary: blk off')
  case (Cons v vs)
  then have "off + n \<le> off' + 4 \<or> (off' + 4) + 4 * length vs \<le> off" by auto
  from Cons.IH [OF this] Cons.prems show ?case by (auto simp: get_put_le_other)
qed simp

lemma get_put_direct:
  "i < length vs \<Longrightarrow> get_le 4 (put_direct blk off vs) (off + 4 * i) = vs ! i mod 2 ^ 32"
proof (induction vs arbitrary: blk off i)
  case (Cons v vs)
  show ?case
  proof (cases i)
    case 0
    then show ?thesis by (simp add: get_put_direct_other)
  next
    case (Suc j)
    with Cons.IH [of j "put_le 4 blk off v" "off + 4"] Cons.prems show ?thesis by (simp add: add.assoc)
  qed
qed simp

lemma put_direct_byte: "i < off \<or> off + 4 * length vs \<le> i \<Longrightarrow> put_direct blk off vs i = blk i"
proof (induction vs arbitrary: blk off)
  case (Cons v vs)
  then have "i < off + 4 \<or> (off + 4) + 4 * length vs \<le> i" by auto
  from Cons.IH [OF this] Cons.prems show ?case by (auto simp: put_le_def)
qed simp

lemma get_put_disk_inode:
  assumes "inode_fits di"
  shows "get_disk_inode (put_disk_inode blk off di) off = di"
proof -
  have len: "length (direct di) = 28" using assms by (simp add: inode_fits_def)
  have "map (\<lambda>i. get_le 4 (put_disk_inode blk off di) (off + 4 + 4 * i)) [0..<28] = direct di"
  proof (rule nth_equalityI)
    fix i assume "i < length (map (\<lambda>i. get_le 4 (put_disk_inode blk off di) (off + 4 + 4 * i)) [0..<28])"
    then have i: "i < 28" by simp
    have "direct di ! i < 2 ^ 32" using assms i len by (simp add: inode_fits_def)
    with i len get_put_direct [of i "direct di" _ "off + 4"]
    show "map (\<lambda>i. get_le 4 (put_disk_inode blk off di) (off + 4 + 4 * i)) [0..<28] ! i = direct di ! i"
      by (simp add: put_disk_inode_def get_put_le_other)
  qed (simp add: len)
  moreover have "put_disk_inode blk off di (off + 124) = (case inode_type di of File \<Rightarrow> 0 | Directory \<Rightarrow> 1)"
    by (simp add: put_disk_inode_def put_le_def split: disk_inode_type.splits)
  ultimately show ?thesis using assms len
    by (cases di; cases "inode_type di") (simp_all add: get_disk_inode_def put_disk_inode_def get_put_le_other get_put_direct_other inode_fits_def)
qed

lemma put_disk_inode_byte: "length (direct di) = 28 \<Longrightarrow> i < off \<or> off + DISK_INODE_SZ \<le> i \<Longrightarrow> put_disk_inode blk off di i = blk i"
  by (auto simp: put_disk_inode_def put_le_def put_direct_byte DISK_INODE_SZ_def)

lemma get_disk_inode_fits [simp]: "inode_fits (get_disk_inode blk off)"
  using get_le_bound [of 4 blk] by (auto simp: inode_fits_def get_disk_inode_def)

lemma get_disk_inode_cong:
  assumes "\<And>i. off \<le> i \<Longrightarrow> i < off + DISK_INODE_SZ \<Longrightarrow> blk i = blk' i"
  shows "get_disk_inode blk off = get_disk_inode blk' off"
  unfolding get_disk_inode_def using assms
  by (auto simp: DISK_INODE_SZ_def intro!: get_le_cong map_cong)

subsection \<open>A new file system\<close>

lemma get_le_zero_block: "off + n \<le> BLOCK_SZ \<Longrightarrow> get_le n (zero_block blk) off = 0"
  using get_le_cong [of off n "zero_block blk" "\<lambda>_. 0"] by (simp add: zero_block_def)

lemma zero_block_no_bit: "x < BLOCK_BITS \<Longrightarrow> \<not> block_bit (zero_block blk) x"
proof -
  assume "x < BLOCK_BITS"
  then have "8 * (x div 64) + 8 \<le> BLOCK_SZ" by (simp add: block_bits_eq BLOCK_SZ_def)
  then show ?thesis by (simp add: block_bit_def bits64_def get_le_zero_block)
qed

lemma bit_at_zero_block: "d (b div BLOCK_BITS + start_block_id bm) = zero_block blk \<Longrightarrow> \<not> bit_at bm d b"
  using zero_block_no_bit [of "b mod BLOCK_BITS" blk] by (simp add: bit_at_def block_bits_eq)

lemma bitmap_alloc_first:
  assumes "0 < blocks bm" and "\<And>b. b < maximum bm \<Longrightarrow> \<not> bit_at bm d b"
  shows "\<exists>d'. bitmap_alloc bm d = (Some 0, d') \<and> (\<forall>c. bit_at bm d' c \<longleftrightarrow> bit_at bm d c \<or> c = 0)
    \<and> (\<forall>x. x < start_block_id bm \<or> start_block_id bm + blocks bm \<le> x \<longrightarrow> d' x = d x)"
proof -
  obtain r d' where r: "bitmap_alloc bm d = (r, d')" by (cases "bitmap_alloc bm d")
  have mx: "0 < maximum bm" using assms(1) by (simp add: maximum_def block_bits_eq)
  show ?thesis
  proof (cases r)
    case None
    with bitmap_alloc_ok [OF r] assms(2) mx show ?thesis by auto
  next
    case (Some b)
    have "b < maximum bm \<and> (\<forall>c < b. bit_at bm d c)" using bitmap_alloc_ok [OF r] Some by simp
    then have "b = 0" using assms(2) [of 0] mx by (metis gr0I)
    with bitmap_alloc_ok [OF r] Some r show ?thesis by simp
  qed
qed

text \<open>Parameters for which the areas fit in the device and no computation of \<^verbatim>\<open>create\<close> wraps.\<close>

definition area_blocks :: "nat \<Rightarrow> nat" where
  "area_blocks ib = (ib * BLOCK_BITS * DISK_INODE_SZ + BLOCK_SZ - 1) div BLOCK_SZ"

definition create_ok :: "nat \<Rightarrow> nat \<Rightarrow> bool" where
  "create_ok tot ib \<longleftrightarrow> 0 < ib \<and> 1 + ib + area_blocks ib < tot \<and> tot < 2 ^ 31"

definition created_fs :: "nat \<Rightarrow> nat \<Rightarrow> easy_file_system" where
  "created_fs tot ib = (let it = ib + area_blocks ib; db = (tot - 1 - it + 4096) div 4097 in
     \<lparr>inode_bitmap = bitmap_new 1 ib, data_bitmap = bitmap_new (1 + it) db,
      inode_area_start_block = 1 + ib, data_area_start_block = 1 + it + db\<rparr>)"

definition created_sb :: "nat \<Rightarrow> nat \<Rightarrow> super_block" where
  "created_sb tot ib = (let dt = tot - 1 - (ib + area_blocks ib); db = (dt + 4096) div 4097 in
     super_block_initialize tot ib (area_blocks ib) db (dt - db))"

lemma area_blocks_eq: "area_blocks ib = 1056 * ib"
  by (simp add: area_blocks_def block_bits_eq DISK_INODE_SZ_def BLOCK_SZ_def)

lemma efs_create_eq:
  assumes "create_ok tot ib"
  shows "efs_create d tot ib = (let d1 = clear_blocks d tot; d2 = d1(0 := put_super_block (d1 0) (created_sb tot ib)) in do {
       (root, d3) \<leftarrow> alloc_inode (created_fs tot ib) d2;
       _ \<leftarrow> ensure (root = 0);
       let (blk, off) = get_disk_inode_pos (created_fs tot ib) 0;
       Some (created_fs tot ib, d3(blk := put_disk_inode (d3 blk) off (disk_inode_initialize Directory)))
     })"
proof -
  have b: "0 < ib" "1 + ib + 1056 * ib < tot" "tot < 2 ^ 31" using assms by (simp_all add: create_ok_def area_blocks_eq)
  have ia: "(maximum (bitmap_new 1 ib) * DISK_INODE_SZ + BLOCK_SZ - 1) div BLOCK_SZ mod 2 ^ 32 = area_blocks ib"
  proof -
    have "maximum (bitmap_new 1 ib) = ib * BLOCK_BITS" by (simp add: maximum_def bitmap_new_def)
    then show ?thesis using b unfolding area_blocks_def [symmetric] by (simp only: area_blocks_def [symmetric]) (simp add: area_blocks_eq)
  qed
  have t: "add32 ib (area_blocks ib) = ib + area_blocks ib" "sub32 (sub32 tot 1) (ib + area_blocks ib) = tot - 1 - (ib + area_blocks ib)"
    using b by (simp_all add: add32_lt sub32_le area_blocks_eq)
  define dt where "dt = tot - 1 - (ib + area_blocks ib)"
  have dt: "dt < 2 ^ 31" using b by (simp add: dt_def)
  have db: "(dt + 4096) div 4097 \<le> dt + 1" by simp
  have dle: "(dt + 4096) div 4097 \<le> dt" using b by (cases dt) (simp_all add: dt_def)
  have u: "add32 dt 4096 = dt + 4096" "sub32 dt ((dt + 4096) div 4097) = dt - (dt + 4096) div 4097"
    "add32 1 (ib + area_blocks ib) = 1 + (ib + area_blocks ib)" "add32 1 ib = 1 + ib"
    "add32 (1 + (ib + area_blocks ib)) ((dt + 4096) div 4097) = 1 + (ib + area_blocks ib) + (dt + 4096) div 4097"
    using b dt db dle by (simp_all add: add32_lt sub32_le area_blocks_eq)
  have p: "(disk_inode_initialize Directory)\<lparr>parent_inode := 0\<rparr> = disk_inode_initialize Directory"
    by (simp add: disk_inode_initialize_def)
  show ?thesis
    unfolding efs_create_def Let_def ia t dt_def [symmetric] u p created_fs_def created_sb_def by simp
qed

lemma efs_create_ok:
  assumes "create_ok tot ib"
  shows "\<exists>d'. efs_create d tot ib = Some (created_fs tot ib, d') \<and> get_super_block (d' 0) = created_sb tot ib
    \<and> allocated (inode_bitmap (created_fs tot ib)) d' = {0} \<and> allocated (data_bitmap (created_fs tot ib)) d' = {}
    \<and> get_disk_inode (d' (1 + ib)) 0 = disk_inode_initialize Directory"
proof -
  let ?fs = "created_fs tot ib"
  have b: "0 < ib" "1 + ib + area_blocks ib < tot" "tot < 2 ^ 31" using assms by (simp_all add: create_ok_def)
  define it db where "it = ib + area_blocks ib" and "db = (tot - 1 - it + 4096) div 4097"
  have fs: "inode_bitmap ?fs = bitmap_new 1 ib" "data_bitmap ?fs = bitmap_new (1 + it) db" "inode_area_start_block ?fs = 1 + ib"
    by (simp_all add: created_fs_def Let_def it_def db_def)
  have db: "1 + it + db \<le> tot" using b(2) by (simp add: db_def it_def)
  have it: "ib < it" using b(1) by (simp add: it_def area_blocks_eq)
  define d1 where "d1 = clear_blocks d tot"
  define d2 where "d2 = d1(0 := put_super_block (d1 0) (created_sb tot ib))"
  have z: "d2 x = zero_block (d x)" if "0 < x" "x < tot" for x using that by (simp add: d2_def d1_def clear_blocks_def)
  have nob: "\<not> bit_at bm d2 c" if "0 < start_block_id bm" "start_block_id bm + blocks bm \<le> tot" "c < maximum bm" for bm c
  proof (rule bit_at_zero_block)
    have "c div BLOCK_BITS < blocks bm" using that(3) by (simp add: maximum_def less_mult_imp_div_less)
    with that show "d2 (c div BLOCK_BITS + start_block_id bm) = zero_block (d (c div BLOCK_BITS + start_block_id bm))" by (intro z) auto
  qed
  have "\<exists>d3. bitmap_alloc (bitmap_new 1 ib) d2 = (Some 0, d3) \<and> (\<forall>c. bit_at (bitmap_new 1 ib) d3 c \<longleftrightarrow> bit_at (bitmap_new 1 ib) d2 c \<or> c = 0)
    \<and> (\<forall>x. x < start_block_id (bitmap_new 1 ib) \<or> start_block_id (bitmap_new 1 ib) + blocks (bitmap_new 1 ib) \<le> x \<longrightarrow> d3 x = d2 x)"
    using b nob by (intro bitmap_alloc_first) (auto simp: bitmap_new_def)
  then obtain d3 where d3: "bitmap_alloc (bitmap_new 1 ib) d2 = (Some 0, d3)"
    "\<And>c. bit_at (bitmap_new 1 ib) d3 c \<longleftrightarrow> bit_at (bitmap_new 1 ib) d2 c \<or> c = 0" "\<And>x. x < 1 \<or> 1 + ib \<le> x \<Longrightarrow> d3 x = d2 x"
    by (auto simp: bitmap_new_def)
  let ?root = "disk_inode_initialize Directory"
  define d4 where "d4 = d3(1 + ib := put_disk_inode (d3 (1 + ib)) 0 ?root)"
  have "get_disk_inode_pos ?fs 0 = (1 + ib, 0)" using b by (simp add: get_disk_inode_pos_def fs add32_def)
  then have cr: "efs_create d tot ib = Some (?fs, d4)"
    by (simp add: efs_create_eq [OF assms] Let_def alloc_inode_def fs(1) [simplified] d3(1) [simplified] d1_def [symmetric] d2_def [symmetric] d4_def)
  have "inode_fits ?root" by (simp add: inode_fits_def disk_inode_initialize_def)
  then have root: "get_disk_inode (d4 (1 + ib)) 0 = ?root" by (simp add: d4_def get_put_disk_inode)
  have sbv: "get_super_block (put_super_block blk (created_sb tot ib)) = created_sb tot ib" for blk
    using b db by (intro get_put_super_block) (auto simp: created_sb_def super_block_initialize_def Let_def EFS_MAGIC_def it_def db_def)
  have "d4 0 = put_super_block (d1 0) (created_sb tot ib)" using d3(3) [of 0] by (simp add: d4_def d2_def)
  then have sb: "get_super_block (d4 0) = created_sb tot ib" using sbv by simp
  have same: "bit_at bm d4 c \<longleftrightarrow> bit_at bm d3 c" if "\<And>x. x < blocks bm \<Longrightarrow> x + start_block_id bm \<noteq> 1 + ib" "c < maximum bm" for bm c
  proof -
    have "c div BLOCK_BITS < blocks bm" using that(2) by (simp add: maximum_def less_mult_imp_div_less)
    with that(1) have "c div BLOCK_BITS + start_block_id bm \<noteq> 1 + ib" by blast
    then show ?thesis by (simp add: bit_at_def d4_def)
  qed
  have "allocated (inode_bitmap ?fs) d4 = {0}"
  proof -
    have "bit_at (bitmap_new 1 ib) d4 c \<longleftrightarrow> c = 0" if "c < maximum (bitmap_new 1 ib)" for c
      using same [of "bitmap_new 1 ib" c] that d3(2) [of c] nob [of "bitmap_new 1 ib" c] b by (auto simp: bitmap_new_def)
    moreover have "0 < maximum (bitmap_new 1 ib)" using b(1) by (simp add: maximum_def bitmap_new_def block_bits_eq)
    ultimately show ?thesis by (auto simp: allocated_def fs)
  qed
  moreover have "allocated (data_bitmap ?fs) d4 = {}"
  proof -
    have "\<not> bit_at (bitmap_new (1 + it) db) d4 c" if "c < maximum (bitmap_new (1 + it) db)" for c
    proof -
      have "c div BLOCK_BITS < db" using that by (simp add: maximum_def bitmap_new_def less_mult_imp_div_less)
      then have "d3 (c div BLOCK_BITS + (1 + it)) = d2 (c div BLOCK_BITS + (1 + it))" using it by (intro d3(3)) auto
      then have "bit_at (bitmap_new (1 + it) db) d3 c \<longleftrightarrow> bit_at (bitmap_new (1 + it) db) d2 c" by (simp add: bit_at_def bitmap_new_def)
      with same [of "bitmap_new (1 + it) db" c] that it nob [of "bitmap_new (1 + it) db" c] db show ?thesis by (auto simp: bitmap_new_def)
    qed
    then show ?thesis by (auto simp: allocated_def fs)
  qed
  ultimately show ?thesis using cr sb root by blast
qed

subsection \<open>Properties\<close>

text \<open>A file system that was created can be opened. For every device and every sizes that fit,
  \<^verbatim>\<open>create\<close> does not panic, \<^verbatim>\<open>open\<close> on the resulting disk finds the same areas, exactly inode 0
  is in use and no data block, and inode 0 is an empty directory.\<close>

lemma create_open:
  assumes "create_ok tot ib"
  shows "\<exists>fs d'. efs_create d tot ib = Some (fs, d') \<and> efs_open d' = Some fs
    \<and> allocated (inode_bitmap fs) d' = {0} \<and> allocated (data_bitmap fs) d' = {}
    \<and> (case get_disk_inode_pos fs 0 of (blk, off) \<Rightarrow> get_disk_inode (d' blk) off = disk_inode_initialize Directory)"
proof -
  from efs_create_ok [OF assms, of d] obtain d' where d': "efs_create d tot ib = Some (created_fs tot ib, d')"
    "get_super_block (d' 0) = created_sb tot ib" "allocated (inode_bitmap (created_fs tot ib)) d' = {0}"
    "allocated (data_bitmap (created_fs tot ib)) d' = {}" "get_disk_inode (d' (1 + ib)) 0 = disk_inode_initialize Directory" by blast
  have b: "1 + ib + area_blocks ib < tot" "tot < 2 ^ 31" using assms by (simp_all add: create_ok_def)
  have db: "(tot - Suc (ib + area_blocks ib) + 4096) div 4097 \<le> tot - Suc (ib + area_blocks ib)" using b by simp
  then have "efs_open d' = Some (created_fs tot ib)" using b
    by (simp add: efs_open_def Let_def d'(2) created_sb_def created_fs_def super_block_initialize_def super_block_is_valid_def add32_def)
  moreover have "get_disk_inode_pos (created_fs tot ib) 0 = (1 + ib, 0)" using b
    by (simp add: get_disk_inode_pos_def created_fs_def Let_def add32_def)
  ultimately show ?thesis using d' by auto
qed

text \<open>C22: the inode area is too small for the inode bitmap. An inode takes 132 bytes, so a block
  holds three, but \<^verbatim>\<open>create\<close> reserves area for 132 bytes per bit of the bitmap: exactly the
  inode numbers below three times the number of area blocks have their position inside the inode
  area, and the larger numbers, which the bitmap can hand out, lie in the data bitmap or after it.\<close>

theorem inode_position_in_area:
  assumes "create_ok tot ib" "inode_id < maximum (inode_bitmap (created_fs tot ib))"
  shows "(fst (get_disk_inode_pos (created_fs tot ib) inode_id) < start_block_id (data_bitmap (created_fs tot ib))
      \<longleftrightarrow> inode_id < 3 * area_blocks ib)
    \<and> 3 * area_blocks ib < maximum (inode_bitmap (created_fs tot ib))
    \<and> snd (get_disk_inode_pos (created_fs tot ib) inode_id) + DISK_INODE_SZ \<le> BLOCK_SZ"
proof -
  have b: "0 < ib" "1 + 1057 * ib < tot" "tot < 2 ^ 31" using assms(1) by (simp_all add: create_ok_def area_blocks_eq)
  have m: "maximum (inode_bitmap (created_fs tot ib)) = 4096 * ib"
    by (simp add: created_fs_def Let_def maximum_def bitmap_new_def block_bits_eq)
  have ipb: "inodes_per_block = 3" by (simp add: inodes_per_block_def BLOCK_SZ_def DISK_INODE_SZ_def)
  have lt: "1 + ib + inode_id div 3 < 2 ^ 32" using assms(2) m b by simp
  then have "fst (get_disk_inode_pos (created_fs tot ib) inode_id) = 1 + ib + inode_id div 3"
    by (simp add: get_disk_inode_pos_def created_fs_def Let_def add32_def ipb)
  moreover have "start_block_id (data_bitmap (created_fs tot ib)) = 1 + ib + area_blocks ib"
    by (simp add: created_fs_def Let_def bitmap_new_def)
  moreover have "inode_id div 3 < area_blocks ib \<longleftrightarrow> inode_id < 3 * area_blocks ib" by auto
  moreover have "snd (get_disk_inode_pos (created_fs tot ib) inode_id) + DISK_INODE_SZ \<le> BLOCK_SZ"
  proof -
    have "inode_id mod 3 \<le> 2" by simp
    then have "inode_id mod 3 * 132 \<le> 2 * 132" by (rule mult_le_mono1)
    then show ?thesis by (simp add: get_disk_inode_pos_def ipb DISK_INODE_SZ_def BLOCK_SZ_def)
  qed
  ultimately show ?thesis using b(1) m by (simp add: area_blocks_eq)
qed

theorem inode_position_in_area_witness:
  "3168 < maximum (inode_bitmap (created_fs 2000 1))
   \<and> fst (get_disk_inode_pos (created_fs 2000 1) 3168) \<ge> start_block_id (data_bitmap (created_fs 2000 1))"
proof -
  have "create_ok 2000 1" by (simp add: create_ok_def area_blocks_eq)
  moreover have "3168 < maximum (inode_bitmap (created_fs 2000 1))"
    by (simp add: created_fs_def Let_def maximum_def bitmap_new_def block_bits_eq)
  ultimately show ?thesis using inode_position_in_area [of 2000 1 3168] by (simp add: area_blocks_eq)
qed

end
