(* ===== verification/Vfs.thy ===== *)
theory Vfs
  imports EasyFs
begin

section \<open>Inodes as the kernel sees them\<close>

text \<open>
  easy-fs/src/vfs.rs: handles of inodes and the operations of files and directories. A handle is the
  position of an on-disk inode. Names and paths are their UTF-8 bytes. An operation returns an outcome
  (None is a panic) of a result and the disk; a Rust \<^verbatim>\<open>Option\<close> result is an option inside it. The
  lock of the file system makes every operation atomic. \<^verbatim>\<open>block_cache_sync_all\<close> at the end of an
  operation does not change what is seen through the cache (\<^verbatim>\<open>sync_all_durable\<close>), so it has no
  counterpart here.
\<close>

type_synonym bytes = "u8 list"

record inode =
  in_block_id :: nat
  in_block_offset :: nat

definition inode_at :: "easy_file_system \<Rightarrow> nat \<Rightarrow> inode" where
  "inode_at fs inode_id = (let (b, off) = get_disk_inode_pos fs inode_id in \<lparr>in_block_id = b, in_block_offset = off\<rparr>)"

definition root_inode :: "easy_file_system \<Rightarrow> inode" where
  "root_inode fs = inode_at fs 0"

definition read_disk_inode :: "inode \<Rightarrow> disk \<Rightarrow> disk_inode outcome" where
  "read_disk_inode self d = do {
     _ \<leftarrow> ensure (in_block_offset self + DISK_INODE_SZ \<le> BLOCK_SZ);
     Some (get_disk_inode (d (in_block_id self)) (in_block_offset self))
   }"

definition modify_disk_inode ::
  "inode \<Rightarrow> (disk_inode \<Rightarrow> disk \<Rightarrow> ('v \<times> disk_inode \<times> disk) outcome) \<Rightarrow> disk \<Rightarrow> ('v \<times> disk) outcome" where
  "modify_disk_inode self f d = do {
     di \<leftarrow> read_disk_inode self d;
     (v, di', d') \<leftarrow> f di d;
     Some (v, d'(in_block_id self := put_disk_inode (d' (in_block_id self)) (in_block_offset self) di'))
   }"

subsection \<open>Directory entries\<close>

definition file_count :: "disk_inode \<Rightarrow> nat" where
  "file_count di = i_size di div DIRENT_SZ"

definition read_dirent :: "disk_inode \<Rightarrow> nat \<Rightarrow> disk \<Rightarrow> dir_entry outcome" where
  "read_dirent di i d = do {
     (n, bs) \<leftarrow> inode_read_at di (DIRENT_SZ * i) (dir_entry_as_bytes dir_entry_empty) d;
     _ \<leftarrow> ensure (n = DIRENT_SZ);
     Some (dir_entry_of_bytes bs)
   }"

fun find_dirent :: "disk_inode \<Rightarrow> bytes \<Rightarrow> disk \<Rightarrow> nat list \<Rightarrow> (nat \<times> nat) option outcome" where
  "find_dirent di nm d [] = Some None"
| "find_dirent di nm d (i # is) = do {
     e \<leftarrow> read_dirent di i d;
     n \<leftarrow> dir_entry_name e;
     if n = nm then Some (Some (i, inode_number e)) else find_dirent di nm d is
   }"

definition find_inode_id :: "bytes \<Rightarrow> disk_inode \<Rightarrow> disk \<Rightarrow> nat option outcome" where
  "find_inode_id nm di d =
     (if \<not> is_dir di then Some None
      else do { r \<leftarrow> find_dirent di nm d [0..<file_count di]; Some (map_option snd r) })"

definition vfs_find :: "easy_file_system \<Rightarrow> inode \<Rightarrow> bytes \<Rightarrow> disk \<Rightarrow> inode option outcome" where
  "vfs_find fs self nm d = do {
     di \<leftarrow> read_disk_inode self d;
     r \<leftarrow> find_inode_id nm di d;
     Some (map_option (inode_at fs) r)
   }"

subsection \<open>Growing files\<close>

fun alloc_datas :: "easy_file_system \<Rightarrow> nat \<Rightarrow> disk \<Rightarrow> (nat list \<times> disk) outcome" where
  "alloc_datas fs 0 d = Some ([], d)"
| "alloc_datas fs (Suc n) d = do {
     (b, d) \<leftarrow> alloc_data fs d;
     (bs, d) \<leftarrow> alloc_datas fs n d;
     Some (b # bs, d)
   }"

definition vfs_increase_size :: "easy_file_system \<Rightarrow> nat \<Rightarrow> disk_inode \<Rightarrow> disk \<Rightarrow> (disk_inode \<times> disk) outcome" where
  "vfs_increase_size fs new_size di d =
     (if new_size < i_size di then Some (di, d)
      else do {
        n \<leftarrow> blocks_num_needed di new_size;
        (v, d) \<leftarrow> alloc_datas fs n d;
        increase_size di new_size v d
      })"

text \<open>Appending an entry to a directory: the same code in \<^verbatim>\<open>create_as\<close>, \<^verbatim>\<open>link\<close> and \<^verbatim>\<open>rename\<close>.\<close>

definition append_dirent :: "easy_file_system \<Rightarrow> bytes \<Rightarrow> nat \<Rightarrow> disk_inode \<Rightarrow> disk \<Rightarrow> (unit \<times> disk_inode \<times> disk) outcome" where
  "append_dirent fs nm ino di d = (let n = file_count di in do {
     (di, d) \<leftarrow> vfs_increase_size fs ((n + 1) * DIRENT_SZ mod 2 ^ 32) di d;
     e \<leftarrow> dir_entry_new nm ino;
     (_, d) \<leftarrow> inode_write_at di (n * DIRENT_SZ) (dir_entry_as_bytes e) d;
     Some ((), di, d)
   })"

definition inode_number_of :: "easy_file_system \<Rightarrow> inode \<Rightarrow> nat" where
  "inode_number_of fs self =
     add32 (sub32 (in_block_id self mod 2 ^ 32) (inode_area_start_block fs) * inodes_per_block)
       (in_block_offset self mod 2 ^ 32 div DISK_INODE_SZ)"

definition reserved :: "bytes \<Rightarrow> bool" where
  "reserved nm \<longleftrightarrow> nm = [] \<or> nm = [46] \<or> nm = [46, 46]"

definition create_as :: "easy_file_system \<Rightarrow> inode \<Rightarrow> bytes \<Rightarrow> disk_inode_type \<Rightarrow> disk \<Rightarrow> (inode option \<times> disk) outcome" where
  "create_as fs self nm ty d =
     (if reserved nm then Some (None, d)
      else let parent = inode_number_of fs self in do {
        (r, d) \<leftarrow> modify_disk_inode self (\<lambda>di d. do {
            _ \<leftarrow> ensure (is_dir di);
            r \<leftarrow> find_inode_id nm di d;
            Some (r, di, d)
          }) d;
        if r \<noteq> None then Some (None, d) else do {
          (new_id, d) \<leftarrow> alloc_inode fs d;
          (_, d) \<leftarrow> modify_disk_inode (inode_at fs new_id)
                     (\<lambda>di d. Some ((), (disk_inode_initialize ty)\<lparr>parent_inode := parent\<rparr>, d)) d;
          (_, d) \<leftarrow> modify_disk_inode self (append_dirent fs nm new_id) d;
          Some (Some (inode_at fs new_id), d)
        }
      })"

definition vfs_create :: "easy_file_system \<Rightarrow> inode \<Rightarrow> bytes \<Rightarrow> disk \<Rightarrow> (inode option \<times> disk) outcome" where
  "vfs_create fs self nm d = create_as fs self nm File d"

subsection \<open>Paths\<close>

definition is_root :: "easy_file_system \<Rightarrow> inode \<Rightarrow> bool" where
  "is_root fs self \<longleftrightarrow> inode_number_of fs self = 0"

definition resolve_component :: "easy_file_system \<Rightarrow> inode \<Rightarrow> bytes \<Rightarrow> disk \<Rightarrow> inode option outcome" where
  "resolve_component fs self c d =
     (if c = [46] then Some (Some self)
      else if c = [46, 46] then do {
        di \<leftarrow> read_disk_inode self d;
        if parent_inode di = 0 \<and> is_root fs self then Some (Some self)
        else Some (Some (inode_at fs (parent_inode di)))
      }
      else vfs_find fs self c d)"

fun split_slash :: "bytes \<Rightarrow> bytes list" where
  "split_slash [] = [[]]"
| "split_slash (b # bs) =
     (if b = 47 then [] # split_slash bs else (case split_slash bs of c # cs \<Rightarrow> (b # c) # cs | [] \<Rightarrow> [[b]]))"

fun descend :: "easy_file_system \<Rightarrow> inode \<Rightarrow> bytes list \<Rightarrow> disk \<Rightarrow> inode option outcome" where
  "descend fs cur [] d = Some (Some cur)"
| "descend fs cur (c # cs) d = do {
     di \<leftarrow> read_disk_inode cur d;
     if \<not> is_dir di then Some None
     else do {
       r \<leftarrow> resolve_component fs cur c d;
       case r of None \<Rightarrow> Some None | Some next \<Rightarrow> descend fs next cs d
     }
   }"

definition lookup_path :: "easy_file_system \<Rightarrow> inode \<Rightarrow> bytes \<Rightarrow> disk \<Rightarrow> inode option outcome" where
  "lookup_path fs self path d =
     (if path = [] \<or> path = [47] \<or> path = [46] then Some (Some self)
      else let p = dropWhile (\<lambda>b. b = 47) path in
        if p = [] then Some (Some self)
        else let cs = filter (\<lambda>c. c \<noteq> []) (split_slash p) in do {
          c \<leftarrow> idx cs 0;
          r \<leftarrow> resolve_component fs self c d;
          case r of
            None \<Rightarrow> Some None
          | Some cur \<Rightarrow> do {
              r \<leftarrow> descend fs cur (drop 1 cs) d;
              case r of
                None \<Rightarrow> Some None
              | Some fin \<Rightarrow> if last p = 47 then do { di \<leftarrow> read_disk_inode fin d; Some (if is_dir di then Some fin else None) }
                           else Some (Some fin)
            }
        })"

definition set_parent_inode :: "inode \<Rightarrow> nat \<Rightarrow> disk \<Rightarrow> disk outcome" where
  "set_parent_inode self parent_id d = do {
     (_, d) \<leftarrow> modify_disk_inode self (\<lambda>di d. Some ((), di\<lparr>parent_inode := parent_id\<rparr>, d)) d;
     Some d
   }"

definition vfs_parent :: "easy_file_system \<Rightarrow> inode \<Rightarrow> disk \<Rightarrow> inode option outcome" where
  "vfs_parent fs self d = do {
     di \<leftarrow> read_disk_inode self d;
     Some (if parent_inode di = 0 \<and> is_root fs self then None else Some (inode_at fs (parent_inode di)))
   }"

definition vfs_is_dir :: "inode \<Rightarrow> disk \<Rightarrow> bool outcome" where
  "vfs_is_dir self d = do { di \<leftarrow> read_disk_inode self d; Some (is_dir di) }"

definition is_empty_directory :: "inode \<Rightarrow> disk \<Rightarrow> bool outcome" where
  "is_empty_directory self d = do { di \<leftarrow> read_disk_inode self d; Some (is_dir di \<and> file_count di = 0) }"

fun ls_from :: "disk_inode \<Rightarrow> disk \<Rightarrow> nat list \<Rightarrow> bytes list \<Rightarrow> bytes list outcome" where
  "ls_from di d [] v = Some v"
| "ls_from di d (i # is) v = do { e \<leftarrow> read_dirent di i d; n \<leftarrow> dir_entry_name e; ls_from di d is (v @ [n]) }"

definition vfs_ls :: "inode \<Rightarrow> disk \<Rightarrow> bytes list outcome" where
  "vfs_ls self d = do { di \<leftarrow> read_disk_inode self d; ls_from di d [0..<file_count di] [] }"

subsection \<open>File contents\<close>

definition vfs_read_at :: "inode \<Rightarrow> nat \<Rightarrow> bytes \<Rightarrow> disk \<Rightarrow> (nat \<times> bytes) outcome" where
  "vfs_read_at self offset buf d = do { di \<leftarrow> read_disk_inode self d; inode_read_at di offset buf d }"

definition vfs_size :: "inode \<Rightarrow> disk \<Rightarrow> nat outcome" where
  "vfs_size self d = do { di \<leftarrow> read_disk_inode self d; Some (i_size di) }"

definition vfs_write_at :: "easy_file_system \<Rightarrow> inode \<Rightarrow> nat \<Rightarrow> bytes \<Rightarrow> disk \<Rightarrow> (nat \<times> disk) outcome" where
  "vfs_write_at fs self offset buf d = modify_disk_inode self (\<lambda>di d. do {
     (di, d) \<leftarrow> vfs_increase_size fs ((offset + length buf) mod 2 ^ 32) di d;
     (n, d) \<leftarrow> inode_write_at di offset buf d;
     Some (n, di, d)
   }) d"

fun dealloc_datas :: "easy_file_system \<Rightarrow> nat list \<Rightarrow> disk \<Rightarrow> disk outcome" where
  "dealloc_datas fs [] d = Some d"
| "dealloc_datas fs (b # bs) d = do { d \<leftarrow> dealloc_data fs d b; dealloc_datas fs bs d }"

text \<open>The body of \<^verbatim>\<open>clear\<close>, also used by \<^verbatim>\<open>unlink\<close> on its target.\<close>

definition clear_inode :: "easy_file_system \<Rightarrow> disk_inode \<Rightarrow> disk \<Rightarrow> (unit \<times> disk_inode \<times> disk) outcome" where
  "clear_inode fs di d = do {
     (v, di') \<leftarrow> clear_size di d;
     _ \<leftarrow> ensure (length v = total_blocks (i_size di));
     d \<leftarrow> dealloc_datas fs v d;
     Some ((), di', d)
   }"

definition vfs_clear :: "easy_file_system \<Rightarrow> inode \<Rightarrow> disk \<Rightarrow> disk outcome" where
  "vfs_clear fs self d = do { (_, d) \<leftarrow> modify_disk_inode self (clear_inode fs) d; Some d }"

subsection \<open>Removing, linking, renaming\<close>

fun shift_dirents :: "disk_inode \<Rightarrow> disk \<Rightarrow> nat list \<Rightarrow> disk outcome" where
  "shift_dirents di d [] = Some d"
| "shift_dirents di d (i # is) = do {
     e \<leftarrow> read_dirent di (i + 1) d;
     (_, d) \<leftarrow> inode_write_at di (DIRENT_SZ * i) (dir_entry_as_bytes e) d;
     shift_dirents di d is
   }"

definition remove_directory_entry :: "bytes \<Rightarrow> disk_inode \<Rightarrow> disk \<Rightarrow> (bool \<times> disk_inode \<times> disk) outcome" where
  "remove_directory_entry nm di d = do {
     _ \<leftarrow> ensure (is_dir di);
     let n = file_count di;
     r \<leftarrow> find_dirent di nm d [0..<n];
     case r of
       None \<Rightarrow> Some (False, di, d)
     | Some (i, _) \<Rightarrow> do {
         d \<leftarrow> shift_dirents di d [i..<n - 1];
         (_, d) \<leftarrow> inode_write_at di (DIRENT_SZ * (n - 1)) (dir_entry_as_bytes dir_entry_empty) d;
         Some (True, di\<lparr>i_size := (n - 1) * DIRENT_SZ mod 2 ^ 32\<rparr>, d)
       }
   }"

definition vfs_link :: "easy_file_system \<Rightarrow> inode \<Rightarrow> bytes \<Rightarrow> nat \<Rightarrow> disk \<Rightarrow> (bool \<times> disk) outcome" where
  "vfs_link fs self nm target d =
     (if reserved nm then Some (False, d)
      else do {
        di \<leftarrow> read_disk_inode self d;
        r \<leftarrow> find_inode_id nm di d;
        if r \<noteq> None then Some (False, d)
        else do { (_, d) \<leftarrow> modify_disk_inode self (append_dirent fs nm target) d; Some (True, d) }
      })"

definition vfs_rename :: "easy_file_system \<Rightarrow> inode \<Rightarrow> bytes \<Rightarrow> bytes \<Rightarrow> disk \<Rightarrow> (bool \<times> disk) outcome" where
  "vfs_rename fs self old_name new_name d =
     (if reserved old_name \<or> reserved new_name then Some (False, d)
      else do {
        di \<leftarrow> read_disk_inode self d;
        r \<leftarrow> find_inode_id old_name di d;
        case r of
          None \<Rightarrow> Some (False, d)
        | Some old_id \<Rightarrow> do {
            r \<leftarrow> find_inode_id new_name di d;
            if r \<noteq> None then Some (False, d)
            else do {
              (_, d) \<leftarrow> modify_disk_inode self (append_dirent fs new_name old_id) d;
              (_, d) \<leftarrow> modify_disk_inode self (remove_directory_entry old_name) d;
              Some (True, d)
            }
          }
      })"

definition vfs_detach :: "inode \<Rightarrow> bytes \<Rightarrow> disk \<Rightarrow> (bool \<times> disk) outcome" where
  "vfs_detach self nm d =
     (if reserved nm then Some (False, d) else modify_disk_inode self (remove_directory_entry nm) d)"

definition vfs_unlink :: "easy_file_system \<Rightarrow> inode \<Rightarrow> bytes \<Rightarrow> disk \<Rightarrow> (nat option \<times> disk) outcome" where
  "vfs_unlink fs self nm d =
     (if reserved nm then Some (None, d)
      else do {
        r \<leftarrow> vfs_find fs self nm d;
        case r of
          None \<Rightarrow> Some (None, d)
        | Some target \<Rightarrow> do {
            tdi \<leftarrow> read_disk_inode target d;
            let target_id = inode_number_of fs target;
            if is_dir tdi \<and> file_count tdi \<noteq> 0 then Some (None, d)
            else do {
              (_, d) \<leftarrow> modify_disk_inode target (clear_inode fs) d;
              d \<leftarrow> dealloc_inode fs d target_id;
              (_, d) \<leftarrow> modify_disk_inode self (remove_directory_entry nm) d;
              Some (Some target_id, d)
            }
          }
      })"

end
