(* ===== verification/Files.thy ===== *)
theory Files
  imports Vfs
begin

section \<open>Files: allocation, growth and contents\<close>

text \<open>
  The invariant of one inode: its block map is well formed and every block it owns is allocated in
  the data bitmap. Under it, writing through the whole stack (allocation of blocks in the bitmap,
  growth of the block map, the write itself, and the write-back of the inode) is an overwrite of the
  contents, and leaves every other file alone.
\<close>

subsection \<open>Allocated data blocks\<close>

definition fs_ok :: "easy_file_system \<Rightarrow> bool" where
  "fs_ok fs \<longleftrightarrow> start_block_id (data_bitmap fs) + blocks (data_bitmap fs) \<le> data_area_start_block fs
     \<and> data_area_start_block fs + maximum (data_bitmap fs) < 2 ^ 32"

definition owned :: "easy_file_system \<Rightarrow> disk \<Rightarrow> nat set" where
  "owned fs d = (\<lambda>b. b + data_area_start_block fs) ` allocated (data_bitmap fs) d"

definition free_blocks :: "easy_file_system \<Rightarrow> disk \<Rightarrow> nat" where
  "free_blocks fs d = maximum (data_bitmap fs) - card (allocated (data_bitmap fs) d)"

definition in_bitmap :: "easy_file_system \<Rightarrow> nat \<Rightarrow> bool" where
  "in_bitmap fs x \<longleftrightarrow> start_block_id (data_bitmap fs) \<le> x \<and> x < start_block_id (data_bitmap fs) + blocks (data_bitmap fs)"

lemma finite_allocated [simp]: "finite (allocated bm d)"
  by (rule finite_subset [of _ "{..<maximum bm}"]) (auto simp: allocated_def)

lemma owned_bounds:
  assumes "fs_ok fs" "x \<in> owned fs d"
  shows "x < 2 ^ 32" "data_area_start_block fs \<le> x" "\<not> in_bitmap fs x"
  using assms by (auto simp: owned_def allocated_def fs_ok_def in_bitmap_def)

lemma alloc_data_ok:
  assumes fs: "fs_ok fs" and free: "0 < free_blocks fs d"
  shows "\<exists>b d'. alloc_data fs d = Some (b, d') \<and> b \<notin> owned fs d \<and> owned fs d' = insert b (owned fs d) \<and> b < 2 ^ 32
    \<and> free_blocks fs d = Suc (free_blocks fs d') \<and> (\<forall>x. \<not> in_bitmap fs x \<longrightarrow> d' x = d x)"
proof -
  obtain r d' where r: "bitmap_alloc (data_bitmap fs) d = (r, d')" by (cases "bitmap_alloc (data_bitmap fs) d")
  note ok = bitmap_alloc_ok [OF r]
  show ?thesis
  proof (cases r)
    case None
    with ok have "allocated (data_bitmap fs) d = {..<maximum (data_bitmap fs)}" by (auto simp: allocated_def)
    with free show ?thesis by (simp add: free_blocks_def)
  next
    case (Some b)
    with ok have b: "b < maximum (data_bitmap fs)" "\<not> bit_at (data_bitmap fs) d b"
      "\<And>c. bit_at (data_bitmap fs) d' c \<longleftrightarrow> bit_at (data_bitmap fs) d c \<or> c = b"
      "\<And>x. \<not> in_bitmap fs x \<Longrightarrow> d' x = d x" by (auto simp: in_bitmap_def)
    have lt: "b + data_area_start_block fs < 2 ^ 32" using b(1) fs by (simp add: fs_ok_def)
    have A: "allocated (data_bitmap fs) d' = insert b (allocated (data_bitmap fs) d)" "b \<notin> allocated (data_bitmap fs) d"
      using b by (auto simp: allocated_def)
    have "alloc_data fs d = Some (b + data_area_start_block fs, d')" using r Some lt by (simp add: alloc_data_def add32_def)
    moreover have "free_blocks fs d = Suc (free_blocks fs d')" using free A by (simp add: free_blocks_def)
    ultimately show ?thesis using A b(4) lt by (intro exI conjI) (auto simp: owned_def)
  qed
qed

lemma alloc_datas_ok:
  assumes fs: "fs_ok fs" and n: "n \<le> free_blocks fs d"
  shows "\<exists>v d'. alloc_datas fs n d = Some (v, d') \<and> length v = n \<and> distinct v \<and> set v \<inter> owned fs d = {}
    \<and> owned fs d' = owned fs d \<union> set v \<and> (\<forall>b \<in> set v. b < 2 ^ 32) \<and> free_blocks fs d = n + free_blocks fs d'
    \<and> (\<forall>x. \<not> in_bitmap fs x \<longrightarrow> d' x = d x)"
  using n
proof (induction n arbitrary: d)
  case 0
  then show ?case by simp
next
  case (Suc n)
  then have "0 < free_blocks fs d" by simp
  from alloc_data_ok [OF fs this] obtain b d1 where d1: "alloc_data fs d = Some (b, d1)" "b \<notin> owned fs d"
    "owned fs d1 = insert b (owned fs d)" "b < 2 ^ 32" "free_blocks fs d = Suc (free_blocks fs d1)"
    "\<And>x. \<not> in_bitmap fs x \<Longrightarrow> d1 x = d x" by blast
  from Suc.prems d1(5) Suc.IH [of d1] obtain v d' where "alloc_datas fs n d1 = Some (v, d')" "length v = n" "distinct v"
    "set v \<inter> owned fs d1 = {}" "owned fs d' = owned fs d1 \<union> set v" "\<forall>b \<in> set v. b < 2 ^ 32"
    "free_blocks fs d1 = n + free_blocks fs d'" "\<And>x. \<not> in_bitmap fs x \<Longrightarrow> d' x = d1 x" by auto
  with d1 show ?case by (intro exI [of _ "b # v"] exI [of _ d']) auto
qed

text \<open>
  The bitmap may have more bits than the device has data blocks, and the disk of the model has no end.
  But blocks are allocated from the lowest free one on: on a device with \<open>m\<close> data blocks, no block beyond
  its end is taken as long as the blocks in use are no more than \<open>m\<close>.
\<close>

definition on_device :: "easy_file_system \<Rightarrow> nat \<Rightarrow> disk \<Rightarrow> bool" where
  "on_device fs m d \<longleftrightarrow> owned fs d \<subseteq> {..<data_area_start_block fs + m}"

definition first_fit :: "easy_file_system \<Rightarrow> disk \<Rightarrow> disk \<Rightarrow> bool" where
  "first_fit fs d d' \<longleftrightarrow> owned fs d \<subseteq> owned fs d' \<and> (\<forall>m. on_device fs m d \<and> card (owned fs d') \<le> m \<longrightarrow> on_device fs m d')"

lemma finite_owned [simp]: "finite (owned fs d)"
  by (simp add: owned_def)

lemma card_owned: "card (owned fs d) + free_blocks fs d = maximum (data_bitmap fs)"
proof -
  have "card (allocated (data_bitmap fs) d) \<le> card {..<maximum (data_bitmap fs)}" by (intro card_mono) (auto simp: allocated_def)
  then show ?thesis by (simp add: owned_def free_blocks_def card_image inj_on_def)
qed

lemma first_fit_refl: "first_fit fs d d"
  by (simp add: first_fit_def)

lemma first_fit_trans: "first_fit fs d d1 \<Longrightarrow> first_fit fs d1 d2 \<Longrightarrow> first_fit fs d d2"
  unfolding first_fit_def by (meson card_mono finite_owned order_trans)

lemma alloc_data_first_fit:
  assumes fs: "fs_ok fs" and a: "alloc_data fs d = Some (b, d')"
  shows "first_fit fs d d'"
proof -
  let ?bm = "data_bitmap fs"
  obtain r d1 where r: "bitmap_alloc ?bm d = (r, d1)" by (cases "bitmap_alloc ?bm d")
  note ok = bitmap_alloc_ok [OF r]
  from a r obtain c where c: "r = Some c" and d1: "d' = d1" by (auto simp: alloc_data_def Let_def split: option.splits if_splits)
  from ok have A: "allocated ?bm d' = insert c (allocated ?bm d)" "c \<notin> allocated ?bm d" "{..<c} \<subseteq> allocated ?bm d"
    by (auto simp: allocated_def c d1)
  have "allocated ?bm d' \<subseteq> {..<m}" if m: "allocated ?bm d \<subseteq> {..<m}" "card (allocated ?bm d') \<le> m" for m
  proof (rule ccontr)
    assume "\<not> allocated ?bm d' \<subseteq> {..<m}"
    then have "m \<le> c" using m(1) A(1) by auto
    then have "{..<m} \<subseteq> {..<c}" by simp
    then have "{..<m} \<subseteq> allocated ?bm d" using A(3) by (rule subset_trans)
    then have "insert c {..<m} \<subseteq> allocated ?bm d'" unfolding A(1) by (rule insert_mono)
    then have "card (insert c {..<m}) \<le> card (allocated ?bm d')" by (intro card_mono) auto
    with m(2) \<open>m \<le> c\<close> show False by simp
  qed
  moreover have "on_device fs m e \<longleftrightarrow> allocated ?bm e \<subseteq> {..<m}" "card (owned fs e) = card (allocated ?bm e)" for m e
    by (auto simp: on_device_def owned_def card_image inj_on_def)
  moreover have "owned fs d \<subseteq> owned fs d'" using A(1) by (auto simp: owned_def)
  ultimately show ?thesis by (simp add: first_fit_def)
qed

lemma alloc_datas_first_fit: "fs_ok fs \<Longrightarrow> alloc_datas fs n d = Some (v, d') \<Longrightarrow> first_fit fs d d'"
proof (induction n arbitrary: d v)
  case (Suc n)
  from Suc.prems(2) obtain b d1 w where "alloc_data fs d = Some (b, d1)" "alloc_datas fs n d1 = Some (w, d')"
    by (auto simp: bind_Some_conv)
  with Suc.prems(1) Suc.IH alloc_data_first_fit first_fit_trans show ?case by blast
qed (simp add: first_fit_refl)

subsection \<open>What a file depends on\<close>

lemma slotval_cong:
  assumes "\<And>x. x \<in> index_blocks (di, d) \<Longrightarrow> d' x = d x" "t \<in> set (slots (data_blocks di))"
  shows "slotval (di, d') t = slotval (di, d) t"
proof -
  have ag: "d' (slotval (di, d) s) = d (slotval (di, d) s)" if "s \<in> set (slots (data_blocks di))" "is_index s" for s
    using assms(1) that by (auto simp: index_blocks_def)
  have par: "Single i \<in> set (slots n) \<Longrightarrow> Ind1 \<in> set (slots n)" "Sub a \<in> set (slots n) \<Longrightarrow> Ind2 \<in> set (slots n)"
    "Double a b \<in> set (slots n) \<Longrightarrow> Sub a \<in> set (slots n) \<and> Ind2 \<in> set (slots n)" for i a b n
    unfolding set_slots by (auto split: if_splits)
  show ?thesis using ag [of Ind1] ag [of Ind2] ag [of "Sub _"] assms(2) par by (cases t) auto
qed

lemma index_blocks_subset: "index_blocks (di, d) \<subseteq> set (blocks_of (di, d) (data_blocks di))"
  by (auto simp: index_blocks_def blocks_of_def)

lemma block_id_at_in: "i < data_blocks di \<Longrightarrow> block_id_at (di, d) i \<in> set (blocks_of (di, d) (data_blocks di))"
  using dataslot_in [of i "data_blocks di"] by (auto simp: block_id_at_def blocks_of_def)

lemma file_cong:
  assumes ag: "\<And>x. x \<in> set (blocks_of (di, d) (data_blocks di)) \<Longrightarrow> d' x = d x"
  shows "blocks_of (di, d') (data_blocks di) = blocks_of (di, d) (data_blocks di)"
    "inode_ok (di, d) \<Longrightarrow> inode_ok (di, d')" "inode_ok (di, d) \<Longrightarrow> file_bytes (di, d') = file_bytes (di, d)"
proof -
  have sv: "slotval (di, d') t = slotval (di, d) t" if "t \<in> set (slots (data_blocks di))" for t
    using ag index_blocks_subset that by (intro slotval_cong) blast+
  then show b: "blocks_of (di, d') (data_blocks di) = blocks_of (di, d) (data_blocks di)" by (simp add: blocks_of_def)
  show "inode_ok (di, d')" if "inode_ok (di, d)" using that b by (simp add: inode_ok_def)
  show "file_bytes (di, d') = file_bytes (di, d)" if ok: "inode_ok (di, d)"
  proof -
    have "file_byte (di, d') p = file_byte (di, d) p" if "p < i_size di" for p
    proof -
      have i: "p div BLOCK_SZ < data_blocks di" using block_id_ok(1) [OF ok that] .
      have "block_id_at (di, d') (p div BLOCK_SZ) = block_id_at (di, d) (p div BLOCK_SZ)"
        using sv dataslot_in [OF i] by (simp add: block_id_at_def)
      with ag block_id_at_in [OF i] show ?thesis by (simp add: file_byte_def)
    qed
    then show ?thesis by (simp add: file_bytes_def)
  qed
qed

definition file_inv :: "easy_file_system \<Rightarrow> disk_inode \<times> disk \<Rightarrow> bool" where
  "file_inv fs st \<longleftrightarrow> inode_ok st \<and> inode_fits (fst st)
     \<and> set (blocks_of st (data_blocks (fst st))) \<subseteq> owned fs (snd st)"

lemma allocated_cong:
  assumes "\<And>x. in_bitmap fs x \<Longrightarrow> d' x = d x"
  shows "allocated (data_bitmap fs) d' = allocated (data_bitmap fs) d"
proof -
  have "bit_at (data_bitmap fs) d' b = bit_at (data_bitmap fs) d b" if "b < maximum (data_bitmap fs)" for b
  proof -
    have "b div BLOCK_BITS < blocks (data_bitmap fs)" using that by (simp add: maximum_def less_mult_imp_div_less)
    with assms [of "b div BLOCK_BITS + start_block_id (data_bitmap fs)"] show ?thesis by (simp add: bit_at_def in_bitmap_def)
  qed
  then show ?thesis by (auto simp: allocated_def)
qed

lemma owned_cong:
  assumes "\<And>x. in_bitmap fs x \<Longrightarrow> d' x = d x"
  shows "owned fs d' = owned fs d" "free_blocks fs d' = free_blocks fs d"
  using allocated_cong [OF assms] by (simp_all add: owned_def free_blocks_def)

lemma total_blocks_mono:
  assumes "sz \<le> sz'" "sz' \<le> MAX_SIZE"
  shows "total_blocks sz \<le> total_blocks sz'"
proof -
  have "length (slots (blocks_for sz)) \<le> length (slots (blocks_for sz'))" using slots_seg [OF blocks_for_mono [OF assms]] by simp
  then show ?thesis by (simp add: total_blocks_slots)
qed

lemma total_blocks_bound: "sz \<le> MAX_SIZE \<Longrightarrow> total_blocks sz < 2 ^ 32"
proof -
  assume "sz \<le> MAX_SIZE"
  then have n: "blocks_for sz \<le> 16540" using blocks_for_bound by (simp add: MAX_BLOCKS_def)
  define q where "q = (blocks_for sz - 156 + 127) div 128"
  have "q \<le> blocks_for sz - 156 + 127" unfolding q_def by (rule div_le_dividend)
  with n show ?thesis unfolding total_blocks_slots length_slots q_def [symmetric] by auto
qed

lemma blocks_num_needed_eq:
  assumes "i_size di \<le> sz" "sz \<le> MAX_SIZE"
  shows "blocks_num_needed di sz = Some (total_blocks sz - total_blocks (i_size di))"
  using sub32_le [of "total_blocks (i_size di)" "total_blocks sz"] total_blocks_mono [OF assms] total_blocks_bound [OF assms(2)] assms
  by (simp add: blocks_num_needed_def sub32_def add.commute)

lemma vfs_increase_ok:
  assumes fs: "fs_ok fs" and inv: "file_inv fs (di, d)" and sz: "i_size di \<le> sz" "sz \<le> MAX_SIZE"
    and free: "total_blocks sz \<le> total_blocks (i_size di) + free_blocks fs d"
  shows "\<exists>di' d'. vfs_increase_size fs sz di d = Some (di', d') \<and> i_size di' = sz \<and> file_inv fs (di', d')
    \<and> take (i_size di) (file_bytes (di', d')) = file_bytes (di, d)
    \<and> inode_type di' = inode_type di \<and> parent_inode di' = parent_inode di
    \<and> owned fs d \<subseteq> owned fs d' \<and> free_blocks fs d + total_blocks (i_size di) = free_blocks fs d' + total_blocks sz
    \<and> (\<forall>x. \<not> in_bitmap fs x \<and> x \<notin> set (blocks_of (di', d') (data_blocks di')) \<longrightarrow> d' x = d x)
    \<and> set (blocks_of (di', d') (data_blocks di')) \<inter> owned fs d \<subseteq> set (blocks_of (di, d) (data_blocks di)) \<and> first_fit fs d d'"
proof -
  let ?B = "blocks_of (di, d) (data_blocks di)" let ?n = "total_blocks sz - total_blocks (i_size di)"
  have ok: "inode_ok (di, d)" "inode_fits di" "set ?B \<subseteq> owned fs d" using inv by (simp_all add: file_inv_def)
  note need = blocks_num_needed_eq [OF sz]
  have "?n \<le> free_blocks fs d" using free by simp
  from alloc_datas_ok [OF fs this] obtain v d1 where v: "alloc_datas fs ?n d = Some (v, d1)" "length v = ?n" "distinct v"
    "set v \<inter> owned fs d = {}" "owned fs d1 = owned fs d \<union> set v" "\<forall>b \<in> set v. b < 2 ^ 32"
    "free_blocks fs d = ?n + free_blocks fs d1" "\<And>x. \<not> in_bitmap fs x \<Longrightarrow> d1 x = d x" by blast
  have ag: "d1 x = d x" if "x \<in> set ?B" for x using v(8) owned_bounds(3) [OF fs] that ok(3) by blast
  note c = file_cong [of di d d1, OF ag]
  have ok1: "inode_ok (di, d1)" and B1: "blocks_of (di, d1) (data_blocks di) = ?B" using c ok(1) by blast+
  have dis: "distinct (blocks_of (di, d1) (data_blocks di) @ v)"
    using ok(1,3) v(3,4) unfolding B1 by (auto simp: inode_ok_def)
  have nd: "blocks_num_needed di sz = Some (length v)" using need v(2) by simp
  from increase_size_ok [OF ok1 sz nd dis v(6)] obtain di' d' where r: "increase_size di sz v d1 = Some (di', d')" "i_size di' = sz"
    "inode_ok (di', d')" "inode_type di' = inode_type di" "parent_inode di' = parent_inode di"
    "blocks_of (di', d') (data_blocks di') = ?B @ v" "\<And>x. x \<notin> index_blocks (di', d') \<Longrightarrow> d' x = d1 x" "inode_fits di'"
    using ok(2) B1 by metis
  have "take (i_size di) (file_bytes (di', d')) = file_bytes (di, d1)"
    using increase_size_keeps [OF ok1 sz nd dis v(6) r(1)] .
  then have fb: "take (i_size di) (file_bytes (di', d')) = file_bytes (di, d)" using c(3) ok(1) by simp
  have sub: "set (blocks_of (di', d') (data_blocks di')) \<subseteq> owned fs d1" using r(6) ok(3) v(5) by auto
  have idx: "index_blocks (di', d') \<subseteq> owned fs d1" using sub index_blocks_subset [of di' d'] by blast
  have bm: "d' x = d1 x" if "in_bitmap fs x" for x using r(7) idx owned_bounds(3) [OF fs] that by blast
  note oc = owned_cong [of fs d' d1, OF bm]
  have "file_inv fs (di', d')" using r(3,8) sub oc(1) by (simp add: file_inv_def)
  moreover have "d' x = d x" if "\<not> in_bitmap fs x \<and> x \<notin> set (blocks_of (di', d') (data_blocks di'))" for x
    using that r(7) [of x] index_blocks_subset [of di' d'] v(8) by auto
  moreover have "free_blocks fs d + total_blocks (i_size di) = free_blocks fs d' + total_blocks sz"
    using v(7) oc(2) total_blocks_mono [OF sz] by simp
  moreover have "vfs_increase_size fs sz di d = Some (di', d')" using sz(1) need v(1) r(1) by (simp add: vfs_increase_size_def)
  moreover have "owned fs d \<subseteq> owned fs d'" using oc(1) v(5) by simp
  moreover have "set (blocks_of (di', d') (data_blocks di')) \<inter> owned fs d \<subseteq> set ?B" using r(6) v(4) by auto
  moreover have "first_fit fs d d'" using alloc_datas_first_fit [OF fs v(1)] oc(1) by (simp add: first_fit_def on_device_def)
  ultimately show ?thesis using r(2,4,5) fb by (intro exI [of _ di'] exI [of _ d']) simp
qed

subsection \<open>How one file may change\<close>

text \<open>
  One inode and the disk change together; blocks that belong to others, and everything before the
  data bitmap, stay. The relation is transitive, so it holds for compositions of growth and writes.
\<close>

definition evolves :: "easy_file_system \<Rightarrow> disk_inode \<times> disk \<Rightarrow> disk_inode \<times> disk \<Rightarrow> bool" where
  "evolves fs st st' \<longleftrightarrow> file_inv fs st' \<and> owned fs (snd st) - set (blocks_of st (data_blocks (fst st))) \<subseteq> owned fs (snd st')
     \<and> (\<forall>x. (x \<in> owned fs (snd st) \<or> x < start_block_id (data_bitmap fs)) \<and> x \<notin> set (blocks_of st (data_blocks (fst st)))
          \<longrightarrow> snd st' x = snd st x)
     \<and> set (blocks_of st' (data_blocks (fst st'))) \<inter> owned fs (snd st) \<subseteq> set (blocks_of st (data_blocks (fst st)))"

lemma evolves_refl: "file_inv fs st \<Longrightarrow> evolves fs st st"
  by (auto simp: evolves_def)

lemma evolves_trans:
  assumes fs: "fs_ok fs" and ab: "evolves fs a b" and bc: "evolves fs b c"
  shows "evolves fs a c"
proof -
  have "snd c x = snd a x" if x: "x \<in> owned fs (snd a) \<or> x < start_block_id (data_bitmap fs)" "x \<notin> set (blocks_of a (data_blocks (fst a)))" for x
  proof -
    have "x \<notin> set (blocks_of b (data_blocks (fst b)))"
    proof (cases "x \<in> owned fs (snd a)")
      case True
      then show ?thesis using ab x(2) by (auto simp: evolves_def)
    next
      case False
      then have "x \<notin> owned fs (snd b)" using x(1) owned_bounds(2) [OF fs, of x "snd b"] fs by (auto simp: fs_ok_def)
      then show ?thesis using ab by (auto simp: evolves_def file_inv_def)
    qed
    moreover have "x \<in> owned fs (snd b) \<or> x < start_block_id (data_bitmap fs)" using ab x by (auto simp: evolves_def)
    ultimately show ?thesis using ab bc x by (simp add: evolves_def)
  qed
  then show ?thesis using ab bc by (auto simp: evolves_def)
qed

lemma increase_evolves:
  assumes fs: "fs_ok fs" and inv: "file_inv fs (di, d)" and sz: "i_size di \<le> sz" "sz \<le> MAX_SIZE"
    and free: "total_blocks sz \<le> total_blocks (i_size di) + free_blocks fs d"
  shows "\<exists>di' d'. vfs_increase_size fs sz di d = Some (di', d') \<and> i_size di' = sz \<and> evolves fs (di, d) (di', d')
    \<and> take (i_size di) (file_bytes (di', d')) = file_bytes (di, d)
    \<and> inode_type di' = inode_type di \<and> parent_inode di' = parent_inode di
    \<and> free_blocks fs d + total_blocks (i_size di) = free_blocks fs d' + total_blocks sz \<and> first_fit fs d d'"
proof -
  from vfs_increase_ok [OF assms] obtain di' d' where r: "vfs_increase_size fs sz di d = Some (di', d')" "i_size di' = sz" "file_inv fs (di', d')"
    "take (i_size di) (file_bytes (di', d')) = file_bytes (di, d)" "inode_type di' = inode_type di" "parent_inode di' = parent_inode di"
    "owned fs d \<subseteq> owned fs d'" "free_blocks fs d + total_blocks (i_size di) = free_blocks fs d' + total_blocks sz"
    "\<And>x. \<not> in_bitmap fs x \<Longrightarrow> x \<notin> set (blocks_of (di', d') (data_blocks di')) \<Longrightarrow> d' x = d x"
    "set (blocks_of (di', d') (data_blocks di')) \<inter> owned fs d \<subseteq> set (blocks_of (di, d) (data_blocks di))" "first_fit fs d d'" by blast
  have sub: "set (blocks_of (di', d') (data_blocks di')) \<subseteq> owned fs d'" using r(3) by (simp add: file_inv_def)
  have "d' x = d x" if "x \<in> owned fs d \<or> x < start_block_id (data_bitmap fs)" "x \<notin> set (blocks_of (di, d) (data_blocks di))" for x
  proof (rule r(9))
    show "\<not> in_bitmap fs x" using that(1) owned_bounds(3) [OF fs] by (auto simp: in_bitmap_def)
    show "x \<notin> set (blocks_of (di', d') (data_blocks di'))"
      using that r(10) sub owned_bounds(2) [OF fs, of x d'] fs by (auto simp: fs_ok_def)
  qed
  then have "evolves fs (di, d) (di', d')" using r(3,7,10) by (auto simp: evolves_def)
  with r show ?thesis by blast
qed

lemma write_evolves:
  assumes fs: "fs_ok fs" and inv: "file_inv fs (di, d)" and buf: "buf \<noteq> []" "offset + length buf \<le> i_size di"
  shows "\<exists>d'. inode_write_at di offset buf d = Some (length buf, d') \<and> evolves fs (di, d) (di, d')
    \<and> file_bytes (di, d') = take offset (file_bytes (di, d)) @ buf @ drop (offset + length buf) (file_bytes (di, d))
    \<and> allocated (data_bitmap fs) d' = allocated (data_bitmap fs) d"
proof -
  have ok: "inode_ok (di, d)" using inv by (simp add: file_inv_def)
  then have "i_size di \<le> MAX_SIZE" by (simp add: inode_ok_def)
  then have sm: "offset + length buf < 2 ^ 64" using buf by (simp add: MAX_SIZE_def MAX_BLOCKS_def BLOCK_SZ_def)
  have "offset < i_size di" using buf by (cases buf) auto
  moreover have "length buf = min (length buf) (i_size di - offset)" using buf by simp
  ultimately obtain d' where w: "inode_write_at di offset buf d = Some (length buf, d')" "inode_ok (di, d')"
    "file_bytes (di, d') = take offset (file_bytes (di, d)) @ take (length buf) buf @ drop (offset + length buf) (file_bytes (di, d))"
    "blocks_of (di, d') (data_blocks di) = blocks_of (di, d) (data_blocks di)"
    "\<And>x. x \<notin> set (blocks_of (di, d) (data_blocks di)) \<Longrightarrow> d' x = d x"
    using write_at_ok [OF ok _ buf(1) sm] by blast
  have sub: "set (blocks_of (di, d) (data_blocks di)) \<subseteq> owned fs d" using inv by (simp add: file_inv_def)
  have "d' x = d x" if "in_bitmap fs x" for x using w(5) sub owned_bounds(3) [OF fs] that by blast
  note oc = owned_cong(1) [of fs d' d, OF this] allocated_cong [of fs d' d, OF this]
  have "evolves fs (di, d) (di, d')" using inv w(2,4,5) sub oc(1) by (auto simp: evolves_def file_inv_def)
  with w(1,3) oc(2) show ?thesis by simp
qed

subsection \<open>Handles\<close>

definition node :: "inode \<Rightarrow> disk \<Rightarrow> disk_inode" where
  "node self d = get_disk_inode (d (in_block_id self)) (in_block_offset self)"

definition contents :: "inode \<Rightarrow> disk \<Rightarrow> bytes" where
  "contents self d = file_bytes (node self d, d)"

definition node_blocks :: "inode \<Rightarrow> disk \<Rightarrow> nat set" where
  "node_blocks self d = set (blocks_of (node self d, d) (data_blocks (node self d)))"

definition handle_ok :: "easy_file_system \<Rightarrow> inode \<Rightarrow> bool" where
  "handle_ok fs self \<longleftrightarrow> in_block_offset self + DISK_INODE_SZ \<le> BLOCK_SZ \<and> in_block_id self < start_block_id (data_bitmap fs)"

definition inode_inv :: "easy_file_system \<Rightarrow> inode \<Rightarrow> disk \<Rightarrow> bool" where
  "inode_inv fs self d \<longleftrightarrow> handle_ok fs self \<and> file_inv fs (node self d, d)"

definition apart :: "inode \<Rightarrow> inode \<Rightarrow> disk \<Rightarrow> bool" where
  "apart a b d \<longleftrightarrow> (in_block_id a \<noteq> in_block_id b \<or> in_block_offset a + DISK_INODE_SZ \<le> in_block_offset b
       \<or> in_block_offset b + DISK_INODE_SZ \<le> in_block_offset a) \<and> node_blocks a d \<inter> node_blocks b d = {}"

text \<open>What an operation on one inode promises to every other inode.\<close>

definition others_kept :: "easy_file_system \<Rightarrow> inode \<Rightarrow> disk \<Rightarrow> disk \<Rightarrow> bool" where
  "others_kept fs self d d' \<longleftrightarrow> (\<forall>x. x < start_block_id (data_bitmap fs) \<and> x \<noteq> in_block_id self \<longrightarrow> d' x = d x) \<and> (\<forall>other. inode_inv fs other d \<and> apart self other d \<longrightarrow>
     inode_inv fs other d' \<and> apart self other d' \<and> node other d' = node other d \<and> contents other d' = contents other d)"

lemma others_kept_trans: "others_kept fs self d d1 \<Longrightarrow> others_kept fs self d1 d2 \<Longrightarrow> others_kept fs self d d2"
  by (simp add: others_kept_def)

lemma read_disk_inode_ok: "handle_ok fs self \<Longrightarrow> read_disk_inode self d = Some (node self d)"
  by (simp add: read_disk_inode_def handle_ok_def node_def)

lemma handle_not_owned:
  assumes "fs_ok fs" "handle_ok fs self"
  shows "in_block_id self \<notin> owned fs d" "\<not> in_bitmap fs (in_block_id self)"
  using assms owned_bounds(2) [OF assms(1), of "in_block_id self" d] by (auto simp: handle_ok_def fs_ok_def in_bitmap_def)

lemma file_inv_low_update:
  assumes fs: "fs_ok fs" and inv: "file_inv fs (di, d)" and x: "x < start_block_id (data_bitmap fs)"
  shows "file_inv fs (di, d(x := blk))" "file_bytes (di, d(x := blk)) = file_bytes (di, d)"
    "blocks_of (di, d(x := blk)) (data_blocks di) = blocks_of (di, d) (data_blocks di)"
    "owned fs (d(x := blk)) = owned fs d" "free_blocks fs (d(x := blk)) = free_blocks fs d"
proof -
  have sub: "set (blocks_of (di, d) (data_blocks di)) \<subseteq> owned fs d" using inv by (simp add: file_inv_def)
  have "x \<notin> owned fs d" using owned_bounds(2) [OF fs, of x d] x fs by (auto simp: fs_ok_def)
  with sub have ag: "(d(x := blk)) y = d y" if "y \<in> set (blocks_of (di, d) (data_blocks di))" for y using that by auto
  note c = file_cong [of di d "d(x := blk)", OF ag]
  have "(d(x := blk)) y = d y" if "in_bitmap fs y" for y using that x by (auto simp: in_bitmap_def)
  note oc = owned_cong [of fs "d(x := blk)" d, OF this]
  show "owned fs (d(x := blk)) = owned fs d" "free_blocks fs (d(x := blk)) = free_blocks fs d" using oc by simp_all
  show "blocks_of (di, d(x := blk)) (data_blocks di) = blocks_of (di, d) (data_blocks di)" using c(1) by blast
  show "file_inv fs (di, d(x := blk))" using inv c(1,2) oc(1) by (simp add: file_inv_def)
  show "file_bytes (di, d(x := blk)) = file_bytes (di, d)" using inv c(3) by (simp add: file_inv_def)
qed

lemma modify_disk_inode_ok:
  assumes fs: "fs_ok fs" and inv: "inode_inv fs self d" and f: "f (node self d) d = Some (v, di', d1)"
    and ev: "evolves fs (node self d, d) (di', d1)"
  shows "\<exists>d'. modify_disk_inode self f d = Some (v, d') \<and> node self d' = di' \<and> inode_inv fs self d' \<and> contents self d' = file_bytes (di', d1)
    \<and> free_blocks fs d' = free_blocks fs d1 \<and> others_kept fs self d d' \<and> owned fs d' = owned fs d1"
proof -
  let ?b = "in_block_id self" let ?off = "in_block_offset self"
  define d' where "d' = d1(?b := put_disk_inode (d1 ?b) ?off di')"
  have h: "handle_ok fs self" using inv by (simp add: inode_inv_def)
  then have low: "?b < start_block_id (data_bitmap fs)" by (simp add: handle_ok_def)
  have inv1: "file_inv fs (di', d1)" using ev by (simp add: evolves_def)
  note u = file_inv_low_update [OF fs inv1 low, of "put_disk_inode (d1 ?b) ?off di'", folded d'_def]
  have m: "modify_disk_inode self f d = Some (v, d')"
    by (simp add: modify_disk_inode_def read_disk_inode_ok [OF h] f d'_def)
  have fits: "inode_fits di'" "length (direct di') = 28" using inv1 by (simp_all add: file_inv_def inode_fits_def)
  have nd: "node self d' = di'" by (simp add: node_def d'_def get_put_disk_inode [OF fits(1)])
  have others: "inode_inv fs other d' \<and> apart self other d' \<and> node other d' = node other d \<and> contents other d' = contents other d"
    if o: "inode_inv fs other d" "apart self other d" for other
  proof -
    let ?o = "in_block_id other" let ?B = "set (blocks_of (node other d, d) (data_blocks (node other d)))"
    have ho: "handle_ok fs other" and io: "file_inv fs (node other d, d)" using o(1) by (simp_all add: inode_inv_def)
    have sub: "?B \<subseteq> owned fs d" using io by (simp add: file_inv_def)
    have self_sub: "set (blocks_of (node self d, d) (data_blocks (node self d))) \<subseteq> owned fs d"
      using inv by (simp add: inode_inv_def file_inv_def)
    have dj: "?B \<inter> set (blocks_of (node self d, d) (data_blocks (node self d))) = {}"
      using o(2) by (auto simp: apart_def node_blocks_def)
    have ag1: "d1 x = d x" if "x \<in> ?B" for x using ev that sub dj by (auto simp: evolves_def)
    have "?b \<notin> ?B" using handle_not_owned(1) [OF fs h] sub by blast
    then have ag: "d' x = d x" if "x \<in> ?B" for x using that ag1 by (auto simp: d'_def)
    note c = file_cong [of "node other d" d d', OF ag]
    have "d1 ?o = d ?o" using ev ho self_sub handle_not_owned(1) [OF fs ho, of d] by (auto simp: evolves_def handle_ok_def)
    then have no: "node other d' = node other d"
      unfolding node_def using o(2) put_disk_inode_byte [OF fits(2)]
      by (intro get_disk_inode_cong) (auto simp: d'_def apart_def)
    have "?B \<subseteq> owned fs d'" using ev u(4) sub dj by (auto simp: evolves_def)
    then have "inode_inv fs other d'" using ho io c(1,2) no by (auto simp: inode_inv_def file_inv_def)
    moreover have "contents other d' = contents other d" using c(3) io no by (simp add: contents_def file_inv_def)
    moreover have "node_blocks self d' \<inter> node_blocks other d' = {}"
    proof -
      have "node_blocks self d' \<inter> owned fs d \<subseteq> set (blocks_of (node self d, d) (data_blocks (node self d)))"
        using ev u(3) by (simp add: node_blocks_def nd evolves_def)
      moreover have "node_blocks other d' = ?B" using c(1) by (simp add: node_blocks_def no)
      ultimately show ?thesis using sub dj by blast
    qed
    ultimately show ?thesis using no o(2) by (simp add: apart_def)
  qed
  have "inode_inv fs self d'" using h u(1) by (simp add: inode_inv_def nd)
  moreover have "others_kept fs self d d'"
  proof -
    have "x \<notin> set (blocks_of (node self d, d) (data_blocks (node self d)))" if "x < start_block_id (data_bitmap fs)" for x
      using that owned_bounds(2) [OF fs, of x d] fs inv by (auto simp: fs_ok_def inode_inv_def file_inv_def)
    then have "d' x = d x" if "x < start_block_id (data_bitmap fs)" "x \<noteq> ?b" for x using ev that by (simp add: evolves_def d'_def)
    then show ?thesis unfolding others_kept_def using others by blast
  qed
  ultimately show ?thesis using m nd u(2,4,5) by (intro exI [of _ d']) (simp add: contents_def)
qed

subsection \<open>Properties\<close>

definition fits_in :: "easy_file_system \<Rightarrow> inode \<Rightarrow> nat \<Rightarrow> disk \<Rightarrow> bool" where
  "fits_in fs self sz d \<longleftrightarrow> sz \<le> MAX_SIZE \<and> total_blocks sz \<le> total_blocks (i_size (node self d)) + free_blocks fs d"

lemma overwrite_append:
  assumes "off \<le> n" "length g = max n (off + length buf)" "take n g = f" "length f = n"
  shows "take off g @ buf @ drop (off + length buf) g = take off f @ buf @ drop (off + length buf) f"
proof -
  have "take off g = take off f" using assms(1,3) by (metis min.absorb1 take_take)
  moreover have "drop (off + length buf) g = drop (off + length buf) f"
    using assms by (cases "off + length buf \<le> n") (auto simp: max_def)
  ultimately show ?thesis by simp
qed

lemma increase_to:
  assumes fs: "fs_ok fs" and inv: "file_inv fs (di, d)" and mx: "max (i_size di) n \<le> MAX_SIZE"
    and free: "total_blocks (max (i_size di) n) \<le> total_blocks (i_size di) + free_blocks fs d"
  shows "\<exists>di1 d1. vfs_increase_size fs n di d = Some (di1, d1) \<and> i_size di1 = max (i_size di) n \<and> evolves fs (di, d) (di1, d1)
      \<and> take (i_size di) (file_bytes (di1, d1)) = file_bytes (di, d) \<and> first_fit fs d d1
      \<and> free_blocks fs d + total_blocks (i_size di) = free_blocks fs d1 + total_blocks (max (i_size di) n)"
proof (cases "n < i_size di")
  case True
  then show ?thesis using evolves_refl [OF inv] by (simp add: vfs_increase_size_def file_bytes_def max_def first_fit_refl)
next
  case False
  then have "max (i_size di) n = n" by simp
  with increase_evolves [OF fs inv, of n] False mx free show ?thesis by auto
qed

text \<open>C7: writing to a file through the whole stack. If the bitmap has free bits enough for the new
  size, \<^verbatim>\<open>Inode::write_at\<close> at any offset up to the end of the file does not panic and writes all bytes,
  the contents afterwards are the old ones overwritten and extended, the invariant of the inode
  is kept, and every other inode keeps its attributes, its contents and its blocks. The disk of the model has
  no end, and a bitmap may have bits for blocks that the device lacks; but when the blocks in use lie on a
  device of \<open>m\<close> data blocks and \<open>m\<close> is enough for the growth too, they lie on the device afterwards, so
  that the write reaches no block beyond its end.\<close>

theorem vfs_write_contents:
  assumes "fs_ok fs" "inode_inv fs self d" "offset \<le> i_size (node self d)" "buf \<noteq> []"
    "fits_in fs self (max (i_size (node self d)) (offset + length buf)) d"
  shows "\<exists>d'. vfs_write_at fs self offset buf d = Some (length buf, d') \<and> inode_inv fs self d' \<and> others_kept fs self d d'
    \<and> contents self d' = take offset (contents self d) @ buf @ drop (offset + length buf) (contents self d)
    \<and> (\<forall>m. on_device fs m d \<and> card (owned fs d) + total_blocks (max (i_size (node self d)) (offset + length buf))
          \<le> total_blocks (i_size (node self d)) + m \<longrightarrow> on_device fs m d')"
proof -
  let ?di = "node self d" let ?n = "offset + length buf" let ?sz = "max (i_size ?di) ?n"
  have inv: "file_inv fs (?di, d)" and mx: "?sz \<le> MAX_SIZE" using assms(2,5) by (simp_all add: inode_inv_def fits_in_def)
  then have n32: "?n mod 2 ^ 32 = ?n" by (simp add: MAX_SIZE_def MAX_BLOCKS_def BLOCK_SZ_def)
  obtain di1 d1 where g: "vfs_increase_size fs ?n ?di d = Some (di1, d1)" "i_size di1 = ?sz" "evolves fs (?di, d) (di1, d1)"
    "take (i_size ?di) (file_bytes (di1, d1)) = file_bytes (?di, d)" "first_fit fs d d1"
    "free_blocks fs d + total_blocks (i_size ?di) = free_blocks fs d1 + total_blocks ?sz"
    using increase_to [OF assms(1) inv, of ?n] assms(5) by (auto simp: fits_in_def)
  have "file_inv fs (di1, d1)" using g(3) by (simp add: evolves_def)
  from write_evolves [OF assms(1) this assms(4), of offset] g(2) obtain d2 where
    w: "inode_write_at di1 offset buf d1 = Some (length buf, d2)" "evolves fs (di1, d1) (di1, d2)"
      "file_bytes (di1, d2) = take offset (file_bytes (di1, d1)) @ buf @ drop ?n (file_bytes (di1, d1))"
      "allocated (data_bitmap fs) d2 = allocated (data_bitmap fs) d1" by auto
  have "file_bytes (di1, d2) = take offset (contents self d) @ buf @ drop ?n (contents self d)"
    unfolding w(3) contents_def using assms(3) g(2,4) by (intro overwrite_append) (simp_all add: file_bytes_def)
  moreover let ?f = "\<lambda>di d. do { (di, d) \<leftarrow> vfs_increase_size fs (?n mod 2 ^ 32) di d; (n, d) \<leftarrow> inode_write_at di offset buf d; Some (n, di, d) }"
  have "?f ?di d = Some (length buf, di1, d2)" by (simp only: n32 g(1) w(1) Option.bind.simps prod.case)
  moreover note modify_disk_inode_ok [OF assms(1,2), of ?f, OF this evolves_trans [OF assms(1) g(3) w(2)]]
  moreover have "owned fs d2 = owned fs d1" using w(4) by (simp add: owned_def)
  moreover have "on_device fs m d1" if "on_device fs m d" "card (owned fs d) + total_blocks ?sz \<le> total_blocks (i_size ?di) + m" for m
    using that g(5,6) card_owned [of fs d] card_owned [of fs d1] by (auto simp: first_fit_def)
  ultimately show ?thesis by (auto simp: vfs_write_at_def on_device_def)
qed

text \<open>A concrete file system to apply the properties to.\<close>

lemma example_fs:
  obtains d where "efs_create (\<lambda>_ _. 0) 2000 1 = Some (created_fs 2000 1, d)" "fs_ok (created_fs 2000 1)"
    "inode_inv (created_fs 2000 1) (root_inode (created_fs 2000 1)) d" "free_blocks (created_fs 2000 1) d = 4096"
    "node (root_inode (created_fs 2000 1)) d = disk_inode_initialize Directory" "allocated (inode_bitmap (created_fs 2000 1)) d = {0}"
proof -
  let ?fs = "created_fs 2000 1"
  have "create_ok 2000 1" by (simp add: create_ok_def area_blocks_eq)
  from efs_create_ok [OF this, of "\<lambda>_ _. 0"] obtain d where d: "efs_create (\<lambda>_ _. 0) 2000 1 = Some (?fs, d)"
    "allocated (data_bitmap ?fs) d = {}" "get_disk_inode (d (1 + 1)) 0 = disk_inode_initialize Directory" "allocated (inode_bitmap ?fs) d = {0}" by blast
  have fs: "fs_ok ?fs" by (simp add: fs_ok_def created_fs_def Let_def area_blocks_eq bitmap_new_def maximum_def block_bits_eq)
  have r: "root_inode ?fs = \<lparr>in_block_id = 2, in_block_offset = 0\<rparr>"
    by (simp add: root_inode_def inode_at_def get_disk_inode_pos_def created_fs_def Let_def add32_def)
  have n: "node (root_inode ?fs) d = disk_inode_initialize Directory" using d(3) unfolding node_def r by (simp add: numeral_2_eq_2)
  have b0: "blocks_for 0 = 0" by (simp add: blocks_for_def BLOCK_SZ_def)
  have "inode_inv ?fs (root_inode ?fs) d"
    unfolding inode_inv_def n unfolding r
    by (simp add: handle_ok_def file_inv_def inode_ok_def inode_fits_def disk_inode_initialize_def data_blocks_def blocks_of_def b0
        DISK_INODE_SZ_def BLOCK_SZ_def created_fs_def Let_def bitmap_new_def area_blocks_eq)
  moreover have "free_blocks ?fs d = 4096"
    unfolding free_blocks_def d(2) by (simp add: created_fs_def Let_def area_blocks_eq bitmap_new_def maximum_def block_bits_eq)
  ultimately show ?thesis using that d(1,4) fs n by blast
qed

theorem vfs_write_contents_witness:
  "\<exists>fs d d'. efs_create (\<lambda>_ _. 0) 2000 1 = Some (fs, d) \<and> vfs_write_at fs (root_inode fs) 0 [1, 2, 3] d = Some (3, d')
     \<and> contents (root_inode fs) d' = [1, 2, 3]"
proof -
  let ?fs = "created_fs 2000 1"
  obtain d where d: "efs_create (\<lambda>_ _. 0) 2000 1 = Some (?fs, d)" "fs_ok ?fs" "inode_inv ?fs (root_inode ?fs) d"
    "free_blocks ?fs d = 4096" "node (root_inode ?fs) d = disk_inode_initialize Directory" "allocated (inode_bitmap ?fs) d = {0}" by (rule example_fs)
  have z: "i_size (node (root_inode ?fs) d) = 0" unfolding d(5) by (simp add: disk_inode_initialize_def)
  have "fits_in ?fs (root_inode ?fs) (max (i_size (node (root_inode ?fs) d)) (0 + length [1, 2, 3 :: u8])) d"
    unfolding fits_in_def d(4) z by (simp add: total_blocks_def blocks_for_def BLOCK_SZ_def MAX_SIZE_def MAX_BLOCKS_def Let_def)
  moreover have "0 \<le> i_size (node (root_inode ?fs) d)" "[1, 2, 3 :: u8] \<noteq> []" by simp_all
  ultimately have "\<exists>d'. vfs_write_at ?fs (root_inode ?fs) 0 [1, 2, 3] d = Some (length [1, 2, 3 :: u8], d')
      \<and> contents (root_inode ?fs) d' = take 0 (contents (root_inode ?fs) d) @ [1, 2, 3] @ drop (0 + length [1, 2, 3 :: u8]) (contents (root_inode ?fs) d)"
    using vfs_write_contents [OF d(2,3), of 0 "[1, 2, 3]"] by blast
  then obtain d' where "vfs_write_at ?fs (root_inode ?fs) 0 [1, 2, 3] d = Some (length [1, 2, 3 :: u8], d')"
    "contents (root_inode ?fs) d' = [1, 2, 3] @ drop 3 (contents (root_inode ?fs) d)" by (auto simp: numeral_3_eq_3)
  moreover have "contents (root_inode ?fs) d = []" unfolding contents_def file_bytes_def fst_conv z by simp
  moreover have "length [1, 2, 3 :: u8] = 3" by simp
  ultimately show ?thesis using d(1) by (metis append_Nil2 drop_Nil)
qed

end
