(* ===== verification/Directory.thy ===== *)
theory Directory
  imports Files
begin

section \<open>Directories\<close>

text \<open>
  A directory is a file of 32-byte entries. This theory relates the operations of
  easy-fs/src/vfs.rs on directories to an association list from names to inode numbers: entries
  are appended at the end, a removal moves the later entries up by one.
\<close>

subsection \<open>Entries and their bytes\<close>

definition entry_wf :: "dir_entry \<Rightarrow> bool" where
  "entry_wf e \<longleftrightarrow> length (de_name e) = 28 \<and> inode_number e < 2 ^ 32"

definition name_ok :: "bytes \<Rightarrow> bool" where
  "name_ok nm \<longleftrightarrow> length nm \<le> NAME_LENGTH_LIMIT \<and> 0 \<notin> set nm \<and> valid_utf8 nm"

lemma length_as_bytes [simp]: "entry_wf e \<Longrightarrow> length (dir_entry_as_bytes e) = 32"
  by (simp add: dir_entry_as_bytes_def entry_wf_def)

lemma get_le_list: "get_le n ((!) (map (\<lambda>k. of_nat (v div 256 ^ k)) [0..<m])) off = get_le n (put_le m (\<lambda>_. 0) 0 v) off" if "off + n \<le> m"
  using that by (intro get_le_cong) (simp add: put_le_def)

lemma get_le_shift: "get_le n (\<lambda>i. f (i + k)) off = get_le n f (off + k)"
  by (induction n arbitrary: off) simp_all

lemma of_as_bytes:
  assumes "entry_wf e" shows "dir_entry_of_bytes (dir_entry_as_bytes e) = e"
proof -
  let ?ino = "map (\<lambda>k. of_nat (inode_number e div 256 ^ k)) [0..<4] :: bytes"
  have len: "length (de_name e) = 28" and ino: "inode_number e < 2 ^ 32" using assms by (simp_all add: entry_wf_def)
  have "get_le 4 ((!) (de_name e @ ?ino)) 28 = get_le 4 (\<lambda>i. (de_name e @ ?ino) ! (i + 28)) 0"
    using get_le_shift [of 4 "(!) (de_name e @ ?ino)" 28 0] by simp
  also have "\<dots> = get_le 4 ((!) ?ino) 0" using len by (intro get_le_cong) (simp add: nth_append)
  also have "\<dots> = inode_number e" using get_le_list [of 0 4 4 "inode_number e"] ino by simp
  finally show ?thesis using len
    by (cases e) (simp add: dir_entry_of_bytes_def dir_entry_as_bytes_def NAME_LENGTH_LIMIT_def)
qed

lemma of_bytes_wf: "length bs = 32 \<Longrightarrow> entry_wf (dir_entry_of_bytes bs)"
  using get_le_bound [of 4 "(!) bs" 28] by (simp add: entry_wf_def dir_entry_of_bytes_def NAME_LENGTH_LIMIT_def)

lemma empty_wf [simp]: "entry_wf dir_entry_empty"
  by (simp add: entry_wf_def dir_entry_empty_def NAME_LENGTH_LIMIT_def)

lemma position_zero: "0 \<notin> set nm \<Longrightarrow> 0 < k \<Longrightarrow> position (\<lambda>b. b = 0) (nm @ replicate k (0::u8)) = Some (length nm)"
  by (induction nm) (auto simp: gr0_conv_Suc)

lemma dir_entry_new_ok:
  assumes "name_ok nm" "ino < 2 ^ 32"
  shows "\<exists>e. dir_entry_new nm ino = Some e \<and> entry_wf e \<and> dir_entry_name e = Some nm \<and> inode_number e = ino"
proof -
  let ?e = "\<lparr>de_name = nm @ replicate (28 - length nm) 0, inode_number = ino\<rparr>"
  have l: "length nm \<le> 27" using assms by (simp add: name_ok_def NAME_LENGTH_LIMIT_def)
  have "dir_entry_new nm ino = Some ?e" using l by (simp add: dir_entry_new_def copy_into_def NAME_LENGTH_LIMIT_def)
  moreover have "position (\<lambda>b. b = 0) (de_name ?e) = Some (length nm)"
    using assms l by (simp add: name_ok_def position_zero)
  then have "dir_entry_name ?e = Some nm" unfolding dir_entry_name_def using assms by (simp add: name_ok_def)
  ultimately show ?thesis using l assms(2) by (simp add: entry_wf_def)
qed

subsection \<open>The entries of a directory\<close>

definition chunks :: "bytes \<Rightarrow> dir_entry list" where
  "chunks f = map (\<lambda>i. dir_entry_of_bytes (take 32 (drop (32 * i) f))) [0..<length f div 32]"

definition entries :: "disk_inode \<times> disk \<Rightarrow> dir_entry list" where
  "entries st = chunks (file_bytes st)"

lemma length_file_bytes [simp]: "length (file_bytes (di, d)) = i_size di"
  by (simp add: file_bytes_def)

lemma length_chunks [simp]: "length (chunks f) = length f div 32"
  by (simp add: chunks_def)

lemma length_entries [simp]: "length (entries (di, d)) = file_count di"
  by (simp add: entries_def file_count_def DIRENT_SZ_def)

lemma chunks_wf: "e \<in> set (chunks f) \<Longrightarrow> entry_wf e"
  by (auto simp: chunks_def intro!: of_bytes_wf)

lemma take_drop_nth: "k < n \<Longrightarrow> m \<le> length xs \<Longrightarrow> take n (drop m xs) ! k = xs ! (m + k)"
  by simp

lemma length_chunk: "j < n \<Longrightarrow> length (xs :: bytes) = 32 * n \<Longrightarrow> length (take 32 (drop (32 * j) xs)) = 32"
proof -
  assume "j < n" "length xs = 32 * n"
  then have "32 \<le> length xs - 32 * j" by linarith
  then show ?thesis unfolding length_take length_drop by (rule min.absorb2)
qed

lemma overwrite_nth:
  assumes "length f = 32 * n" "i < n" "length b = 32" "p < 32 * n"
  shows "(take (32 * i) f @ b @ drop (32 * i + 32) f) ! p = (if 32 * i \<le> p \<and> p < 32 * i + 32 then b ! (p - 32 * i) else f ! p)"
  using assms by (auto simp: nth_append)

lemma chunks_overwrite:
  assumes "length f = 32 * n" "i < n" "entry_wf e"
  shows "chunks (take (32 * i) f @ dir_entry_as_bytes e @ drop (32 * i + 32) f) = (chunks f)[i := e]"
proof -
  let ?b = "dir_entry_as_bytes e"
  define g where "g = take (32 * i) f @ ?b @ drop (32 * i + 32) f"
  have lb: "length ?b = 32" using assms(3) by simp
  have lg: "length g = 32 * n" using assms lb by (simp add: g_def)
  note gn = overwrite_nth [OF assms(1,2) lb, folded g_def]
  have ch: "take 32 (drop (32 * j) g) = (if j = i then ?b else take 32 (drop (32 * j) f))" if j: "j < n" for j
  proof (rule nth_equalityI)
    show "length (take 32 (drop (32 * j) g)) = length (if j = i then ?b else take 32 (drop (32 * j) f))"
      using length_chunk [OF j lg] length_chunk [OF j assms(1)] lb by (simp only: split: if_split) simp
    fix k assume "k < length (take 32 (drop (32 * j) g))"
    then have k: "k < 32" by simp
    then have p: "32 * j + k < 32 * n" "32 * j \<le> length g" "32 * j \<le> length f" using j lg assms(1) by linarith+
    have "32 * i \<le> 32 * j + k \<and> 32 * j + k < 32 * i + 32 \<longleftrightarrow> j = i" using k by linarith
    then show "take 32 (drop (32 * j) g) ! k = (if j = i then ?b else take 32 (drop (32 * j) f)) ! k"
      using gn [OF p(1)] take_drop_nth [OF k p(2)] take_drop_nth [OF k p(3)] by simp
  qed
  have "chunks g = (chunks f)[i := e]"
  proof (rule nth_equalityI)
    show "length (chunks g) = length ((chunks f)[i := e])" using lg assms(1) by simp
    fix j assume "j < length (chunks g)"
    then have "j < n" using lg by simp
    with ch [OF this] lg assms(1) of_as_bytes [OF assms(3)] show "chunks g ! j = (chunks f)[i := e] ! j"
      by (simp add: chunks_def nth_list_update)
  qed
  then show ?thesis by (simp add: g_def)
qed

lemma chunks_append:
  assumes "length f = 32 * n" "entry_wf e"
  shows "chunks (f @ dir_entry_as_bytes e) = chunks f @ [e]"
proof -
  have lb: "length (dir_entry_as_bytes e) = 32" using assms(2) by simp
  then have "[0..<length (f @ dir_entry_as_bytes e) div 32] = [0..<n] @ [n]" using assms(1) by simp
  moreover have "take 32 (drop (32 * j) (f @ dir_entry_as_bytes e)) = take 32 (drop (32 * j) f)" if "j < n" for j
    using that assms(1) by simp
  moreover have "take 32 (drop (32 * n) (f @ dir_entry_as_bytes e)) = dir_entry_as_bytes e" using assms(1) lb by simp
  ultimately show ?thesis using assms(1) of_as_bytes [OF assms(2)] by (simp add: chunks_def)
qed

lemma chunks_take:
  assumes "length f = 32 * n" "k \<le> n" shows "chunks (take (32 * k) f) = take k (chunks f)"
proof -
  have "take 32 (drop (32 * j) (take (32 * k) f)) = take 32 (drop (32 * j) f)" if "j < k" for j
  proof -
    have "32 \<le> 32 * k - 32 * j" using that by linarith
    then show ?thesis by (simp add: drop_take min_def)
  qed
  then show ?thesis using assms by (simp add: chunks_def take_map)
qed

lemma read_dirent_ok:
  assumes ok: "inode_ok (di, d)" and i: "i < file_count di"
  shows "read_dirent di i d = Some (entries (di, d) ! i)"
proof -
  have sz: "i_size di \<le> MAX_SIZE" using ok by (simp add: inode_ok_def)
  have le: "32 * i + 32 \<le> i_size di" using i by (simp add: file_count_def DIRENT_SZ_def)
  have l: "length (dir_entry_as_bytes dir_entry_empty) = 32" by simp
  have "DIRENT_SZ * i + length (dir_entry_as_bytes dir_entry_empty) < 2 ^ 64"
    using le sz l by (simp add: DIRENT_SZ_def MAX_SIZE_def MAX_BLOCKS_def BLOCK_SZ_def)
  moreover have "32 = min (length (dir_entry_as_bytes dir_entry_empty)) (i_size di - DIRENT_SZ * i)"
    using le by (simp add: DIRENT_SZ_def)
  ultimately have "inode_read_at di (DIRENT_SZ * i) (dir_entry_as_bytes dir_entry_empty) d =
      Some (32, take 32 (drop (DIRENT_SZ * i) (file_bytes (di, d))) @ drop 32 (dir_entry_as_bytes dir_entry_empty))"
    by (rule read_at_ok [OF ok])
  moreover have "i < i_size di div 32" using i by (simp add: file_count_def DIRENT_SZ_def)
  ultimately show ?thesis by (simp add: read_dirent_def entries_def chunks_def DIRENT_SZ_def)
qed

subsection \<open>Searching\<close>

definition dir_ok :: "dir_entry list \<Rightarrow> bool" where
  "dir_ok es \<longleftrightarrow> (\<forall>e \<in> set es. dir_entry_name e \<noteq> None)"

definition alist_of :: "dir_entry list \<Rightarrow> (bytes \<times> nat) list" where
  "alist_of es = map (\<lambda>e. (the (dir_entry_name e), inode_number e)) es"

lemma find_dirent_ok:
  assumes "inode_ok (di, d)" "dir_ok (entries (di, d))" "\<forall>i \<in> set is. i < file_count di"
  shows "find_dirent di nm d is = Some (case position (\<lambda>i. fst (alist_of (entries (di, d)) ! i) = nm) is of
      None \<Rightarrow> None | Some k \<Rightarrow> Some (is ! k, snd (alist_of (entries (di, d)) ! (is ! k))))"
  using assms(3)
proof (induction "is")
  case (Cons i "is")
  let ?e = "entries (di, d) ! i"
  have i: "i < file_count di" using Cons.prems by simp
  obtain n where n: "dir_entry_name ?e = Some n" using assms(2) i by (fastforce simp: dir_ok_def)
  have "alist_of (entries (di, d)) ! i = (n, inode_number ?e)" using i n by (simp add: alist_of_def)
  with Cons i n show ?case by (simp add: read_dirent_ok [OF assms(1) i] del: position_None split: option.splits)
qed simp

lemma position_upt: "position (\<lambda>i. P (xs ! i)) [0..<length xs] = position P xs"
proof -
  have pm: "position P (map f ys) = position (\<lambda>y. P (f y)) ys" for f and ys :: "nat list" by (induction ys) auto
  show ?thesis using pm [of "(!) xs" "[0..<length xs]"] by (simp add: map_nth)
qed

lemma find_all_ok:
  assumes "inode_ok (di, d)" "dir_ok (entries (di, d))"
  shows "find_dirent di nm d [0..<file_count di] = Some (map_option (\<lambda>k. (k, snd (alist_of (entries (di, d)) ! k)))
    (position (\<lambda>p. fst p = nm) (alist_of (entries (di, d)))))"
proof -
  let ?l = "alist_of (entries (di, d))"
  have l: "length ?l = file_count di" by (simp add: alist_of_def)
  have p: "position (\<lambda>i. fst (?l ! i) = nm) [0..<file_count di] = position (\<lambda>p. fst p = nm) ?l"
    using position_upt [of "\<lambda>p. fst p = nm" ?l] l by simp
  show ?thesis
  proof (cases "position (\<lambda>p. fst p = nm) ?l")
    case None
    show ?thesis using find_dirent_ok [OF assms, of "[0..<file_count di]" nm] unfolding p None by simp
  next
    case (Some k)
    then have "k < file_count di" using position_Some_bound l by metis
    then show ?thesis using find_dirent_ok [OF assms, of "[0..<file_count di]" nm] unfolding p Some by simp
  qed
qed

lemma position_map_of: "map_option (\<lambda>k. snd (l ! k)) (position (\<lambda>p. fst p = nm) l) = map_of l nm"
proof (induction l)
  case (Cons p l)
  have "map_option (\<lambda>k. snd ((p # l) ! k)) (map_option Suc r) = map_option (\<lambda>k. snd (l ! k)) r" for r by (cases r) auto
  with Cons show ?case by (cases p) auto
qed simp

lemma find_inode_id_ok:
  assumes "inode_ok (di, d)" "dir_ok (entries (di, d))" "is_dir di"
  shows "find_inode_id nm di d = Some (map_of (alist_of (entries (di, d))) nm)"
proof -
  have "map_option snd (map_option (\<lambda>k. (k, snd (l ! k))) r) = map_option (\<lambda>k. snd (l ! k)) r" for l :: "(bytes \<times> nat) list" and r
    by (cases r) auto
  then show ?thesis using assms(3) find_all_ok [OF assms(1,2), of nm]
    by (simp add: find_inode_id_def position_map_of)
qed

subsection \<open>Overwriting and appending an entry\<close>

lemma write_dirent_ok:
  assumes fs: "fs_ok fs" and inv: "file_inv fs (di, d)" and e: "entry_wf e" and sz: "i_size di = 32 * n" "i < n"
  shows "\<exists>d'. inode_write_at di (DIRENT_SZ * i) (dir_entry_as_bytes e) d = Some (32, d') \<and> evolves fs (di, d) (di, d')
    \<and> entries (di, d') = (entries (di, d))[i := e] \<and> allocated (data_bitmap fs) d' = allocated (data_bitmap fs) d"
proof -
  have l: "length (dir_entry_as_bytes e) = 32" using e by simp
  then have "dir_entry_as_bytes e \<noteq> []" "DIRENT_SZ * i + length (dir_entry_as_bytes e) \<le> i_size di"
    using sz by (auto simp: DIRENT_SZ_def)
  from write_evolves [OF fs inv this] l obtain d' where
    w: "inode_write_at di (DIRENT_SZ * i) (dir_entry_as_bytes e) d = Some (32, d')" "evolves fs (di, d) (di, d')"
      "file_bytes (di, d') = take (DIRENT_SZ * i) (file_bytes (di, d)) @ dir_entry_as_bytes e @ drop (DIRENT_SZ * i + 32) (file_bytes (di, d))"
      "allocated (data_bitmap fs) d' = allocated (data_bitmap fs) d" by auto
  have "entries (di, d') = (entries (di, d))[i := e]"
    unfolding entries_def w(3) DIRENT_SZ_def using sz e by (intro chunks_overwrite) simp_all
  with w show ?thesis by blast
qed

lemma blocks_step: "sz + 32 \<le> MAX_SIZE \<Longrightarrow> total_blocks (sz + 32) \<le> total_blocks sz + 3"
proof -
  assume m: "sz + 32 \<le> MAX_SIZE"
  have "(sz + 511) div 512 \<le> (sz + 32 + 511) div 512" by (rule div_le_mono) simp
  moreover have "(sz + 32 + 511) div 512 \<le> (sz + 511 + 512) div 512" by (rule div_le_mono) simp
  moreover have "(sz + 511 + 512) div 512 = Suc ((sz + 511) div 512)" by (rule div_add_self2 [THEN trans]) simp_all
  ultimately have "blocks_for (sz + 32) = blocks_for sz \<or> blocks_for (sz + 32) = Suc (blocks_for sz)"
    using m by (simp only: blocks_for_eq) linarith
  moreover have "length (new_slots n) \<le> 3" for n by (simp add: length_new_slots)
  ultimately show ?thesis by (auto simp: total_blocks_slots)
qed

lemma append_dirent_ok:
  assumes fs: "fs_ok fs" and inv: "file_inv fs (di, d)" and sz: "i_size di = 32 * n" "32 * n + 32 \<le> MAX_SIZE" and free: "3 \<le> free_blocks fs d"
    and nm: "name_ok nm" "ino < 2 ^ 32" and dok: "dir_ok (entries (di, d))"
  shows "\<exists>di' d'. append_dirent fs nm ino di d = Some ((), di', d') \<and> evolves fs (di, d) (di', d') \<and> i_size di' = 32 * n + 32
    \<and> inode_type di' = inode_type di \<and> dir_ok (entries (di', d')) \<and> free_blocks fs d \<le> free_blocks fs d' + 3
    \<and> alist_of (entries (di', d')) = alist_of (entries (di, d)) @ [(nm, ino)]"
proof -
  have n: "file_count di = n" using sz by (simp add: file_count_def DIRENT_SZ_def)
  have s32: "(n + 1) * DIRENT_SZ mod 2 ^ 32 = 32 * n + 32"
    using sz(2) by (simp add: DIRENT_SZ_def MAX_SIZE_def MAX_BLOCKS_def BLOCK_SZ_def)
  have tb: "total_blocks (32 * n + 32) \<le> total_blocks (i_size di) + 3" using blocks_step [OF sz(2)] sz(1) by simp
  from increase_evolves [OF fs inv _ sz(2)] sz(1) tb free obtain di1 d1 where
    g: "vfs_increase_size fs (32 * n + 32) di d = Some (di1, d1)" "i_size di1 = 32 * n + 32" "evolves fs (di, d) (di1, d1)"
      "take (32 * n) (file_bytes (di1, d1)) = file_bytes (di, d)" "inode_type di1 = inode_type di"
      "free_blocks fs d + total_blocks (i_size di) = free_blocks fs d1 + total_blocks (32 * n + 32)" by fastforce
  from dir_entry_new_ok [OF nm] obtain e where e: "dir_entry_new nm ino = Some e" "entry_wf e" "dir_entry_name e = Some nm" "inode_number e = ino" by blast
  have inv1: "file_inv fs (di1, d1)" using g(3) by (simp add: evolves_def)
  have l: "length (dir_entry_as_bytes e) = 32" using e by simp
  then have "dir_entry_as_bytes e \<noteq> []" "n * DIRENT_SZ + length (dir_entry_as_bytes e) \<le> i_size di1"
    using g(2) by (auto simp: DIRENT_SZ_def)
  from write_evolves [OF fs inv1 this] l obtain d' where
    w: "inode_write_at di1 (n * DIRENT_SZ) (dir_entry_as_bytes e) d1 = Some (32, d')" "evolves fs (di1, d1) (di1, d')"
      "file_bytes (di1, d') = take (n * DIRENT_SZ) (file_bytes (di1, d1)) @ dir_entry_as_bytes e @ drop (n * DIRENT_SZ + 32) (file_bytes (di1, d1))"
      "allocated (data_bitmap fs) d' = allocated (data_bitmap fs) d1" by auto
  have "file_bytes (di1, d') = file_bytes (di, d) @ dir_entry_as_bytes e"
    unfolding w(3) using g(2,4) by (simp add: DIRENT_SZ_def mult.commute)
  then have en: "entries (di1, d') = entries (di, d) @ [e]" unfolding entries_def using sz(1) e(2) by (simp add: chunks_append)
  have "append_dirent fs nm ino di d = Some ((), di1, d')"
    unfolding append_dirent_def Let_def n s32 by (simp add: g(1) e(1) w(1))
  moreover have "dir_ok (entries (di1, d'))" using dok e(3) by (simp add: en dir_ok_def)
  moreover have "alist_of (entries (di1, d')) = alist_of (entries (di, d)) @ [(nm, ino)]" by (simp add: en alist_of_def e)
  moreover have "free_blocks fs d \<le> free_blocks fs d' + 3" using g(6) w(4) tb by (simp add: free_blocks_def)
  ultimately show ?thesis using evolves_trans [OF fs g(3) w(2)] g(2,5) by blast
qed

subsection \<open>Removing an entry\<close>

lemma take_update_snoc: "length xs = k \<Longrightarrow> take k ((xs @ [y])[k := e]) = xs"
  by simp

lemma shift_list:
  assumes "Suc i < length es"
  shows "take (Suc i) (es[i := es ! Suc i]) @ drop (Suc (Suc i)) (es[i := es ! Suc i]) @ [last (es[i := es ! Suc i])]
    = take i es @ drop (Suc i) es @ [last es]"
proof -
  have "take (Suc i) (es[i := es ! Suc i]) = take i es @ [es ! Suc i]" using assms by (simp add: take_Suc_conv_app_nth)
  moreover have "drop (Suc i) es = es ! Suc i # drop (Suc (Suc i)) es" using assms by (simp add: Cons_nth_drop_Suc)
  moreover have "last (es[i := es ! Suc i]) = last es" 
  proof -
    have "es \<noteq> []" "i \<noteq> length es - 1" using assms by auto
    then show ?thesis by (simp add: last_conv_nth)
  qed
  ultimately show ?thesis by simp
qed

lemma shift_dirents_ok:
  assumes fs: "fs_ok fs" and inv: "file_inv fs (di, d)" and sz: "i_size di = 32 * n" and i: "i < n"
  shows "\<exists>d'. shift_dirents di d [i..<n - 1] = Some d' \<and> evolves fs (di, d) (di, d') \<and> allocated (data_bitmap fs) d' = allocated (data_bitmap fs) d
    \<and> entries (di, d') = take i (entries (di, d)) @ drop (Suc i) (entries (di, d)) @ [last (entries (di, d))]"
  using inv i
proof (induction "n - 1 - i" arbitrary: i d)
  case 0
  let ?es = "entries (di, d)"
  have n: "i = n - 1" "length ?es = n" using 0 sz by (simp_all add: file_count_def DIRENT_SZ_def)
  have "0 < length ?es" unfolding n(2) using 0 by simp
  then have "?es \<noteq> []" using length_greater_0_conv by blast
  moreover have "drop (Suc i) ?es = []" using n 0 by simp
  moreover have "take i ?es = butlast ?es" using n by (simp add: butlast_conv_take)
  ultimately have "take i ?es @ drop (Suc i) ?es @ [last ?es] = ?es" by simp
  with n evolves_refl [OF 0(2)] show ?case by simp
next
  case (Suc k)
  let ?es = "entries (di, d)"
  have lt: "i < n - 1" "k = n - 1 - Suc i" "Suc i < n" using Suc.hyps(2) by linarith+
  have len: "length ?es = n" using sz by (simp add: file_count_def DIRENT_SZ_def)
  have ok: "inode_ok (di, d)" using Suc.prems by (simp add: file_inv_def)
  have rd: "read_dirent di (i + 1) d = Some (?es ! Suc i)" using read_dirent_ok [OF ok, of "Suc i"] lt(3) sz by (simp add: file_count_def DIRENT_SZ_def)
  have wf: "entry_wf (?es ! Suc i)" 
  proof -
    have "?es ! Suc i \<in> set ?es" using lt(3) len by (intro nth_mem) simp
    then show ?thesis unfolding entries_def by (rule chunks_wf)
  qed
  from write_dirent_ok [OF fs Suc.prems(1) wf sz Suc.prems(2)] obtain d1 where
    w: "inode_write_at di (DIRENT_SZ * i) (dir_entry_as_bytes (?es ! Suc i)) d = Some (32, d1)" "evolves fs (di, d) (di, d1)"
      "entries (di, d1) = ?es[i := ?es ! Suc i]" "allocated (data_bitmap fs) d1 = allocated (data_bitmap fs) d" by blast
  have "file_inv fs (di, d1)" using w(2) by (simp add: evolves_def)
  from Suc.hyps(1) [OF lt(2) this lt(3)] obtain d' where r: "shift_dirents di d1 [Suc i..<n - 1] = Some d'" "evolves fs (di, d1) (di, d')"
    "allocated (data_bitmap fs) d' = allocated (data_bitmap fs) d1"
    "entries (di, d') = take (Suc i) (entries (di, d1)) @ drop (Suc (Suc i)) (entries (di, d1)) @ [last (entries (di, d1))]" by blast
  have "[i..<n - 1] = i # [Suc i..<n - 1]" using lt(1) by (rule upt_conv_Cons)
  then have "shift_dirents di d [i..<n - 1] = Some d'" using rd w(1) r(1) by simp
  moreover have "entries (di, d') = take i ?es @ drop (Suc i) ?es @ [last ?es]"
    unfolding r(4) w(3) using lt(3) len by (intro shift_list) simp
  ultimately show ?case using evolves_trans [OF fs w(2) r(2)] r(3) w(4) by auto
qed

lemma shrink_ok:
  assumes inv: "file_inv fs (di, d)" and sz: "sz \<le> i_size di"
  shows "evolves fs (di, d) (di\<lparr>i_size := sz\<rparr>, d)" "file_bytes (di\<lparr>i_size := sz\<rparr>, d) = take sz (file_bytes (di, d))"
proof -
  let ?di = "di\<lparr>i_size := sz\<rparr>"
  have sv: "slotval (?di, d) = slotval (di, d)"
  proof
    fix t show "slotval (?di, d) t = slotval (di, d) t" by (cases t) simp_all
  qed
  have mx: "i_size di \<le> MAX_SIZE" and dis: "distinct (blocks_of (di, d) (data_blocks di))"
    using inv by (simp_all add: file_inv_def inode_ok_def)
  have le: "data_blocks ?di \<le> data_blocks di" using sz mx by (simp add: data_blocks_def blocks_for_mono)
  have bl: "blocks_of (di, d) (data_blocks di) = blocks_of (?di, d) (data_blocks ?di) @ map (slotval (di, d)) (seg (data_blocks ?di) (data_blocks di))"
    unfolding blocks_of_def sv using slots_seg [OF le] by simp
  have "inode_ok (?di, d)" using inv dis bl sz by (simp add: file_inv_def inode_ok_def)
  moreover have "inode_fits ?di" using inv sz by (simp add: file_inv_def inode_fits_def)
  moreover have "set (blocks_of (?di, d) (data_blocks ?di)) \<subseteq> set (blocks_of (di, d) (data_blocks di))" unfolding bl by simp
  ultimately show "evolves fs (di, d) (?di, d)" using inv by (auto simp: evolves_def file_inv_def)
  have "file_byte (?di, d) p = file_byte (di, d) p" for p by (simp add: file_byte_def block_id_at_def sv)
  then show "file_bytes (?di, d) = take sz (file_bytes (di, d))" using sz by (simp add: file_bytes_def take_map)
qed

definition aremove :: "bytes \<Rightarrow> (bytes \<times> 'v) list \<Rightarrow> (bytes \<times> 'v) list" where
  "aremove nm l = (case position (\<lambda>p. fst p = nm) l of None \<Rightarrow> l | Some i \<Rightarrow> take i l @ drop (Suc i) l)"

lemma remove_directory_entry_ok:
  assumes fs: "fs_ok fs" and inv: "file_inv fs (di, d)" and sz: "i_size di = 32 * n" and dok: "dir_ok (entries (di, d))" and dir: "is_dir di"
  shows "\<exists>di' d'. remove_directory_entry nm di d = Some (nm \<in> fst ` set (alist_of (entries (di, d))), di', d')
    \<and> evolves fs (di, d) (di', d') \<and> inode_type di' = inode_type di \<and> (\<exists>m \<le> n. i_size di' = 32 * m) \<and> dir_ok (entries (di', d'))
    \<and> allocated (data_bitmap fs) d' = allocated (data_bitmap fs) d \<and> alist_of (entries (di', d')) = aremove nm (alist_of (entries (di, d)))"
proof (cases "position (\<lambda>p. fst p = nm) (alist_of (entries (di, d)))")
  case None
  have "find_dirent di nm d [0..<file_count di] = Some None" using find_all_ok [OF _ dok, of nm] inv unfolding file_inv_def None by simp
  moreover have "nm \<notin> fst ` set (alist_of (entries (di, d)))" using None by auto
  ultimately have "remove_directory_entry nm di d = Some (nm \<in> fst ` set (alist_of (entries (di, d))), di, d)"
    using dir by (simp add: remove_directory_entry_def Let_def)
  moreover have "aremove nm (alist_of (entries (di, d))) = alist_of (entries (di, d))" unfolding aremove_def None by simp
  ultimately show ?thesis using evolves_refl [OF inv] sz dok by auto
next
  case (Some i)
  let ?es = "entries (di, d)"
  have n: "file_count di = n" "length ?es = n" using sz by (simp_all add: file_count_def DIRENT_SZ_def)
  have i: "i < n" and mem: "nm \<in> fst ` set (alist_of ?es)" using position_SomeD [OF Some] n(2) by (auto simp: alist_of_def)
  have fd: "find_dirent di nm d [0..<n] = Some (Some (i, snd (alist_of ?es ! i)))"
    using find_all_ok [OF _ dok, of nm] inv n unfolding file_inv_def Some by simp
  from shift_dirents_ok [OF fs inv sz i] obtain d1 where s: "shift_dirents di d [i..<n - 1] = Some d1" "evolves fs (di, d) (di, d1)"
    "allocated (data_bitmap fs) d1 = allocated (data_bitmap fs) d" "entries (di, d1) = take i ?es @ drop (Suc i) ?es @ [last ?es]" by blast
  have inv1: "file_inv fs (di, d1)" using s(2) by (simp add: evolves_def)
  have n1: "n - 1 < n" using i by simp
  from write_dirent_ok [OF fs inv1 empty_wf sz n1] obtain d2 where
    w: "inode_write_at di (DIRENT_SZ * (n - 1)) (dir_entry_as_bytes dir_entry_empty) d1 = Some (32, d2)" "evolves fs (di, d1) (di, d2)"
      "entries (di, d2) = (entries (di, d1))[n - 1 := dir_entry_empty]" "allocated (data_bitmap fs) d2 = allocated (data_bitmap fs) d1" by blast
  have inv2: "file_inv fs (di, d2)" using w(2) by (simp add: evolves_def)
  have le: "32 * (n - 1) \<le> i_size di" using sz by simp
  let ?di = "di\<lparr>i_size := 32 * (n - 1)\<rparr>"
  note sh = shrink_ok [OF inv2 le]
  have es: "entries (?di, d2) = take i ?es @ drop (Suc i) ?es"
  proof -
    have "entries (?di, d2) = take (n - 1) (entries (di, d2))"
      unfolding entries_def sh(2) using sz chunks_take [of "file_bytes (di, d2)" n "n - 1"] by simp
    also have "\<dots> = take i ?es @ drop (Suc i) ?es" unfolding w(3) s(4)
      using take_update_snoc [of "take i ?es @ drop (Suc i) ?es" "n - 1" "last ?es" dir_entry_empty] i n(2) by simp
    finally show ?thesis .
  qed
  have "i_size di \<le> MAX_SIZE" using inv by (simp add: file_inv_def inode_ok_def)
  then have "(n - 1) * DIRENT_SZ mod 2 ^ 32 = 32 * (n - 1)" using sz by (simp add: DIRENT_SZ_def MAX_SIZE_def MAX_BLOCKS_def BLOCK_SZ_def)
  then have "remove_directory_entry nm di d = Some (True, ?di, d2)"
    unfolding remove_directory_entry_def Let_def n(1) by (simp add: dir fd s(1) [simplified] w(1) [simplified] del: power_numeral)
  moreover have "dir_ok (entries (?di, d2))" using dok unfolding es by (auto simp: dir_ok_def dest: in_set_takeD in_set_dropD)
  moreover have "alist_of (entries (?di, d2)) = aremove nm (alist_of ?es)"
    unfolding es aremove_def Some by (simp add: alist_of_def take_map drop_map)
  ultimately show ?thesis using evolves_trans [OF fs evolves_trans [OF fs s(2) w(2)] sh(1)] s(3) w(4) n1 mem
    by (intro exI [of _ ?di] exI [of _ d2]) auto
qed

subsection \<open>The directory operations refine an association list\<close>

definition dir_inv :: "easy_file_system \<Rightarrow> inode \<Rightarrow> disk \<Rightarrow> bool" where
  "dir_inv fs self d \<longleftrightarrow> inode_inv fs self d \<and> is_dir (node self d) \<and> i_size (node self d) mod 32 = 0
     \<and> dir_ok (entries (node self d, d))"

definition listing :: "inode \<Rightarrow> disk \<Rightarrow> (bytes \<times> nat) list" where
  "listing self d = alist_of (entries (node self d, d))"

definition room :: "easy_file_system \<Rightarrow> inode \<Rightarrow> nat \<Rightarrow> disk \<Rightarrow> bool" where
  "room fs self n d \<longleftrightarrow> i_size (node self d) + 32 * n \<le> MAX_SIZE \<and> 3 * n \<le> free_blocks fs d"

lemma find_ok: "dir_inv fs self d \<Longrightarrow> find_inode_id nm (node self d) d = Some (map_of (listing self d) nm)"
  by (simp add: dir_inv_def inode_inv_def file_inv_def find_inode_id_ok listing_def)

lemma read_node: "dir_inv fs self d \<Longrightarrow> read_disk_inode self d = Some (node self d)"
  by (auto simp: dir_inv_def inode_inv_def intro: read_disk_inode_ok)

text \<open>Growing an inode keeps its parent.\<close>

lemma increase_size_parent: "increase_size di new_size v d = Some (di', d') \<Longrightarrow> parent_inode di' = parent_inode di"
  by (auto simp: increase_size_def Let_def bind_Some_conv split: if_splits)

lemma append_dirent_parent: "append_dirent fs nm ino di d = Some ((), di', d') \<Longrightarrow> parent_inode di' = parent_inode di"
  by (auto simp: append_dirent_def vfs_increase_size_def Let_def bind_Some_conv dest: increase_size_parent split: if_splits)

lemma append_modify_ok:
  assumes fs: "fs_ok fs" and dir: "dir_inv fs self d" and room: "room fs self (Suc n) d" and nm: "name_ok nm" "ino < 2 ^ 32"
  shows "\<exists>d'. modify_disk_inode self (append_dirent fs nm ino) d = Some ((), d') \<and> dir_inv fs self d' \<and> room fs self n d'
    \<and> listing self d' = listing self d @ [(nm, ino)] \<and> others_kept fs self d d'
    \<and> parent_inode (node self d') = parent_inode (node self d)"
proof -
  let ?di = "node self d"
  have inv: "file_inv fs (?di, d)" using dir by (simp add: dir_inv_def inode_inv_def)
  obtain m where m: "i_size ?di = 32 * m" using dir by (auto simp: dir_inv_def mod_eq_0_iff_dvd)
  have le: "32 * m + 32 \<le> MAX_SIZE" "3 \<le> free_blocks fs d" using room m by (simp_all add: room_def)
  from append_dirent_ok [OF fs inv m le nm] dir obtain di' d1 where a: "append_dirent fs nm ino ?di d = Some ((), di', d1)"
    "evolves fs (?di, d) (di', d1)" "i_size di' = 32 * m + 32" "inode_type di' = inode_type ?di" "dir_ok (entries (di', d1))"
    "free_blocks fs d \<le> free_blocks fs d1 + 3" "alist_of (entries (di', d1)) = alist_of (entries (?di, d)) @ [(nm, ino)]"
    by (auto simp: dir_inv_def)
  have ii: "inode_inv fs self d" using dir by (simp add: dir_inv_def)
  from modify_disk_inode_ok [OF fs ii, of "append_dirent fs nm ino", OF a(1,2)] obtain d' where d': "modify_disk_inode self (append_dirent fs nm ino) d = Some ((), d')"
    "node self d' = di'" "inode_inv fs self d'" "contents self d' = file_bytes (di', d1)" "free_blocks fs d' = free_blocks fs d1"
    "others_kept fs self d d'" by blast
  have "entries (node self d', d') = entries (di', d1)" using d'(4) by (simp add: entries_def contents_def)
  then show ?thesis using a d' dir room m append_dirent_parent [OF a(1)] by (auto simp: dir_inv_def listing_def is_dir_def room_def)
qed

lemma remove_modify_ok:
  assumes fs: "fs_ok fs" and dir: "dir_inv fs self d" and room: "room fs self n d"
  shows "\<exists>d'. modify_disk_inode self (remove_directory_entry nm) d = Some (nm \<in> fst ` set (listing self d), d') \<and> dir_inv fs self d'
    \<and> room fs self n d' \<and> listing self d' = aremove nm (listing self d) \<and> others_kept fs self d d' \<and> owned fs d' = owned fs d"
proof -
  let ?di = "node self d"
  have inv: "file_inv fs (?di, d)" using dir by (simp add: dir_inv_def inode_inv_def)
  obtain m where m: "i_size ?di = 32 * m" using dir by (auto simp: dir_inv_def mod_eq_0_iff_dvd)
  from remove_directory_entry_ok [OF fs inv m, of nm] dir obtain di' d1 k where
    a: "remove_directory_entry nm ?di d = Some (nm \<in> fst ` set (alist_of (entries (?di, d))), di', d1)" "evolves fs (?di, d) (di', d1)"
      "inode_type di' = inode_type ?di" "k \<le> m" "i_size di' = 32 * k" "dir_ok (entries (di', d1))" "allocated (data_bitmap fs) d1 = allocated (data_bitmap fs) d"
      "alist_of (entries (di', d1)) = aremove nm (alist_of (entries (?di, d)))" by (auto simp: dir_inv_def)
  have ii: "inode_inv fs self d" using dir by (simp add: dir_inv_def)
  from modify_disk_inode_ok [OF fs ii, of "remove_directory_entry nm", OF a(1,2)] obtain d' where
    d': "modify_disk_inode self (remove_directory_entry nm) d = Some (nm \<in> fst ` set (alist_of (entries (?di, d))), d')"
      "node self d' = di'" "inode_inv fs self d'" "contents self d' = file_bytes (di', d1)" "free_blocks fs d' = free_blocks fs d1"
      "others_kept fs self d d'" "owned fs d' = owned fs d1" by blast
  have "entries (node self d', d') = entries (di', d1)" using d'(4) by (simp add: entries_def contents_def)
  moreover have "owned fs d1 = owned fs d" "free_blocks fs d1 = free_blocks fs d" using a(7) by (simp_all add: owned_def free_blocks_def)
  ultimately show ?thesis using a d' dir room m by (auto simp: dir_inv_def listing_def is_dir_def room_def)
qed

datatype dir_op = DFind bytes | DLink bytes nat | DRename bytes bytes | DDetach bytes
datatype dir_result = RFind "inode option" | RDone bool

fun dir_step :: "easy_file_system \<Rightarrow> inode \<Rightarrow> disk \<times> dir_result list \<Rightarrow> dir_op \<Rightarrow> (disk \<times> dir_result list) outcome" where
  "dir_step fs self (d, log) (DFind nm) = do { r \<leftarrow> vfs_find fs self nm d; Some (d, log @ [RFind r]) }"
| "dir_step fs self (d, log) (DLink nm ino) = do { (b, d') \<leftarrow> vfs_link fs self nm ino d; Some (d', log @ [RDone b]) }"
| "dir_step fs self (d, log) (DRename a b) = do { (r, d') \<leftarrow> vfs_rename fs self a b d; Some (d', log @ [RDone r]) }"
| "dir_step fs self (d, log) (DDetach nm) = do { (b, d') \<leftarrow> vfs_detach self nm d; Some (d', log @ [RDone b]) }"

fun alist_step :: "easy_file_system \<Rightarrow> (bytes \<times> nat) list \<times> dir_result list \<Rightarrow> dir_op \<Rightarrow> ((bytes \<times> nat) list \<times> dir_result list) outcome" where
  "alist_step fs (l, log) (DFind nm) = Some (l, log @ [RFind (map_option (inode_at fs) (map_of l nm))])"
| "alist_step fs (l, log) (DLink nm ino) =
     (if reserved nm \<or> map_of l nm \<noteq> None then Some (l, log @ [RDone False]) else Some (l @ [(nm, ino)], log @ [RDone True]))"
| "alist_step fs (l, log) (DRename a b) =
     (if reserved a \<or> reserved b \<or> map_of l b \<noteq> None then Some (l, log @ [RDone False])
      else case map_of l a of None \<Rightarrow> Some (l, log @ [RDone False])
        | Some ino \<Rightarrow> Some (aremove a (l @ [(b, ino)]), log @ [RDone True]))"
| "alist_step fs (l, log) (DDetach nm) =
     (if reserved nm then Some (l, log @ [RDone False]) else Some (aremove nm l, log @ [RDone (map_of l nm \<noteq> None)]))"

fun dir_allowed :: "dir_op \<Rightarrow> bool" where
  "dir_allowed (DLink nm ino) \<longleftrightarrow> name_ok nm \<and> ino < 2 ^ 32"
| "dir_allowed (DRename a b) \<longleftrightarrow> name_ok b"
| "dir_allowed _ \<longleftrightarrow> True"

definition dir_state_inv :: "easy_file_system \<Rightarrow> inode \<Rightarrow> disk \<Rightarrow> nat \<Rightarrow> disk \<times> dir_result list \<Rightarrow> bool" where
  "dir_state_inv fs self d0 n s \<longleftrightarrow> fs_ok fs \<and> dir_inv fs self (fst s) \<and> room fs self n (fst s) \<and> others_kept fs self d0 (fst s)"

lemma listing_bound: "dir_inv fs self d \<Longrightarrow> map_of (listing self d) nm = Some ino \<Longrightarrow> ino < 2 ^ 32"
  by (auto dest!: map_of_SomeD chunks_wf simp: listing_def alist_of_def entries_def entry_wf_def)

lemma map_of_mem: "map_of l nm = None \<longleftrightarrow> nm \<notin> fst ` set l"
  by (rule map_of_eq_None_iff)

lemma room_mono: "room fs self (Suc n) d \<Longrightarrow> room fs self n d"
  by (simp add: room_def)

interpretation directory: simulation "dir_step fs self" "alist_step fs" "\<lambda>(d, log). (listing self d, log)"
  "dir_state_inv fs self d0" 1 dir_allowed for fs self d0
proof (unfold_locales, goal_cases)
  case (1 n s op a)
  obtain d log where s: "s = (d, log)" by (cases s)
  from 1 s have fs: "fs_ok fs" and dir: "dir_inv fs self d" and room: "room fs self (Suc n) d" and oth: "others_kept fs self d0 d"
    and al: "dir_allowed op" and st: "alist_step fs (listing self d, log) op = Some a" by (simp_all add: dir_state_inv_def)
  note room' = room_mono [OF room]
  have stay: "dir_state_inv fs self d0 n (d, l)" for l using fs dir room' oth by (simp add: dir_state_inv_def)
  have go: "dir_state_inv fs self d0 n (d', l)" if "dir_inv fs self d'" "room fs self n d'" "others_kept fs self d d'" for d' l
    using that fs others_kept_trans [OF oth] by (simp add: dir_state_inv_def)
  note rd = read_node [OF dir] and fd = find_ok [OF dir]
  show ?case
  proof (cases op)
    case (DFind nm)
    with st s stay show ?thesis by (auto simp: vfs_find_def rd fd)
  next
    case (DLink nm ino)
    show ?thesis
    proof (cases "reserved nm \<or> map_of (listing self d) nm \<noteq> None")
      case True
      with DLink st s stay show ?thesis by (auto simp: vfs_link_def rd fd)
    next
      case False
      from append_modify_ok [OF fs dir room, of nm ino] al DLink obtain d' where
        "modify_disk_inode self (append_dirent fs nm ino) d = Some ((), d')" "dir_inv fs self d'" "room fs self n d'"
        "listing self d' = listing self d @ [(nm, ino)]" "others_kept fs self d d'" by auto
      with DLink st s False go show ?thesis by (auto simp: vfs_link_def rd fd)
    qed
  next
    case (DDetach nm)
    from remove_modify_ok [OF fs dir room', of nm] obtain d' where
      "modify_disk_inode self (remove_directory_entry nm) d = Some (nm \<in> fst ` set (listing self d), d')" "dir_inv fs self d'"
      "room fs self n d'" "listing self d' = aremove nm (listing self d)" "others_kept fs self d d'" by blast
    with DDetach st s go stay show ?thesis by (cases "reserved nm") (auto simp: vfs_detach_def map_of_mem)
  next
    case (DRename x y)
    show ?thesis
    proof (cases "reserved x \<or> reserved y \<or> map_of (listing self d) y \<noteq> None \<or> map_of (listing self d) x = None")
      case True
      with DRename st s stay show ?thesis by (auto simp: vfs_rename_def rd fd split: option.splits if_splits)
    next
      case False
      then obtain ino where ino: "map_of (listing self d) x = Some ino" by blast
      from append_modify_ok [OF fs dir room, of y ino] al DRename listing_bound [OF dir ino] obtain d1 where
        a: "modify_disk_inode self (append_dirent fs y ino) d = Some ((), d1)" "dir_inv fs self d1" "room fs self n d1"
          "listing self d1 = listing self d @ [(y, ino)]" "others_kept fs self d d1" by auto
      from remove_modify_ok [OF fs a(2,3), of x] obtain d' b where
        "modify_disk_inode self (remove_directory_entry x) d1 = Some (b, d')" "dir_inv fs self d'" "room fs self n d'"
        "listing self d' = aremove x (listing self d1)" "others_kept fs self d1 d'" by blast
      with DRename st s False ino a go others_kept_trans [OF a(5)] show ?thesis by (auto simp: vfs_rename_def rd fd)
    qed
  qed
next
  case (2 n s op)
  obtain d log where s: "s = (d, log)" by (cases s)
  with 2 show ?case by (cases op) (auto split: if_splits option.splits)
qed

subsection \<open>Properties\<close>

text \<open>C8: a directory is an association list. Any sequence of lookups, links, renames and detachments
  in a directory with room for them never panics and returns what an association list from names to
  inode numbers returns: a link appends unless the name is reserved or taken, a lookup finds the
  first entry of the name, a rename gives the entry its new name, a removal deletes exactly that
  entry and keeps the order of the others. Every other inode keeps its contents. Room is counted in free bits
  of the data bitmap, on a disk without end.\<close>

theorem directory_refines_alist:
  assumes "fs_ok fs" "dir_inv fs self d" "room fs self (length ops) d" "\<forall>op \<in> set ops. dir_allowed op"
  shows "\<exists>l log d'. run (alist_step fs) (listing self d, []) ops = Some (l, log) \<and> run (dir_step fs self) (d, []) ops = Some (d', log)
    \<and> listing self d' = l \<and> dir_inv fs self d' \<and> others_kept fs self d d'"
proof -
  have "others_kept fs self d d" by (simp add: others_kept_def)
  with assms have inv: "dir_state_inv fs self d (length ops * 1) (d, [])" by (simp add: dir_state_inv_def)
  have total: "run (alist_step fs) (l, log) ops \<noteq> None" for l log
  proof (induction ops arbitrary: l log)
    case (Cons op ops)
    have "alist_step fs (l, log) op \<noteq> None" by (cases op) (auto split: option.splits)
    then obtain l' log' where "alist_step fs (l, log) op = Some (l', log')" by auto
    with Cons show ?case by simp
  qed simp
  from total obtain l log where r: "run (alist_step fs) (listing self d, []) ops = Some (l, log)" by force
  from directory.run_refines [OF inv assms(4)] r show ?thesis by (auto simp: dir_state_inv_def)
qed

lemma empty_directory:
  assumes "inode_inv fs self d" "node self d = disk_inode_initialize Directory"
  shows "dir_inv fs self d" "listing self d = []"
proof -
  have e: "entries (node self d, d) = []"
    unfolding assms(2) by (simp add: entries_def chunks_def file_bytes_def disk_inode_initialize_def)
  then show "listing self d = []" by (simp add: listing_def alist_of_def)
  show "dir_inv fs self d" unfolding dir_inv_def e using assms(1) unfolding assms(2)
    by (simp add: is_dir_def disk_inode_initialize_def dir_ok_def)
qed

theorem directory_refines_alist_witness:
  "\<exists>fs d d'. efs_create (\<lambda>_ _. 0) 2000 1 = Some (fs, d)
     \<and> run (dir_step fs (root_inode fs)) (d, []) [DLink [97] 7, DRename [97] [98], DFind [98], DDetach [99]]
         = Some (d', [RDone True, RDone True, RFind (Some (inode_at fs 7)), RDone False])
     \<and> listing (root_inode fs) d' = [([98], 7)]"
proof -
  let ?fs = "created_fs 2000 1" let ?ops = "[DLink [97] 7, DRename [97] [98], DFind [98], DDetach [99]]"
  obtain d where d: "efs_create (\<lambda>_ _. 0) 2000 1 = Some (?fs, d)" "fs_ok ?fs" "inode_inv ?fs (root_inode ?fs) d"
    "free_blocks ?fs d = 4096" "node (root_inode ?fs) d = disk_inode_initialize Directory" "allocated (inode_bitmap ?fs) d = {0}" by (rule example_fs)
  note dir = empty_directory(1) [OF d(3,5)] and l = empty_directory(2) [OF d(3,5)]
  have room: "room ?fs (root_inode ?fs) (length ?ops) d" unfolding room_def d(4,5)
    by (simp add: disk_inode_initialize_def MAX_SIZE_def MAX_BLOCKS_def BLOCK_SZ_def)
  have "\<forall>op \<in> set ?ops. dir_allowed op" by (simp add: name_ok_def NAME_LENGTH_LIMIT_def)
  from directory_refines_alist [OF d(2) dir room this] obtain l log d' where
    r: "run (alist_step ?fs) ([], []) ?ops = Some (l, log)" "run (dir_step ?fs (root_inode ?fs)) (d, []) ?ops = Some (d', log)"
      "listing (root_inode ?fs) d' = l" unfolding l by blast
  have "run (alist_step fs) ([], []) ?ops = Some ([([98], 7)], [RDone True, RDone True, RFind (Some (inode_at fs 7)), RDone False])" for fs
    by (simp add: reserved_def aremove_def)
  with r d(1) show ?thesis by auto
qed

end
