(* ===== verification/Namespace.thy ===== *)
theory Namespace
  imports Directory
begin

section \<open>Creating and unlinking\<close>

text \<open>
  The operations of easy-fs/src/vfs.rs that involve two inodes and the inode bitmap: \<^verbatim>\<open>create_as\<close>
  allocates and initializes an inode and links it, \<^verbatim>\<open>clear\<close> gives the blocks of an inode back, and
  \<^verbatim>\<open>unlink\<close> clears the target, frees its inode and removes the directory entry.
\<close>

subsection \<open>Giving blocks back\<close>

lemma dealloc_data_ok:
  assumes fs: "fs_ok fs" and b: "b \<in> owned fs d"
  shows "\<exists>d'. dealloc_data fs d b = Some d' \<and> owned fs d' = owned fs d - {b} \<and> (\<forall>x. x \<noteq> b \<and> \<not> in_bitmap fs x \<longrightarrow> d' x = d x)"
proof -
  let ?bm = "data_bitmap fs" let ?s = "data_area_start_block fs"
  from b obtain k where k: "b = k + ?s" "k < maximum ?bm" "bit_at ?bm d k" by (auto simp: owned_def allocated_def)
  note bb = owned_bounds [OF fs b]
  define d1 where "d1 = d(b := zero_block (d b))"
  have sub: "sub32 b ?s = k" using bb(1,2) k(1) by (simp add: sub32_le)
  have same: "bit_at ?bm d1 c = bit_at ?bm d c" if "c < maximum ?bm" for c
  proof -
    have "c div BLOCK_BITS < blocks ?bm" using that by (simp add: maximum_def less_mult_imp_div_less)
    then have "c div BLOCK_BITS + start_block_id ?bm \<noteq> b" using bb(3) by (auto simp: in_bitmap_def)
    then show ?thesis by (simp add: bit_at_def d1_def)
  qed
  have "bit_at ?bm d1 k" using same k by simp
  with bitmap_dealloc_ok [of ?bm d1 k] obtain d' where d': "bitmap_dealloc ?bm d1 k = Some d'"
    "\<And>c. bit_at ?bm d' c \<longleftrightarrow> bit_at ?bm d1 c \<and> c \<noteq> k" "\<And>x. x \<noteq> k div BLOCK_BITS + start_block_id ?bm \<Longrightarrow> d' x = d1 x" by auto
  have "allocated ?bm d' = allocated ?bm d - {k}" using d'(2) same by (auto simp: allocated_def)
  then have "owned fs d' = owned fs d - {b}" using k(1)
    by (simp add: owned_def image_set_diff inj_on_def)
  moreover have "in_bitmap fs (k div BLOCK_BITS + start_block_id ?bm)"
    using k(2) by (simp add: in_bitmap_def maximum_def less_mult_imp_div_less)
  then have "d' x = d x" if "x \<noteq> b" "\<not> in_bitmap fs x" for x using that d'(3) [of x] by (auto simp: d1_def)
  moreover have "dealloc_data fs d b = Some d'" using d'(1) sub by (simp add: dealloc_data_def d1_def)
  ultimately show ?thesis by blast
qed

lemma dealloc_datas_ok:
  assumes "fs_ok fs" "distinct v" "set v \<subseteq> owned fs d"
  shows "\<exists>d'. dealloc_datas fs v d = Some d' \<and> owned fs d' = owned fs d - set v
    \<and> (\<forall>x. x \<notin> set v \<and> \<not> in_bitmap fs x \<longrightarrow> d' x = d x)"
  using assms(2,3)
proof (induction v arbitrary: d)
  case (Cons b v)
  from dealloc_data_ok [OF assms(1), of b d] Cons.prems obtain d1 where
    d1: "dealloc_data fs d b = Some d1" "owned fs d1 = owned fs d - {b}" "\<And>x. x \<noteq> b \<Longrightarrow> \<not> in_bitmap fs x \<Longrightarrow> d1 x = d x" by auto
  have "distinct v" "set v \<subseteq> owned fs d1" using Cons.prems d1(2) by auto
  from Cons.IH [OF this] obtain d' where
    "dealloc_datas fs v d1 = Some d'" "owned fs d' = owned fs d1 - set v" "\<And>x. x \<notin> set v \<Longrightarrow> \<not> in_bitmap fs x \<Longrightarrow> d' x = d1 x" by blast
  with d1 show ?case by (intro exI [of _ d']) auto
qed simp

lemma clear_inode_ok:
  assumes fs: "fs_ok fs" and inv: "file_inv fs (di, d)"
  shows "\<exists>di' d'. clear_inode fs di d = Some ((), di', d') \<and> evolves fs (di, d) (di', d') \<and> i_size di' = 0
    \<and> inode_type di' = inode_type di \<and> owned fs d' = owned fs d - set (blocks_of (di, d) (data_blocks di))
    \<and> (\<forall>x. x < start_block_id (data_bitmap fs) \<longrightarrow> d' x = d x)"
proof -
  let ?B = "blocks_of (di, d) (data_blocks di)"
  have ok: "length (direct di) = 28" "data_blocks di \<le> MAX_BLOCKS" "distinct ?B" "set ?B \<subseteq> owned fs d" "inode_fits di"
    using inv by (simp_all add: file_inv_def inode_ok_def data_blocks_def blocks_for_bound)
  from clear_size_ok [OF ok(1,2), of d] obtain di' where c: "clear_size di d = Some (?B, di')" "i_size di' = 0" "length (direct di') = 28"
    "inode_type di' = inode_type di" "parent_inode di' = parent_inode di" "set (direct di') \<subseteq> insert 0 (set (direct di))"
    "indirect1 di' \<in> {0, indirect1 di}" "indirect2 di' \<in> {0, indirect2 di}" by blast
  from dealloc_datas_ok [OF fs ok(3,4)] obtain d' where
    r: "dealloc_datas fs ?B d = Some d'" "owned fs d' = owned fs d - set ?B" "\<And>x. x \<notin> set ?B \<Longrightarrow> \<not> in_bitmap fs x \<Longrightarrow> d' x = d x" by blast
  have "length ?B = total_blocks (i_size di)" by (simp add: blocks_of_def total_blocks_slots data_blocks_def)
  then have cl: "clear_inode fs di d = Some ((), di', d')" using c(1) r(1) by (simp add: clear_inode_def)
  have b0: "blocks_for 0 = 0" by (simp add: blocks_for_def BLOCK_SZ_def)
  have fits: "inode_fits di'" using ok(5) c by (auto simp: inode_fits_def)
  have inv': "file_inv fs (di', d')" using c(2,3) fits b0 by (simp add: file_inv_def inode_ok_def data_blocks_def blocks_of_def)
  have low: "x \<notin> set ?B \<and> \<not> in_bitmap fs x" if "x < start_block_id (data_bitmap fs)" for x
    using that ok(4) owned_bounds(2) [OF fs, of x d] fs by (auto simp: in_bitmap_def fs_ok_def)
  have keep: "d' x = d x" if "x \<in> owned fs d \<or> x < start_block_id (data_bitmap fs)" "x \<notin> set ?B" for x
    using that r(3) [of x] low [of x] owned_bounds(3) [OF fs, of x d] by blast
  have "evolves fs (di, d) (di', d')" unfolding evolves_def using inv' keep r(2) c(2) b0
    by (auto simp: data_blocks_def blocks_of_def)
  with cl c(2,4) r(2,3) low show ?thesis by blast
qed

subsection \<open>Inode numbers and positions\<close>

definition meta_ok :: "easy_file_system \<Rightarrow> bool" where
  "meta_ok fs \<longleftrightarrow> fs_ok fs \<and> start_block_id (inode_bitmap fs) + blocks (inode_bitmap fs) \<le> inode_area_start_block fs
     \<and> inode_area_start_block fs \<le> start_block_id (data_bitmap fs)"

definition valid_id :: "easy_file_system \<Rightarrow> nat \<Rightarrow> bool" where
  "valid_id fs k \<longleftrightarrow> inode_area_start_block fs + k div 3 < start_block_id (data_bitmap fs) \<and> k < 2 ^ 32"

lemma inode_at_eq:
  assumes "meta_ok fs" "valid_id fs k"
  shows "inode_at fs k = \<lparr>in_block_id = inode_area_start_block fs + k div 3, in_block_offset = k mod 3 * 132\<rparr>"
proof -
  have "inode_area_start_block fs + k div 3 < 2 ^ 32" using assms by (simp add: meta_ok_def fs_ok_def valid_id_def)
  then show ?thesis by (simp add: inode_at_def get_disk_inode_pos_def add32_def inodes_per_block_def BLOCK_SZ_def DISK_INODE_SZ_def)
qed

lemma offset_bound: "k mod 3 * 132 + 132 \<le> (396::nat)"
proof -
  have "k mod 3 \<le> 2" by simp
  then have "k mod 3 * 132 \<le> 2 * 132" by (rule mult_le_mono1)
  then show ?thesis by simp
qed

lemma handle_inode_at: "meta_ok fs \<Longrightarrow> valid_id fs k \<Longrightarrow> handle_ok fs (inode_at fs k)"
  using offset_bound [of k] by (simp add: inode_at_eq handle_ok_def valid_id_def DISK_INODE_SZ_def BLOCK_SZ_def)

lemma inode_number_inode_at:
  assumes "meta_ok fs" "valid_id fs k"
  shows "inode_number_of fs (inode_at fs k) = k"
proof -
  have a: "inode_area_start_block fs + k div 3 < 2 ^ 32" using assms by (simp add: meta_ok_def fs_ok_def valid_id_def)
  have s: "sub32 (inode_area_start_block fs + k div 3) (inode_area_start_block fs) = k div 3" using a by (simp add: sub32_le)
  have o: "k mod 3 * 132 mod 2 ^ 32 div 132 = k mod 3" using offset_bound [of k] by simp
  have "k div 3 * 3 + k mod 3 = k" by simp
  moreover have "k < 2 ^ 32" using assms(2) by (simp add: valid_id_def)
  ultimately show ?thesis using a s o
    by (simp add: inode_at_eq [OF assms] inode_number_of_def inodes_per_block_def BLOCK_SZ_def DISK_INODE_SZ_def add32_def)
qed

lemma inode_at_apart:
  assumes "meta_ok fs" "valid_id fs j" "valid_id fs k" "j \<noteq> k"
  shows "in_block_id (inode_at fs j) \<noteq> in_block_id (inode_at fs k) \<or> in_block_offset (inode_at fs j) + DISK_INODE_SZ \<le> in_block_offset (inode_at fs k)
    \<or> in_block_offset (inode_at fs k) + DISK_INODE_SZ \<le> in_block_offset (inode_at fs j)"
proof (cases "j div 3 = k div 3")
  case True
  with assms(4) have ne: "j mod 3 \<noteq> k mod 3" by (metis div_mod_decomp)
  have "(a + 1) * 132 \<le> b * 132" if "a < b" for a b :: nat using that by (intro mult_le_mono1) simp
  with ne have "(j mod 3 + 1) * 132 \<le> k mod 3 * 132 \<or> (k mod 3 + 1) * 132 \<le> j mod 3 * 132" by (metis linorder_neqE_nat)
  then show ?thesis using assms by (auto simp: inode_at_eq DISK_INODE_SZ_def add.commute)
qed (use assms in \<open>simp add: inode_at_eq\<close>)

subsection \<open>Changes before the data bitmap\<close>

text \<open>A change of blocks before the inode area (the inode bitmap) is invisible to every inode.\<close>

lemma low_change:
  assumes meta: "meta_ok fs" and inv: "inode_inv fs self d" and area: "inode_area_start_block fs \<le> in_block_id self"
    and same: "\<And>x. inode_area_start_block fs \<le> x \<Longrightarrow> d' x = d x"
  shows "node self d' = node self d" "inode_inv fs self d'" "contents self d' = contents self d" "node_blocks self d' = node_blocks self d"
    "owned fs d' = owned fs d" "free_blocks fs d' = free_blocks fs d"
proof -
  have fs: "fs_ok fs" using meta by (simp add: meta_ok_def)
  let ?di = "node self d"
  have fi: "file_inv fs (?di, d)" using inv by (simp add: inode_inv_def)
  show n: "node self d' = ?di" using same [OF area] by (simp add: node_def)
  have "d' x = d x" if "in_bitmap fs x" for x using that meta by (intro same) (simp add: in_bitmap_def meta_ok_def)
  note oc = owned_cong [of fs d' d, OF this]
  show "owned fs d' = owned fs d" "free_blocks fs d' = free_blocks fs d" using oc by simp_all
  have "d' x = d x" if "x \<in> set (blocks_of (?di, d) (data_blocks ?di))" for x
  proof (rule same)
    have "x \<in> owned fs d" using that fi by (auto simp: file_inv_def)
    with owned_bounds(2) [OF fs] meta show "inode_area_start_block fs \<le> x" by (fastforce simp: meta_ok_def fs_ok_def)
  qed
  note c = file_cong [of ?di d d', OF this]
  show "inode_inv fs self d'" using inv c(1,2) oc(1) n by (simp add: inode_inv_def file_inv_def)
  show "contents self d' = contents self d" using fi c(3) n by (simp add: contents_def file_inv_def)
  show "node_blocks self d' = node_blocks self d" using c(1) n by (simp add: node_blocks_def)
qed

lemma low_change_dir:
  assumes "meta_ok fs" "dir_inv fs self d" "inode_area_start_block fs \<le> in_block_id self" "\<And>x. inode_area_start_block fs \<le> x \<Longrightarrow> d' x = d x"
  shows "dir_inv fs self d'" "listing self d' = listing self d" "room fs self n d' = room fs self n d"
proof -
  have "inode_inv fs self d" using assms(2) by (simp add: dir_inv_def)
  note l = low_change [OF assms(1) this assms(3,4)]
  have e: "entries (node self d', d') = entries (node self d, d)" using l(1,3) by (simp add: entries_def contents_def)
  show "dir_inv fs self d'" using assms(2) l(1,2) e by (simp add: dir_inv_def)
  show "listing self d' = listing self d" using e by (simp add: listing_def)
  show "room fs self n d' = room fs self n d" using l(1,6) by (simp add: room_def)
qed

lemma alloc_inode_ok:
  assumes meta: "meta_ok fs" and free: "\<exists>k < maximum (inode_bitmap fs). k \<notin> allocated (inode_bitmap fs) d" and m: "maximum (inode_bitmap fs) \<le> 2 ^ 32"
  shows "\<exists>k d'. alloc_inode fs d = Some (k, d') \<and> k < maximum (inode_bitmap fs) \<and> k \<notin> allocated (inode_bitmap fs) d
    \<and> allocated (inode_bitmap fs) d' = insert k (allocated (inode_bitmap fs) d)
    \<and> (\<forall>j \<in> {..<maximum (inode_bitmap fs)} - allocated (inode_bitmap fs) d. k \<le> j)
    \<and> (\<forall>x. inode_area_start_block fs \<le> x \<longrightarrow> d' x = d x)"
proof -
  let ?bm = "inode_bitmap fs"
  obtain r d' where r: "bitmap_alloc ?bm d = (r, d')" by (cases "bitmap_alloc ?bm d")
  note ok = bitmap_alloc_ok [OF r]
  show ?thesis
  proof (cases r)
    case None
    with ok free show ?thesis by (auto simp: allocated_def)
  next
    case (Some k)
    with ok have k: "k < maximum ?bm" "\<not> bit_at ?bm d k" "\<And>c. c < k \<Longrightarrow> bit_at ?bm d c"
      "\<And>c. bit_at ?bm d' c \<longleftrightarrow> bit_at ?bm d c \<or> c = k"
      "\<And>x. x < start_block_id ?bm \<or> start_block_id ?bm + blocks ?bm \<le> x \<Longrightarrow> d' x = d x" by auto
    have "alloc_inode fs d = Some (k, d')" using r Some k(1) m by (simp add: alloc_inode_def)
    moreover have "allocated ?bm d' = insert k (allocated ?bm d)" "k \<notin> allocated ?bm d" using k by (auto simp: allocated_def)
    moreover have "k \<le> j" if "j \<in> {..<maximum ?bm} - allocated ?bm d" for j using that k(3) by (auto simp: allocated_def not_less [symmetric])
    moreover have "d' x = d x" if "inode_area_start_block fs \<le> x" for x using that meta k(5) by (auto simp: meta_ok_def)
    ultimately show ?thesis using k(1) by blast
  qed
qed

subsection \<open>Creating\<close>

lemma others_keptD:
  assumes "others_kept fs self d d'"
  shows "x < start_block_id (data_bitmap fs) \<Longrightarrow> x \<noteq> in_block_id self \<Longrightarrow> d' x = d x"
    and "inode_inv fs other d \<Longrightarrow> apart self other d \<Longrightarrow>
      inode_inv fs other d' \<and> apart self other d' \<and> node other d' = node other d \<and> contents other d' = contents other d"
  using assms by (simp_all add: others_kept_def)

lemma inode_bits_cong:
  assumes meta: "meta_ok fs" and same: "\<And>x. x < inode_area_start_block fs \<Longrightarrow> d' x = d x"
  shows "allocated (inode_bitmap fs) d' = allocated (inode_bitmap fs) d"
proof -
  have "bit_at (inode_bitmap fs) d' b = bit_at (inode_bitmap fs) d b" if "b < maximum (inode_bitmap fs)" for b
  proof -
    have "b div BLOCK_BITS < blocks (inode_bitmap fs)" using that by (simp add: maximum_def less_mult_imp_div_less)
    with meta same [of "b div BLOCK_BITS + start_block_id (inode_bitmap fs)"] show ?thesis by (simp add: bit_at_def meta_ok_def)
  qed
  then show ?thesis by (auto simp: allocated_def)
qed

lemma init_inode_ok:
  fixes ty :: disk_inode_type
  assumes meta: "meta_ok fs" and ids: "valid_id fs p" "valid_id fs k" "p \<noteq> k" and dir: "dir_inv fs (inode_at fs p) d" and p: "p < 2 ^ 32"
  defines "x \<equiv> (disk_inode_initialize ty)\<lparr>parent_inode := p\<rparr>"
  shows "\<exists>d'. modify_disk_inode (inode_at fs k) (\<lambda>di d. Some ((), x, d)) d = Some ((), d') \<and> node (inode_at fs k) d' = x
    \<and> inode_inv fs (inode_at fs k) d' \<and> apart (inode_at fs p) (inode_at fs k) d' \<and> dir_inv fs (inode_at fs p) d'
    \<and> listing (inode_at fs p) d' = listing (inode_at fs p) d \<and> room fs (inode_at fs p) n d' = room fs (inode_at fs p) n d
    \<and> (\<forall>y. y < inode_area_start_block fs \<longrightarrow> d' y = d y) \<and> node (inode_at fs p) d' = node (inode_at fs p) d"
proof -
  let ?s = "inode_at fs p" let ?t = "inode_at fs k" let ?b = "in_block_id ?t"
  have fs: "fs_ok fs" using meta by (simp add: meta_ok_def)
  have h: "handle_ok fs ?t" by (rule handle_inode_at [OF meta ids(2)])
  then have low: "?b < start_block_id (data_bitmap fs)" by (simp add: handle_ok_def)
  define d' where "d' = d(?b := put_disk_inode (d ?b) (in_block_offset ?t) x)"
  have m: "modify_disk_inode ?t (\<lambda>di d. Some ((), x, d)) d = Some ((), d')"
    by (simp add: modify_disk_inode_def read_disk_inode_ok [OF h] d'_def)
  have fits: "inode_fits x" "length (direct x) = 28" using p by (simp_all add: x_def inode_fits_def disk_inode_initialize_def)
  have nt: "node ?t d' = x" by (simp add: node_def d'_def get_put_disk_inode [OF fits(1)])
  have z: "i_size x = 0" "blocks_for 0 = 0" by (simp_all add: x_def disk_inode_initialize_def blocks_for_def BLOCK_SZ_def)
  then have nb: "node_blocks ?t d' = {}" by (simp add: node_blocks_def nt data_blocks_def blocks_of_def)
  have it: "inode_inv fs ?t d'" using h fits z by (simp add: inode_inv_def nt file_inv_def inode_ok_def data_blocks_def blocks_of_def)
  have fi: "file_inv fs (node ?s d, d)" using dir by (simp add: dir_inv_def inode_inv_def)
  note u = file_inv_low_update [OF fs fi low, of "put_disk_inode (d ?b) (in_block_offset ?t) x", folded d'_def]
  have ns: "node ?s d' = node ?s d" unfolding node_def using inode_at_apart [OF meta ids] put_disk_inode_byte [OF fits(2)]
    by (intro get_disk_inode_cong) (auto simp: d'_def)
  have e: "entries (node ?s d', d') = entries (node ?s d, d)" using u(2) by (simp add: entries_def ns)
  have "dir_inv fs ?s d'" using dir u(1) e by (simp add: dir_inv_def inode_inv_def ns)
  moreover have "apart ?s ?t d'" using inode_at_apart [OF meta ids] nb by (simp add: apart_def)
  moreover have "d' y = d y" if "y < inode_area_start_block fs" for y using that ids(2) by (simp add: d'_def inode_at_eq [OF meta])
  ultimately show ?thesis using m nt it e u(5) by (intro exI [of _ d']) (simp add: listing_def room_def ns)
qed

lemma create_as_ok:
  assumes meta: "meta_ok fs" and self: "valid_id fs p" "p \<in> allocated (inode_bitmap fs) d" and dir: "dir_inv fs (inode_at fs p) d"
    and room: "room fs (inode_at fs p) 1 d" and nm: "name_ok nm" "\<not> reserved nm" "map_of (listing (inode_at fs p) d) nm = None"
    and free: "k0 < maximum (inode_bitmap fs)" "k0 \<notin> allocated (inode_bitmap fs) d" "valid_id fs k0" and mx: "maximum (inode_bitmap fs) \<le> 2 ^ 32"
  shows "\<exists>k d'. create_as fs (inode_at fs p) nm ty d = Some (Some (inode_at fs k), d') \<and> k \<notin> allocated (inode_bitmap fs) d
    \<and> allocated (inode_bitmap fs) d' = insert k (allocated (inode_bitmap fs) d)
    \<and> dir_inv fs (inode_at fs p) d' \<and> listing (inode_at fs p) d' = listing (inode_at fs p) d @ [(nm, k)]
    \<and> inode_inv fs (inode_at fs k) d' \<and> contents (inode_at fs k) d' = []
    \<and> node (inode_at fs k) d' = (disk_inode_initialize ty)\<lparr>parent_inode := p\<rparr> \<and> valid_id fs k \<and> apart (inode_at fs p) (inode_at fs k) d'
    \<and> parent_inode (node (inode_at fs p) d') = parent_inode (node (inode_at fs p) d)"
proof -
  let ?s = "inode_at fs p"
  have fs: "fs_ok fs" using meta by (simp add: meta_ok_def)
  have area: "inode_area_start_block fs \<le> in_block_id ?s" using inode_at_eq [OF meta self(1)] by simp
  have p32: "p < 2 ^ 32" using self(1) by (simp add: valid_id_def)
  let ?f = "\<lambda>di d. do { _ \<leftarrow> ensure (is_dir di); r \<leftarrow> find_inode_id nm di d; Some (r, di, d) }"
  have ii: "inode_inv fs ?s d" "file_inv fs (node ?s d, d)" using dir by (simp_all add: dir_inv_def inode_inv_def)
  have f: "?f (node ?s d) d = Some (None, node ?s d, d)" using dir find_ok [OF dir, of nm] nm(3) by (simp add: dir_inv_def)
  from modify_disk_inode_ok [OF fs ii(1), of ?f, OF f evolves_refl [OF ii(2)]] obtain d1 where
    d1: "modify_disk_inode ?s ?f d = Some (None, d1)" "node ?s d1 = node ?s d" "inode_inv fs ?s d1"
      "contents ?s d1 = contents ?s d" "free_blocks fs d1 = free_blocks fs d" "others_kept fs ?s d d1" by (auto simp: contents_def)
  have e1: "entries (node ?s d1, d1) = entries (node ?s d, d)" using d1(2,4) by (simp add: entries_def contents_def)
  have dir1: "dir_inv fs ?s d1" "listing ?s d1 = listing ?s d" "room fs ?s 1 d1"
    using dir d1 e1 room by (simp_all add: dir_inv_def listing_def room_def)
  have bits: "allocated (inode_bitmap fs) d1 = allocated (inode_bitmap fs) d"
    using others_keptD(1) [OF d1(6)] area meta by (intro inode_bits_cong [OF meta]) (auto simp: meta_ok_def)
  have "\<exists>k < maximum (inode_bitmap fs). k \<notin> allocated (inode_bitmap fs) d1" using free(1,2) bits by auto
  from alloc_inode_ok [OF meta this mx] obtain k d2 where d2: "alloc_inode fs d1 = Some (k, d2)" "k < maximum (inode_bitmap fs)"
    "k \<notin> allocated (inode_bitmap fs) d1" "allocated (inode_bitmap fs) d2 = insert k (allocated (inode_bitmap fs) d1)"
    "\<forall>j \<in> {..<maximum (inode_bitmap fs)} - allocated (inode_bitmap fs) d1. k \<le> j" "\<And>x. inode_area_start_block fs \<le> x \<Longrightarrow> d2 x = d1 x" by blast
  have "k \<le> k0" using d2(5) free(1,2) bits by auto
  then have vk: "valid_id fs k" using free(3) div_le_mono [of k k0 3] by (simp add: valid_id_def)
  have pk: "p \<noteq> k" using self(2) d2(3) bits by auto
  note l2 = low_change_dir [OF meta dir1(1) area d2(6)]
  from init_inode_ok [OF meta self(1) vk pk l2(1) p32, of ty 1] obtain d3 where
    d3: "modify_disk_inode (inode_at fs k) (\<lambda>di d. Some ((), (disk_inode_initialize ty)\<lparr>parent_inode := p\<rparr>, d)) d2 = Some ((), d3)"
      "node (inode_at fs k) d3 = (disk_inode_initialize ty)\<lparr>parent_inode := p\<rparr>" "inode_inv fs (inode_at fs k) d3"
      "apart ?s (inode_at fs k) d3" "dir_inv fs ?s d3" "listing ?s d3 = listing ?s d2" "room fs ?s 1 d3 = room fs ?s 1 d2"
      "\<And>y. y < inode_area_start_block fs \<Longrightarrow> d3 y = d2 y" "node ?s d3 = node ?s d2" by blast
  have r3: "room fs ?s (Suc 0) d3" and k32: "k < 2 ^ 32" using d3(7) l2(3) dir1(3) vk by (simp_all add: valid_id_def)
  from append_modify_ok [OF fs d3(5) r3 nm(1) k32] obtain d4 where
    d4: "modify_disk_inode ?s (append_dirent fs nm k) d3 = Some ((), d4)" "dir_inv fs ?s d4"
      "listing ?s d4 = listing ?s d3 @ [(nm, k)]" "others_kept fs ?s d3 d4"
      "parent_inode (node ?s d4) = parent_inode (node ?s d3)" by blast
  note ot = others_keptD(2) [OF d4(4) d3(3,4)]
  have "allocated (inode_bitmap fs) d4 = allocated (inode_bitmap fs) d3"
    using others_keptD(1) [OF d4(4)] area meta by (intro inode_bits_cong [OF meta]) (auto simp: meta_ok_def)
  moreover have "allocated (inode_bitmap fs) d3 = allocated (inode_bitmap fs) d2" using d3(8) by (intro inode_bits_cong [OF meta])
  moreover have "contents (inode_at fs k) d3 = []" by (simp add: contents_def d3(2) file_bytes_def disk_inode_initialize_def)
  moreover have "create_as fs ?s nm ty d = Some (Some (inode_at fs k), d4)"
    using nm(2) d1(1) d2(1) d3(1) d4(1) inode_number_inode_at [OF meta self(1)] by (simp add: create_as_def Let_def)
  moreover have "node ?s d2 = node ?s d1" by (rule low_change(1) [OF meta d1(3) area d2(6)])
  ultimately show ?thesis using d2(3,4) bits d4(2,3,5) d3(2,6,9) l2(2) dir1(2) ot vk d1(2) by (intro exI [of _ k] exI [of _ d4]) simp
qed

subsection \<open>Unlinking\<close>

lemma apart_sym: "apart a b d \<Longrightarrow> apart b a d"
  by (auto simp: apart_def)

lemma dealloc_inode_ok:
  assumes meta: "meta_ok fs" and k: "k \<in> allocated (inode_bitmap fs) d"
  shows "\<exists>d'. dealloc_inode fs d k = Some d' \<and> allocated (inode_bitmap fs) d' = allocated (inode_bitmap fs) d - {k}
    \<and> (\<forall>x. inode_area_start_block fs \<le> x \<longrightarrow> d' x = d x)"
proof -
  let ?bm = "inode_bitmap fs"
  have b: "k < maximum ?bm" "bit_at ?bm d k" using k by (simp_all add: allocated_def)
  with bitmap_dealloc_ok [of ?bm d k] obtain d' where d': "bitmap_dealloc ?bm d k = Some d'"
    "\<And>c. bit_at ?bm d' c \<longleftrightarrow> bit_at ?bm d c \<and> c \<noteq> k" "\<And>x. x \<noteq> k div BLOCK_BITS + start_block_id ?bm \<Longrightarrow> d' x = d x" by auto
  have "k div BLOCK_BITS < blocks ?bm" using b(1) by (simp add: maximum_def less_mult_imp_div_less)
  then have "d' x = d x" if "inode_area_start_block fs \<le> x" for x using that d'(3) [of x] meta by (auto simp: meta_ok_def)
  moreover have "allocated ?bm d' = allocated ?bm d - {k}" using d'(2) by (auto simp: allocated_def)
  ultimately show ?thesis using d'(1) by (simp add: dealloc_inode_def)
qed

lemma unlink_ok:
  assumes meta: "meta_ok fs" and ids: "valid_id fs p" "valid_id fs k" and dir: "dir_inv fs (inode_at fs p) d" and nm: "\<not> reserved nm"
    and found: "map_of (listing (inode_at fs p) d) nm = Some k" and target: "inode_inv fs (inode_at fs k) d" "apart (inode_at fs p) (inode_at fs k) d"
    and empty: "is_dir (node (inode_at fs k) d) \<Longrightarrow> file_count (node (inode_at fs k) d) = 0" and k: "k \<in> allocated (inode_bitmap fs) d"
  shows "\<exists>d'. vfs_unlink fs (inode_at fs p) nm d = Some (Some k, d') \<and> dir_inv fs (inode_at fs p) d'
    \<and> listing (inode_at fs p) d' = aremove nm (listing (inode_at fs p) d)
    \<and> owned fs d' = owned fs d - node_blocks (inode_at fs k) d
    \<and> allocated (inode_bitmap fs) d' = allocated (inode_bitmap fs) d - {k}"
proof -
  let ?s = "inode_at fs p" let ?t = "inode_at fs k"
  have fs: "fs_ok fs" using meta by (simp add: meta_ok_def)
  have area: "inode_area_start_block fs \<le> in_block_id ?s" "inode_area_start_block fs \<le> in_block_id ?t"
    using inode_at_eq [OF meta ids(1)] inode_at_eq [OF meta ids(2)] by simp_all
  have find: "vfs_find fs ?s nm d = Some (Some ?t)" using read_node [OF dir] find_ok [OF dir, of nm] found by (simp add: vfs_find_def)
  have rt: "read_disk_inode ?t d = Some (node ?t d)" by (rule read_disk_inode_ok [OF handle_inode_at [OF meta ids(2)]])
  have ft: "file_inv fs (node ?t d, d)" using target(1) by (simp add: inode_inv_def)
  from clear_inode_ok [OF fs ft] obtain di' dc where c: "clear_inode fs (node ?t d) d = Some ((), di', dc)" "evolves fs (node ?t d, d) (di', dc)"
    "owned fs dc = owned fs d - node_blocks ?t d" by (auto simp: node_blocks_def)
  from modify_disk_inode_ok [OF fs target(1), of "clear_inode fs", OF c(1,2)] obtain d1 where
    d1: "modify_disk_inode ?t (clear_inode fs) d = Some ((), d1)" "others_kept fs ?t d d1" "owned fs d1 = owned fs dc" by blast
  have si: "inode_inv fs ?s d" using dir by (simp add: dir_inv_def)
  note ot = others_keptD(2) [OF d1(2) si apart_sym [OF target(2)]]
  have e: "entries (node ?s d1, d1) = entries (node ?s d, d)" using ot unfolding entries_def contents_def by metis
  have dir1: "dir_inv fs ?s d1" "listing ?s d1 = listing ?s d" using dir ot e by (simp_all add: dir_inv_def listing_def)
  have bits: "allocated (inode_bitmap fs) d1 = allocated (inode_bitmap fs) d"
    using others_keptD(1) [OF d1(2)] area(2) meta by (intro inode_bits_cong [OF meta]) (auto simp: meta_ok_def)
  from dealloc_inode_ok [OF meta, of k d1] k bits obtain d2 where d2: "dealloc_inode fs d1 k = Some d2"
    "allocated (inode_bitmap fs) d2 = allocated (inode_bitmap fs) d1 - {k}" "\<And>x. inode_area_start_block fs \<le> x \<Longrightarrow> d2 x = d1 x" by auto
  note l2 = low_change_dir [OF meta dir1(1) area(1) d2(3)]
  have si1: "inode_inv fs ?s d1" using dir1(1) by (simp add: dir_inv_def)
  note o2 = low_change(5) [OF meta si1 area(1) d2(3)]
  have room: "room fs ?s 0 d2" using l2(1) by (simp add: room_def dir_inv_def inode_inv_def file_inv_def inode_ok_def)
  from remove_modify_ok [OF fs l2(1) room, of nm] obtain b d3 where
    d3: "modify_disk_inode ?s (remove_directory_entry nm) d2 = Some (b, d3)" "dir_inv fs ?s d3" "listing ?s d3 = aremove nm (listing ?s d2)"
      "others_kept fs ?s d2 d3" "owned fs d3 = owned fs d2" by blast
  have "allocated (inode_bitmap fs) d3 = allocated (inode_bitmap fs) d2"
    using others_keptD(1) [OF d3(4)] area(1) meta by (intro inode_bits_cong [OF meta]) (auto simp: meta_ok_def)
  moreover have "vfs_unlink fs ?s nm d = Some (Some k, d3)"
    using nm find rt empty d1(1) d2(1) d3(1) inode_number_inode_at [OF meta ids(2)] by (auto simp: vfs_unlink_def Let_def)
  ultimately show ?thesis using d3 l2(2) dir1(2) d2(2) bits o2 d1(3) c(3) by (intro exI [of _ d3]) simp
qed

subsection \<open>Properties\<close>

lemma example_root:
  obtains d where "efs_create (\<lambda>_ _. 0) 2000 1 = Some (created_fs 2000 1, d)" "meta_ok (created_fs 2000 1)" "valid_id (created_fs 2000 1) 0"
    "valid_id (created_fs 2000 1) 1" "dir_inv (created_fs 2000 1) (inode_at (created_fs 2000 1) 0) d"
    "room (created_fs 2000 1) (inode_at (created_fs 2000 1) 0) 1 d" "listing (inode_at (created_fs 2000 1) 0) d = []"
    "allocated (inode_bitmap (created_fs 2000 1)) d = {0}" "maximum (inode_bitmap (created_fs 2000 1)) = 4096"
proof -
  let ?fs = "created_fs 2000 1"
  obtain d where d: "efs_create (\<lambda>_ _. 0) 2000 1 = Some (?fs, d)" "fs_ok ?fs" "inode_inv ?fs (root_inode ?fs) d"
    "free_blocks ?fs d = 4096" "node (root_inode ?fs) d = disk_inode_initialize Directory" "allocated (inode_bitmap ?fs) d = {0}" by (rule example_fs)
  have f: "inode_bitmap ?fs = bitmap_new 1 1" "data_bitmap ?fs = bitmap_new 1058 1" "inode_area_start_block ?fs = 2"
    by (simp_all add: created_fs_def Let_def area_blocks_eq)
  have "meta_ok ?fs" "valid_id ?fs 0" "valid_id ?fs 1" "maximum (inode_bitmap ?fs) = 4096"
    unfolding meta_ok_def valid_id_def f using d(2) by (simp_all add: bitmap_new_def maximum_def block_bits_eq)
  moreover have "room ?fs (inode_at ?fs 0) 1 d" unfolding room_def root_inode_def [symmetric] d(4,5)
    by (simp add: disk_inode_initialize_def MAX_SIZE_def MAX_BLOCKS_def BLOCK_SZ_def)
  ultimately show ?thesis using that [OF d(1)] empty_directory [OF d(3,5)] d(6) unfolding root_inode_def by blast
qed

lemma example_name: "name_ok [97]" "\<not> reserved [97]"
  by (simp_all add: name_ok_def NAME_LENGTH_LIMIT_def reserved_def)

text \<open>C11: creating a file. With room in the directory and a free inode, \<^verbatim>\<open>create_as\<close> allocates an inode
  that was free, initializes it as an empty inode of the given type whose parent is the directory,
  and appends exactly one entry of the name to the directory. Room is counted in free bits of the data
  bitmap, on a disk without end.\<close>

theorem create_links_new_inode:
  assumes "meta_ok fs" "valid_id fs p" "p \<in> allocated (inode_bitmap fs) d" "dir_inv fs (inode_at fs p) d"
    "room fs (inode_at fs p) 1 d" "name_ok nm" "\<not> reserved nm" "map_of (listing (inode_at fs p) d) nm = None"
    "k0 < maximum (inode_bitmap fs)" "k0 \<notin> allocated (inode_bitmap fs) d" "valid_id fs k0" "maximum (inode_bitmap fs) \<le> 2 ^ 32"
  shows "\<exists>k d'. create_as fs (inode_at fs p) nm ty d = Some (Some (inode_at fs k), d') \<and> k \<notin> allocated (inode_bitmap fs) d
    \<and> allocated (inode_bitmap fs) d' = insert k (allocated (inode_bitmap fs) d)
    \<and> dir_inv fs (inode_at fs p) d' \<and> listing (inode_at fs p) d' = listing (inode_at fs p) d @ [(nm, k)]
    \<and> inode_inv fs (inode_at fs k) d' \<and> contents (inode_at fs k) d' = []
    \<and> node (inode_at fs k) d' = (disk_inode_initialize ty)\<lparr>parent_inode := p\<rparr>"
  using create_as_ok [OF assms, of ty] by blast

theorem create_links_new_inode_witness:
  "\<exists>fs d k d'. efs_create (\<lambda>_ _. 0) 2000 1 = Some (fs, d) \<and> create_as fs (inode_at fs 0) [97] File d = Some (Some (inode_at fs k), d')
     \<and> listing (inode_at fs 0) d' = [([97], k)] \<and> contents (inode_at fs k) d' = []"
proof -
  let ?fs = "created_fs 2000 1"
  obtain d where d: "efs_create (\<lambda>_ _. 0) 2000 1 = Some (?fs, d)" "meta_ok ?fs" "valid_id ?fs 0" "valid_id ?fs 1"
    "dir_inv ?fs (inode_at ?fs 0) d" "room ?fs (inode_at ?fs 0) 1 d" "listing (inode_at ?fs 0) d = []"
    "allocated (inode_bitmap ?fs) d = {0}" "maximum (inode_bitmap ?fs) = 4096" by (rule example_root)
  have h: "0 \<in> allocated (inode_bitmap ?fs) d" "map_of (listing (inode_at ?fs 0) d) [97] = None" "1 < maximum (inode_bitmap ?fs)"
    "1 \<notin> allocated (inode_bitmap ?fs) d" "maximum (inode_bitmap ?fs) \<le> 2 ^ 32" unfolding d(7,8,9) by simp_all
  from create_links_new_inode [OF d(2,3) h(1) d(5,6) example_name h(2-4) d(4) h(5)] d(1) show ?thesis
    unfolding d(7) by (metis append_Nil)
qed

text \<open>C12: unlinking. The target's data and index blocks, and nothing else, become free, its inode becomes
  free, its entry disappears from the directory and the other entries stay in order.\<close>

theorem unlink_frees_target:
  assumes "meta_ok fs" "valid_id fs p" "valid_id fs k" "dir_inv fs (inode_at fs p) d" "\<not> reserved nm"
    "map_of (listing (inode_at fs p) d) nm = Some k" "inode_inv fs (inode_at fs k) d" "apart (inode_at fs p) (inode_at fs k) d"
    "is_dir (node (inode_at fs k) d) \<Longrightarrow> file_count (node (inode_at fs k) d) = 0" "k \<in> allocated (inode_bitmap fs) d"
  shows "\<exists>d'. vfs_unlink fs (inode_at fs p) nm d = Some (Some k, d') \<and> dir_inv fs (inode_at fs p) d'
    \<and> listing (inode_at fs p) d' = aremove nm (listing (inode_at fs p) d)
    \<and> owned fs d' = owned fs d - node_blocks (inode_at fs k) d
    \<and> allocated (inode_bitmap fs) d' = allocated (inode_bitmap fs) d - {k}"
  using unlink_ok [OF assms] .

theorem unlink_frees_target_witness:
  "\<exists>fs d k d'. dir_inv fs (inode_at fs 0) d \<and> listing (inode_at fs 0) d = [([97], k)]
     \<and> vfs_unlink fs (inode_at fs 0) [97] d = Some (Some k, d') \<and> listing (inode_at fs 0) d' = []"
proof -
  let ?fs = "created_fs 2000 1"
  obtain d where d: "efs_create (\<lambda>_ _. 0) 2000 1 = Some (?fs, d)" "meta_ok ?fs" "valid_id ?fs 0" "valid_id ?fs 1"
    "dir_inv ?fs (inode_at ?fs 0) d" "room ?fs (inode_at ?fs 0) 1 d" "listing (inode_at ?fs 0) d = []"
    "allocated (inode_bitmap ?fs) d = {0}" "maximum (inode_bitmap ?fs) = 4096" by (rule example_root)
  have h: "0 \<in> allocated (inode_bitmap ?fs) d" "map_of (listing (inode_at ?fs 0) d) [97] = None" "1 < maximum (inode_bitmap ?fs)"
    "1 \<notin> allocated (inode_bitmap ?fs) d" "maximum (inode_bitmap ?fs) \<le> 2 ^ 32" unfolding d(7,8,9) by simp_all
  from create_as_ok [OF d(2,3) h(1) d(5,6) example_name h(2-4) d(4) h(5), of File] obtain k d1 where
    c: "allocated (inode_bitmap ?fs) d1 = insert k (allocated (inode_bitmap ?fs) d)" "dir_inv ?fs (inode_at ?fs 0) d1"
      "listing (inode_at ?fs 0) d1 = [([97], k)]" "inode_inv ?fs (inode_at ?fs k) d1"
      "node (inode_at ?fs k) d1 = (disk_inode_initialize File)\<lparr>parent_inode := 0\<rparr>" "valid_id ?fs k"
      "apart (inode_at ?fs 0) (inode_at ?fs k) d1" unfolding d(7) by (metis append_Nil)
  have m: "map_of (listing (inode_at ?fs 0) d1) [97] = Some k" and k: "k \<in> allocated (inode_bitmap ?fs) d1"
    and nd: "is_dir (node (inode_at ?fs k) d1) \<Longrightarrow> file_count (node (inode_at ?fs k) d1) = 0"
    unfolding c(1,3,5) by (simp_all add: is_dir_def disk_inode_initialize_def)
  from unlink_frees_target [OF d(2,3) c(6,2) example_name(2) m c(4,7) nd k] obtain d2 where
    "vfs_unlink ?fs (inode_at ?fs 0) [97] d1 = Some (Some k, d2)" "listing (inode_at ?fs 0) d2 = aremove [97] [([97], k)]"
    unfolding c(3) by blast
  with c(2,3) show ?thesis by (auto simp: aremove_def)
qed

end
