(* ===== verification/Scheduler.thy ===== *)
theory Scheduler
  imports Prelude "HOL-Library.Multiset"
begin

section \<open>Scheduling policies\<close>

text \<open>
  os/src/task/scheduler and the scheduling record of a task (os/src/task/task.rs). A task is the
  address of its control block, as an \<^verbatim>\<open>Arc\<close> is; the control blocks are a split heap,
  one function from addresses per field, so the policies read and write a map from tasks to
  scheduling records. The time \<^verbatim>\<open>now\<close> is read from a hardware register and is an
  argument.
\<close>

type_synonym task = usize

record sched_info =
  base_priority :: usize
  effective_priority :: usize
  ready_since :: usize
  runtime_ticks :: usize
  total_wait_ticks :: usize
  scheduled_count :: usize
  slice_ticks :: usize
  in_ready_queue :: bool

type_synonym infos = "task \<Rightarrow> sched_info"

definition DEFAULT_PRIORITY :: usize where "DEFAULT_PRIORITY = 4"
definition MIN_PRIORITY :: usize where "MIN_PRIORITY = 0"
definition MAX_PRIORITY :: usize where "MAX_PRIORITY = 7"
definition PRIORITY_LEVELS :: nat where "PRIORITY_LEVELS = unat (MAX_PRIORITY + 1)"
definition TIME_SLICE_TICKS :: usize where "TIME_SLICE_TICKS = 2"
definition AGING_INTERVAL_TICKS :: usize where "AGING_INTERVAL_TICKS = 20"

subsection \<open>The scheduling record\<close>

definition sched_info_new :: "usize \<Rightarrow> sched_info outcome" where
  "sched_info_new priority = do {
     _ \<leftarrow> ensure (MIN_PRIORITY \<le> priority \<and> priority \<le> MAX_PRIORITY);
     Some \<lparr>base_priority = priority, effective_priority = priority, ready_since = 0,
       runtime_ticks = 0, total_wait_ticks = 0, scheduled_count = 0, slice_ticks = 0,
       in_ready_queue = False\<rparr>
   }"

definition on_enqueue :: "usize \<Rightarrow> sched_info \<Rightarrow> bool \<times> sched_info" where
  "on_enqueue now i =
     (if in_ready_queue i then (False, i)
      else (True, i\<lparr>ready_since := now, slice_ticks := 0, in_ready_queue := True\<rparr>))"

definition on_dispatch :: "usize \<Rightarrow> sched_info \<Rightarrow> sched_info" where
  "on_dispatch now i = i\<lparr>
     total_wait_ticks := saturating_add (total_wait_ticks i) (saturating_sub now (ready_since i)),
     scheduled_count := saturating_add (scheduled_count i) 1,
     slice_ticks := 0,
     in_ready_queue := False,
     effective_priority := base_priority i\<rparr>"

definition on_timer_tick :: "sched_info \<Rightarrow> sched_info" where
  "on_timer_tick i = i\<lparr>runtime_ticks := saturating_add (runtime_ticks i) 1,
     slice_ticks := saturating_add (slice_ticks i) 1\<rparr>"

definition refresh_effective_priority :: "usize \<Rightarrow> sched_info \<Rightarrow> usize \<times> sched_info" where
  "refresh_effective_priority now i =
     (let i' = (if in_ready_queue i
        then let waited_ticks = saturating_sub now (ready_since i);
                 aging_boost = waited_ticks div AGING_INTERVAL_TICKS
             in i\<lparr>effective_priority := min (saturating_add (base_priority i) aging_boost) MAX_PRIORITY\<rparr>
        else i\<lparr>effective_priority := base_priority i\<rparr>)
      in (effective_priority i', i'))"

definition on_block :: "sched_info \<Rightarrow> sched_info" where
  "on_block i = i\<lparr>slice_ticks := 0, in_ready_queue := False, effective_priority := base_priority i\<rparr>"

definition set_base_priority :: "usize \<Rightarrow> usize \<Rightarrow> sched_info \<Rightarrow> sched_info" where
  "set_base_priority priority now i = snd (refresh_effective_priority now (i\<lparr>base_priority := priority\<rparr>))"

subsection \<open>Round robin\<close>

definition ROUND_ROBIN_TIME_SLICE :: usize where "ROUND_ROBIN_TIME_SLICE = 1"

record round_robin_scheduler =
  ready_queue :: "task list"

definition rr_new :: round_robin_scheduler where
  "rr_new = \<lparr>ready_queue = []\<rparr>"

definition rr_enqueue :: "round_robin_scheduler \<Rightarrow> task \<Rightarrow> round_robin_scheduler" where
  "rr_enqueue s t = s\<lparr>ready_queue := ready_queue s @ [t]\<rparr>"

definition rr_dequeue :: "round_robin_scheduler \<Rightarrow> task option \<times> round_robin_scheduler" where
  "rr_dequeue s = (case ready_queue s of
     [] \<Rightarrow> (None, s)
   | t # ts \<Rightarrow> (Some t, s\<lparr>ready_queue := ts\<rparr>))"

definition rr_should_preempt :: "infos \<Rightarrow> round_robin_scheduler \<Rightarrow> task \<Rightarrow> bool" where
  "rr_should_preempt info s cur =
     (if ready_queue s = [] then False else ROUND_ROBIN_TIME_SLICE \<le> slice_ticks (info cur))"

subsection \<open>Strict priorities with aging\<close>

record priority_scheduler =
  ready_queues :: "task list list"
  ready_tasks :: usize

definition ps_new :: priority_scheduler where
  "ps_new = \<lparr>ready_queues = replicate PRIORITY_LEVELS [], ready_tasks = 0\<rparr>"

fun refresh_level :: "usize \<Rightarrow> nat \<Rightarrow> nat \<Rightarrow> infos \<Rightarrow> task list list \<Rightarrow> (infos \<times> task list list) outcome" where
  "refresh_level now old_priority 0 info qs = Some (info, qs)"
| "refresh_level now old_priority (Suc n) info qs = do {
     q \<leftarrow> idx qs old_priority;
     case q of
       [] \<Rightarrow> None
     | t # ts \<Rightarrow> (
         let (new_priority, i') = refresh_effective_priority now (info t);
             qs1 = qs[old_priority := ts]
         in do {
           dest \<leftarrow> idx qs1 (unat new_priority);
           qs2 \<leftarrow> upd qs1 (unat new_priority) (dest @ [t]);
           refresh_level now old_priority n (info(t := i')) qs2
         })
   }"

fun refresh_levels :: "usize \<Rightarrow> nat \<Rightarrow> infos \<Rightarrow> task list list \<Rightarrow> (infos \<times> task list list) outcome" where
  "refresh_levels now 0 info qs = Some (info, qs)"
| "refresh_levels now (Suc old_priority) info qs = do {
     q \<leftarrow> idx qs old_priority;
     (info', qs') \<leftarrow> refresh_level now old_priority (length q) info qs;
     refresh_levels now old_priority info' qs'
   }"

definition refresh_aging :: "usize \<Rightarrow> infos \<Rightarrow> priority_scheduler \<Rightarrow> (infos \<times> priority_scheduler) outcome" where
  "refresh_aging now info s = do {
     (info', qs) \<leftarrow> refresh_levels now PRIORITY_LEVELS info (ready_queues s);
     Some (info', s\<lparr>ready_queues := qs\<rparr>)
   }"

definition highest_ready_priority :: "priority_scheduler \<Rightarrow> nat option" where
  "highest_ready_priority s = find (\<lambda>p. ready_queues s ! p \<noteq> []) (rev [0..<PRIORITY_LEVELS])"

definition ps_enqueue :: "infos \<Rightarrow> priority_scheduler \<Rightarrow> task \<Rightarrow> priority_scheduler outcome" where
  "ps_enqueue info s t = (
     let priority = unat (min (effective_priority (info t)) MAX_PRIORITY)
     in do {
       q \<leftarrow> idx (ready_queues s) priority;
       qs \<leftarrow> upd (ready_queues s) priority (q @ [t]);
       Some \<lparr>ready_queues = qs, ready_tasks = ready_tasks s + 1\<rparr>
     })"

definition ps_dequeue :: "usize \<Rightarrow> infos \<Rightarrow> priority_scheduler
    \<Rightarrow> (task option \<times> infos \<times> priority_scheduler) outcome" where
  "ps_dequeue now info s =
     (if ready_tasks s = 0 then Some (None, info, s)
      else do {
        (info', s') \<leftarrow> refresh_aging now info s;
        case highest_ready_priority s' of
          None \<Rightarrow> Some (None, info', s')
        | Some p \<Rightarrow> do {
            q \<leftarrow> idx (ready_queues s') p;
            Some (case q of
                [] \<Rightarrow> (None, info', s'\<lparr>ready_tasks := ready_tasks s' - 1\<rparr>)
              | t # ts \<Rightarrow> (Some t, info',
                  s'\<lparr>ready_tasks := ready_tasks s' - 1, ready_queues := (ready_queues s')[p := ts]\<rparr>))
          }
      })"

definition ps_should_preempt :: "usize \<Rightarrow> infos \<Rightarrow> priority_scheduler \<Rightarrow> task
    \<Rightarrow> (bool \<times> infos \<times> priority_scheduler) outcome" where
  "ps_should_preempt now info s cur =
     (if ready_tasks s = 0 then Some (False, info, s)
      else do {
        (info', s') \<leftarrow> refresh_aging now info s;
        highest_ready \<leftarrow> highest_ready_priority s';
        Some (TIME_SLICE_TICKS \<le> slice_ticks (info' cur)
            \<or> effective_priority (info' cur) < of_nat highest_ready, info', s')
      })"

subsection \<open>What aging does to the queues\<close>

definition eff :: "usize \<Rightarrow> sched_info \<Rightarrow> nat" where
  "eff now i = unat (fst (refresh_effective_priority now i))"

definition prio_ok :: "sched_info \<Rightarrow> bool" where
  "prio_ok i \<longleftrightarrow> base_priority i \<le> MAX_PRIORITY"

definition refreshed :: "usize \<Rightarrow> infos \<Rightarrow> task list \<Rightarrow> infos" where
  "refreshed now info ts = (\<lambda>t. if t \<in> set ts then snd (refresh_effective_priority now (info t)) else info t)"

lemma PRIORITY_LEVELS_eq: "PRIORITY_LEVELS = 8"
  by (simp add: PRIORITY_LEVELS_def MAX_PRIORITY_def)

lemma eff_value:
  "eff now i = (if in_ready_queue i
     then min (min (unat (base_priority i) + (unat now - unat (ready_since i)) div 20) (2 ^ 64 - 1)) 7
     else unat (base_priority i))"
  by (simp add: eff_def refresh_effective_priority_def Let_def min_def word_le_nat_alt
      unat_saturating_add unat_saturating_sub unat_div AGING_INTERVAL_TICKS_def MAX_PRIORITY_def)

lemma eff_bound: "prio_ok i \<Longrightarrow> eff now i < 8"
  by (simp add: eff_value prio_ok_def word_le_nat_alt MAX_PRIORITY_def min_less_iff_disj)

lemma eff_mono: "in_ready_queue i \<Longrightarrow> now \<le> now' \<Longrightarrow> eff now i \<le> eff now' i"
  by (auto simp: eff_value word_le_nat_alt min_le_iff_disj intro!: min.mono add_mono div_le_mono)

lemma refresh_keeps [simp]:
  "base_priority (snd (refresh_effective_priority now i)) = base_priority i"
  "ready_since (snd (refresh_effective_priority now i)) = ready_since i"
  "runtime_ticks (snd (refresh_effective_priority now i)) = runtime_ticks i"
  "total_wait_ticks (snd (refresh_effective_priority now i)) = total_wait_ticks i"
  "scheduled_count (snd (refresh_effective_priority now i)) = scheduled_count i"
  "slice_ticks (snd (refresh_effective_priority now i)) = slice_ticks i"
  "in_ready_queue (snd (refresh_effective_priority now i)) = in_ready_queue i"
  by (simp_all add: refresh_effective_priority_def Let_def)

lemma eff_refresh [simp]: "eff now' (snd (refresh_effective_priority now i)) = eff now' i"
  by (simp add: eff_value)

lemma effective_refresh [simp]:
  "unat (effective_priority (snd (refresh_effective_priority now i))) = eff now i"
  by (simp add: eff_def refresh_effective_priority_def Let_def)

lemma refresh_twice [simp]:
  "snd (refresh_effective_priority now (snd (refresh_effective_priority now i)))
    = snd (refresh_effective_priority now i)"
  by (simp add: refresh_effective_priority_def Let_def)

lemma prio_ok_refresh [simp]: "prio_ok (snd (refresh_effective_priority now i)) = prio_ok i"
  by (simp add: prio_ok_def)

lemma eff_refreshed [simp]: "eff now' (refreshed now info ts t) = eff now' (info t)"
  and prio_ok_refreshed [simp]: "prio_ok (refreshed now info ts t) = prio_ok (info t)"
  and in_ready_queue_refreshed [simp]: "in_ready_queue (refreshed now info ts t) = in_ready_queue (info t)"
  and slice_ticks_refreshed [simp]: "slice_ticks (refreshed now info ts t) = slice_ticks (info t)"
  and base_priority_refreshed [simp]: "base_priority (refreshed now info ts t) = base_priority (info t)"
  by (simp_all add: refreshed_def)

lemma refreshed_append: "refreshed now (refreshed now info xs) ys = refreshed now info (xs @ ys)"
  by (auto simp: refreshed_def)

lemma refresh_level_eq:
  assumes "length qs = 8" and "l < 8" and "qs ! l = xs @ ys" and "\<forall>t \<in> set xs. prio_ok (info t)"
  shows "refresh_level now l (length xs) info qs = Some (refreshed now info xs,
    map (\<lambda>p. (if p = l then ys else qs ! p) @ filter (\<lambda>t. eff now (info t) = p) xs) [0..<8])"
  using assms
proof (induction xs arbitrary: ys info qs)
  case Nil
  then show ?case by (auto simp: refreshed_def intro: nth_equalityI)
next
  case (Cons t xs)
  define i' where "i' = snd (refresh_effective_priority now (info t))"
  define p' where "p' = eff now (info t)"
  define info' where "info' = info(t := i')"
  define qs1 where "qs1 = qs[l := xs @ ys]"
  define qs2 where "qs2 = qs1[p' := qs1 ! p' @ [t]]"
  have p': "p' < 8" using Cons.prems(4) by (simp add: p'_def eff_bound)
  have refresh: "refresh_effective_priority now (info t) = (of_nat p', i')"
    by (simp add: i'_def p'_def eff_def prod_eq_iff)
  have p'_word: "unat (of_nat p' :: usize) = p'" using p' by (simp add: unat_of_nat)
  have eff: "eff now (info' u) = eff now (info u)" for u by (simp add: info'_def i'_def)
  have step: "refresh_level now l (length (t # xs)) info qs = refresh_level now l (length xs) info' qs2"
    using Cons.prems p' by (simp add: idx_in_range upd_in_range refresh p'_word qs1_def qs2_def info'_def Let_def)
  have l2: "qs2 ! l = xs @ ys @ (if p' = l then [t] else [])" and len: "length qs2 = 8"
    using Cons.prems by (auto simp: qs2_def qs1_def)
  have "\<forall>u \<in> set xs. prio_ok (info' u)" using Cons.prems(4) by (simp add: info'_def i'_def)
  from Cons.IH [OF len Cons.prems(2) l2 this] have
    "refresh_level now l (length xs) info' qs2 = Some (refreshed now info' xs,
      map (\<lambda>p. (if p = l then ys @ (if p' = l then [t] else []) else qs2 ! p)
        @ filter (\<lambda>t. eff now (info t) = p) xs) [0..<8])"
    by (simp add: eff)
  moreover have "refreshed now info' xs = refreshed now info (t # xs)"
    by (auto simp: refreshed_def info'_def i'_def)
  moreover have "(if p = l then ys @ (if p' = l then [t] else []) else qs2 ! p)
        @ filter (\<lambda>t. eff now (info t) = p) xs
      = (if p = l then ys else qs ! p) @ filter (\<lambda>t. eff now (info t) = p) (t # xs)"
    if "p < 8" for p
    using that Cons.prems(1) by (auto simp: qs2_def qs1_def p'_def nth_list_update)
  ultimately show ?case unfolding step by (auto intro: map_cong)
qed

text \<open>
  The queues as aging should leave them: level \<open>p\<close> holds the tasks whose effective priority is
  now \<open>p\<close>. Those that were there keep their order; behind them come the demoted ones and then the
  promoted ones, each group from the higher levels to the lower.
\<close>

definition aged_queue :: "usize \<Rightarrow> infos \<Rightarrow> task list list \<Rightarrow> nat \<Rightarrow> task list" where
  "aged_queue now info qs p =
     filter (\<lambda>t. eff now (info t) = p) (qs ! p @ concat (rev (drop (Suc p) qs)) @ concat (rev (take p qs)))"

definition level_state :: "usize \<Rightarrow> infos \<Rightarrow> task list list \<Rightarrow> nat \<Rightarrow> nat \<Rightarrow> task list" where
  "level_state now info qs k p = (if p < k
     then qs ! p @ filter (\<lambda>t. eff now (info t) = p) (concat (rev (drop k qs)))
     else filter (\<lambda>t. eff now (info t) = p)
       (qs ! p @ concat (rev (drop (Suc p) qs)) @ concat (rev (take (p - k) (drop k qs)))))"

lemma level_state_step:
  assumes "l < length qs" and "p < length qs"
  shows "(if p = l then [] else level_state now info qs (Suc l) p)
      @ filter (\<lambda>t. eff now (info t) = p) (level_state now info qs (Suc l) l)
    = level_state now info qs l p"
proof -
  have drop: "drop l qs = qs ! l # drop (Suc l) qs" using assms(1) by (simp add: Cons_nth_drop_Suc)
  have other: "filter (\<lambda>t. eff now (info t) = p) (filter (\<lambda>t. eff now (info t) = l) xs) = []"
    if "p \<noteq> l" for xs using that by (auto simp: filter_empty_conv)
  consider "p < l" | "p = l" | "l < p" by linarith
  then show ?thesis
  proof cases
    case 1
    then show ?thesis by (simp add: level_state_def drop other)
  next
    case 2
    then show ?thesis by (simp add: level_state_def)
  next
    case 3
    then obtain d where d: "p - l = Suc d" "p - Suc l = d" by (metis Suc_diff_Suc)
    from 3 show ?thesis by (simp add: level_state_def drop d other)
  qed
qed

lemma refreshed_cong: "set xs = set ys \<Longrightarrow> refreshed now info xs = refreshed now info ys"
  by (simp add: refreshed_def)

lemma level_state_set:
  assumes "l < length qs" and "set zs = set (concat (drop (Suc l) qs))"
  shows "set (zs @ level_state now info qs (Suc l) l) = set (concat (drop l qs))"
proof -
  have drop: "drop l qs = qs ! l # drop (Suc l) qs" using assms(1) by (simp add: Cons_nth_drop_Suc)
  show ?thesis using assms(2) by (auto simp: drop level_state_def)
qed

lemma refresh_levels_eq:
  assumes len: "length qs = 8" and ok: "\<forall>q \<in> set qs. \<forall>t \<in> set q. prio_ok (info t)"
    and "k \<le> 8" and "set zs = set (concat (drop k qs))"
  shows "refresh_levels now k (refreshed now info zs) (map (level_state now info qs k) [0..<8])
    = Some (refreshed now info (concat qs), map (aged_queue now info qs) [0..<8])"
  using assms(3,4)
proof (induction k arbitrary: zs)
  case 0
  have "map (level_state now info qs 0) [0..<8] = map (aged_queue now info qs) [0..<8]"
    by (rule map_cong) (simp_all add: level_state_def aged_queue_def)
  with 0 show ?case by (simp add: refreshed_cong)
next
  case (Suc l)
  define xs where "xs = level_state now info qs (Suc l) l"
  define ms where "ms = map (level_state now info qs (Suc l)) [0..<8]"
  have l: "l < 8" "l < length qs" using Suc.prems(1) len by simp_all
  have ml: "length ms = 8" "ms ! l = xs @ []" using l by (simp_all add: ms_def xs_def)
  have "set xs \<subseteq> set (concat qs)" using l
    by (auto simp: xs_def level_state_def dest: in_set_dropD intro: nth_mem)
  then have okx: "\<forall>t \<in> set xs. prio_ok (refreshed now info zs t)" using ok by auto
  have "(if p = l then [] else ms ! p) @ filter (\<lambda>t. eff now (info t) = p) xs
      = level_state now info qs l p" if "p < 8" for p
    using level_state_step [of l qs p now info] that l len by (cases "p = l") (simp_all add: ms_def xs_def)
  then have next_level: "map (\<lambda>p. (if p = l then [] else ms ! p) @ filter (\<lambda>t. eff now (info t) = p) xs) [0..<8]
      = map (level_state now info qs l) [0..<8]"
    by (intro map_cong) simp_all
  have "refresh_level now l (length xs) (refreshed now info zs) ms
      = Some (refreshed now info (zs @ xs), map (level_state now info qs l) [0..<8])"
    using refresh_level_eq [OF ml(1) l(1) ml(2) okx] by (simp add: refreshed_append next_level)
  moreover have "set (zs @ xs) = set (concat (drop l qs))"
    unfolding xs_def by (rule level_state_set [OF l(2) Suc.prems(2)])
  ultimately show ?case
    using Suc.IH [of "zs @ xs"] l ml by (simp add: idx_in_range ms_def)
qed

lemma refresh_aging_eq:
  assumes "length (ready_queues s) = 8"
    and "\<forall>q \<in> set (ready_queues s). \<forall>t \<in> set q. prio_ok (info t)"
  shows "refresh_aging now info s = Some (refreshed now info (concat (ready_queues s)),
    s\<lparr>ready_queues := map (aged_queue now info (ready_queues s)) [0..<8]\<rparr>)"
proof -
  have "map (level_state now info (ready_queues s) 8) [0..<8] = map ((!) (ready_queues s)) [0..<8]"
    using assms(1) by (intro map_cong) (simp_all add: level_state_def)
  also have "\<dots> = ready_queues s" using assms(1) by (metis map_nth)
  finally have start: "map (level_state now info (ready_queues s) 8) [0..<8] = ready_queues s" .
  have "refreshed now info [] = info" by (simp add: refreshed_def)
  with refresh_levels_eq [OF assms, of 8 "[]" now] assms(1) show ?thesis
    by (simp add: refresh_aging_def PRIORITY_LEVELS_eq start)
qed

subsection \<open>The contract of a policy\<close>

text \<open>
  The trait \<^verbatim>\<open>Scheduler\<close>: what the task manager relies on. A policy is a bag of ready
  tasks; it may recompute effective priorities and nothing else of the scheduling records.
\<close>

definition same_accounts :: "sched_info \<Rightarrow> sched_info \<Rightarrow> bool" where
  "same_accounts i j \<longleftrightarrow> j\<lparr>effective_priority := effective_priority i\<rparr> = i"

lemma same_accounts_iff:
  "same_accounts i j \<longleftrightarrow> base_priority j = base_priority i \<and> ready_since j = ready_since i
    \<and> runtime_ticks j = runtime_ticks i \<and> total_wait_ticks j = total_wait_ticks i
    \<and> scheduled_count j = scheduled_count i \<and> slice_ticks j = slice_ticks i
    \<and> in_ready_queue j = in_ready_queue i"
  by (cases i; cases j) (auto simp: same_accounts_def)

lemma same_accounts_refl [simp]: "same_accounts i i"
  by (simp add: same_accounts_iff)

lemma same_accounts_refreshed: "\<forall>t. same_accounts (info t) (refreshed now info ts t)"
  by (simp add: refreshed_def same_accounts_iff)

lemma same_accounts_prio_ok: "same_accounts i j \<Longrightarrow> prio_ok j = prio_ok i"
  by (simp add: same_accounts_iff prio_ok_def)

locale scheduling_policy =
  fixes enqueue :: "infos \<Rightarrow> 's \<Rightarrow> task \<Rightarrow> 's outcome"
    and dequeue :: "usize \<Rightarrow> infos \<Rightarrow> 's \<Rightarrow> (task option \<times> infos \<times> 's) outcome"
    and preempt :: "usize \<Rightarrow> infos \<Rightarrow> 's \<Rightarrow> task \<Rightarrow> (bool \<times> infos \<times> 's) outcome"
    and ready :: "'s \<Rightarrow> task multiset"
    and inv :: "infos \<Rightarrow> 's \<Rightarrow> bool"
  assumes enqueue_ok: "inv info s \<Longrightarrow> t \<notin># ready s \<Longrightarrow> t \<noteq> 0 \<Longrightarrow> prio_ok (info t) \<Longrightarrow>
      \<exists>s'. enqueue info s t = Some s' \<and> ready s' = add_mset t (ready s) \<and> inv info s'"
    and dequeue_none: "inv info s \<Longrightarrow> ready s = {#} \<Longrightarrow> dequeue now info s = Some (None, info, s)"
    and dequeue_some: "inv info s \<Longrightarrow> ready s \<noteq> {#} \<Longrightarrow>
      \<exists>t info' s'. dequeue now info s = Some (Some t, info', s') \<and> t \<in># ready s
        \<and> ready s' = ready s - {#t#} \<and> inv info' s' \<and> (\<forall>u. same_accounts (info u) (info' u))"
    and preempt_ok: "inv info s \<Longrightarrow>
      \<exists>b info' s'. preempt now info s cur = Some (b, info', s')
        \<and> ready s' = ready s \<and> inv info' s' \<and> (\<forall>u. same_accounts (info u) (info' u))"
    and inv_prio: "inv info s \<Longrightarrow> t \<in># ready s \<Longrightarrow> prio_ok (info t)"
    and inv_frame: "inv info s \<Longrightarrow> (\<And>t. t \<in># ready s \<Longrightarrow> prio_ok (info' t)) \<Longrightarrow> inv info' s"
begin

text \<open>
  \<open>holds info s Q\<close>: the policy holds the tasks of \<open>Q\<close>, each of them once, and no other task.
\<close>

definition holds :: "infos \<Rightarrow> 's \<Rightarrow> task set \<Rightarrow> bool" where
  "holds info s Q \<longleftrightarrow> inv info s \<and> (\<forall>t. count (ready s) t = of_bool (t \<in> Q))"

lemma holds_ready: "holds info s Q \<Longrightarrow> t \<in># ready s \<longleftrightarrow> t \<in> Q"
  by (simp add: holds_def flip: count_greater_zero_iff)

lemma holds_empty: "holds info s Q \<Longrightarrow> ready s = {#} \<longleftrightarrow> Q = {}"
  using holds_ready by (metis all_not_in_conv multiset_nonemptyE set_mset_empty)

lemma holds_frame:
  assumes "holds info s Q" and "\<And>t. t \<in> Q \<Longrightarrow> prio_ok (info t) \<Longrightarrow> prio_ok (info' t)"
  shows "holds info' s Q"
proof -
  have inv: "inv info s" using assms(1) by (simp add: holds_def)
  have "inv info' s" using inv_frame [OF inv] inv_prio [OF inv] assms(2) holds_ready [OF assms(1)] by blast
  with assms(1) show ?thesis by (simp add: holds_def)
qed

lemma enqueue_holds:
  assumes "holds info s Q" and "t \<notin> Q" and "t \<noteq> 0" and "prio_ok (info t)"
  shows "\<exists>s'. enqueue info s t = Some s' \<and> ready s' = add_mset t (ready s) \<and> holds info s' (insert t Q)"
proof -
  have inv: "inv info s" and count: "count (ready s) u = of_bool (u \<in> Q)" for u
    using assms(1) by (auto simp: holds_def)
  have "t \<notin># ready s" using assms(1,2) holds_ready by blast
  from enqueue_ok [OF inv this assms(3,4)] obtain s' where
    s': "enqueue info s t = Some s'" "ready s' = add_mset t (ready s)" "inv info s'" by blast
  have "count (ready s') u = of_bool (u \<in> insert t Q)" for u using count [of u] assms(2) by (auto simp: s'(2))
  with s' show ?thesis by (simp add: holds_def)
qed

lemma fetch_holds:
  assumes "holds info s Q" and "Q \<noteq> {}"
  shows "\<exists>t info' s'. dequeue now info s = Some (Some t, info', s') \<and> t \<in> Q
    \<and> ready s' = ready s - {#t#} \<and> (\<forall>u. same_accounts (info u) (info' u))
    \<and> holds (info'(t := on_dispatch now (info' t))) s' (Q - {t})"
proof -
  have inv: "inv info s" and "ready s \<noteq> {#}" using assms holds_empty by (auto simp: holds_def)
  from dequeue_some [OF this, of now] obtain t info' s' where
    t: "dequeue now info s = Some (Some t, info', s')" "t \<in># ready s" "ready s' = ready s - {#t#}"
      "inv info' s'" "\<forall>u. same_accounts (info u) (info' u)" by blast
  have "holds info' s' (Q - {t})" using assms(1) t holds_ready [OF assms(1)] by (auto simp: holds_def)
  then have "holds (info'(t := on_dispatch now (info' t))) s' (Q - {t})"
    by (rule holds_frame) (auto simp: on_dispatch_def prio_ok_def)
  with t holds_ready [OF assms(1)] show ?thesis by blast
qed

lemma preempt_holds:
  assumes "holds info s Q"
  shows "\<exists>b info' s'. preempt now info s cur = Some (b, info', s') \<and> ready s' = ready s
    \<and> (\<forall>u. same_accounts (info u) (info' u)) \<and> holds info' s' Q"
proof -
  from assms have "inv info s" by (simp add: holds_def)
  from preempt_ok [OF this, of now cur] obtain b info' s' where
    p: "preempt now info s cur = Some (b, info', s')" "ready s' = ready s" "inv info' s'"
      "\<forall>u. same_accounts (info u) (info' u)" by blast
  with assms show ?thesis by (auto simp: holds_def)
qed

text \<open>
  The task manager enqueues a task only when its \<^const>\<open>in_ready_queue\<close> flag was clear and clears
  the flag when it dispatches one. As long as no task blocks while it is queued, the flag of a task
  says whether the policy holds it.
\<close>

definition in_step :: "infos \<Rightarrow> 's \<Rightarrow> bool" where
  "in_step info s \<longleftrightarrow> holds info s {t. in_ready_queue (info t)}"

lemma in_step_inv: "in_step info s \<Longrightarrow> inv info s"
  by (simp add: in_step_def holds_def)

lemma in_step_count: "in_step info s \<Longrightarrow> count (ready s) t = of_bool (in_ready_queue (info t))"
  by (simp add: in_step_def holds_def)

lemma in_step_ready: "in_step info s \<Longrightarrow> t \<in># ready s \<longleftrightarrow> in_ready_queue (info t)"
  by (simp add: in_step_def holds_ready)

lemma in_step_frame:
  assumes "in_step info s" and "\<And>t. in_ready_queue (info' t) = in_ready_queue (info t)"
    and "\<And>t. prio_ok (info t) \<Longrightarrow> prio_ok (info' t)"
  shows "in_step info' s"
  using assms by (simp add: in_step_def holds_frame)

lemma add_in_step:
  assumes "in_step info s" and "t \<noteq> 0" and "prio_ok (info t)" and "on_enqueue now (info t) = (b, i)"
  shows "\<exists>s'. (if b then enqueue (info(t := i)) s t else Some s) = Some s' \<and> in_step (info(t := i)) s'
    \<and> ready s' = (if in_ready_queue (info t) then ready s else add_mset t (ready s))"
proof (cases "in_ready_queue (info t)")
  case True
  with assms show ?thesis by (auto simp: on_enqueue_def)
next
  case False
  with assms have b: "b" and i: "in_ready_queue i" "prio_ok i"
    by (auto simp: on_enqueue_def prio_ok_def)
  let ?Q = "{u. in_ready_queue (info u)}"
  have "holds (info(t := i)) s ?Q"
    using assms(1) i unfolding in_step_def by (elim holds_frame) simp
  from enqueue_holds [OF this _ assms(2)] False i obtain s' where
    "enqueue (info(t := i)) s t = Some s'" "ready s' = add_mset t (ready s)" "holds (info(t := i)) s' (insert t ?Q)" by auto
  moreover have "{u. in_ready_queue ((info(t := i)) u)} = insert t ?Q" using i by auto
  ultimately show ?thesis using b False by (simp add: in_step_def)
qed

lemma fetch_in_step:
  assumes "in_step info s" and "ready s \<noteq> {#}"
  shows "\<exists>t info' s'. dequeue now info s = Some (Some t, info', s') \<and> in_ready_queue (info t)
    \<and> ready s' = ready s - {#t#} \<and> (\<forall>u. same_accounts (info u) (info' u))
    \<and> in_step (info'(t := on_dispatch now (info' t))) s'"
proof -
  let ?Q = "{u. in_ready_queue (info u)}"
  have h: "holds info s ?Q" using assms(1) by (simp add: in_step_def)
  with assms(2) have "?Q \<noteq> {}" using holds_empty by blast
  from fetch_holds [OF h this, of now] obtain t info' s' where
    t: "dequeue now info s = Some (Some t, info', s')" "t \<in> ?Q" "ready s' = ready s - {#t#}"
      "\<forall>u. same_accounts (info u) (info' u)" "holds (info'(t := on_dispatch now (info' t))) s' (?Q - {t})" by blast
  have "{u. in_ready_queue ((info'(t := on_dispatch now (info' t))) u)} = ?Q - {t}"
    using t(4) by (auto simp: on_dispatch_def same_accounts_iff)
  with t show ?thesis by (auto simp: in_step_def)
qed

lemma preempt_in_step:
  assumes "in_step info s"
  shows "\<exists>b info' s'. preempt now info s cur = Some (b, info', s') \<and> ready s' = ready s
    \<and> (\<forall>u. same_accounts (info u) (info' u)) \<and> in_step info' s'"
proof -
  from preempt_holds [OF assms [unfolded in_step_def], of now cur] obtain b info' s' where
    p: "preempt now info s cur = Some (b, info', s')" "ready s' = ready s" "\<forall>u. same_accounts (info u) (info' u)"
      "holds info' s' {t. in_ready_queue (info t)}" by blast
  moreover have "{t. in_ready_queue (info' t)} = {t. in_ready_queue (info t)}" using p(3) by (simp add: same_accounts_iff)
  ultimately show ?thesis by (simp add: in_step_def)
qed

end

subsection \<open>Round robin keeps the contract\<close>

definition rr_inv :: "infos \<Rightarrow> round_robin_scheduler \<Rightarrow> bool" where
  "rr_inv info s \<longleftrightarrow> (\<forall>t \<in> set (ready_queue s). prio_ok (info t))"

interpretation rr: scheduling_policy "\<lambda>info s t. Some (rr_enqueue s t)"
  "\<lambda>now info s. Some (fst (rr_dequeue s), info, snd (rr_dequeue s))"
  "\<lambda>now info s cur. Some (rr_should_preempt info s cur, info, s)"
  "\<lambda>s. mset (ready_queue s)" rr_inv
proof unfold_locales
  show "\<exists>t info' s'. Some (fst (rr_dequeue s), info, snd (rr_dequeue s)) = Some (Some t, info', s')
      \<and> t \<in># mset (ready_queue s) \<and> mset (ready_queue s') = mset (ready_queue s) - {#t#}
      \<and> rr_inv info' s' \<and> (\<forall>u. same_accounts (info u) (info' u))"
    if "rr_inv info s" "mset (ready_queue s) \<noteq> {#}" for info s
    using that by (cases "ready_queue s") (auto simp: rr_dequeue_def rr_inv_def)
qed (auto simp: rr_inv_def rr_enqueue_def rr_dequeue_def)

subsection \<open>The priority policy keeps it too\<close>

definition ps_tasks :: "priority_scheduler \<Rightarrow> task list" where
  "ps_tasks s = concat (ready_queues s)"

definition ps_inv :: "infos \<Rightarrow> priority_scheduler \<Rightarrow> bool" where
  "ps_inv info s \<longleftrightarrow> length (ready_queues s) = 8 \<and> distinct (ps_tasks s) \<and> 0 \<notin> set (ps_tasks s)
     \<and> unat (ready_tasks s) = length (ps_tasks s) \<and> (\<forall>t \<in> set (ps_tasks s). prio_ok (info t))"

lemma mset_concat_update:
  "i < length xss \<Longrightarrow> mset (concat (xss[i := ys])) + mset (xss ! i) = mset (concat xss) + mset ys"
  by (induction xss arbitrary: i) (auto split: nat.splits)

lemma mset_concat_levels:
  assumes "\<And>p. p < n \<Longrightarrow> mset (g p) = filter_mset (\<lambda>t. f t = p) M"
  shows "mset (concat (map g [0..<n])) = filter_mset (\<lambda>t. f t < n) M"
  using assms
proof (induction n)
  case 0
  then show ?case by simp
next
  case (Suc n)
  then show ?case by (auto simp: less_Suc_eq intro: multiset_eqI)
qed

lemma mset_aged_queue:
  assumes "p < length qs"
  shows "mset (aged_queue now info qs p) = filter_mset (\<lambda>t. eff now (info t) = p) (mset (concat qs))"
proof -
  have rev: "mset (concat (rev xss)) = mset (concat xss)" for xss :: "task list list"
    by (simp add: mset_concat flip: sum_mset_sum_list)
  have "concat qs = concat (take p qs) @ qs ! p @ concat (drop (Suc p) qs)"
    using arg_cong [OF id_take_nth_drop [OF assms], of concat] by (simp only: concat_append concat.simps)
  then have "mset (qs ! p @ concat (rev (drop (Suc p) qs)) @ concat (rev (take p qs))) = mset (concat qs)"
    by (simp add: rev)
  then show ?thesis by (simp only: aged_queue_def mset_filter)
qed

lemma mset_concat_aged:
  assumes "length qs = 8" and "\<forall>t \<in> set (concat qs). prio_ok (info t)"
  shows "mset (concat (map (aged_queue now info qs) [0..<8])) = mset (concat qs)"
proof -
  have "mset (concat (map (aged_queue now info qs) [0..<8]))
      = filter_mset (\<lambda>t. eff now (info t) < 8) (mset (concat qs))"
    by (rule mset_concat_levels) (simp add: mset_aged_queue assms(1))
  also have "\<dots> = mset (concat qs)"
    using assms(2) eff_bound by (intro filter_mset_eq_conv [THEN iffD2]) auto
  finally show ?thesis .
qed

lemma ps_inv_mset:
  assumes "ps_inv info s" and "mset (ps_tasks s') = mset (ps_tasks s)"
    and "length (ready_queues s') = 8" and "ready_tasks s' = ready_tasks s"
    and "\<And>t. prio_ok (info t) \<Longrightarrow> prio_ok (info' t)"
  shows "ps_inv info' s'"
  using assms mset_eq_setD [OF assms(2)] mset_eq_length [OF assms(2)] mset_eq_imp_distinct_iff [OF assms(2)]
  by (simp add: ps_inv_def)

lemma refresh_aging_ok:
  assumes "ps_inv info s"
  obtains s' where "refresh_aging now info s = Some (refreshed now info (ps_tasks s), s')"
    and "s' = s\<lparr>ready_queues := map (aged_queue now info (ready_queues s)) [0..<8]\<rparr>"
    and "mset (ps_tasks s') = mset (ps_tasks s)"
    and "ps_inv (refreshed now info (ps_tasks s)) s'"
proof -
  define s' where "s' = s\<lparr>ready_queues := map (aged_queue now info (ready_queues s)) [0..<8]\<rparr>"
  from assms have len: "length (ready_queues s) = 8" and ok: "\<forall>t \<in> set (concat (ready_queues s)). prio_ok (info t)"
    by (auto simp: ps_inv_def ps_tasks_def)
  have "refresh_aging now info s = Some (refreshed now info (ps_tasks s), s')"
    using refresh_aging_eq [OF len] ok by (simp add: s'_def ps_tasks_def)
  moreover have m: "mset (ps_tasks s') = mset (ps_tasks s)"
    using mset_concat_aged [OF len ok] by (simp add: s'_def ps_tasks_def)
  moreover have "ps_inv (refreshed now info (ps_tasks s)) s'"
    by (rule ps_inv_mset [OF assms m]) (simp_all add: s'_def)
  ultimately show ?thesis using that s'_def by blast
qed

lemma highest_ready_Some:
  assumes "highest_ready_priority s = Some p"
  shows "p < 8" and "ready_queues s ! p \<noteq> []" and "\<And>p'. p < p' \<Longrightarrow> p' < 8 \<Longrightarrow> ready_queues s ! p' = []"
proof -
  let ?P = "\<lambda>p. ready_queues s ! p \<noteq> []"
  from assms obtain i where i: "i < 8" "?P (rev [0..<8] ! i)" "p = rev [0..<8] ! i"
    "\<forall>j < i. \<not> ?P (rev [0..<8] ! j)"
    by (auto simp: highest_ready_priority_def PRIORITY_LEVELS_eq find_Some_iff)
  have rev: "rev [0..<8] ! j = 7 - j" if "j < 8" for j using that by (simp add: rev_nth)
  with i show "p < 8" "?P p" by auto
  show "ready_queues s ! p' = []" if "p < p'" "p' < 8" for p'
    using i(4) [rule_format, of "7 - p'"] rev [of "7 - p'"] rev [of i] i(1,3) that by auto
qed

lemma highest_ready_None:
  assumes "highest_ready_priority s = None" and "length (ready_queues s) = 8"
  shows "ps_tasks s = []"
  using assms by (auto simp: highest_ready_priority_def PRIORITY_LEVELS_eq find_None_iff ps_tasks_def
      in_set_conv_nth)

lemma ps_enqueue_ok:
  assumes inv: "ps_inv info s" and fresh: "t \<notin> set (ps_tasks s)" "t \<noteq> 0" and ok: "prio_ok (info t)"
  shows "\<exists>s'. ps_enqueue info s t = Some s' \<and> mset (ps_tasks s') = add_mset t (mset (ps_tasks s))
    \<and> ps_inv info s'"
proof -
  define p where "p = unat (min (effective_priority (info t)) MAX_PRIORITY)"
  define qs where "qs = ready_queues s"
  have "unat (min (effective_priority (info t)) MAX_PRIORITY) < 8"
    by (simp add: min_def word_le_nat_alt MAX_PRIORITY_def)
  then have p: "p < length qs" using inv by (simp add: ps_inv_def qs_def p_def)
  define s' where "s' = \<lparr>ready_queues = qs[p := qs ! p @ [t]], ready_tasks = ready_tasks s + 1\<rparr>"
  have enq: "ps_enqueue info s t = Some s'"
    using p by (simp add: ps_enqueue_def Let_def p_def [symmetric] qs_def [symmetric] s'_def idx_in_range upd_in_range)
  have m: "mset (ps_tasks s') = add_mset t (mset (ps_tasks s))"
    using mset_concat_update [OF p, of "qs ! p @ [t]"] by (simp add: ps_tasks_def s'_def qs_def [symmetric])
  then have set: "set (ps_tasks s') = insert t (set (ps_tasks s))"
    by (metis set_mset_add_mset_insert set_mset_mset)
  have len: "length (ps_tasks s') = Suc (length (ps_tasks s))"
    using m by (metis size_add_mset size_mset)
  have dist: "distinct (ps_tasks s')"
    using inv fresh m by (metis distinct.simps(2) mset.simps(2) mset_eq_imp_distinct_iff ps_inv_def)
  have "card (insert 0 (set (ps_tasks s'))) \<le> 2 ^ 64"
    using card_mono [of "UNIV :: usize set" "insert 0 (set (ps_tasks s'))"] by (simp add: card_word)
  moreover have "0 \<notin> set (ps_tasks s')" using inv fresh by (simp add: set ps_inv_def)
  ultimately have "length (ps_tasks s') < 2 ^ 64" using distinct_card [OF dist] by simp
  then have "unat (ready_tasks s + 1) = length (ps_tasks s')"
    using inv by (subst unat_add_no_wrap) (simp_all add: ps_inv_def len)
  moreover have "ready_tasks s' = ready_tasks s + 1" "length (ready_queues s') = length (ready_queues s)"
    by (simp_all add: s'_def qs_def)
  ultimately show ?thesis using inv fresh dist set ok
    by (intro exI [of _ s']) (simp add: enq m ps_inv_def)
qed

lemma ps_inv_empty: "ps_inv info s \<Longrightarrow> ready_tasks s = 0 \<longleftrightarrow> ps_tasks s = []"
  by (metis length_0_conv ps_inv_def unat_eq_zero)

text \<open>The shape of a successful dispatch: aging, then the head of the highest queue.\<close>

lemma ps_dequeue_shape:
  assumes inv: "ps_inv info s" and "ps_tasks s \<noteq> []"
  obtains t p ts s' where
    "ps_dequeue now info s = Some (Some t, refreshed now info (ps_tasks s), s')"
    and "p < 8" and "aged_queue now info (ready_queues s) p = t # ts"
    and "\<And>p'. p < p' \<Longrightarrow> p' < 8 \<Longrightarrow> aged_queue now info (ready_queues s) p' = []"
    and "s' = s\<lparr>ready_tasks := ready_tasks s - 1,
      ready_queues := (map (aged_queue now info (ready_queues s)) [0..<8])[p := ts]\<rparr>"
    and "ps_inv (refreshed now info (ps_tasks s)) s'"
    and "mset (ps_tasks s) = add_mset t (mset (ps_tasks s'))"
proof -
  from refresh_aging_ok [OF inv, of now] obtain s1 where
    s1: "refresh_aging now info s = Some (refreshed now info (ps_tasks s), s1)"
    "s1 = s\<lparr>ready_queues := map (aged_queue now info (ready_queues s)) [0..<8]\<rparr>"
    and m1: "mset (ps_tasks s1) = mset (ps_tasks s)"
    and inv1: "ps_inv (refreshed now info (ps_tasks s)) s1" by blast
  have len: "length (ready_queues s1) = 8" by (simp add: s1(2))
  have "ps_tasks s1 \<noteq> []" using m1 assms(2) by (metis mset_zero_iff_right)
  with highest_ready_None [OF _ len] obtain p where p: "highest_ready_priority s1 = Some p"
    by (cases "highest_ready_priority s1") auto
  note high = highest_ready_Some [OF p]
  from high(2) obtain t ts where q: "ready_queues s1 ! p = t # ts" by (cases "ready_queues s1 ! p") auto
  define s' where "s' = s1\<lparr>ready_tasks := ready_tasks s1 - 1, ready_queues := (ready_queues s1)[p := ts]\<rparr>"
  have deq: "ps_dequeue now info s = Some (Some t, refreshed now info (ps_tasks s), s')"
    using assms(2) ps_inv_empty [OF inv] high(1) len
    by (simp add: ps_dequeue_def s1(1) p idx_in_range q s'_def)
  have m: "add_mset t (mset (ps_tasks s')) = mset (ps_tasks s1)"
    using mset_concat_update [of p "ready_queues s1" ts] high(1) len q by (simp add: ps_tasks_def s'_def)
  have set: "set (ps_tasks s1) = insert t (set (ps_tasks s'))"
    using m by (metis set_mset_add_mset_insert set_mset_mset)
  have l: "length (ps_tasks s1) = Suc (length (ps_tasks s'))" using m by (metis size_add_mset size_mset)
  have dist: "distinct (ps_tasks s')"
    using inv1 m by (metis distinct.simps(2) mset.simps(2) mset_eq_imp_distinct_iff ps_inv_def)
  have "ready_tasks s1 \<noteq> 0" using ps_inv_empty [OF inv1] l by auto
  then have "unat (ready_tasks s1 - 1) = length (ps_tasks s')"
    using inv1 l by (simp add: ps_inv_def unat_sub word_le_nat_alt unat_gt_0 Suc_leI)
  moreover have "ready_tasks s' = ready_tasks s1 - 1" "length (ready_queues s') = 8"
    by (simp_all add: s'_def len)
  ultimately have "ps_inv (refreshed now info (ps_tasks s)) s'"
    using inv1 set dist by (simp add: ps_inv_def)
  moreover have "aged_queue now info (ready_queues s) p' = ready_queues s1 ! p'" if "p' < 8" for p'
    using that by (simp add: s1(2))
  ultimately show ?thesis
    using that [OF deq high(1), of ts] q high m m1 by (simp add: s'_def s1(2))
qed

lemma ps_dequeue_ok:
  assumes inv: "ps_inv info s" and nonempty: "ps_tasks s \<noteq> []"
  shows "\<exists>t info' s'. ps_dequeue now info s = Some (Some t, info', s') \<and> t \<in> set (ps_tasks s)
    \<and> mset (ps_tasks s') = mset (ps_tasks s) - {#t#} \<and> ps_inv info' s'
    \<and> (\<forall>u. same_accounts (info u) (info' u))"
proof -
  from ps_dequeue_shape [OF inv nonempty, of now] obtain t s' where
    t: "ps_dequeue now info s = Some (Some t, refreshed now info (ps_tasks s), s')"
    "ps_inv (refreshed now info (ps_tasks s)) s'"
    and m: "mset (ps_tasks s) = add_mset t (mset (ps_tasks s'))" by metis
  from m have "t \<in> set (ps_tasks s)" by (metis set_mset_mset union_single_eq_member)
  with t m same_accounts_refreshed [of info now "ps_tasks s"] show ?thesis
    by (intro exI [of _ t] exI conjI) simp_all
qed

lemma ps_should_preempt_ok:
  assumes inv: "ps_inv info s"
  shows "\<exists>b info' s'. ps_should_preempt now info s cur = Some (b, info', s')
    \<and> mset (ps_tasks s') = mset (ps_tasks s) \<and> ps_inv info' s' \<and> (\<forall>u. same_accounts (info u) (info' u))"
proof (cases "ps_tasks s = []")
  case True
  with ps_inv_empty [OF inv] inv show ?thesis by (auto simp: ps_should_preempt_def)
next
  case False
  from refresh_aging_ok [OF inv, of now] obtain s1 where
    s1: "refresh_aging now info s = Some (refreshed now info (ps_tasks s), s1)"
    "mset (ps_tasks s1) = mset (ps_tasks s)" "ps_inv (refreshed now info (ps_tasks s)) s1" by blast
  then have "ps_tasks s1 \<noteq> []" "length (ready_queues s1) = 8" using False by (auto simp: ps_inv_def)
  with highest_ready_None obtain p where "highest_ready_priority s1 = Some p"
    by (cases "highest_ready_priority s1") auto
  with False ps_inv_empty [OF inv] s1 same_accounts_refreshed [of info now "ps_tasks s"] show ?thesis
    by (simp add: ps_should_preempt_def)
qed

interpretation ps: scheduling_policy ps_enqueue ps_dequeue ps_should_preempt "\<lambda>s. mset (ps_tasks s)" ps_inv
proof unfold_locales
  show "ps_dequeue now info s = Some (None, info, s)" if "ps_inv info s" "mset (ps_tasks s) = {#}" for now info s
    using that ps_inv_empty [OF that(1)] by (simp add: ps_dequeue_def)
  show "prio_ok (info t)" if "ps_inv info s" "t \<in># mset (ps_tasks s)" for info s t
    using that by (simp add: ps_inv_def)
  show "ps_inv info' s" if "ps_inv info s" "\<And>t. t \<in># mset (ps_tasks s) \<Longrightarrow> prio_ok (info' t)" for info s info'
    using that by (simp add: ps_inv_def)
qed (simp_all add: ps_enqueue_ok ps_dequeue_ok ps_should_preempt_ok)

subsection \<open>Which task runs next\<close>

lemma aged_queue_member:
  assumes "ps_inv info s" and "u \<in> set (ps_tasks s)"
  shows "u \<in> set (aged_queue now info (ready_queues s) (eff now (info u)))"
proof -
  from assms have "eff now (info u) < length (ready_queues s)" by (simp add: ps_inv_def eff_bound)
  from mset_aged_queue [OF this, of now info] assms(2) have
    "u \<in># mset (aged_queue now info (ready_queues s) (eff now (info u)))" by (simp add: ps_tasks_def)
  then show ?thesis by simp
qed

lemma first_of_filter:
  assumes "filter P (as @ xs @ t # ys @ bs) = t # ts" and "distinct (as @ xs @ t # ys @ bs)" and "u \<in> set xs"
  shows "\<not> P u"
proof
  assume "P u"
  with assms(3) have "filter P (as @ xs) \<noteq> []" by (auto simp: filter_empty_conv)
  then obtain v vs where v: "filter P (as @ xs) = v # vs" by (cases "filter P (as @ xs)") auto
  with assms(1) have "v = t" by (metis append_Cons append_assoc filter_append list.inject)
  moreover have "v \<in> set (as @ xs)" using v by (metis filter_is_subset list.set_intros(1) subsetD)
  ultimately show False using assms(2) by auto
qed

lemma aged_head_overtakes:
  assumes inv: "ps_inv info s" and "p < 8" and head: "aged_queue now info (ready_queues s) p = t # ts"
    and "l < 8" and queue: "ready_queues s ! l = xs @ t # ys" and "u \<in> set xs"
  shows "eff now (info u) \<noteq> p"
proof -
  define qs where "qs = ready_queues s"
  define ls where "ls = qs ! p # rev (drop (Suc p) qs) @ rev (take p qs)"
  have len: "length qs = 8" using inv by (simp add: ps_inv_def qs_def)
  have split: "set qs = set ls"
    using arg_cong [OF id_take_nth_drop [of p qs], of set] assms(2) len by (simp add: ls_def Un_commute)
  have filter: "filter (\<lambda>t. eff now (info t) = p) (concat ls) = t # ts"
    using head by (simp add: aged_queue_def ls_def qs_def)
  obtain as bs where parts: "concat ls = as @ (xs @ t # ys) @ bs"
  proof -
    have "qs ! l \<in> set ls" using assms(4) len split nth_mem by metis
    then obtain as bs where "ls = as @ qs ! l # bs" by (meson split_list)
    then have "concat ls = concat as @ (xs @ t # ys) @ concat bs" 
      using queue by (simp add: qs_def)
    then show thesis by (rule that)
  qed
  have dist: "distinct (concat ls)"
  proof -
    have rev: "mset (concat (rev xss)) = mset (concat xss)" for xss :: "task list list"
      by (simp add: mset_concat flip: sum_mset_sum_list)
    have "mset (concat qs) = mset (concat ls)"
      using arg_cong [OF id_take_nth_drop [of p qs], of "\<lambda>x. mset (concat x)"] assms(2) len
      by (simp add: ls_def rev)
    then show ?thesis using inv mset_eq_imp_distinct_iff by (auto simp: ps_inv_def ps_tasks_def qs_def)
  qed
  from first_of_filter [of "\<lambda>t. eff now (info t) = p" as xs t ys bs ts u] filter dist assms(6)
  show ?thesis by (simp add: parts)
qed

text \<open>C14: Aging leaves the ready queues as the reference definition says: whatever the queues and
  the scheduling records were, afterwards level \<open>p\<close> holds exactly the ready tasks whose effective
  priority is \<open>p\<close>, in the order of \<^const>\<open>aged_queue\<close>; the loop neither panics nor loses a task.\<close>

theorem aging_sorts_queues:
  assumes "ps_inv info s"
  shows "\<exists>s'. refresh_aging now info s = Some (refreshed now info (ps_tasks s), s')
    \<and> ready_queues s' = map (aged_queue now info (ready_queues s)) [0..<8]
    \<and> ready_tasks s' = ready_tasks s \<and> mset (ps_tasks s') = mset (ps_tasks s)"
  using refresh_aging_ok [OF assms, of now] by (metis priority_scheduler.select_convs(1,2)
      priority_scheduler.simps(3,4) priority_scheduler.surjective priority_scheduler.update_convs(1))

text \<open>C13: The task the priority policy dispatches has the highest effective priority of all ready
  tasks, and a task queued ahead of it at the same level has a strictly lower effective priority:
  equals are served first come, first served.\<close>

theorem dispatch_highest_fifo:
  assumes inv: "ps_inv info s" and "ps_tasks s \<noteq> []"
  shows "\<exists>t info' s'. ps_dequeue now info s = Some (Some t, info', s') \<and> t \<in> set (ps_tasks s)
    \<and> list_all (\<lambda>u. eff now (info u) \<le> eff now (info t)) (ps_tasks s)
    \<and> \<not> (\<exists>l xs u ys zs. l < 8 \<and> ready_queues s ! l = xs @ u # ys @ t # zs \<and> eff now (info u) = eff now (info t))"
proof -
  from ps_dequeue_shape [OF assms, of now] obtain t p ts s' where
    deq: "ps_dequeue now info s = Some (Some t, refreshed now info (ps_tasks s), s')"
    and p: "p < 8" and head: "aged_queue now info (ready_queues s) p = t # ts"
    and above: "\<And>p'. p < p' \<Longrightarrow> p' < 8 \<Longrightarrow> aged_queue now info (ready_queues s) p' = []"
    and m: "mset (ps_tasks s) = add_mset t (mset (ps_tasks s'))" by metis
  have "t \<in> set (aged_queue now info (ready_queues s) p)" by (simp add: head)
  then have t: "eff now (info t) = p" by (auto simp: aged_queue_def)
  have "eff now (info u) \<le> p" if "u \<in> set (ps_tasks s)" for u
  proof (rule ccontr)
    assume "\<not> eff now (info u) \<le> p"
    moreover have "eff now (info u) < 8" using inv that by (simp add: ps_inv_def eff_bound)
    ultimately have "aged_queue now info (ready_queues s) (eff now (info u)) = []" using above by simp
    with aged_queue_member [OF inv that, of now] show False by simp
  qed
  then have "list_all (\<lambda>u. eff now (info u) \<le> eff now (info t)) (ps_tasks s)"
    by (simp add: list_all_iff t)
  moreover have "eff now (info u) \<noteq> eff now (info t)"
    if "l < 8" "ready_queues s ! l = xs @ u # ys @ t # zs" for l xs u ys zs
    unfolding t using aged_head_overtakes [OF inv p head that(1), of "xs @ u # ys" zs u] that(2) by simp
  moreover have "t \<in> set (ps_tasks s)" using m by (metis set_mset_mset union_single_eq_member)
  ultimately show ?thesis using deq by blast
qed

text \<open>Two tasks are ready: one of priority 4 for 60 ticks, one of priority 6 for none.\<close>

definition example_info :: infos where
  "example_info = (\<lambda>t. \<lparr>base_priority = (if t = 1 then 4 else 6), effective_priority = 6,
     ready_since = (if t = 1 then 0 else 60), runtime_ticks = 0, total_wait_ticks = 0,
     scheduled_count = 0, slice_ticks = 0, in_ready_queue = True\<rparr>)"

definition example_queues :: priority_scheduler where
  "example_queues = \<lparr>ready_queues = [[], [], [], [], [1], [], [2], []], ready_tasks = 2\<rparr>"

lemma example_queues_inv: "ps_inv example_info example_queues"
  by (simp add: ps_inv_def ps_tasks_def example_queues_def prio_ok_def example_info_def MAX_PRIORITY_def)

theorem aging_sorts_queues_witness:
  "\<exists>s'. refresh_aging 60 example_info example_queues
      = Some (refreshed 60 example_info (ps_tasks example_queues), s')
    \<and> ready_queues s' = map (aged_queue 60 example_info (ready_queues example_queues)) [0..<8]
    \<and> ready_tasks s' = ready_tasks example_queues \<and> mset (ps_tasks s') = mset (ps_tasks example_queues)"
  by (rule aging_sorts_queues [OF example_queues_inv])

theorem dispatch_highest_fifo_witness:
  "\<exists>t info' s'. ps_dequeue 60 example_info example_queues = Some (Some t, info', s')
    \<and> t \<in> set (ps_tasks example_queues)
    \<and> list_all (\<lambda>u. eff 60 (example_info u) \<le> eff 60 (example_info t)) (ps_tasks example_queues)
    \<and> \<not> (\<exists>l xs u ys zs. l < 8 \<and> ready_queues example_queues ! l = xs @ u # ys @ t # zs
      \<and> eff 60 (example_info u) = eff 60 (example_info t))"
  by (rule dispatch_highest_fifo [OF example_queues_inv]) (simp add: ps_tasks_def example_queues_def)

end
