(* ===== verification/Tasks.thy ===== *)
theory Tasks
  imports Scheduler
begin

section \<open>The task manager and the processor\<close>

text \<open>
  os/src/task/manager.rs, os/src/task/processor.rs and the switching operations of
  os/src/task/mod.rs. The state is the split heap of control blocks as far as scheduling uses it,
  the active policy and the task the processor runs. \<^verbatim>\<open>schedule\<close> and
  \<^verbatim>\<open>__switch\<close> save and restore registers and return to the loop of
  \<^verbatim>\<open>run_tasks\<close>: in the model the processor then has no current task and the next
  dispatch chooses one. An operation of the kernel that goes on after it has been switched back in
  is the composition of the parts before and after the switch.
\<close>

datatype task_status = Ready | Running | Blocked | Stopped

datatype scheduler_policy = RoundRobin | PriorityAging

datatype scheduler = RoundRobinScheduler round_robin_scheduler | PriorityScheduler priority_scheduler

definition DEFAULT_SCHEDULER_POLICY :: scheduler_policy where
  "DEFAULT_SCHEDULER_POLICY = PriorityAging"

fun build_scheduler :: "scheduler_policy \<Rightarrow> scheduler" where
  "build_scheduler RoundRobin = RoundRobinScheduler rr_new"
| "build_scheduler PriorityAging = PriorityScheduler ps_new"

text \<open>The calls through \<^verbatim>\<open>dyn Scheduler\<close>.\<close>

fun sched_enqueue :: "infos \<Rightarrow> scheduler \<Rightarrow> task \<Rightarrow> scheduler outcome" where
  "sched_enqueue info (RoundRobinScheduler s) t = Some (RoundRobinScheduler (rr_enqueue s t))"
| "sched_enqueue info (PriorityScheduler s) t = map_option PriorityScheduler (ps_enqueue info s t)"

fun sched_dequeue :: "usize \<Rightarrow> infos \<Rightarrow> scheduler \<Rightarrow> (task option \<times> infos \<times> scheduler) outcome" where
  "sched_dequeue now info (RoundRobinScheduler s) =
     (let (t, s') = rr_dequeue s in Some (t, info, RoundRobinScheduler s'))"
| "sched_dequeue now info (PriorityScheduler s) = do {
     (t, info', s') \<leftarrow> ps_dequeue now info s;
     Some (t, info', PriorityScheduler s')
   }"

fun sched_preempt :: "usize \<Rightarrow> infos \<Rightarrow> scheduler \<Rightarrow> task \<Rightarrow> (bool \<times> infos \<times> scheduler) outcome" where
  "sched_preempt now info (RoundRobinScheduler s) cur =
     Some (rr_should_preempt info s cur, info, RoundRobinScheduler s)"
| "sched_preempt now info (PriorityScheduler s) cur = do {
     (b, info', s') \<leftarrow> ps_should_preempt now info s cur;
     Some (b, info', PriorityScheduler s')
   }"

fun sched_name :: "scheduler \<Rightarrow> string" where
  "sched_name (RoundRobinScheduler s) = ''round-robin''"
| "sched_name (PriorityScheduler s) = ''priority-aging''"

record tasks =
  sched_of :: infos
  status_of :: "task \<Rightarrow> task_status"
  policy :: scheduler
  running :: "task option"

subsection \<open>TaskManager\<close>

definition add_task :: "usize \<Rightarrow> task \<Rightarrow> 'a tasks_scheme \<Rightarrow> 'a tasks_scheme outcome" where
  "add_task now t k = (
     let (should_enqueue, i) = on_enqueue now (sched_of k t);
         k' = k\<lparr>sched_of := (sched_of k)(t := i)\<rparr>
     in if should_enqueue then do {
          p \<leftarrow> sched_enqueue (sched_of k') (policy k') t;
          Some (k'\<lparr>policy := p\<rparr>)
        } else Some k')"

definition fetch_task :: "usize \<Rightarrow> 'a tasks_scheme \<Rightarrow> (task option \<times> 'a tasks_scheme) outcome" where
  "fetch_task now k = do {
     (r, info, p) \<leftarrow> sched_dequeue now (sched_of k) (policy k);
     Some (case r of
         None \<Rightarrow> (None, k\<lparr>sched_of := info, policy := p\<rparr>)
       | Some t \<Rightarrow> (Some t, k\<lparr>sched_of := info(t := on_dispatch now (info t)), policy := p\<rparr>))
   }"

definition should_preempt :: "usize \<Rightarrow> task \<Rightarrow> 'a tasks_scheme \<Rightarrow> (bool \<times> 'a tasks_scheme) outcome" where
  "should_preempt now cur k = do {
     (b, info, p) \<leftarrow> sched_preempt now (sched_of k) (policy k) cur;
     Some (b, k\<lparr>sched_of := info, policy := p\<rparr>)
   }"

definition wakeup_task :: "usize \<Rightarrow> task \<Rightarrow> 'a tasks_scheme \<Rightarrow> 'a tasks_scheme outcome" where
  "wakeup_task now t k = add_task now t (k\<lparr>status_of := (status_of k)(t := Ready)\<rparr>)"

subsection \<open>Processor\<close>

definition take_current_task :: "'a tasks_scheme \<Rightarrow> task option \<times> 'a tasks_scheme" where
  "take_current_task k = (running k, k\<lparr>running := None\<rparr>)"

definition current_task :: "'a tasks_scheme \<Rightarrow> task option" where
  "current_task k = running k"

text \<open>One turn of the loop of \<^verbatim>\<open>run_tasks\<close>, up to the switch.\<close>

definition run_tasks_turn :: "usize \<Rightarrow> 'a tasks_scheme \<Rightarrow> 'a tasks_scheme outcome" where
  "run_tasks_turn now k = do {
     (r, k') \<leftarrow> fetch_task now k;
     Some (case r of
         None \<Rightarrow> k'
       | Some t \<Rightarrow> k'\<lparr>status_of := (status_of k')(t := Running), running := Some t\<rparr>)
   }"

subsection \<open>Giving up the processor\<close>

definition suspend_current_and_run_next :: "usize \<Rightarrow> 'a tasks_scheme \<Rightarrow> 'a tasks_scheme outcome" where
  "suspend_current_and_run_next now k = (
     let (cur, k') = take_current_task k in do {
       t \<leftarrow> cur;
       add_task now t (k'\<lparr>status_of := (status_of k')(t := Ready)\<rparr>)
     })"

definition block_current_task :: "'a tasks_scheme \<Rightarrow> 'a tasks_scheme outcome" where
  "block_current_task k = (
     let (cur, k') = take_current_task k in do {
       t \<leftarrow> cur;
       Some (k'\<lparr>status_of := (status_of k')(t := Blocked),
         sched_of := (sched_of k')(t := on_block (sched_of k' t))\<rparr>)
     })"

definition block_current_and_run_next :: "'a tasks_scheme \<Rightarrow> 'a tasks_scheme outcome" where
  "block_current_and_run_next k = block_current_task k"

definition on_current_task_timer_tick :: "usize \<Rightarrow> 'a tasks_scheme \<Rightarrow> (bool \<times> 'a tasks_scheme) outcome" where
  "on_current_task_timer_tick now k = (case current_task k of
     None \<Rightarrow> Some (False, k)
   | Some t \<Rightarrow> should_preempt now t (k\<lparr>sched_of := (sched_of k)(t := on_timer_tick (sched_of k t))\<rparr>))"

definition should_preempt_current_task :: "usize \<Rightarrow> 'a tasks_scheme \<Rightarrow> (bool \<times> 'a tasks_scheme) outcome" where
  "should_preempt_current_task now k = (case current_task k of
     None \<Rightarrow> Some (False, k)
   | Some t \<Rightarrow> should_preempt now t k)"

subsection \<open>The active policy keeps the contract\<close>

fun sched_ready :: "scheduler \<Rightarrow> task multiset" where
  "sched_ready (RoundRobinScheduler s) = mset (ready_queue s)"
| "sched_ready (PriorityScheduler s) = mset (ps_tasks s)"

fun sched_inv :: "infos \<Rightarrow> scheduler \<Rightarrow> bool" where
  "sched_inv info (RoundRobinScheduler s) = rr_inv info s"
| "sched_inv info (PriorityScheduler s) = ps_inv info s"

interpretation dyn: scheduling_policy sched_enqueue sched_dequeue sched_preempt sched_ready sched_inv
proof unfold_locales
  show "\<exists>s'. sched_enqueue info s t = Some s' \<and> sched_ready s' = add_mset t (sched_ready s) \<and> sched_inv info s'"
    if "sched_inv info s" "t \<notin># sched_ready s" "t \<noteq> 0" "prio_ok (info t)" for info s t
    using that rr.enqueue_ok ps.enqueue_ok by (cases s) fastforce+
  show "sched_dequeue now info s = Some (None, info, s)"
    if "sched_inv info s" "sched_ready s = {#}" for now info s
    using that rr.dequeue_none ps.dequeue_none [of info _ now]
    by (cases s) (auto simp: split_beta)
  show "\<exists>t info' s'. sched_dequeue now info s = Some (Some t, info', s') \<and> t \<in># sched_ready s
      \<and> sched_ready s' = sched_ready s - {#t#} \<and> sched_inv info' s' \<and> (\<forall>u. same_accounts (info u) (info' u))"
    if "sched_inv info s" "sched_ready s \<noteq> {#}" for now info s
    using that rr.dequeue_some ps.dequeue_some [of info _ now]
    by (cases s) (fastforce simp: split_beta)+
  show "\<exists>b info' s'. sched_preempt now info s cur = Some (b, info', s') \<and> sched_ready s' = sched_ready s
      \<and> sched_inv info' s' \<and> (\<forall>u. same_accounts (info u) (info' u))"
    if "sched_inv info s" for now info s cur
    using that rr.preempt_ok ps.preempt_ok [of info _ now cur] by (cases s) fastforce+
  show "prio_ok (info t)" if "sched_inv info s" "t \<in># sched_ready s" for info s t
    using that rr.inv_prio ps.inv_prio by (cases s) auto
  show "sched_inv info' s" if "sched_inv info s" "\<And>t. t \<in># sched_ready s \<Longrightarrow> prio_ok (info' t)" for info s info'
    using that rr.inv_frame ps.inv_frame by (cases s) auto
qed

subsection \<open>The operations under the contract\<close>

abbreviation queue_ok :: "'a tasks_scheme \<Rightarrow> bool" where
  "queue_ok k \<equiv> dyn.in_step (sched_of k) (policy k)"

lemma on_enqueue_flag [simp]: "in_ready_queue (snd (on_enqueue now i))"
  by (simp add: on_enqueue_def)

lemma add_task_ok:
  assumes "queue_ok k" and "t \<noteq> 0" and "prio_ok (sched_of k t)"
  obtains p where
    "add_task now t k = Some (k\<lparr>sched_of := (sched_of k)(t := snd (on_enqueue now (sched_of k t))), policy := p\<rparr>)"
    and "dyn.in_step ((sched_of k)(t := snd (on_enqueue now (sched_of k t)))) p"
    and "sched_ready p = (if in_ready_queue (sched_of k t) then sched_ready (policy k)
      else add_mset t (sched_ready (policy k)))"
proof -
  obtain b i where bi: "on_enqueue now (sched_of k t) = (b, i)" by fastforce
  from dyn.add_in_step [OF assms bi] obtain p where
    p: "(if b then sched_enqueue ((sched_of k)(t := i)) (policy k) t else Some (policy k)) = Some p"
    "dyn.in_step ((sched_of k)(t := i)) p"
    "sched_ready p = (if in_ready_queue (sched_of k t) then sched_ready (policy k)
      else add_mset t (sched_ready (policy k)))" by blast
  have "add_task now t k = Some (k\<lparr>sched_of := (sched_of k)(t := i), policy := p\<rparr>)"
    using p(1) by (cases b) (auto simp: add_task_def bi)
  with p that show ?thesis by (simp add: bi)
qed

lemma fetch_task_ok:
  assumes "queue_ok k" and "sched_ready (policy k) \<noteq> {#}"
  obtains t info p where
    "fetch_task now k = Some (Some t, k\<lparr>sched_of := info(t := on_dispatch now (info t)), policy := p\<rparr>)"
    and "in_ready_queue (sched_of k t)" and "\<And>u. same_accounts (sched_of k u) (info u)"
    and "dyn.in_step (info(t := on_dispatch now (info t))) p"
    and "sched_ready p = sched_ready (policy k) - {#t#}"
proof -
  from dyn.fetch_in_step [OF assms, of now] obtain t info p where
    "sched_dequeue now (sched_of k) (policy k) = Some (Some t, info, p)" "in_ready_queue (sched_of k t)"
    "sched_ready p = sched_ready (policy k) - {#t#}" "\<forall>u. same_accounts (sched_of k u) (info u)"
    "dyn.in_step (info(t := on_dispatch now (info t))) p" by blast
  with that show ?thesis by (simp add: fetch_task_def)
qed

lemma fetch_task_empty:
  assumes "queue_ok k" and "sched_ready (policy k) = {#}"
  shows "fetch_task now k = Some (None, k)"
  using dyn.dequeue_none [of "sched_of k" "policy k" now] assms by (simp add: fetch_task_def dyn.in_step_inv)

lemma should_preempt_ok:
  assumes "queue_ok k"
  obtains b info p where "should_preempt now cur k = Some (b, k\<lparr>sched_of := info, policy := p\<rparr>)"
    and "\<And>u. same_accounts (sched_of k u) (info u)" and "dyn.in_step info p"
    and "sched_ready p = sched_ready (policy k)"
proof -
  from dyn.preempt_in_step [OF assms, of now cur] obtain b info p where
    "sched_preempt now (sched_of k) (policy k) cur = Some (b, info, p)" "sched_ready p = sched_ready (policy k)"
    "\<forall>u. same_accounts (sched_of k u) (info u)" "dyn.in_step info p" by blast
  with that show ?thesis by (simp add: should_preempt_def)
qed

subsection \<open>All interleavings of the task operations\<close>

text \<open>
  What can happen to the tasks, in any order: a task is created and made ready, the idle loop
  dispatches one, the current task yields, a timer tick or the return from a system call asks
  whether to preempt, and a task waits for something. The last goes in two parts: the task
  \<^emph>\<open>enlists\<close>, which puts it into the timer heap or a wait queue, and then blocks. From the moment
  it has enlisted it can be woken, by an interrupt even before it has blocked: the wakeup does not look
  at the status. The state is the set \<open>A\<close> of created tasks, the set \<open>W\<close> of those that have enlisted
  and have not been woken since, and the kernel's state. The times are arbitrary.
\<close>

definition on_cpu :: "task set \<Rightarrow> 'a tasks_scheme \<Rightarrow> task \<Rightarrow> bool" where
  "on_cpu W k t \<longleftrightarrow> running k = Some t \<and> t \<notin> W \<and> status_of k t = Running"

inductive task_step :: "task set \<times> task set \<times> tasks \<Rightarrow> task set \<times> task set \<times> tasks \<Rightarrow> bool" where
  spawn: "t \<notin> A \<Longrightarrow> t \<noteq> 0 \<Longrightarrow> sched_info_new prio = Some i \<Longrightarrow>
    add_task now t (k\<lparr>sched_of := (sched_of k)(t := i), status_of := (status_of k)(t := Ready)\<rparr>) = Some k' \<Longrightarrow>
    task_step (A, W, k) (insert t A, W, k')"
| dispatch: "running k = None \<Longrightarrow> run_tasks_turn now k = Some k' \<Longrightarrow> task_step (A, W, k) (A, W, k')"
| suspend: "on_cpu W k t \<Longrightarrow> suspend_current_and_run_next now k = Some k' \<Longrightarrow> task_step (A, W, k) (A, W, k')"
| enlist: "on_cpu W k t \<Longrightarrow> task_step (A, W, k) (A, insert t W, k)"
| block: "running k = Some t \<Longrightarrow> \<not> on_cpu W k t \<Longrightarrow> block_current_and_run_next k = Some k' \<Longrightarrow>
    task_step (A, W, k) (A, W, k')"
| wakeup: "t \<in> W \<Longrightarrow> wakeup_task now t k = Some k' \<Longrightarrow> task_step (A, W, k) (A, W - {t}, k')"
| tick: "on_current_task_timer_tick now k = Some (b, k') \<Longrightarrow> task_step (A, W, k) (A, W, k')"
| check: "should_preempt_current_task now k = Some (b, k') \<Longrightarrow> task_step (A, W, k) (A, W, k')"

inductive_cases task_stepE: "task_step s s'"

text \<open>At boot there is no task; the unused addresses hold some record that is not queued.\<close>

definition no_task :: sched_info where
  "no_task = \<lparr>base_priority = 0, effective_priority = 0, ready_since = 0, runtime_ticks = 0,
     total_wait_ticks = 0, scheduled_count = 0, slice_ticks = 0, in_ready_queue = False\<rparr>"

definition boot_tasks :: "scheduler_policy \<Rightarrow> tasks" where
  "boot_tasks pol = \<lparr>sched_of = (\<lambda>_. no_task), status_of = (\<lambda>_. Ready),
     policy = build_scheduler pol, running = None\<rparr>"

text \<open>
  The tasks that should be in the ready queues: those that do not wait, except the current one. A
  current task whose status is Ready has been woken after it enlisted and is about to block.
\<close>

definition queued :: "task set \<Rightarrow> task set \<Rightarrow> tasks \<Rightarrow> task set" where
  "queued A W k = {t \<in> A. t \<notin> W \<and> (running k = Some t \<longrightarrow> status_of k t = Ready)}"

fun tasks_inv :: "task set \<times> task set \<times> tasks \<Rightarrow> bool" where
  "tasks_inv (A, W, k) \<longleftrightarrow> dyn.holds (sched_of k) (policy k) (queued A W k) \<and> 0 \<notin> A \<and> W \<subseteq> A
     \<and> (\<forall>t. in_ready_queue (sched_of k t) \<longleftrightarrow> t \<in> A \<and> status_of k t = Ready)
     \<and> (\<forall>t \<in> W. status_of k t \<noteq> Ready)
     \<and> (\<forall>t \<in> A. status_of k t = Running \<longrightarrow> running k = Some t)
     \<and> (\<forall>t. running k = Some t \<longrightarrow> t \<in> A \<and> (status_of k t = Running \<or> status_of k t = Ready))
     \<and> (\<forall>t \<in> A. prio_ok (sched_of k t))"

declare tasks_inv.simps [simp del]

lemma tasks_invD:
  assumes "tasks_inv (A, W, k)"
  shows "dyn.holds (sched_of k) (policy k) (queued A W k)" "0 \<notin> A" "W \<subseteq> A"
    "\<And>t. in_ready_queue (sched_of k t) \<longleftrightarrow> t \<in> A \<and> status_of k t = Ready" "\<And>t. t \<in> W \<Longrightarrow> status_of k t \<noteq> Ready"
    "\<And>t. t \<in> A \<Longrightarrow> status_of k t = Running \<Longrightarrow> running k = Some t" "\<And>t. running k = Some t \<Longrightarrow> t \<in> A"
    "\<And>t. running k = Some t \<Longrightarrow> status_of k t = Running \<or> status_of k t = Ready" "\<And>t. t \<in> A \<Longrightarrow> prio_ok (sched_of k t)"
  using assms unfolding tasks_inv.simps by blast+

lemma tasks_invI:
  assumes "dyn.holds (sched_of k) (policy k) (queued A W k)" "0 \<notin> A" "W \<subseteq> A"
    "\<And>t. in_ready_queue (sched_of k t) \<longleftrightarrow> t \<in> A \<and> status_of k t = Ready" "\<And>t. t \<in> W \<Longrightarrow> status_of k t \<noteq> Ready"
    "\<And>t. t \<in> A \<Longrightarrow> status_of k t = Running \<Longrightarrow> running k = Some t"
    "\<And>t. running k = Some t \<Longrightarrow> t \<in> A \<and> (status_of k t = Running \<or> status_of k t = Ready)" "\<And>t. t \<in> A \<Longrightarrow> prio_ok (sched_of k t)"
  shows "tasks_inv (A, W, k)"
  unfolding tasks_inv.simps using assms by blast

lemma boot_tasks_inv: "tasks_inv ({}, {}, boot_tasks pol)"
proof -
  have "ps_inv info ps_new" "rr_inv info rr_new" for info
    by (simp_all add: ps_inv_def ps_tasks_def ps_new_def PRIORITY_LEVELS_eq rr_inv_def rr_new_def)
  moreover have "sched_ready (build_scheduler pol) = {#}"
    by (cases pol) (simp_all add: ps_tasks_def ps_new_def rr_new_def)
  ultimately show ?thesis
    by (cases pol) (simp_all add: tasks_inv.simps boot_tasks_def no_task_def dyn.holds_def queued_def)
qed

lemma holds_updates:
  assumes "tasks_inv (A, W, k)" and "\<And>u. u \<in> A \<Longrightarrow> prio_ok (sched_of k u) \<Longrightarrow> prio_ok (info u)"
  shows "dyn.holds info (policy k) (queued A W k)"
proof -
  from tasks_invD(1) [OF assms(1)] show ?thesis by (rule dyn.holds_frame) (auto simp: queued_def assms(2))
qed

text \<open>A step that changes only scheduling records.\<close>

lemma tasks_inv_records:
  assumes "tasks_inv (A, W, k)" and s: "status_of k' = status_of k" "running k' = running k"
    and f: "\<And>t. in_ready_queue (sched_of k' t) = in_ready_queue (sched_of k t)"
    and p: "\<And>t. t \<in> A \<Longrightarrow> prio_ok (sched_of k t) \<Longrightarrow> prio_ok (sched_of k' t)"
    and h: "dyn.holds (sched_of k') (policy k') (queued A W k)"
  shows "tasks_inv (A, W, k')"
proof -
  have q: "queued A W k' = queued A W k" by (simp add: queued_def s)
  show ?thesis using assms(1) p h unfolding tasks_inv.simps q s f by blast
qed

text \<open>Making ready a task that is neither ready nor queued, or is new.\<close>

lemma make_ready_keeps:
  assumes inv: "tasks_inv (A, W, k)" and t: "t \<noteq> 0" "t \<in> A \<Longrightarrow> status_of k t \<noteq> Ready \<and> (t \<in> W \<or> running k = Some t)"
    and i: "prio_ok i" "\<not> in_ready_queue i" and r: "r = running k \<or> r = None \<and> running k = Some t"
  shows "\<exists>k'. add_task now t (k\<lparr>sched_of := (sched_of k)(t := i), status_of := (status_of k)(t := Ready),
      running := r\<rparr>) = Some k' \<and> tasks_inv (insert t A, W - {t}, k')"
proof -
  define k1 where "k1 = k\<lparr>sched_of := (sched_of k)(t := i), status_of := (status_of k)(t := Ready), running := r\<rparr>"
  define i' where "i' = snd (on_enqueue now i)"
  have e: "on_enqueue now i = (True, i')" and i': "prio_ok i'" "in_ready_queue i'" using i by (simp_all add: on_enqueue_def i'_def prio_ok_def)
  have t': "t \<notin> queued A W k" using t(2) by (auto simp: queued_def)
  have "dyn.holds ((sched_of k)(t := i')) (policy k) (queued A W k)" using inv i' by (intro holds_updates) simp_all
  from dyn.enqueue_holds [OF this t' t(1)] i' obtain p where
    p: "sched_enqueue ((sched_of k)(t := i')) (policy k) t = Some p"
    "dyn.holds ((sched_of k)(t := i')) p (insert t (queued A W k))" by auto
  let ?k' = "k1\<lparr>sched_of := (sched_of k)(t := i'), policy := p\<rparr>"
  have "add_task now t k1 = Some ?k'" using p(1) by (simp add: add_task_def k1_def e)
  moreover have q: "queued (insert t A) (W - {t}) ?k' = insert t (queued A W k)"
    using r by (auto simp: queued_def k1_def)
  have "tasks_inv (insert t A, W - {t}, ?k')"
  proof (rule tasks_invI)
    show "u \<in> insert t A \<and> (status_of ?k' u = Running \<or> status_of ?k' u = Ready)" if "running ?k' = Some u" for u
      using that r tasks_invD(7,8) [OF inv, of u] by (auto simp: k1_def)
    show "running ?k' = Some u" if "u \<in> insert t A" "status_of ?k' u = Running" for u
      using that r tasks_invD(6) [OF inv, of u] by (auto simp: k1_def split: if_splits)
  qed (use tasks_invD(2,3,4,5,9) [OF inv] t(1) i' p(2) q in \<open>auto simp: k1_def\<close>)
  ultimately show ?thesis by (auto simp: k1_def)
qed

lemma spawn_keeps:
  assumes "tasks_inv (A, W, k)" and "t \<notin> A" and "t \<noteq> 0" and "sched_info_new prio = Some i"
  shows "\<exists>k'. add_task now t (k\<lparr>sched_of := (sched_of k)(t := i), status_of := (status_of k)(t := Ready)\<rparr>) = Some k'
    \<and> tasks_inv (insert t A, W, k')"
proof -
  have "W - {t} = W" using tasks_invD(3) [OF assms(1)] assms(2) by auto
  moreover have "prio_ok i" "\<not> in_ready_queue i"
    using assms(4) by (auto simp: sched_info_new_def prio_ok_def split: if_splits)
  ultimately show ?thesis using make_ready_keeps [OF assms(1,3), of i "running k" now] assms(2) by simp
qed

lemma waiting_facts:
  assumes "tasks_inv (A, W, k)" "t \<in> W"
  shows "t \<in> A" "t \<noteq> 0" "\<not> in_ready_queue (sched_of k t)" "prio_ok (sched_of k t)" "status_of k t \<noteq> Ready"
  using tasks_invD [OF assms(1)] assms(2) by blast+

lemma on_cpu_facts:
  assumes "tasks_inv (A, W, k)" "on_cpu W k t"
  shows "t \<in> A" "t \<noteq> 0" "\<not> in_ready_queue (sched_of k t)" "prio_ok (sched_of k t)" "running k = Some t" "t \<notin> W" "status_of k t = Running"
proof -
  show r: "running k = Some t" "t \<notin> W" "status_of k t = Running" using assms(2) by (simp_all add: on_cpu_def)
  show "t \<in> A" using tasks_invD(7) [OF assms(1) r(1)] .
  then show "t \<noteq> 0" "\<not> in_ready_queue (sched_of k t)" "prio_ok (sched_of k t)"
    using tasks_invD(2,4,9) [OF assms(1)] r(3) by auto
qed

lemma wakeup_keeps:
  assumes inv: "tasks_inv (A, W, k)" and t: "t \<in> W"
  shows "\<exists>k'. wakeup_task now t k = Some k' \<and> tasks_inv (A, W - {t}, k')"
  using make_ready_keeps [OF inv, of t "sched_of k t" "running k" now] waiting_facts [OF inv t] t
  by (auto simp: wakeup_task_def insert_absorb)

lemma suspend_keeps:
  assumes inv: "tasks_inv (A, W, k)" and t: "on_cpu W k t"
  shows "\<exists>k'. suspend_current_and_run_next now k = Some k' \<and> tasks_inv (A, W, k')"
proof -
  note f = on_cpu_facts [OF inv t]
  from make_ready_keeps [OF inv, of t "sched_of k t" None now] f obtain k' where
    k': "add_task now t (k\<lparr>status_of := (status_of k)(t := Ready), running := None\<rparr>) = Some k'" "tasks_inv (A, W, k')"
    by (auto simp: insert_absorb)
  have "suspend_current_and_run_next now k
      = add_task now t (k\<lparr>status_of := (status_of k)(t := Ready), running := None\<rparr>)"
    by (simp add: suspend_current_and_run_next_def take_current_task_def f(5))
      (rule arg_cong [where f = "add_task now t"], simp)
  with k' show ?thesis by simp
qed

lemma enlist_keeps:
  assumes inv: "tasks_inv (A, W, k)" and t: "on_cpu W k t"
  shows "tasks_inv (A, insert t W, k)"
proof -
  note f = on_cpu_facts [OF inv t]
  have q: "queued A (insert t W) k = queued A W k" using f by (auto simp: queued_def)
  have "insert t W \<subseteq> A" using tasks_invD(3) [OF inv] f(1) by blast
  moreover have "\<forall>u \<in> insert t W. status_of k u \<noteq> Ready" using tasks_invD(5) [OF inv] f(7) by auto
  ultimately show ?thesis using inv unfolding tasks_inv.simps q by blast
qed

lemma block_keeps:
  assumes inv: "tasks_inv (A, W, k)" and t: "running k = Some t" "\<not> on_cpu W k t"
  shows "\<exists>k'. block_current_and_run_next k = Some k' \<and> tasks_inv (A, W, k')"
proof -
  let ?i = "(sched_of k)(t := on_block (sched_of k t))"
  let ?k' = "k\<lparr>running := None, status_of := (status_of k)(t := Blocked), sched_of := ?i\<rparr>"
  have A: "t \<in> A" "t \<in> W \<or> status_of k t = Ready" using tasks_invD(7,8) [OF inv t(1)] t by (auto simp: on_cpu_def)
  have h: "dyn.holds ?i (policy k) (queued A W k)"
    using inv by (rule holds_updates) (auto simp: on_block_def prio_ok_def)
  have q: "queued A W ?k' = queued A W k" using A t(1) by (auto simp: queued_def)
  have others: "running k \<noteq> Some u" if "u \<noteq> t" for u using t(1) that by simp
  have "tasks_inv (A, W, ?k')"
  proof (rule tasks_invI)
    show "running ?k' = Some u" if "u \<in> A" "status_of ?k' u = Running" for u
      using that tasks_invD(6) [OF inv, of u] others [of u] by (auto split: if_splits)
  qed (use tasks_invD(2,3,4,5,9) [OF inv] h q in \<open>auto simp: on_block_def prio_ok_def\<close>)
  then show ?thesis
    by (simp add: block_current_and_run_next_def block_current_task_def take_current_task_def t)
qed

text \<open>Enlisting and blocking at once, as a task does that waits for another task.\<close>

lemma wait_keeps:
  assumes inv: "tasks_inv (A, W, k)" and t: "on_cpu W k t"
  shows "\<exists>k'. block_current_and_run_next k = Some k' \<and> tasks_inv (A, insert t W, k')"
  using block_keeps [OF enlist_keeps [OF inv t], of t] on_cpu_facts(5) [OF inv t] by (simp add: on_cpu_def)

lemma dispatch_keeps:
  assumes inv: "tasks_inv (A, W, k)" and idle: "running k = None"
  shows "\<exists>k'. run_tasks_turn now k = Some k' \<and> tasks_inv (A, W, k') \<and> (queued A W k \<noteq> {} \<longrightarrow> (\<exists>t \<in> A. running k' = Some t))"
proof (cases "queued A W k = {}")
  case True
  note h = tasks_invD(1) [OF inv]
  with True have "sched_ready (policy k) = {#}" using dyn.holds_empty by blast
  with h have "sched_dequeue now (sched_of k) (policy k) = Some (None, sched_of k, policy k)"
    by (intro dyn.dequeue_none) (simp_all add: dyn.holds_def)
  with inv True show ?thesis by (simp add: run_tasks_turn_def fetch_task_def)
next
  case False
  note h = tasks_invD(1) [OF inv]
  from dyn.fetch_holds [OF h False, of now] obtain t info p where
    f: "sched_dequeue now (sched_of k) (policy k) = Some (Some t, info, p)" and t: "t \<in> queued A W k"
    and same: "\<And>u. same_accounts (sched_of k u) (info u)"
    and q: "dyn.holds (info(t := on_dispatch now (info t))) p (queued A W k - {t})" by blast
  let ?k' = "k\<lparr>sched_of := info(t := on_dispatch now (info t)), policy := p, status_of := (status_of k)(t := Running), running := Some t\<rparr>"
  have qq: "queued A W ?k' = queued A W k - {t}" using idle by (auto simp: queued_def)
  have same': "in_ready_queue (info u) = in_ready_queue (sched_of k u)" "prio_ok (info u) = prio_ok (sched_of k u)" for u
    using same [of u] by (simp_all add: same_accounts_iff prio_ok_def)
  have "tasks_inv (A, W, ?k')"
  proof (rule tasks_invI)
    show "running ?k' = Some u" if "u \<in> A" "status_of ?k' u = Running" for u
      using that tasks_invD(6) [OF inv, of u] idle by (auto split: if_splits)
  qed (use tasks_invD(2,3,4,5,9) [OF inv] t qq same' q in \<open>auto simp: on_dispatch_def prio_ok_def queued_def\<close>)
  with f t show ?thesis by (auto simp: run_tasks_turn_def fetch_task_def queued_def)
qed

lemma should_preempt_keeps:
  assumes inv: "tasks_inv (A, W, k)"
  shows "\<exists>b k'. should_preempt now cur k = Some (b, k') \<and> tasks_inv (A, W, k')"
proof -
  note h = tasks_invD(1) [OF inv]
  from dyn.preempt_holds [OF h, of now cur] obtain b info p where
    p: "sched_preempt now (sched_of k) (policy k) cur = Some (b, info, p)"
    and same: "\<And>u. same_accounts (sched_of k u) (info u)" and q: "dyn.holds info p (queued A W k)" by blast
  have "in_ready_queue (info u) = in_ready_queue (sched_of k u)" "prio_ok (info u) = prio_ok (sched_of k u)" for u
    using same [of u] by (simp_all add: same_accounts_iff prio_ok_def)
  then have "tasks_inv (A, W, k\<lparr>sched_of := info, policy := p\<rparr>)" using q by (intro tasks_inv_records [OF inv]) simp_all
  then show ?thesis using p by (simp add: should_preempt_def)
qed

lemma check_keeps:
  assumes inv: "tasks_inv (A, W, k)"
  shows "\<exists>b k'. should_preempt_current_task now k = Some (b, k') \<and> tasks_inv (A, W, k')"
  using assms should_preempt_keeps [OF inv]
  by (auto simp: should_preempt_current_task_def split: option.split)

lemma tick_keeps:
  assumes inv: "tasks_inv (A, W, k)"
  shows "\<exists>b k'. on_current_task_timer_tick now k = Some (b, k') \<and> tasks_inv (A, W, k')"
proof (cases "running k")
  case None
  with inv show ?thesis by (auto simp: on_current_task_timer_tick_def current_task_def)
next
  case (Some t)
  define k1 where "k1 = k\<lparr>sched_of := (sched_of k)(t := on_timer_tick (sched_of k t))\<rparr>"
  have "dyn.holds (sched_of k1) (policy k) (queued A W k)"
    using inv by (rule holds_updates) (auto simp: k1_def on_timer_tick_def prio_ok_def)
  then have "tasks_inv (A, W, k1)"
    by (intro tasks_inv_records [OF inv]) (auto simp: k1_def on_timer_tick_def prio_ok_def)
  from should_preempt_keeps [OF this, of now t] Some show ?thesis
    by (auto simp: on_current_task_timer_tick_def current_task_def k1_def)
qed

lemma task_step_keeps:
  assumes "task_step s s'" and "tasks_inv s"
  shows "tasks_inv s'"
  using assms
proof (induction rule: task_step.induct)
  case (spawn t A prio i now k k' W)
  with spawn_keeps [of A W k t prio i now] show ?case by auto
next
  case (dispatch k now k' A W)
  with dispatch_keeps [of A W k now] show ?case by auto
next
  case (suspend W k t now k' A)
  with suspend_keeps [of A W k t now] show ?case by auto
next
  case (enlist W k t A)
  with enlist_keeps show ?case by blast
next
  case (block k t W k' A)
  with block_keeps [of A W k t] show ?case by auto
next
  case (wakeup t W now k k' A)
  with wakeup_keeps [of A W k t now] show ?case by auto
next
  case (tick now k b k' A W)
  with tick_keeps [of A W k now] show ?case by auto
next
  case (check now k b k' A W)
  with check_keeps [of A W k now] show ?case by auto
qed

lemma reachable_tasks_inv: "task_step\<^sup>*\<^sup>* ({}, {}, boot_tasks pol) s \<Longrightarrow> tasks_inv s"
  by (induction rule: rtranclp_induct) (auto intro: boot_tasks_inv task_step_keeps)


text \<open>The first process is created with priority 4 at time 0 and dispatched at time 3.\<close>

lemma first_dispatch:
  "\<exists>k1 k. task_step ({}, {}, boot_tasks PriorityAging) ({1}, {}, k1) \<and> task_step ({1}, {}, k1) ({1}, {}, k)
    \<and> on_cpu {} k 1 \<and> tasks_inv ({1}, {}, k)"
proof -
  obtain i where i: "sched_info_new 4 = Some i" by (simp add: sched_info_new_def MIN_PRIORITY_def MAX_PRIORITY_def)
  from spawn_keeps [OF boot_tasks_inv [of PriorityAging], of 1 4 i 0] i obtain k where
    k: "add_task 0 1 ((boot_tasks PriorityAging)\<lparr>sched_of := (sched_of (boot_tasks PriorityAging))(1 := i),
        status_of := (status_of (boot_tasks PriorityAging))(1 := Ready)\<rparr>) = Some k" "tasks_inv ({1}, {}, k)" by auto
  from task_step.spawn [of 1 "{}" 4 i 0 "boot_tasks PriorityAging" k] i k have
    "task_step ({}, {}, boot_tasks PriorityAging) ({1}, {}, k)" by simp
  moreover from k(1) have idle: "running k = None" and "status_of k 1 = Ready"
    by (auto simp: add_task_def boot_tasks_def Let_def bind_Some_conv split: prod.splits if_splits)
  then have "queued {1} {} k \<noteq> {}" by (auto simp: queued_def)
  with dispatch_keeps [OF k(2) idle, of 3] obtain k' where
    k': "run_tasks_turn 3 k = Some k'" "tasks_inv ({1}, {}, k')" "running k' = Some 1" by auto
  moreover have "task_step ({1}, {}, k) ({1}, {}, k')" by (rule task_step.dispatch [OF idle k'(1)])
  moreover have "status_of k' 1 = Running" 
    using k'(1,3) idle by (auto simp: run_tasks_turn_def fetch_task_def bind_Some_conv split: option.splits)
  ultimately show ?thesis by (auto simp: on_cpu_def)
qed

text \<open>It enlists, is woken before it has blocked, and blocks.\<close>

lemma early_wakeup:
  "\<exists>k. task_step\<^sup>*\<^sup>* ({}, {}, boot_tasks PriorityAging) ({1}, {}, k) \<and> running k = None \<and> status_of k 1 = Blocked
    \<and> \<not> in_ready_queue (sched_of k 1)"
proof -
  obtain k1 k where s: "task_step ({}, {}, boot_tasks PriorityAging) ({1}, {}, k1)" "task_step ({1}, {}, k1) ({1}, {}, k)"
    and c: "on_cpu {} k 1" and inv: "tasks_inv ({1}, {}, k)" using first_dispatch by blast
  have e: "task_step ({1}, {}, k) ({1}, insert 1 {}, k)" by (rule task_step.enlist [OF c])
  have r: "running k = Some 1" using c by (simp add: on_cpu_def)
  from wakeup_keeps [OF enlist_keeps [OF inv c], of 1 4] obtain k2 where
    k2: "wakeup_task 4 1 k = Some k2" "tasks_inv ({1}, {}, k2)" by auto
  have w: "task_step ({1}, insert 1 {}, k) ({1}, insert 1 {} - {1}, k2)" by (rule task_step.wakeup [OF _ k2(1)]) simp
  have r2: "running k2 = Some 1" "status_of k2 1 = Ready" using k2(1) r
    by (auto simp: wakeup_task_def add_task_def Let_def bind_Some_conv split: prod.splits if_splits)
  then have n: "\<not> on_cpu {} k2 1" by (simp add: on_cpu_def)
  from block_keeps [OF k2(2) r2(1) n] obtain k3 where k3: "block_current_and_run_next k2 = Some k3" by blast
  have b: "task_step ({1}, {}, k2) ({1}, {}, k3)" by (rule task_step.block [OF r2(1) n k3])
  have "running k3 = None" "status_of k3 1 = Blocked" "\<not> in_ready_queue (sched_of k3 1)" using k3 r2(1)
    by (auto simp: block_current_and_run_next_def block_current_task_def take_current_task_def on_block_def)
  moreover have "task_step\<^sup>*\<^sup>* ({}, {}, boot_tasks PriorityAging) ({1}, {}, k3)"
    using s e w b by (auto intro: converse_rtranclp_into_rtranclp)
  ultimately show ?thesis by blast
qed


end
