(* ===== verification/Fairness.thy ===== *)
theory Fairness
  imports Tasks
begin

section \<open>No ready task starves\<close>

text \<open>
  The task manager under an arbitrary load: a sequence of enqueues, dispatches and preemption
  checks. A task that has waited seven aging intervals is in the top queue after the next check,
  and there nothing can get ahead of it.
\<close>

datatype mgr_op = Add usize task | Fetch usize | Preempt usize task

fun op_time :: "mgr_op \<Rightarrow> usize" where
  "op_time (Add now t) = now"
| "op_time (Fetch now) = now"
| "op_time (Preempt now cur) = now"

fun op_ok :: "mgr_op \<Rightarrow> bool" where
  "op_ok (Add now t) = (t \<noteq> 0)"
| "op_ok (Fetch now) = True"
| "op_ok (Preempt now cur) = True"

fun is_fetch :: "mgr_op \<Rightarrow> bool" where
  "is_fetch (Add now t) = False"
| "is_fetch (Fetch now) = True"
| "is_fetch (Preempt now cur) = False"

fun mgr_step :: "mgr_op \<Rightarrow> tasks \<Rightarrow> (task option \<times> tasks) outcome" where
  "mgr_step (Add now t) k = do { k' \<leftarrow> add_task now t k; Some (None, k') }"
| "mgr_step (Fetch now) k = fetch_task now k"
| "mgr_step (Preempt now cur) k = do { (_, k') \<leftarrow> should_preempt now cur k; Some (None, k') }"

fun mgr_run :: "mgr_op list \<Rightarrow> tasks \<Rightarrow> (task list \<times> tasks) outcome" where
  "mgr_run [] k = Some ([], k)"
| "mgr_run (op # ops) k = do {
     (r, k1) \<leftarrow> mgr_step op k;
     (ds, k2) \<leftarrow> mgr_run ops k1;
     Some (case r of None \<Rightarrow> ds | Some t \<Rightarrow> t # ds, k2)
   }"

definition mgr_ok :: "tasks \<Rightarrow> bool" where
  "mgr_ok k \<longleftrightarrow> queue_ok k \<and> (\<forall>u. prio_ok (sched_of k u))"

lemma mgr_step_ok:
  assumes "mgr_ok k" and "op_ok op"
  shows "\<exists>r k'. mgr_step op k = Some (r, k') \<and> mgr_ok k'"
proof (cases op)
  case (Add now t)
  from assms have q: "queue_ok k" "prio_ok (sched_of k t)" "t \<noteq> 0" by (auto simp: mgr_ok_def Add)
  obtain p where "add_task now t k = Some (k\<lparr>sched_of := (sched_of k)(t := snd (on_enqueue now (sched_of k t))), policy := p\<rparr>)"
    "dyn.in_step ((sched_of k)(t := snd (on_enqueue now (sched_of k t)))) p"
    by (rule add_task_ok [OF q(1,3,2), of now])
  with assms(1) show ?thesis by (auto simp: Add mgr_ok_def on_enqueue_def prio_ok_def)
next
  case (Fetch now)
  show ?thesis
  proof (cases "sched_ready (policy k) = {#}")
    case True
    with assms Fetch fetch_task_empty [of k now] show ?thesis by (simp add: mgr_ok_def)
  next
    case False
    from assms have "queue_ok k" by (simp add: mgr_ok_def)
    then obtain t info p where
      "fetch_task now k = Some (Some t, k\<lparr>sched_of := info(t := on_dispatch now (info t)), policy := p\<rparr>)"
      "\<And>u. same_accounts (sched_of k u) (info u)" "dyn.in_step (info(t := on_dispatch now (info t))) p"
      using False by (rule fetch_task_ok [of k now]) blast
    with assms(1) show ?thesis
      by (auto simp: Fetch mgr_ok_def on_dispatch_def prio_ok_def same_accounts_iff)
  qed
next
  case (Preempt now cur)
  from assms have "queue_ok k" by (simp add: mgr_ok_def)
  then obtain b info p where "should_preempt now cur k = Some (b, k\<lparr>sched_of := info, policy := p\<rparr>)"
    "\<And>u. same_accounts (sched_of k u) (info u)" "dyn.in_step info p"
    by (rule should_preempt_ok [of k now cur]) blast
  with assms(1) show ?thesis by (auto simp: Preempt mgr_ok_def prio_ok_def same_accounts_iff)
qed

lemma mgr_run_ok:
  assumes "mgr_ok k" and "list_all op_ok ops"
  shows "\<exists>ds k'. mgr_run ops k = Some (ds, k')"
  using assms
proof (induction ops arbitrary: k)
  case Nil
  then show ?case by simp
next
  case (Cons op ops)
  with mgr_step_ok [of k op] obtain r k1 where "mgr_step op k = Some (r, k1)" "mgr_ok k1" by auto
  with Cons show ?case by fastforce
qed

subsection \<open>The top queue is a queue\<close>

text \<open>At time \<open>now\<close> fewer than \<open>n\<close> tasks are ahead of \<open>t\<close> in the top queue, all entitled to it.\<close>

definition near_top :: "usize \<Rightarrow> nat \<Rightarrow> task \<Rightarrow> tasks \<Rightarrow> bool" where
  "near_top now n t k \<longleftrightarrow> mgr_ok k \<and> (\<exists>s xs ys. policy k = PriorityScheduler s
     \<and> ready_queues s ! 7 = xs @ t # ys \<and> length xs < n
     \<and> (\<forall>u \<in> set (xs @ [t]). eff now (sched_of k u) = 7))"

lemma near_topI:
  assumes "mgr_ok k" and "policy k = PriorityScheduler s" and "ready_queues s ! 7 = xs @ t # ys"
    and "length xs < n" and "\<And>u. u \<in> set (xs @ [t]) \<Longrightarrow> eff now (sched_of k u) = 7"
  shows "near_top now n t k"
  using assms unfolding near_top_def by blast

lemma eff_le_7: "prio_ok i \<Longrightarrow> eff now i \<le> 7"
  using eff_bound [of i now] by simp

lemma eff_stays_7:
  assumes "eff now i = 7" and "now \<le> now'" and "prio_ok i" and "in_ready_queue i"
  shows "eff now' i = 7"
  using eff_mono [OF assms(4,2)] eff_le_7 [OF assms(3), of now'] assms(1) by simp

lemma near_topD:
  assumes "near_top now n t k" and "now \<le> now'"
  obtains s xs ys where "policy k = PriorityScheduler s" and "ready_queues s ! 7 = xs @ t # ys"
    and "length xs < n" and "\<And>u. u \<in> set (xs @ [t]) \<Longrightarrow> eff now' (sched_of k u) = 7"
    and "ps_inv (sched_of k) s" and "\<And>u. u \<in> set (ps_tasks s) \<longleftrightarrow> in_ready_queue (sched_of k u)"
    and "set (xs @ t # ys) \<subseteq> set (ps_tasks s)"
proof -
  from assms(1) obtain s xs ys where s: "policy k = PriorityScheduler s" "ready_queues s ! 7 = xs @ t # ys"
    "length xs < n" and eff: "\<forall>u \<in> set (xs @ [t]). eff now (sched_of k u) = 7" by (auto simp: near_top_def)
  from assms(1) s(1) have q: "dyn.in_step (sched_of k) (PriorityScheduler s)"
    and ok: "prio_ok (sched_of k u)" for u by (auto simp: near_top_def mgr_ok_def)
  then have inv: "ps_inv (sched_of k) s" by (simp add: dyn.in_step_def dyn.holds_def)
  have mem: "u \<in> set (ps_tasks s) \<longleftrightarrow> in_ready_queue (sched_of k u)" for u
    using dyn.in_step_ready [OF q, of u] by simp
  have "7 < length (ready_queues s)" using inv by (simp add: ps_inv_def)
  then have sub: "set (xs @ t # ys) \<subseteq> set (ps_tasks s)"
    using nth_mem [of 7 "ready_queues s"] s(2) by (auto simp: ps_tasks_def intro!: bexI [of _ "xs @ t # ys"])
  have "eff now' (sched_of k u) = 7" if "u \<in> set (xs @ [t])" for u
    using that eff ok sub mem [of u] eff_stays_7 [OF _ assms(2)] by (auto simp: subset_iff)
  with that s inv mem sub show ?thesis by blast
qed

lemma aged_top:
  assumes "ready_queues s ! 7 = xs @ t # ys" and "\<And>u. u \<in> set (xs @ [t]) \<Longrightarrow> eff now (info u) = 7"
  obtains ys' where "aged_queue now info (ready_queues s) 7 = xs @ t # ys'"
proof -
  have "filter (\<lambda>u. eff now (info u) = 7) xs = xs" using assms(2) by simp
  with assms that show ?thesis by (simp add: aged_queue_def)
qed

lemma near_top_preempt:
  assumes "near_top now n t k" and "now \<le> now'"
  shows "\<exists>k'. mgr_step (Preempt now' cur) k = Some (None, k') \<and> near_top now' n t k'"
proof -
  from assms obtain s xs ys where s: "policy k = PriorityScheduler s" and top: "ready_queues s ! 7 = xs @ t # ys"
    and n: "length xs < n" and eff: "\<And>u. u \<in> set (xs @ [t]) \<Longrightarrow> eff now' (sched_of k u) = 7"
    and inv: "ps_inv (sched_of k) s" and sub: "set (xs @ t # ys) \<subseteq> set (ps_tasks s)"
    by (rule near_topD) blast
  from mgr_step_ok [of k "Preempt now' cur"] assms(1) obtain r k' where
    k': "mgr_step (Preempt now' cur) k = Some (r, k')" "mgr_ok k'" by (auto simp: near_top_def)
  from refresh_aging_ok [OF inv, of now'] obtain s' where
    s': "refresh_aging now' (sched_of k) s = Some (refreshed now' (sched_of k) (ps_tasks s), s')"
    "s' = s\<lparr>ready_queues := map (aged_queue now' (sched_of k) (ready_queues s)) [0..<8]\<rparr>" by blast
  from aged_top [of s xs t ys now' "sched_of k"] top eff obtain ys' where ys': "aged_queue now' (sched_of k) (ready_queues s) 7 = xs @ t # ys'"
    by blast
  have "ready_tasks s \<noteq> 0" using ps_inv_empty [OF inv] sub by auto
  with k' s s'(1) have "r = None" "policy k' = PriorityScheduler s'"
    "sched_of k' = refreshed now' (sched_of k) (ps_tasks s)"
    by (auto simp: should_preempt_def ps_should_preempt_def bind_Some_conv)
  with k' n eff ys' s'(2) show ?thesis by (auto intro: near_topI [of k' s' xs t ys'])
qed

lemma near_top_add:
  assumes "near_top now n t k" and "now \<le> now'" and "u \<noteq> 0"
  shows "\<exists>k'. mgr_step (Add now' u) k = Some (None, k') \<and> near_top now' n t k'"
proof -
  from assms(1,2) obtain s xs ys where s: "policy k = PriorityScheduler s" and top: "ready_queues s ! 7 = xs @ t # ys"
    and n: "length xs < n" and eff: "\<And>v. v \<in> set (xs @ [t]) \<Longrightarrow> eff now' (sched_of k v) = 7"
    and inv: "ps_inv (sched_of k) s" and mem: "\<And>v. v \<in> set (ps_tasks s) \<longleftrightarrow> in_ready_queue (sched_of k v)"
    and sub: "set (xs @ t # ys) \<subseteq> set (ps_tasks s)"
    by (rule near_topD) blast
  from mgr_step_ok [of k "Add now' u"] assms obtain r k' where
    k': "mgr_step (Add now' u) k = Some (r, k')" "mgr_ok k'" by (auto simp: near_top_def)
  show ?thesis
  proof (cases "in_ready_queue (sched_of k u)")
    case True
    with k' have "r = None" "k' = k" by (auto simp: add_task_def on_enqueue_def)
    with k' s top n eff show ?thesis by (auto simp: near_top_def)
  next
    case False
    then have u: "u \<notin> set (xs @ [t])" using mem sub by auto
    from False k'(1) s obtain s' i where s': "ps_enqueue ((sched_of k)(u := i)) s u = Some s'"
      "policy k' = PriorityScheduler s'" "sched_of k' = (sched_of k)(u := i)" "r = None"
      by (auto simp: add_task_def on_enqueue_def Let_def bind_Some_conv)
    from s'(1) have "ready_queues s' ! 7 = ready_queues s ! 7 \<or> ready_queues s' ! 7 = ready_queues s ! 7 @ [u]"
      by (auto simp: ps_enqueue_def Let_def bind_Some_conv nth_list_update)
    then obtain ys' where "ready_queues s' ! 7 = xs @ t # ys'" using top by auto
    with k' n eff u s' show ?thesis
      by (auto simp: near_top_def)
  qed
qed

lemma near_top_fetch:
  assumes "near_top now (Suc n) t k" and "now \<le> now'"
  shows "\<exists>d k'. mgr_step (Fetch now') k = Some (Some d, k') \<and> mgr_ok k' \<and> (d = t \<or> near_top now' n t k')"
proof -
  from assms obtain s xs ys where s: "policy k = PriorityScheduler s" and top: "ready_queues s ! 7 = xs @ t # ys"
    and n: "length xs < Suc n" and eff: "\<And>u. u \<in> set (xs @ [t]) \<Longrightarrow> eff now' (sched_of k u) = 7"
    and inv: "ps_inv (sched_of k) s" and sub: "set (xs @ t # ys) \<subseteq> set (ps_tasks s)"
    by (rule near_topD) blast
  from mgr_step_ok [of k "Fetch now'"] assms obtain r k' where
    k': "mgr_step (Fetch now') k = Some (r, k')" "mgr_ok k'" by (auto simp: near_top_def)
  from aged_top [of s xs t ys now' "sched_of k"] top eff obtain ys' where ys': "aged_queue now' (sched_of k) (ready_queues s) 7 = xs @ t # ys'"
    by blast
  define info where "info = refreshed now' (sched_of k) (ps_tasks s)"
  have "ps_tasks s \<noteq> []" using sub by auto
  from ps_dequeue_shape [OF inv this, of now'] obtain d p ts s' where
    deq: "ps_dequeue now' (sched_of k) s = Some (Some d, info, s')"
    and p: "p < 8" and head: "aged_queue now' (sched_of k) (ready_queues s) p = d # ts"
    and above: "\<And>p'. p < p' \<Longrightarrow> p' < 8 \<Longrightarrow> aged_queue now' (sched_of k) (ready_queues s) p' = []"
    and s': "s' = s\<lparr>ready_tasks := ready_tasks s - 1,
      ready_queues := (map (aged_queue now' (sched_of k) (ready_queues s)) [0..<8])[p := ts]\<rparr>"
    unfolding info_def by metis
  have "p = 7" using above [of 7] p ys' by (cases "p = 7") auto
  then have dts: "xs @ t # ys' = d # ts" using head ys' by simp
  have k'': "r = Some d" "policy k' = PriorityScheduler s'" "sched_of k' = info(d := on_dispatch now' (info d))"
    using k'(1) s deq by (auto simp: fetch_task_def)
  show ?thesis
  proof (cases xs)
    case Nil
    with dts k' k'' show ?thesis by simp
  next
    case (Cons x xs')
    with dts have x: "d = x" "ts = xs' @ t # ys'" by auto
    have "distinct (ps_tasks s)" using inv by (simp add: ps_inv_def)
    moreover have "7 < length (ready_queues s)" using inv by (simp add: ps_inv_def)
    ultimately have "distinct (ready_queues s ! 7)"
      by (auto simp: ps_tasks_def distinct_concat_iff)
    with top Cons have "x \<notin> set (xs' @ [t])" by auto
    with k' k'' n eff Cons x s' \<open>p = 7\<close> show ?thesis
      by (auto simp: near_top_def info_def)
  qed
qed

lemma near_top_served:
  assumes "near_top now n t k" and "sorted_wrt (\<le>) (now # map op_time ops)" and "list_all op_ok ops"
    and "n \<le> length (filter is_fetch ops)"
  shows "\<exists>ds k'. mgr_run ops k = Some (ds, k') \<and> t \<in> set ds"
  using assms
proof (induction ops arbitrary: k now n)
  case Nil
  then show ?case by (auto simp: near_top_def)
next
  case (Cons op ops)
  from Cons.prems have le: "now \<le> op_time op" and rest: "sorted_wrt (\<le>) (op_time op # map op_time ops)"
    and ok: "list_all op_ok ops" by auto
  show ?case
  proof (cases "is_fetch op")
    case False
    with near_top_preempt [OF Cons.prems(1)] near_top_add [OF Cons.prems(1)] le Cons.prems(3) obtain k' where
      "mgr_step op k = Some (None, k')" "near_top (op_time op) n t k'" by (cases op) force+
    moreover from Cons.IH [OF this(2) rest ok] False Cons.prems(4) obtain ds k2 where
      "mgr_run ops k' = Some (ds, k2)" "t \<in> set ds" by auto
    ultimately show ?thesis by simp
  next
    case True
    then obtain now' where op: "op = Fetch now'" by (cases op) auto
    from Cons.prems(1) obtain m where m: "n = Suc m" by (cases n) (auto simp: near_top_def)
    from near_top_fetch [of now m t k now'] Cons.prems(1) le m op obtain d k' where
      k': "mgr_step op k = Some (Some d, k')" "mgr_ok k'" "d = t \<or> near_top now' m t k'" by auto
    show ?thesis
    proof (cases "d = t")
      case True
      with mgr_run_ok [OF k'(2) ok] k'(1) show ?thesis by auto
    next
      case False
      with k'(3) Cons.IH [of now' m k'] rest ok Cons.prems(4) m op obtain ds k2 where
        "mgr_run ops k' = Some (ds, k2)" "t \<in> set ds" by auto
      with k'(1) show ?thesis by auto
    qed
  qed
qed

lemma waited_top:
  assumes "in_ready_queue i" and "140 \<le> unat now - unat (ready_since i)"
  shows "eff now i = 7"
  using assms div_le_mono [OF assms(2), of 20] by (simp add: eff_value)

text \<open>C6: No starvation under the default policy. A ready task that has waited seven aging
  intervals (140 ticks, 1.4 seconds) when the kernel next checks for preemption is among the next
  \<open>n\<close> dispatched tasks, where \<open>n\<close> is the number of ready tasks at that moment, whatever other
  tasks of whatever priority become ready meanwhile.\<close>

theorem waiting_task_is_dispatched:
  assumes ok: "mgr_ok k" and pol: "policy k = PriorityScheduler s"
    and t: "in_ready_queue (sched_of k t)" "140 \<le> unat now - unat (ready_since (sched_of k t))"
    and ops: "sorted_wrt (\<le>) (now # map op_time ops)" "list_all op_ok ops"
    and enough: "length (ps_tasks s) \<le> length (filter is_fetch ops)"
  shows "\<exists>ds k'. mgr_run (Preempt now cur # ops) k = Some (ds, k') \<and> t \<in> set ds"
proof -
  from ok pol have q: "dyn.in_step (sched_of k) (PriorityScheduler s)" and inv: "ps_inv (sched_of k) s"
    by (auto simp: mgr_ok_def dyn.in_step_def dyn.holds_def)
  have mem: "t \<in> set (ps_tasks s)" using dyn.in_step_ready [OF q, of t] t(1) by simp
  from refresh_aging_ok [OF inv, of now] obtain s' where
    s': "refresh_aging now (sched_of k) s = Some (refreshed now (sched_of k) (ps_tasks s), s')"
    "s' = s\<lparr>ready_queues := map (aged_queue now (sched_of k) (ready_queues s)) [0..<8]\<rparr>"
    and m: "mset (ps_tasks s') = mset (ps_tasks s)" by blast
  have "t \<in> set (ready_queues s' ! 7)"
    using aged_queue_member [OF inv mem, of now] by (simp add: waited_top [OF t] s'(2))
  then obtain xs ys where split: "ready_queues s' ! 7 = xs @ t # ys" by (meson split_list)
  have top: "eff now (sched_of k u) = 7" if "u \<in> set (xs @ [t])" for u
  proof -
    from that split have "u \<in> set (aged_queue now (sched_of k) (ready_queues s) 7)" by (auto simp: s'(2))
    then show ?thesis by (auto simp: aged_queue_def)
  qed
  have "length (ready_queues s' ! 7) \<le> length (ps_tasks s')"
    using member_le_sum_list [of "length (ready_queues s' ! 7)" "map length (ready_queues s')"]
    by (simp add: ps_tasks_def length_concat s'(2))
  then have few: "length xs < length (ps_tasks s)" using split mset_eq_length [OF m] by simp
  from mgr_step_ok [OF ok, of "Preempt now cur"] obtain r k1 where
    k1: "mgr_step (Preempt now cur) k = Some (r, k1)" "mgr_ok k1" by auto
  have "ready_tasks s \<noteq> 0" using ps_inv_empty [OF inv] mem by auto
  with k1 pol s'(1) have r: "r = None" "policy k1 = PriorityScheduler s'"
    "sched_of k1 = refreshed now (sched_of k) (ps_tasks s)"
    by (auto simp: should_preempt_def ps_should_preempt_def bind_Some_conv)
  with k1(2) split few top have "near_top now (length (ps_tasks s)) t k1"
    by (auto intro: near_topI [of k1 s' xs t ys])
  from near_top_served [OF this ops enough] k1(1) r(1) show ?thesis by auto
qed

definition example_tasks :: tasks where
  "example_tasks = \<lparr>sched_of = (\<lambda>t. if t = 1 \<or> t = 2 then (example_info t)\<lparr>ready_since := 0\<rparr> else no_task),
     status_of = (\<lambda>_. Ready), policy = PriorityScheduler example_queues, running = None\<rparr>"

lemma example_tasks_ok: "mgr_ok example_tasks"
  by (auto simp: mgr_ok_def dyn.in_step_def dyn.holds_def example_tasks_def ps_inv_def ps_tasks_def example_queues_def
      prio_ok_def example_info_def MAX_PRIORITY_def no_task_def)

theorem waiting_task_is_dispatched_witness:
  "\<exists>ds k'. mgr_run [Preempt 200 3, Add 200 4, Fetch 201, Add 202 5, Fetch 203] example_tasks = Some (ds, k')
    \<and> 1 \<in> set ds"
  by (rule waiting_task_is_dispatched [OF example_tasks_ok, of example_queues])
    (simp_all add: example_tasks_def example_info_def example_queues_def ps_tasks_def)

end
