(* ===== verification/IntrCell.thy ===== *)
theory IntrCell
  imports Simulation
begin

section \<open>Cells with interrupts masked\<close>

text \<open>
  os/src/sync/up.rs: a global is kept in a cell that hands out one exclusive reference at a time and
  keeps interrupts masked while any reference is out. The state is the interrupt enable bit of the
  status register, the nesting counter with the bit it saved, and the set of cells that are borrowed
  (the flag of each RefCell).
\<close>

record intr_masking_info =
  nested_level :: usize
  sie_before_masking :: bool

definition intr_masking_info_new :: intr_masking_info where
  "intr_masking_info_new = \<lparr>nested_level = 0, sie_before_masking = False\<rparr>"

record 'c cpu =
  sie :: bool
  masking :: intr_masking_info
  borrowed :: "'c set"

definition enter_masked :: "'c cpu \<Rightarrow> 'c cpu" where
  "enter_masked s = (
     let info = masking s;
         info = (if nested_level info = 0 then info\<lparr>sie_before_masking := sie s\<rparr> else info)
     in s\<lparr>sie := False, masking := info\<lparr>nested_level := nested_level info + 1\<rparr>\<rparr>)"

definition exit_masked :: "'c cpu \<Rightarrow> 'c cpu" where
  "exit_masked s = (
     let info = (masking s)\<lparr>nested_level := nested_level (masking s) - 1\<rparr>;
         s = s\<lparr>masking := info\<rparr>
     in if nested_level info = 0 \<and> sie_before_masking info then s\<lparr>sie := True\<rparr> else s)"

definition exclusive_access :: "'c \<Rightarrow> 'c cpu \<Rightarrow> 'c cpu outcome" where
  "exclusive_access c s = (
     let s = enter_masked s in do {
       _ \<leftarrow> ensure (c \<notin> borrowed s);
       Some (s\<lparr>borrowed := insert c (borrowed s)\<rparr>)
     })"

definition drop_ref :: "'c \<Rightarrow> 'c cpu \<Rightarrow> 'c cpu" where
  "drop_ref c s = exit_masked (s\<lparr>borrowed := borrowed s - {c}\<rparr>)"

definition exclusive_session :: "'c \<Rightarrow> ('c cpu \<Rightarrow> ('v \<times> 'c cpu) outcome) \<Rightarrow> 'c cpu \<Rightarrow> ('v \<times> 'c cpu) outcome" where
  "exclusive_session c f s = do {
     s \<leftarrow> exclusive_access c s;
     (v, s) \<leftarrow> f s;
     Some (v, drop_ref c s)
   }"

subsection \<open>References out and interrupts\<close>

text \<open>The code between accesses may set the enable bit while no reference is out.\<close>

datatype 'c cell_op = Access 'c | Release 'c | SetSie bool

fun cell_step :: "'c cpu \<Rightarrow> 'c cell_op \<Rightarrow> 'c cpu outcome" where
  "cell_step s (Access c) = exclusive_access c s"
| "cell_step s (Release c) = Some (if c \<in> borrowed s then drop_ref c s else s)"
| "cell_step s (SetSie b) = Some (if borrowed s = {} then s\<lparr>sie := b\<rparr> else s)"

text \<open>The promise: a set of references, exclusive per cell, and an enable bit that only the code outside
  the references changes.\<close>

fun spec_step :: "'c set \<times> bool \<Rightarrow> 'c cell_op \<Rightarrow> ('c set \<times> bool) outcome" where
  "spec_step (B, e) (Access c) = (if c \<in> B then None else Some (insert c B, e))"
| "spec_step (B, e) (Release c) = Some (B - {c}, e)"
| "spec_step (B, e) (SetSie b) = Some (B, if B = {} then b else e)"

definition cell_abs :: "'c cpu \<Rightarrow> 'c set \<times> bool" where
  "cell_abs s = (borrowed s, if borrowed s = {} then sie s else sie_before_masking (masking s))"

definition cell_inv :: "nat \<Rightarrow> 'c cpu \<Rightarrow> bool" where
  "cell_inv n s \<longleftrightarrow> finite (borrowed s) \<and> unat (nested_level (masking s)) = card (borrowed s)
     \<and> card (borrowed s) + n < 2 ^ 64 \<and> (borrowed s \<noteq> {} \<longrightarrow> \<not> sie s)"

lemma access_ok:
  assumes "cell_inv (n + 1) s" "c \<notin> borrowed s"
  shows "\<exists>s'. exclusive_access c s = Some s' \<and> cell_inv n s' \<and> cell_abs s' = (insert c (borrowed s), snd (cell_abs s))"
proof -
  let ?s = "(enter_masked s)\<lparr>borrowed := insert c (borrowed s)\<rparr>"
  have "exclusive_access c s = Some ?s" using assms(2) by (simp add: exclusive_access_def enter_masked_def Let_def)
  moreover have "unat (nested_level (masking s) + 1) = Suc (card (borrowed s))"
    using assms(1) by (simp add: cell_inv_def unat_word_ariths)
  then have "cell_inv n ?s" using assms by (auto simp: cell_inv_def enter_masked_def Let_def)
  moreover have "nested_level (masking s) = 0 \<longleftrightarrow> borrowed s = {}"
    using assms(1) by (auto simp: cell_inv_def unat_eq_0)
  then have "cell_abs ?s = (insert c (borrowed s), snd (cell_abs s))" by (simp add: cell_abs_def enter_masked_def Let_def)
  ultimately show ?thesis by blast
qed

lemma drop_ok:
  assumes "cell_inv n s" "c \<in> borrowed s"
  shows "cell_inv n (drop_ref c s)" "cell_abs (drop_ref c s) = (borrowed s - {c}, snd (cell_abs s))"
proof -
  have f: "finite (borrowed s)" "unat (nested_level (masking s)) = card (borrowed s)" "\<not> sie s"
    using assms by (auto simp: cell_inv_def)
  have pos: "0 < card (borrowed s)" using f(1) assms(2) by (auto simp: card_gt_0_iff)
  then have l: "unat (nested_level (masking s) - 1) = card (borrowed s) - 1"
    using f(2) by (simp add: unat_sub_if_size)
  have cd: "card (borrowed s - {c}) = card (borrowed s) - 1" using assms(2) f(1) by simp
  have z: "nested_level (masking s) - 1 = 0 \<longleftrightarrow> borrowed s - {c} = {}"
    using l cd f(1) by (metis card_0_eq finite_Diff unat_0 unat_eq_0)
  have e: "borrowed (drop_ref c s) = borrowed s - {c}" "nested_level (masking (drop_ref c s)) = nested_level (masking s) - 1"
    "sie_before_masking (masking (drop_ref c s)) = sie_before_masking (masking s)"
    "sie (drop_ref c s) = (borrowed s - {c} = {} \<and> sie_before_masking (masking s))"
    using z f(3) by (simp_all add: drop_ref_def exit_masked_def Let_def)
  show "cell_inv n (drop_ref c s)" unfolding cell_inv_def e using assms(1) l cd by (simp add: cell_inv_def) linarith
  show "cell_abs (drop_ref c s) = (borrowed s - {c}, snd (cell_abs s))" using assms(2) by (auto simp: cell_abs_def e)
qed

interpretation cell: simulation cell_step spec_step cell_abs cell_inv 1 "\<lambda>_. True"
proof (unfold_locales, goal_cases)
  case (1 n s op a)
  have w: "cell_inv n s" using 1(1) by (simp add: cell_inv_def)
  show ?case
  proof (cases op)
    case (Access c)
    with 1 access_ok [OF 1(1), of c] show ?thesis by (auto simp: cell_abs_def split: if_splits)
  next
    case (Release c)
    show ?thesis
    proof (cases "c \<in> borrowed s")
      case True
      with 1 Release drop_ok [OF w, of c] show ?thesis by (simp add: cell_abs_def)
    next
      case False
      with 1 Release w show ?thesis by (simp add: cell_abs_def)
    qed
  next
    case (SetSie b)
    with 1 w show ?thesis by (cases "borrowed s = {}") (auto simp: cell_abs_def cell_inv_def)
  qed
next
  case (2 n s op)
  then show ?case by (cases op) (auto simp: cell_abs_def exclusive_access_def enter_masked_def Let_def split: if_splits)
qed

subsection \<open>Properties\<close>

text \<open>C32: exclusive access. Over any sequence of accesses and releases in any order, not only nested ones, and
  of changes of the enable bit outside them, an access panics exactly if a reference to the same cell is
  out; interrupts are masked as long as any reference is out; and when the last one is released the
  enable bit is back to what it was before the first.\<close>

theorem cells_mask_interrupts:
  assumes "length ops < 2 ^ 64"
  shows "case run spec_step ({}, e) ops of
      None \<Rightarrow> run cell_step \<lparr>sie = e, masking = intr_masking_info_new, borrowed = {}\<rparr> ops = None
    | Some (B, e') \<Rightarrow> (\<exists>s. run cell_step \<lparr>sie = e, masking = intr_masking_info_new, borrowed = {}\<rparr> ops = Some s
        \<and> borrowed s = B \<and> sie s = (B = {} \<and> e'))"
proof -
  let ?s = "\<lparr>sie = e, masking = intr_masking_info_new, borrowed = {}\<rparr>"
  have i: "cell_inv (length ops * 1) ?s" using assms by (simp add: cell_inv_def intr_masking_info_new_def)
  have a: "cell_abs ?s = ({}, e)" by (simp add: cell_abs_def)
  have "case run spec_step (cell_abs ?s) ops of
      Some a \<Rightarrow> \<exists>s'. run cell_step ?s ops = Some s' \<and> cell_inv 0 s' \<and> cell_abs s' = a
    | None \<Rightarrow> run cell_step ?s ops = None"
    by (rule cell.run_refines [OF i]) simp
  then show ?thesis unfolding a
    by (auto simp: cell_abs_def cell_inv_def split: option.splits prod.splits)
qed

theorem cells_mask_interrupts_witness:
  "\<exists>s. run cell_step \<lparr>sie = True, masking = intr_masking_info_new, borrowed = {}\<rparr> [Access (1::nat), Access 2, Release 1, Release 2] = Some s
     \<and> sie s \<and> borrowed s = {}"
  using cells_mask_interrupts [of "[Access (1::nat), Access 2, Release 1, Release 2]" True] by auto

end
