(* ===== verification/Fifo.thy ===== *)
theory Fifo
  imports Prelude
begin

section \<open>The contract of a bounded first-in first-out queue\<close>

text \<open>
  The interface between a bounded byte queue and the code that moves bytes through it: a put
  appends to the abstract contents, a get removes their head, and the two availability counts
  say how many of each can follow. The client lemma is proved once here: whatever the order of
  puts and gets, what came out followed by what is still inside is what went in. The pipe's ring
  buffer interprets the locale.
\<close>

datatype 'a qop = Put 'a | Get

text \<open>
  A run of queue operations, with the history of the values accepted and delivered. An operation
  the queue has no room or no data for leaves it unchanged, as the callers do.
\<close>

fun qrun :: "('q \<Rightarrow> 'a \<Rightarrow> 'q outcome) \<Rightarrow> ('q \<Rightarrow> ('a \<times> 'q) outcome) \<Rightarrow> ('q \<Rightarrow> nat) \<Rightarrow> ('q \<Rightarrow> nat)
    \<Rightarrow> 'a qop list \<Rightarrow> 'q \<times> 'a list \<times> 'a list \<Rightarrow> ('q \<times> 'a list \<times> 'a list) outcome" where
  "qrun put get room avail [] s = Some s"
| "qrun put get room avail (Put x # ops) (q, ins, outs) =
     (if room q = 0 then qrun put get room avail ops (q, ins, outs)
      else do { q' \<leftarrow> put q x; qrun put get room avail ops (q', ins @ [x], outs) })"
| "qrun put get room avail (Get # ops) (q, ins, outs) =
     (if avail q = 0 then qrun put get room avail ops (q, ins, outs)
      else do { (x, q') \<leftarrow> get q; qrun put get room avail ops (q', ins, outs @ [x]) })"

locale bounded_fifo =
  fixes put :: "'q \<Rightarrow> 'a \<Rightarrow> 'q outcome"
    and get :: "'q \<Rightarrow> ('a \<times> 'q) outcome"
    and room :: "'q \<Rightarrow> nat"
    and avail :: "'q \<Rightarrow> nat"
    and contents :: "'q \<Rightarrow> 'a list"
    and invar :: "'q \<Rightarrow> bool"
    and capacity :: nat
  assumes put_ok: "invar q \<Longrightarrow> 0 < room q \<Longrightarrow>
      \<exists>q'. put q x = Some q' \<and> invar q' \<and> contents q' = contents q @ [x]"
    and get_ok: "invar q \<Longrightarrow> 0 < avail q \<Longrightarrow>
      \<exists>q'. get q = Some (hd (contents q), q') \<and> invar q' \<and> contents q' = tl (contents q)"
    and avail_contents: "invar q \<Longrightarrow> avail q = length (contents q)"
    and room_contents: "invar q \<Longrightarrow> room q = capacity - length (contents q)"
    and capacity_bound: "invar q \<Longrightarrow> length (contents q) \<le> capacity"
begin

lemma run_conserves:
  assumes "invar q" and "outs @ contents q = ins"
  shows "\<exists>q' ins' outs'. qrun put get room avail ops (q, ins, outs) = Some (q', ins', outs')
    \<and> invar q' \<and> outs' @ contents q' = ins'"
  using assms
proof (induction ops arbitrary: q ins outs)
  case Nil
  then show ?case by simp
next
  case (Cons op ops)
  show ?case
  proof (cases op)
    case (Put x)
    show ?thesis
    proof (cases "room q = 0")
      case True
      with Put Cons show ?thesis by simp
    next
      case False
      with Cons.prems(1) put_ok [of q x] obtain q' where
        q': "put q x = Some q'" "invar q'" "contents q' = contents q @ [x]" by auto
      with Cons.prems(2) have "outs @ contents q' = ins @ [x]" by simp
      from Cons.IH [OF q'(2) this] Put False q'(1) show ?thesis by simp
    qed
  next
    case Get
    show ?thesis
    proof (cases "avail q = 0")
      case True
      with Get Cons show ?thesis by simp
    next
      case False
      with Cons.prems(1) have ne: "contents q \<noteq> []" by (simp add: avail_contents)
      from False Cons.prems(1) get_ok [of q] obtain q' where
        q': "get q = Some (hd (contents q), q')" "invar q'" "contents q' = tl (contents q)" by auto
      with Cons.prems(2) ne have "(outs @ [hd (contents q)]) @ contents q' = ins" by simp
      from Cons.IH [OF q'(2) this] Get False q'(1) show ?thesis by simp
    qed
  qed
qed

end

end
