(* ===== verification/Pipe.thy ===== *)
theory Pipe
  imports Fifo
begin

section \<open>Pipes\<close>

text \<open>
  os/src/fs/pipe.rs: the ring buffer of 32 bytes, the two ends of a pipe, and the blocking read
  and write loops. The buffer is shared by the two ends; the weak reference to the write end is
  an object identity, and whether it can still be upgraded is asked of the set of live objects.
  A turn of a loop runs from the acquisition of the buffer to a return or to the call of
  \<^verbatim>\<open>suspend_current_and_run_next\<close>, where other tasks may run.
\<close>

definition RING_BUFFER_SIZE :: nat where
  "RING_BUFFER_SIZE = 32"

datatype ring_buffer_status = Full | Empty | Normal

record pipe_ring_buffer =
  arr :: "u8 list"
  head :: nat
  tail :: nat
  status :: ring_buffer_status
  write_end :: "nat option"

record pipe_end =
  readable :: bool
  writable :: bool

definition read_end_with_buffer :: pipe_end where
  "read_end_with_buffer = \<lparr>readable = True, writable = False\<rparr>"

definition write_end_with_buffer :: pipe_end where
  "write_end_with_buffer = \<lparr>readable = False, writable = True\<rparr>"

definition ring_new :: pipe_ring_buffer where
  "ring_new = \<lparr>arr = replicate RING_BUFFER_SIZE 0, head = 0, tail = 0, status = Empty,
     write_end = None\<rparr>"

definition set_write_end :: "pipe_ring_buffer \<Rightarrow> nat \<Rightarrow> pipe_ring_buffer" where
  "set_write_end rb w = rb\<lparr>write_end := Some w\<rparr>"

definition write_byte :: "pipe_ring_buffer \<Rightarrow> u8 \<Rightarrow> pipe_ring_buffer outcome" where
  "write_byte rb b = do {
     a \<leftarrow> upd (arr rb) (tail rb) b;
     let t = (tail rb + 1) mod RING_BUFFER_SIZE;
     Some (rb\<lparr>arr := a, tail := t, status := (if t = head rb then Full else Normal)\<rparr>)
   }"

definition read_byte :: "pipe_ring_buffer \<Rightarrow> (u8 \<times> pipe_ring_buffer) outcome" where
  "read_byte rb = do {
     c \<leftarrow> idx (arr rb) (head rb);
     let h = (head rb + 1) mod RING_BUFFER_SIZE;
     Some (c, rb\<lparr>head := h, status := (if h = tail rb then Empty else Normal)\<rparr>)
   }"

definition available_read :: "pipe_ring_buffer \<Rightarrow> nat" where
  "available_read rb =
     (if status rb = Empty then 0
      else if tail rb > head rb then tail rb - head rb
      else tail rb + RING_BUFFER_SIZE - head rb)"

definition available_write :: "pipe_ring_buffer \<Rightarrow> nat" where
  "available_write rb =
     (if status rb = Full then 0 else RING_BUFFER_SIZE - available_read rb)"

definition all_write_ends_closed :: "nat set \<Rightarrow> pipe_ring_buffer \<Rightarrow> bool outcome" where
  "all_write_ends_closed live rb = do { w \<leftarrow> write_end rb; Some (w \<notin> live) }"

text \<open>\<^verbatim>\<open>make_pipe\<close>: a fresh buffer that knows the object of its write end.\<close>

definition make_pipe :: "nat \<Rightarrow> pipe_end \<times> pipe_end \<times> pipe_ring_buffer" where
  "make_pipe w = (read_end_with_buffer, write_end_with_buffer, set_write_end ring_new w)"

subsection \<open>The blocking loops\<close>

text \<open>
  The inner loop of \<^verbatim>\<open>Pipe::read\<close> over \<open>0..loop_read\<close>. The user buffer's iterator
  has an element left exactly while fewer bytes than requested have been stored; the flag says
  whether the loop returned from the function.
\<close>

fun read_bytes :: "nat \<Rightarrow> nat \<Rightarrow> pipe_ring_buffer \<Rightarrow> u8 list \<Rightarrow> (bool \<times> pipe_ring_buffer \<times> u8 list) outcome" where
  "read_bytes 0 want rb got = Some (False, rb, got)"
| "read_bytes (Suc n) want rb got =
     (if length got < want then do {
        (c, rb') \<leftarrow> read_byte rb;
        if length (got @ [c]) = want then Some (True, rb', got @ [c])
        else read_bytes n want rb' (got @ [c])
      } else Some (True, rb, got))"

datatype turn = Returned | Suspended

partial_function (option) read_turn ::
    "nat set \<Rightarrow> nat \<Rightarrow> pipe_ring_buffer \<Rightarrow> u8 list \<Rightarrow> (turn \<times> pipe_ring_buffer \<times> u8 list) option" where
  "read_turn live want rb got =
     (let loop_read = available_read rb in
      if loop_read = 0 then do {
        closed \<leftarrow> all_write_ends_closed live rb;
        Some (if closed then Returned else Suspended, rb, got)
      } else do {
        (ret, rb', got') \<leftarrow> read_bytes loop_read want rb got;
        if ret then Some (Returned, rb', got') else read_turn live want rb' got'
      })"

text \<open>\<^verbatim>\<open>Pipe::read\<close> up to its first return or suspension.\<close>

definition pipe_read :: "nat set \<Rightarrow> pipe_end \<Rightarrow> pipe_ring_buffer \<Rightarrow> nat
    \<Rightarrow> (turn \<times> pipe_ring_buffer \<times> u8 list) outcome" where
  "pipe_read live p rb want = do { _ \<leftarrow> ensure (readable p); read_turn live want rb [] }"

fun write_bytes :: "nat \<Rightarrow> pipe_ring_buffer \<Rightarrow> u8 list \<Rightarrow> (bool \<times> pipe_ring_buffer \<times> u8 list) outcome" where
  "write_bytes 0 rb src = Some (False, rb, src)"
| "write_bytes (Suc n) rb [] = Some (True, rb, [])"
| "write_bytes (Suc n) rb (b # src) = do {
     rb' \<leftarrow> write_byte rb b;
     if src = [] then Some (True, rb', []) else write_bytes n rb' src
   }"

partial_function (option) write_turn ::
    "pipe_ring_buffer \<Rightarrow> u8 list \<Rightarrow> (turn \<times> pipe_ring_buffer \<times> u8 list) option" where
  "write_turn rb src =
     (let loop_write = available_write rb in
      if loop_write = 0 then Some (Suspended, rb, src)
      else do {
        (ret, rb', src') \<leftarrow> write_bytes loop_write rb src;
        if ret then Some (Returned, rb', src') else write_turn rb' src'
      })"

definition pipe_write :: "pipe_end \<Rightarrow> pipe_ring_buffer \<Rightarrow> u8 list
    \<Rightarrow> (turn \<times> pipe_ring_buffer \<times> u8 list) outcome" where
  "pipe_write p rb src = do { _ \<leftarrow> ensure (writable p); write_turn rb src }"

subsection \<open>The ring buffer implements a bounded queue\<close>

definition ring_inv :: "pipe_ring_buffer \<Rightarrow> bool" where
  "ring_inv rb \<longleftrightarrow> length (arr rb) = RING_BUFFER_SIZE \<and> head rb < RING_BUFFER_SIZE
     \<and> tail rb < RING_BUFFER_SIZE \<and> (head rb = tail rb \<longleftrightarrow> status rb \<noteq> Normal)"

definition ring_contents :: "pipe_ring_buffer \<Rightarrow> u8 list" where
  "ring_contents rb =
     map (\<lambda>i. arr rb ! ((head rb + i) mod RING_BUFFER_SIZE)) [0..<available_read rb]"

lemma length_ring_contents [simp]: "length (ring_contents rb) = available_read rb"
  by (simp add: ring_contents_def)

lemma ring_contents_Nil: "ring_contents rb = [] \<longleftrightarrow> available_read rb = 0"
  by (simp add: ring_contents_def)

lemma available_read_bound: "ring_inv rb \<Longrightarrow> available_read rb \<le> RING_BUFFER_SIZE"
  by (cases "status rb") (auto simp: ring_inv_def available_read_def RING_BUFFER_SIZE_def)

lemma available_write_eq: "ring_inv rb \<Longrightarrow> available_write rb = RING_BUFFER_SIZE - available_read rb"
  by (auto simp: ring_inv_def available_write_def available_read_def)

lemma tail_position:
  "ring_inv rb \<Longrightarrow> available_read rb < RING_BUFFER_SIZE \<Longrightarrow>
     tail rb = (head rb + available_read rb) mod RING_BUFFER_SIZE"
  by (cases "status rb") (auto simp: ring_inv_def available_read_def RING_BUFFER_SIZE_def)

lemma ring_index_inj:
  assumes "(h + i) mod RING_BUFFER_SIZE = (h + j) mod RING_BUFFER_SIZE"
    and "i < RING_BUFFER_SIZE" "j < RING_BUFFER_SIZE"
  shows "i = j"
  using assms by (rule mod_shift_inj)

lemma write_byte_ok:
  assumes "ring_inv rb" and "0 < available_write rb"
  shows "\<exists>rb'. write_byte rb b = Some rb' \<and> ring_inv rb'
    \<and> ring_contents rb' = ring_contents rb @ [b] \<and> write_end rb' = write_end rb"
proof -
  from assms have lt: "available_read rb < RING_BUFFER_SIZE" by (simp add: available_write_eq)
  from assms(1) have bounds: "length (arr rb) = RING_BUFFER_SIZE" "tail rb < RING_BUFFER_SIZE"
      "head rb < RING_BUFFER_SIZE" by (auto simp: ring_inv_def)
  define t where "t = (tail rb + 1) mod RING_BUFFER_SIZE"
  define rb' where "rb' = rb\<lparr>arr := (arr rb)[tail rb := b], tail := t,
    status := (if t = head rb then Full else Normal)\<rparr>"
  have w: "write_byte rb b = Some rb'"
    using bounds by (simp add: write_byte_def upd_in_range rb'_def t_def)
  have inv: "ring_inv rb'"
    using bounds by (auto simp: ring_inv_def rb'_def t_def RING_BUFFER_SIZE_def)
  have av: "available_read rb' = Suc (available_read rb)"
    using assms(1) lt by (cases "status rb")
      (auto simp: ring_inv_def available_read_def rb'_def t_def RING_BUFFER_SIZE_def mod_Suc split: if_splits)
  have "ring_contents rb' = ring_contents rb @ [b]"
  proof (rule nth_equalityI)
    show "length (ring_contents rb') = length (ring_contents rb @ [b])" by (simp add: av)
  next
    fix i assume "i < length (ring_contents rb')"
    then have i: "i < Suc (available_read rb)" by (simp add: av)
    have tp: "tail rb = (head rb + available_read rb) mod RING_BUFFER_SIZE"
      using assms(1) lt by (rule tail_position)
    have "(head rb + i) mod RING_BUFFER_SIZE = tail rb \<longleftrightarrow> i = available_read rb"
      using i lt tp ring_index_inj [of "head rb" i "available_read rb"] by auto
    then show "ring_contents rb' ! i = (ring_contents rb @ [b]) ! i"
      using i av bounds by (auto simp: ring_contents_def rb'_def nth_append nth_list_update)
  qed
  with w inv show ?thesis by (simp add: rb'_def)
qed

lemma read_byte_ok:
  assumes "ring_inv rb" and "0 < available_read rb"
  shows "\<exists>rb'. read_byte rb = Some (hd (ring_contents rb), rb') \<and> ring_inv rb'
    \<and> ring_contents rb' = tl (ring_contents rb) \<and> write_end rb' = write_end rb"
proof -
  from assms(1) have bounds: "length (arr rb) = RING_BUFFER_SIZE" "head rb < RING_BUFFER_SIZE"
    by (auto simp: ring_inv_def)
  define h where "h = (head rb + 1) mod RING_BUFFER_SIZE"
  define rb' where "rb' = rb\<lparr>head := h, status := (if h = tail rb then Empty else Normal)\<rparr>"
  have hd: "hd (ring_contents rb) = arr rb ! head rb"
    using assms(2) bounds by (simp add: ring_contents_def hd_map)
  have r: "read_byte rb = Some (hd (ring_contents rb), rb')"
    using bounds by (simp add: read_byte_def idx_in_range hd rb'_def h_def)
  have inv: "ring_inv rb'"
    using assms(1) by (auto simp: ring_inv_def rb'_def h_def RING_BUFFER_SIZE_def)
  have av: "available_read rb' = available_read rb - 1"
    using assms by (cases "status rb")
      (auto simp: ring_inv_def available_read_def rb'_def h_def RING_BUFFER_SIZE_def mod_Suc split: if_splits)
  have "ring_contents rb' = tl (ring_contents rb)"
  proof (rule nth_equalityI)
    show "length (ring_contents rb') = length (tl (ring_contents rb))" by (simp add: av)
  next
    fix i assume "i < length (ring_contents rb')"
    then have i: "i < available_read rb - 1" by (simp add: av)
    have "(h + i) mod RING_BUFFER_SIZE = (head rb + Suc i) mod RING_BUFFER_SIZE"
      by (simp add: h_def mod_simps)
    then show "ring_contents rb' ! i = tl (ring_contents rb) ! i"
      using i av by (simp add: ring_contents_def rb'_def nth_tl less_diff_conv)
  qed
  with r inv show ?thesis by (simp add: rb'_def)
qed

interpretation ring: bounded_fifo write_byte read_byte available_write available_read
  ring_contents ring_inv RING_BUFFER_SIZE
proof unfold_locales
  fix q x
  assume "ring_inv q" "0 < available_write q"
  then show "\<exists>q'. write_byte q x = Some q' \<and> ring_inv q' \<and> ring_contents q' = ring_contents q @ [x]"
    using write_byte_ok by blast
next
  fix q
  assume "ring_inv q" "0 < available_read q"
  then show "\<exists>q'. read_byte q = Some (hd (ring_contents q), q') \<and> ring_inv q' \<and> ring_contents q' = tl (ring_contents q)"
    using read_byte_ok by blast
qed (auto simp: available_write_eq available_read_bound)

lemma ring_new_inv [simp]: "ring_inv (set_write_end ring_new w)"
  by (simp add: ring_inv_def ring_new_def set_write_end_def RING_BUFFER_SIZE_def)

lemma write_end_set [simp]: "write_end (set_write_end rb w) = Some w"
  by (simp add: set_write_end_def)

lemma ring_new_contents [simp]: "ring_contents (set_write_end ring_new w) = []"
  by (simp add: ring_contents_def ring_new_def set_write_end_def available_read_def)

subsection \<open>What a turn of the loops does\<close>

lemma read_bytes_ok:
  assumes "ring_inv rb" and "n \<le> available_read rb" and "length got < want"
  shows "\<exists>rb'. read_bytes n want rb got =
      Some (want - length got \<le> n, rb', got @ take (min n (want - length got)) (ring_contents rb))
    \<and> ring_inv rb' \<and> ring_contents rb' = drop (min n (want - length got)) (ring_contents rb)
    \<and> write_end rb' = write_end rb"
  using assms
proof (induction n arbitrary: rb got)
  case 0
  then show ?case by auto
next
  case (Suc n)
  from Suc.prems(1,2) obtain rb1 where rb1: "read_byte rb = Some (hd (ring_contents rb), rb1)"
      "ring_inv rb1" "ring_contents rb1 = tl (ring_contents rb)" "write_end rb1 = write_end rb"
    using read_byte_ok [of rb] by auto
  have ne: "ring_contents rb \<noteq> []" using Suc.prems(2) by (simp add: ring_contents_Nil)
  then obtain c cs where cs: "ring_contents rb = c # cs" by (cases "ring_contents rb") auto
  show ?case
  proof (cases "Suc (length got) = want")
    case True
    then have "want - length got = 1" "length got < want" by auto
    with True rb1 cs show ?thesis by simp
  next
    case False
    with Suc.prems(3) have lt: "length (got @ [c]) < want" by simp
    have "n \<le> available_read rb1"
      using Suc.prems(2) rb1(3) length_ring_contents [of rb1] by simp
    from Suc.IH [OF rb1(2) this lt] obtain rb2 where rb2:
      "read_bytes n want rb1 (got @ [c]) = Some (want - Suc (length got) \<le> n, rb2,
         (got @ [c]) @ take (min n (want - Suc (length got))) (ring_contents rb1))"
      "ring_inv rb2" "ring_contents rb2 = drop (min n (want - Suc (length got))) (ring_contents rb1)"
      "write_end rb2 = write_end rb1" by auto
    have m: "min (Suc n) (want - length got) = Suc (min n (want - Suc (length got)))"
      using Suc.prems(3) by auto
    have b: "(want - Suc (length got) \<le> n) = (want - length got \<le> Suc n)"
      using Suc.prems(3) by auto
    show ?thesis using rb1 rb2 cs lt False Suc.prems(3) by (simp add: m b)
  qed
qed

lemma read_turn_empty:
  assumes "ring_contents rb = []" and "write_end rb = Some w"
  shows "read_turn live want rb got = Some (if w \<in> live then Suspended else Returned, rb, got)"
proof -
  have "available_read rb = 0" using assms(1) by (simp add: ring_contents_Nil)
  then show ?thesis using assms(2)
    by (simp add: read_turn.simps [of live want rb got] all_write_ends_closed_def)
qed

lemma read_turn_ok:
  assumes "ring_inv rb" and "write_end rb = Some w" and "length got < want"
  shows "\<exists>rb'. read_turn live want rb got =
      Some (if want \<le> length got + available_read rb \<or> w \<notin> live then Returned else Suspended,
            rb', got @ take (want - length got) (ring_contents rb))
    \<and> ring_inv rb' \<and> ring_contents rb' = drop (want - length got) (ring_contents rb)
    \<and> write_end rb' = Some w"
proof (cases "available_read rb = 0")
  case True
  then have "ring_contents rb = []" by (simp add: ring_contents_Nil)
  with assms True read_turn_empty [of rb w live want got] show ?thesis by auto
next
  case False
  let ?k = "want - length got"
  from read_bytes_ok [OF assms(1) order.refl assms(3)] assms(2) obtain rb' where rb':
    "read_bytes (available_read rb) want rb got =
      Some (?k \<le> available_read rb, rb', got @ take ?k (ring_contents rb))"
    "ring_inv rb'" "ring_contents rb' = drop ?k (ring_contents rb)" "write_end rb' = Some w"
    by (auto simp: min_def split: if_splits)
  show ?thesis
  proof (cases "?k \<le> available_read rb")
    case True
    with False rb' show ?thesis
      by (auto simp: read_turn.simps [of live want rb got] Let_def)
  next
    case long: False
    then have e: "ring_contents rb' = []" using rb'(3) by simp
    from read_turn_empty [OF e rb'(4)] long False rb' show ?thesis
      by (auto simp: read_turn.simps [of live want rb got] Let_def)
  qed
qed

lemma write_bytes_ok:
  assumes "ring_inv rb" and "n \<le> available_write rb" and "src \<noteq> []" and "0 < n"
  shows "\<exists>rb'. write_bytes n rb src = Some (length src \<le> n, rb', drop n src) \<and> ring_inv rb'
    \<and> ring_contents rb' = ring_contents rb @ take n src \<and> write_end rb' = write_end rb"
  using assms
proof (induction n arbitrary: rb src)
  case 0
  then show ?case by simp
next
  case (Suc n)
  then obtain b bs where src: "src = b # bs" by (cases src) auto
  from Suc.prems(1,2) obtain rb1 where rb1: "write_byte rb b = Some rb1" "ring_inv rb1"
      "ring_contents rb1 = ring_contents rb @ [b]" "write_end rb1 = write_end rb"
    using write_byte_ok [of rb b] by auto
  have "available_read rb1 = Suc (available_read rb)"
    using rb1(3) length_ring_contents [of rb1] by simp
  then have n: "n \<le> available_write rb1"
    using Suc.prems(1,2) rb1(2) by (simp add: available_write_eq)
  show ?case
  proof (cases "bs = [] \<or> n = 0")
    case True
    with src rb1 show ?thesis by (cases n) auto
  next
    case False
    with Suc.IH [OF rb1(2) n, of bs] rb1 src show ?thesis by auto
  qed
qed

lemma write_turn_ok:
  assumes "ring_inv rb" and "src \<noteq> []"
  shows "\<exists>rb'. write_turn rb src =
      Some (if length src \<le> available_write rb then Returned else Suspended, rb',
            drop (available_write rb) src)
    \<and> ring_inv rb' \<and> ring_contents rb' = ring_contents rb @ take (available_write rb) src
    \<and> write_end rb' = write_end rb"
proof (cases "available_write rb = 0")
  case True
  then show ?thesis using assms by (simp add: write_turn.simps [of rb src])
next
  case False
  then have pos: "0 < available_write rb" by simp
  from write_bytes_ok [OF assms(1) order.refl assms(2) pos] obtain rb' where rb':
    "write_bytes (available_write rb) rb src =
       Some (length src \<le> available_write rb, rb', drop (available_write rb) src)"
    "ring_inv rb'" "ring_contents rb' = ring_contents rb @ take (available_write rb) src"
    "write_end rb' = write_end rb" by auto
  show ?thesis
  proof (cases "length src \<le> available_write rb")
    case True
    with False rb' show ?thesis by (simp add: write_turn.simps [of rb src])
  next
    case long: False
    have "available_read rb' = RING_BUFFER_SIZE"
      using rb'(3) long assms(1) length_ring_contents [of rb'] available_read_bound [OF assms(1)]
      by (simp add: available_write_eq)
    then have "available_write rb' = 0" using rb'(2) by (simp add: available_write_eq)
    then have "write_turn rb' (drop (available_write rb) src) =
        Some (Suspended, rb', drop (available_write rb) src)"
      by (simp add: write_turn.simps [of rb'])
    with False long rb' show ?thesis by (simp add: write_turn.simps [of rb src])
  qed
qed

subsection \<open>A writer and a reader taking turns\<close>

text \<open>
  Two tasks inside \<^verbatim>\<open>Pipe::write\<close> and \<^verbatim>\<open>Pipe::read\<close>, scheduled in turns
  until the reader returns: each round is one turn of the writer, if it still has bytes, and one
  turn of the reader.
\<close>

fun rounds :: "nat set \<Rightarrow> nat \<Rightarrow> nat \<Rightarrow> pipe_ring_buffer \<Rightarrow> u8 list \<Rightarrow> u8 list \<Rightarrow> u8 list outcome" where
  "rounds live 0 want rb src got = None"
| "rounds live (Suc n) want rb src got = do {
     (rb1, src1) \<leftarrow> (if src = [] then Some (rb, []) else map_option snd (write_turn rb src));
     (t, rb2, got2) \<leftarrow> read_turn live want rb1 got;
     if t = Returned then Some got2 else rounds live n want rb2 src1 got2
   }"

lemma rounds_deliver:
  assumes "ring_inv rb" and "ring_contents rb = []" and "write_end rb = Some w" and "w \<in> live"
    and "length src \<le> n * RING_BUFFER_SIZE" and "src \<noteq> []"
  shows "rounds live n (length got + length src) rb src got = Some (got @ src)"
  using assms
proof (induction n arbitrary: rb src got)
  case 0
  then show ?case by simp
next
  case (Suc n)
  let ?want = "length got + length src"
  from Suc.prems(2) have av: "available_read rb = 0" by (simp add: ring_contents_Nil)
  then have aw: "available_write rb = RING_BUFFER_SIZE"
    using Suc.prems(1) by (simp add: available_write_eq)
  from write_turn_ok [OF Suc.prems(1,6)] Suc.prems(2,3) aw obtain t rb1 where rb1:
    "write_turn rb src = Some (t, rb1, drop RING_BUFFER_SIZE src)" "ring_inv rb1"
    "ring_contents rb1 = take RING_BUFFER_SIZE src" "write_end rb1 = Some w" by auto
  have lt: "length got < ?want" using Suc.prems(6) by simp
  have len1: "available_read rb1 = min (length src) RING_BUFFER_SIZE"
    using rb1(3) length_ring_contents [of rb1] by simp
  from read_turn_ok [OF rb1(2,4) lt, of live] Suc.prems(4) rb1(3) obtain rb2 where rb2:
    "read_turn live ?want rb1 got = Some (if length src \<le> RING_BUFFER_SIZE then Returned else Suspended,
       rb2, got @ take RING_BUFFER_SIZE src)"
    "ring_inv rb2" "ring_contents rb2 = []" "write_end rb2 = Some w"
    by (auto simp: len1 min_def split: if_splits)
  show ?case
  proof (cases "length src \<le> RING_BUFFER_SIZE")
    case True
    with rb1(1) rb2(1) Suc.prems(6) show ?thesis by simp
  next
    case False
    let ?rest = "drop RING_BUFFER_SIZE src" and ?got = "got @ take RING_BUFFER_SIZE src"
    have "rounds live n (length ?got + length ?rest) rb2 ?rest ?got = Some (?got @ ?rest)"
      using Suc.prems(4,5) False rb2 by (intro Suc.IH) auto
    moreover have "length ?got + length ?rest = ?want" by simp
    ultimately show ?thesis using rb1(1) rb2(1) False Suc.prems(6) by simp
  qed
qed

subsection \<open>Properties\<close>

text \<open>C18: a pipe neither loses, duplicates nor reorders bytes, and never panics: from a fresh
  pipe, under any sequence of byte writes and byte reads (each skipped when there is no room or
  no data, as the callers do), the bytes delivered followed by the bytes still in the ring are
  exactly the bytes accepted.\<close>

theorem pipe_is_fifo:
  "\<exists>rb ins outs. qrun write_byte read_byte available_write available_read ops
      (snd (snd (make_pipe w)), [], []) = Some (rb, ins, outs)
    \<and> ring_inv rb \<and> outs @ ring_contents rb = ins"
  using ring.run_conserves [of "set_write_end ring_new w" "[]" "[]" ops] by (simp add: make_pipe_def)

text \<open>What one turn of \<^verbatim>\<open>Pipe::read\<close> does on a buffer in any reachable shape: it
  takes the first bytes of the buffer, as many as requested or all there are; it returns when the
  request is met or the write end is closed, and otherwise suspends; nothing else is removed.\<close>

lemma pipe_read_turn:
  assumes "ring_inv rb" and "write_end rb = Some w" and "0 < want"
  shows "\<exists>rb'. pipe_read live read_end_with_buffer rb want =
      Some (if want \<le> length (ring_contents rb) \<or> w \<notin> live then Returned else Suspended,
            rb', take want (ring_contents rb))
    \<and> ring_inv rb' \<and> ring_contents rb' = drop want (ring_contents rb)"
  using read_turn_ok [OF assms(1,2), of "[]" want live] assms(3)
  by (auto simp: pipe_read_def read_end_with_buffer_def)

text \<open>C19: a message of any length gets through a pipe of 32 bytes: when a writer with the message
  and a reader asking for its length take turns on a fresh pipe, the reader returns, within one
  round per 32 bytes, exactly the message.\<close>

theorem pipe_delivers_message:
  assumes "msg \<noteq> []" and "length msg \<le> n * RING_BUFFER_SIZE" and "w \<in> live"
  shows "rounds live n (length msg) (snd (snd (make_pipe w))) msg [] = Some msg"
  using rounds_deliver [of "set_write_end ring_new w" w live msg n "[]"] assms
  by (simp add: make_pipe_def)

theorem pipe_delivers_message_witness:
  "rounds {9} 3 (length (replicate 70 (65::u8))) (snd (snd (make_pipe 9))) (replicate 70 65) [] =
     Some (replicate 70 65)"
  by (rule pipe_delivers_message) (simp_all add: RING_BUFFER_SIZE_def)

end
