(* ===== verification/IdPool.thy ===== *)
theory IdPool
  imports Prelude
begin

section \<open>The contract of an identifier allocator\<close>

text \<open>
  What the owners of identifiers (process handles, kernel stacks, threads) rely on: an identifier
  handed out is not in use, releasing one in use makes it available again, and releasing any other
  is caught. The invariant carries the number of operations for which it is still good, since a
  counter of machine width wraps. The client lemma is about a history of handles that are created
  and dropped; Rust's ownership makes every drop one of a held handle.
\<close>

datatype 'i pool_op = Acquire | Release 'i

fun pool_run :: "('s \<Rightarrow> 'i \<times> 's) \<Rightarrow> ('s \<Rightarrow> 'i \<Rightarrow> 's outcome) \<Rightarrow> 'i pool_op list
    \<Rightarrow> 's \<times> 'i list \<Rightarrow> ('s \<times> 'i list) outcome" where
  "pool_run alloc dealloc [] st = Some st"
| "pool_run alloc dealloc (Acquire # ops) (s, held) =
     (let (i, s') = alloc s in pool_run alloc dealloc ops (s', held @ [i]))"
| "pool_run alloc dealloc (Release i # ops) (s, held) =
     (if i \<in> set held then do {
        s' \<leftarrow> dealloc s i;
        pool_run alloc dealloc ops (s', remove1 i held)
      } else pool_run alloc dealloc ops (s, held))"

locale id_pool =
  fixes alloc :: "'s \<Rightarrow> 'i \<times> 's"
    and dealloc :: "'s \<Rightarrow> 'i \<Rightarrow> 's outcome"
    and live :: "'s \<Rightarrow> 'i set"
    and known :: "'i set"
    and invar :: "nat \<Rightarrow> 's \<Rightarrow> bool"
  assumes alloc_fresh: "invar (Suc n) s \<Longrightarrow> alloc s = (i, s') \<Longrightarrow>
      i \<notin> live s \<and> live s' = insert i (live s) \<and> invar n s'"
    and dealloc_live: "invar (Suc n) s \<Longrightarrow> i \<in> live s \<Longrightarrow>
      \<exists>s'. dealloc s i = Some s' \<and> live s' = live s - {i} \<and> invar n s'"
    and dealloc_dead: "invar n s \<Longrightarrow> i \<in> known \<Longrightarrow> i \<notin> live s \<Longrightarrow> dealloc s i = None"
    and invar_weaken: "invar (Suc n) s \<Longrightarrow> invar n s"
begin

lemma handles_unique:
  assumes "invar (length ops) s" and "distinct held" and "set held = live s"
  shows "\<exists>s' held'. pool_run alloc dealloc ops (s, held) = Some (s', held')
    \<and> distinct held' \<and> set held' = live s' \<and> invar 0 s'"
  using assms
proof (induction ops arbitrary: s held)
  case Nil
  then show ?case by simp
next
  case (Cons op ops)
  show ?case
  proof (cases op)
    case Acquire
    obtain i s' where i: "alloc s = (i, s')" by fastforce
    with alloc_fresh Cons.prems(1) have
      "i \<notin> live s" "live s' = insert i (live s)" "invar (length ops) s'" by auto
    with Cons.IH [of s' "held @ [i]"] Cons.prems show ?thesis by (simp add: Acquire i)
  next
    case (Release i)
    show ?thesis
    proof (cases "i \<in> set held")
      case False
      with Release Cons invar_weaken [of "length ops" s] show ?thesis by simp
    next
      case True
      with dealloc_live [of "length ops" s i] Cons.prems obtain s' where
        s': "dealloc s i = Some s'" "live s' = live s - {i}" "invar (length ops) s'" by auto
      with Cons.IH [of s' "remove1 i held"] Cons.prems True show ?thesis by (simp add: Release)
    qed
  qed
qed

end

end
