(* ===== verification/Ids.thy ===== *)
theory Ids
  imports MemorySet IdPool
begin

section \<open>Identifiers, kernel stacks and user resources of threads\<close>

text \<open>
  os/src/task/id.rs: the recycling allocator behind process ids, kernel stacks and thread ids, the
  placement of kernel stacks, user stacks and trap contexts, and the mapping and unmapping of the
  areas they occupy. A vector is a list whose last element is the one
  \<^verbatim>\<open>push\<close> added. Dropping a handle is an explicit call.
\<close>

subsection \<open>RecycleAllocator\<close>

record recycle_allocator =
  id_current :: usize
  id_recycled :: "usize list"

definition new_start :: "usize \<Rightarrow> recycle_allocator" where
  "new_start c = \<lparr>id_current = c, id_recycled = []\<rparr>"

definition recycle_new :: recycle_allocator where
  "recycle_new = new_start 0"

definition id_alloc :: "recycle_allocator \<Rightarrow> usize \<times> recycle_allocator" where
  "id_alloc a = (case id_recycled a of
     [] \<Rightarrow> (let a' = a\<lparr>id_current := id_current a + 1\<rparr> in (id_current a' - 1, a'))
   | _ # _ \<Rightarrow> (last (id_recycled a), a\<lparr>id_recycled := butlast (id_recycled a)\<rparr>))"

definition id_dealloc :: "recycle_allocator \<Rightarrow> usize \<Rightarrow> recycle_allocator outcome" where
  "id_dealloc a i = do {
     _ \<leftarrow> ensure (i < id_current a);
     _ \<leftarrow> ensure (\<not> list_ex (\<lambda>j. j = i) (id_recycled a));
     Some (a\<lparr>id_recycled := id_recycled a @ [i]\<rparr>)
   }"

definition IDLE_PID :: usize where "IDLE_PID = 1"

definition PID_ALLOCATOR :: recycle_allocator where
  "PID_ALLOCATOR = new_start 1"

definition KSTACK_ALLOCATOR :: recycle_allocator where
  "KSTACK_ALLOCATOR = recycle_new"

subsection \<open>Where the stacks and trap contexts are\<close>

definition kernel_stack_position :: "usize \<Rightarrow> usize \<times> usize" where
  "kernel_stack_position kstack_id =
     (let top = TRAMPOLINE - kstack_id * (KERNEL_STACK_SIZE + PAGE_SIZE);
          bottom = top - KERNEL_STACK_SIZE
      in (bottom, top))"

definition kstack_top :: "usize \<Rightarrow> usize" where
  "kstack_top kstack_id = snd (kernel_stack_position kstack_id)"

definition trap_cx_bottom_from_tid :: "usize \<Rightarrow> usize" where
  "trap_cx_bottom_from_tid tid = TRAP_CONTEXT_BASE - tid * PAGE_SIZE"

definition ustack_bottom_from_tid :: "usize \<Rightarrow> usize \<Rightarrow> usize" where
  "ustack_bottom_from_tid base tid = base + tid * (PAGE_SIZE + USER_STACK_SIZE)"

subsection \<open>Kernel stacks\<close>

definition kstack_alloc :: "kmem \<Rightarrow> memory_set \<Rightarrow> recycle_allocator
    \<Rightarrow> (usize \<times> memory_set \<times> recycle_allocator \<times> kmem) outcome" where
  "kstack_alloc k space a = (
     let (kstack_id, a') = id_alloc a;
         (bottom, top) = kernel_stack_position kstack_id
     in do {
       (space', k') \<leftarrow> insert_framed_area k space (virt_addr_from bottom) (virt_addr_from top) (PERM_R OR PERM_W);
       Some (kstack_id, space', a', k')
     })"

definition kstack_drop :: "kmem \<Rightarrow> memory_set \<Rightarrow> recycle_allocator \<Rightarrow> usize
    \<Rightarrow> (memory_set \<times> recycle_allocator \<times> kmem) outcome" where
  "kstack_drop k space a kstack_id = do {
     vpn \<leftarrow> vpn_of_va (virt_addr_from (fst (kernel_stack_position kstack_id)));
     (space', k') \<leftarrow> remove_area_with_start_vpn k space vpn;
     a' \<leftarrow> id_dealloc a kstack_id;
     Some (space', a', k')
   }"

subsection \<open>User resources of a thread\<close>

record task_user_res =
  res_tid :: usize
  ustack_base :: usize

definition alloc_user_res :: "kmem \<Rightarrow> memory_set \<Rightarrow> task_user_res \<Rightarrow> (memory_set \<times> kmem) outcome" where
  "alloc_user_res k ms res = (
     let ustack_bottom = ustack_bottom_from_tid (ustack_base res) (res_tid res);
         ustack_top = ustack_bottom + USER_STACK_SIZE
     in do {
       (ms1, k1) \<leftarrow> insert_framed_area k ms (virt_addr_from ustack_bottom) (virt_addr_from ustack_top)
         (PERM_R OR PERM_W OR PERM_U);
       let trap_cx_bottom = trap_cx_bottom_from_tid (res_tid res);
       let trap_cx_top = trap_cx_bottom + PAGE_SIZE;
       insert_framed_area k1 ms1 (virt_addr_from trap_cx_bottom) (virt_addr_from trap_cx_top)
         (PERM_R OR PERM_W)
     })"

definition task_user_res_new :: "kmem \<Rightarrow> memory_set \<Rightarrow> recycle_allocator \<Rightarrow> usize \<Rightarrow> bool
    \<Rightarrow> (task_user_res \<times> memory_set \<times> recycle_allocator \<times> kmem) outcome" where
  "task_user_res_new k ms tids base alloc_res = (
     let (tid, tids') = id_alloc tids;
         res = \<lparr>res_tid = tid, ustack_base = base\<rparr>
     in do {
       (ms', k') \<leftarrow> (if alloc_res then alloc_user_res k ms res else Some (ms, k));
       Some (res, ms', tids', k')
     })"

definition dealloc_user_res :: "kmem \<Rightarrow> memory_set \<Rightarrow> task_user_res \<Rightarrow> (memory_set \<times> kmem) outcome" where
  "dealloc_user_res k ms res = do {
     ustack_vpn \<leftarrow> vpn_of_va (virt_addr_from (ustack_bottom_from_tid (ustack_base res) (res_tid res)));
     (ms1, k1) \<leftarrow> remove_area_with_start_vpn k ms ustack_vpn;
     trap_cx_vpn \<leftarrow> vpn_of_va (virt_addr_from (trap_cx_bottom_from_tid (res_tid res)));
     remove_area_with_start_vpn k1 ms1 trap_cx_vpn
   }"

definition trap_cx_ppn_of :: "kmem \<Rightarrow> memory_set \<Rightarrow> task_user_res \<Rightarrow> phys_page_num outcome" where
  "trap_cx_ppn_of k ms res = do {
     vpn \<leftarrow> vpn_of_va (virt_addr_from (trap_cx_bottom_from_tid (res_tid res)));
     pte \<leftarrow> pt_translate k (ms_table ms) vpn;
     Some (pte_ppn pte)
   }"

definition ustack_top_of :: "task_user_res \<Rightarrow> usize" where
  "ustack_top_of res = ustack_bottom_from_tid (ustack_base res) (res_tid res) + USER_STACK_SIZE"

definition task_user_res_drop :: "kmem \<Rightarrow> memory_set \<Rightarrow> recycle_allocator \<Rightarrow> task_user_res
    \<Rightarrow> (memory_set \<times> recycle_allocator \<times> kmem) outcome" where
  "task_user_res_drop k ms tids res = do {
     tids' \<leftarrow> id_dealloc tids (res_tid res);
     (ms', k') \<leftarrow> dealloc_user_res k ms res;
     Some (ms', tids', k')
   }"

subsection \<open>No identifier is handed out twice\<close>

definition live_ids :: "usize \<Rightarrow> recycle_allocator \<Rightarrow> usize set" where
  "live_ids c a = {i. c \<le> i \<and> i < id_current a} - set (id_recycled a)"

definition ids_inv :: "usize \<Rightarrow> nat \<Rightarrow> recycle_allocator \<Rightarrow> bool" where
  "ids_inv c n a \<longleftrightarrow> c \<le> id_current a \<and> unat (id_current a) + n < 2 ^ 64 \<and> distinct (id_recycled a)
     \<and> (\<forall>i \<in> set (id_recycled a). c \<le> i \<and> i < id_current a)"

lemma id_alloc_fresh:
  assumes inv: "ids_inv c (Suc n) a" and alloc: "id_alloc a = (i, a')"
  shows "i \<notin> live_ids c a \<and> live_ids c a' = insert i (live_ids c a) \<and> ids_inv c n a'"
proof (cases "id_recycled a" rule: rev_cases)
  case Nil
  have bump: "unat (id_current a + 1) = Suc (unat (id_current a))"
    using inv by (subst unat_add_no_wrap) (simp_all add: ids_inv_def)
  from alloc Nil have a': "i = id_current a" "a' = a\<lparr>id_current := id_current a + 1\<rparr>"
    by (auto simp: id_alloc_def Let_def)
  have "j < id_current a + 1 \<longleftrightarrow> j < id_current a \<or> j = id_current a" for j
    by (auto simp: word_less_nat_alt bump less_Suc_eq word_unat_eq_iff)
  with inv Nil bump show ?thesis
    by (auto simp: a' live_ids_def ids_inv_def word_le_nat_alt word_less_nat_alt)
next
  case (snoc js j)
  then have "id_recycled a \<noteq> []" by simp
  then have "id_alloc a = (last (id_recycled a), a\<lparr>id_recycled := butlast (id_recycled a)\<rparr>)"
    by (simp add: id_alloc_def split: list.split)
  with alloc snoc have a': "i = j" "a' = a\<lparr>id_recycled := js\<rparr>" by simp_all
  with inv snoc show ?thesis by (auto simp: live_ids_def ids_inv_def)
qed

lemma id_dealloc_live:
  assumes "ids_inv c (Suc n) a" and "i \<in> live_ids c a"
  shows "\<exists>a'. id_dealloc a i = Some a' \<and> live_ids c a' = live_ids c a - {i} \<and> ids_inv c n a'"
  using assms by (auto simp: id_dealloc_def live_ids_def ids_inv_def list_ex_iff)

lemma id_dealloc_dead:
  assumes "c \<le> i" and "i \<notin> live_ids c a"
  shows "id_dealloc a i = None"
  using assms by (auto simp: id_dealloc_def live_ids_def list_ex_iff)

interpretation ids: id_pool id_alloc id_dealloc "live_ids c" "{i. c \<le> i}" "ids_inv c" for c
proof unfold_locales
  show "ids_inv c n s" if "ids_inv c (Suc n) s" for n s
    using that by (simp add: ids_inv_def)
qed (simp_all add: id_alloc_fresh id_dealloc_live id_dealloc_dead)

lemma new_start_inv: "unat c + n < 2 ^ 64 \<Longrightarrow> ids_inv c n (new_start c)"
  and new_start_live [simp]: "live_ids c (new_start c) = {}"
  by (auto simp: ids_inv_def live_ids_def new_start_def)

text \<open>C23: Process ids, kernel stacks and thread ids are never handed out twice: over any history
  in which handles are created and held handles are dropped, no operation panics, the held
  identifiers are pairwise different, none is below the first one, and dropping an identifier that
  is not held would be caught by an assertion.\<close>

theorem ids_never_shared:
  assumes "unat c + length ops < 2 ^ 64"
  shows "\<exists>a held. pool_run id_alloc id_dealloc ops (new_start c, []) = Some (a, held)
    \<and> distinct held \<and> list_all (\<lambda>i. c \<le> i \<and> i < id_current a) held
    \<and> (\<forall>i. (id_dealloc a i = None) = (i \<notin> set held \<and> (c \<le> i \<or> id_current a \<le> i)))"
proof -
  from ids.handles_unique [of c ops "new_start c" "[]"] new_start_inv [OF assms] obtain a held where
    run: "pool_run id_alloc id_dealloc ops (new_start c, []) = Some (a, held)" "distinct held"
    and live: "set held = live_ids c a" and inv: "ids_inv c 0 a" by auto
  have "(id_dealloc a i = None) = (i \<notin> set held \<and> (c \<le> i \<or> id_current a \<le> i))" for i
    using inv by (auto simp: live live_ids_def id_dealloc_def list_ex_iff ids_inv_def)
  with run live show ?thesis by (simp add: list_all_iff live_ids_def)
qed

theorem ids_never_shared_witness:
  "\<exists>a held. pool_run id_alloc id_dealloc [Acquire, Acquire, Release 1, Acquire, Acquire] (PID_ALLOCATOR, [])
      = Some (a, held)
    \<and> distinct held \<and> list_all (\<lambda>i. 1 \<le> i \<and> i < id_current a) held
    \<and> (\<forall>i. (id_dealloc a i = None) = (i \<notin> set held \<and> (1 \<le> i \<or> id_current a \<le> i)))"
  unfolding PID_ALLOCATOR_def
  by (rule ids_never_shared) simp

subsection \<open>Kernel stacks do not overlap\<close>

text \<open>
  Two stacks of \<^const>\<open>KERNEL_STACK_SIZE\<close> bytes and one unmapped page below each: three pages per
  identifier, counted down from the trampoline. Up to \<open>2 ^ 24\<close> stacks stay in the upper half of
  the Sv39 address space.
\<close>

lemma unat_TRAMPOLINE: "unat TRAMPOLINE = 2 ^ 64 - 4096"
  by (simp add: TRAMPOLINE_def PAGE_SIZE_def)

lemma unat_kernel_stack:
  assumes "unat i < 2 ^ 24"
  shows "unat (snd (kernel_stack_position i)) = 2 ^ 64 - 4096 - unat i * 12288"
    and "unat (fst (kernel_stack_position i)) = 2 ^ 64 - 4096 - unat i * 12288 - 8192"
proof -
  have size: "KERNEL_STACK_SIZE + PAGE_SIZE = 12288" by (simp add: KERNEL_STACK_SIZE_def PAGE_SIZE_def)
  have mul: "unat (i * 12288) = unat i * 12288"
    using assms by (subst unat_mult_lem [THEN iffD1]) simp_all
  have le: "i * 12288 \<le> TRAMPOLINE"
    using assms by (simp add: word_le_nat_alt mul unat_TRAMPOLINE)
  then have top: "unat (TRAMPOLINE - i * 12288) = 2 ^ 64 - 4096 - unat i * 12288"
    by (simp add: unat_sub mul unat_TRAMPOLINE)
  then show "unat (snd (kernel_stack_position i)) = 2 ^ 64 - 4096 - unat i * 12288"
    by (simp add: kernel_stack_position_def Let_def size)
  have "KERNEL_STACK_SIZE \<le> TRAMPOLINE - i * 12288"
    using assms by (simp add: word_le_nat_alt top KERNEL_STACK_SIZE_def)
  then show "unat (fst (kernel_stack_position i)) = 2 ^ 64 - 4096 - unat i * 12288 - 8192"
    by (simp add: kernel_stack_position_def Let_def size unat_sub top) (simp add: KERNEL_STACK_SIZE_def)
qed

text \<open>The kernel stacks of two different identifiers lie in disjoint parts of the kernel's
  upper half, with the guard page below the higher one between them; each has the configured size,
  starts on a page boundary and ends at or below the trampoline.\<close>

lemma kernel_stacks_disjoint:
  assumes "i \<noteq> j" and "unat i < 2 ^ 24" and "unat j < 2 ^ 24"
    and "kernel_stack_position i = (b, t)" and "kernel_stack_position j = (b', t')"
  shows "(unat t' + 4096 \<le> unat b \<or> unat t + 4096 \<le> unat b') \<and> t = b + KERNEL_STACK_SIZE
    \<and> 4096 dvd unat b \<and> 2 ^ 64 - 2 ^ 38 \<le> unat b \<and> unat t \<le> unat TRAMPOLINE"
proof (intro conjI)
  from assms(1) have ne: "unat i \<noteq> unat j" by (simp add: word_unat_eq_iff)
  note pos = unat_kernel_stack [OF assms(2)] unat_kernel_stack [OF assms(3)]
  note pos' = pos [unfolded assms(4,5) fst_conv snd_conv]
  show "unat t' + 4096 \<le> unat b \<or> unat t + 4096 \<le> unat b'"
    using ne assms(2,3) by (simp add: pos') linarith
  show "t = b + KERNEL_STACK_SIZE"
    using assms(4) by (auto simp: kernel_stack_position_def Let_def)
  have "unat b = 4096 * (2 ^ 52 - 1 - unat i * 3 - 2)" using assms(2) by (simp add: pos')
  then show "4096 dvd unat b" by simp
  show "2 ^ 64 - 2 ^ 38 \<le> unat b" using assms(2) by (simp add: pos')
  show "unat t \<le> unat TRAMPOLINE" by (simp add: pos' unat_TRAMPOLINE)
qed

end
