(* ===== verification/Sync.thy ===== *)
theory Sync
  imports Tasks
begin

section \<open>Mutexes, semaphores and condition variables\<close>

text \<open>
  os/src/sync/mutex.rs, semaphore.rs and condvar.rs, over the task state. An operation that
  switches away ends the model's step with no current task; what it does when it is switched back
  in is a separate definition: nothing for a blocking mutex and a semaphore, the next turn of the
  loop for a spinning mutex, the locking of the mutex for a condition variable.
\<close>

subsection \<open>Mutexes\<close>

record mutex_blocking_inner =
  mb_locked :: bool
  mb_wait_queue :: "task list"

datatype mutex = MutexSpin (spin_locked: bool) | MutexBlocking mutex_blocking_inner

definition mutex_spin_new :: mutex where
  "mutex_spin_new = MutexSpin False"

definition mutex_blocking_new :: mutex where
  "mutex_blocking_new = MutexBlocking \<lparr>mb_locked = False, mb_wait_queue = []\<rparr>"

text \<open>One turn of the loop; the flag says that the lock was taken and the call returns.\<close>

definition spin_lock :: "usize \<Rightarrow> bool \<Rightarrow> 'a tasks_scheme \<Rightarrow> (bool \<times> bool \<times> 'a tasks_scheme) outcome" where
  "spin_lock now locked k =
     (if locked then do {
        k' \<leftarrow> suspend_current_and_run_next now k;
        Some (locked, False, k')
      } else Some (True, True, k))"

definition spin_unlock :: "bool \<Rightarrow> 'a tasks_scheme \<Rightarrow> (bool \<times> task option \<times> 'a tasks_scheme) outcome" where
  "spin_unlock locked k = Some (False, None, k)"

text \<open>
  A caller that finds the mutex taken queues itself and blocks; its call returns when it is woken,
  holding the mutex. Unlocking hands the mutex to the task it wakes.
\<close>

definition blocking_lock :: "mutex_blocking_inner \<Rightarrow> 'a tasks_scheme
    \<Rightarrow> (mutex_blocking_inner \<times> bool \<times> 'a tasks_scheme) outcome" where
  "blocking_lock m k =
     (if mb_locked m then do {
        t \<leftarrow> current_task k;
        k' \<leftarrow> block_current_and_run_next k;
        Some (m\<lparr>mb_wait_queue := mb_wait_queue m @ [t]\<rparr>, False, k')
      } else Some (m\<lparr>mb_locked := True\<rparr>, True, k))"

definition blocking_unlock :: "usize \<Rightarrow> mutex_blocking_inner \<Rightarrow> 'a tasks_scheme
    \<Rightarrow> (mutex_blocking_inner \<times> task option \<times> 'a tasks_scheme) outcome" where
  "blocking_unlock now m k = do {
     _ \<leftarrow> ensure (mb_locked m);
     case mb_wait_queue m of
       waking_task # rest \<Rightarrow> do {
         k' \<leftarrow> wakeup_task now waking_task k;
         Some (m\<lparr>mb_wait_queue := rest\<rparr>, Some waking_task, k')
       }
     | [] \<Rightarrow> Some (m\<lparr>mb_locked := False\<rparr>, None, k)
   }"

text \<open>The calls through \<^verbatim>\<open>dyn Mutex\<close>.\<close>

fun mutex_lock :: "usize \<Rightarrow> mutex \<Rightarrow> 'a tasks_scheme \<Rightarrow> (mutex \<times> bool \<times> 'a tasks_scheme) outcome" where
  "mutex_lock now (MutexSpin l) k = do { (l', got, k') \<leftarrow> spin_lock now l k; Some (MutexSpin l', got, k') }"
| "mutex_lock now (MutexBlocking m) k = do {
     (m', got, k') \<leftarrow> blocking_lock m k; Some (MutexBlocking m', got, k') }"

fun mutex_unlock :: "usize \<Rightarrow> mutex \<Rightarrow> 'a tasks_scheme \<Rightarrow> (mutex \<times> task option \<times> 'a tasks_scheme) outcome" where
  "mutex_unlock now (MutexSpin l) k = do { (l', h, k') \<leftarrow> spin_unlock l k; Some (MutexSpin l', h, k') }"
| "mutex_unlock now (MutexBlocking m) k = do {
     (m', h, k') \<leftarrow> blocking_unlock now m k; Some (MutexBlocking m', h, k') }"

subsection \<open>Semaphores\<close>

record semaphore =
  sem_count :: "64 word"
  sem_wait_queue :: "task list"

definition semaphore_new :: "usize \<Rightarrow> semaphore" where
  "semaphore_new res_count = \<lparr>sem_count = res_count, sem_wait_queue = []\<rparr>"

definition semaphore_up :: "usize \<Rightarrow> semaphore \<Rightarrow> 'a tasks_scheme
    \<Rightarrow> (semaphore \<times> task option \<times> 'a tasks_scheme) outcome" where
  "semaphore_up now s k = (
     let s' = s\<lparr>sem_count := sem_count s + 1\<rparr> in
     if sint (sem_count s') \<le> 0 then
       case sem_wait_queue s' of
         t # rest \<Rightarrow> do {
           k' \<leftarrow> wakeup_task now t k;
           Some (s'\<lparr>sem_wait_queue := rest\<rparr>, Some t, k')
         }
       | [] \<Rightarrow> Some (s', None, k)
     else Some (s', None, k))"

definition semaphore_down :: "semaphore \<Rightarrow> 'a tasks_scheme \<Rightarrow> (semaphore \<times> bool \<times> 'a tasks_scheme) outcome" where
  "semaphore_down s k = (
     let s' = s\<lparr>sem_count := sem_count s - 1\<rparr> in
     if sint (sem_count s') < 0 then do {
       t \<leftarrow> current_task k;
       k' \<leftarrow> block_current_and_run_next k;
       Some (s'\<lparr>sem_wait_queue := sem_wait_queue s' @ [t]\<rparr>, False, k')
     } else Some (s', True, k))"

subsection \<open>Condition variables\<close>

record condvar =
  cv_wait_queue :: "task list"

definition condvar_new :: condvar where
  "condvar_new = \<lparr>cv_wait_queue = []\<rparr>"

definition condvar_signal :: "usize \<Rightarrow> condvar \<Rightarrow> 'a tasks_scheme \<Rightarrow> (condvar \<times> 'a tasks_scheme) outcome" where
  "condvar_signal now c k = (case cv_wait_queue c of
     [] \<Rightarrow> Some (c, k)
   | t # rest \<Rightarrow> do { k' \<leftarrow> wakeup_task now t k; Some (c\<lparr>cv_wait_queue := rest\<rparr>, k') })"

definition condvar_wait_no_sched :: "condvar \<Rightarrow> 'a tasks_scheme \<Rightarrow> (condvar \<times> 'a tasks_scheme) outcome" where
  "condvar_wait_no_sched c k = do {
     t \<leftarrow> current_task k;
     k' \<leftarrow> block_current_task k;
     Some (c\<lparr>cv_wait_queue := cv_wait_queue c @ [t]\<rparr>, k')
   }"

definition condvar_wait_with_mutex :: "usize \<Rightarrow> condvar \<Rightarrow> mutex \<Rightarrow> 'a tasks_scheme
    \<Rightarrow> (condvar \<times> mutex \<times> task option \<times> 'a tasks_scheme) outcome" where
  "condvar_wait_with_mutex now c m k = do {
     (m', handed, k1) \<leftarrow> mutex_unlock now m k;
     t \<leftarrow> current_task k1;
     k2 \<leftarrow> block_current_and_run_next k1;
     Some (c\<lparr>cv_wait_queue := cv_wait_queue c @ [t]\<rparr>, m', handed, k2)
   }"

definition condvar_wait_resume :: "usize \<Rightarrow> mutex \<Rightarrow> 'a tasks_scheme \<Rightarrow> (mutex \<times> bool \<times> 'a tasks_scheme) outcome" where
  "condvar_wait_resume now m k = mutex_lock now m k"

subsection \<open>What the switches change\<close>

lemma add_task_frame:
  "add_task now t k = Some k' \<Longrightarrow> status_of k' = status_of k \<and> running k' = running k"
  by (auto simp: add_task_def Let_def bind_Some_conv split: prod.splits if_splits)

lemma wakeup_frame:
  "wakeup_task now t k = Some k' \<Longrightarrow> status_of k' = (status_of k)(t := Ready) \<and> running k' = running k"
  by (auto simp: wakeup_task_def dest!: add_task_frame)

lemma suspend_frame:
  "suspend_current_and_run_next now k = Some k' \<Longrightarrow> running k = Some t \<Longrightarrow>
    status_of k' = (status_of k)(t := Ready) \<and> running k' = None"
  by (auto simp: suspend_current_and_run_next_def take_current_task_def dest!: add_task_frame)

lemma block_frame:
  "block_current_and_run_next k = Some k' \<Longrightarrow> running k = Some t \<Longrightarrow>
    status_of k' = (status_of k)(t := Blocked) \<and> running k' = None"
  by (auto simp: block_current_and_run_next_def block_current_task_def take_current_task_def)

subsection \<open>The contract of a mutex\<close>

text \<open>
  The trait \<^verbatim>\<open>Mutex\<close>, and all interleavings of its callers with the rest of the system.
  \<open>H\<close> is the set of tasks whose \<^verbatim>\<open>lock\<close> has returned, or returns as soon as they are
  dispatched, and that have not unlocked. A task queued at the mutex has enlisted as a waiter, and only
  unlocking wakes it.
\<close>

inductive lock_step :: "(usize \<Rightarrow> 'm \<Rightarrow> tasks \<Rightarrow> ('m \<times> bool \<times> tasks) outcome)
    \<Rightarrow> (usize \<Rightarrow> 'm \<Rightarrow> tasks \<Rightarrow> ('m \<times> task option \<times> tasks) outcome) \<Rightarrow> ('m \<Rightarrow> task list)
    \<Rightarrow> task set \<times> task set \<times> tasks \<times> 'm \<times> task set \<Rightarrow> task set \<times> task set \<times> tasks \<times> 'm \<times> task set \<Rightarrow> bool"
  for lock unlock waiting where
  acquire: "on_cpu W k t \<Longrightarrow> t \<notin> H \<Longrightarrow> lock now m k = Some (m', got, k') \<Longrightarrow>
    lock_step lock unlock waiting (A, W, k, m, H)
      (A, W - set (waiting m) \<union> set (waiting m'), k', m', if got then insert t H else H)"
| release: "on_cpu W k t \<Longrightarrow> t \<in> H \<Longrightarrow> unlock now m k = Some (m', handed, k') \<Longrightarrow>
    lock_step lock unlock waiting (A, W, k, m, H)
      (A, W - set (waiting m) \<union> set (waiting m'), k', m', (H - {t}) \<union> set_option handed)"
| other: "task_step (A, W, k) (A', W', k') \<Longrightarrow> set (waiting m) \<subseteq> W' \<Longrightarrow>
    lock_step lock unlock waiting (A, W, k, m, H) (A', W', k', m, H)"

locale mutex_contract =
  fixes lock :: "usize \<Rightarrow> 'm \<Rightarrow> tasks \<Rightarrow> ('m \<times> bool \<times> tasks) outcome"
    and unlock :: "usize \<Rightarrow> 'm \<Rightarrow> tasks \<Rightarrow> ('m \<times> task option \<times> tasks) outcome"
    and waiting :: "'m \<Rightarrow> task list"
    and locked :: "'m \<Rightarrow> bool"
  assumes lock_free: "\<not> locked m \<Longrightarrow> \<exists>m'. lock now m k = Some (m', True, k) \<and> locked m' \<and> waiting m' = waiting m"
    and lock_held: "locked m \<Longrightarrow> tasks_inv (A, W, k) \<Longrightarrow> on_cpu W k t \<Longrightarrow>
      \<exists>m' k'. lock now m k = Some (m', False, k') \<and> locked m'
        \<and> (waiting m' = waiting m \<and> tasks_inv (A, W, k') \<or> waiting m' = waiting m @ [t] \<and> tasks_inv (A, insert t W, k'))"
    and unlock_last: "locked m \<Longrightarrow> waiting m = [] \<Longrightarrow>
      \<exists>m'. unlock now m k = Some (m', None, k) \<and> \<not> locked m' \<and> waiting m' = []"
    and unlock_hand: "locked m \<Longrightarrow> waiting m = w # ws \<Longrightarrow> tasks_inv (A, W, k) \<Longrightarrow> w \<in> W \<Longrightarrow>
      \<exists>m' k'. unlock now m k = Some (m', Some w, k') \<and> locked m' \<and> waiting m' = ws \<and> tasks_inv (A, W - {w}, k')"
begin

definition lock_inv :: "task set \<times> task set \<times> tasks \<times> 'm \<times> task set \<Rightarrow> bool" where
  "lock_inv = (\<lambda>(A, W, k, m, H). tasks_inv (A, W, k) \<and> distinct (waiting m) \<and> set (waiting m) \<subseteq> W
     \<and> (if locked m then \<exists>h. H = {h} \<and> h \<notin> set (waiting m) else H = {} \<and> waiting m = []))"

lemma lock_step_keeps:
  assumes "lock_step lock unlock waiting s s'" and "lock_inv s"
  shows "lock_inv s'"
  using assms
proof (induction rule: lock_step.induct)
  case (acquire W k t H now m m' got k' A)
  then have inv: "tasks_inv (A, W, k)" and w: "set (waiting m) \<subseteq> W" and t: "t \<notin> set (waiting m)"
    by (auto simp: lock_inv_def on_cpu_def)
  show ?case
  proof (cases "locked m")
    case False
    with lock_free [of m now k] acquire show ?thesis by (auto simp: lock_inv_def)
  next
    case True
    from lock_held [OF True inv acquire.hyps(1), of now] acquire.hyps(3) have
      got: "\<not> got" "locked m'" and or: "waiting m' = waiting m \<and> tasks_inv (A, W, k')
        \<or> waiting m' = waiting m @ [t] \<and> tasks_inv (A, insert t W, k')" by auto
    have "W - set (waiting m) \<union> set (waiting m) = W" "W - set (waiting m) \<union> insert t (set (waiting m)) = insert t W"
      using w by auto
    with or got True acquire.prems acquire.hyps(2) t show ?thesis
      by (elim disjE conjE) (auto simp: lock_inv_def)
  qed
next
  case (release W k t H now m m' handed k' A)
  then have inv: "tasks_inv (A, W, k)" and w: "set (waiting m) \<subseteq> W" by (simp_all add: lock_inv_def)
  from release have True: "locked m" and H: "H = {t}" by (auto simp: lock_inv_def split: if_splits)
  show ?case
  proof (cases "waiting m")
    case Nil
    from unlock_last [OF True Nil, of now k] release.hyps(3) have
      "handed = None" "k' = k" "\<not> locked m'" "waiting m' = []" by auto
    with inv H Nil show ?thesis by (simp add: lock_inv_def)
  next
    case (Cons v vs)
    with release.prems have v: "v \<in> W" "v \<notin> set vs" "distinct vs" "set vs \<subseteq> W" by (auto simp: lock_inv_def)
    from unlock_hand [OF True Cons inv v(1), of now] release.hyps(3) have
      "handed = Some v" "locked m'" "waiting m' = vs" "tasks_inv (A, W - {v}, k')" by auto
    moreover have "W - insert v (set vs) \<union> set vs = W - {v}" using v by auto
    ultimately show ?thesis using Cons v H by (auto simp: lock_inv_def)
  qed
next
  case (other A W k A' W' k' m H)
  then have "tasks_inv (A', W', k')" using task_step_keeps [OF other.hyps(1)] by (simp add: lock_inv_def)
  with other show ?case by (simp add: lock_inv_def)
qed

lemma reachable_lock_inv:
  assumes "(lock_step lock unlock waiting)\<^sup>*\<^sup>* s0 s" and "lock_inv s0"
  shows "lock_inv s"
  using assms by (induction rule: rtranclp_induct) (auto intro: lock_step_keeps)

end

interpretation spin: mutex_contract spin_lock "\<lambda>now. spin_unlock" "\<lambda>_. []" "\<lambda>l. l"
proof unfold_locales
  show "\<exists>m' k'. spin_lock now m k = Some (m', False, k') \<and> m'
      \<and> ([] = [] \<and> tasks_inv (A, W, k') \<or> [] = [] @ [t] \<and> tasks_inv (A, insert t W, k'))"
    if "m" "tasks_inv (A, W, k)" "on_cpu W k t" for now m A W k t
    using suspend_keeps [OF that(2,3), of now] that(1) by (auto simp: spin_lock_def)
qed (auto simp: spin_lock_def spin_unlock_def)

interpretation blocking: mutex_contract "\<lambda>now. blocking_lock" blocking_unlock mb_wait_queue mb_locked
proof unfold_locales
  show "\<exists>m' k'. blocking_lock m k = Some (m', False, k') \<and> mb_locked m'
      \<and> (mb_wait_queue m' = mb_wait_queue m \<and> tasks_inv (A, W, k')
        \<or> mb_wait_queue m' = mb_wait_queue m @ [t] \<and> tasks_inv (A, insert t W, k'))"
    if "mb_locked m" "tasks_inv (A, W, k)" "on_cpu W k t" for m A W k t
    using wait_keeps [OF that(2,3)] on_cpu_facts(5) [OF that(2,3)] that(1)
    by (auto simp: blocking_lock_def current_task_def)
  show "\<exists>m' k'. blocking_unlock now m k = Some (m', Some w, k') \<and> mb_locked m' \<and> mb_wait_queue m' = ws
      \<and> tasks_inv (A, W - {w}, k')"
    if "mb_locked m" "mb_wait_queue m = w # ws" "tasks_inv (A, W, k)" "w \<in> W" for now m w ws A W k
    using wakeup_keeps [OF that(3,4), of now] that by (auto simp: blocking_unlock_def)
qed (auto simp: blocking_lock_def blocking_unlock_def)

fun mutex_waiting :: "mutex \<Rightarrow> task list" where
  "mutex_waiting (MutexSpin l) = []"
| "mutex_waiting (MutexBlocking m) = mb_wait_queue m"

fun mutex_locked :: "mutex \<Rightarrow> bool" where
  "mutex_locked (MutexSpin l) = l"
| "mutex_locked (MutexBlocking m) = mb_locked m"

interpretation dynmutex: mutex_contract mutex_lock mutex_unlock mutex_waiting mutex_locked
proof unfold_locales
  fix now and k :: tasks
  show "\<exists>m'. mutex_lock now m k = Some (m', True, k) \<and> mutex_locked m' \<and> mutex_waiting m' = mutex_waiting m"
    if "\<not> mutex_locked m" for m
    using that spin.lock_free [of _ now k] blocking.lock_free [of _ k] by (cases m) fastforce+
  show "\<exists>m' k'. mutex_lock now m k = Some (m', False, k') \<and> mutex_locked m'
      \<and> (mutex_waiting m' = mutex_waiting m \<and> tasks_inv (A, W, k')
        \<or> mutex_waiting m' = mutex_waiting m @ [t] \<and> tasks_inv (A, insert t W, k'))"
    if "mutex_locked m" "tasks_inv (A, W, k)" "on_cpu W k t" for m A W t
    using spin.lock_held [OF _ that(2,3), of _ now] blocking.lock_held [OF _ that(2,3)] that(1)
    by (cases m) fastforce+
  show "\<exists>m'. mutex_unlock now m k = Some (m', None, k) \<and> \<not> mutex_locked m' \<and> mutex_waiting m' = []"
    if "mutex_locked m" "mutex_waiting m = []" for m
    using that spin.unlock_last [of _ k] blocking.unlock_last [of _ now k] by (cases m) fastforce+
  show "\<exists>m' k'. mutex_unlock now m k = Some (m', Some w, k') \<and> mutex_locked m' \<and> mutex_waiting m' = ws
      \<and> tasks_inv (A, W - {w}, k')"
    if "mutex_locked m" "mutex_waiting m = w # ws" "tasks_inv (A, W, k)" "w \<in> W" for m w ws A W
    using blocking.unlock_hand [OF _ _ that(3,4), of _ _ now] that(1,2) by (cases m) fastforce+
qed

text \<open>C5: Mutual exclusion, for spinning and for blocking mutexes, in every interleaving of lock and
  unlock calls with the creation, dispatch, preemption, blocking and waking of tasks: at most one
  task holds the mutex, the flag tells whether one does, and whenever a task is queued at the mutex
  some other task holds it, so no waiter is left behind.\<close>

theorem mutex_excludes:
  assumes "(lock_step mutex_lock mutex_unlock mutex_waiting)\<^sup>*\<^sup>*
      ({}, {}, boot_tasks pol, if blocking then mutex_blocking_new else mutex_spin_new, {}) (A, W, k, m, H)"
  shows "card H \<le> 1 \<and> (mutex_locked m \<longleftrightarrow> H \<noteq> {}) \<and> distinct (mutex_waiting m)
    \<and> set (mutex_waiting m) \<inter> H = {} \<and> \<not> (H = {} \<and> mutex_waiting m \<noteq> [])"
proof -
  have "dynmutex.lock_inv ({}, {}, boot_tasks pol, if blocking then mutex_blocking_new else mutex_spin_new, {})"
    by (simp add: dynmutex.lock_inv_def boot_tasks_inv mutex_blocking_new_def mutex_spin_new_def)
  from dynmutex.reachable_lock_inv [OF assms this] show ?thesis
    by (auto simp: dynmutex.lock_inv_def split: if_splits)
qed

lemma first_lock:
  "\<exists>k. (lock_step mutex_lock mutex_unlock mutex_waiting)\<^sup>*\<^sup>*
    ({}, {}, boot_tasks PriorityAging, mutex_blocking_new, {})
    ({1}, {}, k, MutexBlocking \<lparr>mb_locked = True, mb_wait_queue = []\<rparr>, {1})"
proof -
  from first_dispatch obtain k1 k where k: "task_step ({}, {}, boot_tasks PriorityAging) ({1}, {}, k1)"
    "task_step ({1}, {}, k1) ({1}, {}, k)" "on_cpu {} k 1" by blast
  have "lock_step mutex_lock mutex_unlock mutex_waiting
      ({}, {}, boot_tasks PriorityAging, mutex_blocking_new, {}) ({1}, {}, k1, mutex_blocking_new, {})"
    by (rule lock_step.other [OF k(1)]) (simp add: mutex_blocking_new_def)
  moreover have "lock_step mutex_lock mutex_unlock mutex_waiting
      ({1}, {}, k1, mutex_blocking_new, {}) ({1}, {}, k, mutex_blocking_new, {})"
    by (rule lock_step.other [OF k(2)]) (simp add: mutex_blocking_new_def)
  moreover have "lock_step mutex_lock mutex_unlock mutex_waiting ({1}, {}, k, mutex_blocking_new, {})
      ({1}, {}, k, MutexBlocking \<lparr>mb_locked = True, mb_wait_queue = []\<rparr>, if True then insert 1 {} else {})"
    using lock_step.acquire [OF k(3), of "{}" mutex_lock 0 mutex_blocking_new _ True _ mutex_unlock mutex_waiting "{1}"]
    by (simp add: mutex_blocking_new_def blocking_lock_def)
  ultimately have "(lock_step mutex_lock mutex_unlock mutex_waiting)\<^sup>*\<^sup>*
      ({}, {}, boot_tasks PriorityAging, mutex_blocking_new, {})
      ({1}, {}, k, MutexBlocking \<lparr>mb_locked = True, mb_wait_queue = []\<rparr>, if True then insert 1 {} else {})"
    by (meson converse_rtranclp_into_rtranclp rtranclp.rtrancl_refl)
  then show ?thesis by auto
qed

theorem mutex_excludes_witness:
  "\<exists>k m. (lock_step mutex_lock mutex_unlock mutex_waiting)\<^sup>*\<^sup>*
      ({}, {}, boot_tasks PriorityAging, mutex_blocking_new, {}) ({1}, {}, k, m, {1})
    \<and> card {1 :: task} \<le> 1 \<and> (mutex_locked m \<longleftrightarrow> {1 :: task} \<noteq> {}) \<and> distinct (mutex_waiting m)
    \<and> set (mutex_waiting m) \<inter> {1} = {} \<and> \<not> ({1 :: task} = {} \<and> mutex_waiting m \<noteq> [])"
proof -
  from first_lock obtain k m where k: "(lock_step mutex_lock mutex_unlock mutex_waiting)\<^sup>*\<^sup>*
    ({}, {}, boot_tasks PriorityAging, mutex_blocking_new, {}) ({1}, {}, k, m, {1})" by blast
  with mutex_excludes [of PriorityAging True "{1}" "{}" k m "{1}"] show ?thesis
    by (intro exI [of _ k] exI [of _ m]) simp
qed

subsection \<open>Semaphores count permits\<close>

text \<open>
  \<open>passed\<close> is the number of \<^verbatim>\<open>down\<close> calls that have returned, or return as soon as their
  caller is dispatched, and \<open>ups\<close> the number of \<^verbatim>\<open>up\<close> calls. The count is a machine
  integer: the steps are those that do not overflow it.
\<close>

inductive sem_step :: "task set \<times> task set \<times> tasks \<times> semaphore \<times> nat \<times> nat \<Rightarrow> task set \<times> task set \<times> tasks \<times> semaphore \<times> nat \<times> nat \<Rightarrow> bool"
  where
  down: "on_cpu W k t \<Longrightarrow> - (2 ^ 63) < sint (sem_count s) \<Longrightarrow> semaphore_down s k = Some (s', go_on, k') \<Longrightarrow>
    sem_step (A, W, k, s, passed, ups) (A, W - set (sem_wait_queue s) \<union> set (sem_wait_queue s'), k', s', if go_on then Suc passed else passed, ups)"
| up: "on_cpu W k t \<Longrightarrow> sint (sem_count s) < 2 ^ 63 - 1 \<Longrightarrow> semaphore_up now s k = Some (s', woken, k') \<Longrightarrow>
    sem_step (A, W, k, s, passed, ups) (A, W - set (sem_wait_queue s) \<union> set (sem_wait_queue s'), k', s', if woken = None then passed else Suc passed, Suc ups)"
| other: "task_step (A, W, k) (A', W', k') \<Longrightarrow> set (sem_wait_queue s) \<subseteq> W' \<Longrightarrow>
    sem_step (A, W, k, s, passed, ups) (A', W', k', s, passed, ups)"

fun sem_inv :: "usize \<Rightarrow> task set \<times> task set \<times> tasks \<times> semaphore \<times> nat \<times> nat \<Rightarrow> bool" where
  "sem_inv n (A, W, k, s, passed, ups) \<longleftrightarrow> tasks_inv (A, W, k) \<and> distinct (sem_wait_queue s) \<and> set (sem_wait_queue s) \<subseteq> W
     \<and> int (length (sem_wait_queue s)) = max 0 (- sint (sem_count s))
     \<and> int passed + max 0 (sint (sem_count s)) = int (unat n) + int ups"

declare sem_inv.simps [simp del]

lemma sint_add_one: "sint c < 2 ^ 63 - 1 \<Longrightarrow> sint (c + 1 :: 64 word) = sint c + 1"
  using sint_greater_eq [of c] by (simp add: signed_word_eqI sint_word_ariths signed_take_bit_int_eq_self)

lemma sint_sub_one: "- (2 ^ 63) < sint c \<Longrightarrow> sint (c - 1 :: 64 word) = sint c - 1"
  using sint_less [of c] by (simp add: sint_word_ariths signed_take_bit_int_eq_self)

lemma sem_down_keeps:
  assumes inv: "sem_inv n (A, W, k, s, passed, ups)" and t: "on_cpu W k t"
    and bound: "- (2 ^ 63) < sint (sem_count s)" and down: "semaphore_down s k = Some (s', go_on, k')"
  shows "sem_inv n (A, W - set (sem_wait_queue s) \<union> set (sem_wait_queue s'), k', s', if go_on then Suc passed else passed, ups)"
proof (cases "sint (sem_count s) \<le> 0")
  case False
  moreover have "W - set (sem_wait_queue s) \<union> set (sem_wait_queue s) = W" using inv by (auto simp: sem_inv.simps)
  ultimately show ?thesis using down sint_sub_one [OF bound] inv
    by (auto simp: sem_inv.simps semaphore_down_def)
next
  case True
  from inv have ti: "tasks_inv (A, W, k)" and w: "set (sem_wait_queue s) \<subseteq> W" by (simp_all add: sem_inv.simps)
  note f = on_cpu_facts [OF ti t]
  from wait_keeps [OF ti t] obtain k1 where
    "block_current_and_run_next k = Some k1" "tasks_inv (A, insert t W, k1)" by blast
  moreover from True sint_sub_one [OF bound] have "sint (sem_count s - 1) < 0" by simp
  moreover have "W - set (sem_wait_queue s) \<union> set (sem_wait_queue s) = W" "t \<notin> set (sem_wait_queue s)" using w f(6) by auto
  ultimately show ?thesis using down inv True sint_sub_one [OF bound]
    by (auto simp: sem_inv.simps semaphore_down_def current_task_def f(5))
qed

lemma sem_up_keeps:
  assumes inv: "sem_inv n (A, W, k, s, passed, ups)"
    and bound: "sint (sem_count s) < 2 ^ 63 - 1" and up: "semaphore_up now s k = Some (s', woken, k')"
  shows "sem_inv n (A, W - set (sem_wait_queue s) \<union> set (sem_wait_queue s'), k', s', if woken = None then passed else Suc passed, Suc ups)"
proof (cases "sem_wait_queue s")
  case Nil
  with inv have "0 \<le> sint (sem_count s)" by (simp add: sem_inv.simps max_def split: if_splits)
  with Nil up sint_add_one [OF bound] inv show ?thesis
    by (auto simp: sem_inv.simps semaphore_up_def split: if_splits)
next
  case (Cons w ws)
  with inv have w: "w \<in> W" "w \<notin> set ws" "set ws \<subseteq> W" and neg: "sint (sem_count s) < 0"
    by (auto simp: sem_inv.simps)
  from inv have ti: "tasks_inv (A, W, k)" by (simp add: sem_inv.simps)
  from wakeup_keeps [OF ti w(1), of now] obtain k1 where
    "wakeup_task now w k = Some k1" "tasks_inv (A, W - {w}, k1)" by blast
  moreover from neg sint_add_one [OF bound] have "sint (sem_count s + 1) \<le> 0" by simp
  moreover have "W - insert w (set ws) \<union> set ws = W - {w}" using w by auto
  ultimately show ?thesis using up inv Cons neg w(2) sint_add_one [OF bound]
    by (auto simp: sem_inv.simps semaphore_up_def)
qed

lemma sem_step_keeps:
  assumes "sem_step c c'" and "sem_inv n c"
  shows "sem_inv n c'"
  using assms
proof (induction rule: sem_step.induct)
  case (down W k t s s' go_on k' A passed ups)
  then show ?case using sem_down_keeps by blast
next
  case (up W k t s now s' woken k' A passed ups)
  then show ?case using sem_up_keeps by blast
next
  case (other A W k A' W' k' s passed ups)
  then have "tasks_inv (A', W', k')" using task_step_keeps [OF other.hyps(1)] by (simp add: sem_inv.simps)
  with other show ?case by (simp add: sem_inv.simps)
qed

text \<open>C15: A semaphore created with \<open>n\<close> permits lets at most \<open>n\<close> more callers through
  \<^verbatim>\<open>down\<close> than there were calls of \<^verbatim>\<open>up\<close>, in every interleaving with
  the rest of the system, as long as the counter does not overflow. The permits left are the
  count, and no caller waits while a permit is left: the number of waiters is the negative part of
  the count.\<close>

theorem semaphore_counts_permits:
  assumes "unat n < 2 ^ 63"
    and "sem_step\<^sup>*\<^sup>* ({}, {}, boot_tasks pol, semaphore_new n, 0, 0) (A, W, k, s, passed, ups)"
  shows "int passed + max 0 (sint (sem_count s)) = int (unat n) + int ups
    \<and> int (length (sem_wait_queue s)) = max 0 (- sint (sem_count s)) \<and> passed \<le> unat n + ups"
proof -
  have "sint n = int (unat n)" using assms(1) by (rule sint_small)
  then have "sem_inv n ({}, {}, boot_tasks pol, semaphore_new n, 0, 0)"
    by (simp add: sem_inv.simps boot_tasks_inv semaphore_new_def)
  from assms(2) this have "sem_inv n (A, W, k, s, passed, ups)"
    by (induction rule: rtranclp_induct) (auto intro: sem_step_keeps)
  then have e: "int passed + max 0 (sint (sem_count s)) = int (unat n) + int ups"
    "int (length (sem_wait_queue s)) = max 0 (- sint (sem_count s))" unfolding sem_inv.simps by blast+
  moreover have "passed \<le> unat n + ups" using e(1) max.cobounded1 [of 0 "sint (sem_count s)"] by linarith
  ultimately show ?thesis by blast
qed

theorem semaphore_counts_permits_witness:
  "\<exists>k. sem_step\<^sup>*\<^sup>* ({}, {}, boot_tasks PriorityAging, semaphore_new 2, 0, 0) ({1}, {}, k, semaphore_new 1, 1, 0)
    \<and> int 1 + max 0 (sint (sem_count (semaphore_new 1))) = int (unat (2 :: usize)) + int 0"
proof -
  from first_dispatch obtain k1 k where k: "task_step ({}, {}, boot_tasks PriorityAging) ({1}, {}, k1)"
    "task_step ({1}, {}, k1) ({1}, {}, k)" "on_cpu {} k 1" by blast
  have "sem_step ({}, {}, boot_tasks PriorityAging, semaphore_new 2, 0, 0) ({1}, {}, k1, semaphore_new 2, 0, 0)"
    by (rule sem_step.other [OF k(1)]) (simp add: semaphore_new_def)
  moreover have "sem_step ({1}, {}, k1, semaphore_new 2, 0, 0) ({1}, {}, k, semaphore_new 2, 0, 0)"
    by (rule sem_step.other [OF k(2)]) (simp add: semaphore_new_def)
  moreover have "sem_step ({1}, {}, k, semaphore_new 2, 0, 0)
      ({1}, {}, k, semaphore_new 1, if True then Suc 0 else 0, 0)"
    using sem_step.down [OF k(3), of "semaphore_new 2" "semaphore_new 1" True k "{1}" 0 0]
    by (simp add: semaphore_new_def semaphore_down_def Let_def)
  ultimately have run: "sem_step\<^sup>*\<^sup>* ({}, {}, boot_tasks PriorityAging, semaphore_new 2, 0, 0)
      ({1}, {}, k, semaphore_new 1, if True then Suc 0 else 0, 0)"
    by (meson converse_rtranclp_into_rtranclp rtranclp.rtrancl_refl)
  then have "sem_step\<^sup>*\<^sup>* ({}, {}, boot_tasks PriorityAging, semaphore_new 2, 0, 0) ({1}, {}, k, semaphore_new 1, 1, 0)"
    by auto
  with semaphore_counts_permits [OF _ this] show ?thesis by auto
qed

end
