(* ===== verification/Timer.thy ===== *)
theory Timer
  imports Sync
begin

section \<open>Timers\<close>

text \<open>
  os/src/timer.rs and the first part of \<^verbatim>\<open>sys_sleep\<close> of os/src/syscall/sync.rs, which adds the timer
  and then blocks. The time register and the clock frequency are arguments. The binary heap is a list; its greatest element is the one
  \<^verbatim>\<open>peek\<close> returns, and of several greatest ones the library promises none in particular:
  the model takes the one added first. The order is that of the negated deadline as a signed
  number.
\<close>

definition TICKS_PER_SEC :: usize where "TICKS_PER_SEC = 100"
definition MSEC_PER_SEC :: usize where "MSEC_PER_SEC = 1000"

definition checked_div :: "usize \<Rightarrow> usize \<Rightarrow> usize outcome" where
  "checked_div a b = (if b = 0 then None else Some (a div b))"

definition get_time_ms :: "usize \<Rightarrow> usize \<Rightarrow> usize outcome" where
  "get_time_ms clock_freq time = checked_div time (clock_freq div MSEC_PER_SEC)"

definition get_time_ticks :: "usize \<Rightarrow> usize \<Rightarrow> usize outcome" where
  "get_time_ticks clock_freq time = checked_div time (clock_freq div TICKS_PER_SEC)"

definition next_trigger :: "usize \<Rightarrow> usize \<Rightarrow> usize" where
  "next_trigger clock_freq time = time + clock_freq div TICKS_PER_SEC"

record timer_cond_var =
  expire_ms :: usize
  timer_task :: task

definition timer_less :: "timer_cond_var \<Rightarrow> timer_cond_var \<Rightarrow> bool" where
  "timer_less x y \<longleftrightarrow> sint (- expire_ms x) < sint (- expire_ms y)"

fun greatest :: "timer_cond_var \<Rightarrow> timer_cond_var list \<Rightarrow> timer_cond_var" where
  "greatest x [] = x"
| "greatest x (y # ys) = greatest (if timer_less x y then y else x) ys"

fun timers_peek :: "timer_cond_var list \<Rightarrow> timer_cond_var option" where
  "timers_peek [] = None"
| "timers_peek (x # xs) = Some (greatest x xs)"

definition add_timer :: "timer_cond_var list \<Rightarrow> usize \<Rightarrow> task \<Rightarrow> timer_cond_var list" where
  "add_timer timers ms t = timers @ [\<lparr>expire_ms = ms, timer_task = t\<rparr>]"

lemma greatest_mem: "greatest x xs \<in> set (x # xs)"
  by (induction xs arbitrary: x) (auto split: if_splits)

lemma timers_peek_mem: "timers_peek ts = Some x \<Longrightarrow> x \<in> set ts"
  using greatest_mem by (cases ts) auto

function check_timer :: "usize \<Rightarrow> usize \<Rightarrow> timer_cond_var list \<Rightarrow> 'a tasks_scheme
    \<Rightarrow> (timer_cond_var list \<times> 'a tasks_scheme) outcome" where
  "check_timer current_ms now timers k = (case timers_peek timers of
     None \<Rightarrow> Some (timers, k)
   | Some timer \<Rightarrow>
       if expire_ms timer \<le> current_ms then do {
         k' \<leftarrow> wakeup_task now (timer_task timer) k;
         check_timer current_ms now (remove1 timer timers) k'
       } else Some (timers, k))"
  by pat_completeness auto
termination
  by (relation "measure (\<lambda>(ms, now, timers, k). length timers)")
    (auto dest!: timers_peek_mem simp: length_remove1 intro!: diff_less length_pos_if_in_set)

declare check_timer.simps [simp del]

definition sleep_timer :: "usize \<Rightarrow> usize \<Rightarrow> timer_cond_var list \<Rightarrow> 'a tasks_scheme \<Rightarrow> timer_cond_var list outcome" where
  "sleep_timer time_ms ms timers k = do { t \<leftarrow> current_task k; Some (add_timer timers (time_ms + ms) t) }"

subsection \<open>The first to expire is on top\<close>

lemma greatest_max: "y \<in> set (x # xs) \<Longrightarrow> \<not> timer_less (greatest x xs) y"
proof (induction xs arbitrary: x y)
  case Nil
  then show ?case by (simp add: timer_less_def)
next
  case (Cons z zs)
  have top: "\<not> timer_less (greatest (if timer_less x z then z else x) zs) (if timer_less x z then z else x)"
    using Cons.IH [of "if timer_less x z then z else x"] by simp
  from Cons.prems consider "y = x" | "y = z" | "y \<in> set zs" by auto
  then show ?case
  proof cases
    case 3
    with Cons.IH [of y] show ?thesis by simp
  qed (use top in \<open>auto simp: timer_less_def split: if_splits\<close>)
qed

lemma timers_peek_max: "timers_peek ts = Some x \<Longrightarrow> y \<in> set ts \<Longrightarrow> \<not> timer_less x y"
  using greatest_max by (cases ts) auto

text \<open>Deadlines below \<open>2 ^ 63\<close> are ordered as they should be.\<close>

definition near :: "timer_cond_var \<Rightarrow> bool" where
  "near x \<longleftrightarrow> unat (expire_ms x) < 2 ^ 63"

lemma sint_uminus_near:
  assumes "unat e < 2 ^ 63"
  shows "sint (- e :: usize) = - int (unat e)"
proof -
  have small: "int (unat e) < 2 ^ 63" using assms [folded of_nat_less_iff [where 'a = int]] by simp
  have "sint (- e) = signed_take_bit 63 (- sint e)" by (simp add: sint_word_ariths)
  also have "\<dots> = - int (unat e)"
    unfolding sint_small [OF assms] using small by (intro signed_take_bit_int_eq_self) linarith+
  finally show ?thesis .
qed

lemma peek_first_to_expire:
  assumes "timers_peek ts = Some x" and "list_all near ts" and "y \<in> set ts"
  shows "expire_ms x \<le> expire_ms y"
  using timers_peek_max [OF assms(1,3)] timers_peek_mem [OF assms(1)] assms(2,3)
  by (auto simp: timer_less_def near_def list_all_iff sint_uminus_near word_le_def)

text \<open>Every timer belongs to another task, and that task has enlisted; it may not have blocked yet.\<close>

definition sleepers_ok :: "task set \<Rightarrow> task set \<Rightarrow> tasks \<Rightarrow> timer_cond_var list \<Rightarrow> bool" where
  "sleepers_ok A W k ts \<longleftrightarrow> tasks_inv (A, W, k) \<and> distinct (map timer_task ts) \<and> timer_task ` set ts \<subseteq> W \<and> list_all near ts"

lemma filter_remove1_out: "\<not> P x \<Longrightarrow> filter P (remove1 x xs) = filter P xs"
  by (induction xs) auto

lemma check_timer_ok:
  assumes "sleepers_ok A W k ts"
  shows "\<exists>k'. check_timer ms now ts k = Some (filter (\<lambda>x. ms < expire_ms x) ts, k')
    \<and> tasks_inv (A, W - timer_task ` {x \<in> set ts. expire_ms x \<le> ms}, k')
    \<and> status_of k' = (\<lambda>t. if \<exists>x \<in> set ts. expire_ms x \<le> ms \<and> timer_task x = t then Ready else status_of k t)"
  using assms
proof (induction ms now ts k arbitrary: W rule: check_timer.induct)
  case (1 ms now ts k)
  show ?case
  proof (cases "timers_peek ts")
    case None
    then have "ts = []" by (cases ts) auto
    with 1(2) show ?thesis by (simp add: check_timer.simps sleepers_ok_def)
  next
    case (Some x)
    note x = timers_peek_mem [OF Some]
    show ?thesis
    proof (cases "expire_ms x \<le> ms")
      case False
      have "ms < expire_ms y" if "y \<in> set ts" for y
        using peek_first_to_expire [OF Some _ that] 1(2) False by (auto simp: sleepers_ok_def)
      then have "filter (\<lambda>x. ms < expire_ms x) ts = ts"
        "\<not> (\<exists>x \<in> set ts. expire_ms x \<le> ms \<and> timer_task x = t)" and e: "{x \<in> set ts. expire_ms x \<le> ms} = {}" for t by fastforce+
      with Some False 1(2) show ?thesis unfolding e
        by (auto simp: check_timer.simps [of ms now ts k] sleepers_ok_def fun_eq_iff)
    next
      case True
      from 1(2) x have "tasks_inv (A, W, k)" "timer_task x \<in> W"
        by (auto simp: sleepers_ok_def)
      with wakeup_keeps [of A W k "timer_task x" now] wakeup_frame [of now "timer_task x" k] obtain k1 where
        k1: "wakeup_task now (timer_task x) k = Some k1" "tasks_inv (A, W - {timer_task x}, k1)"
          "status_of k1 = (status_of k)(timer_task x := Ready)" by blast
      have dist: "distinct ts" and inj: "inj_on timer_task (set ts)"
        using 1(2) by (auto simp: sleepers_ok_def distinct_map)
      then have rest: "set (remove1 x ts) = set ts - {x}" by simp
      have "sleepers_ok A (W - {timer_task x}) k1 (remove1 x ts)"
        using 1(2) k1 inj x dist by (auto simp: sleepers_ok_def rest list_all_iff distinct_map
            inj_on_diff inj_on_eq_iff)
      from 1(1) [OF Some True k1(1) this] obtain k' where
        k': "check_timer ms now (remove1 x ts) k1 = Some (filter (\<lambda>x. ms < expire_ms x) (remove1 x ts), k')"
          "tasks_inv (A, W - {timer_task x} - timer_task ` {y \<in> set ts - {x}. expire_ms y \<le> ms}, k')"
          "status_of k' = (\<lambda>t. if \<exists>y \<in> set ts - {x}. expire_ms y \<le> ms \<and> timer_task y = t then Ready else status_of k1 t)"
        by (auto simp: rest)
      have "filter (\<lambda>x. ms < expire_ms x) (remove1 x ts) = filter (\<lambda>x. ms < expire_ms x) ts"
        using True by (intro filter_remove1_out) simp
      moreover have "status_of k' = (\<lambda>t. if \<exists>y \<in> set ts. expire_ms y \<le> ms \<and> timer_task y = t then Ready else status_of k t)"
        unfolding k'(3) k1(3) using x True by (intro ext) auto
      moreover have "W - {timer_task x} - timer_task ` {y \<in> set ts - {x}. expire_ms y \<le> ms} = W - timer_task ` {y \<in> set ts. expire_ms y \<le> ms}"
        using x True by auto
      ultimately show ?thesis
        using Some True k1(1) k'(1,2) by (simp add: check_timer.simps [of ms now ts k])
    qed
  qed
qed

lemma sint_uminus_far:
  assumes "2 ^ 63 < unat e"
  shows "0 < sint (- e :: usize)"
proof -
  have e: "unat e < 2 ^ 64" using unsigned_less [of e, where ?'a = nat] by simp
  have "unat (- e) = 2 ^ 64 - unat e" using assms unat_sub_if_size [of 0 e] by (simp add: word_size)
  then have small: "unat (- e) < 2 ^ 63" and "0 < unat (- e)" using assms e by simp_all
  then show ?thesis unfolding sint_small [OF small] by linarith
qed

lemma sint_uminus_pos:
  assumes "0 < sint (- e :: usize)"
  shows "2 ^ 63 < unat e"
proof (rule ccontr)
  assume "\<not> 2 ^ 63 < unat e"
  then consider "unat e < 2 ^ 63" | "unat e = 2 ^ 63" by linarith
  then show False
  proof cases
    case 1
    with assms sint_uminus_near show False by fastforce
  next
    case 2
    then have "e = 0x8000000000000000" by (simp add: word_unat_eq_iff)
    with assms show False by simp
  qed
qed

text \<open>C24: A timer check wakes exactly the sleepers whose deadline has passed, those included that have added
  their timer and not blocked yet: the loop ends, no operation panics, the timers left are those not
  yet due in their order, and the tasks of the others, and no other task, become ready. Deadlines are
  below \<open>2 ^ 63\<close> milliseconds.\<close>

theorem check_timer_wakes_due:
  assumes "sleepers_ok A W k ts"
  shows "\<exists>k'. check_timer ms now ts k = Some (filter (\<lambda>x. ms < expire_ms x) ts, k')
    \<and> status_of k' = (\<lambda>t. if \<exists>x \<in> set ts. expire_ms x \<le> ms \<and> timer_task x = t then Ready else status_of k t)"
  using check_timer_ok [OF assms, of ms now] by blast

text \<open>C25: A single deadline beyond \<open>2 ^ 63\<close> stops all timers: negated as a signed number it is the
  greatest, so it stays on top of the heap, and while it is not due the check wakes nobody, however
  long the deadlines of the others have passed.\<close>

theorem far_deadline_blocks_timers:
  assumes "x \<in> set ts" and "2 ^ 63 < unat (expire_ms x)"
    and "list_all (\<lambda>y. 2 ^ 63 < unat (expire_ms y) \<longrightarrow> ms < expire_ms y) ts"
  shows "check_timer ms now ts k = Some (ts, k)"
proof -
  from assms(1) obtain y where y: "timers_peek ts = Some y" by (cases ts) auto
  have "0 < sint (- expire_ms y)"
    using timers_peek_max [OF y assms(1)] sint_uminus_far [OF assms(2)] by (simp add: timer_less_def)
  then have "2 ^ 63 < unat (expire_ms y)" by (rule sint_uminus_pos)
  with assms(3) timers_peek_mem [OF y] have "\<not> expire_ms y \<le> ms" by (auto simp: list_all_iff)
  with y show ?thesis by (simp add: check_timer.simps [of ms now ts k])
qed

definition example_timers :: "timer_cond_var list" where
  "example_timers = [\<lparr>expire_ms = 10, timer_task = 1\<rparr>, \<lparr>expire_ms = 0x8000000000000001, timer_task = 2\<rparr>]"

theorem far_deadline_blocks_timers_witness:
  "check_timer 50 5 example_timers (boot_tasks PriorityAging) = Some (example_timers, boot_tasks PriorityAging)"
  by (rule far_deadline_blocks_timers [of "example_timers ! 1"]) (simp_all add: example_timers_def)

theorem check_timer_wakes_due_witness:
  "\<exists>k k'. sleepers_ok {1} {1} k [\<lparr>expire_ms = 10, timer_task = 1\<rparr>] \<and> status_of k 1 = Running
    \<and> check_timer 50 5 [\<lparr>expire_ms = 10, timer_task = 1\<rparr>] k = Some ([], k') \<and> status_of k' 1 = Ready"
proof -
  from first_dispatch obtain k where k: "on_cpu {} k 1" "tasks_inv ({1}, {}, k)" by blast
  from enlist_keeps [OF k(2,1)] have ok: "sleepers_ok {1} {1} k [\<lparr>expire_ms = 10, timer_task = 1\<rparr>]"
    by (simp add: sleepers_ok_def near_def)
  with check_timer_wakes_due [OF ok, of 50 5] k(1) show ?thesis by (auto simp: on_cpu_def)
qed

end
