(* ===== verification/Process.thy ===== *)
theory Process
  imports Ids Timer
begin

unbundle bit_operations_syntax

section \<open>Processes, threads and signals\<close>

text \<open>
  os/src/task/process.rs, os/src/task/signal.rs, the rest of os/src/task/mod.rs and task.rs, and the
  trap and switch contexts. The kernel state extends the task state by the remaining fields of the
  control blocks, the process control blocks, the table from process ids, the memory and the
  allocators of identifiers. A process is the address of its control block. New addresses come from
  the kernel heap and are arguments, as are the symbols of the linker and the value that the status
  register is given for user mode. Files and working directories are the addresses of their objects.
  Of dropping a control block the model shows the release of the user resources, not the reuse of
  its memory.
\<close>

type_synonym process = usize
type_synonym file_ref = usize

record kernel_symbols =
  sym_strampoline :: usize
  sym_trap_handler :: usize
  sym_trap_return :: usize
  user_sstatus :: usize

subsection \<open>Trap contexts and switch contexts\<close>

record trap_context =
  cx_x :: "usize list"
  cx_sstatus :: usize
  cx_sepc :: usize
  cx_kernel_satp :: usize
  cx_kernel_sp :: usize
  cx_trap_handler :: usize

definition set_sp :: "trap_context \<Rightarrow> usize \<Rightarrow> trap_context" where
  "set_sp cx sp = cx\<lparr>cx_x := (cx_x cx)[2 := sp]\<rparr>"

definition app_init_context :: "usize \<Rightarrow> usize \<Rightarrow> usize \<Rightarrow> usize \<Rightarrow> usize \<Rightarrow> usize \<Rightarrow> trap_context" where
  "app_init_context sstatus entry sp kernel_satp kernel_sp trap_handler =
     set_sp \<lparr>cx_x = replicate 32 0, cx_sstatus = sstatus, cx_sepc = entry, cx_kernel_satp = kernel_satp,
       cx_kernel_sp = kernel_sp, cx_trap_handler = trap_handler\<rparr> sp"

text \<open>A trap context occupies the first 37 doublewords of its page.\<close>

definition trap_words :: "trap_context \<Rightarrow> usize list" where
  "trap_words cx = cx_x cx @ [cx_sstatus cx, cx_sepc cx, cx_kernel_satp cx, cx_kernel_sp cx, cx_trap_handler cx]"

definition put_words :: "kmem \<Rightarrow> phys_page_num \<Rightarrow> nat \<Rightarrow> usize list \<Rightarrow> kmem" where
  "put_words k p i ws = k\<lparr>phys := (phys k)(p := (\<lambda>j. if i \<le> j \<and> j < i + length ws then ws ! (j - i) else phys k p j))\<rparr>"

record task_context =
  cx_ra :: usize
  cx_sp :: usize
  cx_s :: "usize list"

definition zero_init :: task_context where
  "zero_init = \<lparr>cx_ra = 0, cx_sp = 0, cx_s = replicate 12 0\<rparr>"

definition goto_trap_return :: "kernel_symbols \<Rightarrow> usize \<Rightarrow> task_context" where
  "goto_trap_return ls kstack_ptr = \<lparr>cx_ra = sym_trap_return ls, cx_sp = kstack_ptr, cx_s = replicate 12 0\<rparr>"

subsection \<open>Signals\<close>

definition SIGINT :: u32 where "SIGINT = push_bit 2 1"
definition SIGILL :: u32 where "SIGILL = push_bit 4 1"
definition SIGABRT :: u32 where "SIGABRT = push_bit 6 1"
definition SIGFPE :: u32 where "SIGFPE = push_bit 8 1"
definition SIGSEGV :: u32 where "SIGSEGV = push_bit 11 1"
definition SIGTSTP :: u32 where "SIGTSTP = push_bit 20 1"
definition SIGCONT :: u32 where "SIGCONT = push_bit 21 1"

definition all_signals :: u32 where
  "all_signals = SIGINT OR SIGILL OR SIGABRT OR SIGFPE OR SIGSEGV OR SIGTSTP OR SIGCONT"

text \<open>\<^verbatim>\<open>from_bits\<close> of the bitflags macro: None when an undefined bit is set.\<close>

definition signal_from_bits :: "u32 \<Rightarrow> u32 option" where
  "signal_from_bits bits = (if bits AND NOT all_signals = 0 then Some bits else None)"

definition check_error :: "u32 \<Rightarrow> (32 word \<times> string) option" where
  "check_error sig =
     (if flags_contains sig SIGINT then Some (- 2, ''Killed, SIGINT=2'')
      else if flags_contains sig SIGILL then Some (- 4, ''Illegal Instruction, SIGILL=4'')
      else if flags_contains sig SIGABRT then Some (- 6, ''Aborted, SIGABRT=6'')
      else if flags_contains sig SIGFPE then Some (- 8, ''Erroneous Arithmetic Operation, SIGFPE=8'')
      else if flags_contains sig SIGSEGV then Some (- 11, ''Segmentation Fault, SIGSEGV=11'')
      else None)"

subsection \<open>The state\<close>

record pcb =
  pid :: usize
  is_zombie :: bool
  pcb_memory_set :: memory_set
  parent :: "process option"
  children :: "process list"
  pcb_exit_code :: "32 word"
  pgid :: usize
  stopped :: bool
  fd_table :: "file_ref option list"
  working_directory :: usize
  working_directory_path :: "u8 list"
  path_variable :: "u8 list"
  signals :: u32
  sig_ignored :: u32
  pcb_tasks :: "task option list"
  task_res_allocator :: recycle_allocator
  mutex_list :: "mutex option list"
  semaphore_list :: "semaphore option list"
  condvar_list :: "condvar option list"

record kernel = tasks +
  res_of :: "task \<Rightarrow> task_user_res option"
  exit_code_of :: "task \<Rightarrow> 32 word option"
  process_of :: "task \<Rightarrow> process"
  kstack_of :: "task \<Rightarrow> usize"
  trap_cx_of :: "task \<Rightarrow> phys_page_num"
  task_cx_of :: "task \<Rightarrow> task_context"
  pcbs :: "process \<Rightarrow> pcb"
  PID2PCB :: "(usize \<times> process) list"
  mem :: kmem
  KERNEL_SPACE :: memory_set
  pid_ids :: recycle_allocator
  kstack_ids :: recycle_allocator
  INITPROC :: process

text \<open>Access to the inner part of a control block.\<close>

definition modify_pcb :: "process \<Rightarrow> (pcb \<Rightarrow> pcb) \<Rightarrow> kernel \<Rightarrow> kernel" where
  "modify_pcb p f k = k\<lparr>pcbs := (pcbs k)(p := f (pcbs k p))\<rparr>"

text \<open>The table from process ids is a B-tree map: entries in the order of the keys.\<close>

definition pid2process :: "kernel \<Rightarrow> usize \<Rightarrow> process option" where
  "pid2process k i = map_of (PID2PCB k) i"

fun btree_insert :: "usize \<Rightarrow> 'v \<Rightarrow> (usize \<times> 'v) list \<Rightarrow> (usize \<times> 'v) list" where
  "btree_insert i v [] = [(i, v)]"
| "btree_insert i v ((j, w) # xs) =
     (if i < j then (i, v) # (j, w) # xs
      else if i = j then (i, v) # xs
      else (j, w) # btree_insert i v xs)"

definition insert_into_pid2process :: "usize \<Rightarrow> process \<Rightarrow> kernel \<Rightarrow> kernel" where
  "insert_into_pid2process i p k = k\<lparr>PID2PCB := btree_insert i p (PID2PCB k)\<rparr>"

definition remove_from_pid2process :: "usize \<Rightarrow> kernel \<Rightarrow> kernel outcome" where
  "remove_from_pid2process i k = do {
     _ \<leftarrow> ensure (map_of (PID2PCB k) i \<noteq> None);
     Some (k\<lparr>PID2PCB := filter (\<lambda>(j, _). j \<noteq> i) (PID2PCB k)\<rparr>)
   }"

definition current_process :: "kernel \<Rightarrow> process outcome" where
  "current_process k = do { t \<leftarrow> current_task k; Some (process_of k t) }"

definition current_user_token :: "kernel \<Rightarrow> usize outcome" where
  "current_user_token k = do { t \<leftarrow> current_task k; Some (ms_token (pcb_memory_set (pcbs k (process_of k t)))) }"

definition current_trap_cx :: "kernel \<Rightarrow> phys_page_num outcome" where
  "current_trap_cx k = do { t \<leftarrow> current_task k; Some (trap_cx_of k t) }"

definition current_trap_cx_user_va :: "kernel \<Rightarrow> usize outcome" where
  "current_trap_cx_user_va k = do {
     t \<leftarrow> current_task k;
     res \<leftarrow> res_of k t;
     Some (trap_cx_bottom_from_tid (res_tid res))
   }"

subsection \<open>Operations on a control block\<close>

definition alloc_fd :: "pcb \<Rightarrow> nat \<times> pcb" where
  "alloc_fd p = (case position (\<lambda>f. f = None) (fd_table p) of
     Some fd \<Rightarrow> (fd, p)
   | None \<Rightarrow> (let p' = p\<lparr>fd_table := fd_table p @ [None]\<rparr> in (length (fd_table p') - 1, p')))"

definition set_working_directory :: "usize \<Rightarrow> pcb \<Rightarrow> pcb" where
  "set_working_directory i p = p\<lparr>working_directory := i\<rparr>"

definition set_working_directory_path :: "u8 list \<Rightarrow> pcb \<Rightarrow> pcb" where
  "set_working_directory_path path p = p\<lparr>working_directory_path := path\<rparr>"

definition set_path_variable :: "u8 list \<Rightarrow> pcb \<Rightarrow> pcb" where
  "set_path_variable path p = p\<lparr>path_variable := path\<rparr>"

definition alloc_tid :: "pcb \<Rightarrow> usize \<times> pcb" where
  "alloc_tid p = (let (tid, a) = id_alloc (task_res_allocator p) in (tid, p\<lparr>task_res_allocator := a\<rparr>))"

definition dealloc_tid :: "usize \<Rightarrow> pcb \<Rightarrow> pcb outcome" where
  "dealloc_tid tid p = do { a \<leftarrow> id_dealloc (task_res_allocator p) tid; Some (p\<lparr>task_res_allocator := a\<rparr>) }"

definition thread_count :: "pcb \<Rightarrow> nat" where
  "thread_count p = length (pcb_tasks p)"

definition get_task :: "pcb \<Rightarrow> nat \<Rightarrow> task outcome" where
  "get_task p tid = do { entry \<leftarrow> idx (pcb_tasks p) tid; entry }"

subsection \<open>Creating threads and processes\<close>

text \<open>
  \<^verbatim>\<open>TaskControlBlock::new_with_priority\<close>: the new task's address is \<open>t\<close>, its process
  \<open>p\<close>.
\<close>

definition new_with_priority :: "kernel_symbols \<Rightarrow> task \<Rightarrow> process \<Rightarrow> usize \<Rightarrow> bool \<Rightarrow> usize \<Rightarrow> kernel \<Rightarrow> kernel outcome" where
  "new_with_priority ls t p base alloc_res priority k = do {
     (res, ms, tids, m) \<leftarrow> task_user_res_new (mem k) (pcb_memory_set (pcbs k p)) (task_res_allocator (pcbs k p)) base alloc_res;
     let k = modify_pcb p (\<lambda>b. b\<lparr>pcb_memory_set := ms, task_res_allocator := tids\<rparr>) (k\<lparr>mem := m\<rparr>);
     trap_cx_ppn \<leftarrow> trap_cx_ppn_of (mem k) ms res;
     (kstack, space, a, m) \<leftarrow> kstack_alloc (mem k) (KERNEL_SPACE k) (kstack_ids k);
     info \<leftarrow> sched_info_new priority;
     Some (k\<lparr>mem := m, KERNEL_SPACE := space, kstack_ids := a,
       process_of := (process_of k)(t := p),
       kstack_of := (kstack_of k)(t := kstack),
       res_of := (res_of k)(t \<mapsto> res),
       trap_cx_of := (trap_cx_of k)(t := trap_cx_ppn),
       task_cx_of := (task_cx_of k)(t := goto_trap_return ls (kstack_top kstack)),
       status_of := (status_of k)(t := Ready),
       exit_code_of := (exit_code_of k)(t := None),
       sched_of := (sched_of k)(t := info)\<rparr>)
   }"

text \<open>Writing the initial trap context of a thread.\<close>

definition put_trap_context :: "task \<Rightarrow> trap_context \<Rightarrow> kernel \<Rightarrow> kernel" where
  "put_trap_context t cx k = k\<lparr>mem := put_words (mem k) (trap_cx_of k t) 0 (trap_words cx)\<rparr>"

definition process_new :: "kernel_symbols \<Rightarrow> (u8 list \<Rightarrow> elf_file option) \<Rightarrow> usize \<Rightarrow> process \<Rightarrow> task
    \<Rightarrow> file_ref \<Rightarrow> file_ref \<Rightarrow> file_ref \<Rightarrow> usize \<Rightarrow> u8 list \<Rightarrow> kernel \<Rightarrow> kernel outcome" where
  "process_new ls parse now p t stdin stdout stderr root elf_data k = do {
     (ms, base, entry, m) \<leftarrow> from_elf parse (mem k) (sym_strampoline ls) elf_data;
     let (new_pid, ids) = id_alloc (pid_ids k);
     let b = \<lparr>pid = new_pid, is_zombie = False, pcb_memory_set = ms, parent = None, children = [],
       pcb_exit_code = 0, pgid = new_pid, stopped = False, fd_table = [Some stdin, Some stdout, Some stderr],
       working_directory = root, working_directory_path = [47], path_variable = [47, 98, 105, 110],
       signals = 0, sig_ignored = 0, pcb_tasks = [], task_res_allocator = recycle_new,
       mutex_list = [], semaphore_list = [], condvar_list = []\<rparr>;
     let k = k\<lparr>mem := m, pid_ids := ids, pcbs := (pcbs k)(p := b)\<rparr>;
     k \<leftarrow> new_with_priority ls t p base True DEFAULT_PRIORITY k;
     res \<leftarrow> res_of k t;
     let cx = app_init_context (user_sstatus ls) entry (ustack_top_of res) (ms_token (KERNEL_SPACE k))
       (kstack_top (kstack_of k t)) (sym_trap_handler ls);
     let k = put_trap_context t cx k;
     let k = modify_pcb p (\<lambda>b. b\<lparr>pcb_tasks := pcb_tasks b @ [Some t]\<rparr>) k;
     let k = insert_into_pid2process new_pid p k;
     add_task now t k
   }"

definition fork :: "kernel_symbols \<Rightarrow> usize \<Rightarrow> process \<Rightarrow> process \<Rightarrow> task \<Rightarrow> kernel \<Rightarrow> kernel outcome" where
  "fork ls now self c t k = do {
     let par = pcbs k self;
     _ \<leftarrow> ensure (thread_count par = 1);
     main \<leftarrow> get_task par 0;
     let inherited_priority = base_priority (sched_of k main);
     (ms, m) \<leftarrow> from_existed_user_cow (mem k) (sym_strampoline ls) (pcb_memory_set par);
     let (new_pid, ids) = id_alloc (pid_ids k);
     let b = \<lparr>pid = new_pid, is_zombie = False, pcb_memory_set = ms, parent = Some self, children = [],
       pcb_exit_code = 0, pgid = pgid par, stopped = False, fd_table = fd_table par,
       working_directory = working_directory par, working_directory_path = working_directory_path par,
       path_variable = path_variable par, signals = 0, sig_ignored = sig_ignored par, pcb_tasks = [],
       task_res_allocator = recycle_new, mutex_list = [], semaphore_list = [], condvar_list = []\<rparr>;
     let k = k\<lparr>mem := m, pid_ids := ids, pcbs := (pcbs k)(c := b)\<rparr>;
     let k = modify_pcb self (\<lambda>b. b\<lparr>children := children b @ [c]\<rparr>) k;
     main_res \<leftarrow> res_of k main;
     k \<leftarrow> new_with_priority ls t c (ustack_base main_res) False inherited_priority k;
     let k = modify_pcb c (\<lambda>b. b\<lparr>pcb_tasks := pcb_tasks b @ [Some t]\<rparr>) k;
     let k = k\<lparr>mem := put_words (mem k) (trap_cx_of k t) 35 [kstack_top (kstack_of k t)]\<rparr>;
     let k = insert_into_pid2process new_pid c k;
     add_task now t k
   }"

subsection \<open>Replacing the program of a process\<close>

text \<open>Writes through a pointer into physical memory, byte by byte.\<close>

fun put_phys_bytes :: "kmem \<Rightarrow> usize \<Rightarrow> u8 list \<Rightarrow> kmem" where
  "put_phys_bytes k pa [] = k"
| "put_phys_bytes k pa (b # bs) = (
     let p = pa_floor (PhysAddr pa);
         off = unat (pa_page_offset (PhysAddr pa))
     in put_phys_bytes (k\<lparr>phys := (phys k)(p := set_byte (phys k p) off b)\<rparr>) (pa + 1) bs)"

definition le_bytes :: "usize \<Rightarrow> u8 list" where
  "le_bytes w = map (\<lambda>i. ucast (drop_bit (8 * i) w)) [0..<8]"

fun write_str :: "usize \<Rightarrow> usize \<Rightarrow> u8 list \<Rightarrow> kmem \<Rightarrow> kmem outcome" where
  "write_str token p [] m = do {
     pa \<leftarrow> translated_refmut m token p;
     Some (put_phys_bytes m (pa_val pa) [0])
   }"
| "write_str token p (c # cs) m = do {
     pa \<leftarrow> translated_refmut m token p;
     write_str token (p + 1) cs (put_phys_bytes m (pa_val pa) [c])
   }"

fun push_args :: "usize \<Rightarrow> phys_addr list \<Rightarrow> usize \<Rightarrow> u8 list list \<Rightarrow> kmem \<Rightarrow> (usize \<times> kmem) outcome" where
  "push_args token argv user_sp [] m = Some (user_sp, m)"
| "push_args token [] user_sp (a # as) m = None"
| "push_args token (ptr # argv) user_sp (a # as) m = (
     let user_sp = user_sp - (of_nat (length a) + 1);
         m = put_phys_bytes m (pa_val ptr) (le_bytes user_sp)
     in do {
       m \<leftarrow> write_str token user_sp a m;
       push_args token argv user_sp as m
     })"

fun translate_all :: "kmem \<Rightarrow> usize \<Rightarrow> usize list \<Rightarrow> phys_addr list outcome" where
  "translate_all m token [] = Some []"
| "translate_all m token (p # ps) = do {
     pa \<leftarrow> translated_refmut m token p;
     rest \<leftarrow> translate_all m token ps;
     Some (pa # rest)
   }"

definition drop_memory_set :: "kmem \<Rightarrow> memory_set \<Rightarrow> kmem outcome" where
  "drop_memory_set m ms = do {
     m \<leftarrow> drop_trackers m (pt_frames (ms_table ms));
     drop_areas m (areas ms)
   }"

definition exec :: "kernel_symbols \<Rightarrow> (u8 list \<Rightarrow> elf_file option) \<Rightarrow> process \<Rightarrow> u8 list \<Rightarrow> u8 list list
    \<Rightarrow> kernel \<Rightarrow> kernel outcome" where
  "exec ls parse self elf_data args k = do {
     _ \<leftarrow> ensure (thread_count (pcbs k self) = 1);
     (ms, base, entry, m) \<leftarrow> from_elf parse (mem k) (sym_strampoline ls) elf_data;
     let new_token = ms_token ms;
     m \<leftarrow> drop_memory_set m (pcb_memory_set (pcbs k self));
     t \<leftarrow> get_task (pcbs k self) 0;
     res0 \<leftarrow> res_of k t;
     let res = res0\<lparr>ustack_base := base\<rparr>;
     (ms, m) \<leftarrow> alloc_user_res m ms res;
     trap_cx_ppn \<leftarrow> trap_cx_ppn_of m ms res;
     let argc = of_nat (length args);
     let argv_base = ustack_top_of res - (argc + 1) * 8;
     argv \<leftarrow> translate_all m new_token (map (\<lambda>arg. argv_base + of_nat arg * 8) [0..<length args + 1]);
     let m = put_phys_bytes m (pa_val (argv ! length args)) (le_bytes 0);
     (user_sp, m) \<leftarrow> push_args new_token argv argv_base args m;
     let user_sp = user_sp - user_sp mod 8;
     let cx = app_init_context (user_sstatus ls) entry user_sp (ms_token (KERNEL_SPACE k))
       (kstack_top (kstack_of k t)) (sym_trap_handler ls);
     let cx = cx\<lparr>cx_x := (cx_x cx)[10 := argc, 11 := argv_base]\<rparr>;
     let k = modify_pcb self (\<lambda>b. b\<lparr>pcb_memory_set := ms, signals := 0, sig_ignored := 0, stopped := False\<rparr>) k;
     let k = k\<lparr>mem := m, res_of := (res_of k)(t \<mapsto> res), trap_cx_of := (trap_cx_of k)(t := trap_cx_ppn)\<rparr>;
     Some (put_trap_context t cx k)
   }"

subsection \<open>Priorities and statistics\<close>

fun set_priority_tasks :: "usize \<Rightarrow> usize \<Rightarrow> task list \<Rightarrow> infos \<Rightarrow> infos" where
  "set_priority_tasks now priority [] info = info"
| "set_priority_tasks now priority (t # ts) info =
     set_priority_tasks now priority ts (info(t := set_base_priority priority now (info t)))"

definition live_tasks :: "pcb \<Rightarrow> task list" where
  "live_tasks p = List.map_filter id (pcb_tasks p)"

definition set_priority :: "usize \<Rightarrow> process \<Rightarrow> usize \<Rightarrow> kernel \<Rightarrow> kernel" where
  "set_priority now p priority k = k\<lparr>sched_of := set_priority_tasks now priority (live_tasks (pcbs k p)) (sched_of k)\<rparr>"

definition priority_of :: "process \<Rightarrow> kernel \<Rightarrow> usize option" where
  "priority_of p k = (case live_tasks (pcbs k p) of [] \<Rightarrow> None | t # _ \<Rightarrow> Some (base_priority (sched_of k t)))"

record sched_stats =
  st_pid :: usize
  st_base_priority :: usize
  st_effective_priority :: usize
  st_runtime_ticks :: usize
  st_total_wait_ticks :: usize
  st_scheduled_count :: usize

fun stats_tasks :: "usize \<Rightarrow> task list \<Rightarrow> bool \<Rightarrow> sched_stats \<Rightarrow> infos \<Rightarrow> sched_stats \<times> infos" where
  "stats_tasks now [] found_task stats info = (stats, info)"
| "stats_tasks now (t # ts) found_task stats info = (
     let sched = snd (refresh_effective_priority now (info t));
         stats = (if found_task then stats else stats\<lparr>st_base_priority := base_priority sched\<rparr>);
         stats = stats\<lparr>
           st_effective_priority := max (st_effective_priority stats) (effective_priority sched),
           st_runtime_ticks := saturating_add (st_runtime_ticks stats) (runtime_ticks sched),
           st_total_wait_ticks := saturating_add (st_total_wait_ticks stats)
             (saturating_add (total_wait_ticks sched)
               (if in_ready_queue sched then saturating_sub now (ready_since sched) else 0)),
           st_scheduled_count := saturating_add (st_scheduled_count stats) (scheduled_count sched)\<rparr>
     in stats_tasks now ts True stats (info(t := sched)))"

definition sched_stats_of :: "usize \<Rightarrow> process \<Rightarrow> kernel \<Rightarrow> sched_stats \<times> kernel" where
  "sched_stats_of now p k = (
     let (stats, info) = stats_tasks now (live_tasks (pcbs k p)) False
       \<lparr>st_pid = pid (pcbs k p), st_base_priority = 0, st_effective_priority = 0, st_runtime_ticks = 0,
         st_total_wait_ticks = 0, st_scheduled_count = 0\<rparr> (sched_of k)
     in (stats, k\<lparr>sched_of := info\<rparr>))"

end
