(* ===== verification/Jobs.thy ===== *)
theory Jobs
  imports Process
begin

section \<open>Exit, signals, job control\<close>

text \<open>
  The rest of os/src/task/mod.rs and the system calls of os/src/syscall/process.rs, thread.rs and
  sync.rs that change processes and threads. A system call that returns to its caller yields its
  result and the new state; the result is a signed machine integer, kept as a word.
\<close>

subsection \<open>Exit\<close>

datatype exit_result = Shutdown bool | Resumed kernel

definition drop_user_res :: "process \<Rightarrow> task_user_res \<Rightarrow> kernel \<Rightarrow> kernel outcome" where
  "drop_user_res p res k = do {
     (ms, tids, m) \<leftarrow> task_user_res_drop (mem k) (pcb_memory_set (pcbs k p)) (task_res_allocator (pcbs k p)) res;
     Some (modify_pcb p (\<lambda>b. b\<lparr>pcb_memory_set := ms, task_res_allocator := tids\<rparr>) (k\<lparr>mem := m\<rparr>))
   }"

fun drop_all_res :: "process \<Rightarrow> task_user_res list \<Rightarrow> kernel \<Rightarrow> kernel outcome" where
  "drop_all_res p [] k = Some k"
| "drop_all_res p (r # rs) k = do { k \<leftarrow> drop_user_res p r k; drop_all_res p rs k }"

fun take_res :: "task list \<Rightarrow> kernel \<Rightarrow> task_user_res list \<times> kernel" where
  "take_res [] k = ([], k)"
| "take_res (t # ts) k = (case res_of k t of
     None \<Rightarrow> take_res ts k
   | Some r \<Rightarrow> (let (rs, k') = take_res ts (k\<lparr>res_of := (res_of k)(t := None)\<rparr>) in (r # rs, k')))"

fun reparent :: "process list \<Rightarrow> kernel \<Rightarrow> kernel" where
  "reparent [] k = k"
| "reparent (c # cs) k = reparent cs
     (modify_pcb (INITPROC k) (\<lambda>b. b\<lparr>children := children b @ [c]\<rparr>)
       (modify_pcb c (\<lambda>b. b\<lparr>parent := Some (INITPROC k)\<rparr>) k))"

definition exit_process :: "process \<Rightarrow> 32 word \<Rightarrow> kernel \<Rightarrow> kernel outcome" where
  "exit_process p exit_code k = do {
     k \<leftarrow> remove_from_pid2process (pid (pcbs k p)) k;
     let k = modify_pcb p (\<lambda>b. b\<lparr>is_zombie := True, pcb_exit_code := exit_code\<rparr>) k;
     let k = reparent (children (pcbs k p)) k;
     let (recycle_res, k) = take_res (live_tasks (pcbs k p)) k;
     k \<leftarrow> drop_all_res p recycle_res k;
     let k = modify_pcb p (\<lambda>b. b\<lparr>children := []\<rparr>) k;
     (ms, m) \<leftarrow> recycle_data_pages (mem k) (pcb_memory_set (pcbs k p));
     Some (modify_pcb p (\<lambda>b. b\<lparr>pcb_memory_set := ms, fd_table := [], pcb_tasks := take 1 (pcb_tasks b)\<rparr>)
       (k\<lparr>mem := m\<rparr>))
   }"

definition exit_current_and_run_next :: "32 word \<Rightarrow> kernel \<Rightarrow> exit_result outcome" where
  "exit_current_and_run_next exit_code k = (
     let (cur, k) = take_current_task k in do {
       t \<leftarrow> cur;
       let p = process_of k t;
       res \<leftarrow> res_of k t;
       let tid = res_tid res;
       let k = k\<lparr>exit_code_of := (exit_code_of k)(t \<mapsto> exit_code), res_of := (res_of k)(t := None)\<rparr>;
       k \<leftarrow> drop_user_res p res k;
       let k = k\<lparr>sched_of := (sched_of k)(t := on_block (sched_of k t))\<rparr>;
       if tid = 0 then
         if pid (pcbs k p) = IDLE_PID then Some (Shutdown (exit_code \<noteq> 0))
         else do { k \<leftarrow> exit_process p exit_code k; Some (Resumed k) }
       else Some (Resumed k)
     })"

subsection \<open>Signals\<close>

definition check_signals_of_current :: "kernel \<Rightarrow> (32 word \<times> string) option outcome" where
  "check_signals_of_current k = do { p \<leftarrow> current_process k; Some (check_error (signals (pcbs k p))) }"

definition current_add_signal :: "u32 \<Rightarrow> kernel \<Rightarrow> kernel outcome" where
  "current_add_signal sig k = do {
     p \<leftarrow> current_process k;
     Some (modify_pcb p (\<lambda>b. b\<lparr>signals := signals b OR sig\<rparr>) k)
   }"

definition current_pgrp :: "kernel \<Rightarrow> usize outcome" where
  "current_pgrp k = do { p \<leftarrow> current_process k; Some (pgid (pcbs k p)) }"

definition check_stop_signal_of_current :: "kernel \<Rightarrow> (bool \<times> kernel) outcome" where
  "check_stop_signal_of_current k = do {
     p \<leftarrow> current_process k;
     let b = pcbs k p;
     Some (if flags_contains (sig_ignored b) SIGTSTP
       then (False, modify_pcb p (\<lambda>b. b\<lparr>signals := flags_remove (signals b) SIGTSTP\<rparr>) k)
       else if flags_contains (signals b) SIGTSTP
       then (True, modify_pcb p (\<lambda>b. b\<lparr>signals := flags_remove (signals b) SIGTSTP, stopped := True\<rparr>) k)
       else (False, k))
   }"

definition clear_cont_signal_of_current :: "kernel \<Rightarrow> kernel outcome" where
  "clear_cont_signal_of_current k = do {
     p \<leftarrow> current_process k;
     Some (modify_pcb p (\<lambda>b. b\<lparr>signals := flags_remove (signals b) SIGCONT\<rparr>) k)
   }"

definition stop_current_and_run_next :: "kernel \<Rightarrow> kernel outcome" where
  "stop_current_and_run_next k = (
     let (cur, k) = take_current_task k in do {
       t \<leftarrow> cur;
       let k = k\<lparr>status_of := (status_of k)(t := Stopped)\<rparr>;
       Some (modify_pcb (process_of k t) (\<lambda>b. b\<lparr>stopped := True\<rparr>) k)
     })"

fun resume_tasks :: "usize \<Rightarrow> task list \<Rightarrow> kernel \<Rightarrow> kernel outcome" where
  "resume_tasks now [] k = Some k"
| "resume_tasks now (t # ts) k =
     (if status_of k t = Stopped then do {
        k \<leftarrow> add_task now t (k\<lparr>status_of := (status_of k)(t := Ready)\<rparr>);
        resume_tasks now ts k
      } else resume_tasks now ts k)"

definition continue_process :: "usize \<Rightarrow> process \<Rightarrow> kernel \<Rightarrow> kernel outcome" where
  "continue_process now p k =
     (if \<not> stopped (pcbs k p) then Some k
      else let k = modify_pcb p (\<lambda>b. b\<lparr>stopped := False, signals := flags_remove (signals b) SIGCONT\<rparr>) k
        in resume_tasks now (live_tasks (pcbs k p)) k)"

definition group_members :: "usize \<Rightarrow> kernel \<Rightarrow> process list" where
  "group_members pgrp k = map snd (filter (\<lambda>(_, p). pgid (pcbs k p) = pgrp) (PID2PCB k))"

fun continue_all :: "usize \<Rightarrow> process list \<Rightarrow> kernel \<Rightarrow> kernel outcome" where
  "continue_all now [] k = Some k"
| "continue_all now (p # ps) k = do { k \<leftarrow> continue_process now p k; continue_all now ps k }"

definition continue_process_group :: "usize \<Rightarrow> usize \<Rightarrow> kernel \<Rightarrow> kernel outcome" where
  "continue_process_group now pgrp k = continue_all now (group_members pgrp k) k"

definition add_signal_to_process :: "u32 \<Rightarrow> process \<Rightarrow> kernel \<Rightarrow> kernel" where
  "add_signal_to_process sig p k =
     (if \<not> flags_contains (sig_ignored (pcbs k p)) sig
      then modify_pcb p (\<lambda>b. b\<lparr>signals := signals b OR sig\<rparr>) k else k)"

fun add_signal_all :: "u32 \<Rightarrow> process list \<Rightarrow> kernel \<Rightarrow> kernel" where
  "add_signal_all sig [] k = k"
| "add_signal_all sig (p # ps) k = add_signal_all sig ps (add_signal_to_process sig p k)"

definition signal_process_group :: "usize \<Rightarrow> u32 \<Rightarrow> kernel \<Rightarrow> kernel" where
  "signal_process_group pgrp sig k = add_signal_all sig (group_members pgrp k) k"

subsection \<open>System calls on processes\<close>

type_synonym isize = "64 word"

definition resolve_process :: "usize \<Rightarrow> kernel \<Rightarrow> process option outcome" where
  "resolve_process i k =
     (if i = 0 then do { p \<leftarrow> current_process k; Some (Some p) } else Some (pid2process k i))"

definition sys_getpid :: "kernel \<Rightarrow> isize outcome" where
  "sys_getpid k = do { p \<leftarrow> current_process k; Some (pid (pcbs k p)) }"

definition sys_yield :: "usize \<Rightarrow> kernel \<Rightarrow> (isize \<times> kernel) outcome" where
  "sys_yield now k = do { k \<leftarrow> suspend_current_and_run_next now k; Some (0, k) }"

definition sys_mmap :: "usize \<Rightarrow> usize \<Rightarrow> usize \<Rightarrow> kernel \<Rightarrow> (isize \<times> kernel) outcome" where
  "sys_mmap start len prot k = do {
     p \<leftarrow> current_process k;
     (r, ms, m) \<leftarrow> mmap (mem k) (pcb_memory_set (pcbs k p)) start len prot;
     Some (case r of None \<Rightarrow> - 1 | Some a \<Rightarrow> a, modify_pcb p (\<lambda>b. b\<lparr>pcb_memory_set := ms\<rparr>) (k\<lparr>mem := m\<rparr>))
   }"

definition sys_munmap :: "usize \<Rightarrow> usize \<Rightarrow> kernel \<Rightarrow> (isize \<times> kernel) outcome" where
  "sys_munmap start len k = do {
     p \<leftarrow> current_process k;
     (ok, ms, m) \<leftarrow> munmap (mem k) (pcb_memory_set (pcbs k p)) start len;
     Some (if ok then 0 else - 1, modify_pcb p (\<lambda>b. b\<lparr>pcb_memory_set := ms\<rparr>) (k\<lparr>mem := m\<rparr>))
   }"

definition sys_fork :: "kernel_symbols \<Rightarrow> usize \<Rightarrow> process \<Rightarrow> task \<Rightarrow> kernel \<Rightarrow> (isize \<times> kernel) outcome" where
  "sys_fork ls now c t k = do {
     p \<leftarrow> current_process k;
     k \<leftarrow> fork ls now p c t k;
     main \<leftarrow> get_task (pcbs k c) 0;
     Some (pid (pcbs k c), k\<lparr>mem := put_words (mem k) (trap_cx_of k main) 10 [0]\<rparr>)
   }"

text \<open>
  The number of strong references to a child, which the source asserts to be one, is a count the
  heap keeps; it is an argument.
\<close>

definition WUNTRACED :: usize where "WUNTRACED = 1"

definition sys_waitpid :: "(process \<Rightarrow> nat) \<Rightarrow> isize \<Rightarrow> usize \<Rightarrow> usize \<Rightarrow> kernel \<Rightarrow> (isize \<times> kernel) outcome" where
  "sys_waitpid strong_count i exit_code_ptr options k = do {
     p \<leftarrow> current_process k;
     let cs = children (pcbs k p);
     let matches = (\<lambda>c. i = - 1 \<or> i = pid (pcbs k c));
     if \<not> list_ex matches cs then Some (- 1, k)
     else if options AND WUNTRACED \<noteq> 0 \<and> list_ex (\<lambda>c. stopped (pcbs k c) \<and> matches c) cs then Some (- 3, k)
     else case position (\<lambda>c. is_zombie (pcbs k c) \<and> matches c) cs of
       None \<Rightarrow> Some (- 2, k)
     | Some n \<Rightarrow> do {
         (ok, ms, m) \<leftarrow> ensure_private_range (mem k) (pcb_memory_set (pcbs k p)) (virt_addr_from exit_code_ptr) 4;
         let k = modify_pcb p (\<lambda>b. b\<lparr>pcb_memory_set := ms\<rparr>) (k\<lparr>mem := m\<rparr>);
         if \<not> ok then Some (- 1, k)
         else do {
           let child = cs ! n;
           let k = modify_pcb p (\<lambda>b. b\<lparr>children := take n cs @ drop (Suc n) cs\<rparr>) k;
           _ \<leftarrow> ensure (strong_count child = 1);
           pa \<leftarrow> translated_refmut (mem k) (ms_token ms) exit_code_ptr;
           Some (pid (pcbs k child),
             k\<lparr>mem := put_phys_bytes (mem k) (pa_val pa)
               (map (\<lambda>j. ucast (drop_bit (8 * j) (pcb_exit_code (pcbs k child)))) [0..<4])\<rparr>)
         }
       }
   }"

definition sys_kill :: "usize \<Rightarrow> isize \<Rightarrow> u32 \<Rightarrow> kernel \<Rightarrow> (isize \<times> kernel) outcome" where
  "sys_kill now i signal k = (case signal_from_bits signal of
     None \<Rightarrow> Some (- 1, k)
   | Some flag \<Rightarrow>
       if flag = SIGCONT then
         if 0 < sint i then
           case pid2process k i of
             Some p \<Rightarrow> do { k \<leftarrow> continue_process now p k; Some (0, k) }
           | None \<Rightarrow> Some (- 1, k)
         else if sint i < 0 then do { k \<leftarrow> continue_process_group now (- i) k; Some (0, k) }
         else do { pgrp \<leftarrow> current_pgrp k; k \<leftarrow> continue_process_group now pgrp k; Some (0, k) }
       else if 0 < sint i then
         case pid2process k i of
           Some p \<Rightarrow> Some (0, add_signal_to_process flag p k)
         | None \<Rightarrow> Some (- 1, k)
       else if sint i < 0 then Some (0, signal_process_group (- i) flag k)
       else do { pgrp \<leftarrow> current_pgrp k; Some (0, signal_process_group pgrp flag k) })"

definition sys_setpgid :: "usize \<Rightarrow> usize \<Rightarrow> kernel \<Rightarrow> (isize \<times> kernel) outcome" where
  "sys_setpgid i grp k = do {
     current \<leftarrow> current_process k;
     let target_pid = (if i = 0 then pid (pcbs k current) else i);
     Some (case pid2process k target_pid of
         None \<Rightarrow> (- 1, k)
       | Some p \<Rightarrow>
           if target_pid \<noteq> pid (pcbs k current) \<and> parent (pcbs k p) \<noteq> Some current then (- 1, k)
           else (0, modify_pcb p (\<lambda>b. b\<lparr>pgid := if grp = 0 then target_pid else grp\<rparr>) k))
   }"

definition sys_set_priority :: "usize \<Rightarrow> usize \<Rightarrow> usize \<Rightarrow> kernel \<Rightarrow> (isize \<times> kernel) outcome" where
  "sys_set_priority now i priority k =
     (if \<not> (MIN_PRIORITY \<le> priority \<and> priority \<le> MAX_PRIORITY) then Some (- 2, k)
      else do {
        r \<leftarrow> resolve_process i k;
        Some (case r of None \<Rightarrow> (- 1, k) | Some p \<Rightarrow> (0, set_priority now p priority k))
      })"

definition sys_get_priority :: "usize \<Rightarrow> kernel \<Rightarrow> isize outcome" where
  "sys_get_priority i k = do {
     r \<leftarrow> resolve_process i k;
     Some (case r of
         None \<Rightarrow> - 1
       | Some p \<Rightarrow> (case priority_of p k of None \<Rightarrow> - 1 | Some priority \<Rightarrow> priority))
   }"

definition sys_getpgrp :: "kernel \<Rightarrow> isize outcome" where
  "sys_getpgrp k = current_pgrp k"

definition sys_sigaction :: "u32 \<Rightarrow> usize \<Rightarrow> kernel \<Rightarrow> (isize \<times> kernel) outcome" where
  "sys_sigaction signal act k = do {
     p \<leftarrow> current_process k;
     Some (case signal_from_bits signal of
         None \<Rightarrow> (- 1, k)
       | Some flag \<Rightarrow>
           if act = 0 then (0, modify_pcb p (\<lambda>b. b\<lparr>sig_ignored := flags_remove (sig_ignored b) flag\<rparr>) k)
           else if act = 1 then (0, modify_pcb p (\<lambda>b. b\<lparr>sig_ignored := flags_insert (sig_ignored b) flag\<rparr>) k)
           else (- 1, k))
   }"

subsection \<open>System calls on threads\<close>

fun pad_tasks :: "nat \<Rightarrow> task option list \<Rightarrow> task option list" where
  "pad_tasks n ts = ts @ replicate (n - length ts) None"

definition sys_thread_create :: "kernel_symbols \<Rightarrow> usize \<Rightarrow> task \<Rightarrow> usize \<Rightarrow> usize \<Rightarrow> kernel \<Rightarrow> (isize \<times> kernel) outcome" where
  "sys_thread_create ls now new_task entry arg k = do {
     t \<leftarrow> current_task k;
     let p = process_of k t;
     let inherited_priority = base_priority (sched_of k t);
     res \<leftarrow> res_of k t;
     k \<leftarrow> new_with_priority ls new_task p (ustack_base res) True inherited_priority k;
     k \<leftarrow> add_task now new_task k;
     new_res \<leftarrow> res_of k new_task;
     let tid = res_tid new_res;
     let k = modify_pcb p (\<lambda>b. b\<lparr>pcb_tasks := (pad_tasks (unat (tid + 1)) (pcb_tasks b))[unat tid := Some new_task]\<rparr>) k;
     let cx = app_init_context (user_sstatus ls) entry (ustack_top_of new_res) (ms_token (KERNEL_SPACE k))
       (kstack_top (kstack_of k new_task)) (sym_trap_handler ls);
     let cx = cx\<lparr>cx_x := (cx_x cx)[10 := arg]\<rparr>;
     Some (tid, put_trap_context new_task cx k)
   }"

definition sys_gettid :: "kernel \<Rightarrow> isize outcome" where
  "sys_gettid k = do { t \<leftarrow> current_task k; res \<leftarrow> res_of k t; Some (res_tid res) }"

definition sys_waittid :: "usize \<Rightarrow> kernel \<Rightarrow> (32 word \<times> kernel) outcome" where
  "sys_waittid tid k = do {
     t \<leftarrow> current_task k;
     let p = process_of k t;
     res \<leftarrow> res_of k t;
     if res_tid res = tid then Some (- 1, k)
     else do {
       waited_task \<leftarrow> idx (pcb_tasks (pcbs k p)) (unat tid);
       Some (case waited_task of
           None \<Rightarrow> (- 1, k)
         | Some w \<Rightarrow> (case exit_code_of k w of
             Some exit_code \<Rightarrow> (exit_code, modify_pcb p (\<lambda>b. b\<lparr>pcb_tasks := (pcb_tasks b)[unat tid := None]\<rparr>) k)
           | None \<Rightarrow> (- 2, k)))
     }
   }"

subsection \<open>System calls on mutexes, semaphores and condition variables\<close>

definition sys_mutex_create :: "bool \<Rightarrow> kernel \<Rightarrow> (isize \<times> kernel) outcome" where
  "sys_mutex_create blocking k = do {
     p \<leftarrow> current_process k;
     let (i, ms) = put_slot (mutex_list (pcbs k p)) (if \<not> blocking then mutex_spin_new else mutex_blocking_new);
     Some (of_nat i, modify_pcb p (\<lambda>b. b\<lparr>mutex_list := ms\<rparr>) k)
   }"

definition slot_of :: "'a option list \<Rightarrow> usize \<Rightarrow> 'a outcome" where
  "slot_of xs i = do { entry \<leftarrow> idx xs (unat i); entry }"

definition sys_mutex_lock :: "usize \<Rightarrow> usize \<Rightarrow> kernel \<Rightarrow> (bool \<times> kernel) outcome" where
  "sys_mutex_lock now mutex_id k = do {
     p \<leftarrow> current_process k;
     m \<leftarrow> slot_of (mutex_list (pcbs k p)) mutex_id;
     (m, got, k) \<leftarrow> mutex_lock now m k;
     Some (got, modify_pcb p (\<lambda>b. b\<lparr>mutex_list := (mutex_list b)[unat mutex_id := Some m]\<rparr>) k)
   }"

definition sys_mutex_unlock :: "usize \<Rightarrow> usize \<Rightarrow> kernel \<Rightarrow> (isize \<times> kernel) outcome" where
  "sys_mutex_unlock now mutex_id k = do {
     p \<leftarrow> current_process k;
     m \<leftarrow> slot_of (mutex_list (pcbs k p)) mutex_id;
     (m, _, k) \<leftarrow> mutex_unlock now m k;
     Some (0, modify_pcb p (\<lambda>b. b\<lparr>mutex_list := (mutex_list b)[unat mutex_id := Some m]\<rparr>) k)
   }"

definition sys_semaphore_create :: "usize \<Rightarrow> kernel \<Rightarrow> (isize \<times> kernel) outcome" where
  "sys_semaphore_create res_count k = do {
     p \<leftarrow> current_process k;
     let (i, ss) = put_slot (semaphore_list (pcbs k p)) (semaphore_new res_count);
     Some (of_nat i, modify_pcb p (\<lambda>b. b\<lparr>semaphore_list := ss\<rparr>) k)
   }"

definition sys_semaphore_up :: "usize \<Rightarrow> usize \<Rightarrow> kernel \<Rightarrow> (isize \<times> kernel) outcome" where
  "sys_semaphore_up now sem_id k = do {
     p \<leftarrow> current_process k;
     s \<leftarrow> slot_of (semaphore_list (pcbs k p)) sem_id;
     (s, _, k) \<leftarrow> semaphore_up now s k;
     Some (0, modify_pcb p (\<lambda>b. b\<lparr>semaphore_list := (semaphore_list b)[unat sem_id := Some s]\<rparr>) k)
   }"

definition sys_semaphore_down :: "usize \<Rightarrow> kernel \<Rightarrow> (bool \<times> kernel) outcome" where
  "sys_semaphore_down sem_id k = do {
     p \<leftarrow> current_process k;
     s \<leftarrow> slot_of (semaphore_list (pcbs k p)) sem_id;
     (s, go_on, k) \<leftarrow> semaphore_down s k;
     Some (go_on, modify_pcb p (\<lambda>b. b\<lparr>semaphore_list := (semaphore_list b)[unat sem_id := Some s]\<rparr>) k)
   }"

definition sys_condvar_create :: "kernel \<Rightarrow> (isize \<times> kernel) outcome" where
  "sys_condvar_create k = do {
     p \<leftarrow> current_process k;
     let (i, cs) = put_slot (condvar_list (pcbs k p)) condvar_new;
     Some (of_nat i, modify_pcb p (\<lambda>b. b\<lparr>condvar_list := cs\<rparr>) k)
   }"

definition sys_condvar_signal :: "usize \<Rightarrow> usize \<Rightarrow> kernel \<Rightarrow> (isize \<times> kernel) outcome" where
  "sys_condvar_signal now condvar_id k = do {
     p \<leftarrow> current_process k;
     c \<leftarrow> slot_of (condvar_list (pcbs k p)) condvar_id;
     (c, k) \<leftarrow> condvar_signal now c k;
     Some (0, modify_pcb p (\<lambda>b. b\<lparr>condvar_list := (condvar_list b)[unat condvar_id := Some c]\<rparr>) k)
   }"

definition sys_condvar_wait :: "usize \<Rightarrow> usize \<Rightarrow> usize \<Rightarrow> kernel \<Rightarrow> kernel outcome" where
  "sys_condvar_wait now condvar_id mutex_id k = do {
     p \<leftarrow> current_process k;
     c \<leftarrow> slot_of (condvar_list (pcbs k p)) condvar_id;
     m \<leftarrow> slot_of (mutex_list (pcbs k p)) mutex_id;
     (c, m, _, k) \<leftarrow> condvar_wait_with_mutex now c m k;
     Some (modify_pcb p (\<lambda>b. b\<lparr>condvar_list := (condvar_list b)[unat condvar_id := Some c],
       mutex_list := (mutex_list b)[unat mutex_id := Some m]\<rparr>) k)
   }"

subsection \<open>Signals reach the whole group and nobody else\<close>

definition receives :: "u32 \<Rightarrow> pcb \<Rightarrow> pcb" where
  "receives sig b = (if flags_contains (sig_ignored b) sig then b else b\<lparr>signals := signals b OR sig\<rparr>)"

lemma receives_twice [simp]: "receives sig (receives sig b) = receives sig b"
  by (simp add: receives_def or.assoc)

lemma add_signal_to_process_eq:
  "add_signal_to_process sig p k = k\<lparr>pcbs := (pcbs k)(p := receives sig (pcbs k p))\<rparr>"
  by (simp add: add_signal_to_process_def modify_pcb_def receives_def)

lemma add_signal_all_eq:
  "add_signal_all sig ps k = k\<lparr>pcbs := (\<lambda>p. if p \<in> set ps then receives sig (pcbs k p) else pcbs k p)\<rparr>"
proof (induction ps arbitrary: k)
  case Nil
  then show ?case by simp
next
  case (Cons p ps)
  have "(\<lambda>q. if q \<in> set ps then receives sig (((pcbs k)(p := receives sig (pcbs k p))) q)
        else ((pcbs k)(p := receives sig (pcbs k p))) q)
      = (\<lambda>q. if q \<in> set (p # ps) then receives sig (pcbs k q) else pcbs k q)" by auto
  with Cons show ?case by (simp add: add_signal_to_process_eq cong: if_cong)
qed

text \<open>\<^verbatim>\<open>kill\<close> with a negative process id delivers a signal other than SIGCONT to
  every process of that group that does not ignore it: it becomes pending there, whatever was
  pending stays, and no other part of the state changes. An undefined signal number is refused
  and changes nothing.\<close>

lemma kill_signals_group:
  assumes "sint i < 0"
  shows "sys_kill now i sig k =
    (if signal_from_bits sig = None then Some (- 1, k)
     else if sig = SIGCONT then map_option (Pair 0) (continue_process_group now (- i) k)
     else Some (0, k\<lparr>pcbs := (\<lambda>p. if p \<in> set (group_members (- i) k)
         \<and> \<not> flags_contains (sig_ignored (pcbs k p)) sig
       then (pcbs k p)\<lparr>signals := signals (pcbs k p) OR sig\<rparr> else pcbs k p)\<rparr>))"
proof (cases "signal_from_bits sig")
  case None
  then show ?thesis by (simp add: sys_kill_def)
next
  case (Some flag)
  then have flag: "flag = sig" by (simp add: signal_from_bits_def split: if_splits)
  have "signal_process_group (- i) sig k = k\<lparr>pcbs := (\<lambda>p. if p \<in> set (group_members (- i) k)
        \<and> \<not> flags_contains (sig_ignored (pcbs k p)) sig
      then (pcbs k p)\<lparr>signals := signals (pcbs k p) OR sig\<rparr> else pcbs k p)\<rparr>"
    by (auto simp: signal_process_group_def add_signal_all_eq receives_def intro!: arg_cong [where f = "\<lambda>x. k\<lparr>pcbs := x\<rparr>"])
  moreover have "(continue_process_group now (- i) k \<bind> (\<lambda>k. Some (0 :: isize, k)))
      = map_option (Pair 0) (continue_process_group now (- i) k)"
    by (cases "continue_process_group now (- i) k") simp_all
  ultimately show ?thesis using assms Some flag by (simp add: sys_kill_def)
qed

text \<open>A group of two processes, the second of which ignores the interrupt.\<close>

definition example_pcb :: "usize \<Rightarrow> u32 \<Rightarrow> pcb" where
  "example_pcb i ignored = \<lparr>pid = i, is_zombie = False,
     pcb_memory_set = \<lparr>ms_table = \<lparr>root_ppn = PhysPageNum 0, pt_frames = []\<rparr>, areas = []\<rparr>,
     parent = None, children = [], pcb_exit_code = 0, pgid = 2, stopped = False, fd_table = [],
     working_directory = 0, working_directory_path = [47], path_variable = [47, 98, 105, 110], signals = 0,
     sig_ignored = ignored, pcb_tasks = [Some 1, Some 2],
     task_res_allocator = \<lparr>id_current = 2, id_recycled = []\<rparr>,
     mutex_list = [], semaphore_list = [], condvar_list = []\<rparr>"

definition example_kernel :: kernel where
  "example_kernel = \<lparr>sched_of = (\<lambda>t. if t = 2 then no_task\<lparr>in_ready_queue := True\<rparr> else no_task),
     status_of = (\<lambda>t. if t = 1 then Running else Ready),
     policy = RoundRobinScheduler \<lparr>ready_queue = [2]\<rparr>, running = Some 1,
     res_of = (\<lambda>t. if t = 1 then Some \<lparr>res_tid = 0, ustack_base = 0x10000\<rparr>
       else if t = 2 then Some \<lparr>res_tid = 1, ustack_base = 0x10000\<rparr> else None),
     exit_code_of = (\<lambda>_. None), process_of = (\<lambda>_. 100), kstack_of = (\<lambda>t. t), trap_cx_of = (\<lambda>_. PhysPageNum 0),
     task_cx_of = (\<lambda>_. zero_init), pcbs = (\<lambda>p. if p = 100 then example_pcb 2 0 else example_pcb 3 SIGINT),
     PID2PCB = [(2, 100), (3, 200)], mem = \<lparr>frames = frame_allocator_new, phys = (\<lambda>_ _. 0)\<rparr>,
     KERNEL_SPACE = \<lparr>ms_table = \<lparr>root_ppn = PhysPageNum 0, pt_frames = []\<rparr>, areas = []\<rparr>,
     pid_ids = PID_ALLOCATOR, kstack_ids = KSTACK_ALLOCATOR, INITPROC = 300\<rparr>"

subsection \<open>Exit of the main thread\<close>

text \<open>What the parts of exit leave alone.\<close>

definition same_sched :: "kernel \<Rightarrow> kernel \<Rightarrow> bool" where
  "same_sched k k' \<longleftrightarrow> policy k' = policy k \<and> sched_of k' = sched_of k \<and> status_of k' = status_of k
     \<and> running k' = running k \<and> process_of k' = process_of k"

lemma modify_pcb_same [simp]:
  "same_sched k (modify_pcb p f k)" "res_of (modify_pcb p f k) = res_of k" "PID2PCB (modify_pcb p f k) = PID2PCB k"
  "INITPROC (modify_pcb p f k) = INITPROC k" "mem (modify_pcb p f k) = mem k"
  by (simp_all add: same_sched_def modify_pcb_def)

lemma same_sched_trans: "same_sched a b \<Longrightarrow> same_sched b c \<Longrightarrow> same_sched a c"
  by (simp add: same_sched_def)

lemma same_sched_mem [simp]: "same_sched k (k\<lparr>mem := m\<rparr>)" "same_sched k (k\<lparr>res_of := r\<rparr>)"
  "same_sched k (k\<lparr>PID2PCB := q\<rparr>)" "same_sched k k"
  by (simp_all add: same_sched_def)

lemma drop_user_res_same:
  assumes "drop_user_res p r k = Some k'"
  shows "same_sched k k' \<and> res_of k' = res_of k \<and> (\<forall>q. pcb_tasks (pcbs k' q) = pcb_tasks (pcbs k q))
    \<and> (\<forall>q. pid (pcbs k' q) = pid (pcbs k q))"
  using assms by (auto simp: drop_user_res_def bind_Some_conv same_sched_def modify_pcb_def)

lemma drop_all_res_same:
  "drop_all_res p rs k = Some k' \<Longrightarrow> same_sched k k' \<and> res_of k' = res_of k"
proof (induction rs arbitrary: k)
  case Nil
  then show ?case by simp
next
  case (Cons r rs)
  then obtain k1 where k1: "drop_user_res p r k = Some k1" "drop_all_res p rs k1 = Some k'"
    by (auto simp: bind_Some_conv)
  with Cons.IH [OF k1(2)] drop_user_res_same [OF k1(1)] show ?case by (auto intro: same_sched_trans)
qed

lemma reparent_same:
  "same_sched k (reparent cs k) \<and> res_of (reparent cs k) = res_of k
    \<and> (\<forall>q. pcb_tasks (pcbs (reparent cs k) q) = pcb_tasks (pcbs k q))"
proof (induction cs arbitrary: k)
  case Nil
  then show ?case by simp
next
  case (Cons c cs)
  let ?k = "modify_pcb (INITPROC k) (\<lambda>b. b\<lparr>children := children b @ [c]\<rparr>)
    (modify_pcb c (\<lambda>b. b\<lparr>parent := Some (INITPROC k)\<rparr>) k)"
  have "same_sched k ?k" "res_of ?k = res_of k" "pcb_tasks (pcbs ?k q) = pcb_tasks (pcbs k q)" for q
    by (auto simp: modify_pcb_def same_sched_def)
  with Cons [of ?k] show ?case by (auto intro: same_sched_trans)
qed

lemma take_res_takes:
  "take_res ts k = (rs, k') \<Longrightarrow> same_sched k k' \<and> pcbs k' = pcbs k \<and> mem k' = mem k
    \<and> (\<forall>u. res_of k' u = (if u \<in> set ts then None else res_of k u))"
proof (induction ts arbitrary: k rs k')
  case Nil
  then show ?case by simp
next
  case (Cons t ts)
  show ?case
  proof (cases "res_of k t")
    case None
    with Cons show ?thesis by auto
  next
    case (Some r)
    define k1 where "k1 = k\<lparr>res_of := (res_of k)(t := None)\<rparr>"
    obtain rs1 k2 where k2: "take_res ts k1 = (rs1, k2)" by fastforce
    with Some Cons.prems have "k' = k2" by (simp add: k1_def)
    with Cons.IH [OF k2] show ?thesis by (auto simp: k1_def same_sched_def)
  qed
qed

lemma exit_process_strands:
  assumes "exit_process p code k = Some k'" and "u \<in> set (live_tasks (pcbs k p))"
  shows "same_sched k k' \<and> res_of k' u = None"
proof -
  from assms(1) obtain k1 where k1: "remove_from_pid2process (pid (pcbs k p)) k = Some k1"
    by (auto simp: exit_process_def bind_Some_conv)
  then have s1: "same_sched k k1" "pcbs k1 = pcbs k" by (auto simp: remove_from_pid2process_def split: if_splits)
  define k2 where "k2 = modify_pcb p (\<lambda>b. b\<lparr>is_zombie := True, pcb_exit_code := code\<rparr>) k1"
  have s2: "same_sched k1 k2" "pcb_tasks (pcbs k2 q) = pcb_tasks (pcbs k1 q)" for q
    by (auto simp: k2_def modify_pcb_def same_sched_def)
  define k3 where "k3 = reparent (children (pcbs k2 p)) k2"
  note s3 = reparent_same [of k2 "children (pcbs k2 p)", folded k3_def]
  obtain rs k4 where k4: "take_res (live_tasks (pcbs k3 p)) k3 = (rs, k4)" by fastforce
  note s4 = take_res_takes [OF k4]
  have "exit_process p code k = do {
      k5 \<leftarrow> drop_all_res p rs k4;
      (ms, m) \<leftarrow> recycle_data_pages (mem k5) (pcb_memory_set (pcbs (modify_pcb p (\<lambda>b. b\<lparr>children := []\<rparr>) k5) p));
      Some (modify_pcb p (\<lambda>b. b\<lparr>pcb_memory_set := ms, fd_table := [], pcb_tasks := take 1 (pcb_tasks b)\<rparr>)
        ((modify_pcb p (\<lambda>b. b\<lparr>children := []\<rparr>) k5)\<lparr>mem := m\<rparr>))
    }"
    by (simp add: exit_process_def k1 Let_def k4 flip: k2_def k3_def)
  with assms(1) obtain k5 ms m where k5: "drop_all_res p rs k4 = Some k5"
    and k': "k' = modify_pcb p (\<lambda>b. b\<lparr>pcb_memory_set := ms, fd_table := [], pcb_tasks := take 1 (pcb_tasks b)\<rparr>)
        ((modify_pcb p (\<lambda>b. b\<lparr>children := []\<rparr>) k5)\<lparr>mem := m\<rparr>)"
    by (auto simp: bind_Some_conv)
  note s5 = drop_all_res_same [OF k5]
  have s6: "same_sched k5 k'" "res_of k' = res_of k5"
    unfolding k' by (simp_all add: same_sched_def modify_pcb_def)
  have "live_tasks (pcbs k3 p) = live_tasks (pcbs k p)" using s1 s2 s3 by (simp add: live_tasks_def)
  with assms(2) s4 s5 s6 have "res_of k' u = None" by simp
  moreover have "same_sched k k'" using s1 s2 s3 s4 s5 s6 by (auto simp: same_sched_def)
  ultimately show ?thesis by simp
qed

text \<open>C26: When the main thread of a process exits while another thread of it is ready, that thread
  stays in the ready queue although its user resources are gone: once it is dispatched, the return
  to user mode panics, as it unwraps the address of a trap context the thread no longer has.\<close>

theorem exit_strands_threads:
  assumes "exit_current_and_run_next code k = Some (Resumed k')"
    and "running k = Some t" and "res_of k t = Some r" and "res_tid r = 0"
    and "u \<in> set (live_tasks (pcbs k (process_of k t)))" and "u \<in># sched_ready (policy k)"
  shows "u \<in># sched_ready (policy k') \<and> res_of k' u = None
    \<and> current_trap_cx_user_va (k'\<lparr>running := Some u\<rparr>) = None"
proof -
  define p where "p = process_of k t"
  define k1 where "k1 = k\<lparr>running := None, exit_code_of := (exit_code_of k)(t \<mapsto> code), res_of := (res_of k)(t := None)\<rparr>"
  from assms(1-4) obtain k2 where k2: "drop_user_res p r k1 = Some k2"
    by (auto simp: exit_current_and_run_next_def take_current_task_def bind_Some_conv Let_def p_def k1_def)
  define k3 where "k3 = k2\<lparr>sched_of := (sched_of k2)(t := on_block (sched_of k2 t))\<rparr>"
  from assms(1-4) k2 have "exit_process p code k3 = Some k'"
    by (auto simp: exit_current_and_run_next_def take_current_task_def bind_Some_conv Let_def p_def k1_def k3_def
        split: if_splits)
  moreover from drop_user_res_same [OF k2] assms(5) have "u \<in> set (live_tasks (pcbs k3 p))" "policy k3 = policy k"
    by (auto simp: k3_def k1_def live_tasks_def p_def same_sched_def)
  ultimately have "same_sched k3 k'" "res_of k' u = None" "policy k3 = policy k"
    using exit_process_strands by blast+
  with assms(6) show ?thesis
    by (simp add: same_sched_def current_trap_cx_user_va_def current_task_def)
qed

lemma drop_user_res_no_areas:
  assumes "areas (pcb_memory_set (pcbs k p)) = []" and "id_dealloc (task_res_allocator (pcbs k p)) (res_tid r) = Some a"
    and "va_aligned (virt_addr_from (ustack_bottom_from_tid (ustack_base r) (res_tid r)))"
    and "va_aligned (virt_addr_from (trap_cx_bottom_from_tid (res_tid r)))"
  shows "drop_user_res p r k = Some (modify_pcb p (\<lambda>b. b\<lparr>task_res_allocator := a\<rparr>) k)"
  using assms by (simp add: drop_user_res_def task_user_res_drop_def dealloc_user_res_def vpn_of_va_def
      va_aligned_def remove_area_with_start_vpn_def modify_pcb_def)

lemma example_exit:
  "\<exists>k'. exit_current_and_run_next 0 example_kernel = Some (Resumed k')"
  by (simp add: exit_current_and_run_next_def take_current_task_def example_kernel_def Let_def
      drop_user_res_no_areas example_pcb_def id_dealloc_def va_aligned_def va_page_offset_def virt_addr_from_def
      ustack_bottom_from_tid_def trap_cx_bottom_from_tid_def TRAP_CONTEXT_BASE_def TRAMPOLINE_def PAGE_SIZE_def
      USER_STACK_SIZE_def VA_WIDTH_SV39_def IDLE_PID_def exit_process_def remove_from_pid2process_def modify_pcb_def
      live_tasks_def List.map_filter_def recycle_data_pages_def)

theorem exit_strands_threads_witness:
  "\<exists>k'. exit_current_and_run_next 0 example_kernel = Some (Resumed k')
    \<and> 2 \<in># sched_ready (policy k') \<and> res_of k' 2 = None
    \<and> current_trap_cx_user_va (k'\<lparr>running := Some 2\<rparr>) = None"
proof -
  from example_exit obtain k' where k': "exit_current_and_run_next 0 example_kernel = Some (Resumed k')" by blast
  from exit_strands_threads [OF k', of 1 "\<lparr>res_tid = 0, ustack_base = 0x10000\<rparr>" 2] k' show ?thesis
    by (simp add: example_kernel_def example_pcb_def live_tasks_def List.map_filter_def)
qed

subsection \<open>SIGCONT resumes what was stopped\<close>

definition resumable :: "kernel \<Rightarrow> task list \<Rightarrow> bool" where
  "resumable k ts \<longleftrightarrow> queue_ok k \<and> distinct ts \<and> (\<forall>t \<in> set ts. t \<noteq> 0 \<and> prio_ok (sched_of k t)
     \<and> (status_of k t = Stopped \<longrightarrow> \<not> in_ready_queue (sched_of k t)))"

lemma resume_tasks_ok:
  assumes "resumable k ts"
  shows "\<exists>k'. resume_tasks now ts k = Some k' \<and> queue_ok k' \<and> pcbs k' = pcbs k
    \<and> status_of k' = (\<lambda>t. if t \<in> set ts \<and> status_of k t = Stopped then Ready else status_of k t)
    \<and> sched_ready (policy k') = sched_ready (policy k) + mset (filter (\<lambda>t. status_of k t = Stopped) ts)"
  using assms
proof (induction ts arbitrary: k)
  case Nil
  then show ?case by (simp add: resumable_def)
next
  case (Cons t ts)
  show ?case
  proof (cases "status_of k t = Stopped")
    case False
    from Cons.prems have "resumable k ts" by (simp add: resumable_def)
    from Cons.IH [OF this] False show ?thesis by (auto simp: fun_eq_iff)
  next
    case True
    define k1 where "k1 = k\<lparr>status_of := (status_of k)(t := Ready)\<rparr>"
    from Cons.prems True have q: "queue_ok k1" "t \<noteq> 0" "prio_ok (sched_of k1 t)" "\<not> in_ready_queue (sched_of k1 t)"
      by (auto simp: resumable_def k1_def)
    obtain pol where add: "add_task now t k1 = Some (k1\<lparr>sched_of := (sched_of k1)(t := snd (on_enqueue now (sched_of k1 t))),
        policy := pol\<rparr>)"
      and pol: "dyn.in_step ((sched_of k1)(t := snd (on_enqueue now (sched_of k1 t)))) pol"
        "sched_ready pol = add_mset t (sched_ready (policy k1))"
      by (rule add_task_ok [OF q(1-3), of now]) (use q(4) in auto)
    define k2 where "k2 = k1\<lparr>sched_of := (sched_of k1)(t := snd (on_enqueue now (sched_of k1 t))), policy := pol\<rparr>"
    have "resumable k2 ts" using Cons.prems pol(1) by (auto simp: resumable_def k2_def k1_def)
    from Cons.IH [OF this] obtain k' where
      k': "resume_tasks now ts k2 = Some k'" "queue_ok k'" "pcbs k' = pcbs k2"
        "status_of k' = (\<lambda>u. if u \<in> set ts \<and> status_of k2 u = Stopped then Ready else status_of k2 u)"
        "sched_ready (policy k') = sched_ready (policy k2) + mset (filter (\<lambda>u. status_of k2 u = Stopped) ts)"
      by blast
    have "t \<notin> set ts" using Cons.prems by (simp add: resumable_def)
    then have f: "filter (\<lambda>u. status_of k2 u = Stopped) ts = filter (\<lambda>u. status_of k u = Stopped) ts"
      by (auto simp: k2_def k1_def intro: filter_cong)
    have st: "status_of k2 = (status_of k)(t := Ready)" "pcbs k2 = pcbs k"
      "sched_ready (policy k2) = add_mset t (sched_ready (policy k))"
      using pol(2) by (simp_all add: k2_def k1_def)
    have "resume_tasks now (t # ts) k = Some k'" using True add k'(1) by (simp add: k2_def flip: k1_def)
    moreover have "status_of k' = (\<lambda>u. if u \<in> set (t # ts) \<and> status_of k u = Stopped then Ready else status_of k u)"
      unfolding k'(4) st using True by (intro ext) auto
    moreover have "sched_ready (policy k') = sched_ready (policy k)
        + mset (filter (\<lambda>u. status_of k u = Stopped) (t # ts))"
      unfolding k'(5) f st(3) using True by simp
    moreover have "pcbs k' = pcbs k" using k'(3) st(2) by simp
    ultimately show ?thesis using k'(2) by blast
  qed
qed

text \<open>SIGCONT sent to a stopped process wakes exactly its stopped threads: each becomes ready
  and is queued once, threads that were blocked or ready stay as they were, and the process is no
  longer stopped. Sent to a process that is not stopped it changes nothing.\<close>

lemma continue_resumes_stopped:
  assumes "resumable k (live_tasks (pcbs k p))"
  shows "\<exists>k'. continue_process now p k = Some k' \<and> \<not> stopped (pcbs k' p)
    \<and> (if stopped (pcbs k p)
       then status_of k' = (\<lambda>t. if t \<in> set (live_tasks (pcbs k p)) \<and> status_of k t = Stopped then Ready else status_of k t)
         \<and> sched_ready (policy k') = sched_ready (policy k)
           + mset (filter (\<lambda>t. status_of k t = Stopped) (live_tasks (pcbs k p)))
       else k' = k)"
proof (cases "stopped (pcbs k p)")
  case False
  then show ?thesis by (simp add: continue_process_def)
next
  case True
  define k1 where "k1 = modify_pcb p (\<lambda>b. b\<lparr>stopped := False, signals := flags_remove (signals b) SIGCONT\<rparr>) k"
  have same: "live_tasks (pcbs k1 p) = live_tasks (pcbs k p)" "status_of k1 = status_of k" "policy k1 = policy k"
    "sched_of k1 = sched_of k" "\<not> stopped (pcbs k1 p)"
    by (simp_all add: k1_def modify_pcb_def live_tasks_def)
  from assms have "resumable k1 (live_tasks (pcbs k1 p))" by (simp add: resumable_def same)
  from resume_tasks_ok [OF this, of now] True show ?thesis
    by (auto simp: continue_process_def Let_def same simp flip: k1_def cong: if_cong)
qed

end
