(* ===== verification/Tty.thy ===== *)
theory Tty
  imports Jobs
begin

unbundle bit_operations_syntax

section \<open>The terminal\<close>

text \<open>
  os/src/tty/mod.rs and the terminal calls of os/src/syscall/process.rs. The bytes the discipline
  echoes to the serial line are a result of the operations that send them; the bytes waiting in
  the serial driver are the argument of the interrupt handler, which reads them all. A read that
  finds nothing queues the caller and blocks it; woken, it starts over.
\<close>

definition TTY_ECHO :: usize where "TTY_ECHO = 1"
definition TTY_ICANON :: usize where "TTY_ICANON = 2"
definition TTY_ISIG :: usize where "TTY_ISIG = 4"

definition CTRL_C :: u8 where "CTRL_C = 0x03"
definition CTRL_D :: u8 where "CTRL_D = 0x04"
definition CTRL_Z :: u8 where "CTRL_Z = 0x1a"
definition LF :: u8 where "LF = 0x0a"
definition CR :: u8 where "CR = 0x0d"
definition BS :: u8 where "BS = 0x08"
definition DEL :: u8 where "DEL = 0x7f"

record tty_inner =
  tty_flags :: usize
  line :: "u8 list"
  lines :: "u8 list list"
  raw_buf :: "u8 list"
  eof :: bool
  fg_pgrp :: usize

definition tty_inner_new :: tty_inner where
  "tty_inner_new = \<lparr>tty_flags = TTY_ECHO OR TTY_ICANON OR TTY_ISIG, line = [], lines = [], raw_buf = [],
     eof = False, fg_pgrp = 0\<rparr>"

definition has_flag :: "tty_inner \<Rightarrow> usize \<Rightarrow> bool" where
  "has_flag i f \<longleftrightarrow> tty_flags i AND f \<noteq> 0"

definition push_byte :: "u8 \<Rightarrow> tty_inner \<Rightarrow> u32 option \<times> tty_inner \<times> u8 list" where
  "push_byte ch i =
     (if has_flag i TTY_ISIG \<and> ch = CTRL_C then (Some SIGINT, i\<lparr>line := []\<rparr>, [0x5e, 0x43, CR, LF])
      else if has_flag i TTY_ISIG \<and> ch = CTRL_Z then (Some SIGTSTP, i\<lparr>line := []\<rparr>, [0x5e, 0x5a, CR, LF])
      else if has_flag i TTY_ICANON then
        if ch = CR \<or> ch = LF then
          (None, i\<lparr>lines := lines i @ [line i], line := []\<rparr>, if has_flag i TTY_ECHO then [LF] else [])
        else if ch = BS \<or> ch = DEL then
          (None, i\<lparr>line := butlast (line i)\<rparr>,
            if line i \<noteq> [] \<and> has_flag i TTY_ECHO then [BS, 0x20, BS] else [])
        else if ch = CTRL_D then
          if line i = [] then (None, i\<lparr>eof := True\<rparr>, [])
          else (None, i\<lparr>lines := lines i @ [line i], line := []\<rparr>, [])
        else if 0x20 \<le> ch then
          (None, i\<lparr>line := line i @ [ch]\<rparr>, if has_flag i TTY_ECHO then [ch] else [])
        else (None, i, [])
      else (None, i\<lparr>raw_buf := raw_buf i @ [ch]\<rparr>, []))"

definition has_data :: "tty_inner \<Rightarrow> bool" where
  "has_data i \<longleftrightarrow> lines i \<noteq> [] \<or> raw_buf i \<noteq> [] \<or> eof i"

record tty =
  inner :: tty_inner
  tty_condvar :: condvar

definition tty_new :: tty where
  "tty_new = \<lparr>inner = tty_inner_new, tty_condvar = condvar_new\<rparr>"

datatype 'a tty_turn = Got "u8 list" 'a | Waits 'a

text \<open>The part of a turn that finds data: the bytes go to the start of the caller's buffer.\<close>

definition take_data :: "usize \<Rightarrow> nat \<Rightarrow> tty_inner \<Rightarrow> (u8 list \<times> tty_inner) option" where
  "take_data pgrp want i =
     (if fg_pgrp i \<noteq> 0 \<and> pgrp \<noteq> fg_pgrp i then Some ([], i)
      else if has_flag i TTY_ICANON then
        case lines i of
          l # ls \<Rightarrow>
            let n = min (length l) want in
            Some (take n l, if n < length l then i\<lparr>lines := drop n l # ls\<rparr> else i\<lparr>lines := ls\<rparr>)
        | [] \<Rightarrow> if eof i then Some ([], i\<lparr>eof := False\<rparr>) else None
      else
        let n = min (length (raw_buf i)) want in
        if 0 < n then Some (take n (raw_buf i), i\<lparr>raw_buf := drop n (raw_buf i)\<rparr>) else None)"

definition tty_read :: "nat \<Rightarrow> tty \<Rightarrow> kernel \<Rightarrow> (tty \<times> kernel) tty_turn outcome" where
  "tty_read want tty k =
     (if want = 0 then Some (Got [] (tty, k))
      else do {
        pgrp \<leftarrow> (if fg_pgrp (inner tty) \<noteq> 0 then current_pgrp k else Some 0);
        case take_data pgrp want (inner tty) of
          Some (bytes, i) \<Rightarrow> Some (Got bytes (tty\<lparr>inner := i\<rparr>, k))
        | None \<Rightarrow> do {
            (c, k) \<leftarrow> condvar_wait_no_sched (tty_condvar tty) k;
            Some (Waits (tty\<lparr>tty_condvar := c\<rparr>, k))
          }
      })"

definition tty_set_flags :: "usize \<Rightarrow> tty \<Rightarrow> tty" where
  "tty_set_flags f tty = tty\<lparr>inner := (inner tty)\<lparr>tty_flags := f\<rparr>\<rparr>"

definition tty_set_fg_pgrp :: "usize \<Rightarrow> tty \<Rightarrow> tty" where
  "tty_set_fg_pgrp pgrp tty = tty\<lparr>inner := (inner tty)\<lparr>fg_pgrp := pgrp\<rparr>\<rparr>"

definition signal_fg :: "u32 \<Rightarrow> tty \<Rightarrow> kernel \<Rightarrow> kernel outcome" where
  "signal_fg sig tty k =
     (if fg_pgrp (inner tty) = 0 then current_add_signal sig k
      else Some (signal_process_group (fg_pgrp (inner tty)) sig k))"

fun push_bytes :: "u8 list \<Rightarrow> u32 option \<Rightarrow> tty_inner \<Rightarrow> u32 option \<times> tty_inner \<times> u8 list" where
  "push_bytes [] sig i = (sig, i, [])"
| "push_bytes (ch # chs) sig i = (
     let (s, i1, out1) = push_byte ch i;
         (sig', i2, out2) = push_bytes chs (if s = None then sig else s) i1
     in (sig', i2, out1 @ out2))"

definition handle_uart_irq :: "usize \<Rightarrow> u8 list \<Rightarrow> tty \<Rightarrow> kernel \<Rightarrow> (u8 list \<times> tty \<times> kernel) outcome" where
  "handle_uart_irq now input tty k = (
     let (sig, i, out) = push_bytes input None (inner tty);
         tty = tty\<lparr>inner := i\<rparr>
     in do {
       (tty, k) \<leftarrow> (if has_data i then do {
           (c, k) \<leftarrow> condvar_signal now (tty_condvar tty) k;
           Some (tty\<lparr>tty_condvar := c\<rparr>, k)
         } else Some (tty, k));
       k \<leftarrow> (case sig of None \<Rightarrow> Some k | Some s \<Rightarrow> signal_fg s tty k);
       Some (out, tty, k)
     })"

definition sys_tcsetpgrp :: "usize \<Rightarrow> tty \<Rightarrow> kernel \<Rightarrow> isize \<times> tty" where
  "sys_tcsetpgrp pgrp tty k =
     (if pgrp = 0 \<or> pid2process k pgrp = None then (- 1, tty) else (0, tty_set_fg_pgrp pgrp tty))"

definition sys_tcgetpgrp :: "tty \<Rightarrow> isize" where
  "sys_tcgetpgrp tty = fg_pgrp (inner tty)"

subsection \<open>A typed line is what the reader gets\<close>

definition editable :: "u8 \<Rightarrow> bool" where
  "editable ch \<longleftrightarrow> 0x20 \<le> ch \<or> ch = BS"

text \<open>The line the typist sees: erasing takes back the last character.\<close>

fun edited :: "u8 list \<Rightarrow> u8 list \<Rightarrow> u8 list" where
  "edited acc [] = acc"
| "edited acc (ch # chs) = edited (if ch = BS \<or> ch = DEL then butlast acc else acc @ [ch]) chs"

lemmas keys = CTRL_C_def CTRL_D_def CTRL_Z_def LF_def CR_def BS_def DEL_def

lemma push_byte_editable:
  assumes "has_flag i TTY_ICANON" and "editable ch"
  shows "\<exists>out. push_byte ch i
    = (None, i\<lparr>line := if ch = BS \<or> ch = DEL then butlast (line i) else line i @ [ch]\<rparr>, out)"
proof -
  have "ch \<noteq> CTRL_C" "ch \<noteq> CTRL_Z" "ch \<noteq> CTRL_D" "ch \<noteq> CR" "ch \<noteq> LF"
    using assms(2) by (auto simp: editable_def keys word_le_nat_alt)
  with assms show ?thesis by (auto simp: push_byte_def editable_def)
qed

lemma push_bytes_append:
  "push_bytes (xs @ ys) sig i = (
     let (s, j, out1) = push_bytes xs sig i; (s', j', out2) = push_bytes ys s j in (s', j', out1 @ out2))"
  by (induction xs arbitrary: sig i) (auto simp: Let_def split: prod.splits)

lemma push_bytes_editable:
  assumes "has_flag i TTY_ICANON" and "list_all editable chs"
  shows "\<exists>out. push_bytes chs sig i = (sig, i\<lparr>line := edited (line i) chs\<rparr>, out)"
  using assms
proof (induction chs arbitrary: i)
  case Nil
  then show ?case by simp
next
  case (Cons ch chs)
  define i1 where "i1 = i\<lparr>line := if ch = BS \<or> ch = DEL then butlast (line i) else line i @ [ch]\<rparr>"
  from push_byte_editable [of i ch] Cons.prems obtain out1 where b: "push_byte ch i = (None, i1, out1)"
    by (auto simp: i1_def)
  have "has_flag i1 TTY_ICANON" using Cons.prems(1) by (simp add: i1_def has_flag_def)
  with Cons.IH [of i1] Cons.prems(2) obtain out2 where
    "push_bytes chs sig i1 = (sig, i1\<lparr>line := edited (line i1) chs\<rparr>, out2)" by auto
  with b show ?case by (simp add: i1_def)
qed

text \<open>The interrupt handler called for one batch of bytes after another.\<close>

fun irqs :: "u8 list list \<Rightarrow> tty_inner \<Rightarrow> tty_inner" where
  "irqs [] i = i"
| "irqs (b # bs) i = irqs bs (fst (snd (push_bytes b None i)))"

lemma push_bytes_sig: "snd (push_bytes xs sig i) = snd (push_bytes xs sig' i)"
proof (induction xs arbitrary: sig sig' i)
  case Nil
  then show ?case by simp
next
  case (Cons ch xs)
  from Cons [of sig "fst (snd (push_byte ch i))" sig'] show ?case
    by (simp add: Let_def split_beta)
qed

lemma irqs_concat: "irqs bs i = fst (snd (push_bytes (concat bs) sig i))"
proof (induction bs arbitrary: i sig)
  case Nil
  then show ?case by simp
next
  case (Cons b bs)
  obtain s j out where b: "push_bytes b sig i = (s, j, out)" by (metis prod_cases3)
  then have "fst (snd (push_bytes b None i)) = j" using push_bytes_sig [of b None i sig] by simp
  with b Cons [of j s] show ?case by (simp add: push_bytes_append Let_def split_beta)
qed

lemma irqs_line:
  assumes "has_flag i TTY_ICANON" and "list_all editable chs" and "concat bs = chs @ [CR]"
  shows "irqs bs i = i\<lparr>line := [], lines := lines i @ [edited (line i) chs]\<rparr>"
proof -
  from push_bytes_editable [OF assms(1,2), of None] obtain out where
    "push_bytes chs None i = (None, i\<lparr>line := edited (line i) chs\<rparr>, out)" by blast
  moreover have "has_flag (i\<lparr>line := edited (line i) chs\<rparr>) TTY_ICANON" using assms(1) by (simp add: has_flag_def)
  ultimately show ?thesis
    using irqs_concat [of bs i None] assms(3) by (simp add: push_bytes_append push_byte_def keys)
qed

text \<open>Reads of the given sizes, until the first line is used up.\<close>

fun reads :: "usize \<Rightarrow> nat list \<Rightarrow> tty_inner \<Rightarrow> (u8 list \<times> tty_inner) option" where
  "reads pgrp [] i = Some ([], i)"
| "reads pgrp (want # wants) i = do {
     (bytes, i1) \<leftarrow> take_data pgrp want i;
     if length (lines i1) < length (lines i) then Some (bytes, i1)
     else do {
       (rest, i2) \<leftarrow> reads pgrp wants i1;
       Some (bytes @ rest, i2)
     }
   }"

lemma reads_line:
  assumes "has_flag i TTY_ICANON" and "fg_pgrp i = 0 \<or> pgrp = fg_pgrp i" and "lines i = l # ls"
    and "length l \<le> sum_list wants" and "list_all (\<lambda>w. 0 < w) wants" and "wants \<noteq> []"
  shows "reads pgrp wants i = Some (l, i\<lparr>lines := ls\<rparr>)"
  using assms
proof (induction wants arbitrary: i l)
  case Nil
  then show ?case by simp
next
  case (Cons want wants)
  show ?case
  proof (cases "length l \<le> want")
    case True
    with Cons.prems show ?thesis by (auto simp: take_data_def Let_def min_def)
  next
    case False
    define i1 where "i1 = i\<lparr>lines := drop want l # ls\<rparr>"
    have "take_data pgrp want i = Some (take want l, i1)"
      using Cons.prems False by (auto simp: take_data_def Let_def min_def i1_def)
    moreover have "reads pgrp wants i1 = Some (drop want l, i1\<lparr>lines := ls\<rparr>)"
      using Cons.prems False by (intro Cons.IH) (auto simp: i1_def has_flag_def)
    ultimately show ?thesis using Cons.prems(3) by (simp add: i1_def)
  qed
qed

text \<open>C27: In canonical mode a line typed at the terminal, with characters erased on the way, is
  exactly what the foreground reader gets: however the serial interrupt cuts the input into batches
  and however small the reader's buffers are, the reads return the edited line, without the erased
  characters and the final return, and nothing of it is left.\<close>

theorem typed_line_is_read:
  assumes "has_flag i TTY_ICANON" and "fg_pgrp i = 0 \<or> pgrp = fg_pgrp i" and "lines i = []"
    and "list_all editable chs" and "concat batches = chs @ [CR]"
    and "list_all (\<lambda>w. 0 < w) wants" and "wants \<noteq> []" and "length (edited (line i) chs) \<le> sum_list wants"
  shows "reads pgrp wants (irqs batches i) = Some (edited (line i) chs, i\<lparr>line := []\<rparr>)"
proof -
  let ?i = "i\<lparr>line := [], lines := [edited (line i) chs]\<rparr>"
  have "reads pgrp wants ?i = Some (edited (line i) chs, ?i\<lparr>lines := []\<rparr>)"
    using assms by (intro reads_line) (auto simp: has_flag_def)
  with irqs_line [OF assms(1,4,5)] assms(3) show ?thesis by simp
qed

theorem typed_line_is_read_witness:
  "reads 0 [2, 2] (irqs [[0x6c, 0x78], [BS, 0x73], [CR]] tty_inner_new) = Some ([0x6c, 0x73], tty_inner_new)"
  using typed_line_is_read [of tty_inner_new 0 "[0x6c, 0x78, BS, 0x73]" "[[0x6c, 0x78], [BS, 0x73], [CR]]" "[2, 2]"]
  by (simp add: tty_inner_new_def has_flag_def TTY_ICANON_def TTY_ECHO_def TTY_ISIG_def editable_def keys)

end
