(* ===== verification/Utf8.thy ===== *)
theory Utf8
  imports Prelude
begin

unbundle bit_operations_syntax

section \<open>UTF-8\<close>

text \<open>
  What the kernel and the shell use of Rust's strings: \<^verbatim>\<open>from_utf8\<close> accepts exactly the well-formed
  sequences of the Unicode standard, \<^verbatim>\<open>from_utf8_lossy\<close> replaces every maximal ill-formed prefix by the
  replacement character, and \<^verbatim>\<open>chars\<close> decodes a well-formed string into scalar values.
\<close>

definition cont_byte :: "u8 \<Rightarrow> bool" where
  "cont_byte b \<longleftrightarrow> 0x80 \<le> b \<and> b \<le> 0xBF"

text \<open>The number of bytes that a first byte announces, and the second bytes it allows.\<close>

definition utf8_width :: "u8 \<Rightarrow> nat" where
  "utf8_width a =
     (if a < 0x80 then 1
      else if 0xC2 \<le> a \<and> a \<le> 0xDF then 2
      else if 0xE0 \<le> a \<and> a \<le> 0xEF then 3
      else if 0xF0 \<le> a \<and> a \<le> 0xF4 then 4
      else 0)"

definition second_ok :: "u8 \<Rightarrow> u8 \<Rightarrow> bool" where
  "second_ok a b =
     (if a = 0xE0 then 0xA0 \<le> b \<and> b \<le> 0xBF
      else if a = 0xED then 0x80 \<le> b \<and> b \<le> 0x9F
      else if a = 0xF0 then 0x90 \<le> b \<and> b \<le> 0xBF
      else if a = 0xF4 then 0x80 \<le> b \<and> b \<le> 0x8F
      else cont_byte b)"

fun utf8_ok :: "u8 list \<Rightarrow> bool" where
  "utf8_ok [] = True"
| "utf8_ok (a # bs) =
     (if utf8_width a = 1 then utf8_ok bs
      else if utf8_width a = 2 then (case bs of b # bs' \<Rightarrow> second_ok a b \<and> utf8_ok bs' | _ \<Rightarrow> False)
      else if utf8_width a = 3 then (case bs of b # c # bs' \<Rightarrow> second_ok a b \<and> cont_byte c \<and> utf8_ok bs' | _ \<Rightarrow> False)
      else if utf8_width a = 4 then
        (case bs of b # c # e # bs' \<Rightarrow> second_ok a b \<and> cont_byte c \<and> cont_byte e \<and> utf8_ok bs' | _ \<Rightarrow> False)
      else False)"

definition REPLACEMENT :: "u8 list" where
  "REPLACEMENT = [0xEF, 0xBF, 0xBD]"

fun from_utf8_lossy :: "u8 list \<Rightarrow> u8 list" where
  "from_utf8_lossy [] = []"
| "from_utf8_lossy (a # bs) =
     (if utf8_width a = 1 then a # from_utf8_lossy bs
      else if utf8_width a = 0 then REPLACEMENT @ from_utf8_lossy bs
      else (case bs of
         [] \<Rightarrow> REPLACEMENT
       | b # bs' \<Rightarrow>
           if \<not> second_ok a b then REPLACEMENT @ from_utf8_lossy bs
           else if utf8_width a = 2 then a # b # from_utf8_lossy bs'
           else (case bs' of
              [] \<Rightarrow> REPLACEMENT
            | c # bs'' \<Rightarrow>
                if \<not> cont_byte c then REPLACEMENT @ from_utf8_lossy bs'
                else if utf8_width a = 3 then a # b # c # from_utf8_lossy bs''
                else (case bs'' of
                   [] \<Rightarrow> REPLACEMENT
                 | e # bs''' \<Rightarrow>
                     if \<not> cont_byte e then REPLACEMENT @ from_utf8_lossy bs''
                     else a # b # c # e # from_utf8_lossy bs'''))))"

text \<open>The payload of a continuation byte is its low six bits.\<close>

fun utf8_chars :: "u8 list \<Rightarrow> nat list" where
  "utf8_chars [] = []"
| "utf8_chars (a # bs) =
     (if utf8_width a = 2 then (case bs of b # bs' \<Rightarrow> (unat (a AND 0x1F) * 64 + unat (b AND 0x3F)) # utf8_chars bs' | _ \<Rightarrow> [])
      else if utf8_width a = 3 then
        (case bs of b # c # bs' \<Rightarrow> (unat (a AND 0x0F) * 4096 + unat (b AND 0x3F) * 64 + unat (c AND 0x3F)) # utf8_chars bs' | _ \<Rightarrow> [])
      else if utf8_width a = 4 then
        (case bs of b # c # e # bs' \<Rightarrow>
           (unat (a AND 0x07) * 262144 + unat (b AND 0x3F) * 4096 + unat (c AND 0x3F) * 64 + unat (e AND 0x3F)) # utf8_chars bs' | _ \<Rightarrow> [])
      else unat a # utf8_chars bs)"

text \<open>What os/src/fs/stdio.rs \<^verbatim>\<open>Stdout::write\<close> does with the slices of a buffer: each is unwrapped as a string by itself.\<close>

fun print_slices :: "u8 list list \<Rightarrow> u8 list outcome" where
  "print_slices [] = Some []"
| "print_slices (b # bs) = do { _ \<leftarrow> ensure (utf8_ok b); rest \<leftarrow> print_slices bs; Some (b @ rest) }"

subsection \<open>Lossy decoding\<close>

lemma utf8_ok_REPLACEMENT: "utf8_ok (REPLACEMENT @ bs) = utf8_ok bs"
  by (simp add: REPLACEMENT_def utf8_width_def second_ok_def cont_byte_def)

lemma utf8_width_cases: "utf8_width a = 0 \<or> utf8_width a = 1 \<or> utf8_width a = 2 \<or> utf8_width a = 3 \<or> utf8_width a = 4"
  by (simp add: utf8_width_def)

text \<open>One step of the decoder: a well-formed character is kept, anything else is replaced.\<close>

lemma from_utf8_lossy_step:
  "\<exists>xs cs. from_utf8_lossy (a # bs) = xs @ from_utf8_lossy cs \<and> length cs \<le> length bs
     \<and> (xs = REPLACEMENT \<or> length xs = utf8_width a \<and> a # bs = xs @ cs) \<and> (\<forall>ys. utf8_ok (xs @ ys) = utf8_ok ys)"
proof -
  have R: "\<exists>xs cs. f = xs @ from_utf8_lossy cs \<and> length cs \<le> length bs
      \<and> (xs = REPLACEMENT \<or> length xs = utf8_width a \<and> a # bs = xs @ cs) \<and> (\<forall>ys. utf8_ok (xs @ ys) = utf8_ok ys)"
    if "f = REPLACEMENT @ from_utf8_lossy cs" "length cs \<le> length bs" for f cs
    using that utf8_ok_REPLACEMENT by blast
  have K: "\<exists>xs cs. f = xs @ from_utf8_lossy cs \<and> length cs \<le> length bs
      \<and> (xs = REPLACEMENT \<or> length xs = utf8_width a \<and> a # bs = xs @ cs) \<and> (\<forall>ys. utf8_ok (xs @ ys) = utf8_ok ys)"
    if "f = xs @ from_utf8_lossy cs" "a # bs = xs @ cs" "length xs = utf8_width a" "\<And>ys. utf8_ok (xs @ ys) = utf8_ok ys" "0 < utf8_width a" for f xs cs
  proof -
    have "Suc (length bs) = length xs + length cs" using arg_cong [OF that(2), of length] by simp
    then have "length cs \<le> length bs" using that(3,5) by linarith
    with that show ?thesis by blast
  qed
  consider "utf8_width a = 0" | "utf8_width a = 1" | "utf8_width a = 2" | "utf8_width a = 3" | "utf8_width a = 4"
    using utf8_width_cases [of a] by (elim disjE)
  then show ?thesis
  proof cases
    case 1
    then show ?thesis by (intro R [of _ bs]) simp_all
  next
    case 2
    then show ?thesis by (intro K [of _ "[a]" bs]) simp_all
  next
    case 3
    show ?thesis
    proof (cases bs)
      case Nil
      with 3 show ?thesis by (intro R [of _ "[]"]) simp_all
    next
      case (Cons b bs')
      with 3 show ?thesis by (cases "second_ok a b") (intro K [of _ "[a, b]" bs'] R [of _ bs]; simp)+
    qed
  next
    case 4
    consider "bs = []" | b where "bs = [b]" | b c bs' where "bs = b # c # bs'" by (metis list.exhaust)
    then show ?thesis
    proof cases
      case 1
      with 4 show ?thesis by (intro R [of _ "[]"]) simp_all
    next
      case (2 b)
      with 4 show ?thesis by (intro R [of _ "if second_ok a b then [] else [b]"]) simp_all
    next
      case (3 b c bs')
      with 4 show ?thesis
        by (cases "second_ok a b \<and> cont_byte c")
          (intro K [of _ "[a, b, c]" bs'] R [of _ "if second_ok a b then c # bs' else bs"]; simp)+
    qed
  next
    case 5
    consider "bs = []" | b where "bs = [b]" | b c where "bs = [b, c]" | b c e bs' where "bs = b # c # e # bs'" by (metis list.exhaust)
    then show ?thesis
    proof cases
      case 1
      with 5 show ?thesis by (intro R [of _ "[]"]) simp_all
    next
      case (2 b)
      with 5 show ?thesis by (intro R [of _ "if second_ok a b then [] else [b]"]) simp_all
    next
      case (3 b c)
      with 5 show ?thesis by (intro R [of _ "if \<not> second_ok a b then [b, c] else if cont_byte c then [] else [c]"]) simp_all
    next
      case (4 b c e bs')
      with 5 show ?thesis
        by (cases "second_ok a b \<and> cont_byte c \<and> cont_byte e")
          (intro K [of _ "[a, b, c, e]" bs'] R [of _ "if \<not> second_ok a b then bs else if cont_byte c then e # bs' else c # e # bs'"]; simp)+
    qed
  qed
qed

lemma from_utf8_lossy_ok: "utf8_ok (from_utf8_lossy bs)"
proof (induction "length bs" arbitrary: bs rule: less_induct)
  case less
  show ?case
  proof (cases bs)
    case (Cons a bs')
    from from_utf8_lossy_step [of a bs'] obtain xs cs where
      "from_utf8_lossy bs = xs @ from_utf8_lossy cs" "length cs \<le> length bs'" "\<And>ys. utf8_ok (xs @ ys) = utf8_ok ys"
      unfolding Cons by blast
    then show ?thesis using less [of cs] Cons by simp
  qed simp
qed

end
