(* ===== verification/Net.thy ===== *)
theory Net
  imports Process
begin

section \<open>Sockets and listening ports\<close>

text \<open>
  os/src/net/socket.rs and the table of os/src/net/port_table.rs. A socket is an entry of a slot
  table with the queue of the data received for one remote address and pair of ports; files hold its
  index. A listening port is an entry of a second table with the thread that accepts on it.

  Parsing and building frames is the job of the package \<^verbatim>\<open>lose_net_stack\<close>, which is not part of the
  repository. Its functions are the fields of \<open>net_crate\<close>, an argument of every definition that
  calls them; addresses and the flag bits of TCP are values it provides. None is a panic inside it. The
  driver of the network device comes from the package \<^verbatim>\<open>virtio_drivers\<close>: \<open>send_ok cr n data\<close> tells
  whether it takes \<open>data\<close> as the frame sent after \<open>n\<close> others.
\<close>

type_synonym bytes = "u8 list"
type_synonym ipv4 = u32
type_synonym mac = "u8 list"

subsection \<open>Frames\<close>

record udp_packet =
  udp_source_ip :: ipv4
  udp_source_port :: u16
  udp_dest_port :: u16
  udp_data :: bytes

record tcp_packet =
  source_ip :: ipv4
  source_mac :: mac
  source_port :: u16
  dest_ip :: ipv4
  dest_mac :: mac
  dest_port :: u16
  data_len :: nat
  tcp_seq :: u32
  tcp_ack :: u32
  tcp_flags :: u8
  win :: u16
  urg :: u16
  tcp_data :: bytes

datatype packet = ARP bytes | UDP udp_packet | TCP tcp_packet | OtherPacket

record net_crate =
  ipv4_new :: "u8 \<Rightarrow> u8 \<Rightarrow> u8 \<Rightarrow> u8 \<Rightarrow> ipv4"
  ipv4_from_u32 :: "u32 \<Rightarrow> ipv4"
  analysis :: "bytes \<Rightarrow> packet option"
  arp_reply :: "bytes \<Rightarrow> ipv4 \<Rightarrow> mac \<Rightarrow> bytes option"
  ack_packet :: "tcp_packet \<Rightarrow> tcp_packet"
  tcp_build_data :: "tcp_packet \<Rightarrow> bytes"
  udp_build_data :: "ipv4 \<Rightarrow> mac \<Rightarrow> u16 \<Rightarrow> ipv4 \<Rightarrow> mac \<Rightarrow> u16 \<Rightarrow> nat \<Rightarrow> bytes \<Rightarrow> bytes"
  FLAG_S :: u8
  FLAG_F :: u8
  FLAG_A :: u8
  send_ok :: "nat \<Rightarrow> bytes \<Rightarrow> bool"

text \<open>The address of the machine.\<close>

definition stack_ip :: "net_crate \<Rightarrow> ipv4" where
  "stack_ip cr = ipv4_new cr 10 0 2 15"

definition stack_mac :: mac where
  "stack_mac = [0x52, 0x54, 0x00, 0x12, 0x34, 0x56]"

subsection \<open>The socket table\<close>

record socket =
  raddr :: ipv4
  lport :: u16
  rport :: u16
  buffers :: "bytes list"
  sock_seq :: u32
  sock_ack :: u32

type_synonym socket_table = "socket option list"

definition get_s_a_by_index :: "nat \<Rightarrow> socket_table \<Rightarrow> (u32 \<times> u32) option outcome" where
  "get_s_a_by_index index tbl = do {
     x \<leftarrow> idx tbl index;
     Some (case x of Some x \<Rightarrow> Some (sock_seq x, sock_ack x) | None \<Rightarrow> None)
   }"

definition set_s_a_by_index :: "nat \<Rightarrow> u32 \<Rightarrow> u32 \<Rightarrow> socket_table \<Rightarrow> socket_table outcome" where
  "set_s_a_by_index index sq ak tbl = do {
     x \<leftarrow> idx tbl index;
     sock \<leftarrow> x;
     upd tbl index (Some (sock\<lparr>sock_ack := ak, sock_seq := sq\<rparr>))
   }"

definition sock_matches :: "ipv4 \<times> u16 \<times> u16 \<Rightarrow> socket option \<Rightarrow> bool" where
  "sock_matches ep x = (case x of
     None \<Rightarrow> False
   | Some sock \<Rightarrow> (raddr sock, lport sock, rport sock) = ep)"

definition get_socket :: "ipv4 \<Rightarrow> u16 \<Rightarrow> u16 \<Rightarrow> socket_table \<Rightarrow> nat option" where
  "get_socket ra lp rp tbl = position (sock_matches (ra, lp, rp)) tbl"

definition add_socket :: "ipv4 \<Rightarrow> u16 \<Rightarrow> u16 \<Rightarrow> socket_table \<Rightarrow> nat option \<times> socket_table" where
  "add_socket ra lp rp tbl =
     (if get_socket ra lp rp tbl \<noteq> None then (None, tbl)
      else let (index, tbl) = put_slot tbl \<lparr>raddr = ra, lport = lp, rport = rp, buffers = [], sock_seq = 0, sock_ack = 0\<rparr>
        in (Some index, tbl))"

definition remove_socket :: "nat \<Rightarrow> socket_table \<Rightarrow> socket_table outcome" where
  "remove_socket index tbl = upd tbl index None"

definition push_data :: "nat \<Rightarrow> bytes \<Rightarrow> socket_table \<Rightarrow> socket_table outcome" where
  "push_data index data tbl = do {
     x \<leftarrow> idx tbl index;
     sock \<leftarrow> x;
     upd tbl index (Some (sock\<lparr>buffers := buffers sock @ [data]\<rparr>))
   }"

definition pop_data :: "nat \<Rightarrow> socket_table \<Rightarrow> (bytes option \<times> socket_table) outcome" where
  "pop_data index tbl = do {
     x \<leftarrow> idx tbl index;
     sock \<leftarrow> x;
     case buffers sock of
       [] \<Rightarrow> Some (None, tbl)
     | data # rest \<Rightarrow> do { tbl \<leftarrow> upd tbl index (Some (sock\<lparr>buffers := rest\<rparr>)); Some (Some data, tbl) }
   }"

subsection \<open>Listening ports\<close>

record port =
  port_no :: u16
  receivable :: bool
  port_schedule :: "task option"

type_synonym listen_table = "port option list"

definition listen :: "u16 \<Rightarrow> listen_table \<Rightarrow> nat option \<times> listen_table" where
  "listen p tbl = (
     let (index, tbl) = put_slot tbl \<lparr>port_no = p, receivable = False, port_schedule = None\<rparr>
     in (Some index, tbl))"

definition accept :: "nat \<Rightarrow> task \<Rightarrow> listen_table \<Rightarrow> listen_table outcome" where
  "accept listen_index t tbl = do {
     x \<leftarrow> idx tbl listen_index;
     listen_port \<leftarrow> x;
     upd tbl listen_index (Some (listen_port\<lparr>receivable := True, port_schedule := Some t\<rparr>))
   }"

definition port_acceptable :: "nat \<Rightarrow> listen_table \<Rightarrow> bool outcome" where
  "port_acceptable listen_index tbl = do {
     x \<leftarrow> idx tbl listen_index;
     Some (case x of None \<Rightarrow> False | Some p \<Rightarrow> receivable p)
   }"

definition port_fd_drop :: "nat \<Rightarrow> listen_table \<Rightarrow> listen_table outcome" where
  "port_fd_drop index tbl = upd tbl index None"

text \<open>The first port of \<^verbatim>\<open>check_accept\<close>'s filter, and its update.\<close>

definition accepting :: "u16 \<Rightarrow> port option \<Rightarrow> bool" where
  "accepting p x = (case x of Some t \<Rightarrow> port_no t = p \<and> receivable t | None \<Rightarrow> False)"

definition take_accepting :: "u16 \<Rightarrow> listen_table \<Rightarrow> (task option \<times> listen_table) outcome" where
  "take_accepting p tbl = (case position (accepting p) tbl of
     None \<Rightarrow> Some (None, tbl)
   | Some i \<Rightarrow> do {
       x \<leftarrow> idx tbl i;
       listen_port \<leftarrow> x;
       t \<leftarrow> port_schedule listen_port;
       tbl \<leftarrow> upd tbl i (Some (listen_port\<lparr>port_schedule := None, receivable := False\<rparr>));
       Some (Some t, tbl)
     })"

record udp_file =
  udp_target :: ipv4
  udp_sport :: u16
  udp_dport :: u16
  udp_index :: nat

definition udp_new :: "ipv4 \<Rightarrow> u16 \<Rightarrow> u16 \<Rightarrow> socket_table \<Rightarrow> (udp_file \<times> socket_table) outcome" where
  "udp_new target sport dport tbl = (let (r, tbl) = add_socket target sport dport tbl in do {
     index \<leftarrow> r;
     Some (\<lparr>udp_target = target, udp_sport = sport, udp_dport = dport, udp_index = index\<rparr>, tbl)
   })"

record tcp_file =
  tcp_target :: ipv4
  tcp_sport :: u16
  tcp_dport :: u16
  file_seq :: u32
  file_ack :: u32
  tcp_index :: nat

definition tcp_new :: "ipv4 \<Rightarrow> u16 \<Rightarrow> u16 \<Rightarrow> u32 \<Rightarrow> u32 \<Rightarrow> socket_table \<Rightarrow> (tcp_file \<times> socket_table) outcome" where
  "tcp_new target sport dport sq ak tbl = (let (r, tbl) = add_socket target sport dport tbl in do {
     index \<leftarrow> r;
     Some (\<lparr>tcp_target = target, tcp_sport = sport, tcp_dport = dport, file_seq = sq, file_ack = ak, tcp_index = index\<rparr>, tbl)
   })"

subsection \<open>The table is a map from connections to queues\<close>

definition endpoint :: "socket \<Rightarrow> ipv4 \<times> u16 \<times> u16" where
  "endpoint sock = (raddr sock, lport sock, rport sock)"

definition table_ok :: "socket_table \<Rightarrow> bool" where
  "table_ok tbl \<longleftrightarrow> (\<forall>i j s t. i < length tbl \<and> j < length tbl \<and> tbl ! i = Some s \<and> tbl ! j = Some t
     \<and> endpoint s = endpoint t \<longrightarrow> i = j)"

definition queue_at :: "socket_table \<Rightarrow> nat \<Rightarrow> ipv4 \<times> u16 \<times> u16 \<Rightarrow> bytes list \<Rightarrow> bool" where
  "queue_at tbl i ep q \<longleftrightarrow> i < length tbl \<and> (\<exists>s. tbl ! i = Some s \<and> endpoint s = ep \<and> buffers s = q)"

lemma table_okD:
  "table_ok tbl \<Longrightarrow> i < length tbl \<Longrightarrow> j < length tbl \<Longrightarrow> tbl ! i = Some s \<Longrightarrow> tbl ! j = Some t
    \<Longrightarrow> endpoint s = endpoint t \<Longrightarrow> i = j"
  unfolding table_ok_def by blast

lemma sock_matches_Some [simp]: "sock_matches ep (Some s) = (endpoint s = ep)"
  by (auto simp: sock_matches_def endpoint_def)

lemma sock_matches_None [simp]: "\<not> sock_matches ep None"
  by (simp add: sock_matches_def)

lemma get_socket_queue: "get_socket a l r tbl = Some i \<Longrightarrow> \<exists>q. queue_at tbl i (a, l, r) q"
  by (auto simp: get_socket_def queue_at_def sock_matches_def endpoint_def dest!: position_SomeD split: option.splits)

lemma queue_found:
  assumes "table_ok tbl" "queue_at tbl i (a, l, r) q"
  shows "get_socket a l r tbl = Some i"
proof (cases "get_socket a l r tbl")
  case None
  then have "\<forall>x \<in> set tbl. \<not> sock_matches (a, l, r) x" by (simp add: get_socket_def)
  moreover from assms(2) obtain s where "i < length tbl" "tbl ! i = Some s" "endpoint s = (a, l, r)"
    by (auto simp: queue_at_def)
  ultimately show ?thesis using nth_mem [of i tbl] by force
next
  case (Some j)
  then obtain q' where "queue_at tbl j (a, l, r) q'" using get_socket_queue by blast
  with assms have "j = i" by (auto simp: queue_at_def dest: table_okD)
  with Some show ?thesis by simp
qed

text \<open>Changing the contents of one socket.\<close>

lemma table_ok_update:
  assumes "table_ok tbl" "tbl ! i = Some s" "endpoint s' = endpoint s"
  shows "table_ok (tbl[i := Some s'])"
proof (cases "i < length tbl")
  case True
  show ?thesis unfolding table_ok_def
  proof (intro allI impI, elim conjE)
    fix j k a b
    assume j: "j < length (tbl[i := Some s'])" "k < length (tbl[i := Some s'])"
      "tbl[i := Some s'] ! j = Some a" "tbl[i := Some s'] ! k = Some b" "endpoint a = endpoint b"
    have old: "\<exists>x'. tbl ! n = Some x' \<and> endpoint x' = endpoint x" if "tbl[i := Some s'] ! n = Some x" for n x
      using that assms(2,3) True by (cases "n = i") auto
    obtain a' b' where "tbl ! j = Some a'" "endpoint a' = endpoint a" "tbl ! k = Some b'" "endpoint b' = endpoint b"
      using old [OF j(3)] old [OF j(4)] by blast
    with j(1,2,5) table_okD [OF assms(1), of j k a' b'] show "j = k" by simp
  qed
qed (simp add: assms(1) list_update_beyond)

lemma queue_at_update:
  assumes "queue_at tbl j ep q" "tbl ! i = Some s" "endpoint s' = endpoint s"
  shows "queue_at (tbl[i := Some s']) j ep (if j = i then buffers s' else q)"
  using assms by (auto simp: queue_at_def nth_list_update)

lemma push_data_ok:
  assumes "queue_at tbl i ep q"
  obtains s where "tbl ! i = Some s" "endpoint s = ep" "push_data i d tbl = Some (tbl[i := Some (s\<lparr>buffers := q @ [d]\<rparr>)])"
  using assms that by (auto simp: queue_at_def push_data_def idx_in_range upd_in_range)

lemma set_s_a_ok:
  assumes "queue_at tbl i ep q"
  obtains s s' where "tbl ! i = Some s" "endpoint s' = endpoint s" "buffers s' = q" "set_s_a_by_index i sq ak tbl = Some (tbl[i := Some s'])"
proof -
  from assms obtain s where s: "i < length tbl" "tbl ! i = Some s" "endpoint s = ep" "buffers s = q" by (auto simp: queue_at_def)
  show ?thesis by (rule that [of s "s\<lparr>sock_ack := ak, sock_seq := sq\<rparr>"])
    (use s in \<open>simp_all add: set_s_a_by_index_def idx_in_range upd_in_range endpoint_def\<close>)
qed

text \<open>Delivering data to a socket, as the two protocols do.\<close>

lemma push_keeps:
  assumes "table_ok tbl" "queue_at tbl i ep q" "push_data i d tbl = Some tbl'"
  shows "table_ok tbl'" "queue_at tbl j ep' q' \<Longrightarrow> queue_at tbl' j ep' (if j = i then q' @ [d] else q')"
proof -
  obtain s where s: "tbl ! i = Some s" "endpoint s = ep" "tbl' = tbl[i := Some (s\<lparr>buffers := q @ [d]\<rparr>)]"
    using push_data_ok [OF assms(2), of d] assms(3) by (metis option.inject)
  have e: "endpoint (s\<lparr>buffers := q @ [d]\<rparr>) = endpoint s" by (simp add: endpoint_def)
  show "table_ok tbl'" unfolding s(3) by (rule table_ok_update [OF assms(1) s(1) e])
  show "queue_at tbl' j ep' (if j = i then q' @ [d] else q')" if q: "queue_at tbl j ep' q'"
    using queue_at_update [OF q s(1) e] assms(2) q s(1) unfolding s(3) by (auto simp: queue_at_def)
qed

lemma set_s_a_keeps:
  assumes "table_ok tbl" "queue_at tbl i ep q" "set_s_a_by_index i sq ak tbl = Some tbl'"
  shows "table_ok tbl'" "queue_at tbl j ep' q' \<Longrightarrow> queue_at tbl' j ep' q'"
proof -
  obtain s s' where s: "tbl ! i = Some s" "endpoint s' = endpoint s" "buffers s' = q" "tbl' = tbl[i := Some s']"
    using set_s_a_ok [OF assms(2), of sq ak] assms(3) by (metis option.inject)
  show "table_ok tbl'" unfolding s(4) by (rule table_ok_update [OF assms(1) s(1,2)])
  show "queue_at tbl' j ep' q'" if q: "queue_at tbl j ep' q'"
    using queue_at_update [OF q s(1,2)] assms(2) q s(1,3) unfolding s(4) by (auto simp: queue_at_def split: if_splits)
qed

lemma pop_data_keeps:
  assumes "table_ok tbl" "queue_at tbl i ep q"
  obtains tbl' where "pop_data i tbl = Some (if q = [] then None else Some (hd q), tbl')" "table_ok tbl'" "queue_at tbl' i ep (tl q)"
    "\<And>j ep' q'. j \<noteq> i \<Longrightarrow> queue_at tbl j ep' q' \<Longrightarrow> queue_at tbl' j ep' q'" "q = [] \<Longrightarrow> tbl' = tbl"
proof -
  from assms(2) obtain s where s: "i < length tbl" "tbl ! i = Some s" "endpoint s = ep" "buffers s = q" by (auto simp: queue_at_def)
  have e: "endpoint (s\<lparr>buffers := tl q\<rparr>) = endpoint s" by (simp add: endpoint_def)
  let ?t = "if q = [] then tbl else tbl[i := Some (s\<lparr>buffers := tl q\<rparr>)]"
  show ?thesis
  proof (rule that [of ?t])
    show "pop_data i tbl = Some (if q = [] then None else Some (hd q), ?t)"
      using s by (cases q) (simp_all add: pop_data_def idx_in_range upd_in_range)
    show "table_ok ?t" using table_ok_update [OF assms(1) s(2) e] assms(1) by simp
    show "queue_at ?t i ep (tl q)" using assms(2) queue_at_update [OF assms(2) s(2) e] by (cases q) simp_all
    show "queue_at ?t j ep' q'" if "j \<noteq> i" "queue_at tbl j ep' q'" for j ep' q'
      using that queue_at_update [OF that(2) s(2) e] by simp
  qed simp
qed

text \<open>A new socket takes a free slot and disturbs no other.\<close>

lemma add_socket_keeps:
  assumes "table_ok tbl" "add_socket a l r tbl = (Some i, tbl')"
  shows "table_ok tbl'" "queue_at tbl' i (a, l, r) []" "queue_at tbl j ep q \<Longrightarrow> queue_at tbl' j ep q"
proof -
  let ?s = "\<lparr>raddr = a, lport = l, rport = r, buffers = [], sock_seq = 0, sock_ack = 0\<rparr>"
  from assms(2) have f: "get_socket a l r tbl = None" "put_slot tbl ?s = (i, tbl')"
    by (auto simp: add_socket_def split: if_splits prod.splits)
  note sl = put_slot_spec [OF f(2)]
  have new: "endpoint x \<noteq> (a, l, r)" if "j < length tbl" "tbl ! j = Some x" for j x
    using f(1) that nth_mem [OF that(1)] by (auto simp: get_socket_def)
  have old: "j < length tbl \<and> tbl ! j = tbl' ! j" if "j \<noteq> i" "j < length tbl'" for j
    using that f(2) by (auto simp: put_slot_def nth_append split: option.splits)
  show "queue_at tbl' i (a, l, r) []" using sl(1,2) by (simp add: queue_at_def endpoint_def)
  show "table_ok tbl'" unfolding table_ok_def
  proof (intro allI impI, elim conjE)
    fix j k x y assume jk: "j < length tbl'" "k < length tbl'" "tbl' ! j = Some x" "tbl' ! k = Some y" "endpoint x = endpoint y"
    have s: "tbl' ! i = Some ?s" "endpoint ?s = (a, l, r)" using sl(2) by (simp_all add: endpoint_def)
    consider "j = i" "k = i" | "j = i" "k \<noteq> i" | "j \<noteq> i" "k = i" | "j \<noteq> i" "k \<noteq> i" by blast
    then show "j = k"
    proof cases
      case 2
      then show ?thesis using jk old [of k] new [of k y] s by auto
    next
      case 3
      then show ?thesis using jk old [of j] new [of j x] s by auto
    next
      case 4
      then show ?thesis using jk old [of j] old [of k] table_okD [OF assms(1), of j k x y] by auto
    qed simp
  qed
  show "queue_at tbl' j ep q" if "queue_at tbl j ep q"
    using that sl(3,4,6) by (cases "j = i") (auto simp: queue_at_def)
qed

end
