(* ===== verification/Paths.thy ===== *)
theory Paths
  imports PageTable Namespace
begin

unbundle bit_operations_syntax

section \<open>Path names and open files\<close>

text \<open>
  os/src/fs/inode.rs: the kernel's layer over the file system. Paths are split into a parent and a
  name, normalised, and resolved from a directory; files are opened with flags and read and written
  at an offset; entries are created, removed and moved. A path is its UTF-8 bytes; the separator is
  a single byte, so splitting the bytes is splitting the string. The root inode that
  \<^verbatim>\<open>get_root_inode\<close> returns is the handle \<^verbatim>\<open>root_inode fs\<close>. The two loops whose end depends on the
  contents of the disk are partial functions, for which None also stands for not returning.
\<close>

subsection \<open>Open flags\<close>

definition RDONLY :: u32 where "RDONLY = 0"
definition WRONLY :: u32 where "WRONLY = push_bit 0 1"
definition RDWR :: u32 where "RDWR = push_bit 1 1"
definition CREATE :: u32 where "CREATE = push_bit 9 1"
definition TRUNC :: u32 where "TRUNC = push_bit 10 1"
definition APPEND :: u32 where "APPEND = push_bit 14 1"

text \<open>\<^verbatim>\<open>from_bits\<close> of the bitflags macro.\<close>

definition open_flags_from_bits :: "u32 \<Rightarrow> u32 option" where
  "open_flags_from_bits bits =
     (if bits AND NOT (RDONLY OR WRONLY OR RDWR OR CREATE OR TRUNC OR APPEND) = 0 then Some bits else None)"

definition read_write :: "u32 \<Rightarrow> bool \<times> bool" where
  "read_write flags =
     (if flags = 0 then (True, False)
      else if flags_contains flags WRONLY then (False, True)
      else (True, True))"

subsection \<open>Open files\<close>

record os_inode =
  os_readable :: bool
  os_writable :: bool
  os_offset :: usize
  os_ino :: inode

definition os_inode_new :: "bool \<Rightarrow> bool \<Rightarrow> inode \<Rightarrow> bool \<Rightarrow> disk \<Rightarrow> os_inode outcome" where
  "os_inode_new rd wr ino at_end d = do {
     offset \<leftarrow> (if at_end then vfs_size ino d else Some 0);
     Some \<lparr>os_readable = rd, os_writable = wr, os_offset = of_nat offset, os_ino = ino\<rparr>
   }"

partial_function (option) read_all_from :: "inode \<Rightarrow> disk \<Rightarrow> usize \<Rightarrow> bytes \<Rightarrow> bytes \<Rightarrow> (bytes \<times> usize) option" where
  "read_all_from ino d offset buffer v = do {
     (len, buffer) \<leftarrow> vfs_read_at ino (unat offset) buffer d;
     if len = 0 then Some (v, offset)
     else read_all_from ino d (offset + of_nat len) buffer (v @ take len buffer)
   }"

definition read_all :: "os_inode \<Rightarrow> disk \<Rightarrow> (bytes \<times> os_inode) outcome" where
  "read_all self d = do {
     (v, offset) \<leftarrow> read_all_from (os_ino self) d (os_offset self) (replicate 512 0) [];
     Some (v, self\<lparr>os_offset := offset\<rparr>)
   }"

text \<open>Reading and writing a user buffer, given by the contents of its slices.\<close>

fun read_slices :: "inode \<Rightarrow> usize \<Rightarrow> bytes list \<Rightarrow> disk \<Rightarrow> (nat \<times> bytes list \<times> usize) outcome" where
  "read_slices ino offset [] d = Some (0, [], offset)"
| "read_slices ino offset (s # ss) d = do {
     (read_size, s') \<leftarrow> vfs_read_at ino (unat offset) s d;
     if read_size = 0 then Some (0, s' # ss, offset)
     else do {
       (total, ss', offset) \<leftarrow> read_slices ino (offset + of_nat read_size) ss d;
       Some (read_size + total, s' # ss', offset)
     }
   }"

definition os_read :: "os_inode \<Rightarrow> bytes list \<Rightarrow> disk \<Rightarrow> (nat \<times> bytes list \<times> os_inode) outcome" where
  "os_read self bufs d = do {
     (n, bufs, offset) \<leftarrow> read_slices (os_ino self) (os_offset self) bufs d;
     Some (n, bufs, self\<lparr>os_offset := offset\<rparr>)
   }"

fun write_slices :: "easy_file_system \<Rightarrow> inode \<Rightarrow> usize \<Rightarrow> bytes list \<Rightarrow> disk \<Rightarrow> (nat \<times> usize \<times> disk) outcome" where
  "write_slices fs ino offset [] d = Some (0, offset, d)"
| "write_slices fs ino offset (s # ss) d = do {
     (write_size, d) \<leftarrow> vfs_write_at fs ino (unat offset) s d;
     _ \<leftarrow> ensure (write_size = length s);
     (total, offset, d) \<leftarrow> write_slices fs ino (offset + of_nat write_size) ss d;
     Some (write_size + total, offset, d)
   }"

definition os_write :: "easy_file_system \<Rightarrow> os_inode \<Rightarrow> bytes list \<Rightarrow> disk \<Rightarrow> (nat \<times> os_inode \<times> disk) outcome" where
  "os_write fs self bufs d = do {
     (n, offset, d) \<leftarrow> write_slices fs (os_ino self) (os_offset self) bufs d;
     Some (n, self\<lparr>os_offset := offset\<rparr>, d)
   }"

subsection \<open>Splitting and normalising\<close>

abbreviation SLASH :: u8 where "SLASH \<equiv> 47"
abbreviation DOT :: bytes where "DOT \<equiv> [46]"
abbreviation DOTDOT :: bytes where "DOTDOT \<equiv> [46, 46]"

definition starts_with_slash :: "bytes \<Rightarrow> bool" where
  "starts_with_slash path \<longleftrightarrow> take 1 path = [SLASH]"

text \<open>Rust's \<^verbatim>\<open>rfind\<close> of a single byte.\<close>

definition rfind :: "u8 \<Rightarrow> bytes \<Rightarrow> nat option" where
  "rfind c s = map_option (\<lambda>i. length s - 1 - i) (position (\<lambda>b. b = c) (rev s))"

definition split_path :: "bytes \<Rightarrow> bytes \<times> bytes" where
  "split_path path = (
     let stripped = dropWhile (\<lambda>b. b = SLASH) path;
         slash_count = length path - length stripped
     in case rfind SLASH stripped of
          Some i \<Rightarrow> (take (slash_count + i) path, drop (slash_count + i + 1) path)
        | None \<Rightarrow> if 0 < slash_count then ([SLASH], stripped) else ([], path))"

definition norm_step :: "bytes list \<Rightarrow> bytes \<Rightarrow> bytes list" where
  "norm_step components c =
     (if c = [] \<or> c = DOT then components
      else if c = DOTDOT then butlast components
      else components @ [c])"

fun join_slash :: "bytes list \<Rightarrow> bytes" where
  "join_slash [] = []"
| "join_slash [c] = c"
| "join_slash (c # cs) = c @ SLASH # join_slash cs"

definition normalize_path :: "bytes \<Rightarrow> bytes" where
  "normalize_path path = (
     let result = join_slash (foldl norm_step [] (split_slash path))
     in if result = [] then [SLASH]
        else if starts_with_slash path then SLASH # result
        else result)"

subsection \<open>Operations on paths\<close>

definition lookup_path_from :: "easy_file_system \<Rightarrow> inode \<Rightarrow> bytes \<Rightarrow> disk \<Rightarrow> inode option outcome" where
  "lookup_path_from fs root path d = lookup_path fs root path d"

text \<open>The choice of the parent directory, the same in three operations.\<close>

definition parent_dir :: "easy_file_system \<Rightarrow> inode \<Rightarrow> bytes \<Rightarrow> disk \<Rightarrow> inode option outcome" where
  "parent_dir fs root parent_path d =
     (if parent_path = [] \<or> parent_path = [SLASH] then Some (Some root)
      else lookup_path_from fs root parent_path d)"

definition truncate :: "easy_file_system \<Rightarrow> u32 \<Rightarrow> inode \<Rightarrow> disk \<Rightarrow> disk outcome" where
  "truncate fs flags ino d = (if flags_contains flags TRUNC then vfs_clear fs ino d else Some d)"

definition open_file_at :: "easy_file_system \<Rightarrow> inode \<Rightarrow> bytes \<Rightarrow> u32 \<Rightarrow> disk \<Rightarrow> (os_inode option \<times> disk) outcome" where
  "open_file_at fs root path flags d = (
     let (rd, wr) = read_write flags;
         at_end = flags_contains flags APPEND
     in if flags_contains flags CREATE then
          let (parent_path, file_name) = split_path path in do {
            p \<leftarrow> parent_dir fs root parent_path d;
            case p of None \<Rightarrow> Some (None, d)
            | Some parent \<Rightarrow> do {
                r \<leftarrow> vfs_find fs parent file_name d;
                case r of
                  Some ino \<Rightarrow> do {
                    dir \<leftarrow> vfs_is_dir ino d;
                    if dir then Some (None, d)
                    else do {
                      d \<leftarrow> truncate fs flags ino d;
                      f \<leftarrow> os_inode_new rd wr ino at_end d;
                      Some (Some f, d)
                    }
                  }
                | None \<Rightarrow> do {
                    (r, d) \<leftarrow> vfs_create fs parent file_name d;
                    case r of None \<Rightarrow> Some (None, d)
                    | Some ino \<Rightarrow> do { f \<leftarrow> os_inode_new rd wr ino at_end d; Some (Some f, d) }
                  }
              }
          }
        else do {
          r \<leftarrow> lookup_path_from fs root path d;
          case r of None \<Rightarrow> Some (None, d)
          | Some ino \<Rightarrow> do {
              d \<leftarrow> truncate fs flags ino d;
              f \<leftarrow> os_inode_new rd wr ino at_end d;
              Some (Some f, d)
            }
        })"

definition open_file :: "easy_file_system \<Rightarrow> bytes \<Rightarrow> u32 \<Rightarrow> disk \<Rightarrow> (os_inode option \<times> disk) outcome" where
  "open_file fs nm flags d = open_file_at fs (root_inode fs) nm flags d"

text \<open>The result is 0 on success and -1 on failure.\<close>

definition make_directory_at :: "easy_file_system \<Rightarrow> inode \<Rightarrow> bytes \<Rightarrow> disk \<Rightarrow> (usize \<times> disk) outcome" where
  "make_directory_at fs root path d = (
     let (parent_path, dir_name) = split_path path in do {
       p \<leftarrow> parent_dir fs root parent_path d;
       case p of None \<Rightarrow> Some (- 1, d)
       | Some parent \<Rightarrow> do {
           (r, d) \<leftarrow> create_as fs parent dir_name Directory d;
           Some (if r = None then - 1 else 0, d)
         }
     })"

definition unlink_at :: "easy_file_system \<Rightarrow> inode \<Rightarrow> bytes \<Rightarrow> disk \<Rightarrow> (usize \<times> disk) outcome" where
  "unlink_at fs root path d = (
     let (parent_path, nm) = split_path path in do {
       p \<leftarrow> parent_dir fs root parent_path d;
       case p of None \<Rightarrow> Some (- 1, d)
       | Some parent \<Rightarrow> do {
           (r, d) \<leftarrow> vfs_unlink fs parent nm d;
           Some (if r = None then - 1 else 0, d)
         }
     })"

text \<open>Renaming: each parent is resolved on its own, from the root or from the working directory.\<close>

definition resolve_parent :: "easy_file_system \<Rightarrow> inode \<Rightarrow> bytes \<Rightarrow> disk \<Rightarrow> inode option outcome" where
  "resolve_parent fs root parent_path d =
     (if parent_path = [] \<or> parent_path = [SLASH]
      then Some (Some (if parent_path = [SLASH] then root_inode fs else root))
      else lookup_path_from fs (if starts_with_slash parent_path then root_inode fs else root) parent_path d)"

partial_function (option) is_ancestor :: "easy_file_system \<Rightarrow> nat \<Rightarrow> disk \<Rightarrow> inode \<Rightarrow> bool option" where
  "is_ancestor fs source_id d ancestor =
     (if inode_number_of fs ancestor = source_id then Some True
      else do {
        r \<leftarrow> vfs_parent fs ancestor d;
        case r of None \<Rightarrow> Some False | Some p \<Rightarrow> is_ancestor fs source_id d p
      })"

definition move_entry :: "easy_file_system \<Rightarrow> inode \<Rightarrow> bytes \<Rightarrow> inode \<Rightarrow> bytes \<Rightarrow> disk \<Rightarrow> (usize \<times> disk) outcome" where
  "move_entry fs old_parent old_name new_parent new_name d = do {
     r \<leftarrow> vfs_find fs old_parent old_name d;
     case r of None \<Rightarrow> Some (- 1, d)
     | Some source \<Rightarrow> do {
         let source_id = inode_number_of fs source;
         dir \<leftarrow> vfs_is_dir source d;
         cycle \<leftarrow> (if dir then is_ancestor fs source_id d new_parent else Some False);
         if cycle then Some (- 1, d)
         else do {
           (ok, d) \<leftarrow> vfs_link fs new_parent new_name source_id d;
           if \<not> ok then Some (- 1, d)
           else do {
             dir \<leftarrow> vfs_is_dir source d;
             d \<leftarrow> (if dir then set_parent_inode source (inode_number_of fs new_parent) d else Some d);
             (_, d) \<leftarrow> vfs_detach old_parent old_name d;
             Some (0, d)
           }
         }
       }
   }"

definition rename_at :: "easy_file_system \<Rightarrow> inode \<Rightarrow> bytes \<Rightarrow> bytes \<Rightarrow> disk \<Rightarrow> (usize \<times> disk) outcome" where
  "rename_at fs root old_path new_path d = (
     let (old_parent_path, old_name) = split_path old_path;
         (new_parent_path, new_name) = split_path new_path;
         new_name = (if new_name = [] \<and> old_name \<noteq> [] then old_name else new_name)
     in if old_name = [] \<or> new_name = [] then Some (- 1, d)
        else do {
          r \<leftarrow> resolve_parent fs root old_parent_path d;
          case r of None \<Rightarrow> Some (- 1, d)
          | Some old_parent \<Rightarrow> do {
              r \<leftarrow> resolve_parent fs root new_parent_path d;
              case r of None \<Rightarrow> Some (- 1, d)
              | Some new_parent \<Rightarrow>
                  if inode_number_of fs old_parent = inode_number_of fs new_parent then do {
                    (ok, d) \<leftarrow> vfs_rename fs old_parent old_name new_name d;
                    Some (if ok then 0 else - 1, d)
                  }
                  else move_entry fs old_parent old_name new_parent new_name d
            }
        })"

definition list_app_names :: "easy_file_system \<Rightarrow> disk \<Rightarrow> bytes list outcome" where
  "list_app_names fs d = do {
     r \<leftarrow> vfs_find fs (root_inode fs) [98, 105, 110] d;
     case r of Some bin_dir \<Rightarrow> vfs_ls bin_dir d | None \<Rightarrow> Some []
   }"

subsection \<open>Components of a path\<close>

definition components :: "bytes \<Rightarrow> bytes list" where
  "components path = filter (\<lambda>c. c \<noteq> []) (split_slash path)"

definition normal :: "bytes list \<Rightarrow> bool" where
  "normal cs \<longleftrightarrow> list_all (\<lambda>c. \<not> reserved c \<and> SLASH \<notin> set c) cs"

lemma normal_simps [simp]:
  "normal []"
  "normal (c # cs) \<longleftrightarrow> \<not> reserved c \<and> SLASH \<notin> set c \<and> normal cs"
  "normal (as @ bs) \<longleftrightarrow> normal as \<and> normal bs"
  by (simp_all add: normal_def)

lemma normal_butlast: "normal cs \<Longrightarrow> normal (butlast cs)"
  by (cases cs rule: rev_cases) simp_all

lemma split_slash_Nil [simp]: "split_slash p \<noteq> []"
  by (cases p) (simp_all split: list.splits)

lemma split_slash_append: "split_slash (a @ SLASH # b) = split_slash a @ split_slash b"
  by (induction a) (auto simp: neq_Nil_conv split: list.splits)

lemma split_slash_free: "SLASH \<notin> set c \<Longrightarrow> split_slash c = [c]"
  by (induction c) auto

lemma split_slash_no_slash: "c \<in> set (split_slash p) \<Longrightarrow> SLASH \<notin> set c"
proof (induction p arbitrary: c)
  case (Cons b p)
  then show ?case by (cases "split_slash p") (auto split: if_splits)
qed simp

lemma components_simps [simp]: "components [] = []" "components (SLASH # p) = components p"
  by (simp_all add: components_def)

lemma components_append: "components (a @ SLASH # b) = components a @ components b"
  by (simp add: components_def split_slash_append)

lemma components_nonempty: "c \<in> set (components p) \<Longrightarrow> c \<noteq> [] \<and> SLASH \<notin> set c"
  by (auto simp: components_def dest: split_slash_no_slash)

lemma components_dropWhile: "components (dropWhile (\<lambda>b. b = SLASH) p) = components p"
  by (induction p) auto

lemma components_join: "normal cs \<Longrightarrow> components (join_slash cs) = cs"
proof (induction cs rule: join_slash.induct)
  case (2 c)
  then show ?case by (simp add: components_def split_slash_free reserved_def)
next
  case (3 c c' cs)
  then show ?case
    by (simp add: components_append) (simp add: components_def split_slash_free reserved_def)
qed simp

lemma join_Nil: "normal cs \<Longrightarrow> join_slash cs = [] \<longleftrightarrow> cs = []"
  by (cases cs rule: join_slash.cases) (auto simp: reserved_def)

lemma join_last: "normal cs \<Longrightarrow> cs \<noteq> [] \<Longrightarrow> last (join_slash cs) \<noteq> SLASH"
proof (induction cs rule: join_slash.induct)
  case (2 c)
  then have "c \<noteq> []" by (simp add: reserved_def)
  then have "last c \<in> set c" by simp
  with 2 show ?case by auto
next
  case (3 c c' cs)
  then show ?case using join_Nil [of "c' # cs"] by auto
qed simp

lemma join_hd: "normal cs \<Longrightarrow> take 1 (join_slash cs) \<noteq> [SLASH]"
  by (cases cs rule: join_slash.cases) (auto simp: reserved_def take_Suc neq_Nil_conv)

lemma norm_fold_filter: "foldl norm_step acc (filter (\<lambda>c. c \<noteq> []) cs) = foldl norm_step acc cs"
  by (induction cs arbitrary: acc) (auto simp: norm_step_def)

lemma norm_step_normal: "normal acc \<Longrightarrow> SLASH \<notin> set c \<Longrightarrow> normal (norm_step acc c)"
  by (auto simp: norm_step_def reserved_def normal_butlast)

lemma norm_fold_normal: "normal acc \<Longrightarrow> list_all (\<lambda>c. SLASH \<notin> set c) cs \<Longrightarrow> normal (foldl norm_step acc cs)"
  by (induction cs arbitrary: acc) (auto simp: norm_step_normal)

lemma norm_fold_id: "normal cs \<Longrightarrow> foldl norm_step acc cs = acc @ cs"
  by (induction cs arbitrary: acc) (auto simp: norm_step_def reserved_def)

definition normalized :: "bytes \<Rightarrow> bytes list" where
  "normalized path = foldl norm_step [] (components path)"

lemma normalized_normal: "normal (normalized path)"
  unfolding normalized_def by (rule norm_fold_normal) (auto simp: list_all_iff dest: components_nonempty)

lemma normalize_path_eq:
  "normalize_path path = (if normalized path = [] then [SLASH]
     else if starts_with_slash path then SLASH # join_slash (normalized path) else join_slash (normalized path))"
proof -
  have "foldl norm_step [] (split_slash path) = normalized path"
    by (simp add: normalized_def components_def norm_fold_filter)
  then show ?thesis by (simp add: normalize_path_def Let_def join_Nil [OF normalized_normal])
qed

lemma components_normalize: "components (normalize_path path) = normalized path"
  by (simp add: normalize_path_eq components_join normalized_normal)

lemma normalized_normalize: "normalized (normalize_path path) = normalized path"
  unfolding normalized_def [of "normalize_path path"] components_normalize
  using norm_fold_id [OF normalized_normal, of "[]" path] by simp

lemma starts_normalize: "normalized path \<noteq> [] \<Longrightarrow> starts_with_slash (normalize_path path) = starts_with_slash path"
  using join_hd [OF normalized_normal] by (simp add: normalize_path_eq starts_with_slash_def)

lemma normalize_idem: "normalize_path (normalize_path path) = normalize_path path"
proof (cases "normalized path = []")
  case True
  then show ?thesis by (simp add: normalize_path_eq normalized_def)
next
  case False
  then show ?thesis
    unfolding normalize_path_eq [of "normalize_path path"] normalized_normalize starts_normalize [OF False]
    by (simp add: normalize_path_eq)
qed

subsection \<open>Directory trees\<close>

text \<open>
  What path names rely on: in a well-formed tree the component \<^verbatim>\<open>..\<close> leads from a directory back to
  the directory it was found in, and from the root to itself.
\<close>

fun walk_from :: "('n \<Rightarrow> bytes \<Rightarrow> 'n option) \<Rightarrow> 'n \<Rightarrow> bytes list \<Rightarrow> 'n option" where
  "walk_from step n [] = Some n"
| "walk_from step n (c # cs) = do { m \<leftarrow> step n c; walk_from step m cs }"

lemma walk_from_append: "walk_from step n (as @ bs) = do { m \<leftarrow> walk_from step n as; walk_from step m bs }"
  by (induction as arbitrary: n) (auto simp: bind_assoc)

locale name_tree =
  fixes wf :: "'s \<Rightarrow> bool" and top :: "'s \<Rightarrow> 'n" and step :: "'s \<Rightarrow> 'n \<Rightarrow> bytes \<Rightarrow> 'n option"
  assumes dot: "step s n DOT = Some m \<Longrightarrow> m = n"
    and up_top: "wf s \<Longrightarrow> step s (top s) DOTDOT = Some m \<Longrightarrow> m = top s"
    and up_child: "wf s \<Longrightarrow> normal cs \<Longrightarrow> walk_from (step s) (top s) cs = Some n \<Longrightarrow> \<not> reserved c \<Longrightarrow> SLASH \<notin> set c
      \<Longrightarrow> step s n c = Some x \<Longrightarrow> step s x DOTDOT = Some m \<Longrightarrow> m = n"
begin

lemma norm_step_walk:
  assumes "wf s" "normal acc" "walk_from (step s) (top s) acc = Some n" "c \<noteq> []" "step s n c = Some m"
  shows "walk_from (step s) (top s) (norm_step acc c) = Some m"
proof (cases "c = DOTDOT")
  case True
  show ?thesis
  proof (cases acc rule: rev_cases)
    case Nil
    with assms True show ?thesis using up_top by (auto simp: norm_step_def)
  next
    case (snoc cs c')
    with assms(3) obtain w where "walk_from (step s) (top s) cs = Some w" "step s w c' = Some n"
      by (auto simp: walk_from_append bind_Some_conv)
    with assms True snoc show ?thesis using up_child [of s cs w c' n m] by (simp add: norm_step_def)
  qed
next
  case False
  with assms show ?thesis using dot by (auto simp: norm_step_def walk_from_append)
qed

lemma norm_walk:
  assumes "wf s" "normal acc" "walk_from (step s) (top s) acc = Some n" "list_all (\<lambda>c. c \<noteq> [] \<and> SLASH \<notin> set c) cs"
    "walk_from (step s) n cs = Some m"
  shows "walk_from (step s) (top s) (foldl norm_step acc cs) = Some m"
  using assms(2-5)
proof (induction cs arbitrary: acc n)
  case (Cons c cs)
  from Cons.prems obtain k where k: "step s n c = Some k" "walk_from (step s) k cs = Some m" by (auto simp: bind_Some_conv)
  have "walk_from (step s) (top s) (norm_step acc c) = Some k"
    using Cons.prems k(1) by (intro norm_step_walk [OF assms(1)]) auto
  then show ?case using Cons.IH [of "norm_step acc c" k] Cons.prems k(2) by (simp add: norm_step_normal)
qed simp

end

text \<open>One step of a path in the file system: None when the directory has no such entry, when the node
  is no directory, and when the code panics.\<close>

definition enter :: "easy_file_system \<times> disk \<Rightarrow> inode \<Rightarrow> bytes \<Rightarrow> inode option" where
  "enter s n c = (case s of (fs, d) \<Rightarrow> do {
     di \<leftarrow> read_disk_inode n d;
     _ \<leftarrow> ensure (is_dir di);
     r \<leftarrow> resolve_component fs n c d;
     r
   })"

text \<open>The parent field of every directory below the root names the directory that holds it.\<close>

definition tree_ok :: "easy_file_system \<times> disk \<Rightarrow> bool" where
  "tree_ok s \<longleftrightarrow> (case s of (fs, d) \<Rightarrow>
     is_root fs (root_inode fs) \<and> is_dir (node (root_inode fs) d) \<and> parent_inode (node (root_inode fs) d) = 0
     \<and> (\<forall>cs n c x. normal cs \<longrightarrow> walk_from (enter s) (root_inode fs) cs = Some n \<longrightarrow> \<not> reserved c \<longrightarrow> SLASH \<notin> set c
          \<longrightarrow> enter s n c = Some x \<longrightarrow> is_dir (node x d)
          \<longrightarrow> \<not> is_root fs x \<and> inode_at fs (parent_inode (node x d)) = n))"

lemma read_disk_inode_node: "read_disk_inode n d = Some di \<Longrightarrow> di = node n d"
  by (auto simp: read_disk_inode_def node_def split: if_splits)

lemma enter_up:
  "enter (fs, d) n DOTDOT = Some m \<Longrightarrow> is_dir (node n d)
     \<and> m = (if parent_inode (node n d) = 0 \<and> is_root fs n then n else inode_at fs (parent_inode (node n d)))"
  by (auto simp: enter_def resolve_component_def bind_Some_conv dest!: read_disk_inode_node split: if_splits)

interpretation efs: name_tree tree_ok "\<lambda>s. root_inode (fst s)" enter
proof unfold_locales
  show "m = n" if "enter s n DOT = Some m" for s n m
    using that by (auto simp: enter_def resolve_component_def bind_Some_conv split: prod.splits if_splits)
  show "m = root_inode (fst s)" if "tree_ok s" "enter s (root_inode (fst s)) DOTDOT = Some m" for s m
    using that by (cases s) (auto simp: tree_ok_def dest!: enter_up)
  show "m = n" if "tree_ok s" "normal cs" "walk_from (enter s) (root_inode (fst s)) cs = Some n" "\<not> reserved c"
    "SLASH \<notin> set c" "enter s n c = Some x" "enter s x DOTDOT = Some m" for s cs n c x m
  proof -
    obtain fs d where s: "s = (fs, d)" by (cases s)
    with that(7) enter_up have m: "is_dir (node x d)"
      "m = (if parent_inode (node x d) = 0 \<and> is_root fs x then x else inode_at fs (parent_inode (node x d)))" by blast+
    with that(1-6) s have "\<not> is_root fs x \<and> inode_at fs (parent_inode (node x d)) = n"
      unfolding tree_ok_def by auto
    with m(2) show ?thesis by simp
  qed
qed

lemma descend_walk: "descend fs n cs d = Some (Some m) \<longleftrightarrow> walk_from (enter (fs, d)) n cs = Some m"
proof (induction cs arbitrary: n)
  case (Cons c cs)
  show ?case
    by (cases "read_disk_inode n d"; cases "resolve_component fs n c d")
      (auto simp: enter_def Cons.IH split: option.splits)
qed auto

text \<open>Looking a path up from a directory is walking its components.\<close>

lemma components_Nil: "components p = [] \<Longrightarrow> dropWhile (\<lambda>b. b = SLASH) p = []"
proof (induction p)
  case (Cons b p)
  then show ?case by (cases "b = SLASH") (auto simp: components_def neq_Nil_conv split: list.splits if_splits)
qed simp

lemma components_not_Nil: "dropWhile (\<lambda>b. b = SLASH) p = [] \<Longrightarrow> components p = []"
  by (metis components_dropWhile components_simps(1))

lemma last_dropWhile: "dropWhile P p \<noteq> [] \<Longrightarrow> last (dropWhile P p) = last p"
  by (induction p) (auto split: if_splits)

definition ends_ok :: "bytes \<Rightarrow> inode \<Rightarrow> disk \<Rightarrow> bool" where
  "ends_ok path n d \<longleftrightarrow> path = [] \<or> last path \<noteq> SLASH \<or> vfs_is_dir n d = Some True"

lemma found_conv:
  "(do { r \<leftarrow> R; case r of None \<Rightarrow> Some None | Some c \<Rightarrow> F c }) = Some (Some m) \<longleftrightarrow> (\<exists>n. R = Some (Some n) \<and> F n = Some (Some m))"
  by (cases R) (auto split: option.splits)

lemma enter_dir:
  "read_disk_inode n d = Some di \<Longrightarrow> is_dir di \<Longrightarrow> enter (fs, d) n c = do { r \<leftarrow> resolve_component fs n c d; r }"
  by (simp add: enter_def)

lemma lookup_walk:
  assumes self: "vfs_is_dir self d = Some True"
  shows "lookup_path fs self path d = Some (Some m) \<longleftrightarrow> walk_from (enter (fs, d)) self (components path) = Some m \<and> ends_ok path m d"
proof (cases "components path")
  case Nil
  then have "lookup_path fs self path d = Some (Some self)" using components_Nil [OF Nil] by (simp add: lookup_path_def)
  then show ?thesis using Nil self by (auto simp: ends_ok_def)
next
  case (Cons c cs)
  from self obtain di where di: "read_disk_inode self d = Some di" "is_dir di" by (auto simp: vfs_is_dir_def bind_Some_conv)
  let ?p = "dropWhile (\<lambda>b. b = SLASH) path"
  have p: "?p \<noteq> []" using Cons components_not_Nil by fastforce
  then have lst: "last ?p = last path" "path \<noteq> []" "path \<noteq> [SLASH]" by (auto intro: last_dropWhile)
  have cs: "filter (\<lambda>c. c \<noteq> []) (split_slash ?p) = c # cs" using components_dropWhile [of path] Cons by (simp add: components_def)
  show ?thesis
  proof (cases "path = DOT")
    case True
    then have "components path = [DOT]" by (simp add: components_def)
    with True show ?thesis using di by (auto simp: lookup_path_def enter_dir resolve_component_def ends_ok_def)
  next
    case False
    have L: "lookup_path fs self path d = do {
        r \<leftarrow> resolve_component fs self c d;
        case r of None \<Rightarrow> Some None
        | Some cur \<Rightarrow> do {
            r \<leftarrow> descend fs cur cs d;
            case r of None \<Rightarrow> Some None
            | Some fin \<Rightarrow> if last path = SLASH then do { di \<leftarrow> read_disk_inode fin d; Some (if is_dir di then Some fin else None) }
                         else Some (Some fin)
          }
      }"
      unfolding lookup_path_def Let_def cs lst(1) using False p lst(2,3) by (simp add: idx_in_range del: dropWhile_eq_Nil_conv)
    have "lookup_path fs self path d = Some (Some m) \<longleftrightarrow>
        (\<exists>n. resolve_component fs self c d = Some (Some n) \<and> descend fs n cs d = Some (Some m) \<and> ends_ok path m d)"
      unfolding L found_conv using lst(2) by (auto simp: ends_ok_def vfs_is_dir_def bind_Some_conv)
    also have "\<dots> \<longleftrightarrow> walk_from (enter (fs, d)) self (components path) = Some m \<and> ends_ok path m d"
      using Cons by (auto simp: enter_dir [OF di] descend_walk bind_Some_conv)
    finally show ?thesis .
  qed
qed

lemma last_normalize: "normalized path \<noteq> [] \<Longrightarrow> last (normalize_path path) \<noteq> SLASH"
  using join_last [OF normalized_normal] join_Nil [OF normalized_normal] by (auto simp: normalize_path_eq)

lemma root_is_dir: "tree_ok (fs, d) \<Longrightarrow> read_disk_inode (root_inode fs) d \<noteq> None \<Longrightarrow> vfs_is_dir (root_inode fs) d = Some True"
  by (auto simp: vfs_is_dir_def tree_ok_def bind_Some_conv dest: read_disk_inode_node)

lemma lookup_normalized:
  assumes "tree_ok (fs, d)" "vfs_is_dir (root_inode fs) d = Some True" "walk_from (enter (fs, d)) (root_inode fs) (components path) = Some m"
  shows "lookup_path fs (root_inode fs) (normalize_path path) d = Some (Some m)"
proof -
  have "list_all (\<lambda>c. c \<noteq> [] \<and> SLASH \<notin> set c) (components path)" by (auto simp: list_all_iff dest: components_nonempty)
  then have w: "walk_from (enter (fs, d)) (root_inode fs) (normalized path) = Some m"
    unfolding normalized_def using assms(1,3) efs.norm_walk [of "(fs, d)" "[]" "root_inode fs" "components path" m] by simp
  moreover have "ends_ok (normalize_path path) m d"
  proof (cases "normalized path = []")
    case True
    with w assms(2) show ?thesis by (simp add: ends_ok_def)
  qed (simp add: ends_ok_def last_normalize)
  ultimately show ?thesis by (simp add: lookup_walk [OF assms(2)] components_normalize)
qed

subsection \<open>The search for a cycle\<close>

text \<open>The nodes on the way to a directory.\<close>

definition on_path :: "easy_file_system \<times> disk \<Rightarrow> bytes list \<Rightarrow> nat \<Rightarrow> bool" where
  "on_path s cs k \<longleftrightarrow> (\<exists>i \<le> length cs. map_option (inode_number_of (fst s)) (walk_from (enter s) (root_inode (fst s)) (take i cs)) = Some k)"

lemma on_path_Nil: "on_path (fs, d) [] k \<longleftrightarrow> inode_number_of fs (root_inode fs) = k"
  by (simp add: on_path_def)

lemma on_path_snoc:
  assumes "walk_from (enter (fs, d)) (root_inode fs) (cs @ [c]) = Some n"
  shows "on_path (fs, d) (cs @ [c]) k \<longleftrightarrow> on_path (fs, d) cs k \<or> inode_number_of fs n = k"
  using assms by (auto simp: on_path_def le_Suc_eq)

lemma enter_read: "enter (fs, d) n c = Some m \<Longrightarrow> vfs_is_dir n d = Some True"
  by (auto simp: enter_def vfs_is_dir_def bind_Some_conv split: if_splits)

lemma is_ancestor_walk:
  assumes t: "tree_ok (fs, d)" and "normal cs" "walk_from (enter (fs, d)) (root_inode fs) cs = Some n" "vfs_is_dir n d = Some True"
  shows "is_ancestor fs k d n = Some (on_path (fs, d) cs k)"
  using assms(2-4)
proof (induction cs arbitrary: n rule: rev_induct)
  case Nil
  then have n: "n = root_inode fs" and r: "read_disk_inode n d = Some (node n d)"
    by (auto simp: vfs_is_dir_def bind_Some_conv dest: read_disk_inode_node)
  from t have "parent_inode (node n d) = 0" "is_root fs n" by (simp_all add: tree_ok_def n)
  then have "vfs_parent fs n d = Some None" using r by (simp add: vfs_parent_def)
  then show ?case by (subst is_ancestor.simps) (simp add: on_path_Nil n)
next
  case (snoc c cs)
  from snoc.prems(2) obtain w where w: "walk_from (enter (fs, d)) (root_inode fs) cs = Some w" "enter (fs, d) w c = Some n"
    by (auto simp: walk_from_append bind_Some_conv)
  have r: "read_disk_inode n d = Some (node n d)" "is_dir (node n d)"
    using snoc.prems(3) by (auto simp: vfs_is_dir_def bind_Some_conv dest: read_disk_inode_node)
  have c: "normal cs" "\<not> reserved c" "SLASH \<notin> set c" using snoc.prems(1) by simp_all
  have "\<not> is_root fs n \<and> inode_at fs (parent_inode (node n d)) = w"
    using t w c r(2) unfolding tree_ok_def by auto
  then have "vfs_parent fs n d = Some (Some w)" using r(1) by (simp add: vfs_parent_def)
  moreover have "is_ancestor fs k d w = Some (on_path (fs, d) cs k)"
    using snoc.IH [OF c(1) w(1)] enter_read [OF w(2)] by simp
  ultimately show ?case using on_path_snoc [OF snoc.prems(2)] by (subst is_ancestor.simps) auto
qed

subsection \<open>Reading an open file\<close>

lemma vfs_read_at_ok:
  assumes "inode_inv fs ino d" "offset + length buf < 2 ^ 64"
  defines "n \<equiv> min (length buf) (length (contents ino d) - offset)"
  shows "vfs_read_at ino offset buf d = Some (n, take n (drop offset (contents ino d)) @ drop n buf)"
proof -
  have "inode_ok (node ino d, d)" "read_disk_inode ino d = Some (node ino d)"
    using assms(1) by (auto simp: inode_inv_def file_inv_def intro: read_disk_inode_ok)
  then show ?thesis
    using read_at_ok [of "node ino d" d offset buf n] assms(2) by (simp add: vfs_read_at_def n_def contents_def)
qed

lemma contents_small: "inode_inv fs ino d \<Longrightarrow> length (contents ino d) < 2 ^ 32"
  by (simp add: inode_inv_def file_inv_def inode_ok_def contents_def MAX_SIZE_def MAX_BLOCKS_def BLOCK_SZ_def)

text \<open>An offset that moves inside the file does not wrap.\<close>

lemma offset_add:
  assumes "unat (offset :: usize) + n < 2 ^ 64"
  shows "unat (offset + of_nat n) = unat offset + n"
proof -
  have "unat (of_nat n :: usize) = n" using assms by (simp add: unat_of_nat)
  then show ?thesis using assms by (simp add: unat_add_lem [THEN iffD1])
qed

lemma read_all_from_ok:
  assumes "inode_inv fs ino d"
  shows "unat offset < 2 ^ 63 \<Longrightarrow> length buf = 512
    \<Longrightarrow> read_all_from ino d offset buf v = Some (v @ drop (unat offset) (contents ino d), max offset (of_nat (length (contents ino d))))"
proof (induction "length (contents ino d) - unat offset" arbitrary: offset buf v rule: less_induct)
  case less
  let ?C = "contents ino d" let ?o = "unat offset"
  define n where "n = min 512 (length ?C - ?o)"
  have sm: "length ?C < 2 ^ 32" by (rule contents_small [OF assms])
  have r: "vfs_read_at ino ?o buf d = Some (n, take n (drop ?o ?C) @ drop n buf)"
    using vfs_read_at_ok [OF assms, of ?o buf] less.prems by (simp add: n_def)
  show ?case
  proof (cases "n = 0")
    case True
    then have "length ?C \<le> ?o" by (auto simp: n_def)
    moreover from this have "of_nat (length ?C) \<le> offset" using sm by (simp add: word_le_nat_alt unat_of_nat)
    ultimately show ?thesis using r True by (subst read_all_from.simps) (simp add: max_def)
  next
    case False
    then have lt: "?o < length ?C" and le: "?o + n \<le> length ?C" by (auto simp: n_def)
    have n: "0 < n" "n \<le> 512" using False by (auto simp: n_def)
    have o: "unat (offset + of_nat n) = ?o + n" using le sm by (intro offset_add) simp
    have "length ?C - unat (offset + of_nat n) < length ?C - ?o" unfolding o using lt n(1) by linarith
    moreover have "unat (offset + of_nat n) < 2 ^ 63" unfolding o using le sm by simp
    moreover have "length (take n (drop ?o ?C) @ drop n buf) = 512" using le n(2) less.prems(2) by simp
    ultimately have IH: "read_all_from ino d (offset + of_nat n) (take n (drop ?o ?C) @ drop n buf) (v @ take n (drop ?o ?C))
      = Some ((v @ take n (drop ?o ?C)) @ drop (unat (offset + of_nat n)) ?C, max (offset + of_nat n) (of_nat (length ?C)))"
      by (rule less.hyps)
    have "take n (drop ?o ?C) @ drop (?o + n) ?C = drop ?o ?C" by (metis append_take_drop_id drop_drop add.commute)
    moreover have "max (offset + of_nat n) (of_nat (length ?C)) = max offset (of_nat (length ?C) :: usize)"
      using lt le sm o by (simp add: max_def word_le_nat_alt unat_of_nat)
    moreover have "take n (take n (drop ?o ?C) @ drop n buf) = take n (drop ?o ?C)" using le by (intro take_drop_len [THEN conjunct1]) simp
    ultimately show ?thesis using r False IH o by (subst read_all_from.simps) (simp del: take_append)
  qed
qed

lemma read_slices_ok:
  assumes "inode_inv fs ino d"
  shows "list_all (\<lambda>s. s \<noteq> []) ss \<Longrightarrow> unat offset + length (concat ss) < 2 ^ 63
    \<Longrightarrow> n = min (length (concat ss)) (length (contents ino d) - unat offset)
    \<Longrightarrow> \<exists>ss'. read_slices ino offset ss d = Some (n, ss', offset + of_nat n) \<and> map length ss' = map length ss
      \<and> concat ss' = take n (drop (unat offset) (contents ino d)) @ drop n (concat ss)"
proof (induction ss arbitrary: offset n)
  case (Cons s ss)
  let ?C = "contents ino d" let ?o = "unat offset"
  define k where "k = min (length s) (length ?C - ?o)"
  have r: "vfs_read_at ino ?o s d = Some (k, take k (drop ?o ?C) @ drop k s)"
    using vfs_read_at_ok [OF assms, of ?o s] Cons.prems by (simp add: k_def)
  show ?case
  proof (cases "k = 0")
    case True
    moreover have "0 < length s" using Cons.prems(1) by simp
    ultimately have "n = 0" unfolding Cons.prems(3) k_def by linarith
    then show ?thesis using r True by simp
  next
    case False
    then have le: "?o + k \<le> length ?C" "k \<le> length s" by (auto simp: k_def)
    have o: "unat (offset + of_nat k) = ?o + k" using le(2) Cons.prems(2) by (intro offset_add) simp
    define m where "m = min (length (concat ss)) (length ?C - (?o + k))"
    have "list_all (\<lambda>s. s \<noteq> []) ss" "unat (offset + of_nat k) + length (concat ss) < 2 ^ 63"
      using Cons.prems le(2) o by simp_all
    from Cons.IH [OF this, unfolded o, OF m_def] obtain ss' where
      IH: "read_slices ino (offset + of_nat k) ss d = Some (m, ss', offset + of_nat k + of_nat m)" "map length ss' = map length ss"
        "concat ss' = take m (drop (?o + k) ?C) @ drop m (concat ss)" by blast
    have n: "n = k + m" unfolding Cons.prems(3) k_def m_def by simp
    have full: "k = length s \<or> m = 0" by (auto simp: k_def m_def)
    have "take n (drop ?o ?C) = take k (drop ?o ?C) @ take m (drop (?o + k) ?C)"
      unfolding n by (simp add: take_add add.commute)
    with full have "concat ((take k (drop ?o ?C) @ drop k s) # ss') = take n (drop ?o ?C) @ drop n (concat (s # ss))"
      using IH(3) n le(2) by auto
    then show ?thesis using r False IH le by (auto simp: n add.assoc)
  qed
qed simp

subsection \<open>An example tree\<close>

text \<open>A file system with one directory \<^verbatim>\<open>a\<close> under the root.\<close>

lemma is_root_0: "meta_ok fs \<Longrightarrow> valid_id fs k \<Longrightarrow> is_root fs (inode_at fs k) \<longleftrightarrow> k = 0"
  by (simp add: is_root_def inode_number_inode_at)

lemma enter_listing:
  assumes "dir_inv fs n d" "\<not> reserved c"
  shows "enter (fs, d) n c = map_option (inode_at fs) (map_of (listing n d) c)"
proof -
  have "is_dir (node n d)" using assms(1) by (simp add: dir_inv_def)
  then show ?thesis using assms(2)
    by (simp add: enter_def read_node [OF assms(1)] resolve_component_def vfs_find_def find_ok [OF assms(1)] reserved_def)
qed

lemma example_tree:
  obtains d k where "meta_ok (created_fs 2000 1)" "tree_ok (created_fs 2000 1, d)" "vfs_is_dir (root_inode (created_fs 2000 1)) d = Some True"
    "k \<noteq> 0" "valid_id (created_fs 2000 1) k" "vfs_is_dir (inode_at (created_fs 2000 1) k) d = Some True"
    "enter (created_fs 2000 1, d) (root_inode (created_fs 2000 1)) [97] = Some (inode_at (created_fs 2000 1) k)"
    "enter (created_fs 2000 1, d) (inode_at (created_fs 2000 1) k) DOTDOT = Some (root_inode (created_fs 2000 1))"
    "dir_inv (created_fs 2000 1) (root_inode (created_fs 2000 1)) d"
    "listing (root_inode (created_fs 2000 1)) d = [([97], k)]"
proof -
  let ?fs = "created_fs 2000 1" let ?r = "root_inode ?fs"
  obtain d0 where d0: "efs_create (\<lambda>_ _. 0) 2000 1 = Some (?fs, d0)" "fs_ok ?fs" "inode_inv ?fs ?r d0"
    "free_blocks ?fs d0 = 4096" "node ?r d0 = disk_inode_initialize Directory" "allocated (inode_bitmap ?fs) d0 = {0}" by (rule example_fs)
  obtain dx where dx: "efs_create (\<lambda>_ _. 0) 2000 1 = Some (?fs, dx)" "meta_ok ?fs" "valid_id ?fs 0" "valid_id ?fs 1"
    "dir_inv ?fs (inode_at ?fs 0) dx" "room ?fs (inode_at ?fs 0) 1 dx" "listing (inode_at ?fs 0) dx = []"
    "allocated (inode_bitmap ?fs) dx = {0}" "maximum (inode_bitmap ?fs) = 4096" by (rule example_root)
  have eq: "dx = d0" using d0(1) dx(1) by simp
  have h: "0 \<in> allocated (inode_bitmap ?fs) d0" "map_of (listing (inode_at ?fs 0) d0) [97] = None" "1 < maximum (inode_bitmap ?fs)"
    "1 \<notin> allocated (inode_bitmap ?fs) d0" "maximum (inode_bitmap ?fs) \<le> 2 ^ 32" unfolding dx(7-9) [unfolded eq] by simp_all
  from create_as_ok [OF dx(2,3) h(1) dx(5,6) [unfolded eq] example_name h(2-4) dx(4) h(5), of Directory] obtain k d where
    c: "k \<notin> allocated (inode_bitmap ?fs) d0" "dir_inv ?fs ?r d" "listing ?r d = [([97], k)]" "inode_inv ?fs (inode_at ?fs k) d"
      "node (inode_at ?fs k) d = (disk_inode_initialize Directory)\<lparr>parent_inode := 0\<rparr>" "valid_id ?fs k"
      "parent_inode (node ?r d) = parent_inode (node ?r d0)"
    unfolding root_inode_def dx(7) [unfolded eq] by (metis append_Nil)
  have k: "k \<noteq> 0" using c(1) d0(6) by auto
  have "node (inode_at ?fs k) d = disk_inode_initialize Directory" unfolding c(5) by (simp add: disk_inode_initialize_def)
  note ek = empty_directory [OF c(4) this]
  have p0: "parent_inode (node ?r d) = 0" "parent_inode (node (inode_at ?fs k) d) = 0"
    unfolding c(5,7) d0(5) by (simp_all add: disk_inode_initialize_def)
  have er: "enter (?fs, d) ?r x = (if x = [97] then Some (inode_at ?fs k) else None)" if "\<not> reserved x" for x
    using that enter_listing [OF c(2)] c(3) by simp
  have ek': "enter (?fs, d) (inode_at ?fs k) x = None" if "\<not> reserved x" for x
    using that enter_listing [OF ek(1)] ek(2) by simp
  have w: "n = ?r \<or> n = inode_at ?fs k" if "normal cs" "walk_from (enter (?fs, d)) ?r cs = Some n" for cs n
  proof (cases cs)
    case Nil
    with that show ?thesis by simp
  next
    case (Cons a as)
    with that er have "walk_from (enter (?fs, d)) (inode_at ?fs k) as = Some n" by (auto split: if_splits)
    with that Cons ek' show ?thesis by (cases as) auto
  qed
  have nr: "is_root ?fs ?r" "\<not> is_root ?fs (inode_at ?fs k)" using is_root_0 [OF dx(2)] dx(3) c(6) k by (auto simp: root_inode_def)
  have dir: "is_dir (node ?r d)" "is_dir (node (inode_at ?fs k) d)" using c(2) ek(1) by (simp_all add: dir_inv_def)
  have "tree_ok (?fs, d)" unfolding tree_ok_def prod.case
  proof (intro conjI allI impI)
    fix cs n y x
    assume a: "normal cs" "walk_from (enter (?fs, d)) ?r cs = Some n" "\<not> reserved y" "enter (?fs, d) n y = Some x"
    then have "n = ?r" using w [OF a(1,2)] ek' by auto
    moreover from this a er have "x = inode_at ?fs k" by (auto split: if_splits)
    ultimately show "\<not> is_root ?fs x" "inode_at ?fs (parent_inode (node x d)) = n" using nr(2) p0(2) by (simp_all add: root_inode_def)
  qed (use nr dir p0 in auto)
  moreover have "vfs_is_dir ?r d = Some True" "vfs_is_dir (inode_at ?fs k) d = Some True"
    using dir read_node [OF c(2)] read_node [OF ek(1)] by (simp_all add: vfs_is_dir_def)
  moreover have "enter (?fs, d) (inode_at ?fs k) DOTDOT = Some ?r"
    using dir(2) read_node [OF ek(1)] nr(2) p0(2) by (simp add: enter_def resolve_component_def root_inode_def)
  moreover have "enter (?fs, d) ?r [97] = Some (inode_at ?fs k)" using er example_name(2) by simp
  ultimately show ?thesis using that dx(2) k c(2,3,6) by blast
qed

subsection \<open>Properties\<close>

text \<open>C28: \<^verbatim>\<open>normalize_path\<close>. In a directory tree whose parent links are right, a path that leads from the
  root to a node still leads from the root to it after it is normalised; the result has no empty component and none that is
  \<^verbatim>\<open>.\<close> or \<^verbatim>\<open>..\<close>, and normalising it again changes nothing.\<close>

theorem normalize_keeps_target:
  assumes "tree_ok (fs, d)" "vfs_is_dir (root_inode fs) d = Some True" "lookup_path fs (root_inode fs) path d = Some (Some m)"
  shows "lookup_path fs (root_inode fs) (normalize_path path) d = Some (Some m)
    \<and> normal (components (normalize_path path)) \<and> normalize_path (normalize_path path) = normalize_path path"
  using assms lookup_normalized by (simp add: lookup_walk normalize_idem components_normalize normalized_normal)

theorem normalize_keeps_target_witness:
  "\<exists>fs d m. tree_ok (fs, d) \<and> m \<noteq> root_inode fs \<and> normalize_path [47, 97, 47, 46, 46, 47, 47, 97, 47] = [47, 97]
     \<and> lookup_path fs (root_inode fs) [47, 97, 47, 46, 46, 47, 47, 97, 47] d = Some (Some m)
     \<and> lookup_path fs (root_inode fs) [47, 97] d = Some (Some m)"
proof -
  let ?fs = "created_fs 2000 1" let ?p = "[47, 97, 47, 46, 46, 47, 47, 97, 47] :: bytes"
  obtain d k where t: "meta_ok ?fs" "tree_ok (?fs, d)" "vfs_is_dir (root_inode ?fs) d = Some True" "k \<noteq> 0" "valid_id ?fs k"
    "vfs_is_dir (inode_at ?fs k) d = Some True" "enter (?fs, d) (root_inode ?fs) [97] = Some (inode_at ?fs k)"
    "enter (?fs, d) (inode_at ?fs k) DOTDOT = Some (root_inode ?fs)" by (rule example_tree)
  have n: "normalize_path ?p = [47, 97]" by (simp add: normalize_path_def norm_step_def starts_with_slash_def)
  have "components ?p = [[97], DOTDOT, [97]]" by (simp add: components_def)
  then have l: "lookup_path ?fs (root_inode ?fs) ?p d = Some (Some (inode_at ?fs k))"
    unfolding lookup_walk [OF t(3)] using t(6-8) by (simp add: ends_ok_def)
  have "inode_at ?fs k \<noteq> root_inode ?fs"
  proof
    assume "inode_at ?fs k = root_inode ?fs"
    then have "is_root ?fs (inode_at ?fs k)" using t(2) by (simp add: tree_ok_def)
    with t(1,4,5) show False by (simp add: is_root_0)
  qed
  with normalize_keeps_target [OF t(2,3) l] t(2) l n show ?thesis by (intro exI [of _ ?fs] exI [of _ d] exI [of _ "inode_at ?fs k"]) simp
qed

text \<open>C29: moving a directory. The loop that looks for the moved directory among the ancestors of its new
  parent always ends, and answers yes exactly if the moved directory is one of the nodes on the way
  from the root to the new parent; then nothing is moved.\<close>

theorem cycle_search_exact:
  assumes "tree_ok (fs, d)" "vfs_is_dir (root_inode fs) d = Some True"
    "lookup_path fs (root_inode fs) path d = Some (Some n)" "vfs_is_dir n d = Some True"
  shows "is_ancestor fs k d n = Some (on_path (fs, d) (normalized path) k)
    \<and> (vfs_find fs old nm d = Some (Some x) \<and> vfs_is_dir x d = Some True \<and> on_path (fs, d) (normalized path) (inode_number_of fs x)
        \<longrightarrow> move_entry fs old nm n new_name d = Some (- 1, d))"
proof -
  have "lookup_path fs (root_inode fs) (normalize_path path) d = Some (Some n)"
    using assms lookup_normalized by (simp add: lookup_walk)
  then have "walk_from (enter (fs, d)) (root_inode fs) (normalized path) = Some n"
    using assms(2) by (simp add: lookup_walk components_normalize)
  from is_ancestor_walk [OF assms(1) normalized_normal this assms(4)] show ?thesis by (simp add: move_entry_def)
qed

theorem cycle_search_exact_witness:
  "\<exists>fs d n k j. tree_ok (fs, d) \<and> lookup_path fs (root_inode fs) [47, 97] d = Some (Some n) \<and> is_ancestor fs k d n = Some True
     \<and> is_ancestor fs j d n = Some False \<and> move_entry fs (root_inode fs) [97] n [98] d = Some (- 1, d)"
proof -
  let ?fs = "created_fs 2000 1" let ?r = "root_inode ?fs"
  obtain d k where t: "meta_ok ?fs" "tree_ok (?fs, d)" "vfs_is_dir ?r d = Some True" "k \<noteq> 0" "valid_id ?fs k"
    "vfs_is_dir (inode_at ?fs k) d = Some True" "enter (?fs, d) ?r [97] = Some (inode_at ?fs k)"
    "enter (?fs, d) (inode_at ?fs k) DOTDOT = Some ?r" "dir_inv ?fs ?r d" "listing ?r d = [([97], k)]"
    by (rule example_tree)
  have l: "lookup_path ?fs ?r [47, 97] d = Some (Some (inode_at ?fs k))"
    unfolding lookup_walk [OF t(3)] using t(7) by (simp add: components_def ends_ok_def)
  have w: "walk_from (enter (?fs, d)) ?r [[97]] = Some (inode_at ?fs k)" using t(7) by simp
  have n0: "inode_number_of ?fs ?r = 0" using t(2) by (simp add: tree_ok_def is_root_def)
  have nm: "normalized [47, 97] = [[97]]" by (simp add: normalized_def components_def norm_step_def)
  have p: "on_path (?fs, d) [[97]] j \<longleftrightarrow> j = 0 \<or> j = k" for j
    using on_path_snoc [of ?fs d "[]" "[97]", unfolded append_Nil, OF w] inode_number_inode_at [OF t(1,5)] n0 by (auto simp: on_path_Nil)
  have f: "vfs_find ?fs ?r [97] d = Some (Some (inode_at ?fs k))"
    using read_node [OF t(9)] find_ok [OF t(9)] t(10) by (simp add: vfs_find_def)
  note c = cycle_search_exact [OF t(2,3) l t(6), unfolded nm p]
  have "is_ancestor ?fs k d (inode_at ?fs k) = Some True" "is_ancestor ?fs (k + 1) d (inode_at ?fs k) = Some False"
    using c by auto
  moreover have "move_entry ?fs ?r [97] (inode_at ?fs k) [98] d = Some (- 1, d)"
    using c f t(6) inode_number_inode_at [OF t(1,5)] by blast
  ultimately show ?thesis using t(2) l by blast
qed

text \<open>C30: reading an open file. A read into any user buffer returns the next bytes of the file, as many
  as fit, in the order of the slices of the buffer and leaves the rest of the buffer alone; reading
  everything ends and returns the file from the offset to its end.\<close>

theorem open_file_reads_on:
  assumes "inode_inv fs (os_ino f) d" "list_all (\<lambda>s. s \<noteq> []) bufs" "unat (os_offset f) + length (concat bufs) < 2 ^ 63"
    "n = min (length (concat bufs)) (length (contents (os_ino f) d) - unat (os_offset f))"
  shows "(\<exists>bufs'. os_read f bufs d = Some (n, bufs', f\<lparr>os_offset := os_offset f + of_nat n\<rparr>) \<and> map length bufs' = map length bufs
      \<and> concat bufs' = take n (drop (unat (os_offset f)) (contents (os_ino f) d)) @ drop n (concat bufs))
    \<and> read_all f d = Some (drop (unat (os_offset f)) (contents (os_ino f) d),
        f\<lparr>os_offset := max (os_offset f) (of_nat (length (contents (os_ino f) d)))\<rparr>)"
  using read_slices_ok [OF assms] read_all_from_ok [OF assms(1), of "os_offset f" "replicate 512 0" "[]"] assms(3)
  by (auto simp: os_read_def read_all_def)

theorem open_file_reads_on_witness:
  "\<exists>ino d bufs. length (contents ino d) = 32
     \<and> os_read \<lparr>os_readable = True, os_writable = False, os_offset = 30, os_ino = ino\<rparr> [[1], [2, 3]] d
         = Some (2, bufs, \<lparr>os_readable = True, os_writable = False, os_offset = 32, os_ino = ino\<rparr>)
     \<and> concat bufs = drop 30 (contents ino d) @ [3]"
proof -
  let ?fs = "created_fs 2000 1" let ?r = "root_inode ?fs"
  let ?f = "\<lparr>os_readable = True, os_writable = False, os_offset = 30, os_ino = ?r\<rparr>"
  obtain d k where t: "dir_inv ?fs ?r d" "listing ?r d = [([97], k)]" by (rule example_tree) blast
  have i: "inode_inv ?fs ?r d" using t(1) by (simp add: dir_inv_def)
  have "length (entries (node ?r d, d)) = 1" using arg_cong [OF t(2), of length] by (simp add: listing_def alist_of_def del: length_entries)
  then have "i_size (node ?r d) div 32 = 1" by (simp add: file_count_def DIRENT_SZ_def)
  moreover have "i_size (node ?r d) mod 32 = 0" using t(1) by (simp add: dir_inv_def)
  ultimately have len: "length (contents ?r d) = 32" using div_mod_decomp [of "i_size (node ?r d)" 32] by (simp add: contents_def)
  have h: "inode_inv ?fs (os_ino ?f) d" "list_all (\<lambda>s. s \<noteq> []) [[1], [2, 3] :: bytes]"
    "unat (os_offset ?f) + length (concat [[1], [2, 3] :: bytes]) < 2 ^ 63"
    "2 = min (length (concat [[1], [2, 3] :: bytes])) (length (contents (os_ino ?f) d) - unat (os_offset ?f))"
    using i len by simp_all
  from open_file_reads_on [OF h] obtain bufs where
    "os_read ?f [[1], [2, 3]] d = Some (2, bufs, ?f\<lparr>os_offset := os_offset ?f + of_nat 2\<rparr>)"
    "concat bufs = take 2 (drop (unat (os_offset ?f)) (contents (os_ino ?f) d)) @ drop 2 (concat [[1], [2, 3]])" by blast
  with len show ?thesis by (intro exI [of _ ?r] exI [of _ d] exI [of _ bufs]) simp
qed

end
