(* ===== verification/Sys.thy ===== *)
theory Sys
  imports Pipe Tty Utf8 Net Paths
begin

section \<open>The state the system calls work on\<close>

text \<open>
  The state of the whole kernel as the system calls see it: the process state, the open file objects
  and inode handles by their addresses, the ring buffers of pipes, the file system and its disk, the
  terminal, the bytes printed so far, the socket and port tables and the frames sent so far. Addresses of
  new objects are arguments of the calls. The second half reads and writes user memory.
\<close>

datatype file_obj = Stdin | Stdout | Inode os_inode | Pipe pipe_end usize | Udp udp_file | Tcp tcp_file | PortFd nat

record sys =
  kern :: kernel
  files :: "file_ref \<Rightarrow> file_obj"
  inodes :: "usize \<Rightarrow> inode"
  rings :: "usize \<Rightarrow> pipe_ring_buffer"
  efs :: easy_file_system
  store :: disk
  TTY :: tty
  console :: bytes
  sockets :: socket_table
  ports :: listen_table
  sent :: "bytes list"

definition cur_pcb :: "sys \<Rightarrow> (process \<times> pcb) outcome" where
  "cur_pcb s = do { p \<leftarrow> current_process (kern s); Some (p, pcbs (kern s) p) }"

definition put_pcb :: "process \<Rightarrow> (pcb \<Rightarrow> pcb) \<Rightarrow> sys \<Rightarrow> sys" where
  "put_pcb p f s = s\<lparr>kern := modify_pcb p f (kern s)\<rparr>"

definition put_mem :: "kmem \<Rightarrow> sys \<Rightarrow> sys" where
  "put_mem m s = s\<lparr>kern := (kern s)\<lparr>mem := m\<rparr>\<rparr>"

subsection \<open>User memory\<close>

text \<open>\<^verbatim>\<open>translated_str\<close> appends each byte as a character, so bytes from 128 on take two bytes.\<close>

definition utf8_of_byte :: "u8 \<Rightarrow> bytes" where
  "utf8_of_byte c = (if c < 0x80 then [c] else [0xC0 OR drop_bit 6 c, 0x80 OR (c AND 0x3F)])"

definition user_str :: "usize \<Rightarrow> sys \<Rightarrow> bytes outcome" where
  "user_str ptr s = do {
     token \<leftarrow> current_user_token (kern s);
     cs \<leftarrow> translated_str (mem (kern s)) token ptr;
     Some (concat (map utf8_of_byte cs))
   }"

text \<open>The bytes of a user buffer in the order of its slices, as positions in physical pages.\<close>

definition buffer_cells :: "slice list \<Rightarrow> (phys_page_num \<times> nat) list" where
  "buffer_cells ss = concat (map (\<lambda>(p, lo, hi). map (Pair p) [lo..<hi]) ss)"

definition get_cell :: "kmem \<Rightarrow> phys_page_num \<times> nat \<Rightarrow> u8" where
  "get_cell m c = (case c of (p, i) \<Rightarrow> ucast (drop_bit (8 * (i mod 8)) (phys m p (i div 8))))"

definition slice_bytes :: "kmem \<Rightarrow> slice \<Rightarrow> bytes" where
  "slice_bytes m sl = map (get_cell m) (buffer_cells [sl])"

fun put_cells :: "kmem \<Rightarrow> (phys_page_num \<times> nat) list \<Rightarrow> bytes \<Rightarrow> kmem" where
  "put_cells m ((p, i) # cs) (b # bs) = put_cells (m\<lparr>phys := (phys m)(p := set_byte (phys m p) i b)\<rparr>) cs bs"
| "put_cells m cs bs = m"

definition ensure_private :: "usize \<Rightarrow> usize \<Rightarrow> sys \<Rightarrow> (bool \<times> sys) outcome" where
  "ensure_private buf len s = do {
     (p, b) \<leftarrow> cur_pcb s;
     (ok, ms, m) \<leftarrow> ensure_private_range (mem (kern s)) (pcb_memory_set b) (virt_addr_from buf) len;
     Some (ok, put_pcb p (\<lambda>b. b\<lparr>pcb_memory_set := ms\<rparr>) (put_mem m s))
   }"

definition user_slices :: "usize \<Rightarrow> usize \<Rightarrow> sys \<Rightarrow> slice list outcome" where
  "user_slices buf len s = do {
     token \<leftarrow> current_user_token (kern s);
     translated_byte_buffer (mem (kern s)) token buf len
   }"

subsection \<open>Descriptors of a process\<close>

text \<open>\<^verbatim>\<open>alloc_fd\<close> followed by the assignment to the slot.\<close>

definition install_file :: "file_ref \<Rightarrow> pcb \<Rightarrow> (nat \<times> pcb) outcome" where
  "install_file r b = (let (fd, b) = alloc_fd b in do {
     fds \<leftarrow> upd (fd_table b) fd (Some r);
     Some (fd, b\<lparr>fd_table := fds\<rparr>)
   })"

end
