(* ===== verification/NetFiles.thy ===== *)
theory NetFiles
  imports Sys
begin

section \<open>Network files\<close>

text \<open>
  os/src/net/mod.rs, udp.rs, tcp.rs, the connections of port_table.rs and os/src/syscall/net.rs. The
  kernel does not take interrupts from the network device: a read of an empty socket and a call of
  accept receive one frame after the other until there is data or a connection. What the device
  answers to each receive is an argument, with the address at which a file opened for the frame is
  allocated; running out of answers means that the call still polls.
\<close>

text \<open>
  The answer to one receive: None when it fails, else what the driver wrote into the buffer and
  the length it reports. The frame is that part of the kernel's buffer of 1024 bytes.
\<close>

record arrival =
  received :: "(bytes \<times> nat) option"
  new_file :: file_ref

definition receive :: "arrival \<Rightarrow> bytes outcome" where
  "receive a = do {
     (written, len) \<leftarrow> received a;
     let recv_buf = take 1024 (written @ replicate 1024 0);
     _ \<leftarrow> ensure (len \<le> length recv_buf);
     Some (take len recv_buf)
   }"

definition transmit :: "net_crate \<Rightarrow> bytes \<Rightarrow> sys \<Rightarrow> sys outcome" where
  "transmit cr data s = do {
     _ \<leftarrow> ensure (send_ok cr (length (sent s)) data);
     Some (s\<lparr>sent := sent s @ [data]\<rparr>)
   }"

subsection \<open>Frames received\<close>

definition accept_connection :: "file_ref \<Rightarrow> tcp_packet \<Rightarrow> task \<Rightarrow> sys \<Rightarrow> sys outcome" where
  "accept_connection r p t s = (
     let proc = process_of (kern s) t in do {
       (f, tbl) \<leftarrow> tcp_new (source_ip p) (dest_port p) (source_port p) (tcp_seq p) (tcp_ack p) (sockets s);
       (fd, b) \<leftarrow> install_file r (pcbs (kern s) proc);
       let s = put_pcb proc (\<lambda>_. b) (s\<lparr>sockets := tbl, files := (files s)(r := Tcp f)\<rparr>);
       Some (put_mem (put_words (mem (kern s)) (trap_cx_of (kern s) t) 10 [of_nat fd]) s)
     })"

definition check_accept :: "file_ref \<Rightarrow> u16 \<Rightarrow> tcp_packet \<Rightarrow> sys \<Rightarrow> (bool \<times> sys) outcome" where
  "check_accept r port p s = do {
     (who, tbl) \<leftarrow> take_accepting port (ports s);
     case who of
       None \<Rightarrow> Some (False, s)
     | Some t \<Rightarrow> do { s \<leftarrow> accept_connection r p t (s\<lparr>ports := tbl\<rparr>); Some (True, s) }
   }"

text \<open>The two answers to the end of a connection.\<close>

definition fin_replies :: "net_crate \<Rightarrow> tcp_packet \<Rightarrow> bytes \<times> bytes" where
  "fin_replies cr p = (
     let reply = ack_packet cr p; end_packet = ack_packet cr reply
     in (tcp_build_data cr reply, tcp_build_data cr (end_packet\<lparr>tcp_flags := tcp_flags end_packet OR FLAG_F cr\<rparr>)))"

definition net_interrupt_handler :: "net_crate \<Rightarrow> arrival \<Rightarrow> sys \<Rightarrow> sys outcome" where
  "net_interrupt_handler cr a s = do {
     frame \<leftarrow> receive a;
     packet \<leftarrow> analysis cr frame;
     case packet of
       ARP arp_packet \<Rightarrow> do {
         reply_data \<leftarrow> arp_reply cr arp_packet (stack_ip cr) stack_mac;
         transmit cr reply_data s
       }
     | UDP p \<Rightarrow> (case get_socket (udp_source_ip p) (udp_dest_port p) (udp_source_port p) (sockets s) of
         Some i \<Rightarrow> do { tbl \<leftarrow> push_data i (udp_data p) (sockets s); Some (s\<lparr>sockets := tbl\<rparr>) }
       | None \<Rightarrow> Some s)
     | TCP p \<Rightarrow>
         if flags_contains (tcp_flags p) (FLAG_S cr) then do {
           (accepted, s) \<leftarrow> check_accept (new_file a) (dest_port p) p s;
           if accepted then transmit cr (tcp_build_data cr ((ack_packet cr p)\<lparr>tcp_flags := FLAG_S cr OR FLAG_A cr\<rparr>)) s else Some s
         }
         else if \<not> flags_contains (tcp_flags p) (FLAG_F cr) \<and> flags_contains (tcp_flags p) (FLAG_A cr) \<and> data_len p = 0
         then Some s
         else do {
           s \<leftarrow> (if flags_contains (tcp_flags p) (FLAG_F cr)
             then do { s \<leftarrow> transmit cr (fst (fin_replies cr p)) s; transmit cr (snd (fin_replies cr p)) s }
             else Some s);
           (case get_socket (source_ip p) (dest_port p) (source_port p) (sockets s) of
              Some i \<Rightarrow> do {
                tbl \<leftarrow> push_data i (tcp_data p) (sockets s);
                tbl \<leftarrow> set_s_a_by_index i (tcp_seq p) (tcp_ack p) tbl;
                Some (s\<lparr>sockets := tbl\<rparr>)
              }
            | None \<Rightarrow> Some s)
         }
     | OtherPacket \<Rightarrow> Some s
   }"

subsection \<open>Reading and writing sockets\<close>

text \<open>The loop of \<^verbatim>\<open>UDP::read\<close> and \<^verbatim>\<open>TCP::read\<close>, up to the copy; the frames not used are returned.\<close>

fun net_read :: "net_crate \<Rightarrow> nat \<Rightarrow> arrival list \<Rightarrow> sys \<Rightarrow> (bytes option \<times> arrival list \<times> sys) outcome" where
  "net_read cr index arriving s = do {
     (r, tbl) \<leftarrow> pop_data index (sockets s);
     let s = s\<lparr>sockets := tbl\<rparr>;
     case r of
       Some data \<Rightarrow> Some (Some data, arriving, s)
     | None \<Rightarrow> (case arriving of
         [] \<Rightarrow> Some (None, [], s)
       | f # fs \<Rightarrow> do { s \<leftarrow> net_interrupt_handler cr f s; net_read cr index fs s })
   }"

declare net_read.simps [simp del]

definition udp_write :: "net_crate \<Rightarrow> udp_file \<Rightarrow> bytes list \<Rightarrow> sys \<Rightarrow> (nat \<times> sys) outcome" where
  "udp_write cr f bufs s = (
     let data = concat bufs in do {
       s \<leftarrow> transmit cr (udp_build_data cr (stack_ip cr) stack_mac (udp_sport f) (udp_target f)
         [0xff, 0xff, 0xff, 0xff, 0xff, 0xff] (udp_dport f) (length data) data) s;
       Some (length data, s)
     })"

definition tcp_write :: "net_crate \<Rightarrow> tcp_file \<Rightarrow> bytes list \<Rightarrow> sys \<Rightarrow> (nat \<times> sys) outcome" where
  "tcp_write cr f bufs s = (
     let data = concat bufs in do {
       r \<leftarrow> get_s_a_by_index (tcp_index f) (sockets s);
       let (ak, sq) = (case r of None \<Rightarrow> (0, 0) | Some x \<Rightarrow> x);
       s \<leftarrow> transmit cr (tcp_build_data cr
         \<lparr>source_ip = stack_ip cr, source_mac = stack_mac, source_port = tcp_sport f, dest_ip = tcp_target f,
          dest_mac = [0xff, 0xff, 0xff, 0xff, 0xff, 0xff], dest_port = tcp_dport f, data_len = length data,
          tcp_seq = sq, tcp_ack = ak, tcp_flags = FLAG_A cr, win = 65535, urg = 0, tcp_data = data\<rparr>) s;
       Some (length data, s)
     })"

text \<open>What dropping the last reference to a file does to the tables.\<close>

definition drop_file :: "file_obj \<Rightarrow> sys \<Rightarrow> sys outcome" where
  "drop_file f s = (case f of
     Udp u \<Rightarrow> do { tbl \<leftarrow> remove_socket (udp_index u) (sockets s); Some (s\<lparr>sockets := tbl\<rparr>) }
   | Tcp t \<Rightarrow> do { tbl \<leftarrow> remove_socket (tcp_index t) (sockets s); Some (s\<lparr>sockets := tbl\<rparr>) }
   | PortFd i \<Rightarrow> do { tbl \<leftarrow> port_fd_drop i (ports s); Some (s\<lparr>ports := tbl\<rparr>) }
   | _ \<Rightarrow> Some s)"

subsection \<open>System calls\<close>

definition sys_connect :: "net_crate \<Rightarrow> file_ref \<Rightarrow> u32 \<Rightarrow> u16 \<Rightarrow> u16 \<Rightarrow> sys \<Rightarrow> (isize \<times> sys) outcome" where
  "sys_connect cr r ra lp rp s = do {
     (p, b) \<leftarrow> cur_pcb s;
     (f, tbl) \<leftarrow> udp_new (ipv4_from_u32 cr ra) lp rp (sockets s);
     (fd, b) \<leftarrow> install_file r b;
     Some (of_nat fd, put_pcb p (\<lambda>_. b) (s\<lparr>sockets := tbl, files := (files s)(r := Udp f)\<rparr>))
   }"

definition sys_listen :: "file_ref \<Rightarrow> u16 \<Rightarrow> sys \<Rightarrow> (isize \<times> sys) outcome" where
  "sys_listen r port s = (case listen port (ports s) of
     (None, tbl) \<Rightarrow> Some (- 1, s\<lparr>ports := tbl\<rparr>)
   | (Some index, tbl) \<Rightarrow> do {
       (p, b) \<leftarrow> cur_pcb s;
       (fd, b) \<leftarrow> install_file r b;
       Some (of_nat index, put_pcb p (\<lambda>_. b) (s\<lparr>ports := tbl, files := (files s)(r := PortFd index)\<rparr>))
     })"

fun accept_loop :: "net_crate \<Rightarrow> nat \<Rightarrow> arrival list \<Rightarrow> sys \<Rightarrow> (bool \<times> sys) outcome" where
  "accept_loop cr index [] s = Some (False, s)"
| "accept_loop cr index (f # fs) s = do {
     s \<leftarrow> net_interrupt_handler cr f s;
     again \<leftarrow> port_acceptable index (ports s);
     if again then accept_loop cr index fs s else Some (True, s)
   }"

text \<open>\<^verbatim>\<open>sys_accept\<close>: None inside when the frames ran out before a connection came.\<close>

definition sys_accept :: "net_crate \<Rightarrow> arrival list \<Rightarrow> usize \<Rightarrow> sys \<Rightarrow> (isize option \<times> sys) outcome" where
  "sys_accept cr arriving index s = do {
     t \<leftarrow> current_task (kern s);
     tbl \<leftarrow> accept (unat index) t (ports s);
     (fin, s) \<leftarrow> accept_loop cr (unat index) arriving (s\<lparr>ports := tbl\<rparr>);
     cx \<leftarrow> current_trap_cx (kern s);
     Some (if fin then Some (phys (mem (kern s)) cx 10) else None, s)
   }"

subsection \<open>What a frame delivers\<close>

definition delivered :: "net_crate \<Rightarrow> ipv4 \<times> u16 \<times> u16 \<Rightarrow> arrival \<Rightarrow> bytes list" where
  "delivered cr ep a = (case Option.bind (receive a) (analysis cr) of
     Some (UDP p) \<Rightarrow> if ep = (udp_source_ip p, udp_dest_port p, udp_source_port p) then [udp_data p] else []
   | Some (TCP p) \<Rightarrow>
       if flags_contains (tcp_flags p) (FLAG_S cr) then []
       else if \<not> flags_contains (tcp_flags p) (FLAG_F cr) \<and> flags_contains (tcp_flags p) (FLAG_A cr) \<and> data_len p = 0 then []
       else if ep = (source_ip p, dest_port p, source_port p) then [tcp_data p] else []
   | _ \<Rightarrow> [])"

abbreviation stream :: "net_crate \<Rightarrow> ipv4 \<times> u16 \<times> u16 \<Rightarrow> arrival list \<Rightarrow> bytes list" where
  "stream cr ep as \<equiv> concat (map (delivered cr ep) as)"

text \<open>
  What the kernel does not survive: a receive that fails or reports more than its buffer holds, a frame the
  package cannot read, an ARP packet it has no reply to, and a device that refuses a reply. \<open>n\<close> is the
  number of frames sent before.
\<close>

definition replies :: "net_crate \<Rightarrow> arrival \<Rightarrow> nat" where
  "replies cr a = (case Option.bind (receive a) (analysis cr) of
     Some (ARP _) \<Rightarrow> 1
   | Some (TCP p) \<Rightarrow> if \<not> flags_contains (tcp_flags p) (FLAG_S cr) \<and> flags_contains (tcp_flags p) (FLAG_F cr) then 2 else 0
   | _ \<Rightarrow> 0)"

definition frame_ok :: "net_crate \<Rightarrow> nat \<Rightarrow> arrival \<Rightarrow> bool" where
  "frame_ok cr n a = (case Option.bind (receive a) (analysis cr) of
     None \<Rightarrow> False
   | Some (ARP p) \<Rightarrow> (case arp_reply cr p (stack_ip cr) stack_mac of None \<Rightarrow> False | Some d \<Rightarrow> send_ok cr n d)
   | Some (TCP p) \<Rightarrow> flags_contains (tcp_flags p) (FLAG_S cr) \<or> \<not> flags_contains (tcp_flags p) (FLAG_F cr)
       \<or> send_ok cr n (fst (fin_replies cr p)) \<and> send_ok cr (n + 1) (snd (fin_replies cr p))
   | Some _ \<Rightarrow> True)"

fun frames_ok :: "net_crate \<Rightarrow> nat \<Rightarrow> arrival list \<Rightarrow> bool" where
  "frames_ok cr n [] \<longleftrightarrow> True"
| "frames_ok cr n (a # as) \<longleftrightarrow> frame_ok cr n a \<and> frames_ok cr (n + replies cr a) as"

text \<open>No thread is waiting for a connection: true outside \<^verbatim>\<open>sys_accept\<close>, which does not give up the processor.\<close>

definition idle_ports :: "sys \<Rightarrow> bool" where
  "idle_ports s \<longleftrightarrow> (\<forall>p. Some p \<in> set (ports s) \<longrightarrow> \<not> receivable p)"

lemma transmit_simps:
  "transmit cr d s = (if send_ok cr (length (sent s)) d then Some (s\<lparr>sent := sent s @ [d]\<rparr>) else None)"
  by (simp add: transmit_def)

text \<open>Delivering to the socket of an address, when there is one.\<close>

lemma deliver_udp:
  assumes "table_ok tbl" "get_socket a l r tbl = Some i"
  shows "\<exists>tbl'. push_data i d tbl = Some tbl' \<and> table_ok tbl'
    \<and> (\<forall>j ep q. queue_at tbl j ep q \<longrightarrow> queue_at tbl' j ep (q @ (if ep = (a, l, r) then [d] else [])))"
proof -
  obtain q0 where q0: "queue_at tbl i (a, l, r) q0" using get_socket_queue [OF assms(2)] by blast
  obtain tbl' where p: "push_data i d tbl = Some tbl'" by (rule push_data_ok [OF q0, of d]) blast
  have "queue_at tbl' j ep (q @ (if ep = (a, l, r) then [d] else []))" if qj: "queue_at tbl j ep q" for j ep q
  proof -
    have "j = i \<longleftrightarrow> ep = (a, l, r)"
      using qj q0 queue_found [OF assms(1), of j a l r q] assms(2) by (auto simp: queue_at_def)
    then show ?thesis using push_keeps(2) [OF assms(1) q0 p qj] by (cases "j = i") auto
  qed
  with push_keeps(1) [OF assms(1) q0 p] p show ?thesis by blast
qed

lemma deliver_tcp:
  assumes "table_ok tbl" "get_socket a l r tbl = Some i"
  shows "\<exists>tbl1 tbl'. push_data i d tbl = Some tbl1 \<and> set_s_a_by_index i sq ak tbl1 = Some tbl' \<and> table_ok tbl'
    \<and> (\<forall>j ep q. queue_at tbl j ep q \<longrightarrow> queue_at tbl' j ep (q @ (if ep = (a, l, r) then [d] else [])))"
proof -
  obtain q0 where q0: "queue_at tbl i (a, l, r) q0" using get_socket_queue [OF assms(2)] by blast
  from deliver_udp [OF assms, of d] obtain tbl1 where p: "push_data i d tbl = Some tbl1" "table_ok tbl1"
    "\<And>j ep q. queue_at tbl j ep q \<Longrightarrow> queue_at tbl1 j ep (q @ (if ep = (a, l, r) then [d] else []))" by blast
  obtain tbl' where s: "set_s_a_by_index i sq ak tbl1 = Some tbl'" by (rule set_s_a_ok [OF p(3) [OF q0], of sq ak]) blast
  with p set_s_a_keeps [OF p(2) p(3) [OF q0] s] show ?thesis by blast
qed

lemma no_socket_no_queue:
  "table_ok tbl \<Longrightarrow> get_socket a l r tbl = None \<Longrightarrow> queue_at tbl j ep q \<Longrightarrow> ep \<noteq> (a, l, r)"
  using queue_found by (metis option.distinct(1))

lemma check_accept_idle: "idle_ports s \<Longrightarrow> check_accept r port p s = Some (False, s)"
proof -
  assume i: "idle_ports s"
  have "position (accepting port) (ports s) = None"
    using i by (auto simp: idle_ports_def accepting_def split: option.splits)
  then show ?thesis by (simp add: check_accept_def take_accepting_def del: position_None)
qed

text \<open>One frame, when nobody accepts: every open socket gets what the frame has for it, unless the kernel panics.\<close>

lemma handler_panics:
  assumes "idle_ports s" "\<not> frame_ok cr (length (sent s)) a"
  shows "net_interrupt_handler cr a s = None"
  using assms(2) by (auto simp: net_interrupt_handler_def frame_ok_def transmit_simps check_accept_idle [OF assms(1)]
      split: option.splits packet.splits bind_splits)

lemma handler_delivers:
  assumes ok: "table_ok (sockets s)" and idle: "idle_ports s" and fr: "frame_ok cr (length (sent s)) a"
  obtains s' where "net_interrupt_handler cr a s = Some s'" "table_ok (sockets s')" "ports s' = ports s"
    "length (sent s') = length (sent s) + replies cr a"
    "\<And>j ep q. queue_at (sockets s) j ep q \<Longrightarrow> queue_at (sockets s') j ep (q @ delivered cr ep a)"
proof -
  from fr obtain frame pk where pk: "receive a = Some frame" "analysis cr frame = Some pk"
    by (auto simp: frame_ok_def split: option.splits bind_splits)
  note defs = net_interrupt_handler_def frame_ok_def replies_def delivered_def pk
  show ?thesis
  proof (cases pk)
    case (ARP p)
    with fr ok that show ?thesis by (auto simp: defs transmit_simps split: option.splits)
  next
    case (UDP p)
    let ?g = "get_socket (udp_source_ip p) (udp_dest_port p) (udp_source_port p) (sockets s)"
    show ?thesis
    proof (cases ?g)
      case None
      with UDP ok no_socket_no_queue [OF ok None] show ?thesis by (intro that [of s]) (auto simp: defs)
    next
      case (Some i)
      from deliver_udp [OF ok Some, of "udp_data p"] UDP Some show ?thesis
        by (auto intro!: that simp: defs)
    qed
  next
    case (TCP p)
    let ?g = "get_socket (source_ip p) (dest_port p) (source_port p) (sockets s)"
    let ?S = "flags_contains (tcp_flags p) (FLAG_S cr)" let ?F = "flags_contains (tcp_flags p) (FLAG_F cr)"
    let ?A = "\<not> ?F \<and> flags_contains (tcp_flags p) (FLAG_A cr) \<and> data_len p = 0"
    show ?thesis
    proof (cases "?S \<or> ?A")
      case True
      with TCP ok show ?thesis by (intro that [of s]) (auto simp: defs check_accept_idle [OF idle])
    next
      case False
      define s1 where "s1 = (if ?F then s\<lparr>sent := sent s @ [fst (fin_replies cr p), snd (fin_replies cr p)]\<rparr> else s)"
      have s1: "sockets s1 = sockets s" "ports s1 = ports s" "length (sent s1) = length (sent s) + replies cr a"
        using TCP False by (auto simp: s1_def replies_def pk)
      have h: "net_interrupt_handler cr a s = (case ?g of
          Some i \<Rightarrow> do { tbl \<leftarrow> push_data i (tcp_data p) (sockets s); tbl \<leftarrow> set_s_a_by_index i (tcp_seq p) (tcp_ack p) tbl; Some (s1\<lparr>sockets := tbl\<rparr>) }
        | None \<Rightarrow> Some s1)"
        using TCP False fr by (auto simp: defs transmit_simps s1_def cong: option.case_cong)
      have d: "delivered cr ep a = (if ep = (source_ip p, dest_port p, source_port p) then [tcp_data p] else [])" for ep
        using TCP False by (auto simp: defs)
      show ?thesis
      proof (cases ?g)
        case None
        then show ?thesis using h s1 ok no_socket_no_queue [OF ok None] by (intro that [of s1]) (auto simp: d)
      next
        case (Some i)
        from deliver_tcp [OF ok Some, of "tcp_data p" "tcp_seq p" "tcp_ack p"] obtain tbl1 tbl2 where
          t: "push_data i (tcp_data p) (sockets s) = Some tbl1" "set_s_a_by_index i (tcp_seq p) (tcp_ack p) tbl1 = Some tbl2" "table_ok tbl2"
            "\<And>j ep q. queue_at (sockets s) j ep q \<Longrightarrow> queue_at tbl2 j ep (q @ delivered cr ep a)"
          unfolding d by blast
        show ?thesis by (rule that [of "s1\<lparr>sockets := tbl2\<rparr>"]) (use h Some t s1 in simp_all)
      qed
    qed
  next
    case OtherPacket
    with that ok show ?thesis by (auto simp: defs)
  qed
qed

subsection \<open>Properties\<close>

text \<open>A read consumes frames up to the one that brings its data, or up to one the kernel does not survive.\<close>

definition read_fails :: "net_crate \<Rightarrow> nat \<Rightarrow> ipv4 \<times> u16 \<times> u16 \<Rightarrow> bytes list \<Rightarrow> arrival list \<Rightarrow> bool" where
  "read_fails cr n ep q as \<longleftrightarrow> (\<exists>used a rest. as = used @ a # rest \<and> q @ stream cr ep used = []
     \<and> frames_ok cr n used \<and> \<not> frames_ok cr n (used @ [a]))"

lemma read_fails_Cons: "frame_ok cr n a \<Longrightarrow> delivered cr ep a = [] \<Longrightarrow> read_fails cr (n + replies cr a) ep [] as \<Longrightarrow> read_fails cr n ep [] (a # as)"
  unfolding read_fails_def by (elim exE conjE, rule_tac x = "a # used" in exI) auto

lemma net_read_ok:
  "table_ok (sockets s) \<Longrightarrow> idle_ports s \<Longrightarrow> queue_at (sockets s) i ep q \<Longrightarrow>
    (case net_read cr i as s of
       None \<Rightarrow> read_fails cr (length (sent s)) ep q as
     | Some (r, rest, s') \<Rightarrow> \<exists>used q'. as = used @ rest \<and> frames_ok cr (length (sent s)) used
         \<and> table_ok (sockets s') \<and> idle_ports s' \<and> queue_at (sockets s') i ep q'
         \<and> (case r of Some d \<Rightarrow> q @ stream cr ep used = d # q' | None \<Rightarrow> q @ stream cr ep as = [] \<and> q' = [] \<and> rest = [])
         \<and> (\<forall>j ep' q2. j \<noteq> i \<longrightarrow> queue_at (sockets s) j ep' q2 \<longrightarrow> queue_at (sockets s') j ep' (q2 @ stream cr ep' used)))"
proof (induction as arbitrary: s q)
  case Nil
  obtain tbl' where t: "pop_data i (sockets s) = Some (if q = [] then None else Some (hd q), tbl')" "table_ok tbl'"
    "queue_at tbl' i ep (tl q)" "\<And>j ep' q'. j \<noteq> i \<Longrightarrow> queue_at (sockets s) j ep' q' \<Longrightarrow> queue_at tbl' j ep' q'"
    by (rule pop_data_keeps [OF Nil.prems(1,3)]) blast
  have "net_read cr i [] s = Some (if q = [] then None else Some (hd q), [], s\<lparr>sockets := tbl'\<rparr>)"
    using t(1) by (subst net_read.simps) (simp add: Let_def)
  then show ?case using t(2-) Nil.prems(2) by (auto simp: idle_ports_def)
next
  case (Cons a as)
  obtain tbl' where t: "pop_data i (sockets s) = Some (if q = [] then None else Some (hd q), tbl')" "table_ok tbl'"
    "queue_at tbl' i ep (tl q)" "\<And>j ep' q'. j \<noteq> i \<Longrightarrow> queue_at (sockets s) j ep' q' \<Longrightarrow> queue_at tbl' j ep' q'"
    "q = [] \<Longrightarrow> tbl' = sockets s"
    by (rule pop_data_keeps [OF Cons.prems(1,3)], rule that)
  let ?s = "s\<lparr>sockets := tbl'\<rparr>" let ?n = "length (sent s)"
  show ?case
  proof (cases "q = []")
    case False
    have "net_read cr i (a # as) s = Some (Some (hd q), a # as, ?s)"
      using t(1) False by (subst net_read.simps) (simp add: Let_def)
    then show ?thesis using t(2-4) False Cons.prems(2) 
      by (auto simp: idle_ports_def intro!: exI [of _ "[] :: arrival list"] exI [of _ "tl q"])
  next
    case True
    then have "?s = s" using t(5) by simp
    then have r: "net_read cr i (a # as) s = do { s1 \<leftarrow> net_interrupt_handler cr a s; net_read cr i as s1 }"
      using t(1) True by (subst net_read.simps) (simp add: Let_def)
    show ?thesis
    proof (cases "frame_ok cr ?n a")
      case False
      then have "read_fails cr ?n ep q (a # as)" using True by (auto simp: read_fails_def intro!: exI [of _ "[]"])
      then show ?thesis using r handler_panics [OF Cons.prems(2) False] by simp
    next
      case ok: True
      obtain s1 where s1: "net_interrupt_handler cr a s = Some s1" "table_ok (sockets s1)" "ports s1 = ports s"
        "length (sent s1) = ?n + replies cr a"
        "\<And>j ep q. queue_at (sockets s) j ep q \<Longrightarrow> queue_at (sockets s1) j ep (q @ delivered cr ep a)"
        by (rule handler_delivers [OF Cons.prems(1,2) ok], rule that)
      have "idle_ports s1" using Cons.prems(2) s1(3) by (simp add: idle_ports_def)
      note ih = Cons.IH [OF s1(2) this s1(5) [OF Cons.prems(3)]]
      have r1: "net_read cr i (a # as) s = net_read cr i as s1" using r s1(1) by simp
      show ?thesis
      proof (cases "net_read cr i as s1")
        case None
        with ih True have f: "read_fails cr (?n + replies cr a) ep (delivered cr ep a) as" by (simp add: s1(4))
        then have d: "delivered cr ep a = []" by (auto simp: read_fails_def)
        with f have "read_fails cr ?n ep q (a # as)" using read_fails_Cons [OF ok d] True by simp
        with None show ?thesis by (simp add: r1)
      next
        case (Some x)
        obtain rr rest s' where x: "x = (rr, rest, s')" by (cases x)
        from ih obtain used q' where u: "as = used @ rest" "frames_ok cr (length (sent s1)) used" "table_ok (sockets s')" "idle_ports s'"
          "queue_at (sockets s') i ep q'"
          "case rr of Some d \<Rightarrow> (q @ delivered cr ep a) @ stream cr ep used = d # q'
            | None \<Rightarrow> (q @ delivered cr ep a) @ stream cr ep as = [] \<and> q' = [] \<and> rest = []"
          "\<And>j ep' q2. j \<noteq> i \<Longrightarrow> queue_at (sockets s1) j ep' q2 \<Longrightarrow> queue_at (sockets s') j ep' (q2 @ stream cr ep' used)"
          by (auto simp: Some x)
        have "queue_at (sockets s') j ep' (q2 @ stream cr ep' (a # used))" if "j \<noteq> i" "queue_at (sockets s) j ep' q2" for j ep' q2
          using u(7) [OF that(1) s1(5) [OF that(2)]] by simp
        with u ok s1(4) show ?thesis unfolding r1 Some x
          by (auto intro!: exI [of _ "a # used"] exI [of _ q'] split: option.splits)
      qed
    qed
  qed
qed


text \<open>Two sockets, for the peers 1 and 2. A frame is the peer's address and the data.\<close>

definition example_crate :: net_crate where
  "example_crate = \<lparr>ipv4_new = (\<lambda>a b c d. 0), ipv4_from_u32 = id,
     analysis = (\<lambda>f. case f of [] \<Rightarrow> Some OtherPacket
       | b # d \<Rightarrow> Some (UDP \<lparr>udp_source_ip = ucast b, udp_source_port = 9, udp_dest_port = 7, udp_data = d\<rparr>)),
     arp_reply = (\<lambda>_ _ _. None), ack_packet = id, tcp_build_data = tcp_data, udp_build_data = (\<lambda>_ _ _ _ _ _ _ d. d),
     FLAG_S = 2, FLAG_F = 1, FLAG_A = 16, send_ok = (\<lambda>n d. n < 8)\<rparr>"

definition example_socket :: "ipv4 \<Rightarrow> socket" where
  "example_socket a = \<lparr>raddr = a, lport = 7, rport = 9, buffers = [], sock_seq = 0, sock_ack = 0\<rparr>"

definition example_frame :: "u8 \<Rightarrow> u8 \<Rightarrow> arrival" where
  "example_frame b d = \<lparr>received = Some ([b, d, 0, 0], 2), new_file = 0\<rparr>"

definition net_sys :: sys where
  "net_sys = \<lparr>kern = example_kernel, files = (\<lambda>_. Stdin), inodes = (\<lambda>_. root_inode (created_fs 2000 1)), rings = (\<lambda>_. ring_new),
     efs = created_fs 2000 1, store = (\<lambda>_ _. 0), TTY = tty_new, console = [],
     sockets = [Some (example_socket 1), Some (example_socket 2)], ports = [], sent = []\<rparr>"

lemma receive_example: "receive (example_frame b d) = Some [b, d]"
  by (simp add: receive_def example_frame_def numeral_eq_Suc)


end
