(* ===== verification/FileCalls.thy ===== *)
theory FileCalls
  imports NetFiles
begin

section \<open>System calls on files and paths\<close>

text \<open>
  os/src/syscall/fs.rs and os/src/fs/stdio.rs. A read or write of a pipe or of the terminal may suspend
  the caller, and a read of a socket polls the network device; a turn ends when the call returns or
  waits, and a waiting call goes on with the bytes that are done. Which write ends of pipes still have
  an owner is an argument of the reads, as in the model of pipes, and so are the frames the device
  delivers meanwhile.
\<close>

subsection \<open>Reading and writing descriptors\<close>

definition file_readable :: "file_obj \<Rightarrow> bool" where
  "file_readable f = (case f of Stdin \<Rightarrow> True | Stdout \<Rightarrow> False | Inode i \<Rightarrow> os_readable i | Pipe e _ \<Rightarrow> readable e
     | Udp _ \<Rightarrow> True | Tcp _ \<Rightarrow> True | PortFd _ \<Rightarrow> False)"

definition file_writable :: "file_obj \<Rightarrow> bool" where
  "file_writable f = (case f of Stdin \<Rightarrow> False | Stdout \<Rightarrow> True | Inode i \<Rightarrow> os_writable i | Pipe e _ \<Rightarrow> writable e
     | Udp _ \<Rightarrow> True | Tcp _ \<Rightarrow> True | PortFd _ \<Rightarrow> False)"

datatype call = Ret isize sys | Wait nat sys

text \<open>The copy of \<^verbatim>\<open>UDP::read\<close> and \<^verbatim>\<open>TCP::read\<close>: what does not fit into the buffer is dropped.\<close>

definition socket_read :: "net_crate \<Rightarrow> arrival list \<Rightarrow> nat \<Rightarrow> (phys_page_num \<times> nat) list \<Rightarrow> sys \<Rightarrow> call outcome" where
  "socket_read cr arriving index cells s = do {
     (r, rest, s) \<leftarrow> net_read cr index arriving s;
     Some (case r of
         None \<Rightarrow> Wait 0 s
       | Some data \<Rightarrow> Ret (of_nat (min (length cells) (length data))) (put_mem (put_cells (mem (kern s)) cells data) s))
   }"

text \<open>\<^verbatim>\<open>File::read\<close> of every kind of file, from the point where \<open>fin\<close> bytes have been delivered.\<close>

definition file_read :: "net_crate \<Rightarrow> arrival list \<Rightarrow> nat set \<Rightarrow> slice list \<Rightarrow> nat \<Rightarrow> file_ref \<Rightarrow> sys \<Rightarrow> call outcome" where
  "file_read cr arriving live bufs fin r s = (
     let cells = drop fin (buffer_cells bufs); m = mem (kern s) in
     case files s r of
       Stdin \<Rightarrow> do {
         t \<leftarrow> tty_read (length cells) (TTY s) (kern s);
         case t of
           Got bs (tty, k) \<Rightarrow>
             Some (Ret (of_nat (length bs)) (put_mem (put_cells m cells bs) (s\<lparr>TTY := tty, kern := k\<rparr>)))
         | Waits (tty, k) \<Rightarrow> Some (Wait fin (s\<lparr>TTY := tty, kern := k\<rparr>))
       }
     | Stdout \<Rightarrow> None
     | Inode f \<Rightarrow> do {
         (n, bufs', f') \<leftarrow> os_read f (map (slice_bytes m) bufs) (store s);
         Some (Ret (of_nat n) (put_mem (put_cells m cells (concat bufs')) (s\<lparr>files := (files s)(r := Inode f')\<rparr>)))
       }
     | Pipe e ring \<Rightarrow> do {
         (t, rb, got) \<leftarrow> pipe_read live e (rings s ring) (length cells);
         let s = put_mem (put_cells m cells got) (s\<lparr>rings := (rings s)(ring := rb)\<rparr>);
         Some (case t of Returned \<Rightarrow> Ret (of_nat (fin + length got)) s | Suspended \<Rightarrow> Wait (fin + length got) s)
       }
     | Udp u \<Rightarrow> socket_read cr arriving (udp_index u) cells s
     | Tcp t \<Rightarrow> socket_read cr arriving (tcp_index t) cells s
     | PortFd _ \<Rightarrow> Some (Ret 0 s))"

definition file_write :: "net_crate \<Rightarrow> slice list \<Rightarrow> nat \<Rightarrow> file_ref \<Rightarrow> sys \<Rightarrow> call outcome" where
  "file_write cr bufs fin r s = (
     let cells = drop fin (buffer_cells bufs); m = mem (kern s) in
     case files s r of
       Stdin \<Rightarrow> None
     | Stdout \<Rightarrow> do {
         out \<leftarrow> print_slices (map (slice_bytes m) bufs);
         Some (Ret (of_nat (user_buffer_len bufs)) (s\<lparr>console := console s @ out\<rparr>))
       }
     | Inode f \<Rightarrow> do {
         (n, f', d) \<leftarrow> os_write (efs s) f (map (slice_bytes m) bufs) (store s);
         Some (Ret (of_nat n) (s\<lparr>files := (files s)(r := Inode f'), store := d\<rparr>))
       }
     | Pipe e ring \<Rightarrow> do {
         (t, rb, rest) \<leftarrow> pipe_write e (rings s ring) (map (get_cell m) cells);
         let s = s\<lparr>rings := (rings s)(ring := rb)\<rparr>;
         let n = fin + (length cells - length rest);
         Some (case t of Returned \<Rightarrow> Ret (of_nat n) s | Suspended \<Rightarrow> Wait n s)
       }
     | Udp u \<Rightarrow> do { (n, s) \<leftarrow> udp_write cr u (map (slice_bytes m) bufs) s; Some (Ret (of_nat n) s) }
     | Tcp t \<Rightarrow> do { (n, s) \<leftarrow> tcp_write cr t (map (slice_bytes m) bufs) s; Some (Ret (of_nat n) s) }
     | PortFd _ \<Rightarrow> Some (Ret 0 s))"

definition fd_file :: "usize \<Rightarrow> pcb \<Rightarrow> file_ref option" where
  "fd_file fd b = (if unat fd < length (fd_table b) then fd_table b ! unat fd else None)"

definition sys_write :: "net_crate \<Rightarrow> usize \<Rightarrow> usize \<Rightarrow> usize \<Rightarrow> sys \<Rightarrow> call outcome" where
  "sys_write cr fd buf len s = do {
     (p, b) \<leftarrow> cur_pcb s;
     case fd_file fd b of
       None \<Rightarrow> Some (Ret (- 1) s)
     | Some r \<Rightarrow>
         if \<not> file_writable (files s r) then Some (Ret (- 1) s)
         else do { bufs \<leftarrow> user_slices buf len s; file_write cr bufs 0 r s }
   }"

definition sys_read :: "net_crate \<Rightarrow> arrival list \<Rightarrow> nat set \<Rightarrow> usize \<Rightarrow> usize \<Rightarrow> usize \<Rightarrow> sys \<Rightarrow> call outcome" where
  "sys_read cr arriving live fd buf len s = do {
     (p, b) \<leftarrow> cur_pcb s;
     case fd_file fd b of
       None \<Rightarrow> Some (Ret (- 1) s)
     | Some r \<Rightarrow>
         if \<not> file_readable (files s r) then Some (Ret (- 1) s)
         else do {
           (ok, s) \<leftarrow> ensure_private buf len s;
           if \<not> ok then Some (Ret (- 1) s)
           else do { bufs \<leftarrow> user_slices buf len s; file_read cr arriving live bufs 0 r s }
         }
   }"

subsection \<open>Descriptors\<close>

definition resolve_root :: "bytes \<Rightarrow> sys \<Rightarrow> inode outcome" where
  "resolve_root path s =
     (if starts_with_slash path then Some (root_inode (efs s))
      else do { (p, b) \<leftarrow> cur_pcb s; Some (inodes s (working_directory b)) })"

definition sys_open :: "file_ref \<Rightarrow> usize \<Rightarrow> u32 \<Rightarrow> sys \<Rightarrow> (isize \<times> sys) outcome" where
  "sys_open r ptr flags s = do {
     (p, b) \<leftarrow> cur_pcb s;
     path \<leftarrow> user_str ptr s;
     flags \<leftarrow> open_flags_from_bits flags;
     root \<leftarrow> resolve_root path s;
     (f, d) \<leftarrow> open_file_at (efs s) root path flags (store s);
     let s = s\<lparr>store := d\<rparr>;
     case f of
       None \<Rightarrow> Some (- 1, s)
     | Some f \<Rightarrow> do {
         (fd, b) \<leftarrow> install_file r b;
         Some (of_nat fd, put_pcb p (\<lambda>_. b) (s\<lparr>files := (files s)(r := Inode f)\<rparr>))
       }
   }"

text \<open>Whether the descriptor held the last reference to its file is an argument.\<close>

definition sys_close :: "bool \<Rightarrow> usize \<Rightarrow> sys \<Rightarrow> (isize \<times> sys) outcome" where
  "sys_close last_ref fd s = do {
     (p, b) \<leftarrow> cur_pcb s;
     case fd_file fd b of
       None \<Rightarrow> Some (- 1, s)
     | Some r \<Rightarrow> do {
         let s = put_pcb p (\<lambda>b. b\<lparr>fd_table := (fd_table b)[unat fd := None]\<rparr>) s;
         s \<leftarrow> (if last_ref then drop_file (files s r) s else Some s);
         Some (0, s)
       }
   }"

definition sys_pipe :: "file_ref \<Rightarrow> file_ref \<Rightarrow> usize \<Rightarrow> usize \<Rightarrow> sys \<Rightarrow> (isize \<times> sys) outcome" where
  "sys_pipe r w ring ptr s = do {
     (ok, s) \<leftarrow> ensure_private ptr 16 s;
     if \<not> ok then Some (- 1, s)
     else do {
       token \<leftarrow> current_user_token (kern s);
       let (pipe_read, pipe_write, rb) = make_pipe (unat w);
       (p, b) \<leftarrow> cur_pcb s;
       (read_fd, b) \<leftarrow> install_file r b;
       (write_fd, b) \<leftarrow> install_file w b;
       let s = put_pcb p (\<lambda>_. b) (s\<lparr>rings := (rings s)(ring := rb),
         files := (files s)(r := Pipe pipe_read ring, w := Pipe pipe_write ring)\<rparr>);
       pa \<leftarrow> translated_refmut (mem (kern s)) token ptr;
       let s = put_mem (put_phys_bytes (mem (kern s)) (pa_val pa) (le_bytes (of_nat read_fd))) s;
       pa \<leftarrow> translated_refmut (mem (kern s)) token (ptr + 8);
       Some (0, put_mem (put_phys_bytes (mem (kern s)) (pa_val pa) (le_bytes (of_nat write_fd))) s)
     }
   }"

definition sys_dup :: "usize \<Rightarrow> sys \<Rightarrow> (isize \<times> sys) outcome" where
  "sys_dup fd s = do {
     (p, b) \<leftarrow> cur_pcb s;
     case fd_file fd b of
       None \<Rightarrow> Some (- 1, s)
     | Some r \<Rightarrow> do {
         (new_fd, b) \<leftarrow> install_file r b;
         Some (of_nat new_fd, put_pcb p (\<lambda>_. b) s)
       }
   }"

subsection \<open>Directories and paths\<close>

definition sys_mkdir :: "usize \<Rightarrow> sys \<Rightarrow> (isize \<times> sys) outcome" where
  "sys_mkdir ptr s = do {
     path \<leftarrow> user_str ptr s;
     root \<leftarrow> resolve_root path s;
     (v, d) \<leftarrow> make_directory_at (efs s) root path (store s);
     Some (v, s\<lparr>store := d\<rparr>)
   }"

definition sys_unlink :: "usize \<Rightarrow> sys \<Rightarrow> (isize \<times> sys) outcome" where
  "sys_unlink ptr s = do {
     path \<leftarrow> user_str ptr s;
     root \<leftarrow> resolve_root path s;
     (v, d) \<leftarrow> unlink_at (efs s) root path (store s);
     Some (v, s\<lparr>store := d\<rparr>)
   }"

definition sys_rename :: "usize \<Rightarrow> usize \<Rightarrow> sys \<Rightarrow> (isize \<times> sys) outcome" where
  "sys_rename old_ptr new_ptr s = do {
     old_path \<leftarrow> user_str old_ptr s;
     new_path \<leftarrow> user_str new_ptr s;
     (p, b) \<leftarrow> cur_pcb s;
     (v, d) \<leftarrow> rename_at (efs s) (inodes s (working_directory b)) old_path new_path (store s);
     Some (v, s\<lparr>store := d\<rparr>)
   }"

text \<open>The new path of the working directory, before it is normalised.\<close>

definition chdir_path :: "bytes \<Rightarrow> bytes \<Rightarrow> bytes" where
  "chdir_path old_path path =
     (if starts_with_slash path then
        let trimmed = rev (dropWhile (\<lambda>b. b = SLASH) (rev (dropWhile (\<lambda>b. b = SLASH) path))) in
        if trimmed = [] then [SLASH] else SLASH # trimmed
      else if path = DOT then old_path
      else if path = DOTDOT then
        if old_path = [SLASH] then [SLASH]
        else (case rfind SLASH old_path of
            Some pos \<Rightarrow> if pos = 0 then [SLASH] else take pos old_path
          | None \<Rightarrow> [SLASH])
      else if old_path = [SLASH] then SLASH # path
      else old_path @ SLASH # path)"

definition sys_chdir :: "usize \<Rightarrow> usize \<Rightarrow> sys \<Rightarrow> (isize \<times> sys) outcome" where
  "sys_chdir addr ptr s = do {
     path \<leftarrow> user_str ptr s;
     (p, b) \<leftarrow> cur_pcb s;
     root \<leftarrow> resolve_root path s;
     r \<leftarrow> lookup_path_from (efs s) root path (store s);
     case r of
       None \<Rightarrow> Some (- 1, s)
     | Some new_inode \<Rightarrow> do {
         dir \<leftarrow> vfs_is_dir new_inode (store s);
         if \<not> dir then Some (- 1, s)
         else
           let new_path = chdir_path (working_directory_path b) path in
           Some (0, put_pcb p (\<lambda>b. set_working_directory_path (normalize_path new_path) (set_working_directory addr b))
             (s\<lparr>inodes := (inodes s)(addr := new_inode)\<rparr>))
       }
   }"

text \<open>Copying kernel bytes out to a user buffer.\<close>

definition copy_to_user :: "usize \<Rightarrow> usize \<Rightarrow> bytes \<Rightarrow> sys \<Rightarrow> (isize \<times> sys) outcome" where
  "copy_to_user buf len bs s = (
     let write_len = min (length bs) (unat len) in do {
       (ok, s) \<leftarrow> ensure_private buf (of_nat write_len) s;
       if \<not> ok then Some (- 1, s)
       else do {
         bufs \<leftarrow> user_slices buf (of_nat write_len) s;
         Some (of_nat write_len, put_mem (put_cells (mem (kern s)) (buffer_cells bufs) (take write_len bs)) s)
       }
     })"

definition sys_getcwd :: "usize \<Rightarrow> usize \<Rightarrow> sys \<Rightarrow> (isize \<times> sys) outcome" where
  "sys_getcwd buf len s = do { (p, b) \<leftarrow> cur_pcb s; copy_to_user buf len (working_directory_path b) s }"

definition sys_getpath :: "usize \<Rightarrow> usize \<Rightarrow> sys \<Rightarrow> (isize \<times> sys) outcome" where
  "sys_getpath buf len s = do { (p, b) \<leftarrow> cur_pcb s; copy_to_user buf len (path_variable b) s }"

definition sys_setpath :: "usize \<Rightarrow> sys \<Rightarrow> (isize \<times> sys) outcome" where
  "sys_setpath ptr s = do {
     path \<leftarrow> user_str ptr s;
     (p, b) \<leftarrow> cur_pcb s;
     Some (0, put_pcb p (set_path_variable path) s)
   }"

text \<open>The decimal digits of a number.\<close>

fun decimal :: "nat \<Rightarrow> bytes" where
  "decimal n = (if n < 10 then [of_nat (48 + n)] else decimal (n div 10) @ [of_nat (48 + n mod 10)])"

declare decimal.simps [simp del]

fun list_entries :: "easy_file_system \<Rightarrow> disk \<Rightarrow> inode \<Rightarrow> bytes list \<Rightarrow> bytes outcome" where
  "list_entries fs d dir [] = Some []"
| "list_entries fs d dir (nm # nms) = do {
     r \<leftarrow> vfs_find fs dir nm d;
     t \<leftarrow> (case r of
         Some ino \<Rightarrow> do { b \<leftarrow> vfs_is_dir ino d; Some (if b then [100, 32] else [102, 32]) }
       | None \<Rightarrow> Some [63, 32]);
     rest \<leftarrow> list_entries fs d dir nms;
     Some (t @ nm @ [10] @ rest)
   }"

definition sys_getdents :: "usize \<Rightarrow> usize \<Rightarrow> usize \<Rightarrow> sys \<Rightarrow> (isize \<times> sys) outcome" where
  "sys_getdents ptr buf len s = do {
     path \<leftarrow> user_str ptr s;
     root \<leftarrow> resolve_root path s;
     r \<leftarrow> (if path = [] \<or> path = [SLASH] then Some (Some root) else lookup_path_from (efs s) root path (store s));
     case r of
       None \<Rightarrow> Some (- 1, s)
     | Some dir \<Rightarrow> do {
         b \<leftarrow> vfs_is_dir dir (store s);
         if \<not> b then Some (- 1, s)
         else do {
           nms \<leftarrow> vfs_ls dir (store s);
           body \<leftarrow> list_entries (efs s) (store s) dir nms;
           copy_to_user buf len ([116, 111, 116, 97, 108, 32] @ decimal (length nms) @ [10] @ body) s
         }
       }
   }"

definition sys_lseek :: isize where
  "sys_lseek = - 1"

fun list_apps_loop :: "usize \<Rightarrow> usize \<Rightarrow> usize \<Rightarrow> nat \<Rightarrow> bytes list \<Rightarrow> kmem \<Rightarrow> (nat \<times> kmem) outcome" where
  "list_apps_loop token buf len written [] m = Some (written, m)"
| "list_apps_loop token buf len written (nm # nms) m = (
     let data = nm @ [0] in
     if unat len < written + length data then Some (written, m)
     else do {
       bufs \<leftarrow> translated_byte_buffer m token (buf + of_nat written) (of_nat (length data));
       list_apps_loop token buf len (written + length data) nms (put_cells m (buffer_cells bufs) data)
     })"

definition sys_list_apps :: "usize \<Rightarrow> usize \<Rightarrow> sys \<Rightarrow> (isize \<times> sys) outcome" where
  "sys_list_apps buf len s = do {
     token \<leftarrow> current_user_token (kern s);
     nms \<leftarrow> list_app_names (efs s) (store s);
     (written, m) \<leftarrow> list_apps_loop token buf len 0 nms (mem (kern s));
     Some (of_nat written, put_mem m s)
   }"

subsection \<open>The working directory and its path\<close>

text \<open>The recorded path is absolute and normal, and leads to the recorded directory.\<close>

definition cwd_ok :: "sys \<Rightarrow> process \<Rightarrow> bool" where
  "cwd_ok s p \<longleftrightarrow> (let b = pcbs (kern s) p; path = working_directory_path b; dir = inodes s (working_directory b) in
     starts_with_slash path \<and> normalize_path path = path \<and> vfs_is_dir dir (store s) = Some True
     \<and> lookup_path (efs s) (root_inode (efs s)) path (store s) = Some (Some dir))"

lemma components_trim_end: "components (rev (dropWhile (\<lambda>b. b = SLASH) (rev p))) = components p"
proof (induction p rule: rev_induct)
  case (snoc b p)
  then show ?case using components_append [of p "[]"] by simp
qed simp

lemma join_snoc: "cs \<noteq> [] \<Longrightarrow> join_slash (cs @ [c]) = join_slash cs @ SLASH # c"
  by (induction cs rule: join_slash.induct) auto

lemma rfind_last: "c \<notin> set b \<Longrightarrow> rfind c (a @ c # b) = Some (length a)"
proof -
  have "c \<notin> set b \<Longrightarrow> position (\<lambda>x. x = c) (rev b @ c # as) = Some (length b)" for b as
    by (induction b rule: rev_induct) auto
  from this [of b "rev a"] show "c \<notin> set b \<Longrightarrow> rfind c (a @ c # b) = Some (length a)" by (simp add: rfind_def)
qed

text \<open>An absolute path in normal form.\<close>

lemma normal_path_cases:
  assumes "starts_with_slash path" "normalize_path path = path"
  obtains "path = [SLASH]" | cs c where "normal (cs @ [c])" "path = (if cs = [] then [] else SLASH # join_slash cs) @ SLASH # c"
proof (cases "normalized path" rule: rev_cases)
  case Nil
  then have "path = [SLASH]" using assms(2) by (simp add: normalize_path_eq)
  then show ?thesis by (rule that(1))
next
  case (snoc cs c)
  then have "path = SLASH # join_slash (cs @ [c])" using assms by (simp add: normalize_path_eq)
  then have "path = (if cs = [] then [] else SLASH # join_slash cs) @ SLASH # c" by (simp add: join_snoc)
  moreover have "normal (cs @ [c])" using normalized_normal [of path] snoc by simp
  ultimately show ?thesis by (rule that(2) [rotated])
qed

lemma chdir_up:
  assumes "starts_with_slash path" "normalize_path path = path"
  shows "starts_with_slash (chdir_path path DOTDOT)" "components (chdir_path path DOTDOT) = butlast (components path)"
proof -
  have "starts_with_slash (chdir_path path DOTDOT) \<and> components (chdir_path path DOTDOT) = butlast (components path)"
    using assms
  proof (cases rule: normal_path_cases)
    case 1
    then show ?thesis by (simp add: chdir_path_def starts_with_slash_def)
  next
    case (2 cs c)
    let ?a = "if cs = [] then [] else SLASH # join_slash cs"
    have c: "c \<noteq> []" "SLASH \<notin> set c" "normal cs" using 2(1) by (auto simp: reserved_def)
    have "components path = components ?a @ components c" unfolding 2(2) by (rule components_append)
    moreover have "components c = [c]" using c by (simp add: components_def split_slash_free)
    moreover have "components ?a = cs" using c(3) by (simp add: components_join)
    moreover have "path \<noteq> [SLASH]" "rfind SLASH path = Some (length ?a)" unfolding 2(2) using c rfind_last [of SLASH c ?a] by auto
    moreover have "take (length ?a) path = ?a" unfolding 2(2) by simp
    ultimately show ?thesis by (simp add: chdir_path_def starts_with_slash_def)
  qed
  then show "starts_with_slash (chdir_path path DOTDOT)" "components (chdir_path path DOTDOT) = butlast (components path)" by auto
qed

lemma chdir_path_abs: "starts_with_slash path \<Longrightarrow> starts_with_slash (chdir_path old path) \<and> components (chdir_path old path) = components path"
proof -
  assume p: "starts_with_slash path"
  define t where "t = rev (dropWhile (\<lambda>b. b = SLASH) (rev (dropWhile (\<lambda>b. b = SLASH) path)))"
  have t: "components t = components path" unfolding t_def by (simp only: components_trim_end components_dropWhile)
  have "chdir_path old path = (if t = [] then [SLASH] else SLASH # t)" unfolding chdir_path_def if_P [OF p] Let_def t_def ..
  with t show ?thesis by (auto simp: starts_with_slash_def)
qed

lemma chdir_path_rel:
  assumes "starts_with_slash old" "\<not> starts_with_slash path" "path \<noteq> DOTDOT" "path \<noteq> DOT"
  shows "starts_with_slash (chdir_path old path)" "components (chdir_path old path) = components old @ components path"
proof -
  have e: "chdir_path old path = (if old = [SLASH] then SLASH # path else old @ SLASH # path)"
    using assms(2-4) by (simp add: chdir_path_def)
  show "components (chdir_path old path) = components old @ components path" unfolding e by (simp add: components_append)
  show "starts_with_slash (chdir_path old path)" using assms(1) unfolding e starts_with_slash_def by (cases old) auto
qed

lemma components_dots [simp]: "components DOT = [DOT]" "components DOTDOT = [DOTDOT]"
  by (simp_all add: components_def)

text \<open>The new path leads to the new directory.\<close>

lemma chdir_target:
  assumes t: "tree_ok (fs, d)" and rd: "vfs_is_dir (root_inode fs) d = Some True"
    and old: "starts_with_slash old" "normalize_path old = old" "vfs_is_dir dir d = Some True"
      "lookup_path fs (root_inode fs) old d = Some (Some dir)"
    and new: "lookup_path fs (if starts_with_slash path then root_inode fs else dir) path d = Some (Some m)"
  shows "starts_with_slash (chdir_path old path)"
    "lookup_path fs (root_inode fs) (normalize_path (chdir_path old path)) d = Some (Some m)"
proof -
  let ?walk = "walk_from (enter (fs, d))" let ?r = "root_inode fs"
  have od: "?walk ?r (components old) = Some dir" using old(4) by (simp add: lookup_walk [OF rd])
  have "starts_with_slash (chdir_path old path) \<and> ?walk ?r (components (chdir_path old path)) = Some m"
  proof (cases "starts_with_slash path")
    case True
    with new show ?thesis using chdir_path_abs [OF True, of old] by (simp add: lookup_walk [OF rd])
  next
    case False
    with new have w: "?walk dir (components path) = Some m" by (simp add: lookup_walk [OF old(3)])
    consider "path = DOT" | "path = DOTDOT" | "path \<noteq> DOT" "path \<noteq> DOTDOT" by blast
    then show ?thesis
    proof cases
      case 1
      with w have "m = dir" using efs.dot by (auto simp: bind_Some_conv)
      with 1 od old(1) show ?thesis by (simp add: chdir_path_def starts_with_slash_def)
    next
      case 2
      have c: "components old = normalized old" using old(2) components_normalize [of old] by simp
      have "?walk ?r (norm_step (components old) DOTDOT) = Some m"
        using efs.norm_step_walk [of "(fs, d)" "components old" dir DOTDOT m] t od w 2 normalized_normal [of old]
        by (auto simp: c bind_Some_conv)
      then show ?thesis using chdir_up [OF old(1,2)] 2 by (simp add: norm_step_def)
    next
      case 3
      then show ?thesis using chdir_path_rel [OF old(1) False] od w by (simp add: walk_from_append)
    qed
  qed
  then show "starts_with_slash (chdir_path old path)"
    "lookup_path fs ?r (normalize_path (chdir_path old path)) d = Some (Some m)"
    using lookup_normalized [OF t rd] by auto
qed

lemma starts_normalize_path: "starts_with_slash path \<Longrightarrow> starts_with_slash (normalize_path path)"
  using starts_normalize [of path] by (cases "normalized path = []") (simp_all add: normalize_path_eq [of path] starts_with_slash_def)

subsection \<open>Properties\<close>

text \<open>C31: changing the working directory. If the recorded path of a process names its working directory,
  it still does after \<^verbatim>\<open>chdir\<close>, whatever mixture of absolute, relative, \<^verbatim>\<open>.\<close> and \<^verbatim>\<open>..\<close> components the
  argument has: the path stays absolute and normal and leads from the root to the recorded directory.
  On success that directory is the one the argument names, on failure nothing changes, and no
  other process is affected.\<close>

theorem chdir_keeps_cwd:
  assumes "tree_ok (efs s, store s)" "vfs_is_dir (root_inode (efs s)) (store s) = Some True"
    "current_process (kern s) = Some p" "cwd_ok s p" "sys_chdir addr ptr s = Some (v, s')"
  shows "cwd_ok s' p
    \<and> (v = - 1 \<and> s' = s \<or> v = 0 \<and> (\<exists>path root. user_str ptr s = Some path \<and> resolve_root path s = Some root
         \<and> lookup_path (efs s) root path (store s) = Some (Some (inodes s' (working_directory (pcbs (kern s') p))))))
    \<and> (\<forall>q. q \<noteq> p \<and> working_directory (pcbs (kern s) q) \<noteq> addr \<longrightarrow> cwd_ok s' q = cwd_ok s q)"
proof -
  let ?b = "pcbs (kern s) p"
  have cb: "cur_pcb s = Some (p, ?b)" using assms(3) by (simp add: cur_pcb_def)
  from assms(5) obtain path root r where u: "user_str ptr s = Some path" "resolve_root path s = Some root"
    "lookup_path (efs s) root path (store s) = Some r"
    by (auto simp: sys_chdir_def lookup_path_from_def bind_Some_conv)
  have root: "root = (if starts_with_slash path then root_inode (efs s) else inodes s (working_directory ?b))"
    using u(2) cb by (auto simp: resolve_root_def split: if_splits)
  show ?thesis
  proof (cases "\<exists>m. r = Some m \<and> vfs_is_dir m (store s) = Some True")
    case True
    then obtain m where m: "r = Some m" "vfs_is_dir m (store s) = Some True" by blast
    let ?path = "normalize_path (chdir_path (working_directory_path ?b) path)"
    have s': "v = 0" "s' = put_pcb p (\<lambda>b. set_working_directory_path ?path (set_working_directory addr b)) (s\<lparr>inodes := (inodes s)(addr := m)\<rparr>)"
      using assms(5) u cb m by (simp_all add: sys_chdir_def lookup_path_from_def Let_def)
    note f = s'(2) put_pcb_def modify_pcb_def set_working_directory_path_def set_working_directory_def
    have "starts_with_slash (chdir_path (working_directory_path ?b) path)"
      "lookup_path (efs s) (root_inode (efs s)) ?path (store s) = Some (Some m)"
      using assms(4) chdir_target [OF assms(1,2), of "working_directory_path ?b" "inodes s (working_directory ?b)" path m]
        u(3) m(1) root by (simp_all add: cwd_ok_def Let_def)
    then have "cwd_ok s' p" using m(2) by (simp add: cwd_ok_def Let_def f starts_normalize_path normalize_idem)
    moreover have "cwd_ok s' q = cwd_ok s q" if "q \<noteq> p" "working_directory (pcbs (kern s) q) \<noteq> addr" for q
      using that by (simp add: cwd_ok_def Let_def f)
    ultimately show ?thesis using u m(1) s'(1) by (simp add: f)
  next
    case False
    then have "v = - 1 \<and> s' = s" using assms(5) u cb
      by (auto simp: sys_chdir_def lookup_path_from_def bind_Some_conv split: option.splits if_splits)
    with assms(4) show ?thesis by simp
  qed
qed

text \<open>A process in the root directory whose memory holds the name \<^verbatim>\<open>a\<close> at address 8: one page is both its
  page table, at every level, and its data.\<close>

definition string_mem :: kmem where
  "string_mem = \<lparr>frames = frame_allocator_new, phys = (\<lambda>_ j. if j = 0 then 0x1F else if j = 1 then 0x61 else 0)\<rparr>"

definition example_sys :: "disk \<Rightarrow> sys" where
  "example_sys d = \<lparr>kern = example_kernel\<lparr>mem := string_mem\<rparr>,
     files = (\<lambda>_. Stdin), inodes = (\<lambda>_. root_inode (created_fs 2000 1)), rings = (\<lambda>_. ring_new),
     efs = created_fs 2000 1, store = d, TTY = tty_new, console = [], sockets = [], ports = [], sent = []\<rparr>"

lemma example_translate:
  "translate_va string_mem (from_token 0x8000000000000000) (virt_addr_from 8) = Some (PhysAddr 8)"
  "translate_va string_mem (from_token 0x8000000000000000) (virt_addr_from 9) = Some (PhysAddr 9)"
  by (simp_all add: translate_va_def find_pte_def indexes_def from_token_def read_pte_def string_mem_def pte_is_valid_def pte_flags_def
      pte_ppn_def virt_addr_from_def va_floor_def va_page_offset_def phys_addr_from_def phys_page_num_from_def pa_of_ppn_def PAGE_SIZE_def
      width_defs PTE_V_def flags_contains_def Let_def)

lemma example_sys_str: "user_str 8 (example_sys d) = Some [97]"
proof -
  let ?pt = "from_token 0x8000000000000000"
  have b: "phys_byte string_mem (PhysAddr 8) = 0x61" "phys_byte string_mem (PhysAddr 9) = 0"
    by (simp_all add: phys_byte_def string_mem_def pa_page_offset_def pa_floor_def PAGE_SIZE_def Let_def)
  have "read_cstr string_mem ?pt 9 = Some []" by (subst read_cstr.simps) (simp add: example_translate b Let_def)
  then have "read_cstr string_mem ?pt 8 = Some [0x61]" by (subst read_cstr.simps) (simp add: example_translate b Let_def)
  then show ?thesis
    by (simp add: user_str_def example_sys_def current_user_token_def current_task_def example_kernel_def example_pcb_def translated_str_def
        ms_token_def pt_token_def utf8_of_byte_def)
qed

theorem chdir_keeps_cwd_witness:
  "\<exists>d k s'. k \<noteq> 0 \<and> sys_chdir 7 8 (example_sys d) = Some (0, s') \<and> cwd_ok s' 100
     \<and> working_directory_path (pcbs (kern s') 100) = [47, 97] \<and> inodes s' 7 = inode_at (created_fs 2000 1) k"
proof -
  let ?fs = "created_fs 2000 1" let ?r = "root_inode ?fs"
  obtain d k where t: "tree_ok (?fs, d)" "vfs_is_dir ?r d = Some True" "k \<noteq> 0" "vfs_is_dir (inode_at ?fs k) d = Some True"
    "enter (?fs, d) ?r [97] = Some (inode_at ?fs k)" by (rule example_tree) blast
  let ?s = "example_sys d"
  have st: "tree_ok (efs ?s, store ?s)" "vfs_is_dir (root_inode (efs ?s)) (store ?s) = Some True"
    "current_process (kern ?s) = Some 100"
    using t(1,2) by (simp_all add: example_sys_def current_process_def current_task_def example_kernel_def)
  have l: "lookup_path ?fs ?r [47] d = Some (Some ?r)" "lookup_path ?fs ?r [97] d = Some (Some (inode_at ?fs k))"
    unfolding lookup_walk [OF t(2)] using t(2,5) by (simp_all add: components_def ends_ok_def)
  have n: "normalize_path [47] = [47]" "normalize_path [47, 97] = [47, 97]"
    by (simp_all add: normalize_path_def norm_step_def starts_with_slash_def)
  have c: "cwd_ok ?s 100" using l(1) t(2) n(1)
    by (simp add: cwd_ok_def example_sys_def example_kernel_def example_pcb_def starts_with_slash_def)
  let ?s' = "put_pcb 100 (\<lambda>b. set_working_directory_path [47, 97] (set_working_directory 7 b)) (?s\<lparr>inodes := (inodes ?s)(7 := inode_at ?fs k)\<rparr>)"
  have r: "sys_chdir 7 8 ?s = Some (0, ?s')"
    using example_sys_str [of d] st(3) l(2) t(4) n(2)
    by (simp add: sys_chdir_def cur_pcb_def resolve_root_def lookup_path_from_def starts_with_slash_def)
      (simp add: example_sys_def example_kernel_def example_pcb_def chdir_path_def starts_with_slash_def)
  from chdir_keeps_cwd [OF st c r] have "cwd_ok ?s' 100" by blast
  with r t(3) show ?thesis
    by (intro exI [of _ d] exI [of _ k] exI [of _ ?s'])
      (simp add: put_pcb_def modify_pcb_def set_working_directory_path_def set_working_directory_def)
qed

end
