(* ===== verification/ProcCalls.thy ===== *)
theory ProcCalls
  imports FileCalls
begin

section \<open>Starting programs and reporting statistics\<close>

text \<open>
  The calls of os/src/syscall/process.rs that work on files and user memory: \<^verbatim>\<open>sys_exec\<close> with the search
  of the path variable, and \<^verbatim>\<open>sys_get_sched_stats\<close> with its check of the user range. The switch of the
  block device to synchronous reads during exec has no counterpart, as the model's disk answers at once.
\<close>

subsection \<open>Arguments\<close>

text \<open>A doubleword at a physical address.\<close>

definition load_word :: "kmem \<Rightarrow> usize \<Rightarrow> usize" where
  "load_word m pa = foldr (\<lambda>i w. push_bit 8 w OR ucast (phys_byte m (PhysAddr (pa + of_nat i)))) [0..<8] 0"

partial_function (option) read_args :: "kmem \<Rightarrow> usize \<Rightarrow> usize \<Rightarrow> bytes list option" where
  "read_args m token args = do {
     pa \<leftarrow> translated_ref m token args;
     let arg_str_ptr = load_word m (pa_val pa);
     if arg_str_ptr = 0 then Some []
     else do {
       cs \<leftarrow> translated_str m token arg_str_ptr;
       rest \<leftarrow> read_args m token (args + 8);
       Some (concat (map utf8_of_byte cs) # rest)
     }
   }"

subsection \<open>Finding the program\<close>

definition COLON :: u8 where "COLON = 58"

fun split_colon :: "bytes \<Rightarrow> bytes list" where
  "split_colon [] = [[]]"
| "split_colon (b # bs) = (if b = COLON then [] # split_colon bs
     else case split_colon bs of [] \<Rightarrow> [[b]] | c # cs \<Rightarrow> (b # c) # cs)"

fun search_path :: "easy_file_system \<Rightarrow> inode \<Rightarrow> bytes \<Rightarrow> bytes list \<Rightarrow> disk \<Rightarrow> (os_inode option \<times> disk) outcome" where
  "search_path fs cwd path [] d = Some (None, d)"
| "search_path fs cwd path (dir # dirs) d =
     (if dir = [] then search_path fs cwd path dirs d
      else do {
        let full_path = dir @ [SLASH] @ path;
        let root = (if starts_with_slash dir then root_inode fs else cwd);
        (r, d) \<leftarrow> open_file_at fs root full_path RDONLY d;
        case r of
          Some f \<Rightarrow> Some (Some f, d)
        | None \<Rightarrow> search_path fs cwd path dirs d
      })"

definition find_program :: "bytes \<Rightarrow> sys \<Rightarrow> (os_inode option \<times> sys) outcome" where
  "find_program path s = do {
     (p, b) \<leftarrow> cur_pcb s;
     let cwd = inodes s (working_directory b);
     (r, d) \<leftarrow> (if SLASH \<in> set path
       then open_file_at (efs s) (if starts_with_slash path then root_inode (efs s) else cwd) path RDONLY (store s)
       else search_path (efs s) cwd path (split_colon (path_variable b)) (store s));
     Some (r, s\<lparr>store := d\<rparr>)
   }"

definition elf_magic :: "bytes \<Rightarrow> bool" where
  "elf_magic data \<longleftrightarrow> 4 \<le> length data \<and> data ! 0 = 0x7f \<and> data ! 1 = 0x45 \<and> data ! 2 = 0x4c \<and> data ! 3 = 0x46"

definition sys_exec :: "kernel_symbols \<Rightarrow> (u8 list \<Rightarrow> elf_file option) \<Rightarrow> usize \<Rightarrow> usize \<Rightarrow> sys \<Rightarrow> (isize \<times> sys) outcome" where
  "sys_exec ls parse path_ptr args_ptr s = do {
     token \<leftarrow> current_user_token (kern s);
     path \<leftarrow> user_str path_ptr s;
     args_vec \<leftarrow> read_args (mem (kern s)) token args_ptr;
     (app_inode, s) \<leftarrow> find_program path s;
     case app_inode of
       None \<Rightarrow> Some (- 1, s)
     | Some f \<Rightarrow> do {
         (all_data, _) \<leftarrow> read_all f (store s);
         if \<not> elf_magic all_data then Some (- 1, s)
         else do {
           p \<leftarrow> current_process (kern s);
           k \<leftarrow> exec ls parse p all_data args_vec (kern s);
           Some (of_nat (length args_vec), s\<lparr>kern := k\<rparr>)
         }
       }
   }"

subsection \<open>Writing to a checked user range\<close>

definition USER_VA_LIMIT :: usize where "USER_VA_LIMIT = push_bit 38 1"

definition next_page :: "usize \<Rightarrow> usize" where
  "next_page address = saturating_add (address AND NOT 0xfff) 0x1000"

lemma page_base: "unat (a AND NOT 0xfff :: usize) = unat a div 4096 * 4096"
proof -
  have m: "(0xfff :: usize) = mask 12" by (simp add: mask_eq_exp_minus_1)
  have "a AND NOT 0xfff = push_bit 12 (drop_bit 12 a)" unfolding m
    by (rule bit_word_eqI) (auto simp: bit_simps)
  moreover have d: "unat (drop_bit 12 a) = unat a div 4096" by (simp only: unat_drop_bit_eq) (simp add: drop_bit_eq_div)
  moreover have s: "unat a div 4096 * 4096 < 2 ^ 64"
    using div_times_less_eq_dividend [of "unat a" 4096] unsigned_less [of a, where ?'a = nat] by simp
  moreover have "unat (push_bit 12 (drop_bit 12 a)) = take_bit 64 (push_bit 12 (unat (drop_bit 12 a)))"
    by (subst unsigned_push_bit_eq) simp
  moreover have "take_bit 64 (push_bit 12 (unat a div 4096)) = unat a div 4096 * 4096"
    using s by (simp add: take_bit_eq_mod push_bit_eq_mult)
  ultimately show ?thesis by (simp only:)
qed

lemma unat_next_page: "unat (next_page a) = min (unat a div 4096 * 4096 + 4096) (2 ^ 64 - 1)"
  unfolding next_page_def unat_saturating_add page_base by simp

lemma next_page_later: "a < e \<Longrightarrow> unat a < unat (next_page a)"
  using unsigned_less [of e, where ?'a = nat] by (simp add: unat_next_page word_less_nat_alt)

function range_writable_from :: "kmem \<Rightarrow> page_table \<Rightarrow> usize \<Rightarrow> usize \<Rightarrow> bool" where
  "range_writable_from m pt endp address = (case pt_translate m pt (va_floor (virt_addr_from address)) of
     None \<Rightarrow> False
   | Some pte \<Rightarrow>
       if \<not> pte_is_valid pte \<or> \<not> pte_writable pte then False
       else if endp \<le> address then True
       else if next_page address = 0 \<or> endp < next_page address then True
       else range_writable_from m pt endp (next_page address))"
  by pat_completeness auto
termination
proof (relation "measure (\<lambda>(m, pt, endp, address). unat endp - unat address)")
  show "((m, pt, endp, next_page address), m, pt, endp, address) \<in> measure (\<lambda>(m, pt, endp, address). unat endp - unat address)"
    if "\<not> endp \<le> address" "\<not> (next_page address = 0 \<or> endp < next_page address)" for m pt endp address
    using diff_less_mono2 [of "unat address" "unat (next_page address)" "unat endp"] next_page_later [of address endp] that
    by (simp add: word_le_nat_alt word_less_nat_alt)
qed simp

declare range_writable_from.simps [simp del]

definition user_range_writable :: "kmem \<Rightarrow> usize \<Rightarrow> usize \<Rightarrow> usize \<Rightarrow> bool" where
  "user_range_writable m token start len =
     (if start = 0 \<or> len = 0 \<or> USER_VA_LIMIT \<le> start then False
      else case checked_add start (len - 1) of
        None \<Rightarrow> False
      | Some endp \<Rightarrow>
          if USER_VA_LIMIT \<le> endp then False
          else range_writable_from m (from_token token) endp start)"

definition stats_bytes :: "sched_stats \<Rightarrow> bytes" where
  "stats_bytes st = concat (map le_bytes [st_pid st, st_base_priority st, st_effective_priority st, st_runtime_ticks st,
     st_total_wait_ticks st, st_scheduled_count st])"

definition write_sched_stats_to_user :: "usize \<Rightarrow> sched_stats \<Rightarrow> sys \<Rightarrow> (bool \<times> sys) outcome" where
  "write_sched_stats_to_user stats_ptr st s = do {
     token \<leftarrow> current_user_token (kern s);
     if \<not> user_range_writable (mem (kern s)) token stats_ptr 48 then Some (False, s)
     else do {
       bufs \<leftarrow> user_slices stats_ptr 48 s;
       let copied = length (buffer_cells bufs);
       _ \<leftarrow> ensure (copied \<le> 48);
       Some (copied = 48, put_mem (put_cells (mem (kern s)) (buffer_cells bufs) (stats_bytes st)) s)
     }
   }"

definition sys_get_sched_stats :: "usize \<Rightarrow> usize \<Rightarrow> usize \<Rightarrow> sys \<Rightarrow> (isize \<times> sys) outcome" where
  "sys_get_sched_stats now i stats_ptr s = do {
     r \<leftarrow> resolve_process i (kern s);
     case r of
       None \<Rightarrow> Some (- 1, s)
     | Some p \<Rightarrow> do {
         let (st, k) = sched_stats_of now p (kern s);
         (ok, s) \<leftarrow> write_sched_stats_to_user stats_ptr st (s\<lparr>kern := k\<rparr>);
         Some (if ok then 0 else - 2, s)
       }
   }"

subsection \<open>The check of a user range\<close>

text \<open>An address that the process may write according to its page table.\<close>

definition writable_at :: "kmem \<Rightarrow> page_table \<Rightarrow> usize \<Rightarrow> bool" where
  "writable_at m pt a \<longleftrightarrow> (case pt_translate m pt (va_floor (virt_addr_from a)) of
     None \<Rightarrow> False | Some pte \<Rightarrow> pte_is_valid pte \<and> pte_writable pte)"

lemma same_page:
  assumes "unat a div 4096 = unat b div 4096"
  shows "writable_at m pt a = writable_at m pt b"
proof -
  have "drop_bit 12 a = drop_bit 12 b"
    using assms by (simp only: word_unat_eq_iff unat_drop_bit_eq) (simp add: drop_bit_eq_div)
  then have "take_bit 27 (drop_bit 12 a) = take_bit 27 (drop_bit 12 b)" by simp
  then have "drop_bit 12 (take_bit 39 a) = drop_bit 12 (take_bit 39 b)" by (simp add: drop_bit_take_bit)
  then have "va_floor (virt_addr_from a) = va_floor (virt_addr_from b)"
    by (simp add: virt_page_num.expand va_floor_bits virt_addr_from_val)
  then show ?thesis by (simp add: writable_at_def)
qed

lemma range_writable_from_iff:
  "address \<le> endp \<Longrightarrow> unat endp < 2 ^ 38 \<Longrightarrow>
    range_writable_from m pt endp address \<longleftrightarrow> (\<forall>a. address \<le> a \<and> a \<le> endp \<longrightarrow> writable_at m pt a)"
proof (induction m pt endp address rule: range_writable_from.induct)
  case (1 m pt endp address)
  let ?n = "next_page address"
  have step: "range_writable_from m pt endp address \<longleftrightarrow> writable_at m pt address
      \<and> (endp \<le> address \<or> ?n = 0 \<or> endp < ?n \<or> range_writable_from m pt endp ?n)"
    by (subst range_writable_from.simps) (auto simp: writable_at_def split: option.splits)
  have n: "unat ?n = unat address div 4096 * 4096 + 4096"
    using 1(2,3) unfolding unat_next_page by (simp add: word_le_nat_alt)
  have page: "writable_at m pt a = writable_at m pt address" if "address \<le> a" "a < ?n" for a
  proof (rule same_page)
    show "unat a div 4096 = unat address div 4096"
      using that n by (simp add: word_le_nat_alt word_less_nat_alt div_nat_eqI)
  qed
  show ?case
  proof (cases "endp < ?n")
    case True
    have "(\<forall>a. address \<le> a \<and> a \<le> endp \<longrightarrow> writable_at m pt a) \<longleftrightarrow> writable_at m pt address"
      using 1(2) page True by (meson le_less_trans order_refl)
    with True show ?thesis unfolding step by blast
  next
    case False
    then have ne: "?n \<noteq> 0" "\<not> endp \<le> address" "?n \<le> endp" "address < ?n"
      using n by (auto simp: word_le_nat_alt word_less_nat_alt unat_eq_zero [symmetric])
    have ih: "range_writable_from m pt endp ?n \<longleftrightarrow> (\<forall>a. ?n \<le> a \<and> a \<le> endp \<longrightarrow> writable_at m pt a)"
      if "writable_at m pt address"
      using that 1(1) ne 1(3) by (auto simp: writable_at_def split: option.splits)
    show ?thesis
    proof
      assume "range_writable_from m pt endp address"
      then have w: "writable_at m pt address" "range_writable_from m pt endp ?n" using step ne False by auto
      show "\<forall>a. address \<le> a \<and> a \<le> endp \<longrightarrow> writable_at m pt a"
        using w ih page by (metis linorder_not_le)
    next
      assume all: "\<forall>a. address \<le> a \<and> a \<le> endp \<longrightarrow> writable_at m pt a"
      then have "writable_at m pt address" using 1(2) by simp
      moreover have "range_writable_from m pt endp ?n" using ih [OF calculation] all ne(4) by (metis less_imp_le order_trans)
      ultimately show "range_writable_from m pt endp address" using step by blast
    qed
  qed
qed

subsection \<open>Properties\<close>

text \<open>C37: the check of a user range, which walks the pages, accepts exactly the ranges that do not start at
  address zero, are not empty, end below \<open>2 ^ 38\<close> without wrapping around, and every byte of
  which lies in a page the process may write.\<close>

theorem user_range_writable_exact:
  "user_range_writable m token start len \<longleftrightarrow> start \<noteq> 0 \<and> len \<noteq> 0 \<and> unat start + unat len \<le> 2 ^ 38
    \<and> {a. unat start \<le> unat a \<and> unat a < unat start + unat len} \<subseteq> {a. writable_at m (from_token token) a}"
proof (cases "len = 0")
  case True
  then show ?thesis by (simp add: user_range_writable_def)
next
  case False
  then have l: "unat (len - 1) = unat len - 1" "0 < unat len" by (simp_all add: unat_minus_one unat_gt_0)
  have lim: "unat USER_VA_LIMIT = 2 ^ 38" by (simp add: USER_VA_LIMIT_def push_bit_eq_mult)
  show ?thesis
  proof (cases "unat start + unat len \<le> 2 ^ 38")
    case True
    have sum: "checked_add start (len - 1) = Some (start + (len - 1))" using True l by (simp add: checked_add_def)
    from checked_add_SomeD [OF this] l have e: "unat (start + (len - 1)) = unat start + unat len - 1" "start \<le> start + (len - 1)" by simp_all
    have "\<not> USER_VA_LIMIT \<le> start" "\<not> USER_VA_LIMIT \<le> start + (len - 1)"
      using True l e(1) lim by (simp_all add: word_le_nat_alt)
    moreover have "range_writable_from m (from_token token) (start + (len - 1)) start
      \<longleftrightarrow> (\<forall>a. start \<le> a \<and> a \<le> start + (len - 1) \<longrightarrow> writable_at m (from_token token) a)"
      using range_writable_from_iff [OF e(2)] e(1) True l by simp
    moreover have "start \<le> a \<and> a \<le> start + (len - 1) \<longleftrightarrow> unat start \<le> unat a \<and> unat a < unat start + unat len" for a
      using e(1) l by (auto simp: word_le_nat_alt)
    ultimately show ?thesis using True False sum by (auto simp: user_range_writable_def)
  next
    case big: False
    have "\<not> user_range_writable m token start len"
    proof
      assume u: "user_range_writable m token start len"
      then obtain e where e: "checked_add start (len - 1) = Some e" "\<not> USER_VA_LIMIT \<le> e"
        by (auto simp: user_range_writable_def split: if_splits option.splits)
      with checked_add_SomeD(1) [OF e(1)] l lim big show False by (simp add: word_le_nat_alt)
    qed
    with big show ?thesis by blast
  qed
qed

end
