(* ===== verification/Devices.thy ===== *)
theory Devices
  imports Tty
begin

section \<open>Device drivers\<close>

text \<open>
  The interrupt controller (os/src/drivers/plic.rs, device_init of os/src/boards/qemu.rs), the serial
  port (os/src/drivers/chardev/ns16550a.rs), the keyboard and mouse queues (os/src/drivers/input/mod.rs
  with the decoding of user/src/io.rs), the waiting of the block driver
  (os/src/drivers/block/virtio_blk.rs), DMA memory (os/src/drivers/bus/virtio.rs) and the frame buffer
  (os/src/syscall/gui.rs). What a device answers is an argument: the bytes and events it has
  pending, the tokens of finished requests, the interrupt source it claims, the place of its frame
  buffer. Registers the drivers write are a map from addresses to values.
\<close>

subsection \<open>The interrupt controller\<close>

type_synonym registers = "usize \<Rightarrow> u32"

datatype intr_target_priority = Machine | Supervisor

definition supported_number :: usize where "supported_number = 2"

definition VIRT_PLIC :: usize where "VIRT_PLIC = 0xC000000"

definition priority_ptr :: "usize \<Rightarrow> usize \<Rightarrow> usize outcome" where
  "priority_ptr base intr_source_id = do {
     _ \<leftarrow> ensure (0 < intr_source_id \<and> intr_source_id \<le> 132);
     Some (base + intr_source_id * 4)
   }"

definition hart_id_with_priority :: "usize \<Rightarrow> intr_target_priority \<Rightarrow> usize" where
  "hart_id_with_priority hart_id pr = hart_id * supported_number + (case pr of Machine \<Rightarrow> 0 | Supervisor \<Rightarrow> 1)"

definition enable_ptr :: "usize \<Rightarrow> usize \<Rightarrow> intr_target_priority \<Rightarrow> usize \<Rightarrow> usize \<times> usize" where
  "enable_ptr base hart_id pr intr_source_id = (
     let i = hart_id_with_priority hart_id pr;
         (reg_id, reg_shift) = (intr_source_id div 32, intr_source_id mod 32)
     in (base + 0x2000 + 0x80 * i + 0x4 * reg_id, reg_shift))"

definition threshold_ptr_of_hart_with_priority :: "usize \<Rightarrow> usize \<Rightarrow> intr_target_priority \<Rightarrow> usize" where
  "threshold_ptr_of_hart_with_priority base hart_id pr = base + 0x200000 + 0x1000 * hart_id_with_priority hart_id pr"

definition claim_comp_ptr_of_hart_with_priority :: "usize \<Rightarrow> usize \<Rightarrow> intr_target_priority \<Rightarrow> usize" where
  "claim_comp_ptr_of_hart_with_priority base hart_id pr = base + 0x200004 + 0x1000 * hart_id_with_priority hart_id pr"

definition plic_set_priority :: "usize \<Rightarrow> usize \<Rightarrow> u32 \<Rightarrow> registers \<Rightarrow> registers outcome" where
  "plic_set_priority base intr_source_id pr regs = do {
     _ \<leftarrow> ensure (pr < 8);
     ptr \<leftarrow> priority_ptr base intr_source_id;
     Some (regs(ptr := pr))
   }"

definition plic_get_priority :: "usize \<Rightarrow> usize \<Rightarrow> registers \<Rightarrow> u32 outcome" where
  "plic_get_priority base intr_source_id regs = do { ptr \<leftarrow> priority_ptr base intr_source_id; Some (regs ptr AND 7) }"

definition plic_enable :: "usize \<Rightarrow> usize \<Rightarrow> intr_target_priority \<Rightarrow> usize \<Rightarrow> registers \<Rightarrow> registers" where
  "plic_enable base hart_id pr intr_source_id regs = (
     let (reg_ptr, shift) = enable_ptr base hart_id pr intr_source_id
     in regs(reg_ptr := regs reg_ptr OR push_bit (unat shift) 1))"

definition plic_disable :: "usize \<Rightarrow> usize \<Rightarrow> intr_target_priority \<Rightarrow> usize \<Rightarrow> registers \<Rightarrow> registers" where
  "plic_disable base hart_id pr intr_source_id regs = (
     let (reg_ptr, shift) = enable_ptr base hart_id pr intr_source_id
     in regs(reg_ptr := regs reg_ptr AND NOT (push_bit (unat shift) 1)))"

definition plic_set_threshold :: "usize \<Rightarrow> usize \<Rightarrow> intr_target_priority \<Rightarrow> u32 \<Rightarrow> registers \<Rightarrow> registers outcome" where
  "plic_set_threshold base hart_id pr threshold regs = do {
     _ \<leftarrow> ensure (threshold < 8);
     Some (regs(threshold_ptr_of_hart_with_priority base hart_id pr := threshold))
   }"

definition plic_get_threshold :: "usize \<Rightarrow> usize \<Rightarrow> intr_target_priority \<Rightarrow> registers \<Rightarrow> u32" where
  "plic_get_threshold base hart_id pr regs = regs (threshold_ptr_of_hart_with_priority base hart_id pr) AND 7"

definition plic_complete :: "usize \<Rightarrow> usize \<Rightarrow> intr_target_priority \<Rightarrow> u32 \<Rightarrow> registers \<Rightarrow> registers" where
  "plic_complete base hart_id pr completion regs = regs(claim_comp_ptr_of_hart_with_priority base hart_id pr := completion)"

fun enable_sources :: "usize list \<Rightarrow> registers \<Rightarrow> registers outcome" where
  "enable_sources [] regs = Some regs"
| "enable_sources (i # is) regs = do {
     regs \<leftarrow> plic_set_priority VIRT_PLIC i 1 (plic_enable VIRT_PLIC 0 Supervisor i regs);
     enable_sources is regs
   }"

definition device_init :: "registers \<Rightarrow> registers outcome" where
  "device_init regs = do {
     regs \<leftarrow> plic_set_threshold VIRT_PLIC 0 Supervisor 0 regs;
     regs \<leftarrow> plic_set_threshold VIRT_PLIC 0 Machine 1 regs;
     enable_sources [5, 6, 8, 10] regs
   }"

subsection \<open>The serial port\<close>

definition MAX_READ_BUFFER :: nat where "MAX_READ_BUFFER = 4096"

definition IER_RX_AVAILABLE :: u8 where "IER_RX_AVAILABLE = push_bit 0 1"

definition MCR_DATA_TERMINAL_READY :: u8 where "MCR_DATA_TERMINAL_READY = push_bit 0 1"
definition MCR_REQUEST_TO_SEND :: u8 where "MCR_REQUEST_TO_SEND = push_bit 1 1"
definition MCR_AUX_OUTPUT2 :: u8 where "MCR_AUX_OUTPUT2 = push_bit 3 1"

record ns16550a =
  reg_mcr :: u8
  reg_ier :: u8
  read_buffer :: "u8 list"
  uart_condvar :: condvar

definition uart_init :: "ns16550a \<Rightarrow> ns16550a" where
  "uart_init u = u\<lparr>reg_mcr := MCR_DATA_TERMINAL_READY OR MCR_REQUEST_TO_SEND OR MCR_AUX_OUTPUT2, reg_ier := IER_RX_AVAILABLE\<rparr>"

definition read_buffer_is_empty :: "ns16550a \<Rightarrow> bool" where
  "read_buffer_is_empty u \<longleftrightarrow> read_buffer u = []"

definition try_read :: "ns16550a \<Rightarrow> u8 option \<times> ns16550a" where
  "try_read u = (case read_buffer u of [] \<Rightarrow> (None, u) | ch # rest \<Rightarrow> (Some ch, u\<lparr>read_buffer := rest\<rparr>))"

fun uart_receive :: "u8 list \<Rightarrow> u8 list \<Rightarrow> u8 list" where
  "uart_receive [] buf = buf"
| "uart_receive (ch # chs) buf = uart_receive chs (if length buf < MAX_READ_BUFFER then buf @ [ch] else buf)"

definition uart_handle_irq :: "usize \<Rightarrow> u8 list \<Rightarrow> ns16550a \<Rightarrow> 'a tasks_scheme \<Rightarrow> (ns16550a \<times> 'a tasks_scheme) outcome" where
  "uart_handle_irq now pending u k = (
     let u = u\<lparr>read_buffer := uart_receive pending (read_buffer u)\<rparr> in
     if 0 < length pending then do {
       (c, k) \<leftarrow> condvar_signal now (uart_condvar u) k;
       Some (u\<lparr>uart_condvar := c\<rparr>, k)
     } else Some (u, k))"

fun drain :: "nat \<Rightarrow> ns16550a \<Rightarrow> u8 list \<times> ns16550a" where
  "drain 0 u = ([], u)"
| "drain (Suc n) u = (case try_read u of
     (None, u) \<Rightarrow> ([], u)
   | (Some ch, u) \<Rightarrow> (let (chs, u) = drain n u in (ch # chs, u)))"

subsection \<open>Keyboard and mouse\<close>

record input_event =
  event_type :: u16
  event_code :: u16
  event_value :: u32

definition event_word :: "input_event \<Rightarrow> usize" where
  "event_word e = push_bit 48 (ucast (event_type e)) OR push_bit 32 (ucast (event_code e)) OR ucast (event_value e)"

definition input_event_from :: "usize \<Rightarrow> input_event" where
  "input_event_from v = (
     let val = ucast v;
         v = drop_bit 32 v;
         code = ucast v;
         v = drop_bit 16 v
     in \<lparr>event_type = ucast v, event_code = code, event_value = val\<rparr>)"

record virtio_input =
  events :: "usize list"
  input_condvar :: condvar

definition input_is_empty :: "virtio_input \<Rightarrow> bool" where
  "input_is_empty d \<longleftrightarrow> events d = []"

text \<open>One turn of \<^verbatim>\<open>read_event\<close>: an event, or the caller waits.\<close>

definition read_event :: "virtio_input \<Rightarrow> 'a tasks_scheme \<Rightarrow> (usize option \<times> virtio_input \<times> 'a tasks_scheme) outcome" where
  "read_event d k = (case events d of
     e # rest \<Rightarrow> Some (Some e, d\<lparr>events := rest\<rparr>, k)
   | [] \<Rightarrow> do { (c, k) \<leftarrow> condvar_wait_no_sched (input_condvar d) k; Some (None, d\<lparr>input_condvar := c\<rparr>, k) })"

definition input_handle_irq :: "usize \<Rightarrow> input_event list \<Rightarrow> virtio_input \<Rightarrow> 'a tasks_scheme \<Rightarrow> (virtio_input \<times> 'a tasks_scheme) outcome" where
  "input_handle_irq now pending d k = (
     let d = d\<lparr>events := events d @ map event_word pending\<rparr> in
     if 0 < length pending then do {
       (c, k) \<leftarrow> condvar_signal now (input_condvar d) k;
       Some (d\<lparr>input_condvar := c\<rparr>, k)
     } else Some (d, k))"

definition sys_event_get :: "virtio_input \<Rightarrow> virtio_input \<Rightarrow> 'a tasks_scheme
    \<Rightarrow> (isize option \<times> virtio_input \<times> virtio_input \<times> 'a tasks_scheme) outcome" where
  "sys_event_get kb mouse k =
     (if \<not> input_is_empty kb then do { (r, kb, k) \<leftarrow> read_event kb k; Some (r, kb, mouse, k) }
      else if \<not> input_is_empty mouse then do { (r, mouse, k) \<leftarrow> read_event mouse k; Some (r, kb, mouse, k) }
      else Some (Some 0, kb, mouse, k))"

definition sys_key_pressed :: "ns16550a \<Rightarrow> isize" where
  "sys_key_pressed u = (let res = \<not> read_buffer_is_empty u in if res then 1 else 0)"

definition event_get :: "isize \<Rightarrow> input_event option" where
  "event_get raw_value = (if raw_value = 0 then None else Some (input_event_from raw_value))"

subsection \<open>The block driver\<close>

text \<open>The transfer itself is the disk of the file system model; here is who waits. In the blocking mode
  the driver polls and nobody waits.\<close>

type_synonym blk_condvars = "u16 \<rightharpoonup> condvar"

definition blk_condvars_new :: "u16 \<Rightarrow> blk_condvars" where
  "blk_condvars_new channels = (\<lambda>i. if i < channels then Some condvar_new else None)"

definition blk_request :: "bool \<Rightarrow> u16 \<Rightarrow> blk_condvars \<Rightarrow> 'a tasks_scheme \<Rightarrow> (blk_condvars \<times> 'a tasks_scheme) outcome" where
  "blk_request nb token cvs k =
     (if nb then do {
        c \<leftarrow> cvs token;
        (c, k) \<leftarrow> condvar_wait_no_sched c k;
        Some (cvs(token \<mapsto> c), k)
      } else Some (cvs, k))"

fun blk_handle_irq :: "usize \<Rightarrow> u16 list \<Rightarrow> blk_condvars \<Rightarrow> 'a tasks_scheme \<Rightarrow> (blk_condvars \<times> 'a tasks_scheme) outcome" where
  "blk_handle_irq now [] cvs k = Some (cvs, k)"
| "blk_handle_irq now (token # tokens) cvs k = do {
     c \<leftarrow> cvs token;
     (c, k) \<leftarrow> condvar_signal now c k;
     blk_handle_irq now tokens (cvs(token \<mapsto> c)) k
   }"

subsection \<open>DMA memory\<close>

definition dma_alloc :: "usize \<Rightarrow> phys_page_num list \<Rightarrow> kmem \<Rightarrow> (usize \<times> phys_page_num list \<times> kmem) outcome" where
  "dma_alloc pages queue_frames m = do {
     (trackers, m) \<leftarrow> frame_alloc_more m pages;
     ts \<leftarrow> trackers;
     _ \<leftarrow> ensure (ts \<noteq> []);
     let ppn_base = last ts;
     Some (pa_val (pa_of_ppn ppn_base), queue_frames @ ts, m)
   }"

fun dma_dealloc_from :: "nat \<Rightarrow> phys_page_num \<Rightarrow> kmem \<Rightarrow> kmem outcome" where
  "dma_dealloc_from 0 ppn_base m = Some m"
| "dma_dealloc_from (Suc n) ppn_base m = do {
     m \<leftarrow> frame_dealloc m ppn_base;
     dma_dealloc_from n (PhysPageNum (ppn_val ppn_base + 1)) m
   }"

definition dma_dealloc :: "usize \<Rightarrow> usize \<Rightarrow> kmem \<Rightarrow> (32 word \<times> kmem) outcome" where
  "dma_dealloc pa pages m = do {
     ppn \<leftarrow> ppn_of_pa (phys_addr_from pa);
     m \<leftarrow> dma_dealloc_from (unat pages) ppn m;
     Some (0, m)
   }"

definition phys_to_virt :: "usize \<Rightarrow> usize" where
  "phys_to_virt addr = addr"

definition virt_to_phys :: "usize \<Rightarrow> usize \<Rightarrow> kmem \<Rightarrow> usize outcome" where
  "virt_to_phys kernel_token vaddr m = do {
     pa \<leftarrow> translate_va m (from_token kernel_token) (virt_addr_from vaddr);
     Some (pa_val pa)
   }"

subsection \<open>The frame buffer\<close>

definition FB_VADDR :: usize where "FB_VADDR = 0x10000000"

definition sys_framebuffer :: "usize \<Rightarrow> usize \<Rightarrow> kernel \<Rightarrow> (isize \<times> kernel) outcome" where
  "sys_framebuffer fb_ptr len k = (
     let fb_start_pa = phys_addr_from fb_ptr in do {
       _ \<leftarrow> ensure (pa_aligned fb_start_pa);
       let fb_start_ppn = pa_floor fb_start_pa;
       let fb_start_vpn = va_floor (virt_addr_from FB_VADDR);
       let pn_offset = ppn_val fb_start_ppn - vpn_val fb_start_vpn;
       p \<leftarrow> current_process k;
       a \<leftarrow> map_area_new (virt_addr_from FB_VADDR) (virt_addr_from (FB_VADDR + len)) (Linear pn_offset) (PERM_R OR PERM_W OR PERM_U);
       (ms, m) \<leftarrow> push (mem k) (pcb_memory_set (pcbs k p)) a None;
       Some (FB_VADDR, modify_pcb p (\<lambda>b. b\<lparr>pcb_memory_set := ms\<rparr>) (k\<lparr>mem := m\<rparr>))
     })"

definition sys_framebuffer_flush :: isize where
  "sys_framebuffer_flush = 0"

subsection \<open>Buffers\<close>

lemma uart_receive_take: "length buf \<le> MAX_READ_BUFFER \<Longrightarrow> uart_receive chs buf = take MAX_READ_BUFFER (buf @ chs)"
  by (induction chs arbitrary: buf) (auto simp: MAX_READ_BUFFER_def take_Cons')

lemma drain_all: "length (read_buffer u) \<le> n \<Longrightarrow> drain n u = (read_buffer u, u\<lparr>read_buffer := []\<rparr>)"
proof (induction n arbitrary: u)
  case (Suc n)
  then show ?case by (cases "read_buffer u") (simp_all add: try_read_def)
qed simp

subsection \<open>Events\<close>

lemma input_event_from_word: "input_event_from (event_word e) = e"
proof -
  have "ucast (event_word e) = event_value e"
    by (rule bit_word_eqI) (auto simp: event_word_def bit_simps)
  moreover have "ucast (drop_bit 32 (event_word e)) = event_code e"
    by (rule bit_word_eqI) (auto simp: event_word_def bit_simps dest: bit_imp_le_length)
  moreover have "ucast (drop_bit 48 (event_word e)) = event_type e"
    by (rule bit_word_eqI) (auto simp: event_word_def bit_simps dest: bit_imp_le_length)
  ultimately show ?thesis by (simp add: input_event_from_def Let_def)
qed

subsection \<open>Interrupt sources\<close>

text \<open>The registers \<^verbatim>\<open>device_init\<close> writes, apart from the priorities.\<close>

lemma plic_ptrs:
  "threshold_ptr_of_hart_with_priority VIRT_PLIC 0 Supervisor = 0xC201000"
  "threshold_ptr_of_hart_with_priority VIRT_PLIC 0 Machine = 0xC200000"
  "i < 32 \<Longrightarrow> enable_ptr VIRT_PLIC 0 Supervisor i = (0xC002080, i)"
  by (simp_all add: threshold_ptr_of_hart_with_priority_def enable_ptr_def hart_id_with_priority_def supported_number_def VIRT_PLIC_def
      div_word_less mod_word_less)

lemma device_init_ok:
  "device_init regs = Some (regs(0xC201000 := 0, 0xC200000 := 1, 0xC002080 := regs 0xC002080 OR 0x560,
     0xC000014 := 1, 0xC000018 := 1, 0xC000020 := 1, 0xC000028 := 1))"
proof -
  have e: "plic_enable VIRT_PLIC 0 Supervisor i r = r(0xC002080 := r 0xC002080 OR push_bit (unat i) 1)" if "i < 32" for i r
    using that by (simp add: plic_enable_def plic_ptrs)
  have s: "plic_set_priority VIRT_PLIC i 1 r = Some (r(0xC000000 + i * 4 := 1))" if "0 < i" "i \<le> 132" for i r
    using that by (simp add: plic_set_priority_def priority_ptr_def VIRT_PLIC_def)
  have b: "(((x OR 32) OR 64) OR 256) OR 1024 = x OR (0x560 :: u32)" for x
    by (simp add: or.assoc)
  show ?thesis
    by (auto simp: device_init_def plic_set_threshold_def plic_ptrs e s b push_bit_eq_mult fun_eq_iff)
qed

subsection \<open>DMA memory is contiguous\<close>

lemma insert_all_fresh_ok:
  "distinct ps \<Longrightarrow> (\<And>p. p \<in> set ps \<Longrightarrow> m p = None) \<Longrightarrow>
    insert_all_fresh m ps = Some (\<lambda>p. if p \<in> set ps then Some 1 else m p)"
proof (induction ps arbitrary: m)
  case (Cons q ps)
  have "insert_all_fresh (m(q \<mapsto> 1)) ps = Some (\<lambda>p. if p \<in> set ps then Some 1 else (m(q \<mapsto> 1)) p)"
    using Cons.prems by (intro Cons.IH) auto
  with Cons.prems show ?case by (auto simp: insert_fresh_def fun_eq_iff)
qed simp

lemma clear_pages: "foldl clear_page m ps = m\<lparr>phys := (\<lambda>p. if p \<in> set ps then (\<lambda>_. 0) else phys m p)\<rparr>"
  by (induction ps arbitrary: m) (auto simp: clear_page_def fun_eq_iff)

lemma word_steps:
  fixes c pages :: usize
  assumes "unat c + unat pages < 2 ^ 44" "i \<le> unat pages"
  shows "unat (c + of_nat i) = unat c + i"
proof -
  have "unat (of_nat i :: usize) = i" using assms by (simp add: unat_of_nat take_bit_eq_mod)
  then show ?thesis using unat_add_no_wrap [of c "of_nat i"] assms by simp
qed

lemma dma_frames:
  fixes c pages :: usize
  assumes "unat c + unat pages < 2 ^ 44"
  shows "map (\<lambda>offset. PhysPageNum (c + pages - offset)) (map of_nat [1..<unat (pages + 1)])
    = rev (map (\<lambda>i. PhysPageNum (c + of_nat i)) [0..<unat pages])" (is "?l = ?r")
proof (rule nth_equalityI)
  have u: "unat (pages + 1) = Suc (unat pages)" using unat_add_no_wrap [of pages 1] assms by simp
  then show "length ?l = length ?r" by simp
  show "?l ! i = ?r ! i" if "i < length ?l" for i
  proof -
    from that u have i: "i < unat pages" by (simp del: upt_Suc)
    have "pages - of_nat (Suc i) = of_nat (unat pages - Suc i)" using i by (simp add: of_nat_diff)
    then have "c + pages - of_nat (Suc i) = c + of_nat (unat pages - Suc i)" by (simp add: algebra_simps)
    with i u show ?thesis by (simp add: rev_nth del: upt_Suc)
  qed
qed

definition dma_block :: "usize \<Rightarrow> usize \<Rightarrow> phys_page_num list" where
  "dma_block c pages = map (\<lambda>i. PhysPageNum (c + of_nat i)) [0..<unat pages]"

lemma dma_block_members:
  assumes "unat c + unat pages < 2 ^ 44"
  shows "PhysPageNum p \<in> set (dma_block c pages) \<longleftrightarrow> unat c \<le> unat p \<and> unat p < unat c + unat pages"
    "distinct (dma_block c pages)"
proof -
  note w = word_steps [OF assms]
  show "PhysPageNum p \<in> set (dma_block c pages) \<longleftrightarrow> unat c \<le> unat p \<and> unat p < unat c + unat pages"
  proof
    assume "PhysPageNum p \<in> set (dma_block c pages)"
    then show "unat c \<le> unat p \<and> unat p < unat c + unat pages" using w by (auto simp: dma_block_def)
  next
    assume p: "unat c \<le> unat p \<and> unat p < unat c + unat pages"
    then have "unat (c + of_nat (unat p - unat c)) = unat p" using w [of "unat p - unat c"] by simp
    then have "p = c + of_nat (unat p - unat c)" by (simp add: word_unat_eq_iff)
    then show "PhysPageNum p \<in> set (dma_block c pages)" unfolding dma_block_def set_map using p
      by (intro image_eqI [of _ _ "unat p - unat c"]) auto
  qed
  have "inj_on (\<lambda>i. PhysPageNum (c + of_nat i)) {0..<unat pages}"
  proof (rule inj_onI)
    fix x y assume xy: "x \<in> {0..<unat pages}" "y \<in> {0..<unat pages}" "PhysPageNum (c + of_nat x) = PhysPageNum (c + of_nat y)"
    have le: "x \<le> unat pages" "y \<le> unat pages" using xy(1,2) by simp_all
    have "unat (c + of_nat x) = unat (c + of_nat y)" using xy(3) by simp
    then show "x = y" unfolding w [OF le(1)] w [OF le(2)] by simp
  qed
  then show "distinct (dma_block c pages)" by (simp add: dma_block_def distinct_map)
qed

lemma dma_alloc_ok:
  assumes inv: "fa_inv l (frames m)" and n: "0 < unat pages" and
    fits: "unat (current (frames m)) + unat pages < unat (end_frame (frames m))"
  obtains m' where "dma_alloc pages q m = Some (push_bit 12 (current (frames m)), q @ rev (dma_block (current (frames m)) pages), m')"
    "fa_inv l (frames m')" "current (frames m') = current (frames m) + pages"
    "ref_counts (frames m') = (\<lambda>p. if PhysPageNum p \<in> set (dma_block (current (frames m)) pages) then Some 1 else ref_counts (frames m) p)"
    "phys m' = (\<lambda>p. if p \<in> set (dma_block (current (frames m)) pages) then (\<lambda>_. 0) else phys m p)"
proof -
  let ?c = "current (frames m)" let ?B = "dma_block ?c pages"
  have b: "unat ?c + unat pages < 2 ^ 44" using inv fits by (simp add: fa_inv_def)
  note mem = dma_block_members [OF b]
  have cp: "unat (?c + pages) = unat ?c + unat pages" using unat_add_no_wrap [of ?c pages] b by simp
  have free: "ref_counts (frames m) p = None" if "PhysPageNum p \<in> set ?B" for p
    using that mem(1) [of p] fa_in_use_range [OF inv, of p] by (cases "ref_counts (frames m) p") (auto simp: word_less_nat_alt)
  have vals: "ppn_val p = x \<longleftrightarrow> p = PhysPageNum x" for p x by (cases p) auto
  let ?m = "\<lambda>p. if p \<in> set (map ppn_val (rev ?B)) then Some 1 else ref_counts (frames m) p"
  have ins: "insert_all_fresh (ref_counts (frames m)) (map ppn_val (rev ?B)) = Some ?m"
  proof (rule insert_all_fresh_ok)
    show "distinct (map ppn_val (rev ?B))" using mem(2) by (simp add: distinct_map inj_on_def phys_page_num.expand)
    show "ref_counts (frames m) p = None" if "p \<in> set (map ppn_val (rev ?B))" for p
      using that free by (auto simp: phys_page_num.collapse)
  qed
  have fm: "?m = (\<lambda>p. if PhysPageNum p \<in> set ?B then Some 1 else ref_counts (frames m) p)"
    by (auto simp: fun_eq_iff image_iff phys_page_num.collapse)
  let ?M = "\<lambda>p. if PhysPageNum p \<in> set ?B then Some 1 else ref_counts (frames m) p"
  let ?fa = "(frames m)\<lparr>current := ?c + pages, ref_counts := ?M\<rparr>"
  have "\<not> end_frame (frames m) \<le> ?c + pages" using fits cp by (simp add: word_le_nat_alt)
  then have al: "fa_alloc_more (frames m) pages = Some (Some (rev ?B), ?fa)"
    using ins [unfolded fm] dma_frames [OF b] by (simp add: fa_alloc_more_def Let_def dma_block_def del: map_map upt_Suc)
  have ne: "?B \<noteq> []" "last (rev ?B) = PhysPageNum ?c" using n by (simp_all add: dma_block_def last_rev upt_conv_Cons)
  let ?m' = "foldl clear_page (m\<lparr>frames := ?fa\<rparr>) (rev ?B)"
  show ?thesis
  proof (rule that [of ?m'])
    show "dma_alloc pages q m = Some (push_bit 12 ?c, q @ rev ?B, ?m')"
      using al ne by (simp add: dma_alloc_def frame_alloc_more_def pa_of_ppn_def PAGE_SIZE_BITS_def Let_def)
    show "phys ?m' = (\<lambda>p. if p \<in> set ?B then (\<lambda>_. 0) else phys m p)"
      "current (frames ?m') = ?c + pages"
      "ref_counts (frames ?m') = (\<lambda>p. if PhysPageNum p \<in> set ?B then Some 1 else ref_counts (frames m) p)"
      by (simp_all add: clear_pages cong: if_cong)
    have "dom ?M = dom (ref_counts (frames m)) \<union> {p. PhysPageNum p \<in> set ?B}" by (auto split: if_splits)
    moreover have "{l..<?c + pages} = {l..<?c} \<union> {p. PhysPageNum p \<in> set ?B}"
      using inv by (auto simp: mem(1) fa_inv_def word_le_nat_alt word_less_nat_alt cp)
    moreover have "set (recycled (frames m)) \<inter> {p. PhysPageNum p \<in> set ?B} = {}"
    proof -
      have "set (recycled (frames m)) \<subseteq> {l..<?c}" using inv unfolding fa_inv_def by blast
      then show ?thesis by (auto simp: mem(1) word_le_nat_alt word_less_nat_alt)
    qed
    ultimately show "fa_inv l (frames ?m')"
      using inv fits cp unfolding fa_inv_def clear_pages by (auto simp: word_le_nat_alt split: if_splits)
  qed
qed

subsection \<open>Properties\<close>

text \<open>The word into which the keyboard and mouse drivers pack the type, code and value of
  an event is unpacked by the user library to the same event, for every value of the three fields; only
  the event whose fields are all zero reads as no event.\<close>

lemma input_event_round_trip:
  "input_event_from (event_word e) = e
    \<and> event_get (event_word e) = (if e = \<lparr>event_type = 0, event_code = 0, event_value = 0\<rparr> then None else Some e)"
proof -
  let ?z = "\<lparr>event_type = 0, event_code = 0, event_value = 0\<rparr>"
  have z: "input_event_from 0 = ?z" by (simp add: input_event_from_def Let_def)
  have "event_word ?z = 0" by (simp add: event_word_def)
  moreover have "e = ?z" if "event_word e = 0"
    using input_event_from_word [of e] unfolding that z by (rule sym)
  ultimately have "event_word e = 0 \<longleftrightarrow> e = ?z" by blast
  then have "event_get (event_word e) = (if e = ?z then None else Some e)"
    unfolding event_get_def input_event_from_word by (rule if_cong [OF _ refl refl])
  with input_event_from_word [of e] show ?thesis by (rule conjI)
qed

text \<open>C38: memory for devices. When enough untouched frames are left, a DMA allocation gives the device the
  address of a block of consecutive frames: the first is the old frontier of the allocator, none of
  them had an owner, each has exactly one afterwards, all are cleared, no other page or count changes
  and the allocator's invariant holds.\<close>

theorem dma_block_contiguous:
  assumes "fa_inv l (frames m)" "0 < unat pages" "unat (current (frames m)) + unat pages < unat (end_frame (frames m))"
  shows "\<exists>pa q' m'. dma_alloc pages q m = Some (pa, q', m') \<and> fa_inv l (frames m')
    \<and> q' = q @ rev (dma_block (current (frames m)) pages) \<and> pa = push_bit 12 (current (frames m))
    \<and> (\<forall>p. let inside = (unat (current (frames m)) \<le> unat (ppn_val p) \<and> unat (ppn_val p) < unat (current (frames m)) + unat pages) in
        ref_count (frames m') p = (if inside then 1 else ref_count (frames m) p) \<and> (inside \<longrightarrow> ref_count (frames m) p = 0)
        \<and> phys m' p = (if inside then (\<lambda>_. 0) else phys m p))"
proof -
  let ?c = "current (frames m)"
  have b: "unat ?c + unat pages < 2 ^ 44" using assms(1,3) by (simp add: fa_inv_def)
  obtain m' where m': "dma_alloc pages q m = Some (push_bit 12 ?c, q @ rev (dma_block ?c pages), m')" "fa_inv l (frames m')"
    "current (frames m') = ?c + pages"
    "ref_counts (frames m') = (\<lambda>p. if PhysPageNum p \<in> set (dma_block ?c pages) then Some 1 else ref_counts (frames m) p)"
    "phys m' = (\<lambda>p. if p \<in> set (dma_block ?c pages) then (\<lambda>_. 0) else phys m p)"
    by (rule dma_alloc_ok [OF assms, of q])
  have "p \<in> set (dma_block ?c pages) \<longleftrightarrow> unat ?c \<le> unat (ppn_val p) \<and> unat (ppn_val p) < unat ?c + unat pages" for p
    using dma_block_members(1) [OF b, of "ppn_val p"] by simp
  moreover have "ref_counts (frames m) (ppn_val p) = None" if "unat ?c \<le> unat (ppn_val p)" for p
    using that fa_in_use_range [OF assms(1), of "ppn_val p"] by (cases "ref_counts (frames m) (ppn_val p)") (auto simp: word_less_nat_alt)
  ultimately show ?thesis using m'(1,2) by (auto simp: m'(4,5) ref_count_def Let_def)
qed

theorem dma_block_contiguous_witness:
  "\<exists>q' m'. dma_alloc 2 [] \<lparr>frames = init_frame_allocator 0x80500000, phys = (\<lambda>_ _. 7)\<rparr> = Some (0x80500000, q', m')
    \<and> q' = [PhysPageNum 0x80501, PhysPageNum 0x80500] \<and> phys m' (PhysPageNum 0x80501) = (\<lambda>_. 0)
    \<and> ref_count (frames m') (PhysPageNum 0x80501) = 1 \<and> phys m' (PhysPageNum 0x80502) = (\<lambda>_. 7)"
proof -
  let ?m = "\<lparr>frames = init_frame_allocator 0x80500000, phys = (\<lambda>_ _. 7)\<rparr> :: kmem"
  have f: "kernel_fits 0x80500000" by (simp add: kernel_fits_def pa_ceil_def phys_addr_from_def PAGE_SIZE_def width_defs less_eq_phys_page_num_def)
  have c: "current (frames ?m) = 0x80500" "end_frame (frames ?m) = 0x88000"
    by (simp_all add: init_frame_allocator_def frame_allocator_init_def MEMORY_END_def pa_floor_def pa_ceil_def phys_addr_from_def PAGE_SIZE_def width_defs)
  have b: "dma_block 0x80500 2 = [PhysPageNum 0x80500, PhysPageNum 0x80501]"
    by (simp add: dma_block_def upt_conv_Cons)
  have i: "fa_inv (ppn_val (pa_ceil (phys_addr_from 0x80500000))) (frames ?m)" using init_inv [OF f] by simp
  have h: "0 < unat (2 :: usize)" "unat (current (frames ?m)) + unat (2 :: usize) < unat (end_frame (frames ?m))" unfolding c by simp_all
  from dma_block_contiguous [OF i h, of "[]"]
  obtain pa q' m' where w: "dma_alloc 2 [] ?m = Some (pa, q', m')" "q' = [] @ rev (dma_block (current (frames ?m)) 2)"
    "pa = push_bit 12 (current (frames ?m))"
    "\<forall>p. let inside = (unat (current (frames ?m)) \<le> unat (ppn_val p) \<and> unat (ppn_val p) < unat (current (frames ?m)) + unat (2 :: usize)) in
        ref_count (frames m') p = (if inside then 1 else ref_count (frames ?m) p) \<and> (inside \<longrightarrow> ref_count (frames ?m) p = 0)
        \<and> phys m' p = (if inside then (\<lambda>_. 0) else phys ?m p)"
    by blast
  note p = w(4) [unfolded c Let_def, rule_format]
  have "pa = 0x80500000" "q' = [PhysPageNum 0x80501, PhysPageNum 0x80500]" using w(2,3) unfolding c b by simp_all
  with w(1) p [of "PhysPageNum 0x80501"] p [of "PhysPageNum 0x80502"] show ?thesis by auto
qed

end
