(* ===== verification/Traps.thy ===== *)
theory Traps
  imports ProcCalls Devices
begin

section \<open>Traps and system call dispatch\<close>

text \<open>
  os/src/trap/mod.rs, os/src/syscall/mod.rs, os/src/syscall/tty.rs and irq_handler of
  os/src/boards/qemu.rs: the machine as a trap finds it, and what a trap does to it. The registers of
  the interrupted program are the trap context, in the page the task's control block names. What the
  outside provides during one trap (the time, the cause, the answers of devices, the addresses of new
  objects) is the record \<open>inputs\<close>.

  A trap ends with the return to user mode, or with the processor given to another thread, or with the
  machine off. A system call whose caller gives up the processor is \<open>Parked\<close>; when the thread is
  dispatched again the call goes on as the models of its parts say. The switch of the trap vector
  has no counterpart.
\<close>

record irq_inputs =
  time_reg :: usize
  clock_freq :: usize
  uart_bytes :: "u8 list"
  keyboard_events :: "input_event list"
  mouse_events :: "input_event list"
  blk_tokens :: "u16 list"
  irq_source :: u32

datatype trap = UserEnvCall | StorePageFault | StoreFault | InstructionFault | InstructionPageFault | LoadFault | LoadPageFault
  | IllegalInstruction | SupervisorTimer | SupervisorExternal | OtherTrap

text \<open>
  A system call runs with interrupts enabled. Those that arrive before the call has started, between
  the two halves of \<^verbatim>\<open>sys_sleep\<close>, and after the call has returned are inputs too.
\<close>

record inputs = irq_inputs +
  linker :: kernel_symbols
  elf :: "u8 list \<Rightarrow> elf_file option"
  net :: net_crate
  arriving :: "arrival list"
  live_ends :: "nat set"
  strong_count :: "process \<Rightarrow> nat"
  last_reference :: bool
  file1 :: file_ref
  file2 :: file_ref
  ring_addr :: usize
  inode_addr :: usize
  child_addr :: process
  task_addr :: task
  fb_ptr :: usize
  fb_len :: usize
  irqs_before :: "(trap \<times> irq_inputs) list"
  irqs_within :: "(trap \<times> irq_inputs) list"
  irqs_after :: "(trap \<times> irq_inputs) list"

record machine =
  msys :: sys
  timers :: "timer_cond_var list"
  uart :: ns16550a
  keyboard :: virtio_input
  mouse :: virtio_input
  blk :: blk_condvars
  plic :: registers
  timer_trigger :: usize

definition put_kern :: "kernel \<Rightarrow> machine \<Rightarrow> machine" where
  "put_kern k m = m\<lparr>msys := (msys m)\<lparr>kern := k\<rparr>\<rparr>"

subsection \<open>Interrupts\<close>

text \<open>The two handlers of the serial interrupt: the driver fills its buffer, the terminal empties it.\<close>

definition uart_irq :: "usize \<Rightarrow> u8 list \<Rightarrow> machine \<Rightarrow> machine outcome" where
  "uart_irq now pending m = do {
     (u, k) \<leftarrow> uart_handle_irq now pending (uart m) (kern (msys m));
     let (input, u) = drain (length (read_buffer u)) u;
     (out, tty, k) \<leftarrow> handle_uart_irq now input (TTY (msys m)) k;
     Some (m\<lparr>uart := u, msys := (msys m)\<lparr>kern := k, TTY := tty, console := console (msys m) @ out\<rparr>\<rparr>)
   }"

definition irq_handler :: "'a irq_inputs_scheme \<Rightarrow> usize \<Rightarrow> machine \<Rightarrow> machine outcome" where
  "irq_handler inp now m = (let src = irq_source inp; k = kern (msys m) in do {
     m \<leftarrow>
      (if src = 5 then do { (d, k) \<leftarrow> input_handle_irq now (keyboard_events inp) (keyboard m) k; Some (put_kern k (m\<lparr>keyboard := d\<rparr>)) }
       else if src = 6 then do { (d, k) \<leftarrow> input_handle_irq now (mouse_events inp) (mouse m) k; Some (put_kern k (m\<lparr>mouse := d\<rparr>)) }
       else if src = 8 then do { (c, k) \<leftarrow> blk_handle_irq now (blk_tokens inp) (blk m) k; Some (put_kern k (m\<lparr>blk := c\<rparr>)) }
       else if src = 10 then uart_irq now (uart_bytes inp) m
       else None);
     Some (m\<lparr>plic := plic_complete VIRT_PLIC 0 Supervisor src (plic m)\<rparr>)
   })"

text \<open>The part of a timer interrupt that both trap handlers share; the flag asks for a switch.\<close>

definition timer_irq :: "'a irq_inputs_scheme \<Rightarrow> usize \<Rightarrow> machine \<Rightarrow> (bool \<times> machine) outcome" where
  "timer_irq inp now m = do {
     let m = m\<lparr>timer_trigger := next_trigger (clock_freq inp) (time_reg inp)\<rparr>;
     ms \<leftarrow> get_time_ms (clock_freq inp) (time_reg inp);
     (ts, k) \<leftarrow> check_timer ms now (timers m) (kern (msys m));
     (b, k) \<leftarrow> on_current_task_timer_tick now k;
     Some (b, put_kern k (m\<lparr>timers := ts\<rparr>))
   }"

text \<open>Traps from the kernel.\<close>

definition trap_from_kernel :: "'a irq_inputs_scheme \<Rightarrow> trap \<Rightarrow> machine \<Rightarrow> machine outcome" where
  "trap_from_kernel inp cause m = do {
     now \<leftarrow> get_time_ticks (clock_freq inp) (time_reg inp);
     case cause of
       SupervisorExternal \<Rightarrow> irq_handler inp now m
     | SupervisorTimer \<Rightarrow> do { (_, m) \<leftarrow> timer_irq inp now m; Some m }
     | _ \<Rightarrow> None
   }"

fun take_irqs :: "(trap \<times> irq_inputs) list \<Rightarrow> machine \<Rightarrow> machine outcome" where
  "take_irqs [] m = Some m"
| "take_irqs ((cause, inp) # irq_list) m = do { m \<leftarrow> trap_from_kernel inp cause m; take_irqs irq_list m }"

subsection \<open>System calls\<close>

definition SYSCALL_DUP :: usize where "SYSCALL_DUP = 24"
definition SYSCALL_CONNECT :: usize where "SYSCALL_CONNECT = 29"
definition SYSCALL_LISTEN :: usize where "SYSCALL_LISTEN = 30"
definition SYSCALL_ACCEPT :: usize where "SYSCALL_ACCEPT = 31"
definition SYSCALL_OPEN :: usize where "SYSCALL_OPEN = 56"
definition SYSCALL_CLOSE :: usize where "SYSCALL_CLOSE = 57"
definition SYSCALL_PIPE :: usize where "SYSCALL_PIPE = 59"
definition SYSCALL_READ :: usize where "SYSCALL_READ = 63"
definition SYSCALL_WRITE :: usize where "SYSCALL_WRITE = 64"
definition SYSCALL_EXIT :: usize where "SYSCALL_EXIT = 93"
definition SYSCALL_SLEEP :: usize where "SYSCALL_SLEEP = 101"
definition SYSCALL_YIELD :: usize where "SYSCALL_YIELD = 124"
definition SYSCALL_KILL :: usize where "SYSCALL_KILL = 129"
definition SYSCALL_GET_TIME :: usize where "SYSCALL_GET_TIME = 169"
definition SYSCALL_GETPID :: usize where "SYSCALL_GETPID = 172"
definition SYSCALL_MUNMAP :: usize where "SYSCALL_MUNMAP = 215"
definition SYSCALL_FORK :: usize where "SYSCALL_FORK = 220"
definition SYSCALL_EXEC :: usize where "SYSCALL_EXEC = 221"
definition SYSCALL_MMAP :: usize where "SYSCALL_MMAP = 222"
definition SYSCALL_WAITPID :: usize where "SYSCALL_WAITPID = 260"
definition SYSCALL_MKDIR :: usize where "SYSCALL_MKDIR = 34"
definition SYSCALL_UNLINK :: usize where "SYSCALL_UNLINK = 35"
definition SYSCALL_CHDIR :: usize where "SYSCALL_CHDIR = 49"
definition SYSCALL_GETDENTS :: usize where "SYSCALL_GETDENTS = 61"
definition SYSCALL_GETCWD :: usize where "SYSCALL_GETCWD = 79"
definition SYSCALL_LSEEK :: usize where "SYSCALL_LSEEK = 62"
definition SYSCALL_GETPATH :: usize where "SYSCALL_GETPATH = 80"
definition SYSCALL_SETPATH :: usize where "SYSCALL_SETPATH = 81"
definition SYSCALL_RENAME :: usize where "SYSCALL_RENAME = 82"
definition SYSCALL_SET_PRIORITY :: usize where "SYSCALL_SET_PRIORITY = 1040"
definition SYSCALL_GET_PRIORITY :: usize where "SYSCALL_GET_PRIORITY = 1041"
definition SYSCALL_GET_SCHED_STATS :: usize where "SYSCALL_GET_SCHED_STATS = 1042"
definition SYSCALL_THREAD_CREATE :: usize where "SYSCALL_THREAD_CREATE = 1000"
definition SYSCALL_GETTID :: usize where "SYSCALL_GETTID = 1001"
definition SYSCALL_WAITTID :: usize where "SYSCALL_WAITTID = 1002"
definition SYSCALL_MUTEX_CREATE :: usize where "SYSCALL_MUTEX_CREATE = 1010"
definition SYSCALL_MUTEX_LOCK :: usize where "SYSCALL_MUTEX_LOCK = 1011"
definition SYSCALL_MUTEX_UNLOCK :: usize where "SYSCALL_MUTEX_UNLOCK = 1012"
definition SYSCALL_SEMAPHORE_CREATE :: usize where "SYSCALL_SEMAPHORE_CREATE = 1020"
definition SYSCALL_SEMAPHORE_UP :: usize where "SYSCALL_SEMAPHORE_UP = 1021"
definition SYSCALL_SEMAPHORE_DOWN :: usize where "SYSCALL_SEMAPHORE_DOWN = 1022"
definition SYSCALL_CONDVAR_CREATE :: usize where "SYSCALL_CONDVAR_CREATE = 1030"
definition SYSCALL_CONDVAR_SIGNAL :: usize where "SYSCALL_CONDVAR_SIGNAL = 1031"
definition SYSCALL_CONDVAR_WAIT :: usize where "SYSCALL_CONDVAR_WAIT = 1032"
definition SYSCALL_SETPGID :: usize where "SYSCALL_SETPGID = 1100"
definition SYSCALL_GETPGRP :: usize where "SYSCALL_GETPGRP = 1101"
definition SYSCALL_TCSETPGRP :: usize where "SYSCALL_TCSETPGRP = 1102"
definition SYSCALL_TCGETPGRP :: usize where "SYSCALL_TCGETPGRP = 1103"
definition SYSCALL_TTY_CTL :: usize where "SYSCALL_TTY_CTL = 1104"
definition SYSCALL_SIGACTION :: usize where "SYSCALL_SIGACTION = 1105"
definition SYSCALL_LIST_APPS :: usize where "SYSCALL_LIST_APPS = 1106"
definition SYSCALL_FRAMEBUFFER :: usize where "SYSCALL_FRAMEBUFFER = 2000"
definition SYSCALL_FRAMEBUFFER_FLUSH :: usize where "SYSCALL_FRAMEBUFFER_FLUSH = 2001"
definition SYSCALL_EVENT_GET :: usize where "SYSCALL_EVENT_GET = 3000"
definition SYSCALL_KEY_PRESSED :: usize where "SYSCALL_KEY_PRESSED = 3001"

lemmas syscall_numbers =
  SYSCALL_DUP_def SYSCALL_CONNECT_def SYSCALL_LISTEN_def SYSCALL_ACCEPT_def SYSCALL_OPEN_def SYSCALL_CLOSE_def
  SYSCALL_PIPE_def SYSCALL_READ_def SYSCALL_WRITE_def SYSCALL_EXIT_def SYSCALL_SLEEP_def SYSCALL_YIELD_def SYSCALL_KILL_def
  SYSCALL_GET_TIME_def SYSCALL_GETPID_def SYSCALL_MUNMAP_def SYSCALL_FORK_def SYSCALL_EXEC_def SYSCALL_MMAP_def
  SYSCALL_WAITPID_def SYSCALL_MKDIR_def SYSCALL_UNLINK_def SYSCALL_CHDIR_def SYSCALL_GETDENTS_def SYSCALL_GETCWD_def
  SYSCALL_LSEEK_def SYSCALL_GETPATH_def SYSCALL_SETPATH_def SYSCALL_RENAME_def SYSCALL_SET_PRIORITY_def
  SYSCALL_GET_PRIORITY_def SYSCALL_GET_SCHED_STATS_def SYSCALL_THREAD_CREATE_def SYSCALL_GETTID_def SYSCALL_WAITTID_def
  SYSCALL_MUTEX_CREATE_def SYSCALL_MUTEX_LOCK_def SYSCALL_MUTEX_UNLOCK_def SYSCALL_SEMAPHORE_CREATE_def
  SYSCALL_SEMAPHORE_UP_def SYSCALL_SEMAPHORE_DOWN_def SYSCALL_CONDVAR_CREATE_def SYSCALL_CONDVAR_SIGNAL_def
  SYSCALL_CONDVAR_WAIT_def SYSCALL_SETPGID_def SYSCALL_GETPGRP_def SYSCALL_TCSETPGRP_def SYSCALL_TCGETPGRP_def
  SYSCALL_TTY_CTL_def SYSCALL_SIGACTION_def SYSCALL_LIST_APPS_def SYSCALL_FRAMEBUFFER_def SYSCALL_FRAMEBUFFER_FLUSH_def
  SYSCALL_EVENT_GET_def SYSCALL_KEY_PRESSED_def

definition TTY_CTL_GET_FLAGS :: usize where "TTY_CTL_GET_FLAGS = 1"
definition TTY_CTL_SET_FLAGS :: usize where "TTY_CTL_SET_FLAGS = 2"

definition sys_tty_ctl :: "usize \<Rightarrow> usize \<Rightarrow> tty \<Rightarrow> isize \<times> tty" where
  "sys_tty_ctl cmd arg tty =
     (if cmd = TTY_CTL_GET_FLAGS then (tty_flags (inner tty), tty)
      else if cmd = TTY_CTL_SET_FLAGS then (0, tty_set_flags arg tty)
      else (- 1, tty))"

datatype reply = Returns isize machine | Parked machine | Halts bool

text \<open>Calls on the whole state, on open files, on processes, and on locks.\<close>

definition kcall :: "machine \<Rightarrow> (isize \<times> sys) outcome \<Rightarrow> reply outcome" where
  "kcall m r = do { (v, s) \<leftarrow> r; Some (Returns v (m\<lparr>msys := s\<rparr>)) }"

definition fcall :: "machine \<Rightarrow> call outcome \<Rightarrow> reply outcome" where
  "fcall m r = do { c \<leftarrow> r; Some (case c of Ret v s \<Rightarrow> Returns v (m\<lparr>msys := s\<rparr>) | Wait n s \<Rightarrow> Parked (m\<lparr>msys := s\<rparr>)) }"

definition pcall :: "machine \<Rightarrow> (isize \<times> kernel) outcome \<Rightarrow> reply outcome" where
  "pcall m r = do { (v, k) \<leftarrow> r; Some (Returns v (put_kern k m)) }"

definition lcall :: "machine \<Rightarrow> (bool \<times> kernel) outcome \<Rightarrow> reply outcome" where
  "lcall m r = do { (taken, k) \<leftarrow> r; Some (if taken then Returns 0 (put_kern k m) else Parked (put_kern k m)) }"

text \<open>Sleeping adds the timer first and blocks afterwards, with interrupts enabled in between.\<close>

definition sys_sleep :: "inputs \<Rightarrow> usize \<Rightarrow> machine \<Rightarrow> machine outcome" where
  "sys_sleep inp ms m = do {
     time_ms \<leftarrow> get_time_ms (clock_freq inp) (time_reg inp);
     ts \<leftarrow> sleep_timer time_ms ms (timers m) (kern (msys m));
     m \<leftarrow> take_irqs (irqs_within inp) (m\<lparr>timers := ts\<rparr>);
     k \<leftarrow> block_current_and_run_next (kern (msys m));
     Some (put_kern k m)
   }"

definition syscall :: "inputs \<Rightarrow> usize \<Rightarrow> usize \<Rightarrow> usize list \<Rightarrow> machine \<Rightarrow> reply outcome" where
  "syscall inp now call_id args m = (let x = (\<lambda>i. args ! i); k = kern (msys m) in
     if call_id = SYSCALL_DUP then kcall m (sys_dup (x 0) (msys m))
     else if call_id = SYSCALL_CONNECT then kcall m (sys_connect (net inp) (file1 inp) (ucast (x 0)) (ucast (x 1)) (ucast (x 2)) (msys m))
     else if call_id = SYSCALL_LISTEN then kcall m (sys_listen (file1 inp) (ucast (x 0)) (msys m))
     else if call_id = SYSCALL_ACCEPT then do { (r, s) \<leftarrow> sys_accept (net inp) (arriving inp) (x 0) (msys m); Some (case r of Some v \<Rightarrow> Returns v (m\<lparr>msys := s\<rparr>) | None \<Rightarrow> Parked (m\<lparr>msys := s\<rparr>)) }
     else if call_id = SYSCALL_OPEN then kcall m (sys_open (file1 inp) (x 0) (ucast (x 1)) (msys m))
     else if call_id = SYSCALL_CLOSE then kcall m (sys_close (last_reference inp) (x 0) (msys m))
     else if call_id = SYSCALL_PIPE then kcall m (sys_pipe (file1 inp) (file2 inp) (ring_addr inp) (x 0) (msys m))
     else if call_id = SYSCALL_READ then fcall m (sys_read (net inp) (arriving inp) (live_ends inp) (x 0) (x 1) (x 2) (msys m))
     else if call_id = SYSCALL_WRITE then fcall m (sys_write (net inp) (x 0) (x 1) (x 2) (msys m))
     else if call_id = SYSCALL_MKDIR then kcall m (sys_mkdir (x 0) (msys m))
     else if call_id = SYSCALL_UNLINK then kcall m (sys_unlink (x 0) (msys m))
     else if call_id = SYSCALL_CHDIR then kcall m (sys_chdir (inode_addr inp) (x 0) (msys m))
     else if call_id = SYSCALL_GETCWD then kcall m (sys_getcwd (x 0) (x 1) (msys m))
     else if call_id = SYSCALL_GETDENTS then kcall m (sys_getdents (x 0) (x 1) (x 2) (msys m))
     else if call_id = SYSCALL_LSEEK then Some (Returns sys_lseek m)
     else if call_id = SYSCALL_GETPATH then kcall m (sys_getpath (x 0) (x 1) (msys m))
     else if call_id = SYSCALL_SETPATH then kcall m (sys_setpath (x 0) (msys m))
     else if call_id = SYSCALL_RENAME then kcall m (sys_rename (x 0) (x 1) (msys m))
     else if call_id = SYSCALL_EXIT then do { r \<leftarrow> exit_current_and_run_next (ucast (x 0)) k; Some (case r of Shutdown b \<Rightarrow> Halts b | Resumed k \<Rightarrow> Parked (put_kern k m)) }
     else if call_id = SYSCALL_SLEEP then do { m \<leftarrow> sys_sleep inp (x 0) m; Some (Parked m) }
     else if call_id = SYSCALL_YIELD then do { (v, k) \<leftarrow> sys_yield now k; Some (Parked (put_kern k m)) }
     else if call_id = SYSCALL_KILL then pcall m (sys_kill now (x 0) (ucast (x 1)) k)
     else if call_id = SYSCALL_SETPGID then pcall m (sys_setpgid (x 0) (x 1) k)
     else if call_id = SYSCALL_GETPGRP then do { v \<leftarrow> sys_getpgrp k; Some (Returns v m) }
     else if call_id = SYSCALL_TCSETPGRP then Some (let (v, tty) = sys_tcsetpgrp (x 1) (TTY (msys m)) k in Returns v (m\<lparr>msys := (msys m)\<lparr>TTY := tty\<rparr>\<rparr>))
     else if call_id = SYSCALL_TCGETPGRP then Some (Returns (sys_tcgetpgrp (TTY (msys m))) m)
     else if call_id = SYSCALL_TTY_CTL then Some (let (v, tty) = sys_tty_ctl (x 1) (x 2) (TTY (msys m)) in Returns v (m\<lparr>msys := (msys m)\<lparr>TTY := tty\<rparr>\<rparr>))
     else if call_id = SYSCALL_SIGACTION then pcall m (sys_sigaction (ucast (x 0)) (x 1) k)
     else if call_id = SYSCALL_LIST_APPS then kcall m (sys_list_apps (x 0) (x 1) (msys m))
     else if call_id = SYSCALL_GET_TIME then do { ms \<leftarrow> get_time_ms (clock_freq inp) (time_reg inp); Some (Returns ms m) }
     else if call_id = SYSCALL_GETPID then do { v \<leftarrow> sys_getpid k; Some (Returns v m) }
     else if call_id = SYSCALL_MUNMAP then pcall m (sys_munmap (x 0) (x 1) k)
     else if call_id = SYSCALL_FORK then pcall m (sys_fork (linker inp) now (child_addr inp) (task_addr inp) k)
     else if call_id = SYSCALL_EXEC then kcall m (sys_exec (linker inp) (elf inp) (x 0) (x 1) (msys m))
     else if call_id = SYSCALL_MMAP then pcall m (sys_mmap (x 0) (x 1) (x 2) k)
     else if call_id = SYSCALL_WAITPID then pcall m (sys_waitpid (strong_count inp) (x 0) (x 1) (x 2) k)
     else if call_id = SYSCALL_SET_PRIORITY then pcall m (sys_set_priority now (x 0) (x 1) k)
     else if call_id = SYSCALL_GET_PRIORITY then do { v \<leftarrow> sys_get_priority (x 0) k; Some (Returns v m) }
     else if call_id = SYSCALL_GET_SCHED_STATS then kcall m (sys_get_sched_stats now (x 0) (x 1) (msys m))
     else if call_id = SYSCALL_THREAD_CREATE then pcall m (sys_thread_create (linker inp) now (task_addr inp) (x 0) (x 1) k)
     else if call_id = SYSCALL_GETTID then do { v \<leftarrow> sys_gettid k; Some (Returns v m) }
     else if call_id = SYSCALL_WAITTID then do { (v, k) \<leftarrow> sys_waittid (x 0) k; Some (Returns (scast v) (put_kern k m)) }
     else if call_id = SYSCALL_MUTEX_CREATE then pcall m (sys_mutex_create (x 0 = 1) k)
     else if call_id = SYSCALL_MUTEX_LOCK then lcall m (sys_mutex_lock now (x 0) k)
     else if call_id = SYSCALL_MUTEX_UNLOCK then pcall m (sys_mutex_unlock now (x 0) k)
     else if call_id = SYSCALL_SEMAPHORE_CREATE then pcall m (sys_semaphore_create (x 0) k)
     else if call_id = SYSCALL_SEMAPHORE_UP then pcall m (sys_semaphore_up now (x 0) k)
     else if call_id = SYSCALL_SEMAPHORE_DOWN then lcall m (sys_semaphore_down (x 0) k)
     else if call_id = SYSCALL_CONDVAR_CREATE then pcall m (sys_condvar_create k)
     else if call_id = SYSCALL_CONDVAR_SIGNAL then pcall m (sys_condvar_signal now (x 0) k)
     else if call_id = SYSCALL_CONDVAR_WAIT then do { k \<leftarrow> sys_condvar_wait now (x 0) (x 1) k; Some (Parked (put_kern k m)) }
     else if call_id = SYSCALL_FRAMEBUFFER then pcall m (sys_framebuffer (fb_ptr inp) (fb_len inp) k)
     else if call_id = SYSCALL_FRAMEBUFFER_FLUSH then Some (Returns sys_framebuffer_flush m)
     else if call_id = SYSCALL_EVENT_GET then do { (r, kb, mo, k) \<leftarrow> sys_event_get (keyboard m) (mouse m) k; let m' = put_kern k (m\<lparr>keyboard := kb, mouse := mo\<rparr>); Some (case r of Some v \<Rightarrow> Returns v m' | None \<Rightarrow> Parked m') }
     else if call_id = SYSCALL_KEY_PRESSED then Some (Returns (sys_key_pressed (uart m)) m)
     else None)"

subsection \<open>Traps from user mode\<close>

datatype trap_end = ToUser usize usize machine | Away machine | Off bool

definition REG_A0 :: nat where "REG_A0 = 10"
definition REG_A7 :: nat where "REG_A7 = 17"
definition SEPC :: nat where "SEPC = 33"

definition get_reg :: "machine \<Rightarrow> nat \<Rightarrow> usize outcome" where
  "get_reg m i = do { cx \<leftarrow> current_trap_cx (kern (msys m)); Some (phys (mem (kern (msys m))) cx i) }"

definition set_reg :: "nat \<Rightarrow> usize \<Rightarrow> machine \<Rightarrow> machine outcome" where
  "set_reg i v m = do {
     cx \<leftarrow> current_trap_cx (kern (msys m));
     let k = kern (msys m);
     Some (put_kern (k\<lparr>mem := put_words (mem k) cx i [v]\<rparr>) m)
   }"

definition trap_return :: "machine \<Rightarrow> trap_end outcome" where
  "trap_return m = do {
     trap_cx_user_va \<leftarrow> current_trap_cx_user_va (kern (msys m));
     user_satp \<leftarrow> current_user_token (kern (msys m));
     Some (ToUser trap_cx_user_va user_satp m)
   }"

text \<open>The end of the handler, from the point where a stopped thread goes on, and in full.\<close>

definition after_stop :: "machine \<Rightarrow> trap_end outcome" where
  "after_stop m = do {
     k \<leftarrow> clear_cont_signal_of_current (kern (msys m));
     r \<leftarrow> check_signals_of_current k;
     case r of
       Some (errno, msg) \<Rightarrow> do {
         e \<leftarrow> exit_current_and_run_next errno k;
         Some (case e of Shutdown b \<Rightarrow> Off b | Resumed k \<Rightarrow> Away (put_kern k m))
       }
     | None \<Rightarrow> trap_return (put_kern k m)
   }"

definition trap_tail :: "machine \<Rightarrow> trap_end outcome" where
  "trap_tail m = do {
     (stop, k) \<leftarrow> check_stop_signal_of_current (kern (msys m));
     if stop then do { k \<leftarrow> stop_current_and_run_next k; Some (Away (put_kern k m)) }
     else after_stop (put_kern k m)
   }"

definition user_call :: "inputs \<Rightarrow> usize \<Rightarrow> machine \<Rightarrow> trap_end outcome" where
  "user_call inp now m = do {
     pc \<leftarrow> get_reg m SEPC;
     m \<leftarrow> set_reg SEPC (pc + 4) m;
     m \<leftarrow> take_irqs (irqs_before inp) m;
     call_id \<leftarrow> get_reg m REG_A7;
     a0 \<leftarrow> get_reg m 10;
     a1 \<leftarrow> get_reg m 11;
     a2 \<leftarrow> get_reg m 12;
     r \<leftarrow> syscall inp now call_id [a0, a1, a2] m;
     case r of
       Halts b \<Rightarrow> Some (Off b)
     | Parked m \<Rightarrow> Some (Away m)
     | Returns v m \<Rightarrow> do {
         m \<leftarrow> take_irqs (irqs_after inp) m;
         m \<leftarrow> set_reg REG_A0 v m;
         (preempt, k) \<leftarrow> should_preempt_current_task now (kern (msys m));
         if preempt then do { k \<leftarrow> suspend_current_and_run_next now k; Some (Away (put_kern k m)) }
         else trap_tail (put_kern k m)
       }
   }"

definition add_signal :: "u32 \<Rightarrow> machine \<Rightarrow> machine outcome" where
  "add_signal sig m = do { k \<leftarrow> current_add_signal sig (kern (msys m)); Some (put_kern k m) }"

definition store_page_fault :: "usize \<Rightarrow> machine \<Rightarrow> machine outcome" where
  "store_page_fault stval m = (let k = kern (msys m) in do {
     p \<leftarrow> current_process k;
     (handled, ms, mm) \<leftarrow> handle_cow_fault (mem k) (pcb_memory_set (pcbs k p)) (virt_addr_from stval);
     let m = put_kern (modify_pcb p (\<lambda>b. b\<lparr>pcb_memory_set := ms\<rparr>) (k\<lparr>mem := mm\<rparr>)) m;
     if handled then Some m else add_signal SIGSEGV m
   })"

definition trap_handler :: "inputs \<Rightarrow> trap \<Rightarrow> usize \<Rightarrow> machine \<Rightarrow> trap_end outcome" where
  "trap_handler inp cause stval m = do {
     now \<leftarrow> get_time_ticks (clock_freq inp) (time_reg inp);
     case cause of
       UserEnvCall \<Rightarrow> user_call inp now m
     | StorePageFault \<Rightarrow> do { m \<leftarrow> store_page_fault stval m; trap_tail m }
     | StoreFault \<Rightarrow> do { m \<leftarrow> add_signal SIGSEGV m; trap_tail m }
     | InstructionFault \<Rightarrow> do { m \<leftarrow> add_signal SIGSEGV m; trap_tail m }
     | InstructionPageFault \<Rightarrow> do { m \<leftarrow> add_signal SIGSEGV m; trap_tail m }
     | LoadFault \<Rightarrow> do { m \<leftarrow> add_signal SIGSEGV m; trap_tail m }
     | LoadPageFault \<Rightarrow> do { m \<leftarrow> add_signal SIGSEGV m; trap_tail m }
     | IllegalInstruction \<Rightarrow> do { m \<leftarrow> add_signal SIGILL m; trap_tail m }
     | SupervisorTimer \<Rightarrow> do {
         (switch, m) \<leftarrow> timer_irq inp now m;
         if switch then do { k \<leftarrow> suspend_current_and_run_next now (kern (msys m)); Some (Away (put_kern k m)) }
         else trap_tail m
       }
     | SupervisorExternal \<Rightarrow> do { m \<leftarrow> irq_handler inp now m; trap_tail m }
     | OtherTrap \<Rightarrow> None
   }"

subsection \<open>Signals as bits\<close>

lemma contains_push_bit: "n < 32 \<Longrightarrow> flags_contains (fs :: u32) (push_bit n 1) \<longleftrightarrow> bit fs n"
proof
  assume "n < 32" "flags_contains fs (push_bit n 1)"
  then have "bit (fs AND push_bit n 1) n = bit (push_bit n 1 :: u32) n" by (simp only: flags_contains_def)
  with \<open>n < 32\<close> show "bit fs n" by (simp add: bit_simps)
next
  assume "bit fs n"
  then show "flags_contains fs (push_bit n 1)" unfolding flags_contains_def by (intro bit_word_eqI) (auto simp: bit_simps)
qed

lemma signal_bits:
  "flags_contains fs SIGINT \<longleftrightarrow> bit fs 2" "flags_contains fs SIGILL \<longleftrightarrow> bit fs 4" "flags_contains fs SIGABRT \<longleftrightarrow> bit fs 6"
  "flags_contains fs SIGFPE \<longleftrightarrow> bit fs 8" "flags_contains fs SIGSEGV \<longleftrightarrow> bit fs 11" "flags_contains fs SIGTSTP \<longleftrightarrow> bit fs 20"
  "flags_contains fs SIGCONT \<longleftrightarrow> bit fs 21"
  by (simp_all only: SIGINT_def SIGILL_def SIGABRT_def SIGFPE_def SIGSEGV_def SIGTSTP_def SIGCONT_def contains_push_bit)

lemma signal_bit_iff:
  "bit SIGSEGV n \<longleftrightarrow> n = 11" "bit SIGTSTP n \<longleftrightarrow> n = 20" "bit SIGCONT n \<longleftrightarrow> n = 21"
  by (auto simp: SIGSEGV_def SIGTSTP_def SIGCONT_def bit_simps bit_1_iff simp del: push_bit_of_1 push_bit_numeral)

text \<open>No signal is pending that would stop or end the process for another reason than a bad access.\<close>

definition calm :: "u32 \<Rightarrow> bool" where
  "calm fs \<longleftrightarrow> \<not> bit fs 2 \<and> \<not> bit fs 4 \<and> \<not> bit fs 6 \<and> \<not> bit fs 8 \<and> \<not> bit fs 20"

lemma segv_error:
  assumes "calm fs"
  shows "check_error (flags_remove (fs OR SIGSEGV) SIGCONT) = Some (- 11, ''Segmentation Fault, SIGSEGV=11'')"
    "check_error (flags_remove (flags_remove (fs OR SIGSEGV) SIGTSTP) SIGCONT) = Some (- 11, ''Segmentation Fault, SIGSEGV=11'')"
    "\<not> flags_contains (fs OR SIGSEGV) SIGTSTP"
  using assms by (simp_all add: check_error_def signal_bits calm_def flags_remove_def bit_or_iff bit_and_iff bit_not_iff signal_bit_iff)

subsection \<open>Exit\<close>

lemma drop_user_res_exit:
  "drop_user_res p r k = Some k' \<Longrightarrow> is_zombie (pcbs k' q) = is_zombie (pcbs k q) \<and> pcb_exit_code (pcbs k' q) = pcb_exit_code (pcbs k q)
    \<and> exit_code_of k' = exit_code_of k \<and> PID2PCB k' = PID2PCB k \<and> process_of k' = process_of k"
  by (cases "q = p") (auto simp: drop_user_res_def bind_Some_conv modify_pcb_def)

lemma drop_all_res_exit:
  "drop_all_res p rs k = Some k' \<Longrightarrow> is_zombie (pcbs k' q) = is_zombie (pcbs k q) \<and> pcb_exit_code (pcbs k' q) = pcb_exit_code (pcbs k q)
    \<and> exit_code_of k' = exit_code_of k \<and> PID2PCB k' = PID2PCB k"
proof (induction rs arbitrary: k)
  case (Cons r rs)
  then obtain k1 where k1: "drop_user_res p r k = Some k1" "drop_all_res p rs k1 = Some k'" by (auto simp: bind_Some_conv)
  with Cons.IH [OF k1(2)] drop_user_res_exit [OF k1(1), of q] show ?case by simp
qed simp

lemma reparent_exit:
  "is_zombie (pcbs (reparent cs k) q) = is_zombie (pcbs k q) \<and> pcb_exit_code (pcbs (reparent cs k) q) = pcb_exit_code (pcbs k q)
    \<and> exit_code_of (reparent cs k) = exit_code_of k \<and> PID2PCB (reparent cs k) = PID2PCB k"
proof (induction cs arbitrary: k)
  case (Cons c cs)
  let ?k = "modify_pcb (INITPROC k) (\<lambda>b. b\<lparr>children := children b @ [c]\<rparr>) (modify_pcb c (\<lambda>b. b\<lparr>parent := Some (INITPROC k)\<rparr>) k)"
  have "is_zombie (pcbs ?k q) = is_zombie (pcbs k q)" "pcb_exit_code (pcbs ?k q) = pcb_exit_code (pcbs k q)" "exit_code_of ?k = exit_code_of k"
    by (simp_all add: modify_pcb_def)
  with Cons [of ?k] show ?case by simp
qed simp

lemma take_res_exit: "take_res ts k = (rs, k') \<Longrightarrow> exit_code_of k' = exit_code_of k \<and> PID2PCB k' = PID2PCB k"
proof (induction ts arbitrary: k rs k')
  case (Cons t ts)
  then show ?case by (auto split: option.splits prod.splits dest!: Cons.IH)
qed simp

lemma exit_process_zombie:
  assumes "exit_process p code k = Some k'"
  shows "is_zombie (pcbs k' p) \<and> pcb_exit_code (pcbs k' p) = code \<and> exit_code_of k' = exit_code_of k \<and> pid2process k' (pid (pcbs k p)) = None
    \<and> running k' = running k"
proof -
  from assms obtain k1 where k1: "remove_from_pid2process (pid (pcbs k p)) k = Some k1"
    by (auto simp: exit_process_def bind_Some_conv)
  then have s1: "running k1 = running k" "exit_code_of k1 = exit_code_of k" "PID2PCB k1 = filter (\<lambda>(j, _). j \<noteq> pid (pcbs k p)) (PID2PCB k)"
    by (auto simp: remove_from_pid2process_def split: if_splits)
  define k2 where "k2 = modify_pcb p (\<lambda>b. b\<lparr>is_zombie := True, pcb_exit_code := code\<rparr>) k1"
  define k3 where "k3 = reparent (children (pcbs k2 p)) k2"
  have s3: "is_zombie (pcbs k3 p)" "pcb_exit_code (pcbs k3 p) = code" "exit_code_of k3 = exit_code_of k" "PID2PCB k3 = PID2PCB k1"
      "running k3 = running k1"
    using reparent_exit [of "children (pcbs k2 p)" k2 p, folded k3_def] reparent_same [of k2 "children (pcbs k2 p)", folded k3_def] s1(2)
    by (simp_all add: k2_def modify_pcb_def same_sched_def)
  obtain rs k4 where k4: "take_res (live_tasks (pcbs k3 p)) k3 = (rs, k4)" by fastforce
  have s4: "running k4 = running k3" "pcbs k4 = pcbs k3" "exit_code_of k4 = exit_code_of k3" "PID2PCB k4 = PID2PCB k3"
    using take_res_takes [OF k4] take_res_exit [OF k4] by (simp_all add: same_sched_def)
  from assms k1 k4 obtain k5 ms m where k5: "drop_all_res p rs k4 = Some k5"
    and k': "k' = modify_pcb p (\<lambda>b. b\<lparr>pcb_memory_set := ms, fd_table := [], pcb_tasks := take 1 (pcb_tasks b)\<rparr>)
        ((modify_pcb p (\<lambda>b. b\<lparr>children := []\<rparr>) k5)\<lparr>mem := m\<rparr>)"
    by (auto simp: exit_process_def bind_Some_conv Let_def simp flip: k2_def k3_def)
  have "map_of (filter (\<lambda>(j, _). j \<noteq> i) xs) i = None" for i :: usize and xs :: "(usize \<times> process) list"
    by (induction xs) auto
  then show ?thesis using s1 s3 s4 drop_all_res_exit [OF k5, of p] drop_all_res_same [OF k5] unfolding k'
    by (simp add: modify_pcb_def pid2process_def same_sched_def)
qed

lemma exit_main_zombie:
  assumes "exit_current_and_run_next code k = Some e" "running k = Some t" "res_of k t = Some r" "res_tid r = 0"
    "pid (pcbs k (process_of k t)) \<noteq> IDLE_PID"
  shows "\<exists>k'. e = Resumed k' \<and> running k' = None \<and> exit_code_of k' t = Some code \<and> is_zombie (pcbs k' (process_of k t))
    \<and> pcb_exit_code (pcbs k' (process_of k t)) = code \<and> pid2process k' (pid (pcbs k (process_of k t))) = None"
proof -
  define p where "p = process_of k t"
  define k1 where "k1 = k\<lparr>running := None, exit_code_of := (exit_code_of k)(t \<mapsto> code), res_of := (res_of k)(t := None)\<rparr>"
  from assms(1-4) obtain k2 where k2: "drop_user_res p r k1 = Some k2"
    by (auto simp: exit_current_and_run_next_def take_current_task_def bind_Some_conv Let_def p_def k1_def)
  define k3 where "k3 = k2\<lparr>sched_of := (sched_of k2)(t := on_block (sched_of k2 t))\<rparr>"
  have pid: "pid (pcbs k3 p) = pid (pcbs k p)" using drop_user_res_same [OF k2] by (simp add: k3_def k1_def)
  from assms k2 pid obtain k' where k': "exit_process p code k3 = Some k'" "e = Resumed k'"
    by (auto simp: exit_current_and_run_next_def take_current_task_def bind_Some_conv Let_def p_def k1_def k3_def
        split: if_splits)
  have "exit_code_of k3 = exit_code_of k1" "running k3 = None"
    using drop_user_res_exit [OF k2] drop_user_res_same [OF k2] by (simp_all add: k3_def k1_def same_sched_def)
  then show ?thesis using exit_process_zombie [OF k'(1)] k'(2) pid by (auto simp: k1_def p_def)
qed

subsection \<open>Interrupt sources\<close>

text \<open>The sources that initialisation enables are exactly those the handler knows; any other panics.\<close>

lemma enabled_sources: "device_init (\<lambda>_. 0) = Some regs \<Longrightarrow> bit (regs 0xC002080) i \<longleftrightarrow> i \<in> {5, 6, 8, 10}"
proof -
  have e: "(0x560 :: u32) = push_bit 5 1 OR push_bit 6 1 OR push_bit 8 1 OR push_bit 10 1" by simp
  have "bit (0x560 :: u32) i \<longleftrightarrow> i \<in> {5, 6, 8, 10}" unfolding e
    by (auto simp: bit_or_iff bit_push_bit_iff bit_1_iff simp del: push_bit_of_1 push_bit_numeral)
  moreover assume "device_init (\<lambda>_. 0) = Some regs"
  ultimately show ?thesis by (auto simp: device_init_ok)
qed

lemma handled_sources: "irq_handler inp now m = Some m' \<Longrightarrow> unat (irq_source inp) \<in> {5, 6, 8, 10}"
  by (auto simp: irq_handler_def Let_def split: if_splits)

subsection \<open>Properties\<close>

lemma kern_put_kern [simp]: "kern (msys (put_kern k m)) = k" "put_kern k (put_kern k' m) = put_kern k m"
  by (simp_all add: put_kern_def)

text \<open>From the pending signal to the exit.\<close>

lemma segv_tail:
  assumes "running k = Some t" "signals (pcbs k (process_of k t)) = fs OR SIGSEGV" "calm fs" "res_of k t = Some r" "res_tid r = 0"
    "pid (pcbs k (process_of k t)) \<noteq> IDLE_PID" "trap_tail (put_kern k m) = Some e"
  shows "\<exists>k'. e = Away (put_kern k' m) \<and> running k' = None \<and> exit_code_of k' t = Some (- 11) \<and> is_zombie (pcbs k' (process_of k t))
    \<and> pcb_exit_code (pcbs k' (process_of k t)) = - 11 \<and> pid2process k' (pid (pcbs k (process_of k t))) = None"
proof -
  let ?p = "process_of k t"
  define sg where "sg = (if flags_contains (sig_ignored (pcbs k ?p)) SIGTSTP then flags_remove (fs OR SIGSEGV) SIGTSTP else fs OR SIGSEGV)"
  define k1 where "k1 = modify_pcb ?p (\<lambda>b. b\<lparr>signals := flags_remove sg SIGCONT\<rparr>) k"
  have cur: "current_process k = Some ?p" "current_process k1 = Some ?p"
    using assms(1) by (simp_all add: current_process_def current_task_def k1_def modify_pcb_def)
  let ?k0 = "if flags_contains (sig_ignored (pcbs k ?p)) SIGTSTP then modify_pcb ?p (\<lambda>b. b\<lparr>signals := flags_remove (signals b) SIGTSTP\<rparr>) k else k"
  have s: "check_stop_signal_of_current k = Some (False, ?k0)"
    using cur(1) segv_error(3) [OF assms(3)] assms(2) by (simp add: check_stop_signal_of_current_def Let_def)
  have c: "clear_cont_signal_of_current ?k0 = Some k1"
    using assms(1,2) by (simp add: clear_cont_signal_of_current_def current_process_def current_task_def modify_pcb_def k1_def sg_def)
  have e: "check_signals_of_current k1 = Some (Some (- 11, ''Segmentation Fault, SIGSEGV=11''))"
    using cur(2) segv_error(1,2) [OF assms(3)] by (simp add: check_signals_of_current_def k1_def modify_pcb_def sg_def)
  from assms(7) s c e obtain x where x: "exit_current_and_run_next (- 11) k1 = Some x"
    "e = (case x of Shutdown b \<Rightarrow> Off b | Resumed k \<Rightarrow> Away (put_kern k m))"
    by (auto simp: trap_tail_def after_stop_def bind_Some_conv simp del: if_split cong: exit_result.case_cong)
  have k1: "running k1 = Some t" "res_of k1 t = Some r" "process_of k1 = process_of k" "pid (pcbs k1 ?p) = pid (pcbs k ?p)"
    using assms by (simp_all add: k1_def modify_pcb_def)
  from exit_main_zombie [OF x(1) k1(1,2) assms(5)] k1(3,4) assms(6) x(2) show ?thesis by auto
qed

text \<open>An access the process may not make: a fault of the instruction fetch, of a load or of a store, unless it
  is a store to a page that is only write-protected because it is shared.\<close>

definition bad_access :: "trap \<Rightarrow> usize \<Rightarrow> machine \<Rightarrow> bool" where
  "bad_access cause stval m \<longleftrightarrow> (let k = kern (msys m) in
     cause = StoreFault \<or> cause = InstructionFault \<or> cause = InstructionPageFault \<or> cause = LoadFault \<or> cause = LoadPageFault
     \<or> cause = StorePageFault \<and> (case current_process k of None \<Rightarrow> False | Some p \<Rightarrow>
         (case handle_cow_fault (mem k) (pcb_memory_set (pcbs k p)) (virt_addr_from stval) of
            None \<Rightarrow> False | Some (handled, _) \<Rightarrow> \<not> handled)))"

lemma bad_access_signals:
  assumes "bad_access cause stval m" "trap_handler inp cause stval m = Some e" "running (kern (msys m)) = Some t"
  obtains k ms where "trap_tail (put_kern k m) = Some e" "running k = Some t" "process_of k = process_of (kern (msys m))"
    "res_of k = res_of (kern (msys m))"
    "pcbs k (process_of k t) = (pcbs (kern (msys m)) (process_of k t))\<lparr>pcb_memory_set := ms,
       signals := signals (pcbs (kern (msys m)) (process_of k t)) OR SIGSEGV\<rparr>"
proof -
  let ?k = "kern (msys m)" let ?p = "process_of ?k t"
  note res = that
  have cur: "current_process ?k = Some ?p" using assms(3) by (simp add: current_process_def current_task_def)
  have direct: ?thesis if a: "trap_handler inp cause stval m = do { now \<leftarrow> get_time_ticks (clock_freq inp) (time_reg inp); m \<leftarrow> add_signal SIGSEGV m; trap_tail m }"
  proof -
    let ?k1 = "modify_pcb ?p (\<lambda>b. b\<lparr>signals := signals b OR SIGSEGV\<rparr>) ?k"
    have "add_signal SIGSEGV m = Some (put_kern ?k1 m)" using cur by (simp add: add_signal_def current_add_signal_def)
    then have "trap_tail (put_kern ?k1 m) = Some e" using assms(2) a by (auto simp: bind_Some_conv)
    then show ?thesis by (rule res [where ms = "pcb_memory_set (pcbs ?k ?p)"]) (use assms(3) in \<open>simp_all add: modify_pcb_def\<close>)
  qed
  show ?thesis
  proof (cases "cause = StorePageFault")
    case False
    then have "cause = StoreFault \<or> cause = InstructionFault \<or> cause = InstructionPageFault \<or> cause = LoadFault \<or> cause = LoadPageFault"
      using assms(1) by (simp add: bad_access_def Let_def)
    then show ?thesis by (elim disjE; intro direct; simp add: trap_handler_def)
  next
    case True
    then obtain ms mm where h: "handle_cow_fault (mem ?k) (pcb_memory_set (pcbs ?k ?p)) (virt_addr_from stval) = Some (False, ms, mm)"
      using assms(1) cur by (auto simp: bad_access_def Let_def split: option.splits)
    let ?k1 = "modify_pcb ?p (\<lambda>b. b\<lparr>signals := signals b OR SIGSEGV\<rparr>) (modify_pcb ?p (\<lambda>b. b\<lparr>pcb_memory_set := ms\<rparr>) (?k\<lparr>mem := mm\<rparr>))"
    have "store_page_fault stval m = Some (put_kern ?k1 m)"
      using cur h assms(3) by (simp add: store_page_fault_def Let_def add_signal_def current_add_signal_def current_process_def
          current_task_def modify_pcb_def)
    then have "trap_tail (put_kern ?k1 m) = Some e" using assms(2) True by (auto simp: trap_handler_def bind_Some_conv)
    then show ?thesis by (rule res [where ms = ms]) (use assms(3) in \<open>simp_all add: modify_pcb_def\<close>)
  qed
qed

text \<open>C39: bad accesses. When the main thread of a process other than the first makes an access it may not
  make, and nothing else is pending against the process, the trap does not return to the program: the
  thread and the process end with code -11, the process is a zombie for its parent to reap, no
  process is found under its id any more and the processor is free for another thread.\<close>

theorem bad_access_kills:
  assumes "bad_access cause stval m" "trap_handler inp cause stval m = Some e"
    and "running (kern (msys m)) = Some t" "process_of (kern (msys m)) t = p" "res_of (kern (msys m)) t = Some r" "res_tid r = 0"
    and "pid (pcbs (kern (msys m)) p) \<noteq> IDLE_PID" "calm (signals (pcbs (kern (msys m)) p))"
  shows "\<exists>k'. e = Away (put_kern k' m) \<and> running k' = None \<and> exit_code_of k' t = Some (- 11)
    \<and> is_zombie (pcbs k' p) \<and> pcb_exit_code (pcbs k' p) = - 11 \<and> pid2process k' (pid (pcbs (kern (msys m)) p)) = None"
proof -
  obtain k ms where k: "trap_tail (put_kern k m) = Some e" "running k = Some t" "process_of k = process_of (kern (msys m))"
    "res_of k = res_of (kern (msys m))"
    "pcbs k (process_of k t) = (pcbs (kern (msys m)) (process_of k t))\<lparr>pcb_memory_set := ms,
       signals := signals (pcbs (kern (msys m)) (process_of k t)) OR SIGSEGV\<rparr>"
    by (rule bad_access_signals [OF assms(1-3)])
  have p: "process_of k t = p" using k(3) assms(4) by simp
  have "signals (pcbs k (process_of k t)) = signals (pcbs (kern (msys m)) p) OR SIGSEGV"
    "res_of k t = Some r" "pid (pcbs k (process_of k t)) \<noteq> IDLE_PID" "pid (pcbs k (process_of k t)) = pid (pcbs (kern (msys m)) p)"
    using k(4,5) p assms(5,7) by simp_all
  from segv_tail [OF k(2) this(1) assms(8) this(2) assms(6) this(3) k(1)] this(4) p show ?thesis by simp
qed

definition example_inputs :: inputs where
  "example_inputs = \<lparr>time_reg = 0, clock_freq = 12500000,
     uart_bytes = [], keyboard_events = [], mouse_events = [], blk_tokens = [], irq_source = 10,
     linker = \<lparr>sym_strampoline = 0x80200000, sym_trap_handler = 0x80201000, sym_trap_return = 0x80202000, user_sstatus = 0\<rparr>,
     elf = (\<lambda>_. None), net = example_crate, arriving = [], live_ends = {}, strong_count = (\<lambda>_. 1), last_reference = True,
     file1 = 11, file2 = 12, ring_addr = 13, inode_addr = 14, child_addr = 400, task_addr = 9,
     fb_ptr = 0, fb_len = 0, irqs_before = [], irqs_within = [], irqs_after = []\<rparr>"

definition example_machine :: machine where
  "example_machine = \<lparr>msys = net_sys, timers = [], uart = \<lparr>reg_mcr = 0, reg_ier = 0, read_buffer = [], uart_condvar = condvar_new\<rparr>,
     keyboard = \<lparr>events = [], input_condvar = condvar_new\<rparr>, mouse = \<lparr>events = [], input_condvar = condvar_new\<rparr>,
     blk = blk_condvars_new 8, plic = (\<lambda>_. 0), timer_trigger = 0\<rparr>"

lemma example_fault: "\<exists>e. trap_handler example_inputs LoadFault 0 example_machine = Some e"
proof -
  let ?k = "modify_pcb 100 (\<lambda>b. b\<lparr>signals := SIGSEGV\<rparr>) example_kernel"
  have e: "\<exists>e. exit_current_and_run_next (- 11) ?k = Some e"
    by (simp add: exit_current_and_run_next_def take_current_task_def example_kernel_def Let_def
        drop_user_res_no_areas example_pcb_def id_dealloc_def va_aligned_def va_page_offset_def virt_addr_from_def
        ustack_bottom_from_tid_def trap_cx_bottom_from_tid_def TRAP_CONTEXT_BASE_def TRAMPOLINE_def PAGE_SIZE_def
        USER_STACK_SIZE_def VA_WIDTH_SV39_def IDLE_PID_def exit_process_def remove_from_pid2process_def modify_pcb_def
        live_tasks_def List.map_filter_def recycle_data_pages_def)
  have cur: "current_process example_kernel = Some 100" "current_process ?k = Some 100" "running ?k = Some 1"
    by (simp_all add: current_process_def current_task_def modify_pcb_def example_kernel_def)
  have sg: "signals (pcbs ?k 100) = SIGSEGV" "sig_ignored (pcbs ?k 100) = 0"
    by (simp_all add: modify_pcb_def example_kernel_def example_pcb_def)
  have seg: "flags_remove SIGSEGV SIGCONT = SIGSEGV" "\<not> flags_contains 0 SIGTSTP" "\<not> flags_contains SIGSEGV SIGTSTP"
    by (simp_all add: SIGSEGV_def SIGCONT_def SIGTSTP_def flags_remove_def flags_contains_def)
  have a: "add_signal SIGSEGV example_machine = Some (put_kern ?k example_machine)"
    using cur(1) by (simp add: add_signal_def current_add_signal_def example_machine_def net_sys_def modify_pcb_def)
      (simp add: example_kernel_def example_pcb_def)
  have s: "check_stop_signal_of_current ?k = Some (False, ?k)"
    using cur(2) sg seg by (simp add: check_stop_signal_of_current_def Let_def)
  have c: "clear_cont_signal_of_current ?k = Some ?k"
    using cur(2) seg by (simp add: clear_cont_signal_of_current_def modify_pcb_def)
  have x: "check_signals_of_current ?k = Some (Some (- 11, ''Segmentation Fault, SIGSEGV=11''))"
    using cur(2) sg segv_error(1) [of 0] seg(1) by (simp add: check_signals_of_current_def calm_def)
  have n: "get_time_ticks (clock_freq example_inputs) (time_reg example_inputs) = Some 0"
    by (simp add: get_time_ticks_def checked_div_def example_inputs_def TICKS_PER_SEC_def)
  show ?thesis using n a s c x e by (auto simp: trap_handler_def trap_tail_def after_stop_def)
qed

theorem bad_access_kills_witness:
  "\<exists>k'. trap_handler example_inputs LoadFault 0 example_machine = Some (Away (put_kern k' example_machine))
    \<and> running k' = None \<and> is_zombie (pcbs k' 100) \<and> pcb_exit_code (pcbs k' 100) = - 11 \<and> pid2process k' 2 = None"
proof -
  obtain e where e: "trap_handler example_inputs LoadFault 0 example_machine = Some e" using example_fault by blast
  have k: "kern (msys example_machine) = example_kernel" by (simp add: example_machine_def net_sys_def)
  have b: "bad_access LoadFault 0 example_machine" by (simp add: bad_access_def Let_def)
  have h: "running example_kernel = Some 1" "process_of example_kernel 1 = 100" "res_of example_kernel 1 = Some \<lparr>res_tid = 0, ustack_base = 0x10000\<rparr>"
    "res_tid \<lparr>res_tid = 0, ustack_base = 0x10000\<rparr> = 0" "pid (pcbs example_kernel 100) = 2" "2 \<noteq> IDLE_PID" "calm (signals (pcbs example_kernel 100))"
    by (simp_all add: example_kernel_def example_pcb_def IDLE_PID_def calm_def)
  from bad_access_kills [OF b e, unfolded k, OF h(1-4)] h(5-7) e show ?thesis by auto
qed

text \<open>What the way back to the program leaves alone.\<close>

definition same_but_signals :: "kernel \<Rightarrow> kernel \<Rightarrow> bool" where
  "same_but_signals k k' \<longleftrightarrow> running k' = running k \<and> status_of k' = status_of k \<and> mem k' = mem k \<and> res_of k' = res_of k
     \<and> process_of k' = process_of k \<and> trap_cx_of k' = trap_cx_of k \<and> exit_code_of k' = exit_code_of k \<and> PID2PCB k' = PID2PCB k
     \<and> KERNEL_SPACE k' = KERNEL_SPACE k \<and> (\<forall>p. (pcbs k' p)\<lparr>signals := 0\<rparr> = (pcbs k p)\<lparr>signals := 0\<rparr>)"

lemma same_but_signals_trans: "same_but_signals a b \<Longrightarrow> same_but_signals b c \<Longrightarrow> same_but_signals a c"
  by (simp add: same_but_signals_def)

lemma same_but_signals_modify: "same_but_signals k (modify_pcb p (\<lambda>b. b\<lparr>signals := f b\<rparr>) k)"
  by (simp add: same_but_signals_def modify_pcb_def)

lemma preempt_same: "should_preempt_current_task now k = Some (b, k') \<Longrightarrow> same_but_signals k k'"
  by (auto simp: should_preempt_current_task_def should_preempt_def same_but_signals_def bind_Some_conv split: option.splits)

lemma tail_to_user:
  assumes "trap_tail m = Some (ToUser va satp m')"
  obtains k where "m' = put_kern k m" "same_but_signals (kern (msys m)) k" "current_trap_cx_user_va k = Some va" "current_user_token k = Some satp"
proof -
  from assms obtain k1 where k1: "check_stop_signal_of_current (kern (msys m)) = Some (False, k1)" "after_stop (put_kern k1 m) = Some (ToUser va satp m')"
    by (auto simp: trap_tail_def bind_Some_conv split: if_splits)
  have s1: "same_but_signals (kern (msys m)) k1"
    using k1(1) same_but_signals_modify by (auto simp: check_stop_signal_of_current_def Let_def same_but_signals_def bind_Some_conv split: if_splits)
  from k1(2) obtain k2 where k2: "clear_cont_signal_of_current k1 = Some k2" "trap_return (put_kern k2 m) = Some (ToUser va satp m')"
    by (auto simp: after_stop_def bind_Some_conv split: option.splits exit_result.splits) (metis exit_result.exhaust)
  have "same_but_signals k1 k2" using k2(1) same_but_signals_modify by (auto simp: clear_cont_signal_of_current_def bind_Some_conv)
  with s1 have "same_but_signals (kern (msys m)) k2" by (rule same_but_signals_trans)
  moreover have "m' = put_kern k2 m" "current_trap_cx_user_va k2 = Some va" "current_user_token k2 = Some satp"
    using k2(2) by (auto simp: trap_return_def bind_Some_conv)
  ultimately show ?thesis using that by blast
qed

subsection \<open>What interrupts leave alone\<close>

definition same_program :: "kernel \<Rightarrow> kernel \<Rightarrow> bool" where
  "same_program k k' \<longleftrightarrow> running k' = running k \<and> mem k' = mem k \<and> trap_cx_of k' = trap_cx_of k"

lemma same_program_trans: "same_program a b \<Longrightarrow> same_program b c \<Longrightarrow> same_program a c"
  by (simp add: same_program_def)

lemma same_program_refl [simp]: "same_program k k"
  by (simp add: same_program_def)

lemma wakeup_same: "wakeup_task now t k = Some k' \<Longrightarrow> same_program k k'"
  by (auto simp: wakeup_task_def add_task_def same_program_def Let_def bind_Some_conv split: prod.splits if_splits)

lemma signal_same: "condvar_signal now c k = Some (c', k') \<Longrightarrow> same_program k k'"
  by (auto simp: condvar_signal_def bind_Some_conv dest: wakeup_same split: list.splits)

lemma tick_same: "on_current_task_timer_tick now k = Some (b, k') \<Longrightarrow> same_program k k'"
  by (auto simp: on_current_task_timer_tick_def should_preempt_def same_program_def bind_Some_conv split: option.splits)

lemma check_timer_same: "check_timer ms now ts k = Some (ts', k') \<Longrightarrow> same_program k k'"
proof (induction ms now ts k rule: check_timer.induct)
  case (1 ms now ts k)
  show ?case
  proof (cases "timers_peek ts")
    case None
    with 1(2) show ?thesis by (simp add: check_timer.simps [of ms now ts k])
  next
    case (Some x)
    show ?thesis
    proof (cases "expire_ms x \<le> ms")
      case True
      with 1(2) Some obtain k1 where k1: "wakeup_task now (timer_task x) k = Some k1"
        "check_timer ms now (remove1 x ts) k1 = Some (ts', k')" by (auto simp: check_timer.simps [of ms now ts k] bind_Some_conv)
      from wakeup_same [OF k1(1)] 1(1) [OF Some True k1] show ?thesis by (rule same_program_trans)
    next
      case False
      with 1(2) Some show ?thesis by (simp add: check_timer.simps [of ms now ts k])
    qed
  qed
qed

lemma uart_same: "uart_handle_irq now bs u k = Some (u', k') \<Longrightarrow> same_program k k'"
  by (auto simp: uart_handle_irq_def Let_def bind_Some_conv dest: signal_same split: if_splits)

lemma input_same: "input_handle_irq now es d k = Some (d', k') \<Longrightarrow> same_program k k'"
  by (auto simp: input_handle_irq_def Let_def bind_Some_conv dest: signal_same split: if_splits)

lemma blk_same: "blk_handle_irq now tokens cvs k = Some (cvs', k') \<Longrightarrow> same_program k k'"
proof (induction tokens arbitrary: cvs k)
  case (Cons token tokens)
  then show ?case by (auto simp: bind_Some_conv dest!: signal_same intro: same_program_trans)
qed simp

lemma tty_same: "handle_uart_irq now bs tty k = Some (out, tty', k') \<Longrightarrow> same_program k k'"
proof -
  have g: "signal_fg sig y k = Some k' \<Longrightarrow> same_program k k'" for sig y k k'
    by (auto simp: signal_fg_def signal_process_group_def add_signal_all_eq current_add_signal_def same_program_def modify_pcb_def
        bind_Some_conv split: if_splits)
  assume "handle_uart_irq now bs tty k = Some (out, tty', k')"
  then show ?thesis
    by (auto simp: handle_uart_irq_def Let_def bind_Some_conv dest!: g signal_same intro: same_program_trans
        split: prod.splits if_splits option.splits)
qed

lemma uart_irq_same:
  assumes "uart_irq now bs m = Some m'"
  shows "same_program (kern (msys m)) (kern (msys m'))"
proof -
  from assms obtain u k where u: "uart_handle_irq now bs (uart m) (kern (msys m)) = Some (u, k)" by (auto simp: uart_irq_def bind_Some_conv)
  obtain input u' where d: "drain (length (read_buffer u)) u = (input, u')" by fastforce
  from assms u d obtain out tty k' where "handle_uart_irq now input (TTY (msys m)) k = Some (out, tty, k')" "kern (msys m') = k'"
    by (auto simp: uart_irq_def bind_Some_conv)
  with uart_same [OF u] tty_same show ?thesis using same_program_trans by blast
qed

lemma irq_handler_same:
  assumes "irq_handler inp now m = Some m'"
  shows "same_program (kern (msys m)) (kern (msys m'))"
  using assms
  by (auto simp: irq_handler_def put_kern_def Let_def bind_Some_conv dest!: input_same blk_same uart_irq_same split: if_splits)

lemma timer_irq_same:
  assumes "timer_irq inp now m = Some (b, m')"
  shows "same_program (kern (msys m)) (kern (msys m'))"
  using assms by (auto simp: timer_irq_def put_kern_def Let_def bind_Some_conv dest!: check_timer_same tick_same intro: same_program_trans)

lemma take_irqs_same: "take_irqs irq_list m = Some m' \<Longrightarrow> same_program (kern (msys m)) (kern (msys m'))"
proof (induction irq_list m rule: take_irqs.induct)
  case (2 cause inp irq_list m)
  from 2(2) obtain m1 where m1: "trap_from_kernel inp cause m = Some m1" "take_irqs irq_list m1 = Some m'" by (auto simp: bind_Some_conv)
  from m1(1) have "same_program (kern (msys m)) (kern (msys m1))"
    by (cases cause) (auto simp: trap_from_kernel_def bind_Some_conv dest: irq_handler_same timer_irq_same)
  with 2(1) [OF m1(1) m1(2)] show ?case using same_program_trans by blast
qed simp

text \<open>C40: system calls as the program sees them. When the trap of a call returns to the program, the call
  in register a7 has been carried out on the arguments in a0 to a2, in a state that differs from the
  one at the trap only in the saved program counter, which is advanced by four, and in what the
  interrupts taken before the call have changed. Afterwards the saved registers of the thread differ
  from what the call, and the interrupts taken after it, have left only in a0, which holds the result;
  apart from scheduling records and pending signals nothing else has changed, and the program goes on
  with its own trap context and page table.\<close>

theorem system_call_result:
  assumes "trap_handler inp UserEnvCall stval m = Some (ToUser va satp m')" and "running (kern (msys m)) = Some t"
    and "cx = trap_cx_of (kern (msys m)) t" and "regs = phys (mem (kern (msys m))) cx"
  shows "\<exists>now v m0 m1 m2 t1 k1 k'. get_time_ticks (clock_freq inp) (time_reg inp) = Some now
    \<and> take_irqs (irqs_before inp)
        (put_kern ((kern (msys m))\<lparr>mem := put_words (mem (kern (msys m))) cx 33 [regs 33 + 4]\<rparr>) m) = Some m0
    \<and> syscall inp now (regs 17) [regs 10, regs 11, regs 12] m0 = Some (Returns v m1)
    \<and> take_irqs (irqs_after inp) m1 = Some m2
    \<and> k1 = kern (msys m2) \<and> m' = put_kern k' m2 \<and> running k1 = Some t1
    \<and> same_but_signals (k1\<lparr>mem := put_words (mem k1) (trap_cx_of k1 t1) 10 [v]\<rparr>) k'
    \<and> current_trap_cx_user_va k1 = Some va \<and> current_user_token k1 = Some satp"
proof -
  let ?k = "kern (msys m)" let ?m0 = "put_kern (?k\<lparr>mem := put_words (mem ?k) cx 33 [regs 33 + 4]\<rparr>) m"
  have cx: "current_trap_cx ?k = Some cx" using assms(2,3) by (simp add: current_trap_cx_def current_task_def)
  have p: "get_reg m SEPC = Some (regs 33)" "set_reg SEPC (regs 33 + 4) m = Some ?m0"
    using cx assms(4) by (simp_all add: get_reg_def set_reg_def SEPC_def Let_def)
  from assms(1) p obtain m0 where m0: "take_irqs (irqs_before inp) ?m0 = Some m0" by (auto simp: trap_handler_def user_call_def bind_Some_conv)
  have "current_trap_cx (kern (msys m0)) = Some cx" "mem (kern (msys m0)) = put_words (mem ?k) cx 33 [regs 33 + 4]"
    using take_irqs_same [OF m0] assms(2,3) by (simp_all add: same_program_def current_trap_cx_def current_task_def)
  then have r: "get_reg m0 REG_A7 = Some (regs 17)" "get_reg m0 10 = Some (regs 10)" "get_reg m0 11 = Some (regs 11)" "get_reg m0 12 = Some (regs 12)"
    using assms(4) by (simp_all add: get_reg_def REG_A7_def put_words_def)
  let ?after = "\<lambda>now v m1. do { m \<leftarrow> take_irqs (irqs_after inp) m1; m \<leftarrow> set_reg REG_A0 v m; (preempt, k) \<leftarrow> should_preempt_current_task now (kern (msys m));
        if preempt then do { k \<leftarrow> suspend_current_and_run_next now k; Some (Away (put_kern k m)) } else trap_tail (put_kern k m) }"
  from assms(1) p m0 r obtain now rep where c1: "get_time_ticks (clock_freq inp) (time_reg inp) = Some now"
    "syscall inp now (regs 17) [regs 10, regs 11, regs 12] m0 = Some rep"
    "(case rep of Halts b \<Rightarrow> Some (Off b) | Parked m \<Rightarrow> Some (Away m) | Returns v m1 \<Rightarrow> ?after now v m1) = Some (ToUser va satp m')"
    by (auto simp: trap_handler_def user_call_def Option.bind_eq_Some_conv [of "get_time_ticks (clock_freq inp) (time_reg inp)"]
        Option.bind_eq_Some_conv [of "syscall a b c d e" for a b c d e])
  then obtain v m1 where c: "get_time_ticks (clock_freq inp) (time_reg inp) = Some now"
    "syscall inp now (regs 17) [regs 10, regs 11, regs 12] m0 = Some (Returns v m1)"
    and u: "?after now v m1 = Some (ToUser va satp m')"
    by (cases rep) simp_all
  from u obtain m2 where m2: "take_irqs (irqs_after inp) m1 = Some m2" by (auto simp: bind_Some_conv)
  let ?k1 = "kern (msys m2)"
  from u m2 obtain cx1 k2 where s: "current_trap_cx ?k1 = Some cx1"
    "should_preempt_current_task now (?k1\<lparr>mem := put_words (mem ?k1) cx1 10 [v]\<rparr>) = Some (False, k2)"
    "trap_tail (put_kern k2 m2) = Some (ToUser va satp m')"
    by (auto simp: set_reg_def REG_A0_def Let_def bind_Some_conv split: if_splits)
  from s(1) obtain t1 where t1: "running ?k1 = Some t1" "cx1 = trap_cx_of ?k1 t1"
    by (auto simp: current_trap_cx_def current_task_def bind_Some_conv)
  let ?k1' = "?k1\<lparr>mem := put_words (mem ?k1) (trap_cx_of ?k1 t1) 10 [v]\<rparr>"
  obtain k' where k': "m' = put_kern k' (put_kern k2 m2)" "same_but_signals (kern (msys (put_kern k2 m2))) k'"
    "current_trap_cx_user_va k' = Some va" "current_user_token k' = Some satp" by (rule tail_to_user [OF s(3)])
  have same: "same_but_signals ?k1' k'"
    using same_but_signals_trans [OF preempt_same [OF s(2)]] k'(2) t1(2) by simp
  have "pcb_memory_set (pcbs k' q) = pcb_memory_set (pcbs ?k1 q)" for q
  proof -
    have "(pcbs k' q)\<lparr>signals := 0\<rparr> = (pcbs ?k1 q)\<lparr>signals := 0\<rparr>" using same by (simp add: same_but_signals_def)
    then have "pcb_memory_set ((pcbs k' q)\<lparr>signals := 0\<rparr>) = pcb_memory_set ((pcbs ?k1 q)\<lparr>signals := 0\<rparr>)" by (rule arg_cong)
    then show ?thesis by simp
  qed
  with same k'(3,4) have "current_trap_cx_user_va ?k1 = Some va" "current_user_token ?k1 = Some satp"
    by (simp_all add: same_but_signals_def current_trap_cx_user_va_def current_user_token_def current_task_def)
  with c m0 m2 t1(1) k'(1) same show ?thesis by auto
qed

text \<open>A program that asks for its process id.\<close>

definition call_machine :: machine where
  "call_machine = put_kern (example_kernel\<lparr>mem := \<lparr>frames = frame_allocator_new, phys = (\<lambda>_ j. if j = 17 then 172 else 0)\<rparr>\<rparr>) example_machine"

lemma tail_quiet:
  assumes "running k = Some t" "signals (pcbs k (process_of k t)) = 0" "res_of k t = Some r"
  shows "\<exists>va satp m'. trap_tail (put_kern k m) = Some (ToUser va satp m')"
proof -
  let ?p = "process_of k t"
  let ?k = "modify_pcb ?p (\<lambda>b. b\<lparr>signals := 0\<rparr>) k"
  have cur: "current_process k = Some ?p" "current_process ?k = Some ?p"
    using assms(1) by (simp_all add: current_process_def current_task_def modify_pcb_def)
  have z: "\<not> flags_contains 0 SIGTSTP" "flags_remove 0 SIGTSTP = 0" "flags_remove 0 SIGCONT = 0" "check_error 0 = None"
    by (simp_all add: flags_remove_def signal_bits check_error_def)
  have k: "modify_pcb ?p (\<lambda>b. b\<lparr>signals := 0\<rparr>) k = k" using assms(2) by (simp add: modify_pcb_def fun_upd_idem)
  have m: "modify_pcb ?p (\<lambda>b. b\<lparr>signals := flags_remove (signals b) s\<rparr>) k = modify_pcb ?p (\<lambda>b. b\<lparr>signals := flags_remove 0 s\<rparr>) k" for s
    using assms(2) by (simp add: modify_pcb_def)
  have "check_stop_signal_of_current k = Some (False, k)"
    using cur(1) assms(2) z(1,2) k m [of SIGTSTP] by (simp add: check_stop_signal_of_current_def Let_def)
  moreover have "clear_cont_signal_of_current k = Some k"
    using cur(1) z(3) k m [of SIGCONT] by (simp add: clear_cont_signal_of_current_def)
  moreover have "check_signals_of_current k = Some None" using cur(1) assms(2) z(4) by (simp add: check_signals_of_current_def)
  ultimately show ?thesis using assms(1,3)
    by (simp add: trap_tail_def after_stop_def trap_return_def current_trap_cx_user_va_def current_user_token_def current_task_def)
qed

lemma example_irqs: "irqs_before example_inputs = []" "irqs_after example_inputs = []"
  by (simp_all add: example_inputs_def)

lemma syscall_getpid: "syscall inp now 172 args m = (case sys_getpid (kern (msys m)) of None \<Rightarrow> None | Some v \<Rightarrow> Some (Returns v m))"
  by (simp add: syscall_def syscall_numbers Let_def split: option.splits)

lemma example_call: "\<exists>va satp m'. trap_handler example_inputs UserEnvCall 0 call_machine = Some (ToUser va satp m')"
proof -
  have n: "get_time_ticks (clock_freq example_inputs) (time_reg example_inputs) = Some 0"
    by (simp add: get_time_ticks_def checked_div_def example_inputs_def TICKS_PER_SEC_def)
  let ?mem = "\<lparr>frames = frame_allocator_new, phys = (\<lambda>_ j. if j = 17 then 172 else 0)\<rparr> :: kmem"
  let ?K = "\<lambda>mm. example_kernel\<lparr>mem := mm\<rparr>"
  have f: "running (?K mm) = Some 1" "trap_cx_of (?K mm) = (\<lambda>_. PhysPageNum 0)" "sys_getpid (?K mm) = Some 2" for mm
    by (simp_all add: example_kernel_def sys_getpid_def current_process_def current_task_def example_pcb_def)
  have cx: "current_trap_cx (?K mm) = Some (PhysPageNum 0)" for mm using f by (simp add: current_trap_cx_def current_task_def)
  have pre: "should_preempt_current_task 0 (?K mm) = Some (False, ?K mm)" for mm
    by (simp add: should_preempt_current_task_def current_task_def should_preempt_def example_kernel_def rr_should_preempt_def no_task_def
        ROUND_ROBIN_TIME_SLICE_def)
  have reg: "get_reg (put_kern (?K mm) m) i = Some (phys mm (PhysPageNum 0) i)"
    "set_reg i v (put_kern (?K mm) m) = Some (put_kern (?K (put_words mm (PhysPageNum 0) i [v])) m)" for mm m i v
    using cx by (simp_all add: get_reg_def set_reg_def Let_def)
  have "\<exists>va satp m'. trap_tail (put_kern (?K mm) example_machine) = Some (ToUser va satp m')" for mm
    by (rule tail_quiet [of _ 1]) (simp_all add: example_kernel_def example_pcb_def)
  then show ?thesis unfolding call_machine_def trap_handler_def n
    by (simp add: user_call_def reg put_words_def SEPC_def REG_A7_def REG_A0_def syscall_getpid f pre example_irqs)
qed

theorem system_call_result_witness:
  "\<exists>va satp m'. trap_handler example_inputs UserEnvCall 0 call_machine = Some (ToUser va satp m')
     \<and> phys (mem (kern (msys m'))) (PhysPageNum 0) 10 = 2 \<and> phys (mem (kern (msys m'))) (PhysPageNum 0) 33 = 4"
proof -
  obtain va satp m' where e: "trap_handler example_inputs UserEnvCall 0 call_machine = Some (ToUser va satp m')" using example_call by blast
  have k: "kern (msys call_machine) = example_kernel\<lparr>mem := \<lparr>frames = frame_allocator_new, phys = (\<lambda>_ j. if j = 17 then 172 else 0)\<rparr>\<rparr>"
    by (simp add: call_machine_def)
  have h: "running (kern (msys call_machine)) = Some 1" "PhysPageNum 0 = trap_cx_of (kern (msys call_machine)) 1"
    "(\<lambda>j. if j = 17 then 172 else 0) = phys (mem (kern (msys call_machine))) (PhysPageNum 0)" by (simp_all add: k example_kernel_def)
  from system_call_result [OF e h] obtain v m1 t1 k' where
    w: "syscall example_inputs now 172 args (put_kern ((kern (msys call_machine))\<lparr>mem := put_words (mem (kern (msys call_machine))) (PhysPageNum 0) 33 [4]\<rparr>) call_machine)
        = Some (Returns v m1)" "m' = put_kern k' m1"
      "running (kern (msys m1)) = Some t1" "same_but_signals ((kern (msys m1))\<lparr>mem := put_words (mem (kern (msys m1))) (trap_cx_of (kern (msys m1)) t1) 10 [v]\<rparr>) k'"
    for now args by (auto simp: syscall_getpid example_irqs)
  have "v = 2" "kern (msys m1) = (kern (msys call_machine))\<lparr>mem := put_words (mem (kern (msys call_machine))) (PhysPageNum 0) 33 [4]\<rparr>"
    using w(1) by (auto simp: syscall_getpid k sys_getpid_def current_process_def current_task_def example_kernel_def example_pcb_def)
  with e w(2,4) show ?thesis by (auto simp: same_but_signals_def k example_kernel_def put_words_def)
qed

end
