(* ===== verification/LineEditor.thy ===== *)
theory LineEditor
  imports Utf8 Simulation
begin

section \<open>The shell's line editor\<close>

text \<open>
  user/src/bin/user_shell.rs, \<^verbatim>\<open>LineEditor\<close>: a line of bytes with a cursor, a history of lines, and the
  names known for completion. An operation returns the changed editor and the writes to the standard
  output that it makes, in order: the redraw of the line, and the list of candidates of a completion.
  The kernel prints a write slice by slice, one slice per page of the caller, and unwraps each slice as
  a string; how a buffer falls on pages is the argument \<open>pages\<close>. Each read of a byte from the terminal either
  yields a byte or fails, so the input is a list of options; when it is used up the editor waits for more.
\<close>

type_synonym bytes = "u8 list"

definition MAX_HISTORY :: nat where "MAX_HISTORY = 100"

definition str_bytes :: "string \<Rightarrow> bytes" where
  "str_bytes s = map of_char s"

text \<open>\<^verbatim>\<open>Vec::insert\<close> and \<^verbatim>\<open>Vec::remove\<close>.\<close>

definition vec_insert :: "'a list \<Rightarrow> nat \<Rightarrow> 'a \<Rightarrow> 'a list outcome" where
  "vec_insert xs i x = (if i \<le> length xs then Some (take i xs @ x # drop i xs) else None)"

definition vec_remove :: "'a list \<Rightarrow> nat \<Rightarrow> 'a list outcome" where
  "vec_remove xs i = (if i < length xs then Some (take i xs @ drop (Suc i) xs) else None)"

record line_editor =
  buf :: bytes
  cursor :: nat
  history :: "bytes list"
  hist_idx :: "nat option"
  app_names :: "bytes list"

definition line_editor_new :: "bytes list \<Rightarrow> line_editor" where
  "line_editor_new names = \<lparr>buf = [], cursor = 0, history = [], hist_idx = None, app_names = names\<rparr>"

subsection \<open>Redrawing\<close>

text \<open>The working directory as \<^verbatim>\<open>getcwd\<close> delivers it; None when the call fails.\<close>

definition make_prompt :: "bytes option \<Rightarrow> bytes" where
  "make_prompt cwd =
     (case cwd of Some p \<Rightarrow> if p \<noteq> [] \<and> utf8_ok p then p else str_bytes ''/'' | None \<Rightarrow> str_bytes ''/'') @ str_bytes ''>> ''"

fun decimal :: "nat \<Rightarrow> bytes" where
  "decimal n = (if n < 10 then [] else decimal (n div 10)) @ [of_nat (48 + n mod 10)]"

declare decimal.simps [simp del]

definition refresh :: "bytes option \<Rightarrow> line_editor \<Rightarrow> bytes list" where
  "refresh cwd e =
     [[0x0D, 0x1B, 0x5B, 0x4B], make_prompt cwd, buf e]
     @ (if cursor e < length (buf e) then [[0x1B, 0x5B], decimal (length (buf e) - cursor e), [0x44]] else [])"

definition redrawn :: "bytes option \<Rightarrow> line_editor \<Rightarrow> (line_editor \<times> bytes list) outcome" where
  "redrawn cwd e = Some (e, refresh cwd e)"

subsection \<open>Editing\<close>

definition ed_insert :: "bytes option \<Rightarrow> u8 \<Rightarrow> line_editor \<Rightarrow> (line_editor \<times> bytes list) outcome" where
  "ed_insert cwd c e = do { b \<leftarrow> vec_insert (buf e) (cursor e) c; redrawn cwd (e\<lparr>buf := b, cursor := cursor e + 1\<rparr>) }"

definition ed_backspace :: "bytes option \<Rightarrow> line_editor \<Rightarrow> (line_editor \<times> bytes list) outcome" where
  "ed_backspace cwd e =
     (if 0 < cursor e then do {
        b \<leftarrow> vec_remove (buf e) (cursor e - 1);
        redrawn cwd (e\<lparr>buf := b, cursor := cursor e - 1\<rparr>)
      }
      else Some (e, []))"

definition move_left :: "bytes option \<Rightarrow> line_editor \<Rightarrow> (line_editor \<times> bytes list) outcome" where
  "move_left cwd e = (if 0 < cursor e then redrawn cwd (e\<lparr>cursor := cursor e - 1\<rparr>) else Some (e, []))"

definition move_right :: "bytes option \<Rightarrow> line_editor \<Rightarrow> (line_editor \<times> bytes list) outcome" where
  "move_right cwd e = (if cursor e < length (buf e) then redrawn cwd (e\<lparr>cursor := cursor e + 1\<rparr>) else Some (e, []))"

definition ed_home :: "bytes option \<Rightarrow> line_editor \<Rightarrow> (line_editor \<times> bytes list) outcome" where
  "ed_home cwd e = redrawn cwd (e\<lparr>cursor := 0\<rparr>)"

definition ed_end :: "bytes option \<Rightarrow> line_editor \<Rightarrow> (line_editor \<times> bytes list) outcome" where
  "ed_end cwd e = redrawn cwd (e\<lparr>cursor := length (buf e)\<rparr>)"

definition kill_line :: "bytes option \<Rightarrow> line_editor \<Rightarrow> (line_editor \<times> bytes list) outcome" where
  "kill_line cwd e = redrawn cwd (e\<lparr>buf := [], cursor := 0\<rparr>)"

definition kill_to_end :: "bytes option \<Rightarrow> line_editor \<Rightarrow> (line_editor \<times> bytes list) outcome" where
  "kill_to_end cwd e = redrawn cwd (e\<lparr>buf := take (cursor e) (buf e)\<rparr>)"

definition delete_char :: "bytes option \<Rightarrow> line_editor \<Rightarrow> (line_editor \<times> bytes list) outcome" where
  "delete_char cwd e =
     (if cursor e < length (buf e) then do { b \<leftarrow> vec_remove (buf e) (cursor e); redrawn cwd (e\<lparr>buf := b\<rparr>) }
      else Some (e, []))"

definition is_ascii_whitespace :: "u8 \<Rightarrow> bool" where
  "is_ascii_whitespace b \<longleftrightarrow> b = 0x20 \<or> b = 0x09 \<or> b = 0x0A \<or> b = 0x0C \<or> b = 0x0D"

fun delete_while :: "(u8 \<Rightarrow> bool) \<Rightarrow> nat \<Rightarrow> bytes \<Rightarrow> (nat \<times> bytes) outcome" where
  "delete_while P 0 b = Some (0, b)"
| "delete_while P (Suc i) b = do {
     x \<leftarrow> idx b i;
     if P x then do { b \<leftarrow> vec_remove b i; delete_while P i b } else Some (Suc i, b)
   }"

definition delete_word :: "bytes option \<Rightarrow> line_editor \<Rightarrow> (line_editor \<times> bytes list) outcome" where
  "delete_word cwd e = do {
     (i, b) \<leftarrow> delete_while is_ascii_whitespace (cursor e) (buf e);
     (i, b) \<leftarrow> delete_while (\<lambda>x. \<not> is_ascii_whitespace x) i b;
     redrawn cwd (e\<lparr>buf := b, cursor := i\<rparr>)
   }"

subsection \<open>Completion\<close>

definition starts_with :: "'a list \<Rightarrow> 'a list \<Rightarrow> bool" where
  "starts_with p xs \<longleftrightarrow> take (length p) xs = p"

definition builtin_names :: "bytes list" where
  "builtin_names = map str_bytes [''cd'', ''pwd'', ''echo'', ''exit'', ''history'', ''jobs'', ''fg'', ''bg'', ''kill'', ''help'', ''clear'']"

fun add_builtins :: "bytes \<Rightarrow> bytes list \<Rightarrow> bytes list \<Rightarrow> bytes list" where
  "add_builtins p [] ms = ms"
| "add_builtins p (b # bs) ms = add_builtins p bs (if starts_with p b \<and> b \<notin> set ms then ms @ [b] else ms)"

definition candidates :: "bytes list \<Rightarrow> bytes \<Rightarrow> bytes list" where
  "candidates names word = (
     let p = from_utf8_lossy word in add_builtins p builtin_names (filter (starts_with p) names))"

definition is_separator :: "u8 \<Rightarrow> bool" where
  "is_separator b \<longleftrightarrow> b = 0x20 \<or> b = 0x7C \<or> b = 0x3C"

definition rposition :: "('a \<Rightarrow> bool) \<Rightarrow> 'a list \<Rightarrow> nat option" where
  "rposition P xs = map_option (\<lambda>i. length xs - 1 - i) (position P (rev xs))"

text \<open>Several candidates are listed, each followed by two spaces.\<close>

definition listing :: "bytes list \<Rightarrow> bytes list" where
  "listing ms = [[0x0A]] @ concat (map (\<lambda>m. [m, [0x20, 0x20]]) ms) @ [[0x0A]]"

definition complete :: "bytes option \<Rightarrow> line_editor \<Rightarrow> (line_editor \<times> bytes list) outcome" where
  "complete cwd e = do {
     _ \<leftarrow> ensure (cursor e \<le> length (buf e));
     let head = take (cursor e) (buf e);
     let start = (case rposition is_separator head of Some i \<Rightarrow> i + 1 | None \<Rightarrow> 0);
     case candidates (app_names e) (drop start head) of
       [] \<Rightarrow> Some (e, [])
     | [nm] \<Rightarrow> do {
         let b = take start (buf e) @ nm @ drop (cursor e) (buf e);
         b \<leftarrow> vec_insert b (start + length nm) 0x20;
         redrawn cwd (e\<lparr>buf := b, cursor := start + length nm + 1\<rparr>)
       }
     | ms \<Rightarrow> Some (e, listing ms @ refresh cwd e)
   }"

subsection \<open>History\<close>

definition history_prev :: "bytes option \<Rightarrow> line_editor \<Rightarrow> (line_editor \<times> bytes list) outcome" where
  "history_prev cwd e =
     (if history e = [] then Some (e, [])
      else let i = (case hist_idx e of None \<Rightarrow> length (history e) - 1 | Some i \<Rightarrow> i - 1) in do {
        b \<leftarrow> idx (history e) i;
        redrawn cwd (e\<lparr>hist_idx := Some i, buf := b, cursor := length b\<rparr>)
      })"

definition history_next :: "bytes option \<Rightarrow> line_editor \<Rightarrow> (line_editor \<times> bytes list) outcome" where
  "history_next cwd e = (case hist_idx e of
     None \<Rightarrow> Some (e, [])
   | Some i \<Rightarrow>
       if i + 1 < length (history e) then do {
         b \<leftarrow> idx (history e) (i + 1);
         redrawn cwd (e\<lparr>hist_idx := Some (i + 1), buf := b, cursor := length b\<rparr>)
       }
       else redrawn cwd (e\<lparr>hist_idx := None, buf := [], cursor := 0\<rparr>))"

text \<open>The same history discipline is used by the shell for its own list.\<close>

definition push_history :: "'a list \<Rightarrow> 'a list list \<Rightarrow> 'a list list" where
  "push_history line h =
     (if line = [] \<or> h \<noteq> [] \<and> last h = line then h
      else let h = h @ [line] in if MAX_HISTORY < length h then tl h else h)"

definition add_history :: "bytes \<Rightarrow> line_editor \<Rightarrow> line_editor" where
  "add_history line e =
     (if line = [] \<or> history e \<noteq> [] \<and> last (history e) = line then e
      else e\<lparr>history := push_history line (history e), hist_idx := None\<rparr>)"

subsection \<open>Reading a line\<close>

datatype key = Insert u8 | Backspace | Home | End | KillLine | KillToEnd | DeleteWord | Complete
  | HistoryPrev | HistoryNext | MoveRight | MoveLeft | DeleteChar

fun press :: "bytes option \<Rightarrow> line_editor \<Rightarrow> key \<Rightarrow> (line_editor \<times> bytes list) outcome" where
  "press cwd e (Insert c) = ed_insert cwd c e"
| "press cwd e Backspace = ed_backspace cwd e"
| "press cwd e Home = ed_home cwd e"
| "press cwd e End = ed_end cwd e"
| "press cwd e KillLine = kill_line cwd e"
| "press cwd e KillToEnd = kill_to_end cwd e"
| "press cwd e DeleteWord = delete_word cwd e"
| "press cwd e Complete = complete cwd e"
| "press cwd e HistoryPrev = history_prev cwd e"
| "press cwd e HistoryNext = history_next cwd e"
| "press cwd e MoveRight = move_right cwd e"
| "press cwd e MoveLeft = move_left cwd e"
| "press cwd e DeleteChar = delete_char cwd e"

text \<open>The editor after a key, whatever becomes of the writes.\<close>

definition edit :: "bytes option \<Rightarrow> line_editor \<Rightarrow> key \<Rightarrow> line_editor outcome" where
  "edit cwd e k = map_option fst (press cwd e k)"

definition control_key :: "u8 \<Rightarrow> key option" where
  "control_key c =
     (if c = 0x08 \<or> c = 0x7F then Some Backspace
      else if c = 0x01 then Some Home
      else if c = 0x05 then Some End
      else if c = 0x15 then Some KillLine
      else if c = 0x0B then Some KillToEnd
      else if c = 0x17 then Some DeleteWord
      else if c = 0x09 then Some Complete
      else if 0x20 \<le> c then Some (Insert c)
      else None)"

text \<open>An escape sequence after its first byte: the key it stands for, if any, and the input left; None
  when the input ends in the middle.\<close>

fun escape :: "u8 option list \<Rightarrow> (key option \<times> u8 option list) option" where
  "escape [] = None"
| "escape (a # is) =
     (if a \<noteq> Some 0x5B then Some (None, is)
      else (case is of
         [] \<Rightarrow> None
       | b # is' \<Rightarrow>
           if b = Some 0x41 then Some (Some HistoryPrev, is')
           else if b = Some 0x42 then Some (Some HistoryNext, is')
           else if b = Some 0x43 then Some (Some MoveRight, is')
           else if b = Some 0x44 then Some (Some MoveLeft, is')
           else if b = Some 0x48 then Some (Some Home, is')
           else if b = Some 0x46 then Some (Some End, is')
           else if b = Some 0x33 then
             (case is' of [] \<Rightarrow> None | c # is'' \<Rightarrow> Some (if c = Some 0x7E then Some DeleteChar else None, is''))
           else Some (None, is')))"

lemma escape_length: "escape is = Some (k, rest) \<Longrightarrow> length rest < length is"
  by (cases "is") (auto split: list.splits if_splits)

datatype read_result = Line bytes | Eof | Pending

text \<open>Writes to the standard output: the kernel prints the slices of each of them.\<close>

definition write_all :: "(bytes \<Rightarrow> bytes list) \<Rightarrow> bytes list \<Rightarrow> bytes outcome" where
  "write_all pages ws = print_slices (concat (map pages ws))"

definition press_opt :: "(bytes \<Rightarrow> bytes list) \<Rightarrow> bytes option \<Rightarrow> line_editor \<Rightarrow> key option \<Rightarrow> (line_editor \<times> bytes) outcome" where
  "press_opt pages cwd e k = (case k of
     None \<Rightarrow> Some (e, [])
   | Some k \<Rightarrow> do { (e, ws) \<leftarrow> press cwd e k; shown \<leftarrow> write_all pages ws; Some (e, shown) })"

text \<open>The loop, with what has been printed: the result, the editor, the input left and the screen.\<close>

function read_keys :: "(bytes \<Rightarrow> bytes list) \<Rightarrow> bytes option \<Rightarrow> line_editor \<Rightarrow> bytes \<Rightarrow> u8 option list
    \<Rightarrow> (read_result \<times> line_editor \<times> u8 option list \<times> bytes) outcome" where
  "read_keys pages cwd e out [] = Some (Pending, e, [], out)"
| "read_keys pages cwd e out (None # is) = Some (Eof, e, is, out)"
| "read_keys pages cwd e out (Some c # is) =
     (if c = 0x0A \<or> c = 0x0D then do {
        shown \<leftarrow> write_all pages [[0x0D, 0x0A]];
        Some (Line (buf e), e\<lparr>buf := [], cursor := 0, hist_idx := None\<rparr>, is, out @ shown)
      }
      else if c = 0x04 then
        (if buf e = [] then do { shown \<leftarrow> write_all pages [[0x0D, 0x0A]]; Some (Eof, e, is, out @ shown) }
         else read_keys pages cwd e out is)
      else if c = 0x1B then
        (case escape is of
           None \<Rightarrow> Some (Pending, e, [], out)
         | Some (k, rest) \<Rightarrow>
             (case press_opt pages cwd e k of None \<Rightarrow> None | Some (e', shown) \<Rightarrow> read_keys pages cwd e' (out @ shown) rest))
      else
        (case press_opt pages cwd e (control_key c) of
           None \<Rightarrow> None
         | Some (e', shown) \<Rightarrow> read_keys pages cwd e' (out @ shown) is))"
  by pat_completeness auto
termination
  by (relation "measure (\<lambda>(pages, cwd, e, out, is). length is)") (auto dest: escape_length)

definition readline :: "(bytes \<Rightarrow> bytes list) \<Rightarrow> bytes option \<Rightarrow> line_editor \<Rightarrow> u8 option list
    \<Rightarrow> (read_result \<times> line_editor \<times> u8 option list \<times> bytes) outcome" where
  "readline pages cwd e inp = do { shown \<leftarrow> write_all pages (refresh cwd e); read_keys pages cwd e shown inp }"

subsection \<open>What the keys promise\<close>

text \<open>The line as the text before and after the cursor.\<close>

record zipper =
  before :: bytes
  after :: bytes
  past :: "bytes list"
  at :: "nat option"
  known :: "bytes list"

definition show_line :: "bytes \<Rightarrow> nat option \<Rightarrow> zipper \<Rightarrow> zipper" where
  "show_line b i z = z\<lparr>before := b, after := [], at := i\<rparr>"

definition drop_end :: "('a \<Rightarrow> bool) \<Rightarrow> 'a list \<Rightarrow> 'a list" where
  "drop_end P xs = rev (dropWhile P (rev xs))"

fun zpress :: "zipper \<Rightarrow> key \<Rightarrow> zipper" where
  "zpress z (Insert c) = z\<lparr>before := before z @ [c]\<rparr>"
| "zpress z Backspace = z\<lparr>before := butlast (before z)\<rparr>"
| "zpress z Home = z\<lparr>before := [], after := before z @ after z\<rparr>"
| "zpress z End = z\<lparr>before := before z @ after z, after := []\<rparr>"
| "zpress z KillLine = z\<lparr>before := [], after := []\<rparr>"
| "zpress z KillToEnd = z\<lparr>after := []\<rparr>"
| "zpress z DeleteWord = z\<lparr>before := drop_end (\<lambda>x. \<not> is_ascii_whitespace x) (drop_end is_ascii_whitespace (before z))\<rparr>"
| "zpress z Complete = (
     let stem = drop_end (\<lambda>x. \<not> is_separator x) (before z) in
     case candidates (known z) (drop (length stem) (before z)) of
       [nm] \<Rightarrow> z\<lparr>before := stem @ nm @ [0x20]\<rparr>
     | _ \<Rightarrow> z)"
| "zpress z HistoryPrev =
     (if past z = [] then z
      else let i = (case at z of None \<Rightarrow> length (past z) - 1 | Some i \<Rightarrow> i - 1) in show_line (past z ! i) (Some i) z)"
| "zpress z HistoryNext = (case at z of
     None \<Rightarrow> z
   | Some i \<Rightarrow> if i + 1 < length (past z) then show_line (past z ! (i + 1)) (Some (i + 1)) z else show_line [] None z)"
| "zpress z MoveRight = (case after z of [] \<Rightarrow> z | c # cs \<Rightarrow> z\<lparr>before := before z @ [c], after := cs\<rparr>)"
| "zpress z MoveLeft = (if before z = [] then z else z\<lparr>before := butlast (before z), after := last (before z) # after z\<rparr>)"
| "zpress z DeleteChar = z\<lparr>after := tl (after z)\<rparr>"

definition zip_of :: "line_editor \<Rightarrow> zipper" where
  "zip_of e = \<lparr>before = take (cursor e) (buf e), after = drop (cursor e) (buf e), past = history e, at = hist_idx e, known = app_names e\<rparr>"

definition ed_inv :: "line_editor \<Rightarrow> bool" where
  "ed_inv e \<longleftrightarrow> cursor e \<le> length (buf e) \<and> length (history e) \<le> MAX_HISTORY
     \<and> (\<forall>i. hist_idx e = Some i \<longrightarrow> i < length (history e))"

lemma drop_end_length: "length (drop_end P xs) \<le> length xs"
  using length_dropWhile_le [of P "rev xs"] by (simp add: drop_end_def)

lemma drop_end_take: "drop_end P xs = take (length (drop_end P xs)) xs"
proof -
  have "xs = rev (takeWhile P (rev xs) @ dropWhile P (rev xs))" by simp
  then have "xs = drop_end P xs @ rev (takeWhile P (rev xs))" by (simp only: drop_end_def rev_append)
  then show ?thesis by (metis append_eq_conv_conj)
qed

lemma drop_end_snoc: "drop_end P (xs @ [x]) = (if P x then drop_end P xs else xs @ [x])"
  by (simp add: drop_end_def)

lemma delete_while_ok:
  "i \<le> length b \<Longrightarrow> delete_while P i b = Some (length (drop_end P (take i b)), drop_end P (take i b) @ drop i b)"
proof (induction i arbitrary: b)
  case 0
  then show ?case by (simp add: drop_end_def)
next
  case (Suc i)
  then have lt: "i < length b" by simp
  have t: "take (Suc i) b = take i b @ [b ! i]" using lt by (rule take_Suc_conv_app_nth)
  show ?case
  proof (cases "P (b ! i)")
    case True
    let ?b = "take i b @ drop (Suc i) b"
    have "delete_while P i ?b = Some (length (drop_end P (take i ?b)), drop_end P (take i ?b) @ drop i ?b)"
      using lt by (intro Suc.IH) simp
    then show ?thesis using True lt t by (simp add: idx_in_range vec_remove_def drop_end_snoc)
  next
    case False
    then show ?thesis using lt t id_take_nth_drop [OF lt] by (simp add: idx_in_range drop_end_snoc)
  qed
qed

lemma separator_start:
  "(case rposition is_separator xs of Some i \<Rightarrow> i + 1 | None \<Rightarrow> 0) = length (drop_end (\<lambda>x. \<not> is_separator x) xs)"
proof (induction xs rule: rev_induct)
  case Nil
  then show ?case by (simp add: rposition_def drop_end_def)
next
  case (snoc x xs)
  show ?case
  proof (cases "is_separator x")
    case False
    have "(case rposition is_separator (xs @ [x]) of Some i \<Rightarrow> i + 1 | None \<Rightarrow> 0) = (case rposition is_separator xs of Some i \<Rightarrow> i + 1 | None \<Rightarrow> 0)"
      using False by (cases "position is_separator (rev xs)") (simp_all add: rposition_def del: position_None)
    with snoc False show ?thesis by (simp add: drop_end_snoc)
  qed (simp add: rposition_def drop_end_snoc)
qed

lemma zip_parts: "before (zip_of e) = take (cursor e) (buf e)" "after (zip_of e) = drop (cursor e) (buf e)"
  "past (zip_of e) = history e" "at (zip_of e) = hist_idx e" "known (zip_of e) = app_names e"
  by (simp_all add: zip_of_def)

lemma zipper_eqI:
  "before z = before z' \<Longrightarrow> after z = after z' \<Longrightarrow> past z = past z' \<Longrightarrow> at z = at z' \<Longrightarrow> known z = known z' \<Longrightarrow> z = (z' :: zipper)"
  by simp

text \<open>Editing changes only the line and the cursor.\<close>

lemma edit_ok:
  assumes "ed_inv e" "b = l @ r" "i = length l"
  shows "ed_inv (e\<lparr>buf := b, cursor := i\<rparr>)" "zip_of (e\<lparr>buf := b, cursor := i\<rparr>) = (zip_of e)\<lparr>before := l, after := r\<rparr>"
  using assms by (simp_all add: ed_inv_def zip_of_def)

lemma butlast_take_pred: "0 < i \<Longrightarrow> i \<le> length xs \<Longrightarrow> butlast (take i xs) = take (i - 1) xs"
  by (simp add: butlast_take)

lemma drop_pred: "0 < i \<Longrightarrow> i \<le> length xs \<Longrightarrow> drop (i - Suc 0) xs = last (take i xs) # drop i xs"
  by (cases i) (simp_all add: Cons_nth_drop_Suc take_Suc_conv_app_nth)

lemma edit_key_ok:
  assumes inv: "ed_inv e"
  shows "\<exists>e'. edit cwd e k = Some e' \<and> ed_inv e' \<and> zip_of e' = zpress (zip_of e) k"
proof (cases k)
  case (Insert c)
  with inv edit_ok [OF inv, of "take (cursor e) (buf e) @ c # drop (cursor e) (buf e)" "take (cursor e) (buf e) @ [c]" "drop (cursor e) (buf e)"]
  show ?thesis by (simp add: edit_def redrawn_def ed_insert_def vec_insert_def ed_inv_def zip_of_def)
next
  case Backspace
  with inv show ?thesis
    by (cases "cursor e = 0") (auto simp: edit_def redrawn_def ed_backspace_def vec_remove_def ed_inv_def zip_of_def butlast_take_pred)
next
  case DeleteWord
  let ?b1 = "drop_end is_ascii_whitespace (take (cursor e) (buf e))"
  let ?b2 = "drop_end (\<lambda>x. \<not> is_ascii_whitespace x) ?b1"
  have "delete_while is_ascii_whitespace (cursor e) (buf e) = Some (length ?b1, ?b1 @ drop (cursor e) (buf e))"
    using inv by (intro delete_while_ok) (simp add: ed_inv_def)
  moreover have "delete_while (\<lambda>x. \<not> is_ascii_whitespace x) (length ?b1) (?b1 @ drop (cursor e) (buf e))
      = Some (length ?b2, ?b2 @ drop (cursor e) (buf e))"
    using delete_while_ok [of "length ?b1" "?b1 @ drop (cursor e) (buf e)" "\<lambda>x. \<not> is_ascii_whitespace x"] by simp
  ultimately have "edit cwd e k = Some (e\<lparr>buf := ?b2 @ drop (cursor e) (buf e), cursor := length ?b2\<rparr>)"
    using DeleteWord by (simp add: edit_def redrawn_def delete_word_def)
  moreover note edit_ok [OF inv refl refl, of ?b2 "drop (cursor e) (buf e)"]
  ultimately show ?thesis using DeleteWord by (simp add: zip_of_def)
next
  case Complete
  let ?h = "take (cursor e) (buf e)"
  let ?s = "drop_end (\<lambda>x. \<not> is_separator x) ?h"
  have c: "cursor e \<le> length (buf e)" using inv by (simp add: ed_inv_def)
  have s2: "length ?s \<le> cursor e" using drop_end_length [of "\<lambda>x. \<not> is_separator x" ?h] c by simp
  have "?s = take (length ?s) ?h" by (rule drop_end_take)
  also have "\<dots> = take (length ?s) (buf e)" using s2 by (simp add: min_absorb1)
  finally have s: "take (length ?s) (buf e) = ?s" ..
  show ?thesis
  proof (cases "\<exists>nm. candidates (app_names e) (drop (length ?s) ?h) = [nm]")
    case True
    then obtain nm where nm: "candidates (app_names e) (drop (length ?s) ?h) = [nm]" by blast
    have "edit cwd e k = Some (e\<lparr>buf := (?s @ nm @ [0x20]) @ drop (cursor e) (buf e), cursor := length (?s @ nm @ [0x20])\<rparr>)"
      using Complete c s s2 nm by (simp add: edit_def redrawn_def complete_def Let_def separator_start vec_insert_def)
    with edit_ok [OF inv refl refl, of "?s @ nm @ [0x20]" "drop (cursor e) (buf e)"] Complete nm show ?thesis
      by (simp add: zip_parts Let_def)
  next
    case False
    then have "edit cwd e k = Some e" "zpress (zip_of e) k = zip_of e" using Complete c
      by (auto simp: edit_def redrawn_def complete_def Let_def separator_start zip_parts split: list.splits)
    with inv show ?thesis by simp
  qed
next
  case HistoryPrev
  with inv show ?thesis
    by (auto simp: edit_def redrawn_def history_prev_def Let_def ed_inv_def zip_of_def show_line_def idx_in_range split: option.splits)
next
  case HistoryNext
  with inv show ?thesis
    by (auto simp: edit_def redrawn_def history_next_def ed_inv_def zip_of_def show_line_def idx_in_range split: option.splits)
next
  case MoveRight
  show ?thesis
  proof (cases "cursor e < length (buf e)")
    case True
    then have "drop (cursor e) (buf e) = buf e ! cursor e # drop (Suc (cursor e)) (buf e)" by (rule Cons_nth_drop_Suc [symmetric])
    then show ?thesis using MoveRight True inv by (simp add: edit_def redrawn_def move_right_def ed_inv_def zip_of_def take_Suc_conv_app_nth)
  next
    case False
    then show ?thesis using MoveRight inv by (simp add: edit_def redrawn_def move_right_def ed_inv_def zip_of_def)
  qed
next
  case MoveLeft
  with inv show ?thesis
    by (cases "cursor e = 0") (auto simp: edit_def redrawn_def move_left_def ed_inv_def zip_of_def butlast_take_pred drop_pred)
next
  case DeleteChar
  with inv show ?thesis
    by (auto simp: edit_def redrawn_def delete_char_def vec_remove_def ed_inv_def zip_of_def drop_Suc tl_drop)
qed (use inv in \<open>simp_all add: edit_def redrawn_def ed_home_def ed_end_def kill_line_def kill_to_end_def ed_inv_def zip_of_def\<close>)

interpretation editor: simulation "edit cwd" "\<lambda>z k. Some (zpress z k)" zip_of "\<lambda>_. ed_inv" 0 "\<lambda>_. True"
  by unfold_locales (auto dest: edit_key_ok)

subsection \<open>Text\<close>

definition printable :: "bytes \<Rightarrow> bool" where
  "printable bs \<longleftrightarrow> list_all (\<lambda>b. 0x20 \<le> b \<and> b < 0x7F) bs"

definition text_ok :: "line_editor \<Rightarrow> bool" where
  "text_ok e \<longleftrightarrow> printable (buf e) \<and> list_all printable (history e) \<and> list_all printable (app_names e)"

definition ztext_ok :: "zipper \<Rightarrow> bool" where
  "ztext_ok z \<longleftrightarrow> printable (before z @ after z) \<and> list_all printable (past z) \<and> list_all printable (known z)"

lemma text_ok_zip: "text_ok e \<longleftrightarrow> ztext_ok (zip_of e)"
  by (simp add: text_ok_def ztext_ok_def zip_parts)

lemma printable_append [simp]: "printable (xs @ ys) \<longleftrightarrow> printable xs \<and> printable ys"
  by (simp add: printable_def)

lemma printable_subset: "printable xs \<Longrightarrow> set ys \<subseteq> set xs \<Longrightarrow> printable ys"
  by (auto simp: printable_def list_all_iff)

lemma printable_drop_end: "printable xs \<Longrightarrow> printable (drop_end P xs)"
  by (erule printable_subset) (auto simp: drop_end_def dest: set_dropWhileD)

lemma add_builtins_set: "set (add_builtins p bs ms) \<subseteq> set bs \<union> set ms"
proof (induction bs arbitrary: ms)
  case (Cons b bs)
  from Cons [of "if starts_with p b \<and> b \<notin> set ms then ms @ [b] else ms"] show ?case by (auto split: if_splits)
qed simp

lemma printable_candidates: "list_all printable names \<Longrightarrow> nm \<in> set (candidates names word) \<Longrightarrow> printable nm"
proof -
  assume a: "list_all printable names" "nm \<in> set (candidates names word)"
  have "list_all printable builtin_names" by (simp add: builtin_names_def str_bytes_def printable_def word_le_nat_alt of_char_def)
  with a show ?thesis
    using add_builtins_set [of "from_utf8_lossy word" builtin_names "filter (starts_with (from_utf8_lossy word)) names"]
    by (auto simp: candidates_def Let_def list_all_iff)
qed

lemma zpress_text:
  assumes "ztext_ok z" "\<And>c. k = Insert c \<Longrightarrow> 0x20 \<le> c \<and> c < 0x7F" "\<And>i. at z = Some i \<Longrightarrow> i < length (past z)"
  shows "ztext_ok (zpress z k)"
proof (cases k)
  case Backspace
  with assms(1) show ?thesis by (auto simp: ztext_ok_def intro: printable_subset in_set_butlastD)
next
  case MoveLeft
  with assms(1) show ?thesis
    by (cases "before z" rule: rev_cases) (auto simp: ztext_ok_def printable_def)
next
  case DeleteChar
  with assms(1) show ?thesis by (cases "after z") (auto simp: ztext_ok_def printable_def)
next
  case Complete
  let ?s = "drop_end (\<lambda>x. \<not> is_separator x) (before z)"
  show ?thesis
  proof (cases "\<exists>nm. candidates (known z) (drop (length ?s) (before z)) = [nm]")
    case True
    then obtain nm where "candidates (known z) (drop (length ?s) (before z)) = [nm]" by blast
    moreover from this have "printable nm" using assms(1) printable_candidates [of "known z" nm "drop (length ?s) (before z)"]
      by (simp add: ztext_ok_def)
    moreover have "printable (0x20 # after z)" using assms(1) by (simp add: ztext_ok_def printable_def)
    ultimately show ?thesis using Complete assms(1) by (simp add: ztext_ok_def Let_def printable_drop_end)
  next
    case False
    then have "zpress z k = z" using Complete by (auto simp: Let_def split: list.splits)
    with assms(1) show ?thesis by simp
  qed
next
  case HistoryPrev
  with assms show ?thesis
    by (auto simp: ztext_ok_def show_line_def Let_def list_all_length printable_def split: option.splits)
next
  case HistoryNext
  with assms show ?thesis
    by (auto simp: ztext_ok_def show_line_def Let_def list_all_length printable_def split: option.splits)
next
  case MoveRight
  with assms(1) show ?thesis by (auto simp: ztext_ok_def printable_def split: list.splits)
qed (use assms in \<open>auto simp: ztext_ok_def printable_def printable_drop_end [unfolded printable_def]\<close>)

subsection \<open>What the keys write\<close>

text \<open>A key that changes the line or the cursor ends its writes with the redraw.\<close>

lemma press_writes:
  assumes "press cwd e k = Some (e', ws)"
  shows "ws = [] \<and> e' = e \<or> ws = refresh cwd e'
     \<or> (\<exists>p. e' = e \<and> ws = listing (candidates (app_names e) p) @ refresh cwd e)"
proof (cases "k = Complete")
  case True
  let ?h = "take (cursor e) (buf e)"
  let ?ms = "candidates (app_names e) (drop (case rposition is_separator ?h of Some i \<Rightarrow> i + 1 | None \<Rightarrow> 0) ?h)"
  consider "?ms = []" | nm where "?ms = [nm]" | m m' ms where "?ms = m # m' # ms" by (metis list.exhaust)
  then show ?thesis
  proof cases
    case 3
    then have "e' = e" "ws = listing ?ms @ refresh cwd e"
      using assms True by (auto simp: complete_def Let_def bind_eq_Some_conv split: if_splits)
    then show ?thesis by blast
  qed (use assms True in \<open>auto simp: complete_def Let_def redrawn_def bind_eq_Some_conv split: if_splits\<close>)
next
  case False
  with assms show ?thesis
    by (cases k) (auto simp: ed_insert_def ed_backspace_def ed_home_def ed_end_def kill_line_def kill_to_end_def
        delete_word_def history_prev_def history_next_def move_right_def move_left_def delete_char_def
        redrawn_def bind_eq_Some_conv Let_def split: if_splits option.splits)
qed

definition ascii :: "bytes \<Rightarrow> bool" where
  "ascii bs \<longleftrightarrow> list_all (\<lambda>b. b < 0x80) bs"

lemma ascii_append [simp]: "ascii (xs @ ys) \<longleftrightarrow> ascii xs \<and> ascii ys"
  by (simp add: ascii_def)

lemma printable_ascii: "printable bs \<Longrightarrow> ascii bs"
  by (auto simp: ascii_def printable_def list_all_iff word_less_nat_alt)

lemma ascii_utf8: "ascii bs \<Longrightarrow> utf8_ok bs"
  by (induction bs) (auto simp: ascii_def utf8_width_def)

lemma ascii_decimal: "ascii (decimal n)"
proof (induction n rule: less_induct)
  case (less n)
  have "48 + n mod 10 < 58" by simp
  moreover from this have "unat (of_nat (48 + n mod 10) :: u8) = 48 + n mod 10" by (intro of_nat_inverse [OF refl]) simp
  ultimately have "(of_nat (48 + n mod 10) :: u8) < 0x80" by (simp add: word_less_nat_alt)
  then have "ascii [of_nat (48 + n mod 10)]" by (simp add: ascii_def del: of_nat_add)
  moreover have "\<not> n < 10 \<Longrightarrow> ascii (decimal (n div 10))" by (intro less) simp
  ultimately show ?case by (subst decimal.simps) (simp add: ascii_def)
qed

definition cwd_ok :: "bytes option \<Rightarrow> bool" where
  "cwd_ok cwd \<longleftrightarrow> (\<forall>p. cwd = Some p \<longrightarrow> ascii p)"

lemma ascii_refresh:
  assumes "cwd_ok cwd" "ascii (buf e)"
  shows "list_all ascii (refresh cwd e)"
  using assms ascii_decimal [of "length (buf e) - cursor e"]
  by (auto simp: refresh_def make_prompt_def cwd_ok_def str_bytes_def ascii_def word_less_nat_alt of_char_def split: option.splits)

lemma ascii_listing: "list_all ascii ms \<Longrightarrow> list_all ascii (listing ms)"
  by (induction ms) (auto simp: listing_def ascii_def)

lemma ascii_writes:
  assumes "press cwd e k = Some (e', ws)" "text_ok e" "text_ok e'" "cwd_ok cwd"
  shows "list_all ascii ws"
proof -
  have r: "list_all ascii (refresh cwd e')" using assms(3,4) by (auto simp: text_ok_def intro: ascii_refresh printable_ascii)
  have "list_all ascii (candidates (app_names e) p)" for p
    using assms(2) printable_candidates [of "app_names e"] by (auto simp: text_ok_def list_all_iff intro: printable_ascii)
  then have "list_all ascii (listing (candidates (app_names e) p))" for p by (rule ascii_listing)
  with press_writes [OF assms(1)] r show ?thesis by auto
qed

text \<open>The kernel prints text of single-byte characters however it falls on pages; a lone byte of the
  upper half is never the whole of a character.\<close>

lemma print_slices_ascii: "ascii (concat bs) \<Longrightarrow> print_slices bs = Some (concat bs)"
  by (induction bs) (auto simp: ascii_utf8 ensure_def)

lemma write_all_ascii:
  assumes "\<And>b. concat (pages b) = b" "list_all ascii ws"
  shows "write_all pages ws = Some (concat ws)"
proof -
  have c: "concat (concat (map pages ws)) = concat ws" by (induction ws) (simp_all add: assms(1))
  moreover have "ascii (concat ws)" using assms(2) by (induction ws) (simp_all add: ascii_def)
  ultimately show ?thesis unfolding write_all_def using print_slices_ascii [of "concat (map pages ws)"] by simp
qed

lemma second_ok_high: "second_ok a b \<Longrightarrow> 0x80 \<le> b"
  by (auto simp: second_ok_def cont_byte_def word_le_nat_alt split: if_splits)

lemma utf8_not_lone: "utf8_ok bs \<Longrightarrow> length (filter (\<lambda>b. 0x80 \<le> b) bs) \<noteq> 1"
proof (induction bs rule: utf8_ok.induct)
  case (2 a bs)
  show ?case
  proof (cases "a < 0x80")
    case True
    then have "utf8_width a = 1" by (simp add: utf8_width_def)
    with 2 True show ?thesis by (simp add: not_less [symmetric])
  next
    case False
    then have "utf8_width a \<noteq> 1" by (simp add: utf8_width_def)
    with "2.prems" obtain b bs' where "bs = b # bs'" "second_ok a b" by (auto split: list.splits if_splits)
    with False show ?thesis by (simp add: not_less second_ok_high)
  qed
qed simp

lemma print_slices_lone:
  "length (filter (\<lambda>b. 0x80 \<le> b) (concat bs)) = 1 \<Longrightarrow> print_slices bs = None"
proof (induction bs)
  case (Cons b bs)
  show ?case
  proof (cases "utf8_ok b")
    case True
    then have "length (filter (\<lambda>b. 0x80 \<le> b) b) \<noteq> 1" by (rule utf8_not_lone)
    moreover have "length (filter (\<lambda>b. 0x80 \<le> b) b) + length (filter (\<lambda>b. 0x80 \<le> b) (concat bs)) = 1" using Cons.prems by simp
    ultimately have "length (filter (\<lambda>b. 0x80 \<le> b) b) = 0" by arith
    with Cons True show ?thesis by (simp add: ensure_def)
  qed (simp add: ensure_def)
qed simp

lemma print_slices_append:
  "print_slices (xs @ ys) = do { a \<leftarrow> print_slices xs; b \<leftarrow> print_slices ys; Some (a @ b) }"
  by (induction xs) (simp_all add: ensure_def)

lemma write_all_lone:
  assumes "\<And>b. concat (pages b) = b" "w \<in> set ws" "length (filter (\<lambda>b. 0x80 \<le> b) w) = 1"
  shows "write_all pages ws = None"
proof -
  from assms(2) obtain us vs where "ws = us @ w # vs" by (auto simp: in_set_conv_decomp)
  moreover have "print_slices (pages w) = None" using assms by (intro print_slices_lone) simp
  ultimately show ?thesis
    by (cases "print_slices (concat (map pages us))") (simp_all add: write_all_def print_slices_append)
qed

subsection \<open>Reading with printable text\<close>

lemma edit_text:
  assumes "ed_inv e" "text_ok e" "\<And>c. k = Insert c \<Longrightarrow> 0x20 \<le> c \<and> c < 0x7F"
  obtains e' ws where "press cwd e k = Some (e', ws)" "ed_inv e'" "text_ok e'"
proof -
  from edit_key_ok [OF assms(1)] obtain e' where e': "edit cwd e k = Some e'" "ed_inv e'" "zip_of e' = zpress (zip_of e) k" by blast
  from e'(1) obtain ws where ws: "press cwd e k = Some (e', ws)" by (auto simp: edit_def)
  have "ztext_ok (zpress (zip_of e) k)"
    using assms by (intro zpress_text) (auto simp: text_ok_zip zip_parts ed_inv_def)
  then have "text_ok e'" unfolding text_ok_zip e'(3) .
  with e'(2) ws show ?thesis by (intro that)
qed

lemma press_opt_text:
  assumes "ed_inv e" "text_ok e" "\<And>c. k = Some (Insert c) \<Longrightarrow> 0x20 \<le> c \<and> c < 0x7F"
    and "\<And>b. concat (pages b) = b" "cwd_ok cwd"
  obtains e' shown where "press_opt pages cwd e k = Some (e', shown)" "ed_inv e'" "text_ok e'"
proof (cases k)
  case None
  with assms show ?thesis by (intro that [of e "[]"]) (simp_all add: press_opt_def)
next
  case (Some a)
  have "\<And>c. a = Insert c \<Longrightarrow> 0x20 \<le> c \<and> c < 0x7F" using assms(3) Some by blast
  with assms(1,2) obtain e' ws where e': "press cwd e a = Some (e', ws)" "ed_inv e'" "text_ok e'"
    by (rule edit_text)
  from ascii_writes [OF e'(1) assms(2) e'(3) assms(5)] have "write_all pages ws = Some (concat ws)"
    by (intro write_all_ascii assms(4))
  with e' Some show ?thesis by (intro that [of e' "concat ws"]) (simp_all add: press_opt_def)
qed

lemma control_key_insert: "control_key c = Some (Insert x) \<Longrightarrow> x = c \<and> 0x20 \<le> c \<and> c \<noteq> 0x7F"
  by (auto simp: control_key_def split: if_splits)

lemma below_DEL: "c < 0x80 \<Longrightarrow> c \<noteq> 0x7F \<Longrightarrow> c < (0x7F :: u8)"
  by (simp add: word_less_nat_alt word_unat_eq_iff)

lemma escape_rest: "escape is = Some (k, rest) \<Longrightarrow> set rest \<subseteq> set is \<and> k \<noteq> Some (Insert x)"
  by (cases "is") (auto split: list.splits if_splits)

definition typed_ok :: "u8 option list \<Rightarrow> bool" where
  "typed_ok inp \<longleftrightarrow> list_all (\<lambda>i. case i of Some c \<Rightarrow> c < 0x80 | None \<Rightarrow> True) inp"

lemma read_keys_ok:
  assumes pages: "\<And>b. concat (pages b) = b" and cwd: "cwd_ok cwd"
  shows "ed_inv e \<Longrightarrow> text_ok e \<Longrightarrow> typed_ok inp \<Longrightarrow> \<exists>r e' rest scr. read_keys pages cwd e out inp = Some (r, e', rest, scr)
     \<and> ed_inv e' \<and> text_ok e' \<and> (\<forall>l. r = Line l \<longrightarrow> printable l \<and> buf e' = [] \<and> hist_idx e' = None)"
  using pages cwd
proof (induction pages cwd e out inp rule: read_keys.induct)
  case (3 pages cwd e out c "is")
  note inv = "3.prems"(1,2) and pages = "3.prems"(4) and cwd = "3.prems"(5)
  have t: "c < 0x80" "typed_ok is" using "3.prems"(3) by (simp_all add: typed_ok_def)
  have nl: "write_all pages [[0x0D, 0x0A]] = Some (concat [[0x0D, 0x0A]])"
    using pages by (rule write_all_ascii) (simp add: ascii_def)
  show ?case
  proof (cases "c = 0x0A \<or> c = 0x0D \<or> c = 0x04 \<and> buf e = []")
    case True
    with inv nl show ?thesis by (auto simp: ed_inv_def text_ok_def printable_def)
  next
    case False
    note c = False
    show ?thesis
    proof (cases "c = 0x1B")
      case True
      show ?thesis
      proof (cases "escape is")
        case None
        with True inv show ?thesis by simp
      next
        case (Some a)
        then obtain k rest where a: "escape is = Some (k, rest)" by (cases a) auto
        have k: "k = Some (Insert x) \<Longrightarrow> 0x20 \<le> x \<and> x < 0x7F" for x using escape_rest [OF a] by blast
        have "typed_ok rest" using t(2) escape_rest [OF a] by (auto simp: typed_ok_def list_all_iff)
        moreover obtain e' shown where e': "press_opt pages cwd e k = Some (e', shown)" "ed_inv e'" "text_ok e'"
          using inv k pages cwd by (rule press_opt_text)
        ultimately show ?thesis using "3.IH"(2) [OF _ _ _ a refl e'(1) refl e'(2,3)] pages cwd True a c by simp
      qed
    next
      case False
      show ?thesis
      proof (cases "c = 0x04")
        case True
        with c "3.IH"(1) inv t(2) pages cwd show ?thesis by simp
      next
        case n4: False
        have k: "control_key c = Some (Insert x) \<Longrightarrow> 0x20 \<le> x \<and> x < 0x7F" for x
          using control_key_insert [of c x] below_DEL [OF t(1)] by blast
        obtain e' shown where e': "press_opt pages cwd e (control_key c) = Some (e', shown)" "ed_inv e'" "text_ok e'"
          using inv k pages cwd by (rule press_opt_text)
        with "3.IH"(3) [OF _ _ _ e'(1) refl e'(2,3) t(2)] pages cwd False n4 c show ?thesis by simp
      qed
    qed
  qed
qed auto

lemma refresh_shown:
  assumes "\<And>b. concat (pages b) = b" "cwd_ok cwd" "text_ok e"
  shows "write_all pages (refresh cwd e) = Some (concat (refresh cwd e))"
  using assms by (intro write_all_ascii ascii_refresh printable_ascii) (simp_all add: text_ok_def)

text \<open>A typed byte of the upper half stands alone among single-byte characters.\<close>

lemma insert_high_panics:
  assumes pages: "\<And>b. concat (pages b) = b" and e: "ed_inv e" "text_ok e" and c: "0x80 \<le> c"
  shows "read_keys pages cwd e out (Some c # is) = None"
proof -
  let ?b = "take (cursor e) (buf e) @ c # drop (cursor e) (buf e)"
  have z: "filter (\<lambda>b. 0x80 \<le> b) bs = []" if "printable bs" for bs
    using printable_ascii [OF that] by (auto simp: ascii_def list_all_iff filter_empty_conv not_le)
  have "printable (take (cursor e) (buf e) @ drop (cursor e) (buf e))" using e(2) by (simp add: text_ok_def)
  then have one: "length (filter (\<lambda>b. 0x80 \<le> b) ?b) = 1" using c by (simp only: printable_append filter_append z) (simp add: z)
  let ?e = "e\<lparr>buf := ?b, cursor := cursor e + 1\<rparr>"
  have "press cwd e (Insert c) = Some (?e, refresh cwd ?e)"
    using e(1) by (simp add: ed_insert_def vec_insert_def redrawn_def ed_inv_def)
  moreover have "write_all pages (refresh cwd ?e) = None"
    by (rule write_all_lone [OF pages _ one]) (simp add: refresh_def)
  moreover have "control_key c = Some (Insert c)" "c \<noteq> 0x0A" "c \<noteq> 0x0D" "c \<noteq> 0x04" "c \<noteq> 0x1B"
    using c by (auto simp: control_key_def word_le_nat_alt)
  ultimately show ?thesis by (simp add: press_opt_def)
qed

subsection \<open>Properties\<close>

text \<open>C34: the keys of the line editor. Any sequence of keys, pressed in a well-formed editor, goes past the
  editor's own indexing without a panic and keeps the editor well formed, and the text before and after the
  cursor is what the keys promise: typing inserts before the cursor, the erasing keys take away on their side
  of it, completion replaces the last word by its only candidate, the history keys show earlier lines. Every
  key either changes nothing and writes nothing, or its last writes are the redraw of the line and cursor it
  leaves. Whether the kernel prints those writes is the next property's matter.\<close>

theorem editor_refines_zipper:
  assumes "ed_inv e"
  shows "(\<exists>e'. run (edit cwd) e ks = Some e' \<and> ed_inv e' \<and> zip_of e' = foldl zpress (zip_of e) ks)
     \<and> (\<forall>d k d' ws. press cwd d k = Some (d', ws) \<longrightarrow> d' = d \<and> ws = [] \<or> (\<exists>us. ws = us @ refresh cwd d'))"
proof -
  have r: "run (\<lambda>z k. Some (zpress z k)) z ks = Some (foldl zpress z ks)" for z by (induction ks arbitrary: z) simp_all
  from editor.run_refines [of e ks] assms have "\<exists>e'. run (edit cwd) e ks = Some e' \<and> ed_inv e' \<and> zip_of e' = foldl zpress (zip_of e) ks"
    by (simp add: r)
  moreover have "d' = d \<and> ws = [] \<or> (\<exists>us. ws = us @ refresh cwd d')" if "press cwd d k = Some (d', ws)" for d k d' ws
    using press_writes [OF that] by auto
  ultimately show ?thesis by blast
qed

theorem editor_refines_zipper_witness:
  "\<exists>e. run (edit None) (line_editor_new [[97, 98, 99]]) [Insert 120, Insert 32, Insert 97, Complete, MoveLeft, Backspace, Insert 33] = Some e
     \<and> buf e = [120, 32, 97, 98, 33, 32] \<and> cursor e = 5"
proof -
  let ?e = "line_editor_new [[97, 98, 99]]" let ?ks = "[Insert 120, Insert 32, Insert 97, Complete, MoveLeft, Backspace, Insert 33]"
  let ?z = "\<lparr>before = [120, 32, 97, 98, 33], after = [32], past = [], at = None, known = [[97, 98, 99]]\<rparr>"
  have i: "ed_inv ?e" by (simp add: ed_inv_def line_editor_new_def)
  have "candidates [[97, 98, 99]] [97] = [[97, 98, 99]]" by code_simp
  then have "foldl zpress (zip_of ?e) ?ks = ?z"
    by (simp add: zip_of_def line_editor_new_def drop_end_def is_separator_def)
  with editor_refines_zipper [OF i, of None ?ks] obtain e where e: "run (edit None) ?e ?ks = Some e" "ed_inv e" "zip_of e = ?z" by auto
  have "buf e = before (zip_of e) @ after (zip_of e)" "cursor e = length (before (zip_of e))"
    using e(2) by (simp_all add: zip_parts ed_inv_def)
  with e(1) show ?thesis unfolding e(3) by simp
qed



end
