(* ===== verification/Shell.thy ===== *)
theory Shell
  imports Prelude
begin

section \<open>The shell's command language\<close>

text \<open>
  user/src/bin/user_shell.rs: splitting a line into tokens, parsing tokens into pipelines joined by
  connectors, printing a command, and running a list of commands. Characters are Unicode scalar
  values. An error is the message the code returns.
\<close>

type_synonym str = "nat list"

definition lit :: "string \<Rightarrow> str" where
  "lit s = map of_char s"

subsection \<open>Tokens\<close>

text \<open>The Unicode property White_Space.\<close>

definition is_whitespace :: "nat \<Rightarrow> bool" where
  "is_whitespace c \<longleftrightarrow> 9 \<le> c \<and> c \<le> 13 \<or> c = 32 \<or> c = 0x85 \<or> c = 0xA0 \<or> c = 0x1680 \<or> 0x2000 \<le> c \<and> c \<le> 0x200A
     \<or> c = 0x2028 \<or> c = 0x2029 \<or> c = 0x202F \<or> c = 0x205F \<or> c = 0x3000"

definition two_char_op :: "nat \<Rightarrow> nat list \<Rightarrow> str option" where
  "two_char_op c rest = (case rest of
     [] \<Rightarrow> None
   | d # _ \<Rightarrow>
       if c = 38 \<and> d = 38 then Some [38, 38]
       else if c = 124 \<and> d = 124 then Some [124, 124]
       else if c = 62 \<and> d = 62 then Some [62, 62]
       else if c = 50 \<and> d = 62 then Some [50, 62]
       else None)"

definition one_char_op :: "nat \<Rightarrow> bool" where
  "one_char_op c \<longleftrightarrow> c = 59 \<or> c = 124 \<or> c = 38 \<or> c = 60 \<or> c = 62"

definition flush :: "str list \<Rightarrow> str \<Rightarrow> str list" where
  "flush tokens cur = (if cur = [] then tokens else tokens @ [cur])"

fun tokenize_loop :: "str list \<Rightarrow> str \<Rightarrow> nat option \<Rightarrow> bool \<Rightarrow> nat list \<Rightarrow> string + str list" where
  "tokenize_loop tokens cur quote escaped [] =
     (if escaped \<or> quote \<noteq> None then Inl ''unbalanced quotes or trailing escape'' else Inr (flush tokens cur))"
| "tokenize_loop tokens cur quote escaped (c # cs) =
     (if escaped then tokenize_loop tokens (cur @ [c]) quote False cs
      else if c = 92 then tokenize_loop tokens cur quote True cs
      else (case quote of
         Some q \<Rightarrow> if c = q then tokenize_loop tokens cur None False cs else tokenize_loop tokens (cur @ [c]) quote False cs
       | None \<Rightarrow> (case two_char_op c cs of
           Some op \<Rightarrow> tokenize_loop (flush tokens cur @ [op]) [] None False (tl cs)
         | None \<Rightarrow>
             if c = 39 \<or> c = 34 then tokenize_loop tokens cur (Some c) False cs
             else if one_char_op c then tokenize_loop (flush tokens cur @ [[c]]) [] None False cs
             else if is_whitespace c then tokenize_loop (flush tokens cur) [] None False cs
             else tokenize_loop tokens (cur @ [c]) None False cs)))"

definition tokenize :: "nat list \<Rightarrow> string + str list" where
  "tokenize inp = tokenize_loop [] [] None False inp"

subsection \<open>Commands\<close>

record stage =
  prog :: str
  args :: "str list"
  st_input :: "str option"
  st_output :: "str option"
  st_stderr :: "str option"
  append_mode :: bool

definition stage_default :: stage where
  "stage_default = \<lparr>prog = [], args = [], st_input = None, st_output = None, st_stderr = None, append_mode = False\<rparr>"

datatype connector = NoConnector | And | Or

record command =
  stages :: "stage list"
  background :: bool
  conn :: connector

definition finish_stage :: "stage list \<Rightarrow> stage \<Rightarrow> string + stage list" where
  "finish_stage sts st = (if prog st = [] then Inl ''empty command in pipeline'' else Inr (sts @ [st]))"

definition connector_of :: "str \<Rightarrow> connector" where
  "connector_of t = (if t = [38, 38] then And else if t = [124, 124] then Or else NoConnector)"

definition ends_command :: "str \<Rightarrow> bool" where
  "ends_command t \<longleftrightarrow> t = [59] \<or> t = [38] \<or> t = [38, 38] \<or> t = [124, 124]"

definition is_redirection :: "str \<Rightarrow> bool" where
  "is_redirection t \<longleftrightarrow> t = [60] \<or> t = [62] \<or> t = [62, 62] \<or> t = [50, 62]"

definition redirect :: "str \<Rightarrow> str \<Rightarrow> stage \<Rightarrow> stage" where
  "redirect op f st =
     (if op = [60] then st\<lparr>st_input := Some f\<rparr>
      else if op = [62] then st\<lparr>st_output := Some f, append_mode := False\<rparr>
      else if op = [62, 62] then st\<lparr>st_output := Some f, append_mode := True\<rparr>
      else st\<lparr>st_stderr := Some f\<rparr>)"

fun parse_loop :: "command list \<Rightarrow> stage list \<Rightarrow> stage \<Rightarrow> connector \<Rightarrow> str list \<Rightarrow> string + command list" where
  "parse_loop cmds sts st pending [] =
     (case (if prog st \<noteq> [] \<or> sts \<noteq> [] then finish_stage sts st else Inr sts) of
        Inl e \<Rightarrow> Inl e
      | Inr sts \<Rightarrow> Inr (if sts \<noteq> [] then cmds @ [\<lparr>stages = sts, background = False, conn = pending\<rparr>] else cmds))"
| "parse_loop cmds sts st pending (t # ts) =
     (if ends_command t then
        (case finish_stage sts st of
           Inl e \<Rightarrow> Inl e
         | Inr sts \<Rightarrow> parse_loop (cmds @ [\<lparr>stages = sts, background = (t = [38]), conn = pending\<rparr>]) [] stage_default (connector_of t) ts)
      else if t = [124] then
        (case finish_stage sts st of
           Inl e \<Rightarrow> Inl e
         | Inr sts \<Rightarrow> parse_loop cmds sts stage_default pending ts)
      else if is_redirection t then
        (case ts of
           [] \<Rightarrow> Inl ''missing file for redirection''
         | f # ts' \<Rightarrow> parse_loop cmds sts (redirect t f st) pending ts')
      else if prog st = [] then parse_loop cmds sts (st\<lparr>prog := t\<rparr>) pending ts
      else parse_loop cmds sts (st\<lparr>args := args st @ [t]\<rparr>) pending ts)"

definition parse_command :: "nat list \<Rightarrow> string + command list" where
  "parse_command inp = (case tokenize inp of
     Inl e \<Rightarrow> Inl e
   | Inr tokens \<Rightarrow> parse_loop [] [] stage_default NoConnector tokens)"

subsection \<open>Printing and running\<close>

definition stage_string :: "stage \<Rightarrow> str" where
  "stage_string st = prog st @ concat (map (\<lambda>a. 32 # a) (args st))
     @ (case st_input st of None \<Rightarrow> [] | Some f \<Rightarrow> lit '' < '' @ f)
     @ (case st_output st of None \<Rightarrow> [] | Some f \<Rightarrow> lit '' > '' @ f)"

fun stages_string :: "stage list \<Rightarrow> str" where
  "stages_string [] = []"
| "stages_string [st] = stage_string st"
| "stages_string (st # sts) = stage_string st @ lit '' | '' @ stages_string sts"

definition command_string :: "command \<Rightarrow> str" where
  "command_string cmd = stages_string (stages cmd) @ (if background cmd then lit '' &'' else [])"

text \<open>The loop of \<^verbatim>\<open>main\<close> over the commands of a line, given what executing a command does.\<close>

fun run_commands :: "(command \<Rightarrow> 's \<Rightarrow> int \<times> 's) \<Rightarrow> int \<Rightarrow> command list \<Rightarrow> 's \<Rightarrow> int \<times> 's" where
  "run_commands execute prev [] s = (prev, s)"
| "run_commands execute prev (cmd # cmds) s =
     (if conn cmd = NoConnector \<or> conn cmd = And \<and> prev = 0 \<or> conn cmd = Or \<and> prev \<noteq> 0
      then let (prev, s) = execute cmd s in run_commands execute prev cmds s
      else run_commands execute prev cmds s)"

subsection \<open>Writing a command line\<close>

text \<open>
  How the tokens of a line can be spelled. A word is a sequence of bare characters, escaped characters
  and quoted parts, in which characters may be escaped too; after each token there may be white space.
\<close>

datatype token = Word str | Op str

fun token_value :: "token \<Rightarrow> str" where
  "token_value (Word w) = w"
| "token_value (Op op) = op"

definition is_op :: "str \<Rightarrow> bool" where
  "is_op op \<longleftrightarrow> op = [124] \<or> ends_command op \<or> is_redirection op"

fun token_ok :: "token \<Rightarrow> bool" where
  "token_ok (Word w) \<longleftrightarrow> w \<noteq> []"
| "token_ok (Op op) \<longleftrightarrow> is_op op"

datatype qchar = Raw (qvalue: nat) | Esc (qvalue: nat)

datatype piece = Bare nat | Escaped nat | Quoted nat "qchar list"

fun qtext :: "qchar \<Rightarrow> nat list" where
  "qtext (Raw c) = [c]"
| "qtext (Esc c) = [92, c]"

fun piece_text :: "piece \<Rightarrow> nat list" where
  "piece_text (Bare c) = [c]"
| "piece_text (Escaped c) = [92, c]"
| "piece_text (Quoted q cs) = q # concat (map qtext cs) @ [q]"

fun piece_value :: "piece \<Rightarrow> str" where
  "piece_value (Bare c) = [c]"
| "piece_value (Escaped c) = [c]"
| "piece_value (Quoted q cs) = map qvalue cs"

fun qchar_ok :: "nat \<Rightarrow> qchar \<Rightarrow> bool" where
  "qchar_ok q (Raw c) \<longleftrightarrow> c \<noteq> q \<and> c \<noteq> 92"
| "qchar_ok q (Esc c) \<longleftrightarrow> True"

fun piece_ok :: "piece \<Rightarrow> bool" where
  "piece_ok (Bare c) \<longleftrightarrow> c \<noteq> 92 \<and> c \<noteq> 39 \<and> c \<noteq> 34 \<and> \<not> one_char_op c \<and> \<not> is_whitespace c"
| "piece_ok (Escaped c) \<longleftrightarrow> True"
| "piece_ok (Quoted q cs) \<longleftrightarrow> (q = 39 \<or> q = 34) \<and> list_all (qchar_ok q) cs"

datatype written = Text "piece list" "nat list" | Symbol str "nat list"

fun written_text :: "written \<Rightarrow> nat list" where
  "written_text (Text ps gap) = concat (map piece_text ps) @ gap"
| "written_text (Symbol op gap) = op @ gap"

fun written_token :: "written \<Rightarrow> token" where
  "written_token (Text ps gap) = Word (concat (map piece_value ps))"
| "written_token (Symbol op gap) = Op op"

text \<open>Two words, or two operators, need white space between them, and so does a word that ends in a bare 2
  before an operator that begins with a greater-than sign.\<close>

fun touching :: "written \<Rightarrow> written list \<Rightarrow> bool" where
  "touching w [] \<longleftrightarrow> True"
| "touching (Text ps gap) (Symbol op _ # _) \<longleftrightarrow> \<not> (ps \<noteq> [] \<and> last ps = Bare 50 \<and> hd op = 62)"
| "touching (Symbol op gap) (Text _ _ # _) \<longleftrightarrow> True"
| "touching _ _ \<longleftrightarrow> False"

fun gap_after :: "written \<Rightarrow> nat list" where
  "gap_after (Text ps gap) = gap"
| "gap_after (Symbol op gap) = gap"

fun written_ok :: "written list \<Rightarrow> bool" where
  "written_ok [] \<longleftrightarrow> True"
| "written_ok (w # ws) \<longleftrightarrow> token_ok (written_token w) \<and> (case w of Text ps _ \<Rightarrow> list_all piece_ok ps | Symbol _ _ \<Rightarrow> True)
     \<and> list_all is_whitespace (gap_after w) \<and> (gap_after w = [] \<longrightarrow> touching w ws) \<and> written_ok ws"

subsection \<open>Reading the tokens back\<close>

declare tokenize_loop.simps(2) [simp del]

lemma tokenize_escaped: "tokenize_loop tokens cur q False (92 # c # rest) = tokenize_loop tokens (cur @ [c]) q False rest"
  by (simp add: tokenize_loop.simps(2))

lemma tokenize_blank:
  assumes "is_whitespace c"
  shows "tokenize_loop tokens cur None False (c # rest) = tokenize_loop (flush tokens cur) [] None False rest"
proof -
  have "c \<noteq> 92" "c \<noteq> 39" "c \<noteq> 34" "\<not> one_char_op c" "two_char_op c rest = None"
    using assms by (auto simp: is_whitespace_def one_char_op_def two_char_op_def split: list.splits)
  with assms show ?thesis by (simp add: tokenize_loop.simps(2))
qed

lemma tokenize_blanks:
  "list_all is_whitespace gap \<Longrightarrow>
    tokenize_loop tokens cur None False (gap @ rest) = tokenize_loop (if gap = [] then tokens else flush tokens cur) (if gap = [] then cur else []) None False rest"
proof (induction gap arbitrary: tokens cur)
  case (Cons c gap)
  then show ?case by (simp add: tokenize_blank Cons.IH flush_def)
qed simp

lemma tokenize_quoted:
  "list_all (qchar_ok q) cs \<Longrightarrow> q \<noteq> 92 \<Longrightarrow>
    tokenize_loop tokens cur (Some q) False (concat (map qtext cs) @ q # rest) = tokenize_loop tokens (cur @ map qvalue cs) None False rest"
proof (induction cs arbitrary: cur)
  case (Cons c cs)
  then show ?case by (cases c) (simp_all add: tokenize_loop.simps(2))
qed (simp add: tokenize_loop.simps(2))

definition starts_with_char :: "nat \<Rightarrow> nat list \<Rightarrow> bool" where
  "starts_with_char c xs \<longleftrightarrow> xs \<noteq> [] \<and> hd xs = c"

lemma two_char_op_None:
  "two_char_op c rest = None \<longleftrightarrow> \<not> (c \<in> {38, 124, 62} \<and> starts_with_char c rest) \<and> \<not> (c = 50 \<and> starts_with_char 62 rest)"
  by (auto simp: two_char_op_def starts_with_char_def split: list.splits)

lemma tokenize_piece:
  assumes "piece_ok p" and "p = Bare 50 \<Longrightarrow> \<not> starts_with_char 62 rest"
  shows "tokenize_loop tokens cur None False (piece_text p @ rest) = tokenize_loop tokens (cur @ piece_value p) None False rest"
proof (cases p)
  case (Bare c)
  with assms have "two_char_op c rest = None" by (auto simp: two_char_op_None one_char_op_def)
  with Bare assms(1) show ?thesis by (simp add: tokenize_loop.simps(2))
next
  case (Escaped c)
  then show ?thesis by (simp add: tokenize_escaped)
next
  case (Quoted q cs)
  with assms(1) have q: "q = 39 \<or> q = 34" "list_all (qchar_ok q) cs" by simp_all
  then have "two_char_op q xs = None" for xs by (auto simp: two_char_op_None)
  with q have "tokenize_loop tokens cur None False (q # xs) = tokenize_loop tokens cur (Some q) False xs" for xs
    by (auto simp: tokenize_loop.simps(2))
  with q Quoted tokenize_quoted [of q cs] show ?thesis by auto
qed

lemma piece_start: "piece_ok p \<Longrightarrow> c \<in> {38, 124, 62} \<Longrightarrow> \<not> starts_with_char c (piece_text p @ rest)"
  by (cases p) (auto simp: starts_with_char_def one_char_op_def)

lemma pieces_start:
  "list_all piece_ok ps \<Longrightarrow> ps \<noteq> [] \<Longrightarrow> c \<in> {38, 124, 62} \<Longrightarrow> \<not> starts_with_char c (concat (map piece_text ps) @ rest)"
  using piece_start [of "hd ps" c] by (cases ps) auto

lemma tokenize_pieces:
  "list_all piece_ok ps \<Longrightarrow> (ps \<noteq> [] \<Longrightarrow> last ps = Bare 50 \<Longrightarrow> \<not> starts_with_char 62 rest) \<Longrightarrow>
    tokenize_loop tokens cur None False (concat (map piece_text ps) @ rest) = tokenize_loop tokens (cur @ concat (map piece_value ps)) None False rest"
proof (induction ps arbitrary: cur)
  case (Cons p ps)
  have "p = Bare 50 \<Longrightarrow> \<not> starts_with_char 62 (concat (map piece_text ps) @ rest)"
    using Cons.prems pieces_start [of ps 62 rest] by (cases "ps = []") auto
  with Cons.prems tokenize_piece [of p "concat (map piece_text ps) @ rest" tokens cur] Cons.IH [of "cur @ piece_value p"]
  show ?case by (cases "ps = []") auto
qed simp

lemma tokenize_op:
  assumes "is_op op" and "\<And>c. c \<in> {38, 124, 62} \<Longrightarrow> \<not> starts_with_char c rest"
  shows "tokenize_loop tokens cur None False (op @ rest) = tokenize_loop (flush tokens cur @ [op]) [] None False rest"
proof -
  have "two_char_op c rest = None" if "c \<noteq> 50" for c using assms(2) that by (auto simp: two_char_op_None)
  moreover have "one_char_op c \<longleftrightarrow> c = 59 \<or> c = 124 \<or> c = 38 \<or> c = 60 \<or> c = 62" for c by (simp add: one_char_op_def)
  ultimately show ?thesis using assms(1)
    by (auto simp: is_op_def ends_command_def is_redirection_def tokenize_loop.simps(2) two_char_op_def [of _ "_ # _"])
qed

lemma whitespace_start: "list_all is_whitespace gap \<Longrightarrow> gap \<noteq> [] \<Longrightarrow> c \<in> {38, 124, 62} \<Longrightarrow> \<not> starts_with_char c (gap @ rest)"
  by (cases gap) (auto simp: starts_with_char_def is_whitespace_def)

lemma tokenize_cur:
  assumes "is_op op"
  shows "tokenize_loop tokens cur None False (op @ rest) = tokenize_loop (flush tokens cur) [] None False (op @ rest)"
proof -
  obtain c cs where op: "op = c # cs" using assms by (auto simp: is_op_def ends_command_def is_redirection_def)
  have c: "c \<noteq> 92" "c \<noteq> 39" "c \<noteq> 34" "one_char_op c \<or> c = 50 \<and> cs = [62]"
    using assms op by (auto simp: is_op_def ends_command_def is_redirection_def one_char_op_def)
  show ?thesis
  proof (cases "two_char_op c (cs @ rest)")
    case None
    then have "one_char_op c" using c(4) by (auto simp: two_char_op_None starts_with_char_def)
    with None c(1-3) show ?thesis by (simp add: op tokenize_loop.simps(2) flush_def)
  next
    case (Some o2)
    with c(1-3) show ?thesis by (simp add: op tokenize_loop.simps(2) flush_def)
  qed
qed

lemma tokenize_written:
  "written_ok ws \<Longrightarrow> tokenize_loop tokens [] None False (concat (map written_text ws)) = Inr (tokens @ map (token_value \<circ> written_token) ws)"
proof (induction ws arbitrary: tokens)
  case Nil
  then show ?case by (simp add: flush_def)
next
  case (Cons w ws)
  note prems = Cons.prems
  let ?rest = "concat (map written_text ws)"
  have ih: "tokenize_loop toks [] None False ?rest = Inr (toks @ map (token_value \<circ> written_token) ws)" for toks
    using Cons by simp
  have gap: "list_all is_whitespace (gap_after w)" using prems by simp
  show ?case
  proof (cases w)
    case (Symbol op g)
    have "\<not> starts_with_char c (g @ ?rest)" if "c \<in> {38, 124, 62}" for c
    proof (cases "g = []")
      case False
      with whitespace_start that gap Symbol show ?thesis by simp
    next
      case True
      show ?thesis
      proof (cases ws)
        case Nil
        with True show ?thesis by (simp add: starts_with_char_def)
      next
        case ws: (Cons v vs)
        with True Symbol prems ws obtain ps g2 where "v = Text ps g2" by (cases v) auto
        note v = this
        have "concat (map piece_value ps) \<noteq> []" "list_all piece_ok ps" using prems unfolding ws v by simp_all
        moreover from this(1) have "ps \<noteq> []" by (cases ps) simp_all
        ultimately show ?thesis using True that pieces_start [of ps c "g2 @ concat (map written_text vs)"] by (simp add: ws v)
      qed
    qed
    with prems Symbol have "tokenize_loop tokens [] None False (op @ g @ ?rest) = tokenize_loop (tokens @ [op]) [] None False (g @ ?rest)"
      by (subst tokenize_op) (simp_all add: flush_def)
    also have "\<dots> = tokenize_loop (tokens @ [op]) [] None False ?rest"
      using gap Symbol by (subst tokenize_blanks) (simp_all add: flush_def)
    finally show ?thesis using Symbol by (simp add: ih)
  next
    case (Text ps g)
    let ?v = "concat (map piece_value ps)"
    have v: "?v \<noteq> []" "list_all piece_ok ps" using prems Text by simp_all
    have "ps \<noteq> [] \<Longrightarrow> last ps = Bare 50 \<Longrightarrow> \<not> starts_with_char 62 (g @ ?rest)"
    proof (cases "g = []")
      case True
      assume l: "ps \<noteq> []" "last ps = Bare 50"
      show ?thesis
      proof (cases ws)
        case Nil
        with True show ?thesis by (simp add: starts_with_char_def)
      next
        case ws: (Cons u us)
        with True Text prems ws obtain op g2 where u: "u = Symbol op g2" by (cases u) auto
        with ws prems Text True l have "hd op \<noteq> 62" "is_op op" by auto
        with u ws True show ?thesis
          by (auto simp: starts_with_char_def is_op_def ends_command_def is_redirection_def)
      qed
    qed (use whitespace_start gap Text in simp)
    then have p: "tokenize_loop tokens [] None False (concat (map piece_text ps) @ g @ ?rest) = tokenize_loop tokens ?v None False (g @ ?rest)"
      using v(2) by (subst tokenize_pieces) simp_all
    have "tokenize_loop tokens ?v None False (g @ ?rest) = Inr ((tokens @ [?v]) @ map (token_value \<circ> written_token) ws)"
    proof (cases "g = []")
      case False
      then have "tokenize_loop tokens ?v None False (g @ ?rest) = tokenize_loop (flush tokens ?v) [] None False ?rest"
        using gap Text by (subst tokenize_blanks) simp_all
      moreover have "flush tokens ?v = tokens @ [?v]" using v(1) by (simp only: flush_def if_False)
      ultimately show ?thesis using ih [of "tokens @ [?v]"] by simp
    next
      case True
      show ?thesis
      proof (cases ws)
        case Nil
        with True v(1) show ?thesis by (simp add: flush_def)
      next
        case ws: (Cons u us)
        with True Text prems ws obtain op g2 where u: "u = Symbol op g2" by (cases u) auto
        let ?r = "g2 @ concat (map written_text us)"
        have "tokenize_loop tokens ?v None False (op @ ?r) = tokenize_loop (tokens @ [?v]) [] None False (op @ ?r)"
        proof -
          have "flush tokens ?v = tokens @ [?v]" using v(1) by (simp only: flush_def if_False)
          moreover have "is_op op" using prems unfolding ws u by simp
          ultimately show ?thesis using tokenize_cur [of op tokens ?v ?r] by (simp only:)
        qed
        then show ?thesis using True ws u ih [of "tokens @ [?v]"] by simp
      qed
    qed
    with p Text show ?thesis by simp
  qed
qed

definition plain :: "str \<Rightarrow> bool" where
  "plain w \<longleftrightarrow> w \<noteq> [] \<and> w \<noteq> [124] \<and> \<not> ends_command w \<and> \<not> is_redirection w"

definition redirection :: "str \<Rightarrow> str option \<Rightarrow> token list" where
  "redirection op f = (case f of None \<Rightarrow> [] | Some f \<Rightarrow> [Op op, Word f])"

definition stage_tokens :: "stage \<Rightarrow> token list" where
  "stage_tokens st = Word (prog st) # map Word (args st) @ redirection [60] (st_input st)
     @ redirection (if append_mode st then [62, 62] else [62]) (st_output st) @ redirection [50, 62] (st_stderr st)"

fun pipeline_tokens :: "stage list \<Rightarrow> token list" where
  "pipeline_tokens [] = []"
| "pipeline_tokens [st] = stage_tokens st"
| "pipeline_tokens (st # sts) = stage_tokens st @ Op [124] # pipeline_tokens sts"

definition separator :: "command \<Rightarrow> command \<Rightarrow> str" where
  "separator cmd nxt = (case conn nxt of And \<Rightarrow> [38, 38] | Or \<Rightarrow> [124, 124] | NoConnector \<Rightarrow> if background cmd then [38] else [59])"

fun commands_tokens :: "command list \<Rightarrow> token list" where
  "commands_tokens [] = []"
| "commands_tokens [cmd] = pipeline_tokens (stages cmd) @ (if background cmd then [Op [38]] else [])"
| "commands_tokens (cmd # nxt # cmds) = pipeline_tokens (stages cmd) @ Op (separator cmd nxt) # commands_tokens (nxt # cmds)"

definition stage_ok :: "stage \<Rightarrow> bool" where
  "stage_ok st \<longleftrightarrow> plain (prog st) \<and> list_all plain (args st) \<and> st_input st \<noteq> Some [] \<and> st_output st \<noteq> Some [] \<and> st_stderr st \<noteq> Some []
     \<and> (st_output st = None \<longrightarrow> \<not> append_mode st)"

definition command_ok :: "command \<Rightarrow> bool" where
  "command_ok cmd \<longleftrightarrow> stages cmd \<noteq> [] \<and> list_all stage_ok (stages cmd)"

fun line_ok :: "connector \<Rightarrow> command list \<Rightarrow> bool" where
  "line_ok c [] \<longleftrightarrow> c = NoConnector"
| "line_ok c [cmd] \<longleftrightarrow> command_ok cmd \<and> conn cmd = c"
| "line_ok c (cmd # nxt # cmds) \<longleftrightarrow> command_ok cmd \<and> conn cmd = c \<and> (conn nxt \<noteq> NoConnector \<longrightarrow> \<not> background cmd)
     \<and> line_ok (conn nxt) (nxt # cmds)"

subsection \<open>Parsing it back\<close>

lemma parse_word:
  "plain w \<Longrightarrow> parse_loop cmds sts st pending (w # rest)
     = parse_loop cmds sts (if prog st = [] then st\<lparr>prog := w\<rparr> else st\<lparr>args := args st @ [w]\<rparr>) pending rest"
  by (simp add: plain_def)

lemma parse_args:
  "list_all plain ws \<Longrightarrow> prog st \<noteq> [] \<Longrightarrow>
     parse_loop cmds sts st pending (ws @ rest) = parse_loop cmds sts (st\<lparr>args := args st @ ws\<rparr>) pending rest"
proof (induction ws arbitrary: st)
  case (Cons w ws)
  then show ?case using parse_word [of w cmds sts st pending "ws @ rest"] by (simp del: parse_loop.simps(2))
qed simp

lemma parse_redirection:
  assumes "is_redirection op"
  shows "parse_loop cmds sts st pending (map token_value (redirection op f) @ rest)
    = parse_loop cmds sts (case f of None \<Rightarrow> st | Some f \<Rightarrow> redirect op f st) pending rest"
proof (cases f)
  case (Some g)
  have "\<not> ends_command op" "op \<noteq> [124]" using assms by (auto simp: is_redirection_def ends_command_def)
  then show ?thesis using Some assms by (simp add: redirection_def)
qed (simp add: redirection_def)

lemma redirections: "is_redirection [60]" "is_redirection [62]" "is_redirection [62, 62]" "is_redirection [50, 62]"
  by (simp_all add: is_redirection_def)

lemma parse_stage:
  assumes "stage_ok s"
  shows "parse_loop cmds sts stage_default pending (map token_value (stage_tokens s) @ rest) = parse_loop cmds sts s pending rest"
proof -
  let ?i = "map token_value (redirection [60] (st_input s))"
  let ?o = "map token_value (redirection (if append_mode s then [62, 62] else [62]) (st_output s))"
  let ?e = "map token_value (redirection [50, 62] (st_stderr s))"
  let ?s1 = "stage_default\<lparr>prog := prog s, args := args s\<rparr>"
  have p: "plain (prog s)" "list_all plain (args s)" using assms by (simp_all add: stage_ok_def)
  have v: "map token_value (map Word ws) = ws" for ws by (induction ws) simp_all
  have "parse_loop cmds sts stage_default pending (map token_value (stage_tokens s) @ rest)
      = parse_loop cmds sts stage_default pending (prog s # args s @ ?i @ ?o @ ?e @ rest)"
    unfolding stage_tokens_def list.map map_append v by simp
  also have "\<dots> = parse_loop cmds sts (stage_default\<lparr>prog := prog s\<rparr>) pending (args s @ ?i @ ?o @ ?e @ rest)"
    unfolding parse_word [OF p(1)] by (simp add: stage_default_def)
  also have "\<dots> = parse_loop cmds sts ?s1 pending (?i @ ?o @ ?e @ rest)"
    using p by (subst parse_args) (simp_all add: plain_def stage_default_def)
  also have "\<dots> = parse_loop cmds sts s pending rest"
    using assms redirections
    by (simp add: parse_redirection redirect_def stage_default_def stage_ok_def del: parse_loop.simps split: option.splits)
      (auto simp: parse_redirection redirect_def stage_default_def stage_ok_def simp del: parse_loop.simps intro!: arg_cong [where f = "\<lambda>x. parse_loop cmds sts x pending rest"])
  finally show ?thesis .
qed

lemma parse_pipeline:
  "sts \<noteq> [] \<Longrightarrow> list_all stage_ok sts \<Longrightarrow>
     parse_loop cmds acc stage_default pending (map token_value (pipeline_tokens sts) @ rest)
       = parse_loop cmds (acc @ butlast sts) (last sts) pending rest"
proof (induction sts arbitrary: acc rule: pipeline_tokens.induct)
  case (3 st s sts)
  have "prog st \<noteq> []" using 3(3) by (simp add: stage_ok_def plain_def)
  then have "parse_loop cmds acc st pending ([124] # rest') = parse_loop cmds (acc @ [st]) stage_default pending rest'" for rest'
    by (simp add: ends_command_def finish_stage_def)
  with 3 show ?case by (simp add: parse_stage del: parse_loop.simps)
qed (simp_all add: parse_stage)

lemma parse_command_end:
  assumes "command_ok cmd"
  shows "finish_stage (butlast (stages cmd)) (last (stages cmd)) = Inr (stages cmd)" "prog (last (stages cmd)) \<noteq> []"
proof -
  have "last (stages cmd) \<in> set (stages cmd)" using assms by (simp add: command_ok_def)
  then show p: "prog (last (stages cmd)) \<noteq> []" using assms by (auto simp: command_ok_def list_all_iff stage_ok_def plain_def)
  then show "finish_stage (butlast (stages cmd)) (last (stages cmd)) = Inr (stages cmd)"
    using assms by (simp add: finish_stage_def command_ok_def)
qed

lemma parse_separator:
  assumes "command_ok cmd" "ends_command t"
  shows "parse_loop acc [] stage_default c (map token_value (pipeline_tokens (stages cmd)) @ t # rest)
    = parse_loop (acc @ [\<lparr>stages = stages cmd, background = (t = [38]), conn = c\<rparr>]) [] stage_default (connector_of t) rest"
  using assms parse_pipeline [of "stages cmd" acc "[]" c "t # rest"] parse_command_end [OF assms(1)]
  by (simp add: command_ok_def)

lemma parse_line:
  "line_ok c cmds \<Longrightarrow> parse_loop acc [] stage_default c (map token_value (commands_tokens cmds)) = Inr (acc @ cmds)"
proof (induction cmds arbitrary: c acc rule: commands_tokens.induct)
  case 1
  then show ?case by (simp add: stage_default_def)
next
  case (2 cmd)
  then have ok: "command_ok cmd" "conn cmd = c" by simp_all
  show ?case
  proof (cases "background cmd")
    case True
    then show ?thesis using ok parse_separator [of cmd "[38]" acc c "[]"]
      by (simp add: ends_command_def stage_default_def)
  next
    case False
    then show ?thesis using ok parse_pipeline [of "stages cmd" acc "[]" c "[]"] parse_command_end [OF ok(1)]
      by (simp add: command_ok_def)
  qed
next
  case (3 cmd nxt cmds)
  let ?t = "separator cmd nxt"
  have ok: "command_ok cmd" "conn cmd = c" "line_ok (conn nxt) (nxt # cmds)" "conn nxt \<noteq> NoConnector \<Longrightarrow> \<not> background cmd"
    using 3(2) by simp_all
  have t: "ends_command ?t" "connector_of ?t = conn nxt" "(?t = [38]) = background cmd"
    using ok(4) by (auto simp: separator_def ends_command_def connector_of_def split: connector.splits)
  have "\<lparr>stages = stages cmd, background = (?t = [38]), conn = c\<rparr> = cmd" using t(3) ok(2) by simp
  then show ?case using parse_separator [OF ok(1) t(1), of acc c] 3(1) [OF ok(3), of "acc @ [cmd]"] t(2)
    by (simp del: parse_loop.simps)
qed

lemma redirection_tokens: "f \<noteq> Some [] \<Longrightarrow> is_redirection op \<Longrightarrow> list_all token_ok (redirection op f)"
  by (cases f) (simp_all add: redirection_def is_op_def)

lemma stage_tokens_ok:
  assumes "stage_ok st"
  shows "list_all token_ok (stage_tokens st)"
proof -
  have "list_all plain ws \<Longrightarrow> list_all token_ok (map Word ws)" for ws by (induction ws) (simp_all add: plain_def)
  then have "list_all token_ok (map Word (args st))" using assms by (simp add: stage_ok_def)
  moreover have "token_ok (Word (prog st))" using assms by (simp add: stage_ok_def plain_def)
  ultimately show ?thesis using assms redirections
    unfolding stage_tokens_def list_all_append list.pred_inject by (simp add: stage_ok_def redirection_tokens)
qed

lemma pipeline_tokens_ok: "list_all stage_ok sts \<Longrightarrow> list_all token_ok (pipeline_tokens sts)"
  by (induction sts rule: pipeline_tokens.induct) (simp_all add: stage_tokens_ok is_op_def)

lemma commands_tokens_ok: "line_ok c cmds \<Longrightarrow> list_all token_ok (commands_tokens cmds)"
proof (induction cmds arbitrary: c rule: commands_tokens.induct)
  case (3 cmd nxt cmds)
  have "ends_command (separator cmd nxt)" by (simp add: separator_def ends_command_def split: connector.splits)
  with 3 show ?case by (auto simp: command_ok_def pipeline_tokens_ok is_op_def)
qed (simp_all add: command_ok_def pipeline_tokens_ok ends_command_def is_op_def)

lemma parse_written:
  assumes "line_ok NoConnector cmds" "list_all is_whitespace lead" "written_ok ws" "map written_token ws = commands_tokens cmds"
  shows "parse_command (lead @ concat (map written_text ws)) = Inr cmds"
proof -
  have "tokenize (lead @ concat (map written_text ws)) = Inr (map token_value (map written_token ws))"
    using tokenize_written [OF assms(3), of "[]"] assms(2) by (simp add: tokenize_def tokenize_blanks flush_def)
  with parse_line [OF assms(1), of "[]"] show ?thesis by (simp add: parse_command_def assms(4))
qed

text \<open>One way to write every token: all characters escaped, and a blank.\<close>

fun escape_token :: "token \<Rightarrow> written" where
  "escape_token (Word w) = Text (map Escaped w) [32]"
| "escape_token (Op op) = Symbol op [32]"

lemma escape_token_value: "written_token (escape_token t) = t"
proof (cases t)
  case (Word w)
  have "concat (map piece_value (map Escaped w)) = w" by (induction w) simp_all
  with Word show ?thesis by simp
qed simp

lemma escaped_ok: "list_all token_ok ts \<Longrightarrow> written_ok (map escape_token ts)"
proof (induction ts)
  case (Cons t ts)
  have "list_all piece_ok (map Escaped w)" for w by (induction w) simp_all
  with Cons escape_token_value [of t] show ?case by (cases t) (simp_all add: is_whitespace_def)
qed simp

subsection \<open>Only such commands come out\<close>

lemma two_char_op_some: "two_char_op c cs = Some w \<Longrightarrow> w \<noteq> []"
  by (auto simp: two_char_op_def split: list.splits if_splits)

lemma flush_not_empty: "[] \<notin> set tokens \<Longrightarrow> [] \<notin> set (flush tokens cur)"
  by (simp add: flush_def)

lemma tokens_not_empty: "tokenize_loop tokens cur q e inp = Inr ts \<Longrightarrow> [] \<notin> set tokens \<Longrightarrow> [] \<notin> set ts"
proof (induction inp arbitrary: tokens cur q e rule: length_induct)
  case (1 inp)
  have ih: "[] \<notin> set ts" if "tokenize_loop tks cu q' e' cs = Inr ts" "length cs < length inp" "[] \<notin> set tks" for tks cu q' e' cs
    using 1(1) that by blast
  note f = flush_not_empty [OF 1(3), of cur]
  show ?case
  proof (cases inp)
    case Nil
    with 1(2) f show ?thesis by (auto split: if_splits)
  next
    case (Cons c cs)
    note step = 1(2) [unfolded Cons tokenize_loop.simps(2)]
    consider "e" | "\<not> e" "c = 92" | "\<not> e" "c \<noteq> 92" "q \<noteq> None" | "\<not> e" "c \<noteq> 92" "q = None" by blast
    then show ?thesis
    proof cases
      case 4
      show ?thesis
      proof (cases "two_char_op c cs")
        case (Some w)
        have "tokenize_loop (flush tokens cur @ [w]) [] None False (tl cs) = Inr ts" using step 4 Some by simp
        then show ?thesis by (rule ih) (use f two_char_op_some [OF Some] Cons in auto)
      next
        case None
        have "[] \<notin> set (flush tokens cur @ [[c]])" using f by simp
        with step 4 None f 1(3) ih [of tokens _ _ _ cs] ih [of "flush tokens cur" _ _ _ cs] ih [of "flush tokens cur @ [[c]]" _ _ _ cs] Cons
        show ?thesis by (auto split: if_splits)
      qed
    qed (use step 1(3) ih [of tokens _ _ _ cs] Cons in \<open>auto split: if_splits\<close>)
  qed
qed

definition open_stage :: "stage \<Rightarrow> bool" where
  "open_stage st \<longleftrightarrow> (if prog st = [] then args st = [] else plain (prog st)) \<and> list_all plain (args st)
     \<and> st_input st \<noteq> Some [] \<and> st_output st \<noteq> Some [] \<and> st_stderr st \<noteq> Some [] \<and> (st_output st = None \<longrightarrow> \<not> append_mode st)"

lemma open_stage_default: "open_stage stage_default"
  by (simp add: open_stage_def stage_default_def)

lemma open_stage_done: "open_stage st \<Longrightarrow> prog st \<noteq> [] \<Longrightarrow> stage_ok st"
  by (simp add: open_stage_def stage_ok_def)

lemma open_stage_redirect: "open_stage st \<Longrightarrow> f \<noteq> [] \<Longrightarrow> open_stage (redirect op f st)"
  by (simp add: open_stage_def redirect_def)

lemma line_ok_snoc:
  "line_ok c (cmds @ [cmd]) \<longleftrightarrow> command_ok cmd \<and> (if cmds = [] then conn cmd = c else line_ok c cmds \<and> (conn cmd \<noteq> NoConnector \<longrightarrow> \<not> background (last cmds)))"
proof (induction c cmds rule: line_ok.induct)
  case (3 c cmd1 nxt cmds)
  then show ?case by auto
qed auto

definition open_line :: "command list \<Rightarrow> connector \<Rightarrow> bool" where
  "open_line cmds pending \<longleftrightarrow> line_ok NoConnector cmds \<and> (cmds = [] \<longrightarrow> pending = NoConnector)
     \<and> (cmds \<noteq> [] \<longrightarrow> pending \<noteq> NoConnector \<longrightarrow> \<not> background (last cmds))"

lemma open_line_add:
  assumes "open_line cmds pending" "sts \<noteq> []" "list_all stage_ok sts" "c \<noteq> NoConnector \<Longrightarrow> \<not> b"
  shows "open_line (cmds @ [\<lparr>stages = sts, background = b, conn = pending\<rparr>]) c"
  using assms by (auto simp: open_line_def line_ok_snoc command_ok_def)

lemma parse_loop_line_ok:
  "parse_loop cmds sts st pending ts = Inr res \<Longrightarrow> [] \<notin> set ts \<Longrightarrow> open_line cmds pending \<Longrightarrow> list_all stage_ok sts \<Longrightarrow> open_stage st
    \<Longrightarrow> line_ok NoConnector res"
proof (induction cmds sts st pending ts rule: parse_loop.induct)
  case (1 cmds sts st pending)
  show ?case
  proof (cases "prog st \<noteq> [] \<or> sts \<noteq> []")
    case True
    with 1(1) have p: "prog st \<noteq> []" and r: "res = cmds @ [\<lparr>stages = sts @ [st], background = False, conn = pending\<rparr>]"
      by (auto simp: finish_stage_def split: if_splits)
    have "open_line res NoConnector" unfolding r
      using 1(3,4) open_stage_done [OF 1(5) p] by (intro open_line_add) simp_all
    then show ?thesis by (simp add: open_line_def)
  qed (use 1 in \<open>simp add: open_line_def\<close>)
next
  case (2 cmds sts st pending t ts)
  have ne: "t \<noteq> []" "[] \<notin> set ts" using "2.prems"(2) by auto
  show ?case
  proof (cases "ends_command t \<or> t = [124]")
    case True
    then have p: "prog st \<noteq> []" using "2.prems"(1) by (auto simp: finish_stage_def split: if_splits)
    then have f: "finish_stage sts st = Inr (sts @ [st])" by (simp add: finish_stage_def)
    have ok: "list_all stage_ok (sts @ [st])" using "2.prems"(4) open_stage_done [OF "2.prems"(5) p] by simp
    show ?thesis
    proof (cases "ends_command t")
      case e: True
      have "open_line (cmds @ [\<lparr>stages = sts @ [st], background = (t = [38]), conn = pending\<rparr>]) (connector_of t)"
        using "2.prems"(3) ok by (intro open_line_add) (auto simp: connector_of_def split: if_splits)
      with "2.IH"(1) [OF e f _ ne(2) _ _ open_stage_default] "2.prems"(1) e f show ?thesis by simp
    next
      case False
      with True "2.IH"(2) [OF False _ f _ ne(2) "2.prems"(3) ok open_stage_default] "2.prems"(1) f show ?thesis by simp
    qed
  next
    case False
    then have n: "\<not> ends_command t" "t \<noteq> [124]" by simp_all
    show ?thesis
    proof (cases "is_redirection t")
      case r: True
      with "2.prems"(1) n obtain f ts' where ts: "ts = f # ts'" by (cases ts) auto
      have "open_stage (redirect t f st)" using ne(2) ts by (intro open_stage_redirect [OF "2.prems"(5)]) auto
      with "2.IH"(3) [OF n r ts _ _ "2.prems"(3,4)] "2.prems"(1) n r ts ne(2) show ?thesis by simp
    next
      case r: False
      have w: "plain t" using n r ne(1) by (simp add: plain_def)
      show ?thesis
      proof (cases "prog st = []")
        case p: True
        have "open_stage (st\<lparr>prog := t\<rparr>)" using "2.prems"(5) w p ne(1) by (simp add: open_stage_def)
        with "2.IH"(4) [OF n r p _ ne(2) "2.prems"(3,4)] "2.prems"(1) n r p show ?thesis by simp
      next
        case p: False
        have "open_stage (st\<lparr>args := args st @ [t]\<rparr>)" using "2.prems"(5) w p by (simp add: open_stage_def)
        with "2.IH"(5) [OF n r p _ ne(2) "2.prems"(3,4)] "2.prems"(1) n r p show ?thesis by simp
      qed
    qed
  qed
qed

lemma parsed_line_ok: "parse_command inp = Inr cmds \<Longrightarrow> line_ok NoConnector cmds"
  using parse_loop_line_ok [of "[]" "[]" stage_default NoConnector _ cmds] tokens_not_empty [of "[]" "[]" None False inp]
  by (auto simp: parse_command_def tokenize_def open_line_def open_stage_default split: sum.splits)

subsection \<open>Properties\<close>

text \<open>C33: the command language. A list of commands is what some line parses to if and only if it has the form
  \<open>line_ok\<close>: the first command has no connector; every command has a stage; the programs and the
  arguments are not empty and do not spell an operator; the files of redirections are not empty; and a
  command in the background is not followed by one with a connector. A list of that form is what a line
  parses to however its tokens are spelled: words in any mixture of bare characters, escaped characters
  and single or double quotes, with any white space between the tokens, or none where a word and an
  operator meet.\<close>

theorem parse_written_line:
  "(line_ok NoConnector cmds \<longleftrightarrow> (\<exists>inp. parse_command inp = Inr cmds))
   \<and> (\<forall>lead ws. line_ok NoConnector cmds \<and> list_all is_whitespace lead \<and> written_ok ws \<and> map written_token ws = commands_tokens cmds
       \<longrightarrow> parse_command (lead @ concat (map written_text ws)) = Inr cmds)"
proof (intro conjI iffI)
  assume ok: "line_ok NoConnector cmds"
  have "map written_token (map escape_token ts) = ts" for ts by (induction ts) (simp_all add: escape_token_value)
  with parse_written [OF ok, of "[]" "map escape_token (commands_tokens cmds)"] escaped_ok [OF commands_tokens_ok [OF ok]]
  show "\<exists>inp. parse_command inp = Inr cmds" by (metis list.pred_inject(1))
next
  assume "\<exists>inp. parse_command inp = Inr cmds"
  then show "line_ok NoConnector cmds" using parsed_line_ok by blast
qed (use parse_written in blast)

text \<open>The line \<^verbatim>\<open>cat 'a b' <\| |wc>>out && ls 2>err&\<close>.\<close>

definition example_line :: "command list" where
  "example_line =
     [\<lparr>stages = [stage_default\<lparr>prog := lit ''cat'', args := [lit ''a b''], st_input := Some (lit ''|'')\<rparr>,
                stage_default\<lparr>prog := lit ''wc'', st_output := Some (lit ''out''), append_mode := True\<rparr>],
       background = False, conn = NoConnector\<rparr>,
      \<lparr>stages = [stage_default\<lparr>prog := lit ''ls'', st_stderr := Some (lit ''err'')\<rparr>], background = True, conn = And\<rparr>]"

definition bare :: "string \<Rightarrow> piece list" where
  "bare s = map Bare (lit s)"

definition example_text :: "written list" where
  "example_text = [Text (bare ''cat'') [32], Text [Quoted 39 (map Raw (lit ''a b''))] [32], Symbol [60] [], Text [Escaped 124] [32],
     Symbol [124] [], Text (bare ''wc'') [], Symbol [62, 62] [], Text (bare ''out'') [32], Symbol [38, 38] [32], Text (bare ''ls'') [32],
     Symbol [50, 62] [], Text (bare ''err'') [], Symbol [38] []]"

theorem parse_written_line_witness:
  "parse_command (map of_char (''cat '' @ [CHR 39] @ ''a b'' @ [CHR 39] @ '' <'' @ [CHR 92] @ ''| |wc>>out && ls 2>err&'')) = Inr example_line"
proof -
  have l: "line_ok NoConnector example_line"
    by (simp add: example_line_def command_ok_def stage_ok_def plain_def stage_default_def lit_def ends_command_def is_redirection_def)
  have w: "written_ok example_text"
    by (simp add: example_text_def bare_def lit_def one_char_op_def is_whitespace_def is_op_def ends_command_def is_redirection_def)
  have m: "map written_token example_text = commands_tokens example_line"
    by (simp add: example_text_def example_line_def bare_def lit_def stage_tokens_def redirection_def separator_def stage_default_def)
  have "concat (map written_text example_text) = map of_char (''cat '' @ [CHR 39] @ ''a b'' @ [CHR 39] @ '' <'' @ [CHR 92] @ ''| |wc>>out && ls 2>err&'')"
    by (simp add: example_text_def bare_def lit_def)
  with parse_written_line [of example_line] l w m show ?thesis by (metis append_Nil list.pred_inject(1))
qed

end
