(* ===== verification/ShellJobs.thy ===== *)
theory ShellJobs
  imports Shell FileCalls
begin

section \<open>Pipelines and jobs of the shell\<close>

text \<open>
  The part of user/src/bin/user_shell.rs that runs commands. The descriptors of a child of a pipeline
  are set up on the descriptor table of its control block, with the kernel's rules for close and dup.
  The rest works on the shell's own table of jobs: the system calls it makes are the fields of
  \<open>os_calls\<close> on a state of their own, and the lines it prints are the values of \<open>notice\<close>: a message stands for
  its line without the number or name that the line mentions.
\<close>

subsection \<open>Descriptors\<close>

text \<open>What the kernel's close and dup do to the table of the caller.\<close>

definition close_fd :: "nat \<Rightarrow> pcb \<Rightarrow> pcb" where
  "close_fd fd b = b\<lparr>fd_table := (fd_table b)[fd := None]\<rparr>"

definition dup_fd :: "nat \<Rightarrow> pcb \<Rightarrow> (nat \<times> pcb) outcome" where
  "dup_fd fd b = do { r \<leftarrow> fd_file (of_nat fd) b; install_file r b }"

text \<open>
  A redirection of descriptor \<open>target\<close>: the file that \<^verbatim>\<open>open\<close> gives, or none when it fails and the
  child exits. None is a failed assertion.
\<close>

datatype child = Plumbed pcb | Exits

definition redirect_fd :: "nat \<Rightarrow> file_ref option \<Rightarrow> pcb \<Rightarrow> child outcome" where
  "redirect_fd target opened b = (case opened of
     None \<Rightarrow> Some Exits
   | Some r \<Rightarrow> do {
       (fd, b) \<leftarrow> install_file r b;
       (v, b) \<leftarrow> dup_fd fd (close_fd target b);
       _ \<leftarrow> ensure (v = target);
       Some (Plumbed (close_fd fd b))
     })"

definition then_child :: "child outcome \<Rightarrow> (pcb \<Rightarrow> child outcome) \<Rightarrow> child outcome" where
  "then_child c f = do { x \<leftarrow> c; case x of Exits \<Rightarrow> Some Exits | Plumbed b \<Rightarrow> f b }"

definition pipe_to :: "nat \<Rightarrow> nat \<Rightarrow> pcb \<Rightarrow> child outcome" where
  "pipe_to target fd b = do {
     (v, b) \<leftarrow> dup_fd fd (close_fd target b);
     _ \<leftarrow> ensure (v = target);
     Some (Plumbed b)
   }"

fun close_pipes :: "(nat \<times> nat) list \<Rightarrow> pcb \<Rightarrow> pcb" where
  "close_pipes [] b = b"
| "close_pipes ((r, w) # ps) b = close_pipes ps (close_fd w (close_fd r b))"

text \<open>
  The child of stage \<open>i\<close> of \<open>n\<close>, up to the exec; \<open>opened\<close> is what \<^verbatim>\<open>open\<close> gives
  for a path and flags.
\<close>

definition out_flags :: "bool \<Rightarrow> u32" where
  "out_flags app = (let flags = CREATE OR WRONLY in if app then flags OR APPEND else flags)"

definition child_redirections :: "(str \<Rightarrow> u32 \<Rightarrow> file_ref option) \<Rightarrow> stage \<Rightarrow> pcb \<Rightarrow> child outcome" where
  "child_redirections opened st b =
     then_child (case st_input st of None \<Rightarrow> Some (Plumbed b) | Some path \<Rightarrow> redirect_fd 0 (opened path RDONLY) b) (\<lambda>b.
     then_child (case st_output st of None \<Rightarrow> Some (Plumbed b) | Some path \<Rightarrow> redirect_fd 1 (opened path (out_flags (append_mode st))) b) (\<lambda>b.
     case st_stderr st of None \<Rightarrow> Some (Plumbed b) | Some path \<Rightarrow> redirect_fd 2 (opened path (out_flags False)) b))"

definition child_pipes :: "nat \<Rightarrow> nat \<Rightarrow> (nat \<times> nat) list \<Rightarrow> pcb \<Rightarrow> child outcome" where
  "child_pipes i n pipes b =
     then_child (if 0 < i then do { p \<leftarrow> idx pipes (i - 1); pipe_to 0 (fst p) b } else Some (Plumbed b)) (\<lambda>b.
     then_child (if i + 1 < n then do { p \<leftarrow> idx pipes i; pipe_to 1 (snd p) b } else Some (Plumbed b)) (\<lambda>b.
     Some (Plumbed (close_pipes pipes b))))"

definition child_fds :: "(str \<Rightarrow> u32 \<Rightarrow> file_ref option) \<Rightarrow> nat \<Rightarrow> nat \<Rightarrow> (nat \<times> nat) list \<Rightarrow> stage \<Rightarrow> pcb \<Rightarrow> child outcome" where
  "child_fds opened i n pipes st b = then_child (child_redirections opened st b) (child_pipes i n pipes)"

subsection \<open>System calls of the shell\<close>

text \<open>
  The answer of \<^verbatim>\<open>waitpid\<close> comes with the exit code when it writes one. The state of the operating system is
  a type of its own. \<^verbatim>\<open>open\<close> gives a descriptor or fails, \<^verbatim>\<open>pipe\<close> gives the numbers that its array holds
  afterwards, and \<^verbatim>\<open>getcwd\<close> the text it wrote, if it wrote any and it is valid.
\<close>

record 's os_calls =
  os_waitpid :: "usize \<Rightarrow> usize \<Rightarrow> 's \<Rightarrow> (isize \<times> u32 option) \<times> 's"
  os_sleep :: "usize \<Rightarrow> 's \<Rightarrow> 's"
  os_kill :: "usize \<Rightarrow> u32 \<Rightarrow> 's \<Rightarrow> isize \<times> 's"
  os_tcsetpgrp :: "usize \<Rightarrow> 's \<Rightarrow> 's"
  os_setpgid :: "usize \<Rightarrow> usize \<Rightarrow> 's \<Rightarrow> 's"
  os_fork :: "'s \<Rightarrow> usize \<times> 's"
  os_pipe :: "'s \<Rightarrow> (nat \<times> nat) \<times> 's"
  os_close :: "nat \<Rightarrow> 's \<Rightarrow> 's"
  os_open :: "str \<Rightarrow> u32 \<Rightarrow> 's \<Rightarrow> nat option \<times> 's"
  os_write :: "nat \<Rightarrow> str \<Rightarrow> 's \<Rightarrow> 's"
  os_chdir :: "str \<Rightarrow> 's \<Rightarrow> isize \<times> 's"
  os_getcwd :: "'s \<Rightarrow> str option"

datatype job_status = Running_job | Suspended_job | Ended u32

datatype notice = Started usize usize | Stopped_job usize str | Done_job usize u32 str | Finished_job usize str | Continued usize str
  | Exited u32 | Entry nat str | Listed usize job_status usize str | Output str | Message string

datatype wait_result = Reaped u32 | Stopped_child

record job =
  jid :: usize
  job_pgid :: usize
  job_pids :: "usize list"
  cmdline :: str
  status :: job_status

record shell =
  sh_history :: "str list"
  jobs :: "job list"
  next_jid :: usize
  shell_pgrp :: usize
  history_cleared :: bool

definition SIGCONT_BITS :: u32 where "SIGCONT_BITS = push_bit 21 1"
definition SIGINT_BITS :: u32 where "SIGINT_BITS = push_bit 2 1"
definition SIGTSTP_BITS :: u32 where "SIGTSTP_BITS = push_bit 20 1"
definition SHELL_HISTORY :: nat where "SHELL_HISTORY = 100"

partial_function (option) wait_foreground :: "'s os_calls \<Rightarrow> usize \<Rightarrow> u32 \<Rightarrow> 's \<Rightarrow> (wait_result \<times> u32 \<times> 's) option" where
  "wait_foreground os p exit_code s = (case os_waitpid os p WUNTRACED s of ((v, w), s) \<Rightarrow>
     let exit_code = (case w of None \<Rightarrow> exit_code | Some c \<Rightarrow> c) in
     if v = - 2 then wait_foreground os p exit_code (os_sleep os 2 s)
     else if v = - 3 then Some (Stopped_child, exit_code, s)
     else Some (Reaped exit_code, exit_code, s))"

fun wait_children :: "'s os_calls \<Rightarrow> usize list \<Rightarrow> u32 \<Rightarrow> bool \<Rightarrow> 's \<Rightarrow> (u32 \<times> bool \<times> 's) outcome" where
  "wait_children os [] last_code halted s = Some (last_code, halted, s)"
| "wait_children os (p # ps) last_code halted s = do {
     (r, last_code, s) \<leftarrow> wait_foreground os p last_code s;
     (case r of
        Reaped code \<Rightarrow> wait_children os ps code halted s
      | Stopped_child \<Rightarrow> wait_children os ps last_code True s)
   }"

subsection \<open>The table of jobs\<close>

definition shell_new :: "usize \<Rightarrow> shell" where
  "shell_new pgrp = \<lparr>sh_history = [], jobs = [], next_jid = 1, shell_pgrp = pgrp, history_cleared = False\<rparr>"

definition shell_add_history :: "str \<Rightarrow> shell \<Rightarrow> shell" where
  "shell_add_history txt sh =
     (if txt = [] \<or> sh_history sh \<noteq> [] \<and> last (sh_history sh) = txt then sh
      else let h = sh_history sh @ [txt] in sh\<lparr>sh_history := if SHELL_HISTORY < length h then tl h else h\<rparr>)"

fun poll_pids :: "'s os_calls \<Rightarrow> usize list \<Rightarrow> usize list \<Rightarrow> u32 \<Rightarrow> 's \<Rightarrow> usize list \<times> u32 \<times> 's" where
  "poll_pids os [] finished last_code s = (finished, last_code, s)"
| "poll_pids os (p # ps) finished last_code s = (case os_waitpid os p 0 s of ((ret, w), s) \<Rightarrow>
     if ret = p \<or> ret = - 1 then poll_pids os ps (finished @ [p]) (case w of None \<Rightarrow> 0 | Some c \<Rightarrow> c) s
     else poll_pids os ps finished last_code s)"

definition reap_job :: "'s os_calls \<Rightarrow> job \<Rightarrow> 's \<Rightarrow> job \<times> notice list \<times> 's" where
  "reap_job os j s = (
     let (finished, last_code, s) = poll_pids os (job_pids j) [] 0 s;
         j = j\<lparr>job_pids := filter (\<lambda>p. p \<notin> set finished) (job_pids j)\<rparr>
     in if job_pids j = [] then (j\<lparr>status := Ended last_code\<rparr>, [Done_job (jid j) last_code (cmdline j)], s) else (j, [], s))"

fun reap_all :: "'s os_calls \<Rightarrow> job list \<Rightarrow> 's \<Rightarrow> job list \<times> notice list \<times> 's" where
  "reap_all os [] s = ([], [], s)"
| "reap_all os (j # js) s = (
     let (j, n1, s) = reap_job os j s; (js, n2, s) = reap_all os js s in (j # js, n1 @ n2, s))"

fun is_done :: "job \<Rightarrow> bool" where
  "is_done j = (case status j of Ended _ \<Rightarrow> True | _ \<Rightarrow> False)"

definition reap_jobs :: "'s os_calls \<Rightarrow> shell \<Rightarrow> 's \<Rightarrow> shell \<times> notice list \<times> 's" where
  "reap_jobs os sh s = (
     let (js, out, s) = reap_all os (jobs sh) s in (sh\<lparr>jobs := filter (\<lambda>j. \<not> is_done j) js\<rparr>, out, s))"

definition register_job :: "usize \<Rightarrow> usize list \<Rightarrow> str \<Rightarrow> bool \<Rightarrow> shell \<Rightarrow> shell \<times> notice list" where
  "register_job pgrp ps cmd bg sh = (
     let i = next_jid sh in
     (sh\<lparr>next_jid := i + 1, jobs := jobs sh @ [\<lparr>jid = i, job_pgid = pgrp, job_pids = ps, cmdline = cmd, status = Running_job\<rparr>]\<rparr>,
      if bg then [Started i pgrp] else []))"

definition register_stopped_job :: "usize \<Rightarrow> usize list \<Rightarrow> str \<Rightarrow> shell \<Rightarrow> shell \<times> notice list" where
  "register_stopped_job pgrp ps cmd sh = (
     let i = next_jid sh in
     (sh\<lparr>next_jid := i + 1, jobs := jobs sh @ [\<lparr>jid = i, job_pgid = pgrp, job_pids = ps, cmdline = cmd, status = Suspended_job\<rparr>]\<rparr>,
      [Stopped_job i cmd]))"

text \<open>
  The shell's side of a pipeline: its pipes, a child for every stage, all in the process group of the
  first one, and then the table of jobs or the wait. The child that a fork makes goes on with
  \<open>child_fds\<close>.
\<close>

fun make_pipes :: "'s os_calls \<Rightarrow> nat \<Rightarrow> 's \<Rightarrow> (nat \<times> nat) list \<times> 's" where
  "make_pipes os 0 s = ([], s)"
| "make_pipes os (Suc k) s = (let (fd, s) = os_pipe os s; (ps, s) = make_pipes os k s in (fd # ps, s))"

fun start_children :: "'s os_calls \<Rightarrow> stage list \<Rightarrow> bool \<Rightarrow> usize \<Rightarrow> 's \<Rightarrow> (usize \<times> usize list) \<times> 's" where
  "start_children os [] is_first pgrp s = ((pgrp, []), s)"
| "start_children os (st # sts) is_first pgrp s = (
     let (p, s) = os_fork os s;
         pgrp = (if is_first then p else pgrp);
         s = os_setpgid os p pgrp s;
         ((g, ps), s) = start_children os sts False pgrp s
     in ((g, p # ps), s))"

fun drop_pipes :: "'s os_calls \<Rightarrow> (nat \<times> nat) list \<Rightarrow> 's \<Rightarrow> 's" where
  "drop_pipes os [] s = s"
| "drop_pipes os ((r, w) # ps) s = drop_pipes os ps (os_close os w (os_close os r s))"


definition finish_pipeline :: "'s os_calls \<Rightarrow> command \<Rightarrow> usize \<Rightarrow> usize list \<Rightarrow> shell \<Rightarrow> 's \<Rightarrow> (u32 \<times> shell \<times> notice list \<times> 's) outcome" where
  "finish_pipeline os cmd pgrp ps sh s = (
     let txt = command_string cmd in
     if background cmd then let (sh, out) = register_job pgrp ps txt True sh in Some (0, sh, out, s)
     else do {
       (last_code, halted, s) \<leftarrow> wait_children os ps 0 False (os_tcsetpgrp os pgrp s);
       let s = os_tcsetpgrp os (shell_pgrp sh) s;
       if halted then let (sh, out) = register_stopped_job pgrp ps txt sh in Some (1, sh, out, s)
       else Some (last_code, sh, if last_code \<noteq> 0 then [Exited last_code] else [], s)
     })"

definition run_pipeline :: "'s os_calls \<Rightarrow> command \<Rightarrow> shell \<Rightarrow> 's \<Rightarrow> (u32 \<times> shell \<times> notice list \<times> 's) outcome" where
  "run_pipeline os cmd sh s = (
     let (pipes, s) = make_pipes os (length (stages cmd) - 1) s;
         ((pgrp, ps), s) = start_children os (stages cmd) True 0 s;
         s = drop_pipes os pipes s
     in finish_pipeline os cmd pgrp ps sh s)"

subsection \<open>Builtin commands\<close>

text \<open>\<^verbatim>\<open>parse::<usize>\<close>: decimal digits after an optional plus sign, within the range of the type.\<close>

definition is_digit :: "nat \<Rightarrow> bool" where
  "is_digit c \<longleftrightarrow> 48 \<le> c \<and> c \<le> 57"

definition parse_usize :: "str \<Rightarrow> usize option" where
  "parse_usize a = (
     let ds = (case a of c # rest \<Rightarrow> if c = 43 then rest else a | [] \<Rightarrow> a);
         n = foldl (\<lambda>n c. 10 * n + (c - 48)) 0 ds
     in if ds \<noteq> [] \<and> list_all is_digit ds \<and> n < 2 ^ 64 then Some (of_nat n) else None)"

definition job_index :: "str list \<Rightarrow> shell \<Rightarrow> nat option" where
  "job_index as sh = (case as of
     a # _ \<Rightarrow> (case parse_usize a of None \<Rightarrow> None | Some i \<Rightarrow> position (\<lambda>j. jid j = i) (jobs sh))
   | [] \<Rightarrow> if jobs sh = [] then None else Some (length (jobs sh) - 1))"

definition set_status :: "nat \<Rightarrow> job_status \<Rightarrow> shell \<Rightarrow> shell" where
  "set_status i st sh = sh\<lparr>jobs := (jobs sh)[i := (jobs sh ! i)\<lparr>status := st\<rparr>]\<rparr>"

definition builtin_fg :: "'s os_calls \<Rightarrow> str list \<Rightarrow> shell \<Rightarrow> 's \<Rightarrow> (shell \<times> notice list \<times> 's) outcome" where
  "builtin_fg os as sh s = (case job_index as sh of
     None \<Rightarrow> Some (sh, [Message ''fg: job not found''], s)
   | Some i \<Rightarrow>
       let j = jobs sh ! i;
           (ok, sh, s) = (if status j = Suspended_job
             then let (r, s) = os_kill os (- job_pgid j) SIGCONT_BITS s in
               if r \<noteq> 0 then (False, sh, s) else (True, set_status i Running_job sh, s)
             else (True, sh, s))
       in if \<not> ok then Some (sh, [Message ''fg: failed to continue job''], s)
       else do {
         (last_code, stopped_again, s) \<leftarrow> wait_children os (job_pids j) 0 False (os_tcsetpgrp os (job_pgid j) s);
         let s = os_tcsetpgrp os (shell_pgrp sh) s;
         Some (if stopped_again then (set_status i Suspended_job sh, [Stopped_job (jid j) (cmdline j)], s)
           else (sh\<lparr>jobs := take i (jobs sh) @ drop (Suc i) (jobs sh)\<rparr>, [Finished_job (jid j) (cmdline j)], s))
       })"

definition builtin_bg :: "'s os_calls \<Rightarrow> str list \<Rightarrow> shell \<Rightarrow> 's \<Rightarrow> shell \<times> notice list \<times> 's" where
  "builtin_bg os as sh s = (case job_index as sh of
     None \<Rightarrow> (sh, [Message ''bg: job not found''], s)
   | Some i \<Rightarrow> (let j = jobs sh ! i in
       case status j of
         Running_job \<Rightarrow> (sh, [Message ''bg: job already running''], s)
       | Suspended_job \<Rightarrow> (let (r, s) = os_kill os (- job_pgid j) SIGCONT_BITS s in
           if r \<noteq> 0 then (sh, [Message ''bg: failed to continue job''], s)
           else (set_status i Running_job sh, [Continued (jid j) (cmdline j)], s))
       | Ended _ \<Rightarrow> (sh, [Message ''bg: job already done''], s)))"

definition uppercase :: "str \<Rightarrow> str" where
  "uppercase a = map (\<lambda>c. if 97 \<le> c \<and> c \<le> 122 then c - 32 else c) a"

definition signal_named :: "str \<Rightarrow> u32 option" where
  "signal_named nm = (
     if nm = lit ''INT'' then Some SIGINT_BITS else if nm = lit ''TSTP'' then Some SIGTSTP_BITS
     else if nm = lit ''CONT'' then Some SIGCONT_BITS else if nm = lit ''ABRT'' then Some (push_bit 6 1)
     else if nm = lit ''ILL'' then Some (push_bit 4 1) else if nm = lit ''FPE'' then Some (push_bit 8 1)
     else if nm = lit ''SEGV'' then Some (push_bit 11 1) else None)"

definition strip_minus :: "str \<Rightarrow> str option" where
  "strip_minus a = (case a of c # rest \<Rightarrow> if c = 45 then Some rest else None | [] \<Rightarrow> None)"

text \<open>The signal and the index of the target argument, or an error.\<close>

definition kill_signal :: "str \<Rightarrow> (u32 \<times> nat) option" where
  "kill_signal a = (case strip_minus a of
     None \<Rightarrow> Some (SIGINT_BITS, 0)
   | Some nm \<Rightarrow>
       if nm \<noteq> [] \<and> list_all is_digit nm then Some (SIGINT_BITS, 0)
       else (case signal_named (uppercase nm) of None \<Rightarrow> None | Some sig \<Rightarrow> Some (sig, 1)))"

definition builtin_kill :: "'s os_calls \<Rightarrow> str list \<Rightarrow> 's \<Rightarrow> notice list \<times> 's" where
  "builtin_kill os as s = (case as of
     [] \<Rightarrow> ([Message ''kill: usage''], s)
   | a # _ \<Rightarrow> (case kill_signal a of
       None \<Rightarrow> ([Message ''kill: unknown signal''], s)
     | Some (sig, target) \<Rightarrow>
         if length as \<le> target then ([Message ''kill: usage''], s)
         else (case Option.bind (strip_minus (as ! target)) parse_usize of
           Some p \<Rightarrow> (let (r, s) = os_kill os (- p) sig s in (if r \<noteq> 0 then [Message ''kill: no such process group''] else [], s))
         | None \<Rightarrow> (case parse_usize (as ! target) of
             Some p \<Rightarrow> (let (r, s) = os_kill os p sig s in (if r \<noteq> 0 then [Message ''kill: no such process''] else [], s))
           | None \<Rightarrow> ([Message ''kill: invalid argument''], s)))))"

definition is_pipeline_builtin :: "str \<Rightarrow> bool" where
  "is_pipeline_builtin p \<longleftrightarrow> p = lit ''echo'' \<or> p = lit ''pwd'' \<or> p = lit ''history'' \<or> p = lit ''help'' \<or> p = lit ''clear''"

fun echo_text :: "str list \<Rightarrow> str" where
  "echo_text [] = []"
| "echo_text [a] = a"
| "echo_text (a # as) = a @ 32 # echo_text as"

definition builtin_echo :: "'s os_calls \<Rightarrow> stage \<Rightarrow> 's \<Rightarrow> notice list \<times> 's" where
  "builtin_echo os st s = (let txt = echo_text (args st) in case st_output st of
     None \<Rightarrow> ([Output txt], s)
   | Some path \<Rightarrow> (case os_open os path (out_flags (append_mode st)) s of
       (None, s) \<Rightarrow> ([Message ''shell: cannot open''], s)
     | (Some fd, s) \<Rightarrow> ([], os_close os fd (os_write os fd (lit [CHR 0x0A]) (os_write os fd txt s)))))"

definition builtin_cd :: "'s os_calls \<Rightarrow> str list \<Rightarrow> 's \<Rightarrow> notice list \<times> 's" where
  "builtin_cd os as s = (
     let (r, s) = os_chdir os (case as of [] \<Rightarrow> lit ''/'' | a # _ \<Rightarrow> a) s
     in (if r \<noteq> 0 then [Message ''cd: No such file or directory''] else [], s))"

definition builtin_pwd :: "'s os_calls \<Rightarrow> 's \<Rightarrow> notice list" where
  "builtin_pwd os s = [Output (case os_getcwd os s of None \<Rightarrow> lit ''/'' | Some cwd \<Rightarrow> cwd)]"

definition builtin_history :: "str list \<Rightarrow> shell \<Rightarrow> shell \<times> notice list" where
  "builtin_history as sh =
     (if as \<noteq> [] \<and> hd as = lit ''-c'' then (sh\<lparr>sh_history := [], history_cleared := True\<rparr>, [])
      else (sh, map (\<lambda>(i, txt). Entry (i + 1) txt) (enumerate 0 (sh_history sh))))"

definition builtin_jobs :: "'s os_calls \<Rightarrow> shell \<Rightarrow> 's \<Rightarrow> shell \<times> notice list \<times> 's" where
  "builtin_jobs os sh s = (
     let (sh, out, s) = reap_jobs os sh s
     in (sh, out @ map (\<lambda>j. Listed (jid j) (status j) (job_pgid j) (cmdline j)) (jobs sh), s))"

definition builtin_help :: "notice list" where
  "builtin_help = [Message ''builtins'', Message ''syntax'']"

definition builtin_clear :: "notice list" where
  "builtin_clear = [Output (lit (CHR 0x1B # ''[2J'') @ lit (CHR 0x1B # ''[H''))]"

text \<open>The builtins that a child of a pipeline runs in place of a program.\<close>

definition run_pipeline_builtin :: "'s os_calls \<Rightarrow> stage \<Rightarrow> shell \<Rightarrow> 's \<Rightarrow> shell \<times> notice list \<times> 's" where
  "run_pipeline_builtin os st sh s = (
     if prog st = lit ''echo'' then (sh, builtin_echo os st s)
     else if prog st = lit ''pwd'' then (sh, builtin_pwd os s, s)
     else if prog st = lit ''history'' then (let (sh, out) = builtin_history [] sh in (sh, out, s))
     else if prog st = lit ''help'' then (sh, builtin_help, s)
     else if prog st = lit ''clear'' then (sh, builtin_clear, s)
     else (sh, [], s))"

text \<open>A single stage may be a builtin command; the status of every builtin is 0. \<open>Quit\<close> is the exit of the shell.\<close>

datatype verdict = Quit | Code u32

definition builtin :: "'s os_calls \<Rightarrow> stage \<Rightarrow> shell \<Rightarrow> 's \<Rightarrow> (shell \<times> notice list \<times> 's) outcome option" where
  "builtin os st sh s = (
     if prog st = lit ''echo'' then Some (Some (sh, builtin_echo os st s))
     else if prog st = lit ''cd'' then Some (Some (sh, builtin_cd os (args st) s))
     else if prog st = lit ''pwd'' then Some (Some (sh, builtin_pwd os s, s))
     else if prog st = lit ''history'' then Some (let (sh, out) = builtin_history (args st) sh in Some (sh, out, s))
     else if prog st = lit ''jobs'' then Some (Some (builtin_jobs os sh s))
     else if prog st = lit ''fg'' then Some (builtin_fg os (args st) sh s)
     else if prog st = lit ''bg'' then Some (Some (builtin_bg os (args st) sh s))
     else if prog st = lit ''kill'' then Some (Some (sh, builtin_kill os (args st) s))
     else if prog st = lit ''help'' then Some (Some (sh, builtin_help, s))
     else if prog st = lit ''clear'' then Some (Some (sh, builtin_clear, s))
     else None)"

definition execute :: "'s os_calls \<Rightarrow> command \<Rightarrow> shell \<Rightarrow> 's \<Rightarrow> (verdict \<times> shell \<times> notice list \<times> 's) outcome" where
  "execute os cmd sh s = (
     let whole = do { (code, sh, out, s) \<leftarrow> run_pipeline os cmd sh s; Some (Code code, sh, out, s) } in
     case stages cmd of
       [st] \<Rightarrow>
         if prog st = lit ''exit'' then Some (Quit, sh, [], s)
         else (case builtin os st sh s of
           Some handled \<Rightarrow> do { (sh, out, s) \<leftarrow> handled; Some (Code 0, sh, out, s) }
         | None \<Rightarrow> whole)
     | _ \<Rightarrow> whole)"

subsection \<open>Where the descriptors of a child lead\<close>

definition desc :: "pcb \<Rightarrow> nat \<Rightarrow> file_ref option" where
  "desc b fd = (if fd < length (fd_table b) then fd_table b ! fd else None)"

definition same_rest :: "pcb \<Rightarrow> pcb \<Rightarrow> bool" where
  "same_rest b b' \<longleftrightarrow> b' = b\<lparr>fd_table := fd_table b'\<rparr>"

lemma same_rest_simps [simp]: "same_rest b b" "same_rest b (b\<lparr>fd_table := ft\<rparr>)"
  by (simp_all add: same_rest_def)

lemma same_rest_trans: "same_rest a b \<Longrightarrow> same_rest b c \<Longrightarrow> same_rest a c"
  unfolding same_rest_def
proof -
  assume 1: "b = a\<lparr>fd_table := fd_table b\<rparr>" and 2: "c = b\<lparr>fd_table := fd_table c\<rparr>"
  have "b\<lparr>fd_table := fd_table c\<rparr> = a\<lparr>fd_table := fd_table c\<rparr>" by (subst 1) simp
  with 2 show "c = a\<lparr>fd_table := fd_table c\<rparr>" by (rule trans)
qed

lemma close_fd_slot: "desc (close_fd fd b) = (desc b)(fd := None)" "same_rest b (close_fd fd b)"
  "length (fd_table (close_fd fd b)) = length (fd_table b)"
  by (auto simp: desc_def close_fd_def fun_eq_iff nth_list_update)

text \<open>A new descriptor is the lowest free one.\<close>

lemma install_slot:
  obtains fd b' where "install_file r b = Some (fd, b')" "desc b fd = None" "\<And>j. j < fd \<Longrightarrow> desc b j \<noteq> None"
    "desc b' = (desc b)(fd \<mapsto> r)" "same_rest b b'" "length (fd_table b') \<le> Suc (length (fd_table b))" "fd \<le> length (fd_table b)"
proof (cases "position (\<lambda>f. f = None) (fd_table b)")
  case None
  then have full: "\<forall>j < length (fd_table b). fd_table b ! j \<noteq> None" by (auto simp: all_set_conv_all_nth)
  let ?b' = "b\<lparr>fd_table := fd_table b @ [Some r]\<rparr>"
  have i: "install_file r b = Some (length (fd_table b), ?b')"
    using None by (simp add: install_file_def alloc_fd_def Let_def upd_def del: position_None)
  show ?thesis by (rule that [OF i]) (use full in \<open>auto simp: desc_def fun_eq_iff nth_append\<close>)
next
  case (Some k)
  then have k: "k < length (fd_table b)" "fd_table b ! k = None" "\<And>j. j < k \<Longrightarrow> fd_table b ! j \<noteq> None"
    by (auto dest: position_SomeD)
  let ?b' = "b\<lparr>fd_table := (fd_table b)[k := Some r]\<rparr>"
  have i: "install_file r b = Some (k, ?b')" using Some k(1) by (simp add: install_file_def alloc_fd_def upd_def)
  show ?thesis by (rule that [OF i]) (use k in \<open>auto simp: desc_def fun_eq_iff nth_list_update\<close>)
qed

lemma fd_file_slot: "fd < 2 ^ 64 \<Longrightarrow> fd_file (of_nat fd) b = desc b fd"
  by (simp add: fd_file_def desc_def unat_of_nat take_bit_eq_mod)

text \<open>Moving a file to a low descriptor.\<close>

lemma pipe_to_slot:
  assumes "desc b fd = Some r" "fd \<noteq> target" "fd < 2 ^ 64" "\<And>j. j < target \<Longrightarrow> desc b j \<noteq> None"
  obtains b' where "dup_fd fd (close_fd target b) = Some (target, b')" "desc b' = (desc b)(target \<mapsto> r)" "same_rest b b'"
    "length (fd_table b') \<le> Suc (length (fd_table b))"
proof -
  let ?c = "close_fd target b"
  have f: "fd_file (of_nat fd) ?c = Some r" using assms(1-3) by (simp add: fd_file_slot close_fd_slot)
  obtain v b' where v: "install_file r ?c = Some (v, b')" "desc ?c v = None" "\<And>j. j < v \<Longrightarrow> desc ?c j \<noteq> None"
    "desc b' = (desc ?c)(v \<mapsto> r)" "same_rest ?c b'" "length (fd_table b') \<le> Suc (length (fd_table ?c))"
    by (rule install_slot [of r ?c]) blast
  have "v = target"
  proof (rule linorder_cases [of v target])
    assume "v < target"
    then show ?thesis using v(2) assms(4) by (auto simp: close_fd_slot)
  next
    assume "target < v"
    then show ?thesis using v(3) [of target] by (simp add: close_fd_slot)
  qed
  with v f have "dup_fd fd ?c = Some (target, b')" "desc b' = (desc b)(target \<mapsto> r)" by (simp_all add: dup_fd_def close_fd_slot)
  moreover have "same_rest b b'" using close_fd_slot(2) v(5) by (rule same_rest_trans)
  ultimately show ?thesis using that v(6) by (simp add: close_fd_slot)
qed

lemma redirect_slot:
  assumes "\<And>j. j < 3 \<Longrightarrow> desc b j \<noteq> None" "target < 3" "length (fd_table b) + 2 < 2 ^ 64"
  obtains b' where "redirect_fd target (Some r) b = Some (Plumbed b')" "desc b' = (desc b)(target \<mapsto> r)" "same_rest b b'"
    "length (fd_table b') \<le> length (fd_table b) + 2"
proof -
  obtain fd b1 where b1: "install_file r b = Some (fd, b1)" "desc b fd = None" "\<And>j. j < fd \<Longrightarrow> desc b j \<noteq> None"
    "desc b1 = (desc b)(fd \<mapsto> r)" "same_rest b b1" "length (fd_table b1) \<le> Suc (length (fd_table b))" "fd \<le> length (fd_table b)"
    by (rule install_slot [of r b]) blast
  have fd: "3 \<le> fd" using b1(2) assms(1) [of fd] by (cases "fd < 3") auto
  have low: "desc b1 j \<noteq> None" if "j < target" for j using that assms(1) [of j] assms(2) by (simp add: b1(4))
  obtain b2 where b2: "dup_fd fd (close_fd target b1) = Some (target, b2)" "desc b2 = (desc b1)(target \<mapsto> r)" "same_rest b1 b2"
    "length (fd_table b2) \<le> Suc (length (fd_table b1))"
    by (rule pipe_to_slot [of b1 fd r target]) (use b1(4,7) fd low assms(2,3) in auto)
  show ?thesis
  proof (rule that [of "close_fd fd b2"])
    show "redirect_fd target (Some r) b = Some (Plumbed (close_fd fd b2))" using b1(1) b2(1) by (simp add: redirect_fd_def)
    show "desc (close_fd fd b2) = (desc b)(target \<mapsto> r)"
      using fd assms(2) b1(2) by (auto simp: close_fd_slot b2(2) b1(4) fun_eq_iff)
    show "same_rest b (close_fd fd b2)" using b1(5) b2(3) close_fd_slot(2) same_rest_trans by blast
    show "length (fd_table (close_fd fd b2)) \<le> length (fd_table b) + 2" using b1(6) b2(4) by (simp add: close_fd_slot)
  qed
qed

lemma redirect_step:
  assumes "\<And>j. j < 3 \<Longrightarrow> desc b j \<noteq> None" "target < 3" "length (fd_table b) + 2 < 2 ^ 64" "\<And>path. p = Some path \<Longrightarrow> opn path \<noteq> None"
  obtains b' where "(case p of None \<Rightarrow> Some (Plumbed b) | Some path \<Rightarrow> redirect_fd target (opn path) b) = Some (Plumbed b')"
    "desc b' = (desc b)(target := (case p of None \<Rightarrow> desc b target | Some path \<Rightarrow> opn path))" "same_rest b b'"
    "length (fd_table b') \<le> length (fd_table b) + 2" "\<And>j. j < 3 \<Longrightarrow> desc b' j \<noteq> None"
proof (cases p)
  case None
  then show ?thesis using that [of b] assms(1) by simp
next
  case (Some path)
  then obtain r where r: "opn path = Some r" using assms(4) by blast
  obtain b' where b': "redirect_fd target (Some r) b = Some (Plumbed b')" "desc b' = (desc b)(target \<mapsto> r)" "same_rest b b'"
    "length (fd_table b') \<le> length (fd_table b) + 2" by (rule redirect_slot [OF assms(1-3), of r])
  show ?thesis by (rule that [of b']) (use b' Some r assms(1) in auto)
qed

lemma pipe_step:
  assumes "\<And>j. j < 3 \<Longrightarrow> desc b j \<noteq> None" "target < 3" "3 \<le> fd" "fd < 2 ^ 64" "desc b fd \<noteq> None"
  obtains b' where "pipe_to target fd b = Some (Plumbed b')" "desc b' = (desc b)(target := desc b fd)" "same_rest b b'"
    "\<And>j. j < 3 \<Longrightarrow> desc b' j \<noteq> None"
proof -
  obtain r where r: "desc b fd = Some r" using assms(5) by blast
  obtain b' where b': "dup_fd fd (close_fd target b) = Some (target, b')" "desc b' = (desc b)(target \<mapsto> r)" "same_rest b b'"
    by (rule pipe_to_slot [of b fd r target]) (use r assms in auto)
  show ?thesis by (rule that [of b']) (use b' r assms(1) in \<open>auto simp: pipe_to_def\<close>)
qed

definition pipe_fds :: "(nat \<times> nat) list \<Rightarrow> nat set" where
  "pipe_fds ps = set (map fst ps) \<union> set (map snd ps)"

lemma pipe_fds_Cons: "pipe_fds ((r, w) # ps) = insert r (insert w (pipe_fds ps))"
  by (auto simp: pipe_fds_def)

lemma close_pipes_slot: "desc (close_pipes ps b) fd = (if fd \<in> pipe_fds ps then None else desc b fd)" "same_rest b (close_pipes ps b)"
proof -
  show "desc (close_pipes ps b) fd = (if fd \<in> pipe_fds ps then None else desc b fd)"
  proof (induction ps arbitrary: b)
    case (Cons p ps)
    then show ?case by (cases p) (simp add: pipe_fds_Cons close_fd_slot)
  qed (simp add: pipe_fds_def)
  show "same_rest b (close_pipes ps b)"
  proof (induction ps arbitrary: b)
    case (Cons p ps)
    obtain r w where p: "p = (r, w)" by force
    have "same_rest b (close_fd w (close_fd r b))" using close_fd_slot(2) same_rest_trans by blast
    with Cons show ?case unfolding p close_pipes.simps using same_rest_trans by blast
  qed simp
qed

subsection \<open>Job numbers\<close>

definition jobs_ok :: "shell \<Rightarrow> bool" where
  "jobs_ok sh \<longleftrightarrow> distinct (map jid (jobs sh)) \<and> (\<forall>j \<in> set (jobs sh). jid j < next_jid sh \<and> \<not> is_done j)"

lemma jobs_ok_new: "jobs_ok (shell_new pgrp)"
  by (simp add: jobs_ok_def shell_new_def)

lemma jobs_ok_register:
  assumes "jobs_ok sh" "next_jid sh \<noteq> - 1"
  shows "jobs_ok (fst (register_job pgrp ps cmd bg sh))" "jobs_ok (fst (register_stopped_job pgrp ps cmd sh))"
proof -
  have n: "next_jid sh < next_jid sh + 1" 
  proof -
    have "1 + next_jid sh \<noteq> 0" using assms(2) by (metis add.commute eq_neg_iff_add_eq_0)
    from unatSuc [OF this] show ?thesis by (simp add: word_less_nat_alt add.commute)
  qed
  then have l: "jid j < next_jid sh + 1" "jid j \<noteq> next_jid sh" if "j \<in> set (jobs sh)" for j
    using assms(1) that by (auto simp: jobs_ok_def intro: less_trans)
  then show "jobs_ok (fst (register_job pgrp ps cmd bg sh))" "jobs_ok (fst (register_stopped_job pgrp ps cmd sh))"
    using assms(1) n by (auto simp: jobs_ok_def register_job_def register_stopped_job_def Let_def)
qed

lemma reap_all_jids: "reap_all os js s = (js', out, s') \<Longrightarrow> map jid js' = map jid js"
proof (induction js arbitrary: js' out s s')
  case (Cons j js)
  then show ?case by (auto simp: reap_job_def Let_def split: prod.splits if_splits)
qed simp

lemma jobs_ok_reap: "jobs_ok sh \<Longrightarrow> jobs_ok (fst (reap_jobs os sh s))"
proof -
  assume ok: "jobs_ok sh"
  obtain js out s' where r: "reap_all os (jobs sh) s = (js, out, s')" by (cases "reap_all os (jobs sh) s") auto
  have e: "map jid js = map jid (jobs sh)" by (rule reap_all_jids [OF r])
  have "distinct (map jid (filter P js))" for P using ok e by (auto simp: jobs_ok_def intro: distinct_map_filter)
  moreover have "jid j < next_jid sh" if "j \<in> set js" for j
  proof -
    have "jid j \<in> set (map jid (jobs sh))" using that e by (metis image_eqI list.set_map)
    then show ?thesis using ok by (auto simp: jobs_ok_def)
  qed
  ultimately show ?thesis using r by (auto simp: reap_jobs_def jobs_ok_def)
qed

lemma jobs_ok_status: "jobs_ok sh \<Longrightarrow> i < length (jobs sh) \<Longrightarrow> st = Running_job \<or> st = Suspended_job \<Longrightarrow> jobs_ok (set_status i st sh)"
proof -
  assume a: "jobs_ok sh" "i < length (jobs sh)" "st = Running_job \<or> st = Suspended_job"
  have "map jid ((jobs sh)[i := (jobs sh ! i)\<lparr>status := st\<rparr>]) = map jid (jobs sh)"
    using a(2) by (intro nth_equalityI) (auto simp: nth_list_update)
  moreover have "\<forall>j \<in> set ((jobs sh)[i := (jobs sh ! i)\<lparr>status := st\<rparr>]). jid j < next_jid sh \<and> \<not> is_done j"
    using a by (auto simp: jobs_ok_def dest!: subsetD [OF set_update_subset_insert])
  ultimately show ?thesis using a(1) by (simp add: jobs_ok_def set_status_def)
qed

lemma job_index_bound: "job_index as sh = Some i \<Longrightarrow> i < length (jobs sh)"
  by (auto simp: job_index_def dest: position_Some_bound split: list.splits option.splits if_splits)

lemma jobs_ok_bg: "jobs_ok sh \<Longrightarrow> jobs_ok (fst (builtin_bg os as sh s))"
  by (auto simp: builtin_bg_def Let_def jobs_ok_status job_index_bound split: option.splits job_status.splits prod.splits)

lemma jobs_ok_fg:
  assumes "jobs_ok sh" "builtin_fg os as sh s = Some (sh', out, s')"
  shows "jobs_ok sh'"
proof (cases "job_index as sh")
  case None
  with assms show ?thesis by (simp add: builtin_fg_def)
next
  case (Some i)
  note i = job_index_bound [OF Some]
  have del: "jobs_ok (x\<lparr>jobs := take i (jobs x) @ drop (Suc i) (jobs x)\<rparr>)" if "jobs_ok x" for x
    using that distinct_remove_nth [of jid "jobs x" i] by (auto simp: jobs_ok_def dest: in_set_takeD in_set_dropD)
  have st: "jobs_ok (set_status i st sh)" if "st = Running_job \<or> st = Suspended_job" for st using assms(1) i that by (rule jobs_ok_status)
  have st2: "jobs_ok (set_status i Suspended_job (set_status i Running_job sh))"
    by (rule jobs_ok_status [OF st]) (simp_all add: set_status_def i)
  show ?thesis using assms Some del [OF assms(1)] del [OF st] st st2
    by (auto simp: builtin_fg_def Let_def bind_Some_conv split: prod.splits if_splits)
qed

lemma jobs_ok_register':
  assumes "jobs_ok sh" "next_jid sh \<noteq> - 1"
  shows "register_job pgrp ps cmd bg sh = (sh', out) \<Longrightarrow> jobs_ok sh'" "register_stopped_job pgrp ps cmd sh = (sh', out) \<Longrightarrow> jobs_ok sh'"
  using jobs_ok_register [OF assms] by (metis fst_conv)+

lemma jobs_ok_finish:
  assumes "jobs_ok sh" "next_jid sh \<noteq> - 1" "finish_pipeline os cmd pgrp ps sh s = Some (code, sh', out, s')"
  shows "jobs_ok sh'"
proof (cases "background cmd")
  case True
  with assms show ?thesis by (auto simp: finish_pipeline_def Let_def dest: jobs_ok_register' split: prod.splits)
next
  case False
  then obtain last_code halted t where "wait_children os ps 0 False (os_tcsetpgrp os pgrp s) = Some (last_code, halted, t)"
    using assms(3) by (auto simp: finish_pipeline_def Let_def bind_Some_conv)
  with False assms show ?thesis
    by (cases halted) (auto simp: finish_pipeline_def Let_def dest: jobs_ok_register' split: prod.splits)
qed

lemma jobs_ok_pipeline:
  assumes "jobs_ok sh" "next_jid sh \<noteq> - 1" "run_pipeline os cmd sh s = Some (code, sh', out, s')"
  shows "jobs_ok sh'"
  using assms(3) jobs_ok_finish [OF assms(1,2)] by (auto simp: run_pipeline_def Let_def split: prod.splits)

text \<open>Whatever a command does, the numbers of the jobs stay distinct and no ended job is listed.\<close>

lemma jobs_ok_jobs: "jobs_ok sh \<Longrightarrow> builtin_jobs os sh s = (sh', out, s') \<Longrightarrow> jobs_ok sh'"
proof -
  assume a: "jobs_ok sh" "builtin_jobs os sh s = (sh', out, s')"
  then have "sh' = fst (reap_jobs os sh s)" by (auto simp: builtin_jobs_def split: prod.splits)
  with jobs_ok_reap [OF a(1)] show ?thesis by simp
qed

lemma jobs_ok_history: "jobs_ok sh \<Longrightarrow> builtin_history as sh = (sh', out) \<Longrightarrow> jobs_ok sh'"
  by (auto simp: builtin_history_def jobs_ok_def split: list.splits if_splits)

lemma jobs_ok_bg': "jobs_ok sh \<Longrightarrow> builtin_bg os as sh s = (sh', out, s') \<Longrightarrow> jobs_ok sh'"
  using jobs_ok_bg by (metis fst_conv)

lemma jobs_ok_builtin:
  assumes "jobs_ok sh" "builtin os st sh s = Some (Some (sh', out, s'))"
  shows "jobs_ok sh'"
  using assms by (auto simp: builtin_def dest: jobs_ok_jobs jobs_ok_history jobs_ok_bg' jobs_ok_fg split: if_splits prod.splits)

lemma jobs_ok_execute:
  assumes "jobs_ok sh" "next_jid sh \<noteq> - 1" "execute os cmd sh s = Some (v, sh', out, s')"
  shows "jobs_ok sh'"
  using assms(3) assms(1) jobs_ok_builtin [OF assms(1)] jobs_ok_pipeline [OF assms(1,2)]
  by (auto simp: execute_def Let_def bind_Some_conv split: list.splits if_splits option.splits)

subsection \<open>The descriptors of a stage\<close>

definition redirected :: "(str \<Rightarrow> u32 \<Rightarrow> file_ref option) \<Rightarrow> stage \<Rightarrow> pcb \<Rightarrow> nat \<Rightarrow> file_ref option" where
  "redirected opened st b = (desc b)
     (0 := (case st_input st of None \<Rightarrow> desc b 0 | Some path \<Rightarrow> opened path RDONLY),
      1 := (case st_output st of None \<Rightarrow> desc b 1 | Some path \<Rightarrow> opened path (out_flags (append_mode st))),
      2 := (case st_stderr st of None \<Rightarrow> desc b 2 | Some path \<Rightarrow> opened path (out_flags False)))"

lemma child_redirections_ok:
  assumes "\<And>j. j < 3 \<Longrightarrow> desc b j \<noteq> None" and "length (fd_table b) + 6 < 2 ^ 64"
    and "\<And>path flags. st_input st = Some path \<or> st_output st = Some path \<or> st_stderr st = Some path \<Longrightarrow> opened path flags \<noteq> None"
  obtains b' where "child_redirections opened st b = Some (Plumbed b')" "desc b' = redirected opened st b" "same_rest b b'"
    "\<And>j. j < 3 \<Longrightarrow> desc b' j \<noteq> None"
proof -
  obtain b1 where b1: "(case st_input st of None \<Rightarrow> Some (Plumbed b) | Some path \<Rightarrow> redirect_fd 0 (opened path RDONLY) b) = Some (Plumbed b1)"
    "desc b1 = (desc b)(0 := (case st_input st of None \<Rightarrow> desc b 0 | Some path \<Rightarrow> opened path RDONLY))" "same_rest b b1"
    "length (fd_table b1) \<le> length (fd_table b) + 2" "\<And>j. j < 3 \<Longrightarrow> desc b1 j \<noteq> None"
    by (rule redirect_step [of b 0 "st_input st" "\<lambda>path. opened path RDONLY"]) (use assms in auto)
  obtain b2 where b2: "(case st_output st of None \<Rightarrow> Some (Plumbed b1) | Some path \<Rightarrow> redirect_fd 1 (opened path (out_flags (append_mode st))) b1)
      = Some (Plumbed b2)"
    "desc b2 = (desc b1)(1 := (case st_output st of None \<Rightarrow> desc b1 1 | Some path \<Rightarrow> opened path (out_flags (append_mode st))))" "same_rest b1 b2"
    "length (fd_table b2) \<le> length (fd_table b1) + 2" "\<And>j. j < 3 \<Longrightarrow> desc b2 j \<noteq> None"
    by (rule redirect_step [of b1 1 "st_output st" "\<lambda>path. opened path (out_flags (append_mode st))"]) (use b1(4,5) assms(2,3) in auto)
  obtain b3 where b3: "(case st_stderr st of None \<Rightarrow> Some (Plumbed b2) | Some path \<Rightarrow> redirect_fd 2 (opened path (out_flags False)) b2)
      = Some (Plumbed b3)"
    "desc b3 = (desc b2)(2 := (case st_stderr st of None \<Rightarrow> desc b2 2 | Some path \<Rightarrow> opened path (out_flags False)))" "same_rest b2 b3"
    "\<And>j. j < 3 \<Longrightarrow> desc b3 j \<noteq> None"
    by (rule redirect_step [of b2 2 "st_stderr st" "\<lambda>path. opened path (out_flags False)"]) (use b1(4) b2(4,5) assms(2,3) in auto)
  show ?thesis
  proof (rule that [of b3])
    show "child_redirections opened st b = Some (Plumbed b3)"
      unfolding child_redirections_def b1(1) by (simp add: then_child_def b2(1) b3(1) del: One_nat_def)
    show "desc b3 = redirected opened st b"
      by (rule ext) (simp add: redirected_def b3(2) b2(2) b1(2) del: One_nat_def split: option.splits)
    show "same_rest b b3" using b1(3) b2(3) b3(3) same_rest_trans by meson
  qed (fact b3(4))
qed

lemma child_pipes_ok:
  assumes low: "\<And>j. j < 3 \<Longrightarrow> desc b j \<noteq> None" and small: "\<And>fd. fd \<in> pipe_fds pipes \<Longrightarrow> fd < 2 ^ 64"
    and fds: "\<And>fd. fd \<in> pipe_fds pipes \<Longrightarrow> 3 \<le> fd \<and> desc b fd \<noteq> None" and "i < n" "length pipes = n - 1"
  obtains b' where "child_pipes i n pipes b = Some (Plumbed b')" "same_rest b b'"
    "desc b' 0 = (if 0 < i then desc b (fst (pipes ! (i - 1))) else desc b 0)"
    "desc b' 1 = (if i + 1 < n then desc b (snd (pipes ! i)) else desc b 1)" "desc b' 2 = desc b 2"
    "\<And>fd. 3 \<le> fd \<Longrightarrow> desc b' fd = (if fd \<in> pipe_fds pipes then None else desc b fd)"
proof -
  obtain b4 where b4: "(if 0 < i then do { p \<leftarrow> idx pipes (i - 1); pipe_to 0 (fst p) b } else Some (Plumbed b)) = Some (Plumbed b4)"
    "desc b4 = (desc b)(0 := (if 0 < i then desc b (fst (pipes ! (i - 1))) else desc b 0))" "same_rest b b4" "\<And>j. j < 3 \<Longrightarrow> desc b4 j \<noteq> None"
  proof (cases "0 < i")
    case True
    have l: "i - 1 < length pipes" using True assms(4,5) by simp
    then have m: "fst (pipes ! (i - 1)) \<in> pipe_fds pipes" by (simp add: pipe_fds_def)
    obtain c where c: "pipe_to 0 (fst (pipes ! (i - 1))) b = Some (Plumbed c)" "desc c = (desc b)(0 := desc b (fst (pipes ! (i - 1))))"
      "same_rest b c" "\<And>j. j < 3 \<Longrightarrow> desc c j \<noteq> None"
      by (rule pipe_step [of b 0 "fst (pipes ! (i - 1))"]) (use low fds [OF m] small [OF m] in auto)
    show ?thesis by (rule that [of c]) (use c l True in \<open>auto simp: idx_in_range\<close>)
  next
    case False
    then show ?thesis using that [of b] low by simp
  qed
  have keep: "desc b4 fd = desc b fd" if "3 \<le> fd" for fd using that by (simp add: b4(2))
  obtain b5 where b5: "(if i + 1 < n then do { p \<leftarrow> idx pipes i; pipe_to 1 (snd p) b4 } else Some (Plumbed b4)) = Some (Plumbed b5)"
    "desc b5 = (desc b4)(1 := (if i + 1 < n then desc b (snd (pipes ! i)) else desc b4 1))" "same_rest b4 b5"
  proof (cases "i + 1 < n")
    case True
    have l: "i < length pipes" using True assms(5) by simp
    then have m: "snd (pipes ! i) \<in> pipe_fds pipes" by (simp add: pipe_fds_def)
    obtain c where c: "pipe_to 1 (snd (pipes ! i)) b4 = Some (Plumbed c)" "desc c = (desc b4)(1 := desc b4 (snd (pipes ! i)))" "same_rest b4 c"
      by (rule pipe_step [of b4 1 "snd (pipes ! i)"]) (use b4(4) fds [OF m] small [OF m] keep in auto)
    show ?thesis by (rule that [of c]) (use c l True fds [OF m] keep in \<open>auto simp: idx_in_range\<close>)
  next
    case False
    then show ?thesis using that [of b4] by simp
  qed
  have nofd: "j \<notin> pipe_fds pipes" if "j < 3" for j using fds [of j] that by (cases "j \<in> pipe_fds pipes") auto
  show ?thesis
  proof (rule that [of "close_pipes pipes b5"])
    show "child_pipes i n pipes b = Some (Plumbed (close_pipes pipes b5))"
      unfolding child_pipes_def b4(1) by (simp add: then_child_def b5(1) del: One_nat_def)
    show "same_rest b (close_pipes pipes b5)" using b4(3) b5(3) close_pipes_slot(2) same_rest_trans by meson
  qed (simp_all add: close_pipes_slot(1) nofd b5(2) b4(2) del: One_nat_def)
qed

text \<open>
  Suppose that the shell's descriptors 0 to 2 are open, that its pipes have descriptors above 2, and that
  the files of the redirections can be opened. Then no assertion of the child fails, and its standard
  input is the read end of the pipe before it, or else the file of its redirection, or else that of the
  shell; likewise its standard output and the pipe after it; its error output is the file of its
  redirection or that of the shell. No end of any pipe stays open under another number, so that the
  readers see the end of the data, and nothing else of the process changes.
\<close>

lemma pipeline_descriptors:
  assumes "\<And>j. j < 3 \<Longrightarrow> desc b j \<noteq> None" and "length (fd_table b) + 6 < 2 ^ 64"
    and "\<And>fd. fd \<in> pipe_fds pipes \<Longrightarrow> 3 \<le> fd \<and> desc b fd \<noteq> None" and "i < n" "length pipes = n - 1"
    and "\<And>path flags. st_input st = Some path \<or> st_output st = Some path \<or> st_stderr st = Some path \<Longrightarrow> opened path flags \<noteq> None"
  shows "\<exists>b'. child_fds opened i n pipes st b = Some (Plumbed b') \<and> same_rest b b'
    \<and> desc b' 0 = (if 0 < i then desc b (fst (pipes ! (i - 1))) else redirected opened st b 0)
    \<and> desc b' 1 = (if i + 1 < n then desc b (snd (pipes ! i)) else redirected opened st b 1)
    \<and> desc b' 2 = redirected opened st b 2
    \<and> (\<forall>fd. 3 \<le> fd \<longrightarrow> desc b' fd = (if fd \<in> pipe_fds pipes then None else desc b fd))"
proof -
  have small: "fd < 2 ^ 64" if "fd \<in> pipe_fds pipes" for fd
    using assms(3) [OF that] assms(2) by (cases "fd < length (fd_table b)") (auto simp: desc_def)
  obtain b3 where b3: "child_redirections opened st b = Some (Plumbed b3)" "desc b3 = redirected opened st b" "same_rest b b3"
    "\<And>j. j < 3 \<Longrightarrow> desc b3 j \<noteq> None"
    by (rule child_redirections_ok [of b st opened]) (use assms(1,2,6) in blast)+
  have keep: "desc b3 fd = desc b fd" if "3 \<le> fd" for fd using that by (simp add: b3(2) redirected_def)
  have fds: "3 \<le> fd \<and> desc b3 fd \<noteq> None" if "fd \<in> pipe_fds pipes" for fd using assms(3) [OF that] keep by simp
  obtain b' where b': "child_pipes i n pipes b3 = Some (Plumbed b')" "same_rest b3 b'"
    "desc b' 0 = (if 0 < i then desc b3 (fst (pipes ! (i - 1))) else desc b3 0)"
    "desc b' 1 = (if i + 1 < n then desc b3 (snd (pipes ! i)) else desc b3 1)" "desc b' 2 = desc b3 2"
    "\<And>fd. 3 \<le> fd \<Longrightarrow> desc b' fd = (if fd \<in> pipe_fds pipes then None else desc b3 fd)"
  proof (rule child_pipes_ok [of b3 pipes i n])
  qed (use b3(4) small fds assms(4,5) in \<open>simp | rule that\<close>)+
  have "desc b' 0 = (if 0 < i then desc b (fst (pipes ! (i - 1))) else redirected opened st b 0)"
    unfolding b'(3) using assms(3-5) keep [of "fst (pipes ! (i - 1))"] by (auto simp: b3(2) pipe_fds_def)
  moreover have "desc b' 1 = (if i + 1 < n then desc b (snd (pipes ! i)) else redirected opened st b 1)"
    unfolding b'(4) using assms(3-5) keep [of "snd (pipes ! i)"] by (auto simp: b3(2) pipe_fds_def)
  moreover have "child_fds opened i n pipes st b = Some (Plumbed b')" using b3(1) b'(1) by (simp add: child_fds_def then_child_def)
  moreover have "desc b' fd = (if fd \<in> pipe_fds pipes then None else desc b fd)" if "3 \<le> fd" for fd
    using b'(6) [OF that] keep [OF that] by simp
  moreover have "desc b' 2 = redirected opened st b 2" using b'(5) b3(2) by simp
  moreover note same_rest_trans [OF b3(3) b'(2)]
  ultimately show ?thesis by blast
qed

text \<open>The middle of three stages, with a redirection that its pipe overrides.\<close>

lemma pipeline_descriptors_example:
  "\<exists>b'. child_fds (\<lambda>_ _. Some 77) 1 3 [(3, 4), (5, 6)] (stage_default\<lparr>st_input := Some [], st_stderr := Some []\<rparr>)
      ((example_pcb 2 0)\<lparr>fd_table := [Some 10, Some 11, Some 12, Some 20, Some 21, Some 22, Some 23, Some 30]\<rparr>) = Some (Plumbed b')
    \<and> desc b' 0 = Some 20 \<and> desc b' 1 = Some 23 \<and> desc b' 2 = Some 77 \<and> desc b' 3 = None \<and> desc b' 6 = None \<and> desc b' 7 = Some 30"
proof -
  let ?b = "(example_pcb 2 0)\<lparr>fd_table := [Some 10, Some 11, Some 12, Some 20, Some 21, Some 22, Some 23, Some 30]\<rparr>"
  let ?st = "stage_default\<lparr>st_input := Some [], st_stderr := Some []\<rparr>"
  have p: "pipe_fds [(3, 4), (5, 6)] = {3, 4, 5, 6}" by (auto simp: pipe_fds_def)
  have dn: "desc ?b 0 = Some 10" "desc ?b 1 = Some 11" "desc ?b 2 = Some 12" "desc ?b 3 = Some 20" "desc ?b 4 = Some 21" "desc ?b 5 = Some 22"
    "desc ?b 6 = Some 23" "desc ?b 7 = Some 30" "desc ?b 8 = None" by (simp_all add: desc_def)
  have lo: "desc ?b j \<noteq> None" if "j < 3" for j
  proof -
    from that have "j = 0 \<or> j = 1 \<or> j = 2" by linarith
    then show ?thesis by (elim disjE) (simp_all only: dn option.distinct not_False_eq_True)
  qed
  have hi: "3 \<le> fd \<and> desc ?b fd \<noteq> None" if "fd \<in> pipe_fds [(3, 4), (5, 6)]" for fd using that dn unfolding p by auto
  obtain b' where w: "child_fds (\<lambda>_ _. Some 77) 1 3 [(3, 4), (5, 6)] ?st ?b = Some (Plumbed b')" "desc b' 0 = desc ?b 3" "desc b' 1 = desc ?b 6"
    "desc b' 2 = Some 77" "\<forall>fd. 3 \<le> fd \<longrightarrow> desc b' fd = (if fd \<in> pipe_fds [(3, 4), (5, 6)] then None else desc ?b fd)"
    using pipeline_descriptors [of ?b "[(3, 4), (5, 6)]" 1 3 ?st "\<lambda>_ _. Some 77", OF lo _ hi] by (auto simp: stage_default_def redirected_def)
  then show ?thesis by (intro exI [of _ b'] conjI) (simp_all add: dn p)
qed

end
