(* ===== verification/Spec2Isabelle.thy ===== *)
theory Spec2Isabelle
  imports Mmap CowFork Namespace Fairness IntrCell Traps LineEditor ShellJobs
begin

text \<open>
  The program is a teaching operating system for RISC-V: a kernel (os/), the file system crate it
  links (easy-fs/) and user programs (user/). The kernel manages physical frames, builds Sv39 page
  tables and address spaces with copy-on-write fork, runs threads under a priority scheduler with
  aging, offers mutexes, semaphores, condition variables, timers, pipes and files, and stores files
  through a block cache on a disk. The theories follow the crates file by file; each operation is a
  function on explicit state with the guards and early returns of the code.

  \<^bold>\<open>Conventions.\<close> An operation that can panic returns an option, None being the panic; a Rust
  Option is a second option inside it. Machine integers of the memory and task parts are words and
  wrap, as the kernel is built in release mode; the file system's sizes are natural numbers with the
  reduction modulo \<open>2 ^ 32\<close> written out. A vector is a list. Reference counted pointers are
  addresses into a heap that the state carries, and dropping a value is an explicit operation. Locks
  of easy-fs and the interrupt masking of the kernel's cells do not appear: the operations run
  without interruption between two switches, as they do on the single processor.

  \<^bold>\<open>Memory\<close> (os/src/mm). \<^theory_text>\<open>Address\<close>: address.rs, the newtypes of addresses and page
  numbers, rounding, table indexes and ranges. \<^theory_text>\<open>Refcount\<close>, \<^theory_text>\<open>FrameAllocator\<close>:
  frame_allocator.rs, the stack allocator with reference counts as an instance of the contract of
  counted resources; no frame is handed out while a tracker refers to it. \<^theory_text>\<open>PageTable\<close>:
  page_table.rs, entries and the three-level walk over physical memory, as an instance of
  \<^theory_text>\<open>Simulation\<close>: every sequence of operations behaves like one on a map from page numbers to
  entries, panics included; user buffers cover the requested range. \<^theory_text>\<open>MemorySet\<close>:
  memory_set.rs. \<^theory_text>\<open>Mmap\<close>: what mmap and munmap do. \<^theory_text>\<open>CowFork\<close>: the address space
  of a forked child reads as the parent's did, and a write fault changes no other address space.

  \<^bold>\<open>File system\<close> (easy-fs/src). \<^theory_text>\<open>BlockCache\<close>: block_cache.rs refines the disk, and
  synchronising makes it durable. \<^theory_text>\<open>Bytes\<close>, \<^theory_text>\<open>Bitmap\<close>: little-endian fields,
  bitmap.rs as a set of numbers. \<^theory_text>\<open>Layout\<close>, \<^theory_text>\<open>BlockMap\<close>, \<^theory_text>\<open>FileData\<close>:
  layout.rs, the block lists of inodes with their direct and indirect parts, growth and clearing,
  reads and writes of file contents. \<^theory_text>\<open>EasyFs\<close>: efs.rs. \<^theory_text>\<open>Vfs\<close>,
  \<^theory_text>\<open>Files\<close>, \<^theory_text>\<open>Directory\<close>, \<^theory_text>\<open>Namespace\<close>: vfs.rs, writing a file leaves
  every other file as it was, directories refine association lists, creation and removal keep
  ownership of blocks and inodes. Above the cache the disk itself is the state, which the first
  result justifies; flushing does not change that view and is left out there.

  \<^bold>\<open>Tasks\<close> (os/src/task, os/src/sync, os/src/timer.rs). \<^theory_text>\<open>IdPool\<close>, \<^theory_text>\<open>Ids\<close>:
  id.rs, identifiers are unique and kernel stacks disjoint. \<^theory_text>\<open>Scheduler\<close>: the scheduling
  record and both policies, interpretations of one contract; aging equals a reference definition.
  \<^theory_text>\<open>Tasks\<close>: manager.rs, processor.rs and the switches of mod.rs as a step relation of all
  interleavings, with the invariant that ready tasks are queued exactly once. \<^theory_text>\<open>Fairness\<close>:
  no ready task starves. \<^theory_text>\<open>Sync\<close>: mutexes exclude, semaphores count. \<^theory_text>\<open>Timer\<close>:
  due sleepers are woken, and how one far deadline stops that.

  \<^bold>\<open>Pipes\<close> (os/src/fs/pipe.rs). \<^theory_text>\<open>Fifo\<close>, \<^theory_text>\<open>Pipe\<close>: the ring buffer is a bounded
  queue; a message longer than the buffer arrives complete and in order when both ends take turns.

  \<^bold>\<open>Bounds.\<close> Loops of the code are structural recursions or functions with a termination proof;
  no definition has fuel. Where a counter of machine width could wrap, the theorem says up to where
  it is claimed: references below \<open>2 ^ 64\<close>, kernel stacks below \<open>2 ^ 24\<close>, deadlines below
  \<open>2 ^ 63\<close>, file sizes within the doubly indirect range.

  \<^bold>\<open>Not modelled.\<close> Assembly, control registers and the TLB; device drivers and the network stack,
  which call packages outside the repository; the ELF parser, a parameter of the loader; console
  output; the user programs.
\<close>

end
